(* ===== verification/LZ4_Prelude.thy ===== *)
theory LZ4_Prelude
  imports Main "HOL-Library.Word" "HOL-Library.Monad_Syntax"
begin

text \<open>
  Shared vocabulary of the development: the byte and word types of the C code, the
  weakest-precondition reading of the option monad (\<open>None\<close> is undefined behaviour: an
  access outside a buffer, an overlapping \<open>memcpy\<close>), and the little-endian codecs that
  \<open>lz4.c\<close>, \<open>_block.c\<close> and \<open>_stream.c\<close> each define for themselves.
\<close>

unbundle bit_operations_syntax

section \<open>Types\<close>

type_synonym byte = "8 word"
type_synonym bytes = "byte list"
type_synonym u16 = "16 word"
type_synonym u32 = "32 word"
type_synonym u64 = "64 word"

text \<open>\<open>INT_MAX\<close>, and the suffix \<open>KB\<close> of the C sources.\<close>

abbreviation INT_MAX :: int where "INT_MAX \<equiv> 2147483647"
abbreviation KB :: "int \<Rightarrow> int" where "KB n \<equiv> n * 1024"

named_theorems wp_simps "rules that push wp through a computation"

section \<open>Weakest preconditions of a checked computation\<close>

text \<open>
  \<open>wp c Q\<close>: the computation \<open>c\<close> has no undefined behaviour and its result satisfies \<open>Q\<close>.
\<close>

definition wp :: "'a option \<Rightarrow> ('a \<Rightarrow> bool) \<Rightarrow> bool" where
  "wp c Q = (case c of None \<Rightarrow> False | Some a \<Rightarrow> Q a)"

lemma wp_Some [wp_simps]: "wp (Some a) Q = Q a"
  by (simp add: wp_def)

lemma wp_None [wp_simps]: "wp None Q = False"
  by (simp add: wp_def)

lemma wp_bind [wp_simps]: "wp (Option.bind c f) Q = wp c (\<lambda>a. wp (f a) Q)"
  by (cases c) (simp_all add: wp_def)

lemma wp_if [wp_simps]: "wp (if b then c else d) Q = ((b \<longrightarrow> wp c Q) \<and> (\<not> b \<longrightarrow> wp d Q))"
  by simp

lemma wp_Let [wp_simps]: "wp (Let a f) Q = wp (f a) Q"
  by simp

lemma wp_case_prod [wp_simps]: "wp (case p of (a, b) \<Rightarrow> f a b) Q = wp (f (fst p) (snd p)) Q"
  by (simp add: case_prod_beta)

lemma wp_case_option [wp_simps]:
  "wp (case x of None \<Rightarrow> c | Some a \<Rightarrow> f a) Q
     = ((x = None \<longrightarrow> wp c Q) \<and> (\<forall>a. x = Some a \<longrightarrow> wp (f a) Q))"
  by (simp split: option.split)

lemma wp_case_sum [wp_simps]:
  "wp (case x of Inl a \<Rightarrow> f a | Inr b \<Rightarrow> g b) Q
     = ((\<forall>a. x = Inl a \<longrightarrow> wp (f a) Q) \<and> (\<forall>b. x = Inr b \<longrightarrow> wp (g b) Q))"
  by (simp split: sum.split)

lemma wp_map_option [wp_simps]: "wp (map_option g c) Q = wp c (\<lambda>a. Q (g a))"
  by (cases c) (simp_all add: wp_def)

lemma wp_mono: "wp c P \<Longrightarrow> (\<And>a. P a \<Longrightarrow> Q a) \<Longrightarrow> wp c Q"
  by (cases c) (simp_all add: wp_def)

lemma wp_conj: "wp c P \<Longrightarrow> wp c Q \<Longrightarrow> wp c (\<lambda>a. P a \<and> Q a)"
  by (cases c) (simp_all add: wp_def)

lemma wp_iff: "wp c Q \<longleftrightarrow> (\<exists>a. c = Some a \<and> Q a)"
  by (cases c) (simp_all add: wp_def)

lemma wpE: "wp c Q \<Longrightarrow> (\<And>a. c = Some a \<Longrightarrow> Q a \<Longrightarrow> R) \<Longrightarrow> R"
  by (auto simp: wp_iff)

section \<open>Lists\<close>

lemma take_eq_pointwiseI:
  assumes "n \<le> length xs" "n \<le> length ys" "\<And>i. i < n \<Longrightarrow> xs ! i = ys ! i"
  shows "take n xs = take n ys"
  using assms by (intro nth_equalityI) auto

lemma take_split: "i \<le> j \<Longrightarrow> take j xs = take i xs @ take (j - i) (drop i xs)"
  by (metis le_add_diff_inverse take_add)

text \<open>The bytes of \<open>xs\<close> from position \<open>i\<close> up to, but not including, position \<open>j\<close>.\<close>

definition seg :: "'a list \<Rightarrow> int \<Rightarrow> int \<Rightarrow> 'a list" where
  "seg xs i j = take (nat (j - i)) (drop (nat i) xs)"

lemma length_seg [simp]:
  "0 \<le> i \<Longrightarrow> i \<le> j \<Longrightarrow> j \<le> int (length xs) \<Longrightarrow> length (seg xs i j) = nat (j - i)"
  by (simp add: seg_def)

lemma seg_append:
  assumes "0 \<le> i" "i \<le> j" "j \<le> k"
  shows "seg xs i k = seg xs i j @ seg xs j k"
proof -
  have "nat (k - i) = nat (j - i) + nat (k - j)" using assms by simp
  moreover have "nat j = nat i + nat (j - i)" using assms by simp
  ultimately show ?thesis by (simp add: seg_def take_add add.commute)
qed

lemma seg_empty [simp]: "seg xs i i = []"
  by (simp add: seg_def)

lemma seg_one: "0 \<le> i \<Longrightarrow> i < int (length xs) \<Longrightarrow> seg xs i (i + 1) = [xs ! nat i]"
  by (simp add: seg_def take_Suc_conv_app_nth[of 0, simplified] hd_drop_conv_nth take_Suc drop_eq_Nil)

lemma nth_seg: "0 \<le> i \<Longrightarrow> k < nat (j - i) \<Longrightarrow> nat i + k < length xs \<Longrightarrow> seg xs i j ! k = xs ! (nat i + k)"
  by (simp add: seg_def)

lemma seg_full: "seg xs 0 (int (length xs)) = xs"
  by (simp add: seg_def)

section \<open>Bytes as numbers\<close>

lemma unat_of_nat_byte: "n < 256 \<Longrightarrow> unat (of_nat n :: byte) = n"
  by (simp add: unat_of_nat take_bit_eq_mod)

lemma uint_of_nat_byte: "n < 256 \<Longrightarrow> uint (of_nat n :: byte) = int n"
  using unat_of_nat_byte[of n] by (simp add: uint_nat)

lemma of_nat_byte_inj: "a < 256 \<Longrightarrow> b < 256 \<Longrightarrow> (of_nat a :: byte) = of_nat b \<longleftrightarrow> a = b"
  by (metis unat_of_nat_byte)

lemma byte_bound: "0 \<le> uint (b :: byte)" "uint (b :: byte) < 256" "unat (b :: byte) < 256"
  using uint_bounded[of b] unsigned_less[of b, where 'a = nat] by simp_all

lemma byte_of_uint: "(of_nat (nat (uint b)) :: byte) = b"
  by simp

text \<open>A byte is its two nibbles.\<close>

lemma uint_high_nibble: "uint (drop_bit 4 (b :: byte)) = uint b div 16"
  by (simp add: drop_bit_eq_div uint_div)

lemma uint_low_nibble: "uint ((b :: byte) AND 15) = uint b mod 16"
proof -
  have "b AND 15 = take_bit 4 b" by (simp add: take_bit_eq_mask mask_eq_exp_minus_1)
  then show ?thesis by (simp add: take_bit_eq_mod uint_mod)
qed

section \<open>Little-endian codecs\<close>

text \<open>\<open>store_le16\<close> / \<open>load_le16\<close> and \<open>store_le32\<close> / \<open>load_le32\<close>: the same four lines in
  \<open>_block.c\<close> and \<open>_stream.c\<close>; \<open>LZ4_writeLE16\<close> and \<open>LZ4_readLE16\<close> of \<open>lz4.c\<close> are the 16-bit pair.\<close>

definition store_le16 :: "u16 \<Rightarrow> bytes" where
  "store_le16 x = [ucast (x AND 0xff), ucast (drop_bit 8 x AND 0xff)]"

definition load_le16 :: "byte \<Rightarrow> byte \<Rightarrow> u16" where
  "load_le16 d0 d1 = ucast d0 OR push_bit 8 (ucast d1)"

definition store_le32 :: "u32 \<Rightarrow> bytes" where
  "store_le32 x = [ucast (x AND 0xff), ucast (drop_bit 8 x AND 0xff),
     ucast (drop_bit 16 x AND 0xff), ucast (drop_bit 24 x AND 0xff)]"

definition load_le32 :: "byte \<Rightarrow> byte \<Rightarrow> byte \<Rightarrow> byte \<Rightarrow> u32" where
  "load_le32 d0 d1 d2 d3 =
     ucast d0 OR push_bit 8 (ucast d1) OR push_bit 16 (ucast d2) OR push_bit 24 (ucast d3)"

lemma uint_load_le16: "uint (load_le16 d0 d1) = uint d0 + 256 * uint d1"
proof -
  have t: "take_bit n (uint d) = uint d" if "8 \<le> n" for n and d :: byte
    using byte_bound[of d] that power_increasing[of 8 n "2::int"]
    by (intro take_bit_int_eq_self) auto
  have "uint (load_le16 d0 d1) = concat_bit 8 (uint d0) (uint d1)"
    by (simp add: load_le16_def unsigned_or_eq unsigned_ucast_eq unsigned_push_bit_eq concat_bit_def
        take_bit_push_bit t)
  also have "\<dots> = uint d0 + 256 * uint d1"
    by (simp add: concat_bit_eq push_bit_eq_mult t)
  finally show ?thesis .
qed

lemma length_store_le16 [simp]: "length (store_le16 x) = 2"
  by (simp add: store_le16_def)

lemma length_store_le32 [simp]: "length (store_le32 x) = 4"
  by (simp add: store_le32_def)

text \<open>The four-byte round trip.\<close>

lemma bit_masked_byte: "bit (ucast (drop_bit k (x :: u32) AND 0xff) :: byte) i \<longleftrightarrow> i < 8 \<and> bit x (k + i)"
proof -
  have m: "(255 :: u32) = mask 8" by (simp add: mask_eq_exp_minus_1)
  show ?thesis unfolding m
    by (auto simp: bit_ucast_iff bit_and_iff bit_drop_bit_eq bit_mask_iff possible_bit_def dest: bit_imp_le_length)
qed

lemma bit_ucast_byte: "bit (ucast (b :: byte) :: u32) n \<longleftrightarrow> n < 32 \<and> bit b n"
  by (simp add: bit_ucast_iff possible_bit_def)

lemma load_store_le32:
  "load_le32 (ucast (x AND 0xff)) (ucast (drop_bit 8 x AND 0xff)) (ucast (drop_bit 16 x AND 0xff))
     (ucast (drop_bit 24 x AND 0xff)) = x"
proof (rule bit_word_eqI)
  fix n assume n: "n < LENGTH(32)"
  have b0: "bit (ucast (x AND 0xff) :: byte) i \<longleftrightarrow> i < 8 \<and> bit x i" for i using bit_masked_byte[of 0 x i] by simp
  have "n < 8 \<or> (8 \<le> n \<and> n < 16) \<or> (16 \<le> n \<and> n < 24) \<or> (24 \<le> n \<and> n < 32)" using n by auto
  then show "bit (load_le32 (ucast (x AND 0xff)) (ucast (drop_bit 8 x AND 0xff)) (ucast (drop_bit 16 x AND 0xff))
     (ucast (drop_bit 24 x AND 0xff))) n = bit x n"
    unfolding load_le32_def using n
    by (auto simp: bit_or_iff bit_push_bit_iff bit_ucast_byte bit_masked_byte b0 possible_bit_def)
qed

end
