(* ===== verification/LZ4_Memory.thy ===== *)
theory LZ4_Memory
  imports LZ4_Prelude
begin

text \<open>
  The memory the C code works on. A buffer is a byte list, a pointer into it is an
  \<open>int\<close> position (pointer arithmetic may leave the buffer, an access may not). Every access
  is checked: it is \<open>None\<close> where the C program would read or write outside the buffer, or
  call \<open>memcpy\<close> on overlapping regions. So "the result is not \<open>None\<close>" is memory safety.
  The copy routines of \<open>lz4.c\<close> that write past their end (\<open>LZ4_wildCopy8\<close>) are
  modelled with that overshoot, and \<open>lz_copied\<close> states what they establish.
\<close>

section \<open>Constants of lz4.c\<close>

abbreviation MINMATCH :: int where "MINMATCH \<equiv> 4"
abbreviation WILDCOPYLENGTH :: int where "WILDCOPYLENGTH \<equiv> 8"
abbreviation LASTLITERALS :: int where "LASTLITERALS \<equiv> 5"
abbreviation MFLIMIT :: int where "MFLIMIT \<equiv> 12"
abbreviation ML_MASK :: int where "ML_MASK \<equiv> 15"
abbreviation RUN_MASK :: int where "RUN_MASK \<equiv> 15"

datatype dict_directive = noDict | withPrefix64k | usingExtDict | usingDictCtx

section \<open>Checked accesses\<close>

definition in_buf :: "'a list \<Rightarrow> int \<Rightarrow> int \<Rightarrow> bool" where
  "in_buf m p n \<longleftrightarrow> 0 \<le> p \<and> 0 \<le> n \<and> p + n \<le> int (length m)"

definition at :: "'a list \<Rightarrow> int \<Rightarrow> 'a" where
  "at m p = m ! nat p"

definition upd :: "'a list \<Rightarrow> int \<Rightarrow> 'a list \<Rightarrow> 'a list" where
  "upd m p bs = take (nat p) m @ bs @ drop (nat p + length bs) m"

text \<open>\<open>*p\<close>, \<open>*p = b\<close>, a read and a write of \<open>n\<close> bytes.\<close>

definition ld :: "bytes \<Rightarrow> int \<Rightarrow> byte option" where
  "ld m p = (if in_buf m p 1 then Some (at m p) else None)"

definition st :: "bytes \<Rightarrow> int \<Rightarrow> byte \<Rightarrow> bytes option" where
  "st m p b = (if in_buf m p 1 then Some (upd m p [b]) else None)"

definition rdn :: "bytes \<Rightarrow> int \<Rightarrow> int \<Rightarrow> bytes option" where
  "rdn m p n = (if in_buf m p n then Some (seg m p (p + n)) else None)"

definition wrn :: "bytes \<Rightarrow> int \<Rightarrow> bytes \<Rightarrow> bytes option" where
  "wrn m p bs = (if in_buf m p (int (length bs)) then Some (upd m p bs) else None)"

text \<open>\<open>memcpy\<close> within one buffer (undefined on overlap), and from another buffer.\<close>

definition memcpy :: "bytes \<Rightarrow> int \<Rightarrow> int \<Rightarrow> int \<Rightarrow> bytes option" where
  "memcpy m d s n =
     (if in_buf m s n \<and> in_buf m d n \<and> (d + n \<le> s \<or> s + n \<le> d)
      then Some (upd m d (seg m s (s + n))) else None)"

definition memcpy_from :: "bytes \<Rightarrow> int \<Rightarrow> bytes \<Rightarrow> int \<Rightarrow> int \<Rightarrow> bytes option" where
  "memcpy_from m d src s n = do { bs \<leftarrow> rdn src s n; wrn m d bs }"

section \<open>Reading through an update\<close>

lemma length_upd [simp]: "in_buf m p (int (length bs)) \<Longrightarrow> length (upd m p bs) = length m"
  by (auto simp: upd_def in_buf_def)

lemma at_upd:
  assumes "in_buf m d (int (length bs))" "0 \<le> p" "p < int (length m)"
  shows "at (upd m d bs) p =
    (if d \<le> p \<and> p < d + int (length bs) then at bs (p - d) else at m p)"
  using assms by (auto simp: at_def upd_def in_buf_def nth_append nat_diff_distrib min_def
      intro!: arg_cong[where f = "\<lambda>i. _ ! i"])

lemma upd_same: "in_buf m p 1 \<Longrightarrow> upd m p [at m p] = m"
  using id_take_nth_drop[of "nat p" m] by (auto simp: upd_def at_def in_buf_def nat_less_iff)

lemma at_seg: "0 \<le> i \<Longrightarrow> 0 \<le> k \<Longrightarrow> k < j - i \<Longrightarrow> j \<le> int (length m) \<Longrightarrow> at (seg m i j) k = at m (i + k)"
  by (simp add: at_def seg_def nat_add_distrib)

lemma int_less_one_iff: "0 \<le> k \<and> k < 1 \<longleftrightarrow> k = (0::int)"
  by auto

lemma at_singleton [simp]: "at [a] 0 = a"
  by (simp add: at_def)

lemma wp_ld [wp_simps]: "wp (ld m p) Q \<longleftrightarrow> in_buf m p 1 \<and> Q (at m p)"
  by (auto simp: ld_def wp_simps)

lemma wp_st [wp_simps]: "wp (st m p b) Q \<longleftrightarrow> in_buf m p 1 \<and> Q (upd m p [b])"
  by (auto simp: st_def wp_simps)

lemma wp_rdn [wp_simps]: "wp (rdn m p n) Q \<longleftrightarrow> in_buf m p n \<and> Q (seg m p (p + n))"
  by (auto simp: rdn_def wp_simps)

lemma wp_wrn [wp_simps]: "wp (wrn m p bs) Q \<longleftrightarrow> in_buf m p (int (length bs)) \<and> Q (upd m p bs)"
  by (auto simp: wrn_def wp_simps)

section \<open>Copies as LZ77 sees them\<close>

text \<open>
  \<open>lz_copied m m' d s n\<close>: below \<open>d\<close> nothing changed, and the \<open>n\<close> bytes from \<open>d\<close> on repeat
  what stands at \<open>s\<close> on \<^emph>\<open>in the result\<close> \<dash> the self-referential copy of LZ77, where the
  source may run into bytes just written. \<open>ext_copied\<close>: the same from another buffer.
\<close>

definition frame_below :: "bytes \<Rightarrow> bytes \<Rightarrow> int \<Rightarrow> bool" where
  "frame_below m m' d \<longleftrightarrow> length m' = length m \<and> (\<forall>p. 0 \<le> p \<and> p < d \<longrightarrow> at m' p = at m p)"

definition lz_copied :: "bytes \<Rightarrow> bytes \<Rightarrow> int \<Rightarrow> int \<Rightarrow> int \<Rightarrow> bool" where
  "lz_copied m m' d s n \<longleftrightarrow> frame_below m m' d \<and> (\<forall>k. 0 \<le> k \<and> k < n \<longrightarrow> at m' (d + k) = at m' (s + k))"

definition ext_copied :: "bytes \<Rightarrow> bytes \<Rightarrow> int \<Rightarrow> bytes \<Rightarrow> int \<Rightarrow> int \<Rightarrow> bool" where
  "ext_copied m m' d x s n \<longleftrightarrow> frame_below m m' d \<and> (\<forall>k. 0 \<le> k \<and> k < n \<longrightarrow> at m' (d + k) = at x (s + k))"

lemma frame_below_refl [simp]: "frame_below m m d"
  by (simp add: frame_below_def)

lemma frame_below_trans: "frame_below m m1 d \<Longrightarrow> frame_below m1 m2 d' \<Longrightarrow> d \<le> d' \<Longrightarrow> frame_below m m2 d"
  by (auto simp: frame_below_def)

lemma frame_below_mono: "frame_below m m' d' \<Longrightarrow> d \<le> d' \<Longrightarrow> frame_below m m' d"
  by (auto simp: frame_below_def)

lemma frame_below_length: "frame_below m m' d \<Longrightarrow> length m' = length m"
  by (simp add: frame_below_def)

lemma frame_below_upd: "in_buf m d (int (length bs)) \<Longrightarrow> frame_below m (upd m d bs) d"
  by (auto simp: frame_below_def at_upd in_buf_def)

lemma lz_copied_0: "frame_below m m' d \<Longrightarrow> n \<le> 0 \<Longrightarrow> lz_copied m m' d s n"
  by (auto simp: lz_copied_def)

lemma lz_copied_mono: "lz_copied m m' d s n' \<Longrightarrow> n \<le> n' \<Longrightarrow> lz_copied m m' d s n"
  by (auto simp: lz_copied_def)

lemma lz_copied_max0: "lz_copied m m' d s n \<Longrightarrow> lz_copied m m' d s (max 0 n)"
  by (auto simp: lz_copied_def)

lemma ext_copied_mono: "ext_copied m m' d x s n' \<Longrightarrow> n \<le> n' \<Longrightarrow> ext_copied m m' d x s n"
  by (auto simp: ext_copied_def)

lemma lz_copied_frame: "lz_copied m m' d s n \<Longrightarrow> frame_below m m' d"
  by (simp add: lz_copied_def)

lemma lz_copied_frame_right:
  assumes "lz_copied m m1 d s n" "frame_below m1 m2 (d + n)" "0 \<le> s" "s \<le> d" "0 \<le> n"
  shows "lz_copied m m2 d s n"
  using assms by (auto simp: lz_copied_def frame_below_def)

lemma lz_copied_trans:
  assumes a: "lz_copied m m1 d s n1" and b: "lz_copied m1 m2 (d + n1) (s + n1) n2"
    and "0 \<le> n1" "0 \<le> s" "s \<le> d"
  shows "lz_copied m m2 d s (n1 + n2)"
  unfolding lz_copied_def
proof (intro conjI allI impI)
  show "frame_below m m2 d"
    using a b assms(3) by (auto simp: lz_copied_def intro: frame_below_trans)
  fix k assume k: "0 \<le> k \<and> k < n1 + n2"
  show "at m2 (d + k) = at m2 (s + k)"
  proof (cases "k < n1")
    case True
    with assms k show ?thesis by (auto simp: lz_copied_def frame_below_def)
  next
    case False
    with b k have "at m2 (d + n1 + (k - n1)) = at m2 (s + n1 + (k - n1))"
      unfolding lz_copied_def by (metis diff_ge_0_iff_ge diff_less_eq add.commute not_less)
    then show ?thesis by simp
  qed
qed

lemma ext_copied_trans:
  assumes a: "ext_copied m m1 d x s n1" and b: "ext_copied m1 m2 (d + n1) x (s + n1) n2"
    and "0 \<le> n1" "0 \<le> d"
  shows "ext_copied m m2 d x s (n1 + n2)"
  unfolding ext_copied_def
proof (intro conjI allI impI)
  show "frame_below m m2 d"
    using a b assms(3) by (auto simp: ext_copied_def intro: frame_below_trans)
  fix k assume k: "0 \<le> k \<and> k < n1 + n2"
  show "at m2 (d + k) = at x (s + k)"
  proof (cases "k < n1")
    case True
    with assms k show ?thesis by (auto simp: ext_copied_def frame_below_def)
  next
    case False
    with b k have "at m2 (d + n1 + (k - n1)) = at x (s + n1 + (k - n1))"
      unfolding ext_copied_def by (metis diff_ge_0_iff_ge diff_less_eq add.commute not_less)
    then show ?thesis by simp
  qed
qed

lemma wp_memcpy:
  assumes "0 \<le> s" "0 \<le> n" "s + n \<le> d" "d + n \<le> int (length m)"
    and "\<And>m'. memcpy m d s n = Some m' \<Longrightarrow> lz_copied m m' d s n \<Longrightarrow> Q m'"
  shows "wp (memcpy m d s n) Q"
proof -
  let ?m' = "upd m d (seg m s (s + n))"
  have l: "int (length (seg m s (s + n))) = n" using assms by simp
  then have b: "in_buf m d (int (length (seg m s (s + n))))" using assms by (simp add: in_buf_def)
  have "lz_copied m ?m' d s n"
    using assms l by (auto simp: lz_copied_def frame_below_upd[OF b] at_upd[OF b] at_seg)
  moreover have "memcpy m d s n = Some ?m'" using assms by (simp add: memcpy_def in_buf_def)
  ultimately show ?thesis using assms(5) by (simp add: wp_simps)
qed

lemma wp_memcpy_from:
  assumes "0 \<le> s" "0 \<le> n" "s + n \<le> int (length x)" "0 \<le> d" "d + n \<le> int (length m)"
    and "\<And>m'. memcpy_from m d x s n = Some m' \<Longrightarrow> ext_copied m m' d x s n \<Longrightarrow> Q m'"
  shows "wp (memcpy_from m d x s n) Q"
proof -
  have l: "int (length (seg x s (s + n))) = n" using assms by simp
  then have b: "in_buf m d (int (length (seg x s (s + n))))" using assms by (simp add: in_buf_def)
  have "ext_copied m (upd m d (seg x s (s + n))) d x s n"
    using assms l by (auto simp: ext_copied_def frame_below_upd[OF b] at_upd[OF b] at_seg)
  moreover have "memcpy_from m d x s n = Some (upd m d (seg x s (s + n)))"
    using assms b by (simp add: memcpy_from_def rdn_def wrn_def in_buf_def)
  ultimately show ?thesis using assms(6) by (simp add: wp_simps)
qed

section \<open>The copy loops\<close>

text \<open>\<open>LZ4_wildCopy8\<close>: eight bytes at a time until \<open>e\<close> is reached or passed (at least one
  round: the C loop is \<open>do ... while\<close>), within one buffer and from the input buffer.\<close>

function wildCopy8 :: "bytes \<Rightarrow> int \<Rightarrow> int \<Rightarrow> int \<Rightarrow> bytes option" where
  "wildCopy8 m d s e = do {
     m \<leftarrow> memcpy m d s 8;
     if d + 8 < e then wildCopy8 m (d + 8) (s + 8) e else Some m }"
  by pat_completeness auto
termination
  by (relation "measure (\<lambda>(m, d, s, e). nat (e - d))") auto

function wildCopy8_from :: "bytes \<Rightarrow> int \<Rightarrow> bytes \<Rightarrow> int \<Rightarrow> int \<Rightarrow> bytes option" where
  "wildCopy8_from m d x s e = do {
     m \<leftarrow> memcpy_from m d x s 8;
     if d + 8 < e then wildCopy8_from m (d + 8) x (s + 8) e else Some m }"
  by pat_completeness auto
termination
  by (relation "measure (\<lambda>(m, d, x, s, e). nat (e - d))") auto

text \<open>The byte loop \<open>while (op < cpy) { *op++ = *match++; }\<close>.\<close>

function copy_bytes :: "bytes \<Rightarrow> int \<Rightarrow> int \<Rightarrow> int \<Rightarrow> bytes option" where
  "copy_bytes m d s e =
     (if d < e then do { b \<leftarrow> ld m s; m \<leftarrow> st m d b; copy_bytes m (d + 1) (s + 1) e }
      else Some m)"
  by pat_completeness auto
termination
  by (relation "measure (\<lambda>(m, d, s, e). nat (e - d))") auto

declare wildCopy8.simps [simp del] wildCopy8_from.simps [simp del] copy_bytes.simps [simp del]

lemma wp_wildCopy8:
  assumes "0 \<le> s" "s + 8 \<le> d" "d + 8 \<le> int (length m)" "e + 7 \<le> int (length m)"
  shows "wp (wildCopy8 m d s e) (\<lambda>m'. lz_copied m m' d s (e - d))"
  using assms
proof (induction m d s e rule: wildCopy8.induct)
  case (1 m d s e)
  show ?case
  proof (subst wildCopy8.simps, unfold wp_bind, rule wp_memcpy)
    fix m1 assume m1: "memcpy m d s 8 = Some m1" and c: "lz_copied m m1 d s 8"
    show "wp (if d + 8 < e then wildCopy8 m1 (d + 8) (s + 8) e else Some m1)
        (\<lambda>m'. lz_copied m m' d s (e - d))"
    proof (cases "d + 8 < e")
      case True
      have "length m1 = length m" using c by (simp add: lz_copied_def frame_below_def)
      then have "wp (wildCopy8 m1 (d + 8) (s + 8) e) (\<lambda>m'. lz_copied m1 m' (d + 8) (s + 8) (e - (d + 8)))"
        using True "1.prems" m1 by (intro "1.IH") auto
      then show ?thesis using True "1.prems" c
        by (auto elim!: wp_mono dest: lz_copied_trans)
    next
      case False
      with c show ?thesis by (auto simp: wp_simps intro: lz_copied_mono)
    qed
  qed (use "1.prems" in auto)
qed

lemma wp_wildCopy8_from:
  assumes "0 \<le> s" "s + 8 \<le> int (length x)" "e - d + s + 7 \<le> int (length x)"
    "0 \<le> d" "d + 8 \<le> int (length m)" "e + 7 \<le> int (length m)"
  shows "wp (wildCopy8_from m d x s e) (\<lambda>m'. ext_copied m m' d x s (e - d))"
  using assms
proof (induction m d x s e rule: wildCopy8_from.induct)
  case (1 m d x s e)
  show ?case
  proof (subst wildCopy8_from.simps, unfold wp_bind, rule wp_memcpy_from)
    fix m1 assume m1: "memcpy_from m d x s 8 = Some m1" and c: "ext_copied m m1 d x s 8"
    show "wp (if d + 8 < e then wildCopy8_from m1 (d + 8) x (s + 8) e else Some m1)
        (\<lambda>m'. ext_copied m m' d x s (e - d))"
    proof (cases "d + 8 < e")
      case True
      have "length m1 = length m" using c by (simp add: ext_copied_def frame_below_def)
      then have "wp (wildCopy8_from m1 (d + 8) x (s + 8) e)
          (\<lambda>m'. ext_copied m1 m' (d + 8) x (s + 8) (e - (d + 8)))"
        using True "1.prems" m1 by (intro "1.IH") auto
      then show ?thesis using True "1.prems" c
        by (auto elim!: wp_mono dest: ext_copied_trans)
    next
      case False
      with c show ?thesis by (auto simp: wp_simps intro: ext_copied_mono)
    qed
  qed (use "1.prems" in auto)
qed

text \<open>The byte loop copies exactly \<open>e - d\<close> bytes and nothing from \<open>e\<close> on; its source may
  overlap its destination, from the destination itself down.\<close>

lemma wp_copy_bytes:
  assumes "0 \<le> s" "s \<le> d" "e \<le> int (length m)"
  shows "wp (copy_bytes m d s e) (\<lambda>m'. lz_copied m m' d s (e - d))"
  using assms
proof (induction m d s e rule: copy_bytes.induct)
  case (1 m d s e)
  show ?case
  proof (cases "d < e")
    case True
    let ?m1 = "upd m d [at m s]"
    have b: "in_buf m d 1" "in_buf m s 1" using "1.prems" True by (auto simp: in_buf_def)
    have c: "lz_copied m ?m1 d s 1"
      using b by (simp add: lz_copied_def frame_below_upd int_less_one_iff at_upd at_singleton in_buf_def)
         (auto dest!: order_antisym)
    have "ld m s = Some (at m s)" "st m d (at m s) = Some ?m1"
      using b by (simp_all add: ld_def st_def)
    then have "wp (copy_bytes ?m1 (d + 1) (s + 1) e) (\<lambda>m'. lz_copied ?m1 m' (d + 1) (s + 1) (e - (d + 1)))"
      using True b "1.prems" by (intro "1.IH") auto
    then have "wp (copy_bytes ?m1 (d + 1) (s + 1) e) (\<lambda>m'. lz_copied m m' d s (e - d))"
      using c "1.prems" by (auto elim!: wp_mono dest: lz_copied_trans)
    with True b show ?thesis by (subst copy_bytes.simps) (simp add: wp_simps)
  next
    case False
    then show ?thesis by (subst copy_bytes.simps) (simp add: wp_simps lz_copied_0)
  qed
qed

end
