(* ===== verification/LZ4_Count.thy ===== *)
theory LZ4_Count
  imports LZ4_Memory "HOL-Library.Sublist"
begin

text \<open>
  The word-level helpers of the compressor in \<open>lz4.c\<close>, for a 64-bit little-endian machine:
  unaligned reads, \<open>LZ4_NbCommonBytes\<close>, \<open>LZ4_count\<close> and the hash functions. \<open>LZ4_count\<close>
  compares eight bytes at a time; it is proved to return the length of the common prefix.
\<close>

section \<open>Little-endian words\<close>

fun le_word :: "bytes \<Rightarrow> 'a::len word" where
  "le_word [] = 0"
| "le_word (b # bs) = ucast b OR push_bit 8 (le_word bs)"

lemma bit_le_word:
  "bit (le_word bs :: 'a::len word) n \<longleftrightarrow> n < LENGTH('a) \<and> n div 8 < length bs \<and> bit (bs ! (n div 8)) (n mod 8)"
proof (induction bs arbitrary: n)
  case (Cons b bs)
  show ?case
  proof (cases "n < 8")
    case True
    then show ?thesis by (auto simp: bit_or_iff bit_ucast_iff bit_push_bit_iff possible_bit_def)
  next
    case False
    then have "n div 8 = Suc ((n - 8) div 8)" "(n - 8) mod 8 = n mod 8"
      by (simp_all add: le_div_geq le_mod_geq)
    moreover have "\<not> bit b n" using False bit_imp_le_length[of b n] by auto
    ultimately show ?thesis using False Cons.IH[of "n - 8"]
      by (auto simp: bit_or_iff bit_ucast_iff bit_push_bit_iff possible_bit_def)
  qed
qed simp

lemma le_word_inj:
  assumes "length bs = length cs" "8 * length bs \<le> LENGTH('a)"
    and "(le_word bs :: 'a::len word) = le_word cs"
  shows "bs = cs"
proof (rule nth_equalityI)
  fix i assume i: "i < length bs"
  show "bs ! i = cs ! i"
  proof (rule bit_word_eqI)
    fix j assume j: "j < LENGTH(8)"
    then have "8 * i + j < LENGTH('a)" using i assms(2) by simp
    moreover have "(8 * i + j) div 8 = i" "(8 * i + j) mod 8 = j" using j by auto
    ultimately show "bit (bs ! i) j = bit (cs ! i) j"
      using i assms bit_le_word[of bs "8 * i + j", where 'a = 'a] bit_le_word[of cs "8 * i + j", where 'a = 'a]
      by auto
  qed
qed (rule assms(1))

text \<open>\<open>LZ4_read16\<close>, \<open>LZ4_read32\<close> and \<open>LZ4_read_ARCH\<close>.\<close>

definition LZ4_read16 :: "bytes \<Rightarrow> int \<Rightarrow> u16 option" where
  "LZ4_read16 m p = map_option le_word (rdn m p 2)"

definition LZ4_read32 :: "bytes \<Rightarrow> int \<Rightarrow> u32 option" where
  "LZ4_read32 m p = map_option le_word (rdn m p 4)"

definition LZ4_read_ARCH :: "bytes \<Rightarrow> int \<Rightarrow> u64 option" where
  "LZ4_read_ARCH m p = map_option le_word (rdn m p 8)"

lemma seg_eq_iff:
  assumes "in_buf a p n" "in_buf b q n"
  shows "seg a p (p + n) = seg b q (q + n) \<longleftrightarrow> (\<forall>k. 0 \<le> k \<and> k < n \<longrightarrow> at a (p + k) = at b (q + k))"
proof -
  have n: "0 \<le> n" and la: "length (seg a p (p + n)) = nat n" and lb: "length (seg b q (q + n)) = nat n"
    using assms by (auto simp: in_buf_def)
  have "seg a p (p + n) ! i = at a (p + int i) \<and> seg b q (q + n) ! i = at b (q + int i)" if "i < nat n" for i
    using assms that by (auto simp: in_buf_def at_def nth_seg nat_add_distrib)
  then have "seg a p (p + n) = seg b q (q + n) \<longleftrightarrow> (\<forall>i < nat n. at a (p + int i) = at b (q + int i))"
    using la lb by (simp add: list_eq_iff_nth_eq)
  also have "\<dots> \<longleftrightarrow> (\<forall>k. 0 \<le> k \<and> k < n \<longrightarrow> at a (p + k) = at b (q + k))"
  proof
    assume h: "\<forall>i < nat n. at a (p + int i) = at b (q + int i)"
    show "\<forall>k. 0 \<le> k \<and> k < n \<longrightarrow> at a (p + k) = at b (q + k)"
    proof (intro allI impI)
      fix k assume "0 \<le> k \<and> k < n"
      then show "at a (p + k) = at b (q + k)" using h[rule_format, of "nat k"] by auto
    qed
  qed auto
  finally show ?thesis .
qed

definition same :: "bytes \<Rightarrow> int \<Rightarrow> bytes \<Rightarrow> int \<Rightarrow> int \<Rightarrow> bool" where
  "same a p b q n \<longleftrightarrow> (\<forall>k. 0 \<le> k \<and> k < n \<longrightarrow> at a (p + k) = at b (q + k))"

lemma same_append: "same a p b q n \<Longrightarrow> same a (p + n) b (q + n) k \<Longrightarrow> 0 \<le> n \<Longrightarrow> same a p b q (n + k)"
proof -
  assume n: "same a p b q n" and k: "same a (p + n) b (q + n) k" and "0 \<le> n"
  have "at a (p + i) = at b (q + i)" if "0 \<le> i" "i < n + k" for i
  proof (cases "i < n")
    case True
    then show ?thesis using n that by (simp add: same_def)
  next
    case False
    then show ?thesis using k[unfolded same_def, rule_format, of "i - n"] that by simp
  qed
  then show ?thesis by (simp add: same_def)
qed

lemma same_mono: "same a p b q n \<Longrightarrow> k \<le> n \<Longrightarrow> same a p b q k"
  by (auto simp: same_def)

lemma same_0 [simp]: "n \<le> 0 \<Longrightarrow> same a p b q n"
  by (auto simp: same_def)

lemma same_1: "same a p b q 1 \<longleftrightarrow> at a p = at b q"
  by (auto simp: same_def dest: spec[of _ 0] order_antisym)

lemma xor_zero_iff: "(x :: 'a::len word) XOR y = 0 \<longleftrightarrow> x = y"
proof
  assume h: "x XOR y = 0"
  show "x = y"
  proof (rule bit_word_eqI)
    fix n
    have "bit (x XOR y) n = False" using h by simp
    then show "bit x n = bit y n" by (simp add: bit_xor_iff)
  qed
qed simp

text \<open>Equal words, equal bytes.\<close>

lemma le_word_same:
  assumes "in_buf a p n" "in_buf b q n" "8 * nat n \<le> LENGTH('w)"
  shows "(le_word (seg a p (p + n)) :: 'w::len word) = le_word (seg b q (q + n)) \<longleftrightarrow> same a p b q n"
proof -
  have "length (seg a p (p + n)) = nat n" "length (seg b q (q + n)) = nat n"
    using assms by (auto simp: in_buf_def)
  then have "(le_word (seg a p (p + n)) :: 'w word) = le_word (seg b q (q + n)) \<longleftrightarrow> seg a p (p + n) = seg b q (q + n)"
    using le_word_inj[of "seg a p (p + n)" "seg b q (q + n)", where 'a = 'w] assms(3) by auto
  then show ?thesis using seg_eq_iff[OF assms(1,2)] by (simp add: same_def)
qed

section \<open>Common bytes\<close>

text \<open>\<open>__builtin_ctzll\<close>: the number of low zero bits.\<close>

definition ctz :: "u64 \<Rightarrow> nat" where
  "ctz w = length (takeWhile (\<lambda>i. \<not> bit w i) [0..<64])"

definition LZ4_NbCommonBytes :: "u64 \<Rightarrow> nat" where
  "LZ4_NbCommonBytes val = ctz val div 8"

lemma ctz_eqI: "k < 64 \<Longrightarrow> bit w k \<Longrightarrow> (\<And>i. i < k \<Longrightarrow> \<not> bit w i) \<Longrightarrow> ctz w = k"
proof -
  assume k: "k < 64" "bit w k" "\<And>i. i < k \<Longrightarrow> \<not> bit w i"
  have s: "[0..<64] = [0..<k] @ [k] @ [Suc k..<64]"
    using k(1) upt_add_eq_append[of 0 k "64 - k"] upt_conv_Cons[of k 64] by simp
  show ?thesis unfolding ctz_def s by (subst takeWhile_append2) (use k in auto)
qed

text \<open>The number of common bytes of two 8-byte reads that differ.\<close>

lemma NbCommonBytes_common:
  assumes "length bs = 8" "length cs = 8" "i < 8" "bs ! i \<noteq> cs ! i" "\<And>j. j < i \<Longrightarrow> bs ! j = cs ! j"
  shows "LZ4_NbCommonBytes (le_word bs XOR le_word cs) = i"
proof -
  let ?w = "le_word bs XOR le_word cs :: u64"
  have b: "bit ?w n \<longleftrightarrow> n < 64 \<and> bit (bs ! (n div 8)) (n mod 8) \<noteq> bit (cs ! (n div 8)) (n mod 8)" for n
    using assms(1,2) by (auto simp: bit_xor_iff bit_le_word)
  obtain j0 where j0: "j0 < 8" "bit (bs ! i) j0 \<noteq> bit (cs ! i) j0"
    using assms(4) bit_word_eqI[of "bs ! i" "cs ! i"] by auto
  define j where "j = (LEAST j. bit (bs ! i) j \<noteq> bit (cs ! i) j)"
  have j: "bit (bs ! i) j \<noteq> bit (cs ! i) j" unfolding j_def by (rule LeastI) (rule j0(2))
  have jl: "j \<le> j0" unfolding j_def by (rule Least_le) (rule j0(2))
  have jm: "bit (bs ! i) k = bit (cs ! i) k" if "k < j" for k
    using not_less_Least[of k "\<lambda>j. bit (bs ! i) j \<noteq> bit (cs ! i) j"] that by (auto simp: j_def)
  have "ctz ?w = 8 * i + j"
  proof (rule ctz_eqI)
    show lt: "8 * i + j < 64" using assms(3) jl j0 by simp
    show "bit ?w (8 * i + j)" using b[of "8 * i + j"] lt j jl j0(1) by simp
    fix n assume n: "n < 8 * i + j"
    show "\<not> bit ?w n"
    proof (cases "n < 8 * i")
      case True
      then show ?thesis using b assms(5)[of "n div 8"] by auto
    next
      case False
      then have ni: "n = 8 * i + (n - 8 * i)" "n - 8 * i < j" "n - 8 * i < 8" using n jl j0(1) by auto
      then have "n div 8 = i" by (intro div_nat_eqI) auto
      moreover have "n mod 8 = n - 8 * i"
        using ni(3) \<open>n div 8 = i\<close> by (simp add: modulo_nat_def mult.commute)
      ultimately have "n div 8 = i" "n mod 8 < j" using ni by auto
      then show ?thesis using b jm by auto
    qed
  qed
  then show ?thesis using jl j0(1) by (simp add: LZ4_NbCommonBytes_def)
qed

section \<open>LZ4_count\<close>

text \<open>The loop over eight bytes; the C code unrolls its first round. \<open>Inl\<close> is the early return
  with the position reached, \<open>Inr\<close> hands over to the tail.\<close>

function count_words :: "bytes \<Rightarrow> int \<Rightarrow> bytes \<Rightarrow> int \<Rightarrow> int \<Rightarrow> (int + int \<times> int) option" where
  "count_words a pIn b pMatch pInLimit =
    (if pIn < pInLimit - 7 then do {
       x \<leftarrow> LZ4_read_ARCH b pMatch;
       y \<leftarrow> LZ4_read_ARCH a pIn;
       let diff = x XOR y;
       if diff = 0 then count_words a (pIn + 8) b (pMatch + 8) pInLimit
       else Some (Inl (pIn + int (LZ4_NbCommonBytes diff))) }
     else Some (Inr (pIn, pMatch)))"
  by pat_completeness auto
termination
  by (relation "measure (\<lambda>(a, pIn, b, pMatch, l). nat (l - pIn))") auto

declare count_words.simps [simp del]

text \<open>The tail: four, two and one byte.\<close>

definition count4 :: "bytes \<Rightarrow> bytes \<Rightarrow> int \<Rightarrow> int \<Rightarrow> int \<Rightarrow> (int \<times> int) option" where
  "count4 a b pInLimit p q =
     (if p < pInLimit - 3 then do {
                      x \<leftarrow> LZ4_read32 b q; y \<leftarrow> LZ4_read32 a p;
                      Some (if x = y then (p + 4, q + 4) else (p, q)) } else Some (p, q))"

definition count2 :: "bytes \<Rightarrow> bytes \<Rightarrow> int \<Rightarrow> int \<Rightarrow> int \<Rightarrow> (int \<times> int) option" where
  "count2 a b pInLimit p q =
     (if p < pInLimit - 1 then do {
                      x \<leftarrow> LZ4_read16 b q; y \<leftarrow> LZ4_read16 a p;
                      Some (if x = y then (p + 2, q + 2) else (p, q)) } else Some (p, q))"

definition count1 :: "bytes \<Rightarrow> bytes \<Rightarrow> int \<Rightarrow> int \<Rightarrow> int \<Rightarrow> int option" where
  "count1 a b pInLimit p q =
     (if p < pInLimit then do {
                      x \<leftarrow> ld b q; y \<leftarrow> ld a p;
                      Some (if x = y then p + 1 else p) } else Some p)"

definition LZ4_count :: "bytes \<Rightarrow> int \<Rightarrow> bytes \<Rightarrow> int \<Rightarrow> int \<Rightarrow> int option" where
  "LZ4_count a pIn b pMatch pInLimit = do {
     r \<leftarrow> count_words a pIn b pMatch pInLimit;
     case r of Inl p \<Rightarrow> Some (p - pIn)
     | Inr (p, q) \<Rightarrow> do {
         (p, q) \<leftarrow> count4 a b pInLimit p q;
         (p, q) \<leftarrow> count2 a b pInLimit p q;
         p \<leftarrow> count1 a b pInLimit p q;
         Some (p - pIn) } }"

lemma LZ4_read_same:
  assumes "in_buf a p 8" "in_buf b q 8"
  shows "\<exists>x y. LZ4_read_ARCH b q = Some x \<and> LZ4_read_ARCH a p = Some y \<and> (x XOR y = 0 \<longleftrightarrow> same a p b q 8)
    \<and> (x XOR y \<noteq> 0 \<longrightarrow> LZ4_NbCommonBytes (x XOR y) < 8
         \<and> same a p b q (int (LZ4_NbCommonBytes (x XOR y)))
         \<and> at a (p + int (LZ4_NbCommonBytes (x XOR y))) \<noteq> at b (q + int (LZ4_NbCommonBytes (x XOR y))))"
proof -
  let ?bs = "seg b q (q + 8)" and ?cs = "seg a p (p + 8)"
  let ?x = "le_word ?bs :: u64" and ?y = "le_word ?cs :: u64"
  have r: "LZ4_read_ARCH b q = Some ?x" "LZ4_read_ARCH a p = Some ?y"
    using assms by (simp_all add: LZ4_read_ARCH_def rdn_def)
  have e: "?x XOR ?y = 0 \<longleftrightarrow> same a p b q 8"
    using le_word_same[OF assms, where 'w = 64] by (auto simp: xor_zero_iff)
  have ln: "length ?bs = 8" "length ?cs = 8" using assms by (auto simp: in_buf_def)
  have nth: "?bs ! k = at b (q + int k)" "?cs ! k = at a (p + int k)" if "k < 8" for k
    using that assms by (auto simp: in_buf_def at_def nth_seg nat_add_distrib)
  have "LZ4_NbCommonBytes (?x XOR ?y) < 8 \<and> same a p b q (int (LZ4_NbCommonBytes (?x XOR ?y)))
     \<and> at a (p + int (LZ4_NbCommonBytes (?x XOR ?y))) \<noteq> at b (q + int (LZ4_NbCommonBytes (?x XOR ?y)))"
    if ne: "?x XOR ?y \<noteq> 0"
  proof -
    obtain k0 where "0 \<le> k0" "k0 < 8" "at a (p + k0) \<noteq> at b (q + k0)"
      using ne e by (auto simp: same_def)
    then have ex: "\<exists>i. i < 8 \<and> ?bs ! i \<noteq> ?cs ! i" using nth[of "nat k0"] by (intro exI[of _ "nat k0"]) auto
    define i where "i = (LEAST i. i < 8 \<and> ?bs ! i \<noteq> ?cs ! i)"
    have i: "i < 8" "?bs ! i \<noteq> ?cs ! i" using LeastI_ex[OF ex] by (auto simp: i_def)
    have m: "?bs ! j = ?cs ! j" if "j < i" for j
      using not_less_Least[of j "\<lambda>i. i < 8 \<and> ?bs ! i \<noteq> ?cs ! i"] that i(1) by (auto simp: i_def)
    have nb: "LZ4_NbCommonBytes (?x XOR ?y) = i" by (rule NbCommonBytes_common[OF ln i m])
    have "at a (p + k) = at b (q + k)" if "0 \<le> k" "k < int i" for k
      using m[of "nat k"] nth[of "nat k"] that i(1) by simp
    then show ?thesis using i nth[of i] by (simp add: nb same_def)
  qed
  with r e show ?thesis by blast
qed

lemma count_words_ok:
  assumes "0 \<le> pIn" "0 \<le> pMatch" "pInLimit \<le> int (length a)" "pMatch + (pInLimit - pIn) \<le> int (length b)"
  shows "wp (count_words a pIn b pMatch pInLimit) (\<lambda>r. case r of
      Inl p \<Rightarrow> pIn \<le> p \<and> p < pInLimit \<and> same a pIn b pMatch (p - pIn) \<and> at a p \<noteq> at b (pMatch + (p - pIn))
    | Inr (p, q) \<Rightarrow> pIn \<le> p \<and> pInLimit - 7 \<le> p \<and> (p = pIn \<or> p \<le> pInLimit) \<and> q = pMatch + (p - pIn)
        \<and> same a pIn b pMatch (p - pIn))"
  using assms
proof (induction a pIn b pMatch pInLimit rule: count_words.induct)
  case (1 a pIn b pMatch pInLimit)
  let ?Q = "\<lambda>pIn pMatch r. case r of
      Inl p \<Rightarrow> pIn \<le> p \<and> p < pInLimit \<and> same a pIn b pMatch (p - pIn) \<and> at a p \<noteq> at b (pMatch + (p - pIn))
    | Inr (p, q) \<Rightarrow> pIn \<le> p \<and> pInLimit - 7 \<le> p \<and> (p = pIn \<or> p \<le> pInLimit) \<and> q = pMatch + (p - pIn)
        \<and> same a pIn b pMatch (p - pIn)"
  show ?case
  proof (cases "pIn < pInLimit - 7")
    case False
    then show ?thesis by (subst count_words.simps) (simp add: wp_Some)
  next
    case True
    have ib: "in_buf a pIn 8" "in_buf b pMatch 8" using "1.prems" True by (auto simp: in_buf_def)
    obtain x y where r: "LZ4_read_ARCH b pMatch = Some x" "LZ4_read_ARCH a pIn = Some y"
      and e: "x XOR y = 0 \<longleftrightarrow> same a pIn b pMatch 8"
      and ne: "x XOR y \<noteq> 0 \<Longrightarrow> LZ4_NbCommonBytes (x XOR y) < 8
         \<and> same a pIn b pMatch (int (LZ4_NbCommonBytes (x XOR y)))
         \<and> at a (pIn + int (LZ4_NbCommonBytes (x XOR y))) \<noteq> at b (pMatch + int (LZ4_NbCommonBytes (x XOR y)))"
      using LZ4_read_same[OF ib] by blast
    show ?thesis
    proof (cases "x XOR y = 0")
      case z: True
      then have s8: "same a pIn b pMatch 8" using e by simp
      have "wp (count_words a (pIn + 8) b (pMatch + 8) pInLimit) (?Q (pIn + 8) (pMatch + 8))"
        using "1.prems" True r z by (intro "1.IH") auto
      then have "wp (count_words a (pIn + 8) b (pMatch + 8) pInLimit) (?Q pIn pMatch)"
      proof (rule wp_mono)
        fix r assume h: "?Q (pIn + 8) (pMatch + 8) r"
        have s: "same a pIn b pMatch (p - pIn)" if "same a (pIn + 8) b (pMatch + 8) (p - (pIn + 8))" for p
          using same_append[OF s8 that] by simp
        show "?Q pIn pMatch r" using h s True by (auto split: sum.splits prod.splits simp: algebra_simps)
      qed
      then show ?thesis using True r z by (subst count_words.simps) simp
    next
      case False
      then show ?thesis using True r ne by (subst count_words.simps) (auto simp: wp_Some)
    qed
  qed
qed

text \<open>One comparison of the tail: \<open>n\<close> bytes are skipped if they are equal and there.\<close>

definition tail_state :: "bytes \<Rightarrow> int \<Rightarrow> bytes \<Rightarrow> int \<Rightarrow> int \<Rightarrow> int \<Rightarrow> int \<times> int \<Rightarrow> bool" where
  "tail_state a pIn b pMatch pInLimit n s \<longleftrightarrow> pIn \<le> fst s \<and> (fst s = pIn \<or> fst s \<le> pInLimit)
     \<and> snd s = pMatch + (fst s - pIn) \<and> same a pIn b pMatch (fst s - pIn)
     \<and> (pInLimit - fst s < n \<or> \<not> same a (fst s) b (snd s) n)"

lemma tail_step:
  assumes t: "tail_state a pIn b pMatch pInLimit (n + n) (p, q)" and "0 < n"
    and e: "same a p b q n" "p + n \<le> pInLimit"
  shows "tail_state a pIn b pMatch pInLimit n (p + n, q + n)"
proof -
  have q: "q = pMatch + (p - pIn)" and s: "same a pIn b pMatch (p - pIn)" and le: "pIn \<le> p"
    using t by (auto simp: tail_state_def)
  have "same a pIn b pMatch (p - pIn + n)"
    using same_append[OF s, of n] e q le by simp
  then have s': "same a pIn b pMatch (p + n - pIn)" by (simp add: algebra_simps)
  have qn: "q + n = pMatch + (p + n - pIn)" using q by simp
  have "pInLimit - (p + n) < n \<or> \<not> same a (p + n) b (q + n) n"
    using t same_append[OF e(1), of n] assms(2) by (auto simp: tail_state_def)
  then show ?thesis using e assms(2) le s' qn unfolding tail_state_def fst_conv snd_conv by linarith
qed

lemma tail_stay:
  assumes "tail_state a pIn b pMatch pInLimit k (p, q)" "pInLimit - p < n \<or> \<not> same a p b q n"
  shows "tail_state a pIn b pMatch pInLimit n (p, q)"
  using assms by (simp add: tail_state_def)

lemma LZ4_read32_same:
  assumes "in_buf a p 4" "in_buf b q 4"
  shows "\<exists>x y. LZ4_read32 b q = Some x \<and> LZ4_read32 a p = Some y \<and> (x = y \<longleftrightarrow> same a p b q 4)"
  using le_word_same[OF assms, where 'w = 32] assms by (auto simp: LZ4_read32_def rdn_def)

lemma LZ4_read16_same:
  assumes "in_buf a p 2" "in_buf b q 2"
  shows "\<exists>x y. LZ4_read16 b q = Some x \<and> LZ4_read16 a p = Some y \<and> (x = y \<longleftrightarrow> same a p b q 2)"
  using le_word_same[OF assms, where 'w = 16] assms by (auto simp: LZ4_read16_def rdn_def)

lemma count_tail4:
  assumes t: "tail_state a pIn b pMatch pInLimit 8 (p, q)"
    and b: "0 \<le> pIn" "0 \<le> pMatch" "pInLimit \<le> int (length a)" "pMatch + (pInLimit - pIn) \<le> int (length b)"
  shows "wp (count4 a b pInLimit p q)
    (tail_state a pIn b pMatch pInLimit 4)"
proof (cases "p < pInLimit - 3")
  case True
  have ib: "in_buf a p 4" "in_buf b q 4" using True t b by (auto simp: tail_state_def in_buf_def)
  have t8: "tail_state a pIn b pMatch pInLimit (4 + 4) (p, q)" using t by simp
  from LZ4_read32_same[OF ib] tail_step[OF t8] tail_stay[OF t, of 4] True show ?thesis
    by (auto simp: count4_def wp_Some)
next
  case False
  with tail_stay[OF t, of 4] show ?thesis by (simp add: count4_def wp_Some)
qed

lemma count_tail2:
  assumes t: "tail_state a pIn b pMatch pInLimit 4 (p, q)"
    and b: "0 \<le> pIn" "0 \<le> pMatch" "pInLimit \<le> int (length a)" "pMatch + (pInLimit - pIn) \<le> int (length b)"
  shows "wp (count2 a b pInLimit p q)
    (tail_state a pIn b pMatch pInLimit 2)"
proof (cases "p < pInLimit - 1")
  case True
  have ib: "in_buf a p 2" "in_buf b q 2" using True t b by (auto simp: tail_state_def in_buf_def)
  have t4: "tail_state a pIn b pMatch pInLimit (2 + 2) (p, q)" using t by simp
  from LZ4_read16_same[OF ib] tail_step[OF t4] tail_stay[OF t, of 2] True show ?thesis
    by (auto simp: count2_def wp_Some)
next
  case False
  with tail_stay[OF t, of 2] show ?thesis by (simp add: count2_def wp_Some)
qed

text \<open>\<open>LZ4_count\<close> is memory safe and returns the length of the common prefix.\<close>

definition common :: "bytes \<Rightarrow> int \<Rightarrow> bytes \<Rightarrow> int \<Rightarrow> int \<Rightarrow> int \<Rightarrow> bool" where
  "common a p b q limit n \<longleftrightarrow> 0 \<le> n \<and> n \<le> max 0 (limit - p) \<and> same a p b q n
     \<and> (p + n < limit \<longrightarrow> at a (p + n) \<noteq> at b (q + n))"

lemma count_tail1:
  assumes t: "tail_state a pIn b pMatch pInLimit 2 (p, q)"
    and b: "0 \<le> pIn" "0 \<le> pMatch" "pInLimit \<le> int (length a)" "pMatch + (pInLimit - pIn) \<le> int (length b)"
  shows "wp (count1 a b pInLimit p q)
    (\<lambda>p. common a pIn b pMatch pInLimit (p - pIn))"
proof (cases "p < pInLimit")
  case True
  have ib: "in_buf a p 1" "in_buf b q 1" using True t b by (auto simp: tail_state_def in_buf_def)
  have t2: "tail_state a pIn b pMatch pInLimit (1 + 1) (p, q)" using t by simp
  show ?thesis
  proof (cases "at b q = at a p")
    case e: True
    have "tail_state a pIn b pMatch pInLimit 1 (p + 1, q + 1)"
      by (rule tail_step[OF t2]) (use e True in \<open>auto simp: same_1\<close>)
    then have d: "pInLimit - p < 2 \<or> at a (p + 1) \<noteq> at b (q + 1)" "pIn \<le> p"
      and s: "same a pIn b pMatch (p + 1 - pIn)" and "q = pMatch + (p - pIn)"
      using t by (auto simp: tail_state_def same_1)
    then have x: "pMatch + (p + 1 - pIn) = q + 1" "pIn + (p + 1 - pIn) = p + 1" by simp_all
    have "common a pIn b pMatch pInLimit (p + 1 - pIn)"
      unfolding common_def x using True d s by auto
    with True e ib show ?thesis by (simp add: count1_def wp_simps)
  next
    case ne: False
    from t have s: "pIn \<le> p" "same a pIn b pMatch (p - pIn)" and "q = pMatch + (p - pIn)"
      by (auto simp: tail_state_def)
    then have x: "pMatch + (p - pIn) = q" "pIn + (p - pIn) = p" by simp_all
    have "common a pIn b pMatch pInLimit (p - pIn)"
      unfolding common_def x using True ne s by auto
    with True ne ib show ?thesis by (simp add: count1_def wp_simps)
  qed
next
  case False
  then have "common a pIn b pMatch pInLimit (p - pIn)"
    using t by (auto simp: common_def tail_state_def)
  with False show ?thesis by (simp add: count1_def wp_Some)
qed

lemma LZ4_count_ok:
  assumes b: "0 \<le> pIn" "0 \<le> pMatch" "pInLimit \<le> int (length a)" "pMatch + (pInLimit - pIn) \<le> int (length b)"
  shows "wp (LZ4_count a pIn b pMatch pInLimit) (common a pIn b pMatch pInLimit)"
proof -
  obtain r where r: "count_words a pIn b pMatch pInLimit = Some r"
    and p: "case r of
      Inl p \<Rightarrow> pIn \<le> p \<and> p < pInLimit \<and> same a pIn b pMatch (p - pIn) \<and> at a p \<noteq> at b (pMatch + (p - pIn))
    | Inr (p, q) \<Rightarrow> pIn \<le> p \<and> pInLimit - 7 \<le> p \<and> (p = pIn \<or> p \<le> pInLimit) \<and> q = pMatch + (p - pIn)
        \<and> same a pIn b pMatch (p - pIn)"
    using count_words_ok[OF assms] by (auto simp: wp_iff)
  show ?thesis
  proof (cases r)
    case (Inl x)
    with r p show ?thesis by (simp add: LZ4_count_def wp_Some common_def)
  next
    case (Inr s)
    obtain p0 q0 where s: "s = (p0, q0)" by (cases s)
    have t: "tail_state a pIn b pMatch pInLimit 8 (p0, q0)" using p Inr s by (auto simp: tail_state_def)
    obtain p1 q1 where 1: "count4 a b pInLimit p0 q0 = Some (p1, q1)"
      and t1: "tail_state a pIn b pMatch pInLimit 4 (p1, q1)"
      using count_tail4[OF t b] by (auto simp: wp_iff)
    obtain p2 q2 where 2: "count2 a b pInLimit p1 q1 = Some (p2, q2)"
      and t2: "tail_state a pIn b pMatch pInLimit 2 (p2, q2)"
      using count_tail2[OF t1 b] by (auto simp: wp_iff)
    show ?thesis
      using count_tail1[OF t2 b] unfolding LZ4_count_def r Inr s
      by (simp only: Option.bind.simps sum.case prod.case 1 2 wp_bind wp_Some)
  qed
qed

text \<open>Without any premise: the result of \<open>LZ4_count\<close> is not negative.\<close>

lemma count_words_nonneg:
  "count_words a p b q l = Some r \<Longrightarrow> case r of Inl x \<Rightarrow> p \<le> x | Inr (x, y) \<Rightarrow> p \<le> x"
proof (induction a p b q l arbitrary: r rule: count_words.induct)
  case (1 a p b q l)
  show ?case
  proof (cases "p < l - 7")
    case True
    from 1(2) True obtain x y where xy: "LZ4_read_ARCH b q = Some x" "LZ4_read_ARCH a p = Some y"
      by (subst (asm) count_words.simps) (auto simp: Option.bind_eq_Some_conv)
    show ?thesis
    proof (cases "x XOR y = 0")
      case z: True
      then have "count_words a (p + 8) b (q + 8) l = Some r"
        using 1(2) True xy by (subst (asm) count_words.simps) simp
      from "1.IH"[OF True xy refl z this] show ?thesis by (auto split: sum.splits)
    next
      case False
      then show ?thesis using 1(2) True xy by (subst (asm) count_words.simps) auto
    qed
  next
    case False
    with 1(2) show ?thesis by (subst (asm) count_words.simps) auto
  qed
qed

lemma count_tail_nonneg:
  "count4 a b l p q = Some (p', q') \<Longrightarrow> p \<le> p'"
  "count2 a b l p q = Some (p', q') \<Longrightarrow> p \<le> p'"
  "count1 a b l p q = Some p' \<Longrightarrow> p \<le> p'"
  by (auto simp: count4_def count2_def count1_def Option.bind_eq_Some_conv split: if_splits)

lemma LZ4_count_nonneg:
  assumes "LZ4_count a p b q l = Some n"
  shows "0 \<le> n"
proof -
  from assms obtain r where r: "count_words a p b q l = Some r"
    by (auto simp: LZ4_count_def Option.bind_eq_Some_conv)
  with assms count_words_nonneg[OF r] show ?thesis
    by (auto simp: LZ4_count_def Option.bind_eq_Some_conv split: sum.splits dest!: count_tail_nonneg)
qed


section \<open>The reference: the longest common prefix\<close>

lemma length_longest_common_prefix:
  "take n xs = take n ys \<Longrightarrow> n \<le> length xs \<Longrightarrow> n \<le> length ys \<Longrightarrow> (n < length xs \<and> n < length ys \<longrightarrow> xs ! n \<noteq> ys ! n)
     \<Longrightarrow> length (longest_common_prefix xs ys) = n"
proof (induction xs ys arbitrary: n rule: longest_common_prefix.induct)
  case (1 x xs y ys)
  then show ?case by (cases n) auto
qed auto

lemma common_lcp:
  assumes c: "common a p b q limit n" and b: "0 \<le> p" "0 \<le> q" "limit \<le> int (length a)" "q + (limit - p) \<le> int (length b)"
  shows "n = int (length (longest_common_prefix (seg a p limit) (seg b q (q + (limit - p)))))"
proof (cases "p \<le> limit")
  case True
  let ?x = "seg a p limit" let ?y = "seg b q (q + (limit - p))"
  have n: "0 \<le> n" "n \<le> limit - p" and s: "same a p b q n" and d: "p + n < limit \<longrightarrow> at a (p + n) \<noteq> at b (q + n)"
    using c True by (auto simp: common_def)
  have l: "length ?x = nat (limit - p)" "length ?y = nat (limit - p)" using b True by simp_all
  have nth: "?x ! i = at a (p + int i) \<and> ?y ! i = at b (q + int i)" if "i < nat (limit - p)" for i
    using that b True by (auto simp: nth_seg at_def nat_add_distrib)
  have "length (longest_common_prefix ?x ?y) = nat n"
  proof (rule length_longest_common_prefix)
    show "take (nat n) ?x = take (nat n) ?y"
      using nth s n l by (intro take_eq_pointwiseI) (auto simp: same_def)
    show "nat n < length ?x \<and> nat n < length ?y \<longrightarrow> ?x ! nat n \<noteq> ?y ! nat n"
      using nth[of "nat n"] d n l by auto
  qed (use n l in auto)
  then show ?thesis using n by simp
next
  case False
  then show ?thesis using c by (simp add: common_def seg_def)
qed

section \<open>Properties\<close>

text \<open>C11. \<open>LZ4_count\<close>, which compares eight bytes at a time and finds the first difference inside
  a word by counting zero bits, stays inside both buffers and returns the length of the longest
  common prefix of the two regions.\<close>

theorem LZ4_count_longest_common_prefix:
  assumes "0 \<le> p" "0 \<le> q" "limit \<le> int (length a)" "q + (limit - p) \<le> int (length b)"
  shows "LZ4_count a p b q limit
    = Some (int (length (longest_common_prefix (seg a p limit) (seg b q (q + (limit - p))))))"
  using LZ4_count_ok[OF assms] common_lcp[OF _ assms] by (auto simp: wp_iff)

lemma LZ4_count_longest_common_prefix_witness:
  "LZ4_count [1, 2, 3, 1, 2, 4] 3 [1, 2, 3, 1, 2, 4] 0 6 = Some 2"
proof -
  have "seg [1, 2, 3, 1, 2, 4 :: byte] 3 6 = [1, 2, 4]" "seg [1, 2, 3, 1, 2, 4 :: byte] 0 (0 + (6 - 3)) = [1, 2, 3]"
    by (simp_all add: seg_def numeral_eq_Suc)
  then show ?thesis using LZ4_count_longest_common_prefix[of 3 0 6 "[1, 2, 3, 1, 2, 4]" "[1, 2, 3, 1, 2, 4]"] by simp
qed

end
