(* ===== verification/LZ4_Compress.thy ===== *)
theory LZ4_Compress
  imports LZ4_Count
begin

text \<open>
  The block compressor of \<open>lz4.c\<close>: \<open>LZ4_compress_generic_validated\<close> for the table types
  \<open>byU32\<close> and \<open>byU16\<close> (\<open>byPtr\<close> is for 32-bit machines), for \<open>notLimited\<close> and
  \<open>limitedOutput\<close> (\<open>fillOutput\<close> is instantiated by \<open>LZ4_compress_destSize\<close> only), and every
  dictionary mode.

  The segment that holds the source is one byte list \<open>cur\<close>: a prefix, if there is one, and from
  \<open>srcpos\<close> on the source. An external dictionary is a second list. A pointer is a position in
  one of the two; the flag \<open>d\<close> of a match says which (in C: \<open>lowLimit == dictionary\<close>).
  Indexes into the hash table are the 32-bit numbers \<open>p - base\<close>. The result is \<open>None\<close> if an
  access leaves a buffer or the search does not end.
\<close>

datatype limitedOutput_directive = notLimited | limitedOutput

datatype tableType = clearedTable | byPtr | byU32 | byU16

abbreviation LZ4_DISTANCE_MAX :: int where "LZ4_DISTANCE_MAX \<equiv> 65535"
abbreviation LZ4_HASHLOG :: nat where "LZ4_HASHLOG \<equiv> 12"
abbreviation LZ4_64Klimit :: int where "LZ4_64Klimit \<equiv> 65536 + (MFLIMIT - 1)"
abbreviation LZ4_minLength :: int where "LZ4_minLength \<equiv> MFLIMIT + 1"
abbreviation LZ4_skipTrigger :: nat where "LZ4_skipTrigger \<equiv> 6"

section \<open>The hash table\<close>

type_synonym htable = "u32 \<Rightarrow> int"

definition LZ4_hash4 :: "u32 \<Rightarrow> tableType \<Rightarrow> u32" where
  "LZ4_hash4 seq tt =
    (if tt = byU16 then drop_bit (32 - (LZ4_HASHLOG + 1)) (seq * 2654435761)
     else drop_bit (32 - LZ4_HASHLOG) (seq * 2654435761))"

definition LZ4_hash5 :: "u64 \<Rightarrow> tableType \<Rightarrow> u32" where
  "LZ4_hash5 seq tt =
    (let hashLog = (if tt = byU16 then LZ4_HASHLOG + 1 else LZ4_HASHLOG) in
     ucast (drop_bit (64 - hashLog) (push_bit 24 seq * 889523592379)))"

definition LZ4_hashPosition :: "bytes \<Rightarrow> int \<Rightarrow> tableType \<Rightarrow> u32 option" where
  "LZ4_hashPosition m p tt =
    (if tt \<noteq> byU16 then do { x \<leftarrow> LZ4_read_ARCH m p; Some (LZ4_hash5 x tt) }
     else do { x \<leftarrow> LZ4_read32 m p; Some (LZ4_hash4 x tt) })"

text \<open>The entries are unsigned 32-bit or 16-bit; the other table types do not store.\<close>

definition LZ4_putIndexOnHash :: "int \<Rightarrow> u32 \<Rightarrow> htable \<Rightarrow> tableType \<Rightarrow> htable" where
  "LZ4_putIndexOnHash idx h tbl tt =
    (case tt of byU32 \<Rightarrow> tbl(h := idx mod 2 ^ 32) | byU16 \<Rightarrow> tbl(h := idx mod 2 ^ 16) | _ \<Rightarrow> tbl)"

definition LZ4_getIndexOnHash :: "u32 \<Rightarrow> htable \<Rightarrow> int" where
  "LZ4_getIndexOnHash h tbl = tbl h"

section \<open>The arguments of a call\<close>

record cenv =
  cur :: bytes
  srcpos :: int
  extdict :: bytes
  startIndex :: int
  dictLen :: int
  dctxTable :: htable
  dctxOffset :: int
  outputDirective :: limitedOutput_directive
  tableT :: tableType
  dictDirective :: dict_directive
  dictSmall :: bool
  acceleration :: int
  olimit :: int

abbreviation c_iend :: "cenv \<Rightarrow> int" where "c_iend e \<equiv> int (length (cur e))"
abbreviation mflimitPlusOne :: "cenv \<Rightarrow> int" where "mflimitPlusOne e \<equiv> c_iend e - MFLIMIT + 1"
abbreviation matchlimit :: "cenv \<Rightarrow> int" where "matchlimit e \<equiv> c_iend e - LASTLITERALS"

text \<open>\<open>(U32)(p - base)\<close> and \<open>base + i\<close>, with \<open>base = source - startIndex\<close>.\<close>

definition index_of :: "cenv \<Rightarrow> int \<Rightarrow> int" where
  "index_of e p = (startIndex e + (p - srcpos e)) mod 2 ^ 32"

definition pos_of :: "cenv \<Rightarrow> int \<Rightarrow> int" where
  "pos_of e i = srcpos e + (i - startIndex e)"

definition prefixIdxLimit :: "cenv \<Rightarrow> int" where
  "prefixIdxLimit e = (startIndex e - dictLen e) mod 2 ^ 32"

definition maybe_extMem :: "cenv \<Rightarrow> bool" where
  "maybe_extMem e \<longleftrightarrow> dictDirective e = usingExtDict \<or> dictDirective e = usingDictCtx"

definition match_buf :: "cenv \<Rightarrow> bool \<Rightarrow> bytes" where
  "match_buf e d = (if d then extdict e else cur e)"

definition lowLimit :: "cenv \<Rightarrow> bool \<Rightarrow> int" where
  "lowLimit e d = (if d then 0 else srcpos e - (if dictDirective e = withPrefix64k then dictLen e else 0))"

definition put_position :: "cenv \<Rightarrow> int \<Rightarrow> htable \<Rightarrow> htable option" where
  "put_position e p tbl = do {
     h \<leftarrow> LZ4_hashPosition (cur e) p (tableT e);
     Some (LZ4_putIndexOnHash (index_of e p) h tbl (tableT e)) }"

section \<open>Finding a match\<close>

text \<open>The candidate the table holds for \<open>h\<close>: its index (comparable with the current one),
  whether it lies in the dictionary, and its position there.\<close>

definition candidate :: "cenv \<Rightarrow> htable \<Rightarrow> u32 \<Rightarrow> int \<times> bool \<times> int" where
  "candidate e tbl h =
    (let matchIndex = LZ4_getIndexOnHash h tbl in
     if dictDirective e = usingDictCtx then
       if matchIndex < startIndex e then
         let matchIndex = LZ4_getIndexOnHash h (dctxTable e);
             dictDelta = (startIndex e - dctxOffset e) mod 2 ^ 32 in
         ((matchIndex + dictDelta) mod 2 ^ 32, True, dictLen e + matchIndex - dctxOffset e)
       else (matchIndex, False, pos_of e matchIndex)
     else if dictDirective e = usingExtDict then
       if matchIndex < startIndex e then (matchIndex, True, dictLen e + matchIndex - startIndex e)
       else (matchIndex, False, pos_of e matchIndex)
     else (matchIndex, False, pos_of e matchIndex))"

text \<open>Not outside the valid area and not too far.\<close>

definition in_range :: "cenv \<Rightarrow> int \<Rightarrow> int \<Rightarrow> bool" where
  "in_range e matchIndex current \<longleftrightarrow>
     \<not> (dictSmall e \<and> matchIndex < prefixIdxLimit e)
     \<and> \<not> (tableT e \<noteq> byU16 \<and> (matchIndex + LZ4_DISTANCE_MAX) mod 2 ^ 32 < current)"

text \<open>The search loop: \<open>Inl\<close> is the jump to \<open>_last_literals\<close>; otherwise \<open>ip\<close>, the match and
  the distance of the indexes.\<close>

partial_function (option) find_match ::
  "cenv \<Rightarrow> htable \<Rightarrow> u32 \<Rightarrow> int \<Rightarrow> int \<Rightarrow> int \<Rightarrow> (htable + int \<times> bool \<times> int \<times> int \<times> htable) option" where
  "find_match e tbl forwardH forwardIp step searchMatchNb =
    (let h = forwardH; current = index_of e forwardIp; c = candidate e tbl h;
         ip = forwardIp; forwardIp = forwardIp + step;
         step = searchMatchNb div 2 ^ LZ4_skipTrigger; searchMatchNb = searchMatchNb + 1 in
     if forwardIp > mflimitPlusOne e then Some (Inl tbl)
     else do {
       forwardH \<leftarrow> LZ4_hashPosition (cur e) forwardIp (tableT e);
       let tbl = LZ4_putIndexOnHash current h tbl (tableT e);
       if \<not> in_range e (fst c) current
       then find_match e tbl forwardH forwardIp step searchMatchNb
       else do {
         x \<leftarrow> LZ4_read32 (match_buf e (fst (snd c))) (snd (snd c));
         y \<leftarrow> LZ4_read32 (cur e) ip;
         if x = y then Some (Inr (ip, fst (snd c), snd (snd c), current - fst c, tbl))
         else find_match e tbl forwardH forwardIp step searchMatchNb } })"

declare find_match.simps [code]

text \<open>Catch up: extend the match to the left, not past \<open>anchor\<close> and \<open>lowLimit\<close>.\<close>

function catch_up :: "cenv \<Rightarrow> bool \<Rightarrow> int \<Rightarrow> int \<Rightarrow> int \<Rightarrow> (int \<times> int) option" where
  "catch_up e d anchor ip match =
    (if ip > anchor \<and> match > lowLimit e d then do {
       x \<leftarrow> ld (cur e) (ip - 1);
       y \<leftarrow> ld (match_buf e d) (match - 1);
       if x = y then catch_up e d anchor (ip - 1) (match - 1) else Some (ip, match) }
     else Some (ip, match))"
  by pat_completeness auto
termination
  by (relation "measure (\<lambda>(e, d, anchor, ip, match). nat (ip - anchor))") auto

declare catch_up.simps [simp del]

section \<open>Writing a sequence\<close>

text \<open>The extension bytes of a literal length: \<open>for(; len >= 255 ; len-=255) *op++ = 255; *op++ = len\<close>.\<close>

function write_ext :: "bytes \<Rightarrow> int \<Rightarrow> int \<Rightarrow> (int \<times> bytes) option" where
  "write_ext m op len =
    (if len \<ge> 255 then do { m \<leftarrow> st m op 255; write_ext m (op + 1) (len - 255) }
     else do { m \<leftarrow> st m op (of_int len); Some (op + 1, m) })"
  by pat_completeness auto
termination
  by (relation "measure (\<lambda>(m, op, len). nat len)") auto

text \<open>The extension bytes of a match length, four at a time.\<close>

function write_match_ext :: "bytes \<Rightarrow> int \<Rightarrow> int \<Rightarrow> (int \<times> bytes) option" where
  "write_match_ext m op matchCode = do {
     m \<leftarrow> wrn m op [255, 255, 255, 255];
     if matchCode \<ge> 4 * 255 then write_match_ext m (op + 4) (matchCode - 4 * 255)
     else do {
       m \<leftarrow> st m (op + matchCode div 255) (of_int (matchCode mod 255));
       Some (op + matchCode div 255 + 1, m) } }"
  by pat_completeness auto
termination
  by (relation "measure (\<lambda>(m, op, matchCode). nat matchCode)") auto

declare write_ext.simps [simp del] write_match_ext.simps [simp del]

text \<open>\<open>LZ4_writeLE16\<close>.\<close>

definition LZ4_writeLE16 :: "bytes \<Rightarrow> int \<Rightarrow> u16 \<Rightarrow> bytes option" where
  "LZ4_writeLE16 m p value = wrn m p (store_le16 value)"

text \<open>Token and literals; \<open>Inl m\<close> is \<open>return 0\<close>. The result is the token position and \<open>op\<close>.\<close>

definition encode_literals :: "cenv \<Rightarrow> int \<Rightarrow> int \<Rightarrow> int \<Rightarrow> bytes \<Rightarrow> (bytes + int \<times> int \<times> bytes) option" where
  "encode_literals e anchor ip op m =
    (let litLength = ip - anchor; token = op; op = op + 1 in
     if outputDirective e = limitedOutput
        \<and> op + litLength + (2 + 1 + LASTLITERALS) + litLength div 255 > olimit e then Some (Inl m)
     else do {
       (op, m) \<leftarrow> (if litLength \<ge> RUN_MASK then do {
                      m \<leftarrow> st m token 240;
                      write_ext m op (litLength - RUN_MASK) }
                    else do { m \<leftarrow> st m token (of_int (litLength * 16)); Some (op, m) });
       m \<leftarrow> wildCopy8_from m op (cur e) anchor (op + litLength);
       Some (Inr (token, op + litLength, m)) })"

text \<open>The length of a match beyond \<open>MINMATCH\<close>: a match in the dictionary may run on into the
  source. The result is the code and the new \<open>ip\<close>.\<close>

definition match_length :: "cenv \<Rightarrow> bool \<Rightarrow> int \<Rightarrow> int \<Rightarrow> (int \<times> int) option" where
  "match_length e d ip match =
    (if maybe_extMem e \<and> d then do {
       let limit = min (ip + (int (length (extdict e)) - match)) (matchlimit e);
       matchCode \<leftarrow> LZ4_count (cur e) (ip + MINMATCH) (extdict e) (match + MINMATCH) limit;
       let ip = ip + matchCode + MINMATCH;
       if ip = limit then do {
         more \<leftarrow> LZ4_count (cur e) limit (cur e) (srcpos e) (matchlimit e);
         Some (matchCode + more, ip + more) }
       else Some (matchCode, ip) }
     else do {
       matchCode \<leftarrow> LZ4_count (cur e) (ip + MINMATCH) (cur e) (match + MINMATCH) (matchlimit e);
       Some (matchCode, ip + matchCode + MINMATCH) })"

text \<open>From the label \<open>_next_match\<close> to \<open>anchor = ip\<close>; \<open>Inl m\<close> is \<open>return 0\<close>.\<close>

definition encode_match ::
  "cenv \<Rightarrow> int \<Rightarrow> bool \<Rightarrow> int \<Rightarrow> int \<Rightarrow> int \<Rightarrow> int \<Rightarrow> bytes \<Rightarrow> (bytes + int \<times> int \<times> bytes) option" where
  "encode_match e ip d match offset token op m = do {
     m \<leftarrow> LZ4_writeLE16 m op (of_int (if maybe_extMem e then offset else ip - match));
     let op = op + 2;
     (matchCode, ip) \<leftarrow> match_length e d ip match;
     if outputDirective e = limitedOutput
        \<and> op + (1 + LASTLITERALS) + (matchCode + 240) div 255 > olimit e then Some (Inl m)
     else do {
       t \<leftarrow> ld m token;
       if matchCode \<ge> ML_MASK then do {
         m \<leftarrow> st m token (t + 15);
         (op, m) \<leftarrow> write_match_ext m op (matchCode - ML_MASK);
         Some (Inr (ip, op, m)) }
       else do {
         m \<leftarrow> st m token (t + of_int matchCode);
         Some (Inr (ip, op, m)) } } }"

text \<open>\<open>Fill table\<close> and \<open>Test next position\<close>: another match right here (\<open>Inl\<close>), or none.\<close>

definition test_next :: "cenv \<Rightarrow> int \<Rightarrow> htable \<Rightarrow> (htable \<times> (bool \<times> int \<times> int) option) option" where
  "test_next e ip tbl = do {
     tbl \<leftarrow> put_position e (ip - 2) tbl;
     h \<leftarrow> LZ4_hashPosition (cur e) ip (tableT e);
     let current = index_of e ip;
     let c = candidate e tbl h;
     let tbl = LZ4_putIndexOnHash current h tbl (tableT e);
     if in_range e (fst c) current then do {
       x \<leftarrow> LZ4_read32 (match_buf e (fst (snd c))) (snd (snd c));
       y \<leftarrow> LZ4_read32 (cur e) ip;
       Some (tbl, if x = y then Some (fst (snd c), snd (snd c), current - fst c) else None) }
     else Some (tbl, None) }"

section \<open>The main loop\<close>

text \<open>How a run of matches ends: \<open>return 0\<close>, \<open>_last_literals\<close>, or the next search.\<close>

datatype outcome =
    Return_0 (o_mem: bytes) (o_tbl: htable)
  | Last_literals (o_anchor: int) (o_op: int) (o_mem: bytes) (o_tbl: htable)
  | Search (o_ip: int) (o_anchor: int) (o_op: int) (o_mem: bytes) (o_tbl: htable) (o_forwardH: u32)

lemma match_length_ip:
  "match_length e d ip match = Some (mc, ip') \<Longrightarrow> ip' = ip + mc + 4 \<and> 0 \<le> mc"
  by (auto simp: match_length_def Option.bind_eq_Some_conv Let_def split: if_splits dest!: LZ4_count_nonneg)

lemma encode_match_ip:
  "encode_match e ip d match off token op m = Some (Inr (ip', op', m')) \<Longrightarrow> ip + 4 \<le> ip'"
  by (auto simp: encode_match_def Option.bind_eq_Some_conv Let_def split: if_splits dest!: match_length_ip)

function next_match ::
  "cenv \<Rightarrow> int \<Rightarrow> bool \<Rightarrow> int \<Rightarrow> int \<Rightarrow> int \<Rightarrow> int \<Rightarrow> bytes \<Rightarrow> htable \<Rightarrow> outcome option" where
  "next_match e ip d match offset token op m tbl = do {
     r \<leftarrow> encode_match e ip d match offset token op m;
     case r of Inl m \<Rightarrow> Some (Return_0 m tbl)
     | Inr (ip, op, m) \<Rightarrow>
         let anchor = ip in
         if ip \<ge> mflimitPlusOne e then Some (Last_literals anchor op m tbl)
         else do {
           (tbl, nxt) \<leftarrow> test_next e ip tbl;
           case nxt of Some (d, match, offset) \<Rightarrow> do {
               m \<leftarrow> st m op 0;
               next_match e ip d match offset op (op + 1) m tbl }
           | None \<Rightarrow> do {
               forwardH \<leftarrow> LZ4_hashPosition (cur e) (ip + 1) (tableT e);
               Some (Search (ip + 1) anchor op m tbl forwardH) } } }"
  by pat_completeness auto
termination
  by (relation "measure (\<lambda>(e, ip, d, match, offset, token, op, m, tbl). nat (c_iend e - ip))")
     (auto dest!: encode_match_ip)

declare next_match.simps [simp del]

partial_function (option) compress_loop ::
  "cenv \<Rightarrow> int \<Rightarrow> int \<Rightarrow> int \<Rightarrow> bytes \<Rightarrow> htable \<Rightarrow> u32 \<Rightarrow> outcome option" where
  "compress_loop e ip anchor op m tbl forwardH = do {
     r \<leftarrow> find_match e tbl forwardH ip 1 (acceleration e * 2 ^ LZ4_skipTrigger);
     case r of Inl tbl \<Rightarrow> Some (Last_literals anchor op m tbl)
     | Inr (ip, d, match, offset, tbl) \<Rightarrow> do {
         (ip, match) \<leftarrow> catch_up e d anchor ip match;
         r \<leftarrow> encode_literals e anchor ip op m;
         case r of Inl m \<Rightarrow> Some (Return_0 m tbl)
         | Inr (token, op, m) \<Rightarrow> do {
             f \<leftarrow> next_match e ip d match offset token op m tbl;
             case f of Search ip anchor op m tbl forwardH \<Rightarrow> compress_loop e ip anchor op m tbl forwardH
             | Return_0 m tbl \<Rightarrow> Some (Return_0 m tbl)
             | Last_literals anchor op m tbl \<Rightarrow> Some (Last_literals anchor op m tbl) } } }"

declare compress_loop.simps [code]

text \<open>From the label \<open>_last_literals\<close> on: the result is the return value.\<close>

definition last_literals :: "cenv \<Rightarrow> int \<Rightarrow> int \<Rightarrow> bytes \<Rightarrow> (int \<times> bytes) option" where
  "last_literals e anchor op m =
    (let lastRun = c_iend e - anchor in
     if outputDirective e = limitedOutput
        \<and> op + lastRun + 1 + (lastRun + 255 - RUN_MASK) div 255 > olimit e then Some (0, m)
     else do {
       (op, m) \<leftarrow> (if lastRun \<ge> RUN_MASK then do {
                      m \<leftarrow> st m op 240;
                      write_ext m (op + 1) (lastRun - RUN_MASK) }
                    else do { m \<leftarrow> st m op (of_int (lastRun * 16)); Some (op + 1, m) });
       m \<leftarrow> memcpy_from m op (cur e) anchor lastRun;
       Some (op + lastRun, m) })"

text \<open>The first byte, the main loop, the last literals; after a \<open>return 0\<close> the output holds what
  was written so far.\<close>

definition compress_body :: "cenv \<Rightarrow> bytes \<Rightarrow> htable \<Rightarrow> (int \<times> bytes \<times> htable) option" where
  "compress_body e m tbl =
    (let source = srcpos e in
     if c_iend e - source < LZ4_minLength then do {
       (r, m) \<leftarrow> last_literals e source 0 m;
       Some (r, m, tbl) }
     else do {
       tbl \<leftarrow> put_position e source tbl;
       forwardH \<leftarrow> LZ4_hashPosition (cur e) (source + 1) (tableT e);
       f \<leftarrow> compress_loop e (source + 1) source 0 m tbl forwardH;
       case f of Return_0 m tbl \<Rightarrow> Some (0, m, tbl)
       | Last_literals anchor op m tbl \<Rightarrow> do { (r, m) \<leftarrow> last_literals e anchor op m; Some (r, m, tbl) }
       | Search ip anchor op m tbl forwardH \<Rightarrow> None })"

section \<open>The context and the entry points\<close>

text \<open>\<open>LZ4_stream_t_internal\<close>. A dictionary is an address and a size; \<open>dictCtx\<close> is a copy of the
  attached context (which must not change while attached).\<close>

record dict_ctx =
  dc_hashTable :: htable
  dc_currentOffset :: int
  dc_dictionary :: int
  dc_dictSize :: int

record cctx =
  hashTable :: htable
  currentOffset :: int
  tableType :: tableType
  dictionary :: int
  cdictSize :: int
  dictCtx :: "dict_ctx option"

definition LZ4_initStream :: cctx where
  "LZ4_initStream = \<lparr>hashTable = (\<lambda>h. 0), currentOffset = 0, tableType = clearedTable, dictionary = 0,
     cdictSize = 0, dictCtx = None\<rparr>"

definition LZ4_prepareTable :: "cctx \<Rightarrow> int \<Rightarrow> tableType \<Rightarrow> cctx" where
  "LZ4_prepareTable c inputSize tt =
    (let c = (if tableType c \<noteq> clearedTable
                 \<and> (tableType c \<noteq> tt
                    \<or> (tt = byU16 \<and> (currentOffset c + inputSize) mod 2 ^ 32 \<ge> 65535)
                    \<or> (tt = byU32 \<and> currentOffset c > 2 ^ 30)
                    \<or> tt = byPtr
                    \<or> inputSize \<ge> KB 4)
              then c\<lparr>hashTable := (\<lambda>h. 0), currentOffset := 0, tableType := clearedTable\<rparr> else c);
         c = (if currentOffset c \<noteq> 0 \<and> tt = byU32 then c\<lparr>currentOffset := (currentOffset c + KB 64) mod 2 ^ 32\<rparr> else c) in
     c\<lparr>dictCtx := None, dictionary := 0, cdictSize := 0\<rparr>)"

text \<open>
  \<open>LZ4_compress_generic_validated\<close>: the segment with the source, the bytes of the external
  dictionary (of \<open>dictCtx\<close> or of the context) and the output buffer are arguments; the
  dictionary's size and the start index come from the context.
\<close>

definition compress_env ::
  "cctx \<Rightarrow> bytes \<Rightarrow> int \<Rightarrow> bytes \<Rightarrow> int \<Rightarrow> limitedOutput_directive \<Rightarrow> tableType \<Rightarrow> dict_directive \<Rightarrow> bool \<Rightarrow> int
     \<Rightarrow> cenv" where
  "compress_env c sg source dictBytes maxOutputSize dir tt d small accel =
     \<lparr>cur = sg, srcpos = source, extdict = dictBytes, startIndex = currentOffset c,
      dictLen = (case dictCtx c of Some dc \<Rightarrow> if d = usingDictCtx then dc_dictSize dc else cdictSize c
                 | None \<Rightarrow> cdictSize c),
      dctxTable = (case dictCtx c of Some dc \<Rightarrow> dc_hashTable dc | None \<Rightarrow> (\<lambda>h. 0)),
      dctxOffset = (case dictCtx c of Some dc \<Rightarrow> dc_currentOffset dc | None \<Rightarrow> 0),
      outputDirective = dir, tableT = tt, dictDirective = d, dictSmall = small, acceleration = accel,
      olimit = maxOutputSize\<rparr>"

definition LZ4_compress_generic_validated ::
  "cctx \<Rightarrow> bytes \<Rightarrow> int \<Rightarrow> bytes \<Rightarrow> bytes \<Rightarrow> int \<Rightarrow> limitedOutput_directive \<Rightarrow> tableType \<Rightarrow> dict_directive
     \<Rightarrow> bool \<Rightarrow> int \<Rightarrow> (int \<times> bytes \<times> cctx) option" where
  "LZ4_compress_generic_validated c sg source dictBytes dest maxOutputSize dir tt d small accel =
    (let inputSize = int (length sg) - source;
         e = compress_env c sg source dictBytes maxOutputSize dir tt d small accel in
     if tt = byU16 \<and> inputSize \<ge> LZ4_64Klimit then Some (0, dest, c)
     else let c = (if d = usingDictCtx then c\<lparr>dictCtx := None, cdictSize := inputSize\<rparr>
                   else c\<lparr>cdictSize := (cdictSize c + inputSize) mod 2 ^ 32\<rparr>);
              c = c\<lparr>currentOffset := (currentOffset c + inputSize) mod 2 ^ 32, tableType := tt\<rparr> in do {
       (r, m, tbl) \<leftarrow> compress_body e dest (hashTable c);
       Some (r, m, c\<lparr>hashTable := tbl\<rparr>) })"

abbreviation LZ4_MAX_INPUT_SIZE :: int where "LZ4_MAX_INPUT_SIZE \<equiv> 2113929216"

definition LZ4_compressBound :: "int \<Rightarrow> int" where
  "LZ4_compressBound isize =
     (if isize mod 2 ^ 32 > LZ4_MAX_INPUT_SIZE then 0 else isize + isize div 255 + 16)"

definition LZ4_compress_generic ::
  "cctx \<Rightarrow> bytes \<Rightarrow> int \<Rightarrow> bytes \<Rightarrow> bytes \<Rightarrow> int \<Rightarrow> limitedOutput_directive \<Rightarrow> tableType \<Rightarrow> dict_directive
     \<Rightarrow> bool \<Rightarrow> int \<Rightarrow> (int \<times> bytes \<times> cctx) option" where
  "LZ4_compress_generic c sg source dictBytes dst dstCapacity dir tt d small accel =
    (let srcSize = int (length sg) - source in
     if srcSize > LZ4_MAX_INPUT_SIZE then Some (0, dst, c)
     else if srcSize = 0 then
       if dir \<noteq> notLimited \<and> dstCapacity \<le> 0 then Some (0, dst, c)
       else do { m \<leftarrow> st dst 0 0; Some (1, m, c) }
     else LZ4_compress_generic_validated c sg source dictBytes dst dstCapacity dir tt d small accel)"

definition clamp_acceleration :: "int \<Rightarrow> int" where
  "clamp_acceleration a = (if a < 1 then 1 else if a > 65537 then 65537 else a)"

text \<open>\<open>LZ4_compress_fast_extState\<close> on a 64-bit machine; \<open>source\<close> is a whole buffer, \<open>dest\<close> has
  \<open>maxOutputSize\<close> bytes.\<close>

definition LZ4_compress_fast_extState :: "bytes \<Rightarrow> bytes \<Rightarrow> int \<Rightarrow> int \<Rightarrow> (int \<times> bytes) option" where
  "LZ4_compress_fast_extState source dest maxOutputSize accel =
    (let ctx = LZ4_initStream; inputSize = int (length source); accel = clamp_acceleration accel;
         tt = (if inputSize < LZ4_64Klimit then byU16 else byU32) in do {
       (r, m, c) \<leftarrow>
         (if maxOutputSize \<ge> LZ4_compressBound inputSize
          then LZ4_compress_generic ctx source 0 [] dest 0 notLimited tt noDict False accel
          else LZ4_compress_generic ctx source 0 [] dest maxOutputSize limitedOutput tt noDict False accel);
       Some (r, m) })"

definition LZ4_compress_fast :: "bytes \<Rightarrow> bytes \<Rightarrow> int \<Rightarrow> int \<Rightarrow> (int \<times> bytes) option" where
  "LZ4_compress_fast source dest maxOutputSize accel = LZ4_compress_fast_extState source dest maxOutputSize accel"

definition LZ4_compress_default :: "bytes \<Rightarrow> bytes \<Rightarrow> int \<Rightarrow> (int \<times> bytes) option" where
  "LZ4_compress_default src dst dstCapacity = LZ4_compress_fast src dst dstCapacity 1"

end
