(* ===== verification/LZ4_Format.thy ===== *)
theory LZ4_Format
  imports LZ4_Prelude "HOL-Library.Sublist"
begin

text \<open>
  The LZ4 block format as a grammar, independent of any code: a block is a list of
  sequences (literals, then a match that repeats earlier output) and a last run of literals.
  \<open>enc_seq\<close> and \<open>enc_last\<close> are the bytes of a block, \<open>expand\<close> is the data it stands for.
  The decoder is proved against this grammar from one side, the compressor from the other.
\<close>

section \<open>Sequences and what they expand to\<close>

datatype lz_seq = Seq (lits: bytes) (moff: nat) (mlen: nat)

text \<open>Copy \<open>n\<close> bytes from \<open>off\<close> back, one at a time, so that the copy may run into its own
  output. An offset of 0 is not a valid distance; the decoder writes zeros for it.\<close>

fun lz_copy :: "nat \<Rightarrow> nat \<Rightarrow> bytes \<Rightarrow> bytes" where
  "lz_copy off 0 h = h"
| "lz_copy off (Suc n) h = lz_copy off n (h @ [if off = 0 then 0 else h ! (length h - off)])"

fun expand1 :: "bytes \<Rightarrow> lz_seq \<Rightarrow> bytes" where
  "expand1 h (Seq l off n) = lz_copy off n (h @ l)"

definition expand :: "bytes \<Rightarrow> lz_seq list \<Rightarrow> bytes" where
  "expand h ss = foldl expand1 h ss"

section \<open>Bytes of a block\<close>

fun enc_ext :: "nat \<Rightarrow> bytes" where
  "enc_ext n = (if n < 255 then [of_nat n] else 255 # enc_ext (n - 255))"

declare enc_ext.simps [simp del]

definition enc_len :: "nat \<Rightarrow> bytes" where
  "enc_len n = (if n < 15 then [] else enc_ext (n - 15))"

definition token_byte :: "nat \<Rightarrow> nat \<Rightarrow> byte" where
  "token_byte hi lo = of_nat (16 * min hi 15 + min lo 15)"

fun enc_seq :: "lz_seq \<Rightarrow> bytes" where
  "enc_seq (Seq l off n) =
     token_byte (length l) (n - 4) # enc_len (length l) @ l
       @ [of_nat (off mod 256), of_nat (off div 256)] @ enc_len (n - 4)"

definition enc_last :: "nat \<Rightarrow> bytes \<Rightarrow> bytes" where
  "enc_last t l = token_byte (length l) t # enc_len (length l) @ l"

definition enc_block :: "lz_seq list \<Rightarrow> nat \<Rightarrow> bytes \<Rightarrow> bytes" where
  "enc_block ss t l = concat (map enc_seq ss) @ enc_last t l"

text \<open>A sequence the format allows after \<open>h\<close>: the match is at least four bytes long and its
  distance, at most 65535, stays within the history.\<close>

definition seq_ok :: "bytes \<Rightarrow> lz_seq \<Rightarrow> bool" where
  "seq_ok h s \<longleftrightarrow> 4 \<le> mlen s \<and> moff s \<le> 65535 \<and> moff s \<le> length h + length (lits s)"

fun seqs_ok :: "bytes \<Rightarrow> lz_seq list \<Rightarrow> bool" where
  "seqs_ok h [] = True"
| "seqs_ok h (s # ss) = (seq_ok h s \<and> seqs_ok (expand1 h s) ss)"

section \<open>Facts about the copy\<close>

lemma length_lz_copy [simp]: "length (lz_copy off n h) = length h + n"
  by (induction off n h rule: lz_copy.induct) auto

lemma lz_copy_prefix: "\<exists>zs. lz_copy off n h = h @ zs"
  by (induction off n h rule: lz_copy.induct) auto

lemma take_lz_copy: "k \<le> length h \<Longrightarrow> take k (lz_copy off n h) = take k h"
  by (metis lz_copy_prefix append_take_drop_id append_assoc take_append diff_is_0_eq take_0 append_Nil2)

lemma lz_copy_zero: "lz_copy 0 n h = h @ replicate n 0"
  by (induction "0::nat" n h rule: lz_copy.induct) (auto simp: replicate_app_Cons_same)

lemma lz_copy_add: "lz_copy off (i + j) h = lz_copy off j (lz_copy off i h)"
  by (induction off i h rule: lz_copy.induct) auto

lemma lz_copy_append: "off \<le> length xs \<Longrightarrow> lz_copy off n (d @ xs) = d @ lz_copy off n xs"
  by (induction n arbitrary: xs) (auto simp: nth_append)

text \<open>The periodic equation determines the copy.\<close>

lemma lz_copy_eqI:
  assumes "take (length h) ys = h" "length ys = length h + n" "0 < off" "off \<le> length h"
    and "\<And>k. k < n \<Longrightarrow> ys ! (length h + k) = ys ! (length h + k - off)"
  shows "lz_copy off n h = ys"
  using assms
proof (induction n arbitrary: h)
  case 0
  then show ?case by simp
next
  case (Suc n)
  let ?h = "h @ [h ! (length h - off)]"
  have "ys ! length h = h ! (length h - off)"
    using Suc.prems(5)[of 0] Suc.prems(1,3,4)
    by (metis add_0_right diff_less le_eq_less_or_eq less_le_trans nth_take zero_less_Suc)
  then have t: "take (length ?h) ys = ?h"
    using Suc.prems(1,2) by (simp add: take_Suc_conv_app_nth)
  have "lz_copy off n ?h = ys"
  proof (rule Suc.IH[OF t])
    fix k assume "k < n"
    then show "ys ! (length ?h + k) = ys ! (length ?h + k - off)"
      using Suc.prems(5)[of "Suc k"] by simp
  qed (use Suc.prems in auto)
  then show ?case using Suc.prems(3) by simp
qed

lemma nth_lz_copy:
  assumes "0 < off" "off \<le> length h" "k < n"
  shows "lz_copy off n h ! (length h + k) = lz_copy off n h ! (length h + k - off)"
  using assms
proof (induction n arbitrary: h k)
  case (Suc n)
  let ?h = "h @ [h ! (length h - off)]"
  obtain zs where zs: "lz_copy off n ?h = ?h @ zs" using lz_copy_prefix by blast
  show ?case
  proof (cases k)
    case 0
    then show ?thesis using zs Suc.prems by (simp add: nth_append)
  next
    case (Suc k')
    then show ?thesis using Suc.IH[of ?h k'] Suc.prems Suc by simp
  qed
qed simp

lemma length_expand1 [simp]: "length (expand1 h s) = length h + length (lits s) + mlen s"
  by (cases s) simp

lemma expand_Nil [simp]: "expand h [] = h"
  and expand_Cons [simp]: "expand h (s # ss) = expand (expand1 h s) ss"
  by (simp_all add: expand_def)

lemma expand_append: "expand h (xs @ ys) = expand (expand h xs) ys"
  by (simp add: expand_def)

lemma expand1_prefix: "\<exists>zs. expand1 h s = h @ zs"
  by (cases s) (metis expand1.simps lz_copy_prefix append_assoc)

lemma expand_prefix: "\<exists>zs. expand h ss = h @ zs"
  by (induction ss arbitrary: h) (auto, metis expand1_prefix append_assoc)

lemma seqs_ok_append: "seqs_ok h (xs @ ys) \<longleftrightarrow> seqs_ok h xs \<and> seqs_ok (expand h xs) ys"
  by (induction xs arbitrary: h) auto

section \<open>Facts about the encodings\<close>

lemma enc_ext_nonempty [simp]: "enc_ext n \<noteq> []"
  by (subst enc_ext.simps) simp

lemma length_enc_ext: "length (enc_ext n) = n div 255 + 1"
  by (induction n rule: enc_ext.induct) (subst enc_ext.simps, auto simp: le_div_geq)

lemma length_enc_len: "length (enc_len n) = (if n < 15 then 0 else (n - 15) div 255 + 1)"
  by (simp add: enc_len_def length_enc_ext)

text \<open>The extension bytes are a prefix-free code: the first byte below 255 ends them.\<close>

lemma enc_ext_inj: "enc_ext a @ xs = enc_ext b @ ys \<Longrightarrow> a = b \<and> xs = ys"
proof (induction a arbitrary: b rule: enc_ext.induct)
  case (1 a)
  have c: "(of_nat x :: byte) = 255 \<longleftrightarrow> x = 255" if "x < 255" for x
    using of_nat_byte_inj[of x 255] that by simp
  show ?case
  proof (cases "a < 255")
    case True
    with "1.prems" c[OF True] show ?thesis
      by (subst (asm) (1 2) enc_ext.simps) (auto split: if_splits simp: of_nat_byte_inj)
  next
    case False
    note a = this
    then have e: "255 # enc_ext (a - 255) @ xs = enc_ext b @ ys"
      using "1.prems" by (subst (asm) (1) enc_ext.simps) simp
    have b: "\<not> b < 255"
    proof
      assume "b < 255"
      then show False using e c by (subst (asm) enc_ext.simps) auto
    qed
    then have "enc_ext (a - 255) @ xs = enc_ext (b - 255) @ ys"
      using e by (subst (asm) (2) enc_ext.simps) simp
    from "1.IH"[OF a this] a b show ?thesis by auto
  qed
qed

section \<open>The grammar is unambiguous\<close>

lemma token_byte_inj:
  assumes "token_byte a b = token_byte c d"
  shows "min a 15 = min c 15 \<and> min b 15 = min d 15"
proof -
  have "16 * min a 15 + min b 15 = 16 * min c 15 + min d 15"
    using assms unfolding token_byte_def by (subst (asm) of_nat_byte_inj) auto
  then have "(16 * min a 15 + min b 15) div 16 = (16 * min c 15 + min d 15) div 16"
    "(16 * min a 15 + min b 15) mod 16 = (16 * min c 15 + min d 15) mod 16" by simp_all
  then show ?thesis by simp
qed

lemma enc_len_inj:
  assumes "min a 15 = min b 15" "enc_len a @ xs = enc_len b @ ys"
  shows "a = b \<and> xs = ys"
proof (cases "a < 15")
  case True
  then have "b = a" using assms(1) by (simp add: min_def split: if_splits)
  then show ?thesis using assms(2) by simp
next
  case False
  then have b: "\<not> b < 15" using assms(1) by (simp add: min_def split: if_splits)
  have "enc_ext (a - 15) @ xs = enc_ext (b - 15) @ ys"
    using assms(2) by (simp only: enc_len_def False b if_False)
  then have "a - 15 = b - 15 \<and> xs = ys" by (rule enc_ext_inj)
  then show ?thesis using False b by auto
qed

lemma enc_lits_inj:
  assumes "token_byte (length l) t # enc_len (length l) @ l @ xs
    = token_byte (length l') t' # enc_len (length l') @ l' @ ys"
  shows "l = l' \<and> min t 15 = min t' 15 \<and> xs = ys"
proof -
  from assms have tok: "token_byte (length l) t = token_byte (length l') t'"
    and r: "enc_len (length l) @ (l @ xs) = enc_len (length l') @ (l' @ ys)"
    by (simp_all only: list.inject)
  note k = token_byte_inj[OF tok]
  have "length l = length l' \<and> l @ xs = l' @ ys"
    using k r by (intro enc_len_inj) auto
  then show ?thesis using k by (auto dest: append_eq_append_conv[THEN iffD1, rotated])
qed

lemma enc_off_inj:
  assumes "(of_nat (a mod 256) :: byte) = of_nat (b mod 256)" "(of_nat (a div 256) :: byte) = of_nat (b div 256)"
    and "a \<le> 65535" "b \<le> 65535"
  shows "a = b"
proof -
  have "a mod 256 = b mod 256" using assms(1) by (subst (asm) of_nat_byte_inj) auto
  moreover have "a div 256 = b div 256" using assms(2-4) by (subst (asm) of_nat_byte_inj) auto
  ultimately show ?thesis by (metis mult_div_mod_eq)
qed

lemma enc_seq_inj:
  assumes "enc_seq a @ xs = enc_seq b @ ys" "seq_ok h a" "seq_ok h' b"
  shows "a = b \<and> xs = ys"
proof -
  obtain l off n l' off' n' where ab: "a = Seq l off n" "b = Seq l' off' n'" by (metis lz_seq.exhaust)
  from assms ab have ok: "4 \<le> n" "off \<le> 65535" "4 \<le> n'" "off' \<le> 65535" by (auto simp: seq_ok_def)
  have k: "l = l'" "min (n - 4) 15 = min (n' - 4) 15"
    and r: "[of_nat (off mod 256), of_nat (off div 256)] @ enc_len (n - 4) @ xs
      = [of_nat (off' mod 256), of_nat (off' div 256)] @ enc_len (n' - 4) @ ys"
    using enc_lits_inj[of l "n - 4" "[of_nat (off mod 256), of_nat (off div 256)] @ enc_len (n - 4) @ xs"
      l' "n' - 4" "[of_nat (off' mod 256), of_nat (off' div 256)] @ enc_len (n' - 4) @ ys"]
      assms(1) ab by auto
  from r have "off = off'" using ok enc_off_inj by simp
  moreover from r have "enc_len (n - 4) @ xs = enc_len (n' - 4) @ ys" by simp
  then have "n - 4 = n' - 4 \<and> xs = ys" by (rule enc_len_inj[OF k(2)])
  moreover from this have "n = n'" using ok by arith
  ultimately show ?thesis using ab k by simp
qed

lemma enc_seq_not_last: "enc_seq a @ xs \<noteq> enc_last t l"
  using enc_lits_inj[of "lits a" "mlen a - 4" _ l t "[]"]
  by (cases a) (auto simp: enc_last_def)

lemma enc_last_inj: "enc_last t l = enc_last t' l' \<Longrightarrow> l = l'"
  using enc_lits_inj[of l t "[]" l' t' "[]"] by (simp add: enc_last_def)

lemma enc_block_Cons: "enc_block (q # ss) t l = enc_seq q @ enc_block ss t l"
  by (simp add: enc_block_def)

lemma enc_block_Nil: "enc_block [] t l = enc_last t l"
  by (simp add: enc_block_def)

lemma enc_block_inj:
  "enc_block ss t l = enc_block ss' t' l' \<Longrightarrow> seqs_ok h ss \<Longrightarrow> seqs_ok h' ss' \<Longrightarrow> ss = ss' \<and> l = l'"
proof (induction ss arbitrary: ss' h h')
  case Nil
  then show ?case
    by (cases ss') (auto simp: enc_block_Cons enc_block_Nil dest: enc_last_inj enc_seq_not_last[THEN notE, OF sym])
next
  case (Cons q ss)
  then obtain q' ss2 where ss': "ss' = q' # ss2"
    using enc_seq_not_last by (cases ss') (auto simp: enc_block_Cons enc_block_Nil)
  have "q = q' \<and> enc_block ss t l = enc_block ss2 t' l'"
    using Cons.prems ss' by (intro enc_seq_inj) (auto simp: enc_block_Cons)
  then show ?case using Cons ss' by auto
qed

section \<open>End-of-block conditions\<close>

text \<open>
  What the format asks of the end of a block, so that a decoder may copy in strides: the
  last match starts at least 12 bytes before the end, and the last 5 bytes are literals.
  \<open>expanded\<close> is the number of bytes the rest of a block stands for.
\<close>

definition expanded :: "lz_seq list \<Rightarrow> bytes \<Rightarrow> nat" where
  "expanded ss l = sum_list (map (\<lambda>s. length (lits s) + mlen s) ss) + length l"

definition ends_ok :: "lz_seq list \<Rightarrow> bytes \<Rightarrow> bool" where
  "ends_ok ss l \<longleftrightarrow> ss = [] \<or> (5 \<le> length l \<and> 12 \<le> mlen (last ss) + length l)"

lemma expanded_Cons: "expanded (q # ss) l = length (lits q) + mlen q + expanded ss l"
  by (simp add: expanded_def)

lemma expanded_Nil [simp]: "expanded [] l = length l"
  by (simp add: expanded_def)

lemma length_expand: "length (expand h ss @ l) = length h + expanded ss l"
  by (induction ss arbitrary: h) (auto simp: expanded_def)

lemma ends_ok_Cons:
  assumes "ends_ok (q # ss) l" "seqs_ok h (q # ss)"
  shows "ends_ok ss l" "5 \<le> expanded ss l" "12 \<le> mlen q + expanded ss l"
proof -
  show "ends_ok ss l" using assms by (auto simp: ends_ok_def split: if_splits)
  have l: "5 \<le> length l" using assms(1) by (simp add: ends_ok_def)
  then show "5 \<le> expanded ss l" by (simp add: expanded_def)
  show "12 \<le> mlen q + expanded ss l"
  proof (cases "ss = []")
    case True
    then show ?thesis using assms(1) by (simp add: ends_ok_def)
  next
    case False
    then obtain ys y where ss: "ss = ys @ [y]" by (metis rev_exhaust)
    then have "12 \<le> mlen y + length l" using assms(1) by (simp add: ends_ok_def)
    then show ?thesis using ss by (simp add: expanded_def)
  qed
qed

lemma enc_last_length: "length (enc_last t l) = 1 + length (enc_len (length l)) + length l"
  by (simp add: enc_last_def)

lemma enc_seq_length: "2 < length (enc_seq q)"
  by (cases q) simp

lemma enc_block_length: "ends_ok (q # ss) l \<Longrightarrow> 6 \<le> length (enc_block ss t l)"
  by (auto simp: ends_ok_def enc_block_def enc_last_length)

end
