(* ===== verification/LZ4_Compress_Search.thy ===== *)
theory LZ4_Compress_Search
  imports LZ4_Compress LZ4_Format
begin

text \<open>
  The search part of the compressor: what the hash table may hold, and that every match it
  leads to lies in the history, repeats at the distance that will be encoded, and is read
  inside the buffers. The history is the external dictionary followed by the segment that
  holds the source; \<open>vpos\<close> is a position in that concatenation.
\<close>

section \<open>The environment of a call\<close>

abbreviation dl :: "cenv \<Rightarrow> int" where "dl e \<equiv> int (length (extdict e))"
abbreviation inputSize :: "cenv \<Rightarrow> int" where "inputSize e \<equiv> c_iend e - srcpos e"

definition mode_fits :: "cenv \<Rightarrow> bool" where
  "mode_fits e \<longleftrightarrow> (case dictDirective e of
       noDict \<Rightarrow> extdict e = [] \<and> srcpos e = 0 \<and> dictLen e = 0
     | withPrefix64k \<Rightarrow> extdict e = [] \<and> srcpos e = dictLen e
     | usingExtDict \<Rightarrow> srcpos e = 0 \<and> dictLen e = dl e
     | usingDictCtx \<Rightarrow> srcpos e = 0 \<and> dictLen e = dl e \<and> tableT e = byU32
         \<and> dctxOffset e = 65536 \<and> dictLen e \<le> 65536 \<and> 65536 \<le> startIndex e
         \<and> (\<forall>h. dctxTable e h = 0 \<or> (65536 - dictLen e \<le> dctxTable e h \<and> dctxTable e h + 4 \<le> 65536)))"

definition env_ok :: "cenv \<Rightarrow> bool" where
  "env_ok e \<longleftrightarrow> 0 \<le> srcpos e \<and> srcpos e \<le> c_iend e \<and> 0 \<le> startIndex e \<and> dictLen e \<le> 2 ^ 31
     \<and> (dictDirective e \<noteq> noDict \<longrightarrow> dictLen e \<le> startIndex e \<or> \<not> dictSmall e)
     \<and> startIndex e + inputSize e + 65536 < 2 ^ 32
     \<and> (tableT e = byU32 \<or> (tableT e = byU16 \<and> startIndex e + inputSize e \<le> 65536 + 11))
     \<and> 1 \<le> acceleration e \<and> mode_fits e"

text \<open>An entry from before this call that may still be used must lead into the dictionary.\<close>

definition reachable :: "cenv \<Rightarrow> int \<Rightarrow> bool" where
  "reachable e i \<longleftrightarrow> \<not> (dictSmall e \<and> i < prefixIdxLimit e) \<and> (tableT e = byU16 \<or> startIndex e \<le> i + 65535)"

definition old_entry :: "cenv \<Rightarrow> int \<Rightarrow> bool" where
  "old_entry e i \<longleftrightarrow> 0 \<le> i \<and> i \<le> startIndex e \<and> (i < startIndex e \<and> reachable e i \<and> dictDirective e \<noteq> usingDictCtx
     \<longrightarrow> startIndex e - dictLen e \<le> i \<and> (dictDirective e = usingExtDict \<longrightarrow> i + 4 \<le> startIndex e))"

text \<open>The table during the call: entries from before, and positions of the source read so far.\<close>

definition tbl_inv :: "cenv \<Rightarrow> htable \<Rightarrow> int \<Rightarrow> htable \<Rightarrow> bool" where
  "tbl_inv e tbl0 c tbl \<longleftrightarrow> (\<forall>h. old_entry e (tbl0 h)) \<and> (\<forall>h. tbl h < c
     \<and> (tbl h = tbl0 h \<or> (startIndex e \<le> tbl h \<and> tbl h + 12 \<le> startIndex e + inputSize e)))"

lemma tbl_inv_mono: "tbl_inv e tbl0 c tbl \<Longrightarrow> c \<le> c' \<Longrightarrow> tbl_inv e tbl0 c' tbl"
  unfolding tbl_inv_def by (meson order_less_le_trans)

text \<open>The index of a source position does not wrap.\<close>

lemma index_of_eq:
  "env_ok e \<Longrightarrow> srcpos e \<le> p \<Longrightarrow> p \<le> c_iend e \<Longrightarrow> index_of e p = startIndex e + (p - srcpos e)"
  unfolding index_of_def env_ok_def by (intro mod_pos_pos_trivial) auto

lemma put_inv:
  assumes e: "env_ok e" and t: "tbl_inv e tbl0 c tbl"
    and p: "srcpos e \<le> p" "p \<le> c_iend e - 12" "index_of e p < c"
  shows "tbl_inv e tbl0 c (LZ4_putIndexOnHash (index_of e p) h tbl (tableT e))"
proof -
  have i: "index_of e p = startIndex e + (p - srcpos e)" using index_of_eq[OF e p(1)] p(2) by simp
  then have b: "startIndex e \<le> index_of e p" "index_of e p + 12 \<le> startIndex e + inputSize e" "0 \<le> index_of e p"
    using p e by (auto simp: env_ok_def)
  have u32: "index_of e p mod 2 ^ 32 = index_of e p"
    by (simp add: index_of_def)
  have u16: "index_of e p mod 2 ^ 16 = index_of e p" if "tableT e = byU16"
  proof -
    have "index_of e p < 2 ^ 16" using that e b by (auto simp: env_ok_def)
    then show ?thesis using b by (intro mod_pos_pos_trivial) auto
  qed
  show ?thesis
    using t b p(3) u32 u16 e unfolding tbl_inv_def LZ4_putIndexOnHash_def env_ok_def
    by (auto split: tableType.splits)
qed

section \<open>Matches\<close>

definition vpos :: "cenv \<Rightarrow> bool \<Rightarrow> int \<Rightarrow> int" where
  "vpos e d p = (if d then p else dl e + p)"

definition match_ok :: "cenv \<Rightarrow> int \<Rightarrow> bool \<Rightarrow> int \<Rightarrow> int \<Rightarrow> bool" where
  "match_ok e ip d p off \<longleftrightarrow> lowLimit e d \<le> p \<and> 0 \<le> p \<and> (d \<longrightarrow> maybe_extMem e \<and> p + 4 \<le> dl e) \<and> (\<not> d \<longrightarrow> p < ip)
     \<and> off = dl e + ip - vpos e d p \<and> 0 < off \<and> off \<le> 65535"

lemma candidate_ok:
  assumes e: "env_ok e" and t: "tbl_inv e tbl0 (index_of e ip) tbl" and ip: "srcpos e < ip" "ip \<le> c_iend e - 12"
    and c: "candidate e tbl h = (mi, d, p)" and r: "in_range e mi (index_of e ip)"
  shows "match_ok e ip d p (index_of e ip - mi)"
proof -
  have i: "index_of e ip = startIndex e + (ip - srcpos e)" using index_of_eq[OF e] ip by simp
  let ?t = "tbl h"
  have old: "old_entry e (tbl0 h)" and lt: "?t < index_of e ip"
    and alt: "?t = tbl0 h \<or> (startIndex e \<le> ?t \<and> ?t + 12 \<le> startIndex e + inputSize e)"
    using t by (auto simp: tbl_inv_def)
  have nn: "0 \<le> ?t" using old alt e by (auto simp: old_entry_def env_ok_def)
  have u16: "index_of e ip < 65536" if "tableT e = byU16" using that e ip i by (auto simp: env_ok_def)
  show ?thesis
  proof (cases "maybe_extMem e \<and> ?t < startIndex e")
    case False
    then have m: "mi = ?t" "\<not> d" "p = pos_of e ?t"
      using c by (auto simp: candidate_def maybe_extMem_def LZ4_getIndexOnHash_def Let_def split: if_splits)
    have dist: "index_of e ip - ?t \<le> 65535"
    proof (cases "tableT e = byU16")
      case True
      then show ?thesis using u16 nn by simp
    next
      case nb: False
      have "(?t + 65535) mod 2 ^ 32 = ?t + 65535"
        using nn lt i e ip by (intro mod_pos_pos_trivial) (auto simp: env_ok_def)
      then show ?thesis using r nb m by (simp add: in_range_def)
    qed
    have low: "srcpos e - (if dictDirective e = withPrefix64k then dictLen e else 0) \<le> p"
    proof (cases "startIndex e \<le> ?t")
      case True
      have "0 \<le> dictLen e" if "dictDirective e = withPrefix64k" using that e by (auto simp: env_ok_def mode_fits_def)
      then show ?thesis using True m by (cases "dictDirective e = withPrefix64k") (auto simp: pos_of_def)
    next
      case lts: False
      then have ne: "\<not> maybe_extMem e" using False by simp
      have "reachable e ?t" using r m dist i ip by (auto simp: reachable_def in_range_def)
      then have "startIndex e - dictLen e \<le> ?t"
        using old alt lts ne by (auto simp: old_entry_def maybe_extMem_def)
      moreover have "dictLen e = 0" if "dictDirective e \<noteq> withPrefix64k"
        using that e ne by (cases "dictDirective e") (auto simp: env_ok_def mode_fits_def maybe_extMem_def)
      ultimately show ?thesis using m by (auto simp: pos_of_def)
    qed
    have p0: "0 \<le> p"
    proof -
      have "dictLen e = srcpos e" if "dictDirective e = withPrefix64k" using that e by (auto simp: env_ok_def mode_fits_def)
      then show ?thesis using low e by (auto simp: env_ok_def split: if_splits)
    qed
    show ?thesis
      using m low p0 dist lt i by (auto simp: match_ok_def lowLimit_def vpos_def pos_of_def)
  next
    case ext: True
    then have z: "srcpos e = 0" "dictLen e = dl e" using e
      by (auto simp: env_ok_def mode_fits_def maybe_extMem_def split: dict_directive.splits)
    show ?thesis
    proof (cases "dictDirective e = usingDictCtx")
      case True
      let ?q = "dctxTable e h"
      have f: "dctxOffset e = 65536" "dictLen e \<le> 65536" "65536 \<le> startIndex e" "tableT e = byU32"
        "?q = 0 \<or> (65536 - dictLen e \<le> ?q \<and> ?q + 4 \<le> 65536)"
        using e True by (auto simp: env_ok_def mode_fits_def)
      have d0: "(startIndex e - 65536) mod 2 ^ 32 = startIndex e - 65536"
        using f e ip z by (intro mod_pos_pos_trivial) (auto simp: env_ok_def)
      have m: "mi = (?q + (startIndex e - 65536)) mod 2 ^ 32" "d" "p = dictLen e + ?q - 65536"
        using c True ext f d0 by (auto simp: candidate_def LZ4_getIndexOnHash_def Let_def)
      have mi: "mi = ?q + (startIndex e - 65536)"
        unfolding m(1) using f e ip z by (intro mod_pos_pos_trivial) (auto simp: env_ok_def)
      have "(mi + 65535) mod 2 ^ 32 = mi + 65535"
        unfolding mi using f e ip z by (intro mod_pos_pos_trivial) (auto simp: env_ok_def)
      then have dist: "index_of e ip - mi \<le> 65535" using r f by (simp add: in_range_def)
      have "?q \<noteq> 0" using dist mi i z ip by auto
      then show ?thesis using f m mi dist i z ip ext
        by (auto simp: match_ok_def lowLimit_def vpos_def)
    next
      case False
      then have u: "dictDirective e = usingExtDict" using ext by (simp add: maybe_extMem_def)
      then have m: "mi = ?t" "d" "p = dictLen e + ?t - startIndex e"
        using c ext u by (auto simp: candidate_def LZ4_getIndexOnHash_def Let_def)
      have dist: "index_of e ip - ?t \<le> 65535"
      proof (cases "tableT e = byU16")
        case True
        then show ?thesis using u16 nn by simp
      next
        case nb: False
        have "(?t + 65535) mod 2 ^ 32 = ?t + 65535"
          using nn lt i e ip by (intro mod_pos_pos_trivial) (auto simp: env_ok_def)
        then show ?thesis using r nb m by (simp add: in_range_def)
      qed
      have "reachable e ?t" using r m dist i ip by (auto simp: reachable_def in_range_def)
      then have "startIndex e - dictLen e \<le> ?t \<and> ?t + 4 \<le> startIndex e"
        using old alt ext u by (auto simp: old_entry_def)
      then show ?thesis using m dist i z ext ip
        by (auto simp: match_ok_def lowLimit_def vpos_def)
    qed
  qed
qed


section \<open>The search\<close>

text \<open>The table holds only indexes of positions before \<open>p\<close>.\<close>

abbreviation tinv :: "cenv \<Rightarrow> htable \<Rightarrow> int \<Rightarrow> htable \<Rightarrow> bool" where
  "tinv e tbl0 p tbl \<equiv> tbl_inv e tbl0 (startIndex e + (p - srcpos e)) tbl"

text \<open>\<open>rep e ip off n\<close>: from \<open>ip\<close> on, \<open>n\<close> bytes repeat at distance \<open>off\<close>, seen from the history.\<close>

abbreviation hist_cur :: "cenv \<Rightarrow> bytes" where "hist_cur e \<equiv> extdict e @ cur e"

definition rep :: "cenv \<Rightarrow> int \<Rightarrow> int \<Rightarrow> int \<Rightarrow> bool" where
  "rep e ip off n \<longleftrightarrow> same (hist_cur e) (dl e + ip) (hist_cur e) (dl e + ip - off) n"

lemma at_hist:
  "0 \<le> p \<Longrightarrow> p < dl e \<Longrightarrow> at (hist_cur e) p = at (extdict e) p"
  "0 \<le> p \<Longrightarrow> at (hist_cur e) (dl e + p) = at (cur e) p"
  by (auto simp: at_def nth_append nat_add_distrib)

text \<open>Position \<open>p\<close> of the match buffer is \<open>off\<close> before \<open>ip\<close>.\<close>

definition aligned :: "cenv \<Rightarrow> int \<Rightarrow> bool \<Rightarrow> int \<Rightarrow> int \<Rightarrow> bool" where
  "aligned e ip d p off \<longleftrightarrow> 0 \<le> p \<and> 0 \<le> ip \<and> off = dl e + ip - vpos e d p"

lemma match_aligned: "match_ok e ip d p off \<Longrightarrow> 0 \<le> ip \<Longrightarrow> aligned e ip d p off"
  by (simp add: match_ok_def aligned_def)

lemma aligned_shift: "aligned e ip d p off \<Longrightarrow> 0 \<le> a \<Longrightarrow> aligned e (ip + a) d (p + a) off"
  by (auto simp: aligned_def vpos_def)

lemma aligned_turn: "aligned e ip True p off \<Longrightarrow> p \<le> dl e \<Longrightarrow> aligned e (ip + (dl e - p)) False 0 off"
  by (auto simp: aligned_def vpos_def)

lemma at_match_buf:
  assumes "aligned e ip d p off" "0 \<le> k" "d \<longrightarrow> p + k < dl e"
  shows "at (hist_cur e) (dl e + ip + k - off) = at (match_buf e d) (p + k)"
proof (cases d)
  case True
  then have "dl e + ip + k - off = p + k" "0 \<le> p + k" "p + k < dl e"
    using assms by (auto simp: aligned_def vpos_def)
  then show ?thesis using True by (simp only: match_buf_def if_True at_hist)
next
  case False
  then have "dl e + ip + k - off = dl e + (p + k)" "0 \<le> p + k" using assms by (auto simp: aligned_def vpos_def)
  then show ?thesis using False by (simp only: match_buf_def if_False at_hist)
qed

lemma same_rep:
  assumes "aligned e ip d p off" "d \<longrightarrow> p + n \<le> dl e"
  shows "same (cur e) ip (match_buf e d) p n \<longleftrightarrow> rep e ip off n"
proof -
  have "at (hist_cur e) (dl e + ip + k) = at (cur e) (ip + k)
      \<and> at (hist_cur e) (dl e + ip - off + k) = at (match_buf e d) (p + k)" if "0 \<le> k" "k < n" for k
  proof -
    have "at (hist_cur e) (dl e + ip + k - off) = at (match_buf e d) (p + k)"
      using assms that by (intro at_match_buf) auto
    moreover have "at (hist_cur e) (dl e + (ip + k)) = at (cur e) (ip + k)"
      using that assms(1) by (intro at_hist(2)) (simp add: aligned_def)
    moreover have "dl e + ip - off + k = dl e + ip + k - off" "dl e + ip + k = dl e + (ip + k)" by simp_all
    ultimately show ?thesis by (simp only: simp_thms)
  qed
  then show ?thesis by (auto simp: rep_def same_def)
qed

lemma match_ok_read:
  assumes "match_ok e ip d p off" "ip \<le> c_iend e - 4"
  shows "in_buf (match_buf e d) p 4"
  using assms by (auto simp: match_ok_def match_buf_def in_buf_def)

lemma wp_hashPosition:
  assumes "0 \<le> p" "p \<le> int (length m) - 8" "\<And>h. LZ4_hashPosition m p tt = Some h \<Longrightarrow> Q h"
  shows "wp (LZ4_hashPosition m p tt) Q"
  using assms by (auto simp: LZ4_hashPosition_def wp_simps LZ4_read_ARCH_def LZ4_read32_def in_buf_def rdn_def wp_def
      split: option.splits if_splits)

lemma read32_eq:
  assumes m: "match_ok e ip d p off" and i: "0 \<le> ip" "ip \<le> c_iend e - 4"
    and "\<And>x y. x = y \<longleftrightarrow> rep e ip off 4 \<Longrightarrow> wp (f x y) Q"
  shows "wp (do { x \<leftarrow> LZ4_read32 (match_buf e d) p; y \<leftarrow> LZ4_read32 (cur e) ip; f x y }) Q"
proof -
  have b: "in_buf (match_buf e d) p 4" "in_buf (cur e) ip 4"
    using match_ok_read[OF m i(2)] i by (auto simp: in_buf_def)
  have "d \<longrightarrow> p + 4 \<le> dl e" using m by (simp add: match_ok_def)
  then have s: "same (cur e) ip (match_buf e d) p 4 \<longleftrightarrow> rep e ip off 4" by (rule same_rep[OF match_aligned[OF m i(1)]])
  have "le_word (seg (match_buf e d) p (p + 4)) = (le_word (seg (cur e) ip (ip + 4)) :: u32) \<longleftrightarrow> rep e ip off 4"
    using le_word_same[OF b(2,1), where 'w = 32] s by auto
  then show ?thesis using assms(4) b
    by (simp add: LZ4_read32_def wp_simps)
qed

text \<open>What the search returns.\<close>

definition found :: "cenv \<Rightarrow> htable \<Rightarrow> int \<Rightarrow> htable + int \<times> bool \<times> int \<times> int \<times> htable \<Rightarrow> bool" where
  "found e tbl0 fip r = (case r of Inl tbl \<Rightarrow> tinv e tbl0 (c_iend e) tbl
     | Inr (ip, d, p, off, tbl) \<Rightarrow> fip \<le> ip \<and> ip \<le> c_iend e - 12 \<and> match_ok e ip d p off \<and> rep e ip off 4
         \<and> tinv e tbl0 (ip + 1) tbl)"

lemma found_mono: "found e tbl0 fip' r \<Longrightarrow> fip \<le> fip' \<Longrightarrow> found e tbl0 fip r"
  by (auto simp: found_def split: sum.splits)

lemma find_match_ok:
  assumes e: "env_ok e" and "tinv e tbl0 fip tbl" "srcpos e < fip" "fip \<le> mflimitPlusOne e" "1 \<le> step" "64 \<le> nb"
  shows "wp (find_match e tbl fh fip step nb) (found e tbl0 fip)"
  using assms(2-)
proof (induction "nat (c_iend e - fip)" arbitrary: tbl fh fip step nb rule: less_induct)
  case less
  have s0: "0 \<le> srcpos e" using e by (simp add: env_ok_def)
  let ?f = "fip + step" let ?st = "nb div 2 ^ LZ4_skipTrigger"
  show ?case
  proof (cases "?f > mflimitPlusOne e")
    case True
    moreover have "tinv e tbl0 (c_iend e) tbl"
      using less.prems(1) by (rule tbl_inv_mono) (use less.prems in auto)
    ultimately show ?thesis by (subst find_match.simps) (simp add: wp_Some found_def)
  next
    case False
    then have ip: "srcpos e < fip" "fip \<le> c_iend e - 12" using less.prems by auto
    have ix: "index_of e fip = startIndex e + (fip - srcpos e)" using index_of_eq[OF e] ip by simp
    obtain mi d p where c: "candidate e tbl fh = (mi, d, p)" by (metis prod_cases3)
    let ?tbl = "LZ4_putIndexOnHash (index_of e fip) fh tbl (tableT e)"
    have t: "tinv e tbl0 (fip + 1) ?tbl"
      using ip ix less.prems(1) by (intro put_inv[OF e]) (auto elim: tbl_inv_mono)
    then have t': "tinv e tbl0 ?f ?tbl" by (rule tbl_inv_mono) (use less.prems in auto)
    have nb: "1 \<le> nb div 64" using zdiv_mono1[of 64 nb 64] less.prems(5) by simp
    have rec: "wp (find_match e ?tbl fh' ?f ?st (nb + 1)) (found e tbl0 fip)" for fh'
      using less.hyps[OF _ t', of ?st "nb + 1" fh'] less.prems False ip nb
      by (auto elim!: wp_mono intro: found_mono)
    have h: "wp (LZ4_hashPosition (cur e) ?f (tableT e)) (\<lambda>fh'. wp (if \<not> in_range e mi (index_of e fip)
         then find_match e ?tbl fh' ?f ?st (nb + 1)
         else do { x \<leftarrow> LZ4_read32 (match_buf e d) p; y \<leftarrow> LZ4_read32 (cur e) fip;
           if x = y then Some (Inr (fip, d, p, index_of e fip - mi, ?tbl)) else find_match e ?tbl fh' ?f ?st (nb + 1) })
         (found e tbl0 fip))"
    proof (rule wp_hashPosition)
      fix fh'
      show "wp (if \<not> in_range e mi (index_of e fip)
         then find_match e ?tbl fh' ?f ?st (nb + 1)
         else do { x \<leftarrow> LZ4_read32 (match_buf e d) p; y \<leftarrow> LZ4_read32 (cur e) fip;
           if x = y then Some (Inr (fip, d, p, index_of e fip - mi, ?tbl)) else find_match e ?tbl fh' ?f ?st (nb + 1) })
         (found e tbl0 fip)"
      proof (cases "in_range e mi (index_of e fip)")
        case True
        have m: "match_ok e fip d p (index_of e fip - mi)"
          by (rule candidate_ok[OF e _ ip c True]) (use less.prems(1) ix in simp)
        have "wp (do { x \<leftarrow> LZ4_read32 (match_buf e d) p; y \<leftarrow> LZ4_read32 (cur e) fip;
           if x = y then Some (Inr (fip, d, p, index_of e fip - mi, ?tbl)) else find_match e ?tbl fh' ?f ?st (nb + 1) })
           (found e tbl0 fip)"
          by (rule read32_eq[OF m]) (use ip s0 rec m t in \<open>auto simp: wp_Some found_def\<close>)
        with True show ?thesis by simp
      next
        case False
        then show ?thesis using rec by simp
      qed
    qed (use False less.prems s0 in auto)
    show ?thesis
      using False h by (subst find_match.simps) (simp only: Let_def c fst_conv snd_conv if_False wp_bind)
  qed
qed


section \<open>Catching up and measuring a match\<close>

lemma lowLimit_nonneg: "env_ok e \<Longrightarrow> 0 \<le> lowLimit e d"
  by (auto simp: env_ok_def mode_fits_def lowLimit_def split: dict_directive.splits)

lemma rep_append: "rep e ip off n \<Longrightarrow> rep e (ip + n) off k \<Longrightarrow> 0 \<le> n \<Longrightarrow> rep e ip off (n + k)"
  unfolding rep_def by (rule same_append) (auto simp: algebra_simps)

lemma rep_mono: "rep e ip off n \<Longrightarrow> k \<le> n \<Longrightarrow> rep e ip off k"
  unfolding rep_def by (rule same_mono)

lemma catch_up_ok:
  assumes e: "env_ok e" "srcpos e \<le> anchor"
    and "match_ok e ip d p off" "anchor \<le> ip" "ip + n \<le> c_iend e" "4 \<le> n" "rep e ip off n"
    "d \<longrightarrow> p + n \<le> dl e"
  shows "wp (catch_up e d anchor ip p) (\<lambda>(ip', p'). anchor \<le> ip' \<and> ip' \<le> ip \<and> match_ok e ip' d p' off
     \<and> rep e ip' off (n + (ip - ip')) \<and> (d \<longrightarrow> p' + (n + (ip - ip')) \<le> dl e))"
  using assms
proof (induction e d anchor ip p arbitrary: n rule: catch_up.induct)
  case (1 e d anchor ip p)
  show ?case
  proof (cases "ip > anchor \<and> p > lowLimit e d")
    case False
    then show ?thesis using "1.prems" by (subst catch_up.simps) (auto simp: wp_Some)
  next
    case True
    note m = "1.prems"(3)
    have a0: "0 \<le> anchor" using "1.prems" by (auto simp: env_ok_def)
    have p1: "0 \<le> p - 1" using True lowLimit_nonneg[OF "1.prems"(1), of d] by simp
    have b: "in_buf (cur e) (ip - 1) 1" "in_buf (match_buf e d) (p - 1) 1"
      using True "1.prems" p1 a0 by (auto simp: in_buf_def match_buf_def match_ok_def)
    have m': "match_ok e (ip - 1) d (p - 1) off"
      using m True p1 by (auto simp: match_ok_def vpos_def)
    show ?thesis
    proof (cases "at (cur e) (ip - 1) = at (match_buf e d) (p - 1)")
      case eq: True
      have "rep e (ip - 1) off 1"
        using same_rep[OF match_aligned[OF m'], of 1] eq True a0 "1.prems" by (auto simp: same_1)
      then have r: "rep e (ip - 1) off (1 + n)"
        using rep_append[of e "ip - 1" off 1 n] "1.prems" by simp
      have "wp (catch_up e d anchor (ip - 1) (p - 1)) (\<lambda>(ip', p'). anchor \<le> ip' \<and> ip' \<le> ip - 1
          \<and> match_ok e ip' d p' off \<and> rep e ip' off (1 + n + (ip - 1 - ip'))
          \<and> (d \<longrightarrow> p' + (1 + n + (ip - 1 - ip')) \<le> dl e))"
        using True m' r "1.prems" b eq by (intro "1.IH") (auto simp: ld_def)
      then have "wp (catch_up e d anchor (ip - 1) (p - 1)) (\<lambda>(ip', p'). anchor \<le> ip' \<and> ip' \<le> ip
          \<and> match_ok e ip' d p' off \<and> rep e ip' off (n + (ip - ip')) \<and> (d \<longrightarrow> p' + (n + (ip - ip')) \<le> dl e))"
        by (rule wp_mono) (auto simp: algebra_simps)
      then show ?thesis using True b eq by (subst catch_up.simps) (simp add: wp_simps)
    next
      case False
      then show ?thesis using True b "1.prems" by (subst catch_up.simps) (simp add: wp_simps)
    qed
  qed
qed

text \<open>The measured length is maximal up to \<open>matchlimit\<close>: not shorter than any repeat known before.\<close>

lemma rep_at: "rep e ip off n \<longleftrightarrow> (\<forall>k. 0 \<le> k \<and> k < n \<longrightarrow> at (hist_cur e) (dl e + ip + k) = at (hist_cur e) (dl e + ip + k - off))"
  by (auto simp: rep_def same_def algebra_simps)

lemma rep_1: "rep e ip off 1 \<longleftrightarrow> at (hist_cur e) (dl e + ip) = at (hist_cur e) (dl e + ip - off)"
  by (auto simp: rep_at dest: spec[of _ 0] order_antisym)

lemma rep_maximal:
  assumes "rep e ip off n" "\<not> rep e (ip + k) off 1" "0 \<le> k"
  shows "n \<le> k"
  using assms unfolding rep_1 unfolding rep_at by (auto simp: add.assoc not_le)

lemma common_rep:
  assumes a: "aligned e ip d p off" and c: "common (cur e) ip (match_buf e d) p limit k"
    and d: "d \<longrightarrow> p + (limit - ip) \<le> dl e" "d \<longrightarrow> p \<le> dl e"
  shows "rep e ip off k \<and> (ip + k < limit \<longrightarrow> \<not> rep e (ip + k) off 1)"
proof
  have k: "0 \<le> k" "k \<le> max 0 (limit - ip)" using c by (auto simp: common_def)
  then have dk: "d \<longrightarrow> p + k \<le> dl e" using d by auto
  show "rep e ip off k" using same_rep[OF a dk] c by (simp add: common_def)
  show "ip + k < limit \<longrightarrow> \<not> rep e (ip + k) off 1"
  proof
    assume l: "ip + k < limit"
    then have "d \<longrightarrow> p + k + 1 \<le> dl e" using d by auto
    then show "\<not> rep e (ip + k) off 1"
      using same_rep[OF aligned_shift[OF a k(1)], of 1] c l by (auto simp: common_def same_1)
  qed
qed

text \<open>The two counts of a match that begins in the dictionary are one.\<close>

lemma match_length_ok:
  assumes e: "env_ok e" "srcpos e \<le> ip"
    and m: "match_ok e ip d p off" and n: "ip + n \<le> matchlimit e" "4 \<le> n" "rep e ip off n" "d \<longrightarrow> p + 4 \<le> dl e"
  shows "wp (match_length e d ip p) (\<lambda>(mc, ip'). ip' = ip + 4 + mc \<and> n \<le> 4 + mc \<and> ip' \<le> matchlimit e
     \<and> rep e ip off (4 + mc))"
proof -
  have ip0: "0 \<le> ip" "0 \<le> p" using e m by (auto simp: env_ok_def match_ok_def)
  note al = match_aligned[OF m ip0(1)]
  have a4: "aligned e (ip + 4) d (p + 4) off" using aligned_shift[OF al, of 4] by simp
  have r4: "rep e ip off 4" using n by (auto intro: rep_mono)
  show ?thesis
  proof (cases "maybe_extMem e \<and> d")
    case False
    then have d: "\<not> d" using m by (auto simp: match_ok_def)
    have "wp (LZ4_count (cur e) (ip + 4) (cur e) (p + 4) (matchlimit e)) (common (cur e) (ip + 4) (cur e) (p + 4) (matchlimit e))"
      using d m ip0 by (intro LZ4_count_ok) (auto simp: match_ok_def)
    then have "wp (LZ4_count (cur e) (ip + 4) (cur e) (p + 4) (matchlimit e)) (\<lambda>k. n \<le> 4 + k \<and> ip + 4 + k \<le> matchlimit e
        \<and> rep e ip off (4 + k))"
    proof (rule wp_mono)
      fix k assume c: "common (cur e) (ip + 4) (cur e) (p + 4) (matchlimit e) k"
      then have k: "0 \<le> k" "ip + 4 + k \<le> matchlimit e" using n by (auto simp: common_def)
      have r: "rep e (ip + 4) off k \<and> (ip + 4 + k < matchlimit e \<longrightarrow> \<not> rep e (ip + 4 + k) off 1)"
        using common_rep[OF a4] c d by (simp add: match_buf_def)
      have "n \<le> 4 + k"
        using rep_maximal[OF n(3), of "4 + k"] r k n(1) by (cases "ip + 4 + k < matchlimit e") (auto simp: add.assoc)
      then show "n \<le> 4 + k \<and> ip + 4 + k \<le> matchlimit e \<and> rep e ip off (4 + k)"
        using rep_append[OF r4, of k] r k by simp
    qed
    then show ?thesis unfolding match_length_def using False
      by (auto simp: wp_simps elim!: wp_mono)
  next
    case True
    then have z: "srcpos e = 0" "d" using e(1)
      by (auto simp: env_ok_def mode_fits_def maybe_extMem_def split: dict_directive.splits)
    define limit where "limit = min (ip + (dl e - p)) (matchlimit e)"
    have lim: "ip + 4 \<le> limit" "limit \<le> matchlimit e" "p + (limit - ip) \<le> dl e"
      using n z by (auto simp: limit_def)
    have "wp (LZ4_count (cur e) (ip + 4) (extdict e) (p + 4) limit) (common (cur e) (ip + 4) (extdict e) (p + 4) limit)"
      using lim ip0 by (intro LZ4_count_ok) auto
    then have "wp (LZ4_count (cur e) (ip + 4) (extdict e) (p + 4) limit)
      (\<lambda>k. wp (if ip + k + 4 = limit then do {
           more \<leftarrow> LZ4_count (cur e) limit (cur e) (srcpos e) (matchlimit e); Some (k + more, ip + k + 4 + more) }
         else Some (k, ip + k + 4)) (\<lambda>(mc, ip'). ip' = ip + 4 + mc \<and> n \<le> 4 + mc \<and> ip' \<le> matchlimit e
           \<and> rep e ip off (4 + mc)))"
    proof (rule wp_mono)
      fix k assume c: "common (cur e) (ip + 4) (extdict e) (p + 4) limit k"
      then have k: "0 \<le> k" "ip + 4 + k \<le> limit" using lim by (auto simp: common_def)
      have r: "rep e (ip + 4) off k \<and> (ip + 4 + k < limit \<longrightarrow> \<not> rep e (ip + 4 + k) off 1)"
        using common_rep[OF a4] c z lim by (simp add: match_buf_def)
      have rk: "rep e ip off (4 + k)" using rep_append[OF r4, of k] r by simp
      show "wp (if ip + k + 4 = limit then do {
           more \<leftarrow> LZ4_count (cur e) limit (cur e) (srcpos e) (matchlimit e); Some (k + more, ip + k + 4 + more) }
         else Some (k, ip + k + 4)) (\<lambda>(mc, ip'). ip' = ip + 4 + mc \<and> n \<le> 4 + mc \<and> ip' \<le> matchlimit e
           \<and> rep e ip off (4 + mc))"
      proof (cases "ip + k + 4 = limit")
        case False
        then have "n \<le> 4 + k" using rep_maximal[OF n(3), of "4 + k"] r k by (auto simp: add.assoc)
        then show ?thesis using False k lim rk by (simp add: wp_Some)
      next
        case full: True
        have "wp (LZ4_count (cur e) limit (cur e) 0 (matchlimit e)) (common (cur e) limit (cur e) 0 (matchlimit e))"
          using lim ip0 by (intro LZ4_count_ok) auto
        then have "wp (LZ4_count (cur e) limit (cur e) 0 (matchlimit e)) (\<lambda>more. n \<le> 4 + (k + more)
            \<and> ip + 4 + (k + more) \<le> matchlimit e \<and> rep e ip off (4 + (k + more)))"
        proof (rule wp_mono)
          fix j assume cj: "common (cur e) limit (cur e) 0 (matchlimit e) j"
          then have j: "0 \<le> j" "limit + j \<le> matchlimit e" using lim by (auto simp: common_def)
          show "n \<le> 4 + (k + j) \<and> ip + 4 + (k + j) \<le> matchlimit e \<and> rep e ip off (4 + (k + j))"
          proof (cases "limit = matchlimit e")
            case True
            then have "j = 0" using j by simp
            then show ?thesis using True full n rk by simp
          next
            case False
            then have l: "limit = ip + (dl e - p)" by (auto simp: limit_def)
            have "aligned e limit False 0 off"
              unfolding l using al z n by (intro aligned_turn) auto
            then have rj: "rep e limit off j \<and> (limit + j < matchlimit e \<longrightarrow> \<not> rep e (limit + j) off 1)"
              using cj by (intro common_rep) (auto simp: match_buf_def)
            have "rep e ip off (4 + k + j)"
              using rep_append[OF rk, of j] rj k full by (simp add: algebra_simps)
            moreover have "n \<le> 4 + (k + j)"
              using rep_maximal[OF n(3), of "4 + (k + j)"] rj j k full n(1)
              by (cases "limit + j < matchlimit e") (auto simp: algebra_simps)
            ultimately show ?thesis using j full by (simp add: algebra_simps)
          qed
        qed
        then show ?thesis using full z by (auto simp: wp_simps algebra_simps elim!: wp_mono)
      qed
    qed
    then show ?thesis unfolding match_length_def limit_def using True
      by (simp add: Let_def wp_bind)
  qed
qed


section \<open>The next position\<close>

lemma put_position_ok:
  assumes e: "env_ok e" and "tinv e tbl0 c tbl" "srcpos e \<le> p" "p \<le> c_iend e - 12" "p < c"
  shows "wp (put_position e p tbl) (tinv e tbl0 c)"
proof -
  have "0 \<le> p" using assms by (auto simp: env_ok_def)
  have ix: "index_of e p = startIndex e + (p - srcpos e)" using index_of_eq[OF e] assms by simp
  have "wp (LZ4_hashPosition (cur e) p (tableT e))
     (\<lambda>h. tinv e tbl0 c (LZ4_putIndexOnHash (index_of e p) h tbl (tableT e)))"
    by (rule wp_hashPosition, use assms \<open>0 \<le> p\<close> in \<open>simp_all only:\<close>)
       (rule put_inv[OF e], use assms ix in auto)
  then show ?thesis by (simp add: put_position_def wp_simps)
qed

lemma test_next_ok:
  assumes e: "env_ok e" and t: "tinv e tbl0 ip tbl" and ip: "srcpos e + 2 \<le> ip" "ip \<le> c_iend e - 12"
  shows "wp (test_next e ip tbl) (\<lambda>(tbl', nxt). tinv e tbl0 (ip + 1) tbl'
     \<and> (\<forall>d p off. nxt = Some (d, p, off) \<longrightarrow> match_ok e ip d p off \<and> rep e ip off 4))"
proof -
  have s0: "0 \<le> srcpos e" using e by (simp add: env_ok_def)
  have ix: "index_of e ip = startIndex e + (ip - srcpos e)" using index_of_eq[OF e] ip by simp
  have "wp (put_position e (ip - 2) tbl) (tinv e tbl0 ip)"
    by (rule put_position_ok[OF e t]) (use ip in auto)
  then show ?thesis
    unfolding test_next_def wp_bind
  proof (rule wp_mono)
    fix tbl assume t: "tinv e tbl0 ip tbl"
    show "wp (LZ4_hashPosition (cur e) ip (tableT e)) (\<lambda>h. wp (let current = index_of e ip; c = candidate e tbl h;
          tbl = LZ4_putIndexOnHash current h tbl (tableT e) in
        if in_range e (fst c) current then do {
          x \<leftarrow> LZ4_read32 (match_buf e (fst (snd c))) (snd (snd c));
          y \<leftarrow> LZ4_read32 (cur e) ip;
          Some (tbl, if x = y then Some (fst (snd c), snd (snd c), current - fst c) else None) }
        else Some (tbl, None)) (\<lambda>(tbl', nxt). tinv e tbl0 (ip + 1) tbl'
     \<and> (\<forall>d p off. nxt = Some (d, p, off) \<longrightarrow> match_ok e ip d p off \<and> rep e ip off 4)))"
    proof (rule wp_hashPosition)
      fix h
      obtain mi d p where c: "candidate e tbl h = (mi, d, p)" by (metis prod_cases3)
      let ?tbl = "LZ4_putIndexOnHash (index_of e ip) h tbl (tableT e)"
      have t': "tinv e tbl0 (ip + 1) ?tbl"
        using ip ix t by (intro put_inv[OF e]) (auto elim: tbl_inv_mono)
      show "wp (let current = index_of e ip; c = candidate e tbl h;
          tbl = LZ4_putIndexOnHash current h tbl (tableT e) in
        if in_range e (fst c) current then do {
          x \<leftarrow> LZ4_read32 (match_buf e (fst (snd c))) (snd (snd c));
          y \<leftarrow> LZ4_read32 (cur e) ip;
          Some (tbl, if x = y then Some (fst (snd c), snd (snd c), current - fst c) else None) }
        else Some (tbl, None)) (\<lambda>(tbl', nxt). tinv e tbl0 (ip + 1) tbl'
     \<and> (\<forall>d p off. nxt = Some (d, p, off) \<longrightarrow> match_ok e ip d p off \<and> rep e ip off 4))"
      proof (cases "in_range e mi (index_of e ip)")
        case True
        have m: "match_ok e ip d p (index_of e ip - mi)"
          by (rule candidate_ok[OF e _ _ ip(2) c True]) (use t ix ip in simp_all)
        have "wp (do { x \<leftarrow> LZ4_read32 (match_buf e d) p; y \<leftarrow> LZ4_read32 (cur e) ip;
            Some (?tbl, if x = y then Some (d, p, index_of e ip - mi) else None) }) (\<lambda>(tbl', nxt). tinv e tbl0 (ip + 1) tbl'
           \<and> (\<forall>d p off. nxt = Some (d, p, off) \<longrightarrow> match_ok e ip d p off \<and> rep e ip off 4))"
          by (rule read32_eq[OF m]) (use ip s0 m t' in \<open>auto simp: wp_Some\<close>)
        with True show ?thesis by (simp only: Let_def c fst_conv snd_conv if_True)
      next
        case False
        then show ?thesis using t' c by (simp add: wp_Some)
      qed
    qed (use ip s0 in auto)
  qed
qed

end
