(* ===== verification/LZ4_Decompress.thy ===== *)
theory LZ4_Decompress
  imports LZ4_Memory
begin

text \<open>
  The block decoder of \<open>lz4libs/lz4.c\<close>: \<open>LZ4_decompress_generic\<close> with its fast loop, its
  safe loop, its shortcuts and its error exits, over the checked memory.

  The output region is one byte list \<open>m\<close>: first the accessible prefix (earlier output that
  lies directly before \<open>dst\<close>), then the \<open>outputSize\<close> bytes of \<open>dst\<close>. Position 0 is the
  start of the list, \<open>oend\<close> is its length. Input positions are relative to \<open>src\<close>.
  \<open>None\<close> is undefined behaviour; an error of the decoder is the value \<open>Output_error ip m\<close>.
  Pointers are 64 bits wide (\<open>uptrval\<close>), and \<open>ptr_wraps\<close> is the overflow test on them.
\<close>

record decoder =
  srcbuf :: bytes
  src_addr :: int
  dst_addr :: int
  partialDecoding :: bool
  dict :: dict_directive
  lowPrefix :: int
  dictbuf :: bytes
  fast_dec_loop :: bool

datatype flow =
    Continue (flow_ip: int) (flow_op: int) (flow_mem: bytes)
  | Break (flow_ip: int) (flow_op: int) (flow_mem: bytes)
  | Output_error (flow_ip: int) (flow_mem: bytes)

abbreviation MATCH_SAFEGUARD_DISTANCE :: int where "MATCH_SAFEGUARD_DISTANCE \<equiv> 12"
abbreviation FASTLOOP_SAFE_DISTANCE :: int where "FASTLOOP_SAFE_DISTANCE \<equiv> 64"

abbreviation iend :: "decoder \<Rightarrow> int" where "iend e \<equiv> int (length (srcbuf e))"
abbreviation oend :: "bytes \<Rightarrow> int" where "oend m \<equiv> int (length m)"

definition dictSize :: "decoder \<Rightarrow> int" where
  "dictSize e = int (length (dictbuf e))"

definition checkOffset :: "decoder \<Rightarrow> bool" where
  "checkOffset e \<longleftrightarrow> dictSize e < KB 64"

definition ptr_wraps :: "int \<Rightarrow> int \<Rightarrow> int \<Rightarrow> bool" where
  "ptr_wraps a p n \<longleftrightarrow> (a + p + n) mod 2 ^ 64 < (a + p) mod 2 ^ 64"

definition LZ4_readLE16 :: "bytes \<Rightarrow> int \<Rightarrow> int option" where
  "LZ4_readLE16 s ip = do {
     d0 \<leftarrow> ld s ip;
     d1 \<leftarrow> ld s (ip + 1);
     Some (uint (load_le16 d0 d1)) }"

section \<open>Variable-length fields\<close>

text \<open>The loop of \<open>read_variable_length\<close>: the sum (\<open>None\<close> for \<open>rvl_error\<close>) and the new \<open>ip\<close>.\<close>

function rvl_loop :: "bytes \<Rightarrow> int \<Rightarrow> int \<Rightarrow> int \<Rightarrow> (int option \<times> int) option" where
  "rvl_loop s ip ilimit len = do {
     b \<leftarrow> ld s ip;
     if ip + 1 > ilimit then Some (None, ip + 1)
     else if b = 255 then rvl_loop s (ip + 1) ilimit (len + uint b)
     else Some (Some (len + uint b), ip + 1) }"
  by pat_completeness auto
termination
  by (relation "measure (\<lambda>(s, ip, ilimit, l). nat (int (length s) - ip))")
     (auto simp: ld_def in_buf_def split: if_splits)

declare rvl_loop.simps [simp del]

definition read_variable_length :: "bytes \<Rightarrow> int \<Rightarrow> int \<Rightarrow> bool \<Rightarrow> (int option \<times> int) option" where
  "read_variable_length s ip ilimit initial_check =
     (if initial_check \<and> ip \<ge> ilimit then Some (None, ip) else rvl_loop s ip ilimit 0)"

section \<open>Match copies\<close>

text \<open>A match that starts in the external dictionary (the same code in both loops).\<close>

definition ext_dict_copy :: "decoder \<Rightarrow> int \<Rightarrow> int \<Rightarrow> int \<Rightarrow> int \<Rightarrow> bytes \<Rightarrow> flow option" where
  "ext_dict_copy e len match ip op m =
    (let dictEnd = dictSize e in
     if op + len > oend m - LASTLITERALS \<and> \<not> partialDecoding e then Some (Output_error ip m)
     else let len = (if op + len > oend m - LASTLITERALS
                        then min len (oend m - op) else len) in
       if len \<le> lowPrefix e - match then do {
         m \<leftarrow> memcpy_from m op (dictbuf e) (dictEnd - (lowPrefix e - match)) len;
         Some (Continue ip (op + len) m) }
       else let copySize = lowPrefix e - match; restSize = len - copySize in do {
         m \<leftarrow> memcpy_from m op (dictbuf e) (dictEnd - copySize) copySize;
         let op = op + copySize;
         if restSize > op - lowPrefix e then do {
           m \<leftarrow> copy_bytes m op (lowPrefix e) (op + restSize);
           Some (Continue ip (op + restSize) m) }
         else do {
           m \<leftarrow> memcpy m op (lowPrefix e) restSize;
           Some (Continue ip (op + restSize) m) } })"

text \<open>The end of a partial decode: the copy may stop anywhere.\<close>

definition partial_match_copy :: "int \<Rightarrow> int \<Rightarrow> int \<Rightarrow> int \<Rightarrow> bytes \<Rightarrow> flow option" where
  "partial_match_copy len match ip op m =
    (let mlen = min len (oend m - op); matchEnd = match + mlen; copyEnd = op + mlen in do {
       m \<leftarrow> (if matchEnd > op then copy_bytes m op match copyEnd else memcpy m op match mlen);
       if copyEnd = oend m then Some (Break ip copyEnd m) else Some (Continue ip copyEnd m) })"

definition inc32table :: "int list" where
  "inc32table = [0, 1, 2, 1, 0, 4, 4, 4]"

definition dec64table :: "int list" where
  "dec64table = [0, 0, 0, -1, -4, 1, 2, 3]"

text \<open>The first eight bytes of a match copy; the result is the memory and the advanced match.\<close>

definition copy_head8 :: "int \<Rightarrow> int \<Rightarrow> int \<Rightarrow> bytes \<Rightarrow> (bytes \<times> int) option" where
  "copy_head8 offset match op m =
    (if offset < 8 then do {
       m \<leftarrow> wrn m op [0, 0, 0, 0];
       b \<leftarrow> ld m match; m \<leftarrow> st m op b;
       b \<leftarrow> ld m (match + 1); m \<leftarrow> st m (op + 1) b;
       b \<leftarrow> ld m (match + 2); m \<leftarrow> st m (op + 2) b;
       b \<leftarrow> ld m (match + 3); m \<leftarrow> st m (op + 3) b;
       let match = match + inc32table ! nat offset;
       m \<leftarrow> memcpy m (op + 4) match 4;
       Some (m, match - dec64table ! nat offset) }
     else do {
       m \<leftarrow> memcpy m op match 8;
       Some (m, match + 8) })"

text \<open>A match inside the block, safe loop: overshoots by at most eight bytes, and not past \<open>oend\<close>.\<close>

definition block_match_copy :: "int \<Rightarrow> int \<Rightarrow> int \<Rightarrow> int \<Rightarrow> int \<Rightarrow> bytes \<Rightarrow> flow option" where
  "block_match_copy len offset match ip op m =
    (let cpy = op + len in do {
       (m, match) \<leftarrow> copy_head8 offset match op m;
       let op = op + 8;
       if cpy > oend m - MATCH_SAFEGUARD_DISTANCE then
         (let oCopyLimit = oend m - (WILDCOPYLENGTH - 1) in
          if cpy > oend m - LASTLITERALS then Some (Output_error ip m)
          else if op < oCopyLimit then do {
            m \<leftarrow> wildCopy8 m op match oCopyLimit;
            m \<leftarrow> copy_bytes m oCopyLimit (match + (oCopyLimit - op)) cpy;
            Some (Continue ip cpy m) }
          else do {
            m \<leftarrow> copy_bytes m op match cpy;
            Some (Continue ip cpy m) })
       else do {
         m \<leftarrow> memcpy m op match 8;
         m \<leftarrow> (if len > 16 then wildCopy8 m (op + 8) (match + 8) cpy else Some m);
         Some (Continue ip cpy m) } })"

text \<open>From the label \<open>safe_match_copy\<close> on; \<open>length\<close> already includes \<open>MINMATCH\<close>.\<close>

definition safe_match_copy :: "decoder \<Rightarrow> int \<Rightarrow> int \<Rightarrow> int \<Rightarrow> int \<Rightarrow> int \<Rightarrow> bytes \<Rightarrow> flow option" where
  "safe_match_copy e len offset match ip op m =
    (if checkOffset e \<and> match + dictSize e < lowPrefix e then Some (Output_error ip m)
     else if dict e = usingExtDict \<and> match < lowPrefix e then ext_dict_copy e len match ip op m
     else if partialDecoding e \<and> op + len > oend m - MATCH_SAFEGUARD_DISTANCE
       then partial_match_copy len match ip op m
     else block_match_copy len offset match ip op m)"

text \<open>From the label \<open>_copy_match\<close> on; \<open>length\<close> is the low nibble of the token.\<close>

definition copy_match :: "decoder \<Rightarrow> int \<Rightarrow> int \<Rightarrow> int \<Rightarrow> int \<Rightarrow> int \<Rightarrow> bytes \<Rightarrow> flow option" where
  "copy_match e len offset match ip op m =
    (if len = ML_MASK then do {
       (addl, ip) \<leftarrow> read_variable_length (srcbuf e) ip (iend e - LASTLITERALS + 1) False;
       case addl of None \<Rightarrow> Some (Output_error ip m)
       | Some addl \<Rightarrow>
           let len = len + addl in
           if ptr_wraps (dst_addr e) op len then Some (Output_error ip m)
           else safe_match_copy e (len + MINMATCH) offset match ip op m }
     else safe_match_copy e (len + MINMATCH) offset match ip op m)"

definition get_offset :: "decoder \<Rightarrow> byte \<Rightarrow> int \<Rightarrow> int \<Rightarrow> bytes \<Rightarrow> flow option" where
  "get_offset e token ip op m = do {
     offset \<leftarrow> LZ4_readLE16 (srcbuf e) ip;
     copy_match e (uint (token AND 15)) offset (op - offset) (ip + 2) op m }"

section \<open>Literals\<close>

text \<open>
  From the label \<open>safe_literal_copy\<close> on, with \<open>cpy = op + length\<close>. Near the end of the
  input or of the output the literals must be the last sequence (or, in a partial decode,
  are cut to what fits). Their copy is a \<open>memmove\<close> from \<open>src\<close>.
\<close>

definition safe_literal_copy :: "decoder \<Rightarrow> byte \<Rightarrow> int \<Rightarrow> int \<Rightarrow> int \<Rightarrow> bytes \<Rightarrow> flow option" where
  "safe_literal_copy e token len ip op m =
    (let cpy = op + len in
     if cpy > oend m - MFLIMIT \<or> ip + len > iend e - (2 + 1 + LASTLITERALS) then
       if partialDecoding e then
         (let len = (if ip + len > iend e then iend e - ip else len);
              len = (if op + len > oend m then oend m - op else len);
              cpy = op + len in do {
            m \<leftarrow> memcpy_from m op (srcbuf e) ip len;
            let ip = ip + len; let op = op + len;
            if cpy = oend m \<or> ip \<ge> iend e - 2 then Some (Break ip op m)
            else get_offset e token ip op m })
       else if ip + len \<noteq> iend e \<or> cpy > oend m then Some (Output_error ip m)
       else do {
         m \<leftarrow> memcpy_from m op (srcbuf e) ip len;
         Some (Break (ip + len) (op + len) m) }
     else do {
       m \<leftarrow> wildCopy8_from m op (srcbuf e) ip cpy;
       get_offset e token (ip + len) cpy m })"

text \<open>The literal length with its extension bytes; \<open>Inl ip\<close> is the jump to \<open>_output_error\<close>.\<close>

definition literal_length :: "decoder \<Rightarrow> int \<Rightarrow> int \<Rightarrow> int \<Rightarrow> (int + int \<times> int) option" where
  "literal_length e len ip op = do {
     (addl, ip) \<leftarrow> read_variable_length (srcbuf e) ip (iend e - RUN_MASK) True;
     case addl of None \<Rightarrow> Some (Inl ip)
     | Some addl \<Rightarrow>
         let len = len + addl in
         if ptr_wraps (dst_addr e) op len then Some (Inl ip)
         else if ptr_wraps (src_addr e) ip len then Some (Inl ip)
         else Some (Inr (len, ip)) }"

section \<open>The two loops\<close>

text \<open>The two-stage shortcut of the safe loop, once its guard has passed.\<close>

definition shortcut :: "decoder \<Rightarrow> byte \<Rightarrow> int \<Rightarrow> int \<Rightarrow> int \<Rightarrow> bytes \<Rightarrow> flow option" where
  "shortcut e token len ip op m = do {
     m \<leftarrow> memcpy_from m op (srcbuf e) ip 16;
     let op = op + len; let ip = ip + len;
     let len = uint (token AND 15);
     offset \<leftarrow> LZ4_readLE16 (srcbuf e) ip;
     let ip = ip + 2;
     let match = op - offset;
     if len \<noteq> ML_MASK \<and> offset \<ge> 8 \<and> (dict e = withPrefix64k \<or> match \<ge> lowPrefix e) then do {
       m \<leftarrow> memcpy m op match 8;
       m \<leftarrow> memcpy m (op + 8) (match + 8) 8;
       m \<leftarrow> memcpy m (op + 16) (match + 16) 2;
       Some (Continue ip (op + len + MINMATCH) m) }
     else copy_match e len offset match ip op m }"

text \<open>One round of the main (safe) loop.\<close>

definition safe_sequence :: "decoder \<Rightarrow> int \<Rightarrow> int \<Rightarrow> bytes \<Rightarrow> flow option" where
  "safe_sequence e ip op m = do {
     token \<leftarrow> ld (srcbuf e) ip;
     let ip = ip + 1;
     let len = uint (drop_bit 4 token);
     if len \<noteq> RUN_MASK \<and> ip < iend e - 14 - 2 \<and> op \<le> oend m - 14 - 18
     then shortcut e token len ip op m
     else if len = RUN_MASK then do {
       r \<leftarrow> literal_length e len ip op;
       case r of Inl ip \<Rightarrow> Some (Output_error ip m)
       | Inr (len, ip) \<Rightarrow> safe_literal_copy e token len ip op m }
     else safe_literal_copy e token len ip op m }"

section \<open>Every round advances the input\<close>

text \<open>The measure of both loops is the input left; so a round that continues has moved \<open>ip\<close>.\<close>

lemma rvl_loop_ip: "rvl_loop s ip ilimit l = Some (r, ip') \<Longrightarrow> ip < ip' \<and> (\<forall>n. r = Some n \<longrightarrow> l \<le> n)"
proof (induction s ip ilimit l arbitrary: r ip' rule: rvl_loop.induct)
  case (1 s ip ilimit l)
  from "1.prems" obtain b where b: "ld s ip = Some b"
    by (subst (asm) rvl_loop.simps) (auto simp: Option.bind_eq_Some_conv)
  show ?case
  proof (cases "ip + 1 > ilimit \<or> b \<noteq> 255")
    case True
    with "1.prems" b byte_bound[of b] show ?thesis
      by (subst (asm) rvl_loop.simps) (auto split: if_splits)
  next
    case False
    with "1.prems" b have "rvl_loop s (ip + 1) ilimit (l + uint b) = Some (r, ip')"
      by (subst (asm) rvl_loop.simps) auto
    with "1.IH"[OF b] False byte_bound[of b] show ?thesis by fastforce
  qed
qed

lemma read_variable_length_ip:
  "read_variable_length s ip ilimit c = Some (r, ip') \<Longrightarrow> ip \<le> ip' \<and> (\<forall>n. r = Some n \<longrightarrow> 0 \<le> n)"
  using rvl_loop_ip[of s ip ilimit 0] by (auto simp: read_variable_length_def split: if_splits)

lemmas bind_Some = Option.bind_eq_Some_conv

lemma ext_dict_copy_ip: "ext_dict_copy e len match ip op m = Some f \<Longrightarrow> flow_ip f = ip"
  by (auto simp: ext_dict_copy_def bind_Some Let_def split: if_splits)

lemma partial_match_copy_ip: "partial_match_copy len match ip op m = Some f \<Longrightarrow> flow_ip f = ip"
  by (auto simp: partial_match_copy_def bind_Some Let_def split: if_splits)

lemma block_match_copy_ip: "block_match_copy len offset match ip op m = Some f \<Longrightarrow> flow_ip f = ip"
  by (auto simp: block_match_copy_def bind_Some Let_def split: if_splits prod.splits)

lemma safe_match_copy_ip: "safe_match_copy e len offset match ip op m = Some f \<Longrightarrow> flow_ip f = ip"
  by (auto simp: safe_match_copy_def split: if_splits
      dest: ext_dict_copy_ip partial_match_copy_ip block_match_copy_ip)

lemma copy_match_ip: "copy_match e len offset match ip op m = Some f \<Longrightarrow> ip \<le> flow_ip f"
  by (auto simp: copy_match_def bind_Some Let_def split: if_splits option.splits prod.splits
      dest!: safe_match_copy_ip read_variable_length_ip)

lemma get_offset_ip: "get_offset e token ip op m = Some f \<Longrightarrow> ip \<le> flow_ip f"
  by (auto simp: get_offset_def bind_Some dest!: copy_match_ip)

lemma memcpy_from_nonneg: "memcpy_from m d s p n = Some m' \<Longrightarrow> 0 \<le> n"
  by (auto simp: memcpy_from_def rdn_def in_buf_def bind_Some split: if_splits)

lemma safe_literal_copy_ip:
  "safe_literal_copy e token len ip op m = Some f \<Longrightarrow> 0 \<le> len \<Longrightarrow> ip \<le> flow_ip f"
  by (auto simp: safe_literal_copy_def bind_Some Let_def split: if_splits
      dest!: get_offset_ip memcpy_from_nonneg)

lemma literal_length_ip:
  "literal_length e len ip op = Some (Inr (len', ip')) \<Longrightarrow> ip \<le> ip' \<and> len \<le> len'"
  "literal_length e len ip op = Some (Inl ip') \<Longrightarrow> ip \<le> ip'"
  by (auto simp: literal_length_def bind_Some Let_def split: if_splits option.splits
      dest!: read_variable_length_ip)

lemma shortcut_ip: "shortcut e token len ip op m = Some f \<Longrightarrow> 0 \<le> len \<Longrightarrow> ip \<le> flow_ip f"
  by (auto simp: shortcut_def bind_Some Let_def split: if_splits dest!: copy_match_ip)

lemma safe_sequence_ip:
  assumes "safe_sequence e ip op m = Some f"
  shows "0 \<le> ip \<and> ip < iend e \<and> ip < flow_ip f"
proof -
  from assms obtain token where t: "ld (srcbuf e) ip = Some token"
    by (auto simp: safe_sequence_def bind_Some)
  have n: "0 \<le> uint (drop_bit 4 token)" by simp
  from t have "0 \<le> ip \<and> ip < iend e" by (auto simp: ld_def in_buf_def split: if_splits)
  moreover have "ip < flow_ip f"
  proof (cases "uint (drop_bit 4 token) = RUN_MASK")
    case True
    with assms t obtain r where r: "literal_length e RUN_MASK (ip + 1) op = Some r"
      by (auto simp: safe_sequence_def bind_Some Let_def)
    show ?thesis
      using assms t True r literal_length_ip[of e RUN_MASK "ip + 1" op]
      by (cases r) (auto simp: safe_sequence_def Let_def dest!: safe_literal_copy_ip)
  next
    case False
    with assms t show ?thesis
      by (auto simp: safe_sequence_def Let_def split: if_splits
          dest!: shortcut_ip[OF _ n] safe_literal_copy_ip[OF _ n])
  qed
  ultimately show ?thesis by simp
qed

section \<open>The fast loop\<close>

text \<open>
  \<open>LZ4_FAST_DEC_LOOP\<close> (on for x86 and most aarch64 builds, the field \<open>fast_dec_loop\<close>): while
  at least 64 bytes of output are left it copies in strides of 16 and 32 bytes. It leaves
  for good by a jump into the safe loop (\<open>Fast_exit\<close>, the outcome of that round there).
\<close>

datatype fast_flow =
    Fast_continue (fast_ip: int) (fast_op: int) (fast_mem: bytes)
  | Fast_exit (fast_outcome: flow)

function wildCopy32 :: "bytes \<Rightarrow> int \<Rightarrow> int \<Rightarrow> int \<Rightarrow> bytes option" where
  "wildCopy32 m d s e = do {
     m \<leftarrow> memcpy m d s 16;
     m \<leftarrow> memcpy m (d + 16) (s + 16) 16;
     if d + 32 < e then wildCopy32 m (d + 32) (s + 32) e else Some m }"
  by pat_completeness auto
termination
  by (relation "measure (\<lambda>(m, d, s, e). nat (e - d))") auto

function wildCopy32_from :: "bytes \<Rightarrow> int \<Rightarrow> bytes \<Rightarrow> int \<Rightarrow> int \<Rightarrow> bytes option" where
  "wildCopy32_from m d x s e = do {
     m \<leftarrow> memcpy_from m d x s 16;
     m \<leftarrow> memcpy_from m (d + 16) x (s + 16) 16;
     if d + 32 < e then wildCopy32_from m (d + 32) x (s + 32) e else Some m }"
  by pat_completeness auto
termination
  by (relation "measure (\<lambda>(m, d, x, s, e). nat (e - d))") auto

text \<open>The loop that stores the eight-byte pattern \<open>v\<close> until \<open>e\<close> is reached or passed.\<close>

function fill8 :: "bytes \<Rightarrow> int \<Rightarrow> bytes \<Rightarrow> int \<Rightarrow> bytes option" where
  "fill8 m d v e = do {
     m \<leftarrow> wrn m d v;
     if d + 8 < e then fill8 m (d + 8) v e else Some m }"
  by pat_completeness auto
termination
  by (relation "measure (\<lambda>(m, d, v, e). nat (e - d))") auto

declare wildCopy32.simps [simp del] wildCopy32_from.simps [simp del] fill8.simps [simp del]

definition LZ4_memcpy_using_offset_base :: "bytes \<Rightarrow> int \<Rightarrow> int \<Rightarrow> int \<Rightarrow> int \<Rightarrow> bytes option" where
  "LZ4_memcpy_using_offset_base m dstPtr srcPtr dstEnd offset = do {
     (m, srcPtr) \<leftarrow> copy_head8 offset srcPtr dstPtr m;
     wildCopy8 m (dstPtr + 8) srcPtr dstEnd }"

definition LZ4_memcpy_using_offset :: "bytes \<Rightarrow> int \<Rightarrow> int \<Rightarrow> int \<Rightarrow> int \<Rightarrow> bytes option" where
  "LZ4_memcpy_using_offset m dstPtr srcPtr dstEnd offset =
    (if offset = 1 then do { v \<leftarrow> ld m srcPtr; fill8 m dstPtr (replicate 8 v) dstEnd }
     else if offset = 2 then do { v \<leftarrow> rdn m srcPtr 2; fill8 m dstPtr (v @ v @ v @ v) dstEnd }
     else if offset = 4 then do { v \<leftarrow> rdn m srcPtr 4; fill8 m dstPtr (v @ v) dstEnd }
     else LZ4_memcpy_using_offset_base m dstPtr srcPtr dstEnd offset)"

definition stay_fast :: "flow \<Rightarrow> fast_flow" where
  "stay_fast f = (case f of Continue ip op m \<Rightarrow> Fast_continue ip op m | _ \<Rightarrow> Fast_exit f)"

lemma stay_fast_continue: "stay_fast f = Fast_continue ip op m \<longleftrightarrow> f = Continue ip op m"
  by (simp add: stay_fast_def split: flow.split)

text \<open>The match copy at the end of a fast round; \<open>len\<close> includes \<open>MINMATCH\<close>.\<close>

definition fast_match_copy :: "decoder \<Rightarrow> int \<Rightarrow> int \<Rightarrow> int \<Rightarrow> int \<Rightarrow> int \<Rightarrow> bytes \<Rightarrow> fast_flow option" where
  "fast_match_copy e len offset match ip op m =
    (if checkOffset e \<and> match + dictSize e < lowPrefix e then Some (Fast_exit (Output_error ip m))
     else if dict e = usingExtDict \<and> match < lowPrefix e then do {
       f \<leftarrow> ext_dict_copy e len match ip op m;
       Some (stay_fast f) }
     else do {
       m \<leftarrow> (if offset < 16 then LZ4_memcpy_using_offset m op match (op + len) offset
            else wildCopy32 m op match (op + len));
       Some (Fast_continue ip (op + len) m) })"

text \<open>The second half of a fast round, from the offset on.\<close>

definition fast_match :: "decoder \<Rightarrow> byte \<Rightarrow> int \<Rightarrow> int \<Rightarrow> bytes \<Rightarrow> fast_flow option" where
  "fast_match e token ip op m = do {
     offset \<leftarrow> LZ4_readLE16 (srcbuf e) ip;
     let ip = ip + 2;
     let match = op - offset;
     let len = uint (token AND 15);
     if len = ML_MASK then do {
       (addl, ip) \<leftarrow> read_variable_length (srcbuf e) ip (iend e - LASTLITERALS + 1) False;
       case addl of None \<Rightarrow> Some (Fast_exit (Output_error ip m))
       | Some addl \<Rightarrow>
           let len = len + addl + MINMATCH in
           if ptr_wraps (dst_addr e) op len then Some (Fast_exit (Output_error ip m))
           else if checkOffset e \<and> match + dictSize e < lowPrefix e
             then Some (Fast_exit (Output_error ip m))
           else if op + len \<ge> oend m - FASTLOOP_SAFE_DISTANCE
             then map_option Fast_exit (safe_match_copy e len offset match ip op m)
           else fast_match_copy e len offset match ip op m }
     else let len = len + MINMATCH in
       if op + len \<ge> oend m - FASTLOOP_SAFE_DISTANCE
         then map_option Fast_exit (safe_match_copy e len offset match ip op m)
       else if (dict e = withPrefix64k \<or> match \<ge> lowPrefix e) \<and> offset \<ge> 8 then do {
         m \<leftarrow> memcpy m op match 8;
         m \<leftarrow> memcpy m (op + 8) (match + 8) 8;
         m \<leftarrow> memcpy m (op + 16) (match + 16) 2;
         Some (Fast_continue ip (op + len) m) }
       else fast_match_copy e len offset match ip op m }"

text \<open>One round of the fast loop.\<close>

definition fast_sequence :: "decoder \<Rightarrow> int \<Rightarrow> int \<Rightarrow> bytes \<Rightarrow> fast_flow option" where
  "fast_sequence e ip op m = do {
     token \<leftarrow> ld (srcbuf e) ip;
     let ip = ip + 1;
     let len = uint (drop_bit 4 token);
     if len = RUN_MASK then do {
       r \<leftarrow> literal_length e len ip op;
       case r of Inl ip \<Rightarrow> Some (Fast_exit (Output_error ip m))
       | Inr (len, ip) \<Rightarrow>
           if op + len > oend m - 32 \<or> ip + len > iend e - 32
             then map_option Fast_exit (safe_literal_copy e token len ip op m)
           else do {
             m \<leftarrow> wildCopy32_from m op (srcbuf e) ip (op + len);
             fast_match e token (ip + len) (op + len) m } }
     else if ip > iend e - (16 + 1)
       then map_option Fast_exit (safe_literal_copy e token len ip op m)
     else do {
       m \<leftarrow> memcpy_from m op (srcbuf e) ip 16;
       fast_match e token (ip + len) (op + len) m } }"

lemma fast_match_copy_ip:
  "fast_match_copy e len offset match ip op m = Some (Fast_continue ip' op' m') \<Longrightarrow> ip' = ip"
  by (auto simp: fast_match_copy_def bind_Some stay_fast_continue split: if_splits dest: ext_dict_copy_ip)

lemma fast_match_ip: "fast_match e token ip op m = Some (Fast_continue ip' op' m') \<Longrightarrow> ip \<le> ip'"
  by (auto simp: fast_match_def bind_Some Let_def split: if_splits option.splits prod.splits
      dest!: fast_match_copy_ip read_variable_length_ip)

lemma fast_sequence_ip:
  assumes "fast_sequence e ip op m = Some (Fast_continue ip' op' m')"
  shows "0 \<le> ip \<and> ip < iend e \<and> ip < ip'"
proof -
  from assms obtain token where t: "ld (srcbuf e) ip = Some token"
    by (auto simp: fast_sequence_def bind_Some)
  have n: "0 \<le> uint (drop_bit 4 token)" by simp
  from t have "0 \<le> ip \<and> ip < iend e" by (auto simp: ld_def in_buf_def split: if_splits)
  moreover have "ip < ip'"
  proof (cases "uint (drop_bit 4 token) = RUN_MASK")
    case True
    with assms t obtain r where r: "literal_length e RUN_MASK (ip + 1) op = Some r"
      by (auto simp: fast_sequence_def bind_Some Let_def)
    show ?thesis
      using assms t True r literal_length_ip[of e RUN_MASK "ip + 1" op]
      by (cases r) (auto simp: fast_sequence_def Let_def bind_Some split: if_splits dest!: fast_match_ip)
  next
    case False
    with assms t have "ip + 1 + uint (drop_bit 4 token) \<le> ip'"
      by (auto simp: fast_sequence_def Let_def bind_Some split: if_splits dest!: fast_match_ip)
    with n show ?thesis by linarith
  qed
  ultimately show ?thesis by simp
qed

section \<open>The decoder\<close>

function safe_loop :: "decoder \<Rightarrow> int \<Rightarrow> int \<Rightarrow> bytes \<Rightarrow> flow option" where
  "safe_loop e ip op m = do {
     f \<leftarrow> safe_sequence e ip op m;
     case f of Continue ip op m \<Rightarrow> safe_loop e ip op m | _ \<Rightarrow> Some f }"
  by pat_completeness auto
termination
  by (relation "measure (\<lambda>(e, ip, op, m). nat (iend e - ip))") (auto dest: safe_sequence_ip)

function fast_loop :: "decoder \<Rightarrow> int \<Rightarrow> int \<Rightarrow> bytes \<Rightarrow> flow option" where
  "fast_loop e ip op m = do {
     r \<leftarrow> fast_sequence e ip op m;
     case r of Fast_continue ip op m \<Rightarrow> fast_loop e ip op m
     | Fast_exit f \<Rightarrow> (case f of Continue ip op m \<Rightarrow> safe_loop e ip op m | _ \<Rightarrow> Some f) }"
  by pat_completeness auto
termination
  by (relation "measure (\<lambda>(e, ip, op, m). nat (iend e - ip))") (auto dest: fast_sequence_ip)

declare safe_loop.simps [simp del] fast_loop.simps [simp del]

text \<open>
  \<open>LZ4_decompress_generic\<close>: \<open>dst\<close> is at position \<open>base\<close> of the region \<open>m\<close>, so
  \<open>outputSize\<close> is what is left of it. The result is the C return value and the region.
  \<open>src == NULL\<close> is address 0.
\<close>

definition LZ4_decompress_generic :: "decoder \<Rightarrow> int \<Rightarrow> bytes \<Rightarrow> (int \<times> bytes) option" where
  "LZ4_decompress_generic e base m =
    (let outputSize = oend m - base in
     if src_addr e = 0 \<or> outputSize < 0 then Some (-1, m)
     else if outputSize = 0 then
       if partialDecoding e then Some (0, m)
       else if iend e = 1 then do { b \<leftarrow> ld (srcbuf e) 0; Some (if b = 0 then 0 else -1, m) }
       else Some (-1, m)
     else if iend e = 0 then Some (-1, m)
     else do {
       f \<leftarrow> (if fast_dec_loop e \<and> \<not> outputSize < FASTLOOP_SAFE_DISTANCE
            then fast_loop e 0 base m else safe_loop e 0 base m);
       Some (case f of Output_error ip m \<Rightarrow> (- ip - 1, m)
             | Break ip op m \<Rightarrow> (op - base, m)
             | Continue ip op m \<Rightarrow> (op - base, m)) })"

end
