(* ===== verification/LZ4_Decompress_Copy.thy ===== *)
theory LZ4_Decompress_Copy
  imports LZ4_Decompress LZ4_Format
begin

text \<open>
  What the copy routines of the decoder do to the history: each of them is memory safe in
  the situation it is called in, and extends the history by \<open>lz_copy\<close>, the byte-by-byte copy
  of the format. The history is the external dictionary followed by the output so far;
  \<open>hat\<close> reads it at a virtual position that is negative inside the dictionary.
\<close>

section \<open>The history\<close>

definition hist :: "decoder \<Rightarrow> int \<Rightarrow> bytes \<Rightarrow> bytes" where
  "hist e op m = dictbuf e @ take (nat op) m"

definition hat :: "decoder \<Rightarrow> bytes \<Rightarrow> int \<Rightarrow> byte" where
  "hat e m p = (if p < 0 then at (dictbuf e) (dictSize e + p) else at m p)"

text \<open>The situations \<open>LZ4_decompress_generic\<close> is called in: no prefix gap, a dictionary only
  in dictionary mode, and in \<open>withPrefix64k\<close> mode at least 64 KB - 1 bytes before \<open>dst\<close>.\<close>

definition dec_wf :: "decoder \<Rightarrow> int \<Rightarrow> bool" where
  "dec_wf e base \<longleftrightarrow> 0 \<le> base
     \<and> (dict e \<noteq> usingExtDict \<longrightarrow> dictbuf e = [])
     \<and> (dict e \<noteq> withPrefix64k \<longrightarrow> lowPrefix e = 0)
     \<and> (dict e = withPrefix64k \<longrightarrow> lowPrefix e = base - 65536 \<and> 65535 \<le> base)"

lemma length_hist: "0 \<le> op \<Longrightarrow> op \<le> oend m \<Longrightarrow> int (length (hist e op m)) = dictSize e + op"
  by (simp add: hist_def dictSize_def)

lemma dictSize_nonneg [simp]: "0 \<le> dictSize e"
  by (simp add: dictSize_def)

lemma nth_hist:
  assumes "- dictSize e \<le> p" "p < op" "op \<le> oend m"
  shows "hist e op m ! nat (dictSize e + p) = hat e m p"
proof (cases "p < 0")
  case True
  moreover from this assms have "nat (dictSize e + p) < length (dictbuf e)"
    by (simp add: dictSize_def nat_less_iff)
  ultimately show ?thesis by (simp add: hist_def hat_def at_def nth_append)
next
  case False
  then have "nat (dictSize e + p) = length (dictbuf e) + nat p" by (simp add: dictSize_def nat_add_distrib)
  with False assms show ?thesis by (simp add: hist_def hat_def at_def nth_append)
qed

lemma hat_frame: "frame_below m m' d \<Longrightarrow> p < d \<Longrightarrow> hat e m' p = hat e m p"
  by (auto simp: hat_def frame_below_def)

lemma hist_frame:
  assumes "frame_below m m' d" "op \<le> d" "op \<le> oend m"
  shows "hist e op m' = hist e op m"
proof -
  have "m' ! i = m ! i" if "i < nat op" for i
  proof -
    have "at m' (int i) = at m (int i)" using that assms by (simp add: frame_below_def)
    then show ?thesis by (simp add: at_def)
  qed
  then show ?thesis
    using assms by (simp add: hist_def frame_below_def take_eq_pointwiseI)
qed

lemma hist_grow:
  assumes "frame_below m m' op" "0 \<le> op" "op \<le> oend m" "0 \<le> len"
  shows "take (length (hist e op m)) (hist e (op + len) m') = hist e op m"
proof -
  have "length (hist e op m) = length (dictbuf e) + nat op" using assms by (simp add: hist_def)
  then have "take (length (hist e op m)) (hist e (op + len) m') = hist e op m'"
    using assms by (simp add: hist_def frame_below_def min_def)
  also have "\<dots> = hist e op m" using assms by (intro hist_frame[where d = op]) auto
  finally show ?thesis .
qed

lemma hist_lz_copyI:
  assumes f: "frame_below m m' op" and "0 \<le> op" "0 \<le> len" "op + len \<le> oend m"
    and "0 < off" "off \<le> dictSize e + op"
    and per: "\<And>k. 0 \<le> k \<Longrightarrow> k < len \<Longrightarrow> hat e m' (op + k) = hat e m' (op + k - off)"
  shows "hist e (op + len) m' = lz_copy (nat off) (nat len) (hist e op m)"
proof (rule lz_copy_eqI[symmetric])
  have l: "length m' = length m" using f by (rule frame_below_length)
  have lh: "int (length (hist e op m)) = dictSize e + op"
    and lh': "int (length (hist e (op + len) m')) = dictSize e + (op + len)"
    using assms l by (simp_all add: length_hist)
  show "take (length (hist e op m)) (hist e (op + len) m') = hist e op m"
    using assms by (intro hist_grow) auto
  show "length (hist e (op + len) m') = length (hist e op m) + nat len"
    using lh lh' assms by linarith
  show "0 < nat off" using assms by simp
  show "nat off \<le> length (hist e op m)" using lh assms by linarith
  fix k assume k: "k < nat len"
  have "length (hist e op m) + k = nat (dictSize e + (op + int k))"
    and "length (hist e op m) + k - nat off = nat (dictSize e + (op + int k - off))"
    using lh assms by linarith+
  then show "hist e (op + len) m' ! (length (hist e op m) + k)
      = hist e (op + len) m' ! (length (hist e op m) + k - nat off)"
    using per[of "int k"] k assms l by (simp add: nth_hist)
qed

lemma hist_zeroI:
  assumes f: "frame_below m m' op" and "0 \<le> op" "0 \<le> len" "op + len \<le> oend m"
    and z: "\<And>k. 0 \<le> k \<Longrightarrow> k < len \<Longrightarrow> hat e m' (op + k) = 0"
  shows "hist e (op + len) m' = lz_copy 0 (nat len) (hist e op m)"
proof (rule nth_equalityI)
  have l: "length m' = length m" using f by (rule frame_below_length)
  have lh: "int (length (hist e op m)) = dictSize e + op"
    and lh': "int (length (hist e (op + len) m')) = dictSize e + (op + len)"
    using assms l by (simp_all add: length_hist)
  then show "length (hist e (op + len) m') = length (lz_copy 0 (nat len) (hist e op m))"
    using assms by simp
  fix i assume i: "i < length (hist e (op + len) m')"
  show "hist e (op + len) m' ! i = lz_copy 0 (nat len) (hist e op m) ! i"
  proof (cases "i < length (hist e op m)")
    case True
    then show ?thesis using hist_grow[OF f, of len e] assms
      by (metis (no_types, lifting) add.commute add_increasing2 lz_copy_prefix nth_append nth_take order_trans
          le_add_same_cancel1)
  next
    case False
    define k where "k = int i - (dictSize e + op)"
    have k: "0 \<le> k" "k < len" "nat (dictSize e + (op + k)) = i" "- dictSize e \<le> op + k"
      using False i lh lh' assms(2) by (auto simp: k_def)
    have "hist e (op + len) m' ! i = hat e m' (op + k)"
      using nth_hist[of e "op + k" "op + len" m'] k assms(4) l by simp
    also have "\<dots> = 0" using z k by simp
    finally show ?thesis using False i lh lh' by (auto simp: lz_copy_zero nth_append)
  qed
qed

section \<open>Periods\<close>

text \<open>
  The copies of the decoder work at a multiple of the match distance (so that eight bytes
  at a time never overlap). If the bytes from \<open>op\<close> on have period \<open>off\<close> for long enough,
  and then repeat what stands \<open>c * off\<close> before them, they have period \<open>off\<close> throughout.
\<close>

lemma period_extend:
  fixes f :: "int \<Rightarrow> 'a" and c :: nat
  assumes base: "\<And>k. 0 \<le> k \<Longrightarrow> k < a \<Longrightarrow> f (op + k) = f (op + k - off)"
    and mult: "\<And>k. a \<le> k \<Longrightarrow> k < b \<Longrightarrow> f (op + k) = f (op + k - int (Suc c) * off)"
    and "0 < off" "int c * off \<le> a" "0 \<le> k" "k < b"
  shows "f (op + k) = f (op + k - off)"
  using assms(5,6)
proof (induction "nat k" arbitrary: k rule: less_induct)
  case less
  show ?case
  proof (cases "k < a")
    case True
    then show ?thesis using base less.prems by simp
  next
    case False
    have chain: "f (op + k - int (Suc j) * off) = f (op + k - off)" if "j \<le> c" for j
      using that
    proof (induction j)
      case 0
      then show ?case by simp
    next
      case (Suc j)
      define k' where "k' = k - int (Suc j) * off"
      have "int (Suc j) * off \<le> int c * off" using Suc.prems \<open>0 < off\<close> by (intro mult_right_mono) auto
      moreover have "0 < int (Suc j) * off" using \<open>0 < off\<close> by simp
      ultimately have "0 \<le> k'" "k' < k" using False assms(4) unfolding k'_def by linarith+
      then have "f (op + k') = f (op + k' - off)" using less.hyps[of k'] less.prems by simp
      moreover have "op + k' = op + k - int (Suc j) * off"
        and "op + k' - off = op + k - int (Suc (Suc j)) * off"
        by (simp_all add: k'_def algebra_simps)
      ultimately show ?case using Suc.IH Suc.prems by (metis Suc_leD)
    qed
    from chain[of c] mult[of k] False less.prems show ?thesis by simp
  qed
qed

text \<open>\<open>match_copied off m m' op n\<close>: \<open>n\<close> bytes of a match at distance \<open>off\<close> stand at \<open>op\<close>.\<close>

definition match_copied :: "int \<Rightarrow> bytes \<Rightarrow> bytes \<Rightarrow> int \<Rightarrow> int \<Rightarrow> bool" where
  "match_copied off m m' op n \<longleftrightarrow> frame_below m m' op
     \<and> (\<forall>k. 0 \<le> k \<and> k < n \<longrightarrow> at m' (op + k) = (if off = 0 then 0 else at m' (op + k - off)))"

lemma match_copied_mono: "match_copied off m m' op n' \<Longrightarrow> n \<le> n' \<Longrightarrow> match_copied off m m' op n"
  by (auto simp: match_copied_def)

lemma match_copied_frame: "match_copied off m m' op n \<Longrightarrow> frame_below m m' op"
  by (simp add: match_copied_def)

lemma match_copied_lz: "off \<noteq> 0 \<Longrightarrow> match_copied off m m' op n \<longleftrightarrow> lz_copied m m' op (op - off) n"
  by (simp add: match_copied_def lz_copied_def algebra_simps)

text \<open>Going on at a multiple of the distance keeps the match; for distance 0, at any distance
  that reaches the zeros already there.\<close>

lemma match_copied_multiple:
  assumes "match_copied off m m1 op a" "lz_copied m1 m2 (op + a) (op + a - D) n"
    and "0 \<le> off" "off \<le> op" "0 \<le> n" "0 \<le> a" "D \<le> op + a" "0 < D"
    and "off = 0 \<Longrightarrow> D \<le> a" "off > 0 \<Longrightarrow> D = int (Suc c) * off \<and> int c * off \<le> a"
  shows "match_copied off m m2 op (a + n)"
proof -
  have fr: "frame_below m1 m2 (op + a)" using assms(2) by (rule lz_copied_frame)
  have f: "frame_below m m2 op"
    using frame_below_trans[OF match_copied_frame[OF assms(1)] fr] assms by simp
  have low: "at m2 (op + k) = (if off = 0 then 0 else at m2 (op + k - off))" if "0 \<le> k" "k < a" for k
    using that fr assms(1,3,4) by (auto simp: match_copied_def frame_below_def)
  have high: "at m2 (op + k) = at m2 (op + k - D)" if "a \<le> k" "k < a + n" for k
  proof -
    have "\<forall>j. 0 \<le> j \<and> j < n \<longrightarrow> at m2 (op + a + j) = at m2 (op + a - D + j)"
      using assms(2) by (simp add: lz_copied_def)
    then have "at m2 (op + a + (k - a)) = at m2 (op + a - D + (k - a))"
      using that by (metis add.commute diff_ge_0_iff_ge diff_less_eq)
    moreover have "op + a + (k - a) = op + k" "op + a - D + (k - a) = op + k - D" by simp_all
    ultimately show ?thesis by simp
  qed
  show ?thesis
  proof (cases "off = 0")
    case True
    have "at m2 (op + k) = 0" if "0 \<le> k" "k < a + n" for k
      using that
    proof (induction "nat k" arbitrary: k rule: less_induct)
      case less
      show ?case
      proof (cases "k < a")
        case True
        then show ?thesis using low less.prems \<open>off = 0\<close> by simp
      next
        case False
        then have "at m2 (op + (k - D)) = 0" using less assms(8) assms(9)[OF \<open>off = 0\<close>] by simp
        then show ?thesis using high[of k] False less.prems by (simp add: algebra_simps)
      qed
    qed
    then show ?thesis using f True by (simp add: match_copied_def)
  next
    case False
    then have off: "0 < off" using assms by simp
    note D = assms(10)[OF off]
    have "at m2 (op + k) = at m2 (op + k - off)" if "0 \<le> k" "k < a + n" for k
      by (rule period_extend[where a = a and b = "a + n" and c = c])
         (use off D low high that False in auto)
    then show ?thesis using f False by (simp add: match_copied_def)
  qed
qed

section \<open>The head of a match copy\<close>

text \<open>
  \<open>copy_head8\<close> establishes the first eight bytes and leaves \<open>match\<close> at a multiple of the
  distance, at least eight bytes back: whatever goes on copying from there finishes the
  match. The two tables are what makes this true for the distances 0 to 7.
\<close>

definition head_done :: "int \<Rightarrow> bytes \<Rightarrow> int \<Rightarrow> bytes \<Rightarrow> int \<Rightarrow> bool" where
  "head_done off m op m1 match1 \<longleftrightarrow> match_copied off m m1 op 8
     \<and> 0 \<le> match1 \<and> match1 + 8 \<le> op + 8
     \<and> (\<forall>m2 n. 0 \<le> n \<longrightarrow> lz_copied m1 m2 (op + 8) match1 n \<longrightarrow> match_copied off m m2 op (8 + n))"

lemma head_done_frame: "head_done off m op m1 match1 \<Longrightarrow> length m1 = length m"
  by (auto simp: head_done_def match_copied_def frame_below_def)

lemma head_doneI:
  assumes "match_copied off m m1 op 8" "0 \<le> off" "off \<le> op" "0 \<le> match1"
    and "match1 = op + 8 - D" "8 \<le> D" "off = 0 \<Longrightarrow> D \<le> 8"
    and "off > 0 \<Longrightarrow> D = int (Suc c) * off \<and> int c * off \<le> 8"
  shows "head_done off m op m1 match1"
  unfolding head_done_def
proof (intro conjI allI impI)
  fix m2 and n :: int
  assume "0 \<le> n" and l: "lz_copied m1 m2 (op + 8) match1 n"
  then show "match_copied off m m2 op (8 + n)"
    using assms by (intro match_copied_multiple[where D = D and c = c]) auto
qed (use assms in auto)

text \<open>Four single-byte steps.\<close>

lemma lz_copied_step:
  assumes "lz_copied m m1 d s n" "0 \<le> s" "s \<le> d" "0 \<le> n" "in_buf m (d + n) 1"
  shows "lz_copied m (upd m1 (d + n) [at m1 (s + n)]) d s (n + 1)"
proof -
  have b: "in_buf m1 (d + n) 1" "in_buf m1 (s + n) 1"
    using assms by (auto simp: in_buf_def lz_copied_def frame_below_def)
  have "lz_copied m1 (upd m1 (d + n) [at m1 (s + n)]) (d + n) (s + n) 1"
    using b by (simp add: lz_copied_def frame_below_upd int_less_one_iff at_upd at_singleton in_buf_def)
       (auto dest!: order_antisym)
  then show ?thesis using lz_copied_trans[OF assms(1)] assms by simp
qed

definition small_multiple :: "int \<Rightarrow> int \<Rightarrow> int \<Rightarrow> nat \<Rightarrow> bool" where
  "small_multiple off D a c \<longleftrightarrow> D = int (Suc c) * off \<and> int c * off \<le> a"

lemma small_offsets: "1 \<le> off \<Longrightarrow> off < 8 \<Longrightarrow> off \<in> {1, 2, 3, 4, 5, 6, 7 :: int}"
  by auto

lemma offset_tables:
  assumes "1 \<le> off" "off < 8"
  shows "small_multiple off (4 + off - inc32table ! nat off) 4 ([0, 3, 1, 1, 1, 0, 0, 0] ! nat off)"
    and "small_multiple off (8 + off - inc32table ! nat off + dec64table ! nat off) 8
           ([0, 7, 3, 2, 1, 1, 1, 1] ! nat off)"
    and "0 \<le> inc32table ! nat off \<and> inc32table ! nat off \<le> off"
    and "8 \<le> 8 + off - inc32table ! nat off + dec64table ! nat off"
    and "dec64table ! nat off \<le> inc32table ! nat off"
  using small_offsets[OF assms]
  by (auto simp: small_multiple_def inc32table_def dec64table_def)

lemma wp_copy_head8:
  assumes "0 \<le> off" "off \<le> op" "op + 8 \<le> oend m"
  shows "wp (copy_head8 off (op - off) op m) (\<lambda>(m1, match1). head_done off m op m1 match1)"
proof (cases "off < 8")
  case False
  have "wp (memcpy m (op) (op - off) 8) (\<lambda>m1. head_done off m op m1 (op - off + 8))"
  proof (rule wp_memcpy)
    fix m1 assume "lz_copied m m1 op (op - off) 8"
    then show "head_done off m op m1 (op - off + 8)"
      using False assms by (intro head_doneI[where D = off and c = 0]) (auto simp: match_copied_lz)
  qed (use assms False in auto)
  with False show ?thesis by (simp add: copy_head8_def wp_simps)
next
  case True
  let ?s = "op - off"
  define m0 where "m0 = upd m op [0, 0, 0, 0]"
  define m1 where "m1 = upd m0 op [at m0 ?s]"
  define m2 where "m2 = upd m1 (op + 1) [at m1 (?s + 1)]"
  define m3 where "m3 = upd m2 (op + 2) [at m2 (?s + 2)]"
  define m4 where "m4 = upd m3 (op + 3) [at m3 (?s + 3)]"
  have f0: "frame_below m m0 op" and l0: "length m0 = length m"
    using assms by (simp_all add: m0_def frame_below_upd in_buf_def)
  have c0: "lz_copied m0 m0 op ?s 0" by (simp add: lz_copied_0)
  have c1: "lz_copied m0 m1 op ?s 1"
    using lz_copied_step[OF c0] assms l0 by (simp add: m1_def in_buf_def)
  have c2: "lz_copied m0 m2 op ?s 2"
    using lz_copied_step[OF c1] assms l0 by (simp add: m2_def in_buf_def)
  have c3: "lz_copied m0 m3 op ?s 3"
    using lz_copied_step[OF c2] assms l0 by (simp add: m3_def in_buf_def)
  have c4: "lz_copied m0 m4 op ?s 4"
    using lz_copied_step[OF c3] assms l0 by (simp add: m4_def in_buf_def)
  have l: "length m1 = length m" "length m2 = length m" "length m3 = length m" "length m4 = length m"
    using c1 c2 c3 c4 l0 by (simp_all add: lz_copied_def frame_below_def)
  have mc4: "match_copied off m m4 op 4"
  proof (cases "off = 0")
    case False
    then show ?thesis
      using c4 f0 by (auto simp: match_copied_lz lz_copied_def intro: frame_below_trans)
  next
    case True
    have z: "at m0 (op + k) = 0" if "0 \<le> k" "k < 4" for k
    proof -
      have "k \<in> {0, 1, 2, 3}" using that by auto
      then show ?thesis using assms by (auto simp: m0_def at_upd in_buf_def) (simp_all add: at_def)
    qed
    have "m1 = m0" using True assms l0 by (simp add: m1_def upd_same in_buf_def)
    moreover have "m2 = m1" using True assms l by (simp add: m2_def upd_same in_buf_def)
    moreover have "m3 = m2" using True assms l by (simp add: m3_def upd_same in_buf_def)
    moreover have "m4 = m3" using True assms l by (simp add: m4_def upd_same in_buf_def)
    ultimately show ?thesis using True z f0 by (simp add: match_copied_def)
  qed
  define i where "i = inc32table ! nat off"
  define d where "d = dec64table ! nat off"
  have tabs: "off = 0 \<Longrightarrow> i = 0 \<and> d = 0" "0 \<le> i" "i \<le> off" "d \<le> i" "8 \<le> 8 + off - i + d"
  proof -
    show "off = 0 \<Longrightarrow> i = 0 \<and> d = 0" by (simp add: i_def d_def inc32table_def dec64table_def)
    then show "0 \<le> i" "i \<le> off" "d \<le> i" "8 \<le> 8 + off - i + d"
      using offset_tables(3-5)[of off, folded i_def d_def] True assms(1) by (cases "off = 0"; simp)+
  qed
  have "wp (memcpy m4 (op + 4) (?s + i) 4) (\<lambda>m5. head_done off m op m5 (?s + i - d))"
  proof (rule wp_memcpy)
    fix m5 assume c5: "lz_copied m4 m5 (op + 4) (?s + i) 4"
    have "match_copied off m m5 op (4 + 4)"
      by (rule match_copied_multiple[OF mc4, where D = "4 + off - i"
              and c = "[0, 3, 1, 1, 1, 0, 0, 0] ! nat off"])
         (use c5 tabs assms True offset_tables(1)[of off] in
            \<open>auto simp: small_multiple_def i_def algebra_simps\<close>)
    then show "head_done off m op m5 (?s + i - d)"
      using tabs assms True offset_tables(2)[of off]
      by (intro head_doneI[where D = "8 + off - i + d" and c = "[0, 7, 3, 2, 1, 1, 1, 1] ! nat off"])
         (auto simp: small_multiple_def i_def d_def)
  qed (use tabs assms l in auto)
  moreover have "in_buf m op 4" "in_buf m0 ?s 1" "in_buf m0 op 1" "in_buf m1 (?s + 1) 1" "in_buf m1 (op + 1) 1"
    "in_buf m2 (?s + 2) 1" "in_buf m2 (op + 2) 1" "in_buf m3 (?s + 3) 1" "in_buf m3 (op + 3) 1"
    using assms l l0 by (simp_all add: in_buf_def)
  ultimately show ?thesis
    using True by (simp add: copy_head8_def wp_simps m0_def[symmetric] m1_def[symmetric]
        m2_def[symmetric] m3_def[symmetric] m4_def[symmetric] i_def[symmetric] d_def[symmetric])
qed

section \<open>From copies to the history\<close>

lemma match_copied_hist:
  assumes c: "match_copied off m m' op len" and "0 \<le> off" "off \<le> op" "0 \<le> len" "op + len \<le> oend m"
  shows "hist e (op + len) m' = lz_copy (nat off) (nat len) (hist e op m)"
proof (cases "off = 0")
  case True
  have "hat e m' (op + k) = 0" if "0 \<le> k" "k < len" for k
    using c that True assms(3) by (simp add: match_copied_def hat_def)
  then show ?thesis
    using hist_zeroI[OF match_copied_frame[OF c]] assms True by simp
next
  case False
  have "hat e m' (op + k) = hat e m' (op + k - off)" if "0 \<le> k" "k < len" for k
    using c that False assms(2,3) by (simp add: match_copied_def hat_def)
  moreover have "off \<le> dictSize e + op" using assms(3) dictSize_nonneg[of e] by linarith
  ultimately show ?thesis
    using hist_lz_copyI[OF match_copied_frame[OF c], of len off e] assms False by simp
qed

lemma ext_copied_hist:
  assumes c: "ext_copied m m' op x s len" and "0 \<le> op" "0 \<le> len" "op + len \<le> oend m"
    "0 \<le> s" "s + len \<le> oend x"
  shows "hist e (op + len) m' = hist e op m @ seg x s (s + len)"
proof (rule nth_equalityI)
  note f = c[unfolded ext_copied_def, THEN conjunct1]
  have l: "length m' = length m" using f by (rule frame_below_length)
  have lh: "int (length (hist e op m)) = dictSize e + op"
    and lh': "int (length (hist e (op + len) m')) = dictSize e + (op + len)"
    using assms l by (simp_all add: length_hist)
  then show "length (hist e (op + len) m') = length (hist e op m @ seg x s (s + len))"
    using assms by simp
  fix i assume i: "i < length (hist e (op + len) m')"
  show "hist e (op + len) m' ! i = (hist e op m @ seg x s (s + len)) ! i"
  proof (cases "i < length (hist e op m)")
    case True
    then show ?thesis using hist_grow[OF f, of len e] assms by (metis add_increasing2 le_add_same_cancel1
          nth_append nth_take order_trans)
  next
    case False
    define k where "k = int i - (dictSize e + op)"
    have k: "0 \<le> k" "k < len" "nat (dictSize e + (op + k)) = i" "- dictSize e \<le> op + k"
      using False i lh lh' assms(2) by (auto simp: k_def)
    have "hist e (op + len) m' ! i = hat e m' (op + k)"
      using nth_hist[of e "op + k" "op + len" m'] k assms(4) l by simp
    also have "\<dots> = at x (s + k)" using c k assms(2) by (simp add: ext_copied_def hat_def)
    also have "\<dots> = at (seg x s (s + len)) k" using k assms by (simp add: at_seg)
    finally have "hist e (op + len) m' ! i = seg x s (s + len) ! nat k" by (simp add: at_def)
    moreover have "nat k = i - length (hist e op m)" using False lh k(1) unfolding k_def by linarith
    ultimately show ?thesis using False by (simp add: nth_append)
  qed
qed

section \<open>The match copies of the safe loop\<close>

text \<open>
  What a match copy leaves: it has not touched anything below \<open>op\<close>, has not moved \<open>ip\<close>, and,
  when a whole block is decoded, it has appended exactly the match to the history. It
  gives up only on a match that ends inside the last five bytes of the output, or that
  reaches back before the history.
\<close>

definition match_post :: "decoder \<Rightarrow> int \<Rightarrow> int \<Rightarrow> int \<Rightarrow> int \<Rightarrow> bytes \<Rightarrow> flow \<Rightarrow> bool" where
  "match_post e off len ip op m f \<longleftrightarrow> flow_ip f = ip \<and> frame_below m (flow_mem f) op
     \<and> (case f of
          Continue ip' op' m' \<Rightarrow> op \<le> op' \<and> op' \<le> op + len \<and> op' \<le> oend m
            \<and> (\<not> partialDecoding e \<longrightarrow> op' = op + len
                 \<and> hist e op' m' = lz_copy (nat off) (nat len) (hist e op m))
        | Break ip' op' m' \<Rightarrow> partialDecoding e \<and> op \<le> op' \<and> op' \<le> oend m
        | Output_error ip' m' \<Rightarrow> True)"

lemma match_post_Continue:
  assumes "match_copied off m m' op len" "0 \<le> off" "off \<le> op" "0 \<le> len" "op + len \<le> oend m"
  shows "match_post e off len ip op m (Continue ip (op + len) m')"
  using assms match_copied_hist[OF assms] by (simp add: match_post_def match_copied_frame)

lemma match_post_error: "frame_below m m' op \<Longrightarrow> match_post e off len ip op m (Output_error ip m')"
  by (simp add: match_post_def)

lemma match_copied_frame_right:
  assumes "match_copied off m m1 op n" "frame_below m1 m2 (op + n)" "0 \<le> off" "off \<le> op" "0 \<le> n"
  shows "match_copied off m m2 op n"
proof -
  have same: "at m2 p = at m1 p" if "0 \<le> p" "p < op + n" for p
    using assms(2) that by (simp add: frame_below_def)
  have "at m2 (op + k) = (if off = 0 then 0 else at m2 (op + k - off))" if "0 \<le> k" "k < n" for k
  proof -
    have "at m1 (op + k) = (if off = 0 then 0 else at m1 (op + k - off))"
      using assms(1) that unfolding match_copied_def by blast
    moreover have "at m2 (op + k) = at m1 (op + k)" using that assms(3,4) by (intro same) auto
    moreover have "at m2 (op + k - off) = at m1 (op + k - off)" using that assms(3,4) by (intro same) auto
    ultimately show ?thesis by simp
  qed
  moreover have "frame_below m m2 op"
    using frame_below_trans[OF match_copied_frame[OF assms(1)] assms(2)] \<open>0 \<le> n\<close> by linarith
  ultimately show ?thesis unfolding match_copied_def by blast
qed

lemma head_done_finish:
  assumes "head_done off m op m1 match1" "lz_copied m1 m2 (op + 8) match1 n" "len \<le> 8 + n"
    and "frame_below m2 m3 (op + len)" "0 \<le> off" "off \<le> op" "0 \<le> len" "0 \<le> n"
  shows "match_copied off m m3 op len"
proof -
  have "match_copied off m m2 op (8 + n)" using assms unfolding head_done_def by blast
  then have "match_copied off m m2 op len" using assms(3) by (rule match_copied_mono)
  then show ?thesis by (rule match_copied_frame_right) (use assms in auto)
qed

lemma block_match_copy_ok:
  assumes "0 \<le> off" "off \<le> op" "4 \<le> len" "op \<le> oend m - 12"
  shows "wp (block_match_copy len off (op - off) ip op m) (match_post e off len ip op m)"
proof -
  have "wp (copy_head8 off (op - off) op m) (\<lambda>(m1, match1). head_done off m op m1 match1)"
    using assms by (intro wp_copy_head8) auto
  then obtain m1 match1 where h: "copy_head8 off (op - off) op m = Some (m1, match1)"
    and hd: "head_done off m op m1 match1" by (auto simp: wp_iff)
  have l1: "length m1 = length m" using hd by (rule head_done_frame)
  have m1: "0 \<le> match1" "match1 + 8 \<le> op + 8" and f1: "frame_below m m1 op"
    using hd by (auto simp: head_done_def match_copied_def)
  note post = match_post_Continue[OF head_done_finish[OF hd]]
  have cont: "match_post e off len ip op m (Continue ip (op + len) m3)"
    if "lz_copied m1 m2 (op + 8) match1 n" "len \<le> 8 + n" "frame_below m2 m3 (op + len)"
      "0 \<le> n" "op + len \<le> oend m" for m2 m3 n
    by (rule post) (use that assms in auto)
  show ?thesis
  proof (cases "op + len > oend m - 12")
    case tail: True
    show ?thesis
    proof (cases "op + len > oend m - 5")
      case True
      with tail h l1 f1 show ?thesis by (simp add: block_match_copy_def wp_simps match_post_error)
    next
      case False
      let ?lim = "oend m - 7"
      show ?thesis
      proof (cases "op + 8 < ?lim")
        case far: True
        have "wp (wildCopy8 m1 (op + 8) match1 ?lim) (\<lambda>m2.
                wp (copy_bytes m2 ?lim (match1 + (?lim - (op + 8))) (op + len)) (\<lambda>m3.
                match_post e off len ip op m (Continue ip (op + len) m3)))"
        proof (rule wp_mono[OF wp_wildCopy8])
          fix m2 assume c2: "lz_copied m1 m2 (op + 8) match1 (?lim - (op + 8))"
          show "wp (copy_bytes m2 ?lim (match1 + (?lim - (op + 8))) (op + len)) (\<lambda>m3.
                match_post e off len ip op m (Continue ip (op + len) m3))"
          proof (rule wp_mono[OF wp_copy_bytes])
            fix m3 assume "lz_copied m2 m3 ?lim (match1 + (?lim - (op + 8))) (op + len - ?lim)"
            then have "lz_copied m2 m3 ((op + 8) + (?lim - (op + 8))) (match1 + (?lim - (op + 8)))
                (max 0 (op + len - ?lim))" using lz_copied_max0 by simp
            then have "lz_copied m1 m3 (op + 8) match1 (?lim - (op + 8) + max 0 (op + len - ?lim))"
              using far m1 by (intro lz_copied_trans[OF c2]) auto
            from cont[OF this] show "match_post e off len ip op m (Continue ip (op + len) m3)"
              using far m1 False by simp
          qed (use c2 far m1 l1 False in \<open>auto simp: lz_copied_def frame_below_def\<close>)
        qed (use far m1 l1 assms in auto)
        with tail far False h l1 show ?thesis by (simp add: block_match_copy_def wp_simps algebra_simps)
      next
        case near: False
        have "wp (copy_bytes m1 (op + 8) match1 (op + len)) (\<lambda>m3.
                match_post e off len ip op m (Continue ip (op + len) m3))"
        proof (rule wp_mono[OF wp_copy_bytes])
          fix m3 assume "lz_copied m1 m3 (op + 8) match1 (op + len - (op + 8))"
          then have "lz_copied m1 m3 (op + 8) match1 (max 0 (len - 8))" using lz_copied_max0 by simp
          from cont[OF this] show "match_post e off len ip op m (Continue ip (op + len) m3)"
            using False by simp
        qed (use m1 l1 False in auto)
        with tail near False h l1 show ?thesis by (simp add: block_match_copy_def wp_simps)
      qed
    qed
  next
    case False
    have "wp (memcpy m1 (op + 8) match1 8) (\<lambda>m2.
            wp (if len > 16 then wildCopy8 m2 (op + 16) (match1 + 8) (op + len) else Some m2) (\<lambda>m3.
            match_post e off len ip op m (Continue ip (op + len) m3)))"
    proof (rule wp_memcpy)
      fix m2 assume c2: "lz_copied m1 m2 (op + 8) match1 8"
      show "wp (if len > 16 then wildCopy8 m2 (op + 16) (match1 + 8) (op + len) else Some m2) (\<lambda>m3.
            match_post e off len ip op m (Continue ip (op + len) m3))"
      proof (cases "len > 16")
        case True
        have "wp (wildCopy8 m2 (op + 16) (match1 + 8) (op + len)) (\<lambda>m3.
            match_post e off len ip op m (Continue ip (op + len) m3))"
        proof (rule wp_mono[OF wp_wildCopy8])
          fix m3 assume "lz_copied m2 m3 (op + 16) (match1 + 8) (op + len - (op + 16))"
          then have "lz_copied m2 m3 ((op + 8) + 8) (match1 + 8) (len - 16)" by (simp add: add.assoc)
          then have "lz_copied m1 m3 (op + 8) match1 (8 + (len - 16))"
            using True m1 by (intro lz_copied_trans[OF c2]) auto
          from cont[OF this] show "match_post e off len ip op m (Continue ip (op + len) m3)"
            using True False by simp
        qed (use True False m1 c2 l1 in \<open>auto simp: lz_copied_def frame_below_def\<close>)
        with True show ?thesis by simp
      next
        case short: False
        with cont[OF c2] show ?thesis using False by (simp add: wp_simps)
      qed
    qed (use m1 l1 False assms in auto)
    with False h l1 show ?thesis by (simp add: block_match_copy_def wp_simps add.assoc)
  qed
qed

text \<open>A match that starts in the external dictionary and may run on into the block.\<close>

lemma ext_then_block:
  assumes "ext_copied m m1 op (dictbuf e) (dictSize e - c) c" "lz_copied m1 m2 (op + c) 0 (len - c)"
    and "0 \<le> c" "c \<le> dictSize e" "0 \<le> op" "c = off - op" "0 \<le> k" "k < len"
  shows "hat e m2 (op + k) = hat e m2 (op + k - off)"
proof (cases "k < c")
  case True
  have "at m2 (op + k) = at m1 (op + k)"
    using True assms(2,5,7) by (simp add: lz_copied_def frame_below_def)
  also have "\<dots> = at (dictbuf e) (dictSize e - c + k)"
    using True assms(1,7) by (simp add: ext_copied_def)
  finally show ?thesis using True assms by (simp add: hat_def algebra_simps)
next
  case False
  have "\<forall>j. 0 \<le> j \<and> j < len - c \<longrightarrow> at m2 (op + c + j) = at m2 (0 + j)"
    using assms(2) by (simp add: lz_copied_def)
  from this[rule_format, of "k - c"] False assms(3-8) show ?thesis
    by (simp add: hat_def algebra_simps)
qed

lemma ext_only:
  assumes "ext_copied m m1 op (dictbuf e) (dictSize e + op - off) len"
    and "len \<le> off - op" "off - op \<le> dictSize e" "0 \<le> op" "0 \<le> k" "k < len"
  shows "hat e m1 (op + k) = hat e m1 (op + k - off)"
  using assms by (simp add: ext_copied_def hat_def algebra_simps)

lemma ext_dict_copy_ok:
  assumes "lowPrefix e = 0" "op < off" "off \<le> dictSize e + op" "0 \<le> op" "op \<le> oend m" "0 \<le> len"
  shows "wp (ext_dict_copy e len (op - off) ip op m) (match_post e off len ip op m)"
proof (cases "op + len > oend m - 5 \<and> \<not> partialDecoding e")
  case True
  then show ?thesis by (simp add: ext_dict_copy_def wp_simps match_post_error)
next
  case False
  define l where "l = (if op + len > oend m - 5 then min len (oend m - op) else len)"
  have l: "0 \<le> l" "op + l \<le> oend m" "\<not> partialDecoding e \<longrightarrow> l = len" "l \<le> len"
    using assms False by (auto simp: l_def)
  have post: "match_post e off len ip op m (Continue ip (op + l) m2)"
    if "frame_below m m2 op" "\<And>k. 0 \<le> k \<Longrightarrow> k < l \<Longrightarrow> hat e m2 (op + k) = hat e m2 (op + k - off)" for m2
  proof -
    have "hist e (op + l) m2 = lz_copy (nat off) (nat l) (hist e op m)"
      by (rule hist_lz_copyI) (use that l assms in auto)
    then show ?thesis using that(1) l by (auto simp: match_post_def)
  qed
  define c where "c = off - op"
  have c: "0 < c" "c \<le> dictSize e" and dist: "lowPrefix e - (op - off) = c"
    using assms by (auto simp: c_def)
  have unf: "wp (ext_dict_copy e len (op - off) ip op m) Q =
      (if l \<le> c then wp (memcpy_from m op (dictbuf e) (dictSize e - c) l) (\<lambda>m1. Q (Continue ip (op + l) m1))
       else wp (memcpy_from m op (dictbuf e) (dictSize e - c) c) (\<lambda>m1.
              wp (if l - c > op + c then copy_bytes m1 (op + c) 0 (op + c + (l - c))
                  else memcpy m1 (op + c) 0 (l - c)) (\<lambda>m2. Q (Continue ip (op + l) m2))))" for Q
    by (simp only: ext_dict_copy_def Let_def if_not_P[OF False] l_def[symmetric] dist)
       (simp add: wp_simps assms(1))
  show ?thesis
  proof (cases "l \<le> c")
    case True
    have "wp (memcpy_from m op (dictbuf e) (dictSize e - c) l)
        (\<lambda>m1. match_post e off len ip op m (Continue ip (op + l) m1))"
    proof (rule wp_memcpy_from)
      fix m1 assume "ext_copied m m1 op (dictbuf e) (dictSize e - c) l"
      then have "ext_copied m m1 op (dictbuf e) (dictSize e + op - off) l" by (simp add: c_def algebra_simps)
      note x = this
      show "match_post e off len ip op m (Continue ip (op + l) m1)"
        using x ext_only[OF x] True assms by (intro post) (auto simp: ext_copied_def c_def)
    qed (use True assms l c in \<open>auto simp: dictSize_def\<close>)
    with True show ?thesis by (simp add: unf)
  next
    case long: False
    have rest: "wp (if l - c > op + c then copy_bytes m1 (op + c) 0 (op + c + (l - c))
               else memcpy m1 (op + c) 0 (l - c)) (\<lambda>m2. lz_copied m1 m2 (op + c) 0 (l - c))"
      if "length m1 = length m" for m1
    proof (cases "l - c > op + c")
      case True
      have "wp (copy_bytes m1 (op + c) 0 (op + c + (l - c))) (\<lambda>m2. lz_copied m1 m2 (op + c) 0 (op + c + (l - c) - (op + c)))"
        by (rule wp_copy_bytes) (use that assms c l in auto)
      with True show ?thesis by simp
    next
      case False
      have "wp (memcpy m1 (op + c) 0 (l - c)) (\<lambda>m2. lz_copied m1 m2 (op + c) 0 (l - c))"
        by (rule wp_memcpy) (use that assms c l long False in auto)
      with False show ?thesis by simp
    qed
    have "wp (memcpy_from m op (dictbuf e) (dictSize e - c) c) (\<lambda>m1.
        wp (if l - c > op + c then copy_bytes m1 (op + c) 0 (op + c + (l - c))
            else memcpy m1 (op + c) 0 (l - c)) (\<lambda>m2. match_post e off len ip op m (Continue ip (op + l) m2)))"
    proof (rule wp_memcpy_from)
      fix m1 assume x: "ext_copied m m1 op (dictbuf e) (dictSize e - c) c"
      then have "length m1 = length m" by (simp add: ext_copied_def frame_below_def)
      then show "wp (if l - c > op + c then copy_bytes m1 (op + c) 0 (op + c + (l - c))
            else memcpy m1 (op + c) 0 (l - c)) (\<lambda>m2. match_post e off len ip op m (Continue ip (op + l) m2))"
      proof (rule wp_mono[OF rest])
        fix m2 assume y: "lz_copied m1 m2 (op + c) 0 (l - c)"
        have "frame_below m m2 op"
          using x y c unfolding ext_copied_def lz_copied_def by (auto intro: frame_below_trans)
        then show "match_post e off len ip op m (Continue ip (op + l) m2)"
          using ext_then_block[OF x y] c assms(4) by (intro post) (auto simp: c_def)
      qed
    qed (use assms c l long in \<open>auto simp: dictSize_def\<close>)
    with long show ?thesis by (simp only: unf if_False)
  qed
qed

lemma partial_match_copy_ok:
  assumes "0 \<le> off" "off \<le> op" "0 \<le> len" "op \<le> oend m" "partialDecoding e"
  shows "wp (partial_match_copy len (op - off) ip op m) (match_post e off len ip op m)"
proof -
  define n where "n = min len (oend m - op)"
  have n: "0 \<le> n" "op + n \<le> oend m" "n \<le> len" using assms by (auto simp: n_def)
  have "wp (if op - off + n > op then copy_bytes m op (op - off) (op + n) else memcpy m op (op - off) n)
      (\<lambda>m1. frame_below m m1 op)"
  proof (cases "op - off + n > op")
    case True
    have "wp (copy_bytes m op (op - off) (op + n)) (\<lambda>m1. frame_below m m1 op)"
      by (rule wp_mono[OF wp_copy_bytes]) (use assms n in \<open>auto simp: lz_copied_def\<close>)
    with True show ?thesis by simp
  next
    case False
    have "wp (memcpy m op (op - off) n) (\<lambda>m1. frame_below m m1 op)"
      by (rule wp_memcpy) (use assms n False in \<open>auto simp: lz_copied_def\<close>)
    with False show ?thesis by simp
  qed
  then show ?thesis
    unfolding partial_match_copy_def Let_def n_def[symmetric] wp_bind
    by (rule wp_mono) (use n assms in \<open>auto simp: wp_simps match_post_def frame_below_def\<close>)
qed

text \<open>The match lies in the accessible history once the offset check has passed.\<close>

lemma match_in_reach:
  assumes "dec_wf e base" "base \<le> op" "0 \<le> off" "off \<le> 65535"
    and "\<not> (checkOffset e \<and> op - off + dictSize e < lowPrefix e)"
  shows "off \<le> dictSize e + op" "dict e = usingExtDict \<or> off \<le> op"
    "dict e = usingExtDict \<Longrightarrow> lowPrefix e = 0"
  using assms by (auto simp: dec_wf_def checkOffset_def dictSize_def split: if_splits)

lemma safe_match_copy_ok:
  assumes wf: "dec_wf e base" and "base \<le> op" "0 \<le> off" "off \<le> 65535" "4 \<le> len"
    and "op \<le> oend m" "\<not> partialDecoding e \<longrightarrow> op \<le> oend m - 12"
  shows "wp (safe_match_copy e len off (op - off) ip op m) (match_post e off len ip op m)"
proof (cases "checkOffset e \<and> op - off + dictSize e < lowPrefix e")
  case True
  then show ?thesis by (simp add: safe_match_copy_def wp_simps match_post_error)
next
  case False
  note reach = match_in_reach[OF wf assms(2-4) False]
  have op: "0 \<le> op" using wf assms(2) by (simp add: dec_wf_def)
  show ?thesis
  proof (cases "dict e = usingExtDict \<and> op - off < lowPrefix e")
    case True
    with False reach op assms show ?thesis
      by (auto simp: safe_match_copy_def wp_simps intro!: ext_dict_copy_ok)
  next
    case nd: False
    then have "off \<le> op" using reach by auto
    then show ?thesis
      using False nd assms partial_match_copy_ok[of off op len m e ip] block_match_copy_ok[of off op len m ip e]
      by (auto simp: safe_match_copy_def)
  qed
qed

section \<open>The match copies of the fast loop\<close>

lemma wp_wildCopy32:
  assumes "0 \<le> s" "s + 16 \<le> d" "d + 32 \<le> oend m" "e + 31 \<le> oend m"
  shows "wp (wildCopy32 m d s e) (\<lambda>m'. lz_copied m m' d s (e - d))"
  using assms
proof (induction m d s e rule: wildCopy32.induct)
  case (1 m d s e)
  show ?case
  proof (subst wildCopy32.simps, unfold wp_bind, rule wp_memcpy)
    fix m1 assume m1: "memcpy m d s 16 = Some m1" and c1: "lz_copied m m1 d s 16"
    then have l1: "length m1 = length m" by (simp add: lz_copied_def frame_below_def)
    show "wp (memcpy m1 (d + 16) (s + 16) 16) (\<lambda>a. wp (if d + 32 < e then wildCopy32 a (d + 32) (s + 32) e else Some a)
        (\<lambda>m'. lz_copied m m' d s (e - d)))"
    proof (rule wp_memcpy)
      fix m2 assume m2: "memcpy m1 (d + 16) (s + 16) 16 = Some m2" and c2: "lz_copied m1 m2 (d + 16) (s + 16) 16"
      have c: "lz_copied m m2 d s 32" using lz_copied_trans[OF c1 c2] "1.prems" by simp
      have l2: "length m2 = length m" using c by (simp add: lz_copied_def frame_below_def)
      show "wp (if d + 32 < e then wildCopy32 m2 (d + 32) (s + 32) e else Some m2)
        (\<lambda>m'. lz_copied m m' d s (e - d))"
      proof (cases "d + 32 < e")
        case True
        then have "wp (wildCopy32 m2 (d + 32) (s + 32) e)
            (\<lambda>m'. lz_copied m2 m' (d + 32) (s + 32) (e - (d + 32)))"
          using m1 m2 l2 "1.prems" by (intro "1.IH") auto
        then show ?thesis using True "1.prems" c
          by (auto elim!: wp_mono dest: lz_copied_trans)
      next
        case False
        with c show ?thesis by (auto simp: wp_simps intro: lz_copied_mono)
      qed
    qed (use "1.prems" l1 in auto)
  qed (use "1.prems" in auto)
qed

lemma wp_wildCopy32_from:
  assumes "0 \<le> s" "s + 32 \<le> oend x" "e - d + s + 31 \<le> oend x" "0 \<le> d" "d + 32 \<le> oend m" "e + 31 \<le> oend m"
  shows "wp (wildCopy32_from m d x s e) (\<lambda>m'. ext_copied m m' d x s (e - d))"
  using assms
proof (induction m d x s e rule: wildCopy32_from.induct)
  case (1 m d x s e)
  show ?case
  proof (subst wildCopy32_from.simps, unfold wp_bind, rule wp_memcpy_from)
    fix m1 assume m1: "memcpy_from m d x s 16 = Some m1" and c1: "ext_copied m m1 d x s 16"
    then have l1: "length m1 = length m" by (simp add: ext_copied_def frame_below_def)
    show "wp (memcpy_from m1 (d + 16) x (s + 16) 16) (\<lambda>a. wp (if d + 32 < e then wildCopy32_from a (d + 32) x (s + 32) e else Some a)
        (\<lambda>m'. ext_copied m m' d x s (e - d)))"
    proof (rule wp_memcpy_from)
      fix m2 assume m2: "memcpy_from m1 (d + 16) x (s + 16) 16 = Some m2" and c2: "ext_copied m1 m2 (d + 16) x (s + 16) 16"
      have c: "ext_copied m m2 d x s 32" using ext_copied_trans[OF c1 c2] "1.prems" by simp
      have l2: "length m2 = length m" using c by (simp add: ext_copied_def frame_below_def)
      show "wp (if d + 32 < e then wildCopy32_from m2 (d + 32) x (s + 32) e else Some m2)
        (\<lambda>m'. ext_copied m m' d x s (e - d))"
      proof (cases "d + 32 < e")
        case True
        then have "wp (wildCopy32_from m2 (d + 32) x (s + 32) e)
            (\<lambda>m'. ext_copied m2 m' (d + 32) x (s + 32) (e - (d + 32)))"
          using m1 m2 l2 "1.prems" by (intro "1.IH") auto
        then show ?thesis using True "1.prems" c
          by (auto elim!: wp_mono dest: ext_copied_trans)
      next
        case False
        with c show ?thesis by (auto simp: wp_simps intro: ext_copied_mono)
      qed
    qed (use "1.prems" l1 in auto)
  qed (use "1.prems" in auto)
qed

text \<open>A stored eight-byte pattern repeats with period 8.\<close>

lemma wp_fill8:
  assumes "length v = 8" "0 \<le> d" "d + 8 \<le> oend m" "e + 7 \<le> oend m"
  shows "wp (fill8 m d v e) (\<lambda>m'. frame_below m m' d
    \<and> (\<forall>k. 0 \<le> k \<and> k < max 8 (e - d) \<longrightarrow> at m' (d + k) = at v (k mod 8)))"
  using assms
proof (induction m d v e rule: fill8.induct)
  case (1 m d v e)
  define m1 where "m1 = upd m d v"
  have b: "in_buf m d (int (length v))" using "1.prems" by (simp add: in_buf_def)
  have w: "wrn m d v = Some m1" using b by (simp add: wrn_def m1_def)
  have f1: "frame_below m m1 d" using b by (simp add: m1_def frame_below_upd)
  have v1: "at m1 (d + k) = at v (k mod 8)" if "0 \<le> k" "k < 8" for k
    using that b "1.prems" by (simp add: m1_def at_upd)
  show ?case
  proof (cases "d + 8 < e")
    case True
    have "wp (fill8 m1 (d + 8) v e) (\<lambda>m'. frame_below m1 m' (d + 8)
      \<and> (\<forall>k. 0 \<le> k \<and> k < max 8 (e - (d + 8)) \<longrightarrow> at m' (d + 8 + k) = at v (k mod 8)))"
      using True w f1 "1.prems" by (intro "1.IH") (auto simp: frame_below_def)
    then have "wp (fill8 m1 (d + 8) v e) (\<lambda>m'. frame_below m m' d
      \<and> (\<forall>k. 0 \<le> k \<and> k < max 8 (e - d) \<longrightarrow> at m' (d + k) = at v (k mod 8)))"
    proof (rule wp_mono, elim conjE, intro conjI allI impI)
      fix m' k assume fr: "frame_below m1 m' (d + 8)"
        and h: "\<forall>k. 0 \<le> k \<and> k < max 8 (e - (d + 8)) \<longrightarrow> at m' (d + 8 + k) = at v (k mod 8)"
      show "frame_below m m' d" using frame_below_trans[OF f1 fr] by simp
      assume k: "0 \<le> k \<and> k < max 8 (e - d)"
      show "at m' (d + k) = at v (k mod 8)"
      proof (cases "k < 8")
        case True
        then show ?thesis using v1[of k] k fr "1.prems" by (simp add: frame_below_def)
      next
        case False
        then have "at m' (d + 8 + (k - 8)) = at v ((k - 8) mod 8)"
          using h[rule_format, of "k - 8"] k \<open>d + 8 < e\<close> by auto
        then show ?thesis by simp
      qed
    qed
    with True w show ?thesis by (subst fill8.simps) (simp add: wp_simps)
  next
    case False
    with w f1 v1 show ?thesis by (subst fill8.simps) (simp add: wp_simps)
  qed
qed

lemma pattern_match:
  assumes f: "frame_below m m' op" and v: "\<forall>k. 0 \<le> k \<and> k < n \<longrightarrow> at m' (op + k) = at v (k mod 8)"
    and p: "\<And>j. 0 \<le> j \<Longrightarrow> j < 8 \<Longrightarrow> at v j = at m (op - off + j mod off)"
    and "off = 1 \<or> off = 2 \<or> off = 4" "off \<le> op"
  shows "match_copied off m m' op n"
proof -
  have dvd: "off dvd 8" using assms(4) by auto
  have at: "at m' (op + k) = at m (op - off + k mod off)" if "0 \<le> k" "k < n" for k
    using v[rule_format, of k] p[of "k mod 8"] that dvd by (simp add: mod_mod_cancel)
  have "at m' (op + k) = at m' (op + k - off)" if "0 \<le> k" "k < n" for k
  proof (cases "k < off")
    case True
    then show ?thesis using at[OF that] f that assms(4,5)
      by (simp add: frame_below_def mod_pos_pos_trivial algebra_simps)
  next
    case False
    then have k': "0 \<le> k - off" "k - off < n" using that assms(4) by auto
    have "(k - off) mod off = k mod off" by (simp add: mod_diff_right_eq[symmetric])
    then have "at m' (op + (k - off)) = at m' (op + k)" using at[OF k'] at[OF that] by simp
    then show ?thesis by (simp add: algebra_simps)
  qed
  moreover have "off \<noteq> 0" using assms(4) by auto
  ultimately show ?thesis using f unfolding match_copied_def by presburger
qed

lemma memcpy_using_offset_ok:
  assumes "0 \<le> off" "off \<le> op" "4 \<le> len" "op + len < oend m - 64"
  shows "wp (LZ4_memcpy_using_offset m op (op - off) (op + len) off) (\<lambda>m'. match_copied off m m' op len)"
proof -
  have pat: "wp (fill8 m op v (op + len)) (\<lambda>m'. match_copied off m m' op len)"
    if "length v = 8" "\<And>j. 0 \<le> j \<Longrightarrow> j < 8 \<Longrightarrow> at v j = at m (op - off + j mod off)"
      "off = 1 \<or> off = 2 \<or> off = 4" for v
  proof (rule wp_mono[OF wp_fill8])
    fix m' assume "frame_below m m' op \<and> (\<forall>k. 0 \<le> k \<and> k < max 8 (op + len - op) \<longrightarrow> at m' (op + k) = at v (k mod 8))"
    then have "match_copied off m m' op (max 8 len)" using that assms by (intro pattern_match) auto
    then show "match_copied off m m' op len" by (rule match_copied_mono) simp
  qed (use that assms in auto)
  have j8: "j \<in> {0, 1, 2, 3, 4, 5, 6, 7}" if "0 \<le> j" "j < 8" for j :: int using that by auto
  consider "off = 1" | "off = 2" | "off = 4" | "off \<noteq> 1" "off \<noteq> 2" "off \<noteq> 4" by blast
  then show ?thesis
  proof cases
    case 1
    then have "wp (fill8 m op (replicate 8 (at m (op - 1))) (op + len)) (\<lambda>m'. match_copied off m m' op len)"
      by (intro pat) (auto simp: at_def nth_replicate nat_less_iff)
    with 1 assms show ?thesis by (simp add: LZ4_memcpy_using_offset_def wp_simps in_buf_def)
  next
    case 2
    define v where "v = seg m (op - 2) op"
    have vl: "length v = 2" using 2 assms by (simp add: v_def)
    then obtain a b where ab: "v = [a, b]" by (auto simp: length_Suc_conv numeral_2_eq_2)
    have "a = at m (op - 2)" "b = at m (op - 2 + 1)"
      using at_seg[of "op - 2" 0 op m] at_seg[of "op - 2" 1 op m] 2 assms
      by (simp_all add: v_def[symmetric] ab at_def)
    then have "wp (fill8 m op (v @ v @ v @ v) (op + len)) (\<lambda>m'. match_copied off m m' op len)"
      using 2 by (intro pat) (auto simp: ab at_def dest!: j8)
    with 2 assms show ?thesis by (simp add: LZ4_memcpy_using_offset_def wp_simps in_buf_def v_def)
  next
    case 3
    define v where "v = seg m (op - 4) op"
    have vl: "length v = 4" using 3 assms by (simp add: v_def)
    then obtain a b c d where ab: "v = [a, b, c, d]" by (auto simp: length_Suc_conv numeral_eq_Suc)
    have "a = at m (op - 4)" "b = at m (op - 4 + 1)" "c = at m (op - 4 + 2)" "d = at m (op - 4 + 3)"
      using at_seg[of "op - 4" 0 op m] at_seg[of "op - 4" 1 op m]
        at_seg[of "op - 4" 2 op m] at_seg[of "op - 4" 3 op m] 3 assms
      by (simp_all add: v_def[symmetric] ab at_def)
    then have "wp (fill8 m op (v @ v) (op + len)) (\<lambda>m'. match_copied off m m' op len)"
      using 3 by (intro pat) (auto simp: ab at_def dest!: j8)
    with 3 assms show ?thesis by (simp add: LZ4_memcpy_using_offset_def wp_simps in_buf_def v_def)
  next
    case 4
    have "wp (LZ4_memcpy_using_offset_base m op (op - off) (op + len) off) (\<lambda>m'. match_copied off m m' op len)"
      unfolding LZ4_memcpy_using_offset_base_def wp_simps
    proof (rule wp_mono[OF wp_copy_head8[OF assms(1,2)]])
      fix p assume "case p of (m1, match1) \<Rightarrow> head_done off m op m1 match1"
      then have hd: "head_done off m op (fst p) (snd p)" by (simp add: case_prod_beta)
      show "wp (wildCopy8 (fst p) (op + 8) (snd p) (op + len)) (\<lambda>m'. match_copied off m m' op len)"
      proof (rule wp_mono[OF wp_wildCopy8])
        fix m2 assume "lz_copied (fst p) m2 (op + 8) (snd p) (op + len - (op + 8))"
        then have "lz_copied (fst p) m2 (op + 8) (snd p) (max 0 (len - 8))" using lz_copied_max0 by simp
        from head_done_finish[OF hd this, of len m2] show "match_copied off m m2 op len"
          using assms by simp
      qed (use hd assms head_done_frame[OF hd] in \<open>auto simp: head_done_def\<close>)
    qed (use assms in auto)
    with 4 show ?thesis by (simp add: LZ4_memcpy_using_offset_def)
  qed
qed

text \<open>The last part of a fast round keeps the contract of the safe copies.\<close>

definition fast_post :: "decoder \<Rightarrow> int \<Rightarrow> int \<Rightarrow> int \<Rightarrow> int \<Rightarrow> bytes \<Rightarrow> fast_flow \<Rightarrow> bool" where
  "fast_post e off len ip op m r \<longleftrightarrow> (case r of
       Fast_continue ip' op' m' \<Rightarrow> match_post e off len ip op m (Continue ip' op' m')
     | Fast_exit f \<Rightarrow> match_post e off len ip op m f)"

lemma fast_post_stay: "match_post e off len ip op m f \<Longrightarrow> fast_post e off len ip op m (stay_fast f)"
  by (cases f) (simp_all add: fast_post_def stay_fast_def)

lemma fast_match_copy_ok:
  assumes wf: "dec_wf e base" and "base \<le> op" "0 \<le> off" "off \<le> 65535" "4 \<le> len" "op + len < oend m - 64"
  shows "wp (fast_match_copy e len off (op - off) ip op m) (fast_post e off len ip op m)"
proof (cases "checkOffset e \<and> op - off + dictSize e < lowPrefix e")
  case True
  then show ?thesis by (simp add: fast_match_copy_def wp_simps match_post_error fast_post_def)
next
  case False
  note reach = match_in_reach[OF wf assms(2-4) False]
  have op: "0 \<le> op" using wf assms(2) by (simp add: dec_wf_def)
  show ?thesis
  proof (cases "dict e = usingExtDict \<and> op - off < lowPrefix e")
    case True
    then have "wp (ext_dict_copy e len (op - off) ip op m) (match_post e off len ip op m)"
      using reach op assms by (intro ext_dict_copy_ok) auto
    then show ?thesis
      unfolding fast_match_copy_def if_not_P[OF False] if_P[OF True] wp_simps
      by (rule wp_mono) (rule fast_post_stay)
  next
    case nd: False
    then have o: "off \<le> op" using reach by auto
    have "wp (if off < 16 then LZ4_memcpy_using_offset m op (op - off) (op + len) off
          else wildCopy32 m op (op - off) (op + len)) (\<lambda>m'. match_copied off m m' op len)"
    proof (cases "off < 16")
      case True
      then show ?thesis using memcpy_using_offset_ok[of off op len m] o assms by simp
    next
      case False
      have "wp (wildCopy32 m op (op - off) (op + len)) (\<lambda>m'. match_copied off m m' op len)"
        by (rule wp_mono[OF wp_wildCopy32]) (use False o assms in \<open>auto simp: match_copied_lz\<close>)
      with False show ?thesis by simp
    qed
    then show ?thesis
      unfolding fast_match_copy_def if_not_P[OF False] if_not_P[OF nd] wp_bind
      by (rule wp_mono) (use o assms in \<open>auto simp: wp_simps fast_post_def intro!: match_post_Continue\<close>)
  qed
qed

text \<open>The 18-byte copy of both shortcuts, for a distance of at least eight.\<close>

lemma wp_copy18:
  assumes "8 \<le> off" "off \<le> op" "4 \<le> len" "len \<le> 18" "op + 18 \<le> oend m"
    and Q: "\<And>m'. match_copied off m m' op len \<Longrightarrow> Q m'"
  shows "wp (memcpy m op (op - off) 8) (\<lambda>m. wp (memcpy m (op + 8) (op - off + 8) 8)
     (\<lambda>m. wp (memcpy m (op + 16) (op - off + 16) 2) Q))"
proof (rule wp_memcpy)
  fix m1 assume c1: "lz_copied m m1 op (op - off) 8"
  then have l1: "length m1 = length m" by (simp add: lz_copied_def frame_below_def)
  show "wp (memcpy m1 (op + 8) (op - off + 8) 8)
     (\<lambda>m. wp (memcpy m (op + 16) (op - off + 16) 2) Q)"
  proof (rule wp_memcpy)
    fix m2 assume "lz_copied m1 m2 (op + 8) (op - off + 8) 8"
    from lz_copied_trans[OF c1 this] have c2: "lz_copied m m2 op (op - off) 16" using assms by simp
    then have l2: "length m2 = length m" by (simp add: lz_copied_def frame_below_def)
    show "wp (memcpy m2 (op + 16) (op - off + 16) 2) Q"
    proof (rule wp_memcpy)
      fix m3 assume "lz_copied m2 m3 (op + 16) (op - off + 16) 2"
      from lz_copied_trans[OF c2 this] have "lz_copied m m3 op (op - off) 18" using assms by simp
      then have "lz_copied m m3 op (op - off) len" using assms(4) by (rule lz_copied_mono)
      then show "Q m3" using assms(1) by (intro Q) (simp add: match_copied_lz)
    qed (use assms l2 in auto)
  qed (use assms l1 in auto)
qed (use assms in auto)

end
