(* ===== verification/LZ4_Decompress_Sound.thy ===== *)
theory LZ4_Decompress_Sound
  imports LZ4_Decompress_Copy
begin

text \<open>
  The contract of one round of the decoder, and of \<open>LZ4_decompress_generic\<close>: no access
  leaves a buffer for any input, only bytes from \<open>dst\<close> on are written, and a full decode
  that succeeds has read a block of the grammar of LZ4_Format and written its expansion.
\<close>

section \<open>Variable-length fields\<close>

lemma byte_255: "uint (b :: byte) = 255 \<longleftrightarrow> b = 255" "unat (b :: byte) = 255 \<longleftrightarrow> b = 255"
proof -
  show "uint b = 255 \<longleftrightarrow> b = 255" by (simp add: word_uint_eq_iff)
  show "unat b = 255 \<longleftrightarrow> b = 255" by (subst word_unat_eq_iff) simp
qed

lemma rvl_loop_ok:
  assumes "0 \<le> ip" "ip < int (length s)" "ilimit < int (length s)"
  shows "wp (rvl_loop s ip ilimit l) (\<lambda>(r, ip'). ip < ip' \<and> ip' \<le> int (length s)
    \<and> (\<forall>n. r = Some n \<longrightarrow> ip' \<le> ilimit \<and> l \<le> n \<and> seg s ip ip' = enc_ext (nat (n - l))))"
  using assms
proof (induction s ip ilimit l rule: rvl_loop.induct)
  case (1 s ip ilimit l)
  let ?b = "at s ip"
  have b: "ld s ip = Some ?b" using "1.prems" by (simp add: ld_def in_buf_def)
  have one: "seg s ip (ip + 1) = [?b]" using "1.prems" by (simp add: seg_one at_def)
  show ?case
  proof (cases "ip + 1 > ilimit \<or> ?b \<noteq> 255")
    case True
    have "?b \<noteq> 255 \<Longrightarrow> unat ?b < 255"
      using byte_bound(3)[of ?b] byte_255(2)[of ?b] by simp
    then have "?b \<noteq> 255 \<Longrightarrow> enc_ext (nat (uint ?b)) = [?b]"
      by (subst enc_ext.simps) simp
    with True b one "1.prems" show ?thesis
      by (subst rvl_loop.simps) (auto simp: wp_simps byte_bound)
  next
    case False
    then have "wp (rvl_loop s (ip + 1) ilimit (l + uint ?b)) (\<lambda>(r, ip'). ip + 1 < ip' \<and> ip' \<le> int (length s)
      \<and> (\<forall>n. r = Some n \<longrightarrow> ip' \<le> ilimit \<and> l + uint ?b \<le> n \<and> seg s (ip + 1) ip' = enc_ext (nat (n - (l + uint ?b)))))"
      using "1.prems" b by (intro "1.IH") auto
    then have "wp (rvl_loop s (ip + 1) ilimit (l + uint ?b)) (\<lambda>(r, ip'). ip < ip' \<and> ip' \<le> int (length s)
      \<and> (\<forall>n. r = Some n \<longrightarrow> ip' \<le> ilimit \<and> l \<le> n \<and> seg s ip ip' = enc_ext (nat (n - l))))"
    proof (rule wp_mono, clarsimp)
      fix ip' n assume h: "ip + 1 < ip'" "l + uint ?b \<le> n" "seg s (ip + 1) ip' = enc_ext (nat (n - (l + uint ?b)))"
      have u: "uint ?b = 255" using False by simp
      have "seg s ip ip' = ?b # enc_ext (nat (n - (l + 255)))"
        using seg_append[of ip "ip + 1" ip' s] one h u "1.prems" by simp
      moreover have "nat (n - l) - 255 = nat (n - (l + 255))" "\<not> nat (n - l) < 255"
        using h u by auto
      ultimately have "seg s ip ip' = enc_ext (nat (n - l))"
        using False by (subst enc_ext.simps) simp
      then show "l \<le> n \<and> seg s ip ip' = enc_ext (nat (n - l))" using h u by simp
    qed
    with False b show ?thesis by (subst rvl_loop.simps) simp
  qed
qed

lemma read_variable_length_ok:
  assumes "0 \<le> ip" "c \<or> ip < iend e" "ilimit < iend e" "ip \<le> iend e"
  shows "wp (read_variable_length (srcbuf e) ip ilimit c) (\<lambda>(r, ip'). ip \<le> ip'
    \<and> (\<forall>n. r = Some n \<longrightarrow> ip < ip' \<and> ip' \<le> ilimit \<and> 0 \<le> n \<and> seg (srcbuf e) ip ip' = enc_ext (nat n)))"
proof (cases "c \<and> ip \<ge> ilimit")
  case True
  then show ?thesis by (simp add: read_variable_length_def wp_simps)
next
  case False
  then have "wp (rvl_loop (srcbuf e) ip ilimit 0) (\<lambda>(r, ip'). ip < ip' \<and> ip' \<le> iend e
    \<and> (\<forall>n. r = Some n \<longrightarrow> ip' \<le> ilimit \<and> 0 \<le> n \<and> seg (srcbuf e) ip ip' = enc_ext (nat (n - 0))))"
    using assms by (intro rvl_loop_ok) auto
  then have "wp (rvl_loop (srcbuf e) ip ilimit 0) (\<lambda>(r, ip'). ip \<le> ip'
    \<and> (\<forall>n. r = Some n \<longrightarrow> ip < ip' \<and> ip' \<le> ilimit \<and> 0 \<le> n \<and> seg (srcbuf e) ip ip' = enc_ext (nat n)))"
    by (rule wp_mono) auto
  with False show ?thesis by (auto simp: read_variable_length_def)
qed

section \<open>A match\<close>

definition copy_round :: "decoder \<Rightarrow> int \<Rightarrow> int \<Rightarrow> int \<Rightarrow> int \<Rightarrow> bytes \<Rightarrow> flow \<Rightarrow> bool" where
  "copy_round e lo off ip op m f \<longleftrightarrow> frame_below m (flow_mem f) op \<and> (case f of
       Continue ip' op' m' \<Rightarrow> ip \<le> ip' \<and> ip' < iend e \<and> op \<le> op' \<and> op' \<le> oend m
         \<and> (\<not> partialDecoding e \<longrightarrow> off \<le> dictSize e + op
              \<and> (\<exists>n. 4 \<le> n \<and> min (n - 4) 15 = nat lo \<and> seg (srcbuf e) ip ip' = enc_len (n - 4)
                   \<and> hist e op' m' = lz_copy (nat off) n (hist e op m)))
     | Break ip' op' m' \<Rightarrow> partialDecoding e \<and> op \<le> op' \<and> op' \<le> oend m
     | Output_error ip' m' \<Rightarrow> ip \<le> ip')"

lemma copy_roundI:
  assumes "match_post e off (k + 4) ip' op m f" "ip \<le> ip'" "ip' < iend e" "0 \<le> k"
    and "seg (srcbuf e) ip ip' = enc_len (nat k)" "min (nat k) 15 = nat lo"
    and "\<And>ip'' op'' m''. f = Continue ip'' op'' m'' \<Longrightarrow> off \<le> dictSize e + op"
  shows "copy_round e lo off ip op m f"
proof -
  have "\<exists>n\<ge>4. min (n - 4) 15 = nat lo \<and> seg (srcbuf e) ip ip' = enc_len (n - 4)
      \<and> hist e (op + (k + 4)) m' = lz_copy (nat off) n (hist e op m)"
    if "hist e (op + (k + 4)) m' = lz_copy (nat off) (nat (k + 4)) (hist e op m)" for m'
  proof -
    have "nat (k + 4) - 4 = nat k" "4 \<le> nat (k + 4)" using assms(4) by linarith+
    then show ?thesis using that assms(5,6) by (intro exI[of _ "nat (k + 4)"]) simp
  qed
  then show ?thesis
    using assms by (auto simp: copy_round_def match_post_def split: flow.splits)
qed

lemma copy_round_error: "frame_below m m' op \<Longrightarrow> ip \<le> ip' \<Longrightarrow> copy_round e lo off ip op m (Output_error ip' m')"
  by (simp add: copy_round_def)

text \<open>A match that is copied has passed the offset check.\<close>

lemma safe_match_copy_checked:
  assumes "safe_match_copy e len off (op - off) ip op m = Some (Continue ip' op' m')"
    and "dec_wf e base" "base \<le> op" "0 \<le> off" "off \<le> 65535"
  shows "off \<le> dictSize e + op"
proof -
  have "\<not> (checkOffset e \<and> op - off + dictSize e < lowPrefix e)"
    using assms(1) by (auto simp: safe_match_copy_def)
  from match_in_reach(1)[OF assms(2-5) this] show ?thesis .
qed

lemma safe_match_copy_round:
  assumes wf: "dec_wf e base" and "base \<le> op" "0 \<le> off" "off \<le> 65535" "op \<le> oend m"
    and "\<not> partialDecoding e \<longrightarrow> op \<le> oend m - 12" "ip \<le> ip'" "ip' < iend e" "0 \<le> k"
    and "seg (srcbuf e) ip ip' = enc_len (nat k)" "min (nat k) 15 = nat lo"
  shows "wp (safe_match_copy e (k + 4) off (op - off) ip' op m) (copy_round e lo off ip op m)"
proof -
  have "wp (safe_match_copy e (k + 4) off (op - off) ip' op m) (match_post e off (k + 4) ip' op m)"
    using assms by (intro safe_match_copy_ok) auto
  then obtain f where f: "safe_match_copy e (k + 4) off (op - off) ip' op m = Some f"
    and p: "match_post e off (k + 4) ip' op m f" by (auto simp: wp_iff)
  have "copy_round e lo off ip op m f"
    using f wf assms(2-4) by (intro copy_roundI[OF p assms(7-11)]) (auto dest: safe_match_copy_checked)
  with f show ?thesis by (simp add: wp_simps)
qed

lemma enc_len_short: "0 \<le> lo \<Longrightarrow> lo < 15 \<Longrightarrow> enc_len (nat lo) = [] \<and> min (nat lo) 15 = nat lo"
  by (auto simp: enc_len_def)

lemma copy_match_ok:
  assumes wf: "dec_wf e base" and "base \<le> op" "0 \<le> off" "off \<le> 65535" "op \<le> oend m"
    and "\<not> partialDecoding e \<longrightarrow> op \<le> oend m - 12" "0 \<le> ip" "ip < iend e" "0 \<le> lo" "lo \<le> 15"
  shows "wp (copy_match e lo off (op - off) ip op m) (copy_round e lo off ip op m)"
proof (cases "lo = 15")
  case True
  have "wp (read_variable_length (srcbuf e) ip (iend e - 5 + 1) False) (\<lambda>(r, ip'). ip \<le> ip'
    \<and> (\<forall>n. r = Some n \<longrightarrow> ip < ip' \<and> ip' \<le> iend e - 5 + 1 \<and> 0 \<le> n \<and> seg (srcbuf e) ip ip' = enc_ext (nat n)))"
    using assms by (intro read_variable_length_ok) auto
  then obtain r ip' where r: "read_variable_length (srcbuf e) ip (iend e - 5 + 1) False = Some (r, ip')"
    and p: "ip \<le> ip'" "\<And>n. r = Some n \<Longrightarrow> ip < ip' \<and> ip' \<le> iend e - 5 + 1 \<and> 0 \<le> n
      \<and> seg (srcbuf e) ip ip' = enc_ext (nat n)"
    by (auto simp: wp_iff)
  show ?thesis
  proof (cases r)
    case None
    with True r p show ?thesis by (simp add: copy_match_def wp_simps copy_round_error)
  next
    case (Some n)
    have e: "seg (srcbuf e) ip ip' = enc_len (nat (15 + n))"
      using p(2)[OF Some] by (simp add: enc_len_def nat_add_distrib)
    have "wp (safe_match_copy e ((15 + n) + 4) off (op - off) ip' op m) (copy_round e lo off ip op m)"
      by (rule safe_match_copy_round[OF wf]) (use assms p Some True e in auto)
    with True r p Some show ?thesis
      by (simp add: copy_match_def wp_simps Let_def copy_round_error)
  qed
next
  case False
  have "wp (safe_match_copy e (lo + 4) off (op - off) ip op m) (copy_round e lo off ip op m)"
    by (rule safe_match_copy_round[OF wf]) (use assms False in \<open>auto simp: enc_len_def\<close>)
  with False show ?thesis by (simp add: copy_match_def)
qed

section \<open>A sequence\<close>

definition off_at :: "decoder \<Rightarrow> int \<Rightarrow> int" where
  "off_at e ip = uint (load_le16 (at (srcbuf e) ip) (at (srcbuf e) (ip + 1)))"

lemma off_at_bounds: "0 \<le> off_at e ip" "off_at e ip \<le> 65535"
  using byte_bound[of "at (srcbuf e) ip"] byte_bound[of "at (srcbuf e) (ip + 1)"]
  by (simp_all add: off_at_def uint_load_le16)

lemma wp_readLE16: "wp (LZ4_readLE16 (srcbuf e) ip) Q \<longleftrightarrow> 0 \<le> ip \<and> ip + 2 \<le> iend e \<and> Q (off_at e ip)"
  by (auto simp: LZ4_readLE16_def wp_simps in_buf_def off_at_def)

lemma off_at_bytes:
  assumes "0 \<le> ip" "ip + 2 \<le> iend e"
  shows "seg (srcbuf e) ip (ip + 2) =
    [of_nat (nat (off_at e ip) mod 256), of_nat (nat (off_at e ip) div 256)]"
proof -
  define a b where "a = at (srcbuf e) ip" and "b = at (srcbuf e) (ip + 1)"
  have "seg (srcbuf e) ip (ip + 2) = seg (srcbuf e) ip (ip + 1) @ seg (srcbuf e) (ip + 1) (ip + 1 + 1)"
    using seg_append[of ip "ip + 1" "ip + 2" "srcbuf e"] assms by (simp add: add.commute)
  also have "\<dots> = [a, b]"
    using seg_one[of ip "srcbuf e"] seg_one[of "ip + 1" "srcbuf e"] assms by (simp add: a_def b_def at_def)
  finally have s: "seg (srcbuf e) ip (ip + 2) = [a, b]" .
  have "nat (off_at e ip) = unat a + 256 * unat b"
    unfolding off_at_def uint_load_le16 a_def[symmetric] b_def[symmetric]
    by (simp add: nat_add_distrib nat_mult_distrib)
  then have "nat (off_at e ip) mod 256 = unat a" "nat (off_at e ip) div 256 = unat b"
    using byte_bound(3)[of a] byte_bound(3)[of b] by simp_all
  with s show ?thesis by simp
qed

lemma get_offset_ok:
  assumes "dec_wf e base" "base \<le> op" "op \<le> oend m"
    and "\<not> partialDecoding e \<longrightarrow> op \<le> oend m - 12" "0 \<le> ip" "ip + 2 < iend e"
  shows "wp (get_offset e token ip op m) (copy_round e (uint (token AND 15)) (off_at e ip) (ip + 2) op m)"
  unfolding get_offset_def wp_bind wp_readLE16
  using assms off_at_bounds[of e ip] byte_bound[of token]
  by (auto simp: uint_low_nibble intro!: copy_match_ok)

text \<open>The literal part of a sequence: from the token at \<open>ip\<close> to the first literal at \<open>ip1\<close>.\<close>

definition lits_at :: "decoder \<Rightarrow> int \<Rightarrow> int \<Rightarrow> int \<Rightarrow> bool" where
  "lits_at e ip len ip1 \<longleftrightarrow> 0 \<le> ip \<and> ip < iend e \<and> ip < ip1 \<and> ip1 \<le> iend e \<and> 0 \<le> len
     \<and> seg (srcbuf e) (ip + 1) ip1 = enc_len (nat len)
     \<and> min (nat len) 15 = unat (at (srcbuf e) ip) div 16"

lemma token_byteI:
  "min a 15 = unat (tok :: byte) div 16 \<Longrightarrow> min b 15 = unat tok mod 16 \<Longrightarrow> token_byte a b = tok"
  by (simp add: token_byte_def)

lemma lits_at_bytes:
  assumes "lits_at e ip len ip1" "ip1 + len \<le> j" "j \<le> iend e"
  shows "seg (srcbuf e) ip j = at (srcbuf e) ip # enc_len (nat len)
     @ seg (srcbuf e) ip1 (ip1 + len) @ seg (srcbuf e) (ip1 + len) j"
proof -
  have "seg (srcbuf e) ip j = seg (srcbuf e) ip (ip + 1) @ seg (srcbuf e) (ip + 1) j"
    using assms by (intro seg_append) (auto simp: lits_at_def)
  also have "seg (srcbuf e) (ip + 1) j = seg (srcbuf e) (ip + 1) ip1 @ seg (srcbuf e) ip1 j"
    using assms by (intro seg_append) (auto simp: lits_at_def)
  also have "seg (srcbuf e) ip1 j = seg (srcbuf e) ip1 (ip1 + len) @ seg (srcbuf e) (ip1 + len) j"
    using assms by (intro seg_append) (auto simp: lits_at_def)
  finally show ?thesis using assms by (simp add: lits_at_def seg_one at_def)
qed

text \<open>What a round of either loop does.\<close>

definition seq_round :: "decoder \<Rightarrow> int \<Rightarrow> int \<Rightarrow> bytes \<Rightarrow> flow \<Rightarrow> bool" where
  "seq_round e ip op m f \<longleftrightarrow> frame_below m (flow_mem f) op \<and> (case f of
       Continue ip' op' m' \<Rightarrow> ip < ip' \<and> ip' < iend e \<and> op \<le> op' \<and> op' \<le> oend m
         \<and> (\<not> partialDecoding e \<longrightarrow> (\<exists>s. seq_ok (hist e op m) s \<and> seg (srcbuf e) ip ip' = enc_seq s
              \<and> hist e op' m' = expand1 (hist e op m) s))
     | Break ip' op' m' \<Rightarrow> op \<le> op' \<and> op' \<le> oend m
         \<and> (\<not> partialDecoding e \<longrightarrow> (\<exists>t l. t \<le> 15 \<and> seg (srcbuf e) ip (iend e) = enc_last t l
              \<and> hist e op' m' = hist e op m @ l))
     | Output_error ip' m' \<Rightarrow> ip \<le> ip')"

lemma seq_round_copy:
  assumes l: "lits_at e ip len ip1" and j: "ip1 + len + 2 \<le> iend e" and op: "0 \<le> op" "op + len \<le> oend m"
    and f1: "frame_below m m1 op"
    and h: "hist e (op + len) m1 = hist e op m @ seg (srcbuf e) ip1 (ip1 + len)"
    and c: "copy_round e (uint (at (srcbuf e) ip AND 15)) (off_at e (ip1 + len)) (ip1 + len + 2) (op + len) m1 f"
  shows "seq_round e ip op m f"
proof -
  let ?off = "off_at e (ip1 + len)" and ?lits = "seg (srcbuf e) ip1 (ip1 + len)" and ?tok = "at (srcbuf e) ip"
  have len: "0 \<le> len" "0 \<le> ip1" "ip < ip1" using l by (auto simp: lits_at_def)
  have ll: "length ?lits = nat len" using len j by simp
  have fr: "frame_below m (flow_mem f) op"
    using frame_below_trans[OF f1, of "flow_mem f" "op + len"] c len by (simp add: copy_round_def)
  have lm: "length m1 = length m" using f1 by (rule frame_below_length)
  have "\<exists>s. seq_ok (hist e op m) s \<and> seg (srcbuf e) ip ip' = enc_seq s \<and> hist e op' m' = expand1 (hist e op m) s"
    if f: "f = Continue ip' op' m'" and np: "\<not> partialDecoding e" for ip' op' m'
  proof -
    obtain n where n: "4 \<le> n" "min (n - 4) 15 = nat (uint (?tok AND 15))"
      "seg (srcbuf e) (ip1 + len + 2) ip' = enc_len (n - 4)"
      "hist e op' m' = lz_copy (nat ?off) n (hist e (op + len) m1)"
      and o: "?off \<le> dictSize e + (op + len)" and ip': "ip1 + len + 2 \<le> ip'" "ip' < iend e"
      using c f np by (auto simp: copy_round_def)
    have ob: "seg (srcbuf e) (ip1 + len) ip' =
        [of_nat (nat ?off mod 256), of_nat (nat ?off div 256)] @ enc_len (n - 4)"
      using seg_append[of "ip1 + len" "ip1 + len + 2" ip' "srcbuf e"] ip' len n(3)
        off_at_bytes[of "ip1 + len" e] j by simp
    have tok: "token_byte (length ?lits) (n - 4) = ?tok"
    proof (rule token_byteI)
      show "min (length ?lits) 15 = unat ?tok div 16" using l ll by (simp add: lits_at_def)
      show "min (n - 4) 15 = unat ?tok mod 16"
        using n(2) by (simp add: uint_low_nibble nat_mod_distrib)
    qed
    have "seg (srcbuf e) ip ip' = enc_seq (Seq ?lits (nat ?off) n)"
      using lits_at_bytes[OF l, of ip'] ip' ob tok ll by simp
    moreover have "seq_ok (hist e op m) (Seq ?lits (nat ?off) n)"
      using n(1) o off_at_bounds[of e "ip1 + len"] len ll length_hist[of op m e] op
      by (simp add: seq_ok_def nat_le_iff)
    ultimately show ?thesis using n(4) h by (intro exI[of _ "Seq ?lits (nat ?off) n"]) simp
  qed
  then show ?thesis
    using c fr len lm by (cases f) (auto simp: seq_round_def copy_round_def)
qed

lemma lits_hist:
  assumes c: "ext_copied m m1 op (srcbuf e) ip1 n" and "len \<le> n" "0 \<le> len" "0 \<le> op" "0 \<le> ip1"
    and "op + len \<le> oend m" "ip1 + len \<le> iend e"
  shows "hist e (op + len) m1 = hist e op m @ seg (srcbuf e) ip1 (ip1 + len)"
proof (rule nth_equalityI)
  have f: "frame_below m m1 op" using c by (simp add: ext_copied_def)
  then have l: "length m1 = length m" by (rule frame_below_length)
  have lh: "int (length (hist e op m)) = dictSize e + op"
    and lh': "int (length (hist e (op + len) m1)) = dictSize e + (op + len)"
    using assms l by (simp_all add: length_hist)
  have ls: "length (seg (srcbuf e) ip1 (ip1 + len)) = nat len" using assms by simp
  show "length (hist e (op + len) m1) = length (hist e op m @ seg (srcbuf e) ip1 (ip1 + len))"
    using lh lh' ls assms(3) by simp
  fix i assume i: "i < length (hist e (op + len) m1)"
  show "hist e (op + len) m1 ! i = (hist e op m @ seg (srcbuf e) ip1 (ip1 + len)) ! i"
  proof (cases "i < length (hist e op m)")
    case True
    then show ?thesis using hist_grow[OF f, of len e] assms
      by (metis (no_types, lifting) add_increasing2 nth_append nth_take order_trans le_add_same_cancel1)
  next
    case False
    define k where "k = int i - (dictSize e + op)"
    have k: "0 \<le> k" "k < len" "nat (dictSize e + (op + k)) = i" "- dictSize e \<le> op + k"
      "i - length (hist e op m) = nat k"
      using False i lh lh' assms(4) by (auto simp: k_def)
    have "hist e (op + len) m1 ! i = hat e m1 (op + k)"
      using nth_hist[of e "op + k" "op + len" m1] k assms(6) l by simp
    also have "\<dots> = at (srcbuf e) (ip1 + k)"
      using c k assms(2,4) by (simp add: ext_copied_def hat_def)
    also have "\<dots> = seg (srcbuf e) ip1 (ip1 + len) ! nat k"
      using k assms(5,7) by (simp add: nth_seg at_def nat_add_distrib)
    finally show ?thesis using False k by (simp add: nth_append)
  qed
qed

lemma seq_round_last:
  assumes l: "lits_at e ip len ip1" and "ip1 + len = iend e" "op + len \<le> oend m" "0 \<le> op"
    and c: "ext_copied m m1 op (srcbuf e) ip1 len"
  shows "seq_round e ip op m (Break (ip1 + len) (op + len) m1)"
proof -
  let ?lits = "seg (srcbuf e) ip1 (ip1 + len)" and ?tok = "at (srcbuf e) ip"
  have len: "0 \<le> len" "0 \<le> ip1" using l by (auto simp: lits_at_def)
  have ll: "length ?lits = nat len" using len assms(2) by simp
  have h: "hist e (op + len) m1 = hist e op m @ ?lits"
    using assms len by (intro lits_hist[OF c]) auto
  have "token_byte (length ?lits) (unat ?tok mod 16) = ?tok"
    using l ll by (intro token_byteI) (simp_all add: lits_at_def)
  then have "seg (srcbuf e) ip (iend e) = enc_last (unat ?tok mod 16) ?lits"
    using lits_at_bytes[OF l, of "iend e"] assms(2) ll by (simp add: enc_last_def)
  moreover have "unat ?tok mod 16 \<le> 15"
    using pos_mod_bound[of 16 "int (unat ?tok)"] by simp
  ultimately show ?thesis
    using h len assms(3) c unfolding seq_round_def ext_copied_def by auto
qed

lemma seq_round_get_offset:
  assumes wf: "dec_wf e base" "base \<le> op" and l: "lits_at e ip len ip1" and j: "ip1 + len + 2 < iend e"
    and op: "op + len \<le> oend m" "\<not> partialDecoding e \<longrightarrow> op + len \<le> oend m - 12"
    and c: "ext_copied m m1 op (srcbuf e) ip1 n" "len \<le> n"
  shows "wp (get_offset e (at (srcbuf e) ip) (ip1 + len) (op + len) m1) (seq_round e ip op m)"
proof -
  have len: "0 \<le> len" "0 \<le> ip1" "0 \<le> op" using l wf by (auto simp: lits_at_def dec_wf_def)
  have f1: "frame_below m m1 op" using c(1) by (simp add: ext_copied_def)
  have lm: "length m1 = length m" using f1 by (rule frame_below_length)
  have h: "hist e (op + len) m1 = hist e op m @ seg (srcbuf e) ip1 (ip1 + len)"
    using j op len c(2) by (intro lits_hist[OF c(1)]) auto
  show ?thesis
  proof (rule wp_mono[OF get_offset_ok[OF wf(1)]])
    fix f assume "copy_round e (uint (at (srcbuf e) ip AND 15)) (off_at e (ip1 + len)) (ip1 + len + 2) (op + len) m1 f"
    then show "seq_round e ip op m f"
      using j op len by (intro seq_round_copy[OF l _ _ _ f1 h]) auto
  qed (use wf j op len lm in auto)
qed

lemma safe_literal_copy_ok:
  assumes wf: "dec_wf e base" and op: "base \<le> op" "op \<le> oend m" and l: "lits_at e ip len ip1"
  shows "wp (safe_literal_copy e (at (srcbuf e) ip) len ip1 op m) (seq_round e ip op m)"
proof (cases "op + len > oend m - 12 \<or> ip1 + len > iend e - (2 + 1 + 5)")
  case near: True
  have b: "0 \<le> len" "0 \<le> ip1" "0 \<le> op" "ip1 \<le> iend e" "ip < ip1" using l wf op by (auto simp: lits_at_def dec_wf_def)
  show ?thesis
  proof (cases "partialDecoding e")
    case p: True
    define n1 where "n1 = (if ip1 + len > iend e then iend e - ip1 else len)"
    define n where "n = (if op + n1 > oend m then oend m - op else n1)"
    have n: "0 \<le> n" "ip1 + n \<le> iend e" "op + n \<le> oend m"
      and full: "op + n \<noteq> oend m \<Longrightarrow> ip1 + n < iend e - 2 \<Longrightarrow> n = len"
      using b op unfolding n_def n1_def by (auto split: if_splits)
    have "wp (memcpy_from m op (srcbuf e) ip1 n) (\<lambda>m1. wp (if op + n = oend m1 \<or> ip1 + n \<ge> iend e - 2
        then Some (Break (ip1 + n) (op + n) m1) else get_offset e (at (srcbuf e) ip) (ip1 + n) (op + n) m1)
        (seq_round e ip op m))"
    proof (rule wp_memcpy_from)
      fix m1 assume c: "ext_copied m m1 op (srcbuf e) ip1 n"
      then have lm: "length m1 = length m" by (simp add: ext_copied_def frame_below_def)
      show "wp (if op + n = oend m1 \<or> ip1 + n \<ge> iend e - 2
        then Some (Break (ip1 + n) (op + n) m1) else get_offset e (at (srcbuf e) ip) (ip1 + n) (op + n) m1)
        (seq_round e ip op m)"
      proof (cases "op + n = oend m \<or> ip1 + n \<ge> iend e - 2")
        case True
        then show ?thesis using c n p by (simp add: wp_simps seq_round_def ext_copied_def lm)
      next
        case False
        with full have "n = len" by auto
        with False c n p show ?thesis
          using seq_round_get_offset[OF wf op(1) l, of m m1 len] by (auto simp: lm)
      qed
    qed (use n b in auto)
    then show ?thesis
      using near p by (simp add: safe_literal_copy_def wp_simps n1_def[symmetric] n_def[symmetric] Let_def)
  next
    case np: False
    show ?thesis
    proof (cases "ip1 + len \<noteq> iend e \<or> op + len > oend m")
      case True
      with near np b show ?thesis by (auto simp: safe_literal_copy_def wp_simps seq_round_def)
    next
      case False
      then have "wp (memcpy_from m op (srcbuf e) ip1 len) (\<lambda>m1. seq_round e ip op m (Break (ip1 + len) (op + len) m1))"
        using b by (intro wp_memcpy_from seq_round_last[OF l]) auto
      with near np False show ?thesis by (simp add: safe_literal_copy_def wp_simps Let_def)
    qed
  qed
next
  case False
  have b: "0 \<le> len" "0 \<le> ip1" "0 \<le> op" using l wf op by (auto simp: lits_at_def dec_wf_def)
  have "wp (wildCopy8_from m op (srcbuf e) ip1 (op + len))
      (\<lambda>m1. wp (get_offset e (at (srcbuf e) ip) (ip1 + len) (op + len) m1) (seq_round e ip op m))"
  proof (rule wp_mono[OF wp_wildCopy8_from])
    fix m1 assume "ext_copied m m1 op (srcbuf e) ip1 (op + len - op)"
    then show "wp (get_offset e (at (srcbuf e) ip) (ip1 + len) (op + len) m1) (seq_round e ip op m)"
      using False by (intro seq_round_get_offset[OF wf op(1) l, where n = len]) auto
  qed (use False b in auto)
  with False show ?thesis unfolding safe_literal_copy_def Let_def if_not_P[OF False] wp_bind by simp
qed

lemma high_nibble_bounds: "0 \<le> uint (drop_bit 4 (b :: byte))" "uint (drop_bit 4 (b :: byte)) \<le> 15"
  using byte_bound[of b] by (auto simp: uint_high_nibble pos_imp_zdiv_nonneg_iff)

lemma lits_at_short:
  assumes "0 \<le> ip" "ip < iend e" "uint (drop_bit 4 (at (srcbuf e) ip)) \<noteq> 15"
  shows "lits_at e ip (uint (drop_bit 4 (at (srcbuf e) ip))) (ip + 1)"
proof -
  let ?t = "at (srcbuf e) ip"
  have n: "uint (drop_bit 4 ?t) = int (unat ?t div 16)" by (simp add: uint_high_nibble zdiv_int)
  moreover have "unat ?t div 16 \<noteq> 15" "unat ?t div 16 < 16"
    using assms(3) n byte_bound(3)[of ?t] by simp_all
  ultimately show ?thesis using assms by (simp add: lits_at_def enc_len_def)
qed

lemma literal_length_ok:
  assumes "0 \<le> ip" "ip < iend e" "uint (drop_bit 4 (at (srcbuf e) ip)) = 15"
  shows "wp (literal_length e 15 (ip + 1) op) (\<lambda>r. case r of Inl ip' \<Rightarrow> ip \<le> ip'
    | Inr (len, ip1) \<Rightarrow> lits_at e ip len ip1)"
proof -
  let ?t = "at (srcbuf e) ip"
  have n: "unat ?t div 16 = 15"
    using assms(3) nat_div_distrib[of "uint ?t" 16] by (simp add: uint_high_nibble)
  have "wp (read_variable_length (srcbuf e) (ip + 1) (iend e - 15) True) (\<lambda>(r, ip'). ip + 1 \<le> ip'
    \<and> (\<forall>n. r = Some n \<longrightarrow> ip + 1 < ip' \<and> ip' \<le> iend e - 15 \<and> 0 \<le> n \<and> seg (srcbuf e) (ip + 1) ip' = enc_ext (nat n)))"
    using assms by (intro read_variable_length_ok) auto
  then obtain r ip' where r: "read_variable_length (srcbuf e) (ip + 1) (iend e - 15) True = Some (r, ip')"
    and p: "ip + 1 \<le> ip'" "\<And>n. r = Some n \<Longrightarrow> ip + 1 < ip' \<and> ip' \<le> iend e - 15 \<and> 0 \<le> n
      \<and> seg (srcbuf e) (ip + 1) ip' = enc_ext (nat n)"
    by (auto simp: wp_iff)
  show ?thesis
  proof (cases r)
    case None
    with r p show ?thesis by (simp add: literal_length_def wp_simps)
  next
    case (Some k)
    note q = p(2)[OF Some]
    have "lits_at e ip (15 + k) ip'"
      using q assms n by (simp add: lits_at_def enc_len_def nat_add_distrib)
    with r Some p show ?thesis by (simp add: literal_length_def wp_simps Let_def)
  qed
qed

lemma shortcut_ok:
  assumes wf: "dec_wf e base" and op: "base \<le> op" "op \<le> oend m - 32" and l: "lits_at e ip len (ip + 1)"
    and ip: "ip + 1 < iend e - 16" "len \<le> 14"
  shows "wp (shortcut e (at (srcbuf e) ip) len (ip + 1) op m) (seq_round e ip op m)"
proof -
  let ?tok = "at (srcbuf e) ip"
  let ?lo = "uint (?tok AND 15)" and ?ip1 = "ip + 1 + len" and ?op = "op + len"
  let ?off = "off_at e ?ip1"
  have b: "0 \<le> op" "0 \<le> ip" "0 \<le> len" using wf op l by (auto simp: dec_wf_def lits_at_def)
  have lo: "0 \<le> ?lo" "?lo \<le> 15" using byte_bound[of ?tok] by (auto simp: uint_low_nibble)
  have lo_short: "enc_len (nat ?lo) = []" "min (nat ?lo) 15 = nat ?lo" if "?lo \<noteq> 15"
    using that lo enc_len_short[of ?lo] by simp_all
  show ?thesis
    unfolding shortcut_def wp_bind Let_def
  proof (rule wp_memcpy_from)
    fix m1 assume c: "ext_copied m m1 op (srcbuf e) (ip + 1) 16"
    then have f1: "frame_below m m1 op" and lm: "length m1 = length m" by (auto simp: ext_copied_def frame_below_def)
    have h: "hist e ?op m1 = hist e op m @ seg (srcbuf e) (ip + 1) ?ip1"
      using op ip b by (intro lits_hist[OF c]) auto
    have fin: "seq_round e ip op m f" if "copy_round e ?lo ?off (?ip1 + 2) ?op m1 f" for f
      using that ip op b by (intro seq_round_copy[OF l _ _ _ f1 h]) auto
    have "wp (if ?lo \<noteq> 15 \<and> ?off \<ge> 8 \<and> (dict e = withPrefix64k \<or> ?op - ?off \<ge> lowPrefix e)
        then do {
          m \<leftarrow> memcpy m1 ?op (?op - ?off) 8;
          m \<leftarrow> memcpy m (?op + 8) (?op - ?off + 8) 8;
          m \<leftarrow> memcpy m (?op + 16) (?op - ?off + 16) 2;
          Some (Continue (?ip1 + 2) (?op + ?lo + 4) m) }
        else copy_match e ?lo ?off (?op - ?off) (?ip1 + 2) ?op m1) (seq_round e ip op m)"
    proof (cases "?lo \<noteq> 15 \<and> ?off \<ge> 8 \<and> (dict e = withPrefix64k \<or> ?op - ?off \<ge> lowPrefix e)")
      case True
      then have o: "8 \<le> ?off" "?off \<le> ?op"
        using wf op(1) b off_at_bounds[of e ?ip1] by (auto simp: dec_wf_def)
      show ?thesis
        unfolding if_P[OF True] wp_bind wp_Some
      proof (rule wp_copy18[where off = ?off and len = "?lo + 4"])
        fix m2 assume mc: "match_copied ?off m1 m2 ?op (?lo + 4)"
        have "match_post e ?off (?lo + 4) (?ip1 + 2) ?op m1 (Continue (?ip1 + 2) (?op + (?lo + 4)) m2)"
          by (rule match_post_Continue[OF mc]) (use True o op ip lo lm in auto)
        then have "copy_round e ?lo ?off (?ip1 + 2) ?op m1 (Continue (?ip1 + 2) (?op + (?lo + 4)) m2)"
          by (rule copy_roundI) (use o op ip b lo lo_short[OF conjunct1[OF True]] in \<open>auto simp: dictSize_def\<close>)
        then show "seq_round e ip op m (Continue (?ip1 + 2) (?op + ?lo + 4) m2)"
          using fin by (simp add: add.assoc)
      qed (use True o op lo lm ip in auto)
    next
      case False
      show ?thesis unfolding if_not_P[OF False]
        by (rule wp_mono[OF copy_match_ok[OF wf]]) (use fin op ip b lo lm off_at_bounds[of e ?ip1] in auto)
    qed
    then show "wp (LZ4_readLE16 (srcbuf e) ?ip1) (\<lambda>offset. wp (if ?lo \<noteq> 15 \<and> offset \<ge> 8 \<and>
            (dict e = withPrefix64k \<or> ?op - offset \<ge> lowPrefix e)
        then do {
          m \<leftarrow> memcpy m1 ?op (?op - offset) 8;
          m \<leftarrow> memcpy m (?op + 8) (?op - offset + 8) 8;
          m \<leftarrow> memcpy m (?op + 16) (?op - offset + 16) 2;
          Some (Continue (?ip1 + 2) (?op + ?lo + 4) m) }
        else copy_match e ?lo offset (?op - offset) (?ip1 + 2) ?op m1) (seq_round e ip op m))"
      using ip b by (simp add: wp_readLE16)
  qed (use op ip b in auto)
qed

lemma safe_sequence_ok:
  assumes wf: "dec_wf e base" and op: "base \<le> op" "op \<le> oend m" and ip: "0 \<le> ip" "ip < iend e"
  shows "wp (safe_sequence e ip op m) (seq_round e ip op m)"
proof -
  let ?tok = "at (srcbuf e) ip"
  let ?hi = "uint (drop_bit 4 ?tok)"
  have t: "ld (srcbuf e) ip = Some ?tok" using ip by (simp add: ld_def in_buf_def)
  show ?thesis
  proof (cases "?hi = 15")
    case True
    from literal_length_ok[OF ip True, of op] obtain r where r: "literal_length e 15 (ip + 1) op = Some r"
      and p: "case r of Inl ip' \<Rightarrow> ip \<le> ip' | Inr (len, ip1) \<Rightarrow> lits_at e ip len ip1" by (auto simp: wp_iff)
    show ?thesis
    proof (cases r)
      case (Inl ip')
      with t True r p show ?thesis by (simp add: safe_sequence_def wp_simps seq_round_def)
    next
      case (Inr x)
      with t True r p show ?thesis
        by (cases x) (simp add: safe_sequence_def wp_simps safe_literal_copy_ok[OF wf op])
    qed
  next
    case False
    note l = lits_at_short[OF ip False]
    have "?hi \<le> 14" using False high_nibble_bounds[of ?tok] by simp
    with t False show ?thesis
      by (auto simp: safe_sequence_def Let_def
          intro!: safe_literal_copy_ok[OF wf op l] shortcut_ok[OF wf op(1) _ l])
  qed
qed

section \<open>The rounds of the fast loop\<close>

text \<open>A fast round that stays in the loop leaves at least 64 bytes of output.\<close>

definition fast_copy_round :: "decoder \<Rightarrow> int \<Rightarrow> int \<Rightarrow> int \<Rightarrow> int \<Rightarrow> bytes \<Rightarrow> fast_flow \<Rightarrow> bool" where
  "fast_copy_round e lo off ip op m r \<longleftrightarrow> (case r of
       Fast_continue ip' op' m' \<Rightarrow> op' \<le> oend m - 64 \<and> copy_round e lo off ip op m (Continue ip' op' m')
     | Fast_exit f \<Rightarrow> copy_round e lo off ip op m f)"

definition fast_round :: "decoder \<Rightarrow> int \<Rightarrow> int \<Rightarrow> bytes \<Rightarrow> fast_flow \<Rightarrow> bool" where
  "fast_round e ip op m r \<longleftrightarrow> (case r of
       Fast_continue ip' op' m' \<Rightarrow> op' \<le> oend m - 64 \<and> seq_round e ip op m (Continue ip' op' m')
     | Fast_exit f \<Rightarrow> seq_round e ip op m f)"

lemma fast_match_copy_checked:
  assumes "fast_match_copy e len off (op - off) ip op m = Some r" "\<forall>m'. r \<noteq> Fast_exit (Output_error ip m')"
    and "dec_wf e base" "base \<le> op" "0 \<le> off" "off \<le> 65535"
  shows "off \<le> dictSize e + op"
proof -
  have "\<not> (checkOffset e \<and> op - off + dictSize e < lowPrefix e)"
    using assms(1,2) by (auto simp: fast_match_copy_def)
  from match_in_reach(1)[OF assms(3-6) this] show ?thesis .
qed

lemma fast_match_copy_round:
  assumes wf: "dec_wf e base" and "base \<le> op" "0 \<le> off" "off \<le> 65535" "op + (k + 4) < oend m - 64"
    and "ip \<le> ip'" "ip' < iend e" "0 \<le> k"
    and "seg (srcbuf e) ip ip' = enc_len (nat k)" "min (nat k) 15 = nat lo"
  shows "wp (fast_match_copy e (k + 4) off (op - off) ip' op m) (fast_copy_round e lo off ip op m)"
proof -
  have "wp (fast_match_copy e (k + 4) off (op - off) ip' op m) (fast_post e off (k + 4) ip' op m)"
    by (rule fast_match_copy_ok[OF wf assms(2-4)]) (use assms in auto)
  then obtain r where r: "fast_match_copy e (k + 4) off (op - off) ip' op m = Some r"
    and p: "fast_post e off (k + 4) ip' op m r" by (auto simp: wp_iff)
  have o: "off \<le> dictSize e + op" if "\<forall>m'. r \<noteq> Fast_exit (Output_error ip' m')"
    by (rule fast_match_copy_checked[OF r that wf assms(2-4)])
  note I = copy_roundI[OF _ assms(6-10)]
  have "fast_copy_round e lo off ip op m r"
  proof (cases r)
    case (Fast_continue ip'' op'' m'')
    then have mp: "match_post e off (k + 4) ip' op m (Continue ip'' op'' m'')" using p by (simp add: fast_post_def)
    then have "op'' \<le> oend m - 64" using assms(5) by (simp add: match_post_def)
    moreover have "copy_round e lo off ip op m (Continue ip'' op'' m'')"
      using o Fast_continue by (intro I[OF mp]) auto
    ultimately show ?thesis using Fast_continue by (simp add: fast_copy_round_def)
  next
    case (Fast_exit f)
    then have mp: "match_post e off (k + 4) ip' op m f" using p by (simp add: fast_post_def)
    have "copy_round e lo off ip op m f"
      by (rule I[OF mp]) (use o Fast_exit in auto)
    then show ?thesis using Fast_exit by (simp add: fast_copy_round_def)
  qed
  with r show ?thesis by (simp add: wp_simps)
qed

lemma fast_tail:
  assumes wf: "dec_wf e base" and "base \<le> op" "0 \<le> off" "off \<le> 65535" "op \<le> oend m - 32"
    and "ip \<le> ip'" "ip' < iend e" "0 \<le> k"
    and "seg (srcbuf e) ip ip' = enc_len (nat k)" "min (nat k) 15 = nat lo"
  shows "wp (if op + (k + 4) \<ge> oend m - 64 then map_option Fast_exit (safe_match_copy e (k + 4) off (op - off) ip' op m)
      else fast_match_copy e (k + 4) off (op - off) ip' op m) (fast_copy_round e lo off ip op m)"
proof (cases "op + (k + 4) \<ge> oend m - 64")
  case True
  have "wp (safe_match_copy e (k + 4) off (op - off) ip' op m) (copy_round e lo off ip op m)"
    by (rule safe_match_copy_round[OF wf assms(2-4)]) (use assms in auto)
  with True show ?thesis by (auto simp: wp_simps fast_copy_round_def elim: wp_mono)
next
  case False
  then show ?thesis using fast_match_copy_round[OF wf assms(2-4) _ assms(6-10)] by simp
qed

lemma fast_match_ok:
  assumes wf: "dec_wf e base" and op: "base \<le> op" "op \<le> oend m - 32" and ip: "0 \<le> ip" "ip + 2 < iend e"
  shows "wp (fast_match e token ip op m) (fast_copy_round e (uint (token AND 15)) (off_at e ip) (ip + 2) op m)"
proof -
  let ?lo = "uint (token AND 15)" and ?off = "off_at e ip"
  let ?Q = "fast_copy_round e ?lo ?off (ip + 2) op m"
  note off = off_at_bounds[of e ip]
  have lo: "0 \<le> ?lo" "?lo \<le> 15" using byte_bound[of token] by (auto simp: uint_low_nibble)
  have rd: "LZ4_readLE16 (srcbuf e) ip = Some ?off"
    using wp_readLE16[of e ip "\<lambda>x. x = ?off"] ip by (auto simp: wp_iff)
  show ?thesis
  proof (cases "?lo = 15")
    case True
    have "wp (read_variable_length (srcbuf e) (ip + 2) (iend e - 5 + 1) False) (\<lambda>(r, ip'). ip + 2 \<le> ip'
      \<and> (\<forall>n. r = Some n \<longrightarrow> ip + 2 < ip' \<and> ip' \<le> iend e - 5 + 1 \<and> 0 \<le> n \<and> seg (srcbuf e) (ip + 2) ip' = enc_ext (nat n)))"
      using ip by (intro read_variable_length_ok) auto
    then obtain r ip' where r: "read_variable_length (srcbuf e) (ip + 2) (iend e - 5 + 1) False = Some (r, ip')"
      and p: "ip + 2 \<le> ip'" "\<And>n. r = Some n \<Longrightarrow> ip + 2 < ip' \<and> ip' \<le> iend e - 5 + 1 \<and> 0 \<le> n
        \<and> seg (srcbuf e) (ip + 2) ip' = enc_ext (nat n)"
      by (auto simp: wp_iff)
    have err: "wp (Some (Fast_exit (Output_error ip' m))) ?Q"
      using p by (simp add: wp_simps fast_copy_round_def copy_round_error)
    show ?thesis
    proof (cases r)
      case None
      with True rd r err show ?thesis by (simp add: fast_match_def)
    next
      case (Some n)
      have e: "seg (srcbuf e) (ip + 2) ip' = enc_len (nat (15 + n))"
        using p(2)[OF Some] by (simp add: enc_len_def nat_add_distrib)
      have "wp (if op + (15 + n + 4) \<ge> oend m - 64
          then map_option Fast_exit (safe_match_copy e (15 + n + 4) ?off (op - ?off) ip' op m)
          else fast_match_copy e (15 + n + 4) ?off (op - ?off) ip' op m) ?Q"
        by (rule fast_tail[OF wf op(1) off op(2)]) (use p Some True e in auto)
      moreover have "15 + n + 4 = 19 + n" by simp
      ultimately show ?thesis using True rd r Some err by (auto simp: fast_match_def Let_def)
    qed
  next
    case False
    note short = enc_len_short[of ?lo]
    have tail: "wp (if op + (?lo + 4) \<ge> oend m - 64
          then map_option Fast_exit (safe_match_copy e (?lo + 4) ?off (op - ?off) (ip + 2) op m)
          else fast_match_copy e (?lo + 4) ?off (op - ?off) (ip + 2) op m) ?Q"
      by (rule fast_tail[OF wf op(1) off op(2)]) (use ip lo False short in auto)
    show ?thesis
    proof (cases "op + (?lo + 4) < oend m - 64 \<and> (dict e = withPrefix64k \<or> op - ?off \<ge> lowPrefix e) \<and> ?off \<ge> 8")
      case True
      then have o: "8 \<le> ?off" "?off \<le> op"
        using wf op(1) off by (auto simp: dec_wf_def)
      have "wp (memcpy m op (op - ?off) 8) (\<lambda>m. wp (memcpy m (op + 8) (op - ?off + 8) 8)
        (\<lambda>m. wp (memcpy m (op + 16) (op - ?off + 16) 2)
        (\<lambda>m. wp (Some (Fast_continue (ip + 2) (op + (?lo + 4)) m)) ?Q)))"
      proof (rule wp_copy18[where len = "?lo + 4"])
        fix m2 assume mc: "match_copied ?off m m2 op (?lo + 4)"
        have "match_post e ?off (?lo + 4) (ip + 2) op m (Continue (ip + 2) (op + (?lo + 4)) m2)"
          by (rule match_post_Continue[OF mc]) (use True o op lo in auto)
        then have "copy_round e ?lo ?off (ip + 2) op m (Continue (ip + 2) (op + (?lo + 4)) m2)"
          by (rule copy_roundI) (use o op ip lo False short in \<open>auto simp: dictSize_def\<close>)
        then show "wp (Some (Fast_continue (ip + 2) (op + (?lo + 4)) m2)) ?Q"
          using True by (simp add: wp_simps fast_copy_round_def)
      qed (use o op lo False in auto)
      with True False rd show ?thesis by (simp add: fast_match_def Let_def wp_bind)
    next
      case nf: False
      with False rd tail show ?thesis by (auto simp: fast_match_def Let_def)
    qed
  qed
qed

lemma fast_round_match:
  assumes wf: "dec_wf e base" "base \<le> op" and l: "lits_at e ip len ip1" and j: "ip1 + len + 2 < iend e"
    and op: "op + len \<le> oend m - 32"
    and c: "ext_copied m m1 op (srcbuf e) ip1 n" "len \<le> n"
  shows "wp (fast_match e (at (srcbuf e) ip) (ip1 + len) (op + len) m1) (fast_round e ip op m)"
proof -
  have len: "0 \<le> len" "0 \<le> ip1" "0 \<le> op" using l wf by (auto simp: lits_at_def dec_wf_def)
  have f1: "frame_below m m1 op" using c(1) by (simp add: ext_copied_def)
  have lm: "length m1 = length m" using f1 by (rule frame_below_length)
  have h: "hist e (op + len) m1 = hist e op m @ seg (srcbuf e) ip1 (ip1 + len)"
    using j op len c(2) by (intro lits_hist[OF c(1)]) auto
  show ?thesis
  proof (rule wp_mono[OF fast_match_ok[OF wf(1)]])
    fix r assume "fast_copy_round e (uint (at (srcbuf e) ip AND 15)) (off_at e (ip1 + len)) (ip1 + len + 2) (op + len) m1 r"
    then show "fast_round e ip op m r"
      using j op len lm seq_round_copy[OF l _ len(3) _ f1 h]
      by (cases r) (auto simp: fast_copy_round_def fast_round_def)
  qed (use wf j op len lm in auto)
qed

lemma fast_sequence_ok:
  assumes wf: "dec_wf e base" and op: "base \<le> op" "op \<le> oend m - 64" and ip: "0 \<le> ip" "ip < iend e"
  shows "wp (fast_sequence e ip op m) (fast_round e ip op m)"
proof -
  let ?tok = "at (srcbuf e) ip"
  let ?hi = "uint (drop_bit 4 ?tok)"
  have t: "ld (srcbuf e) ip = Some ?tok" using ip by (simp add: ld_def in_buf_def)
  have op0: "0 \<le> op" using wf op by (simp add: dec_wf_def)
  have exit: "wp (map_option Fast_exit (safe_literal_copy e ?tok len ip1 op m)) (fast_round e ip op m)"
    if "lits_at e ip len ip1" for len ip1
    using safe_literal_copy_ok[OF wf op(1) _ that, of m] op by (auto simp: wp_simps fast_round_def elim: wp_mono)
  show ?thesis
  proof (cases "?hi = 15")
    case True
    from literal_length_ok[OF ip True, of op] obtain r where r: "literal_length e 15 (ip + 1) op = Some r"
      and p: "case r of Inl ip' \<Rightarrow> ip \<le> ip' | Inr (len, ip1) \<Rightarrow> lits_at e ip len ip1" by (auto simp: wp_iff)
    show ?thesis
    proof (cases r)
      case (Inl ip')
      with t True r p show ?thesis by (simp add: fast_sequence_def wp_simps fast_round_def seq_round_def)
    next
      case (Inr x)
      obtain len ip1 where x: "x = (len, ip1)" by (cases x)
      then have l: "lits_at e ip len ip1" using p Inr by simp
      have "wp (wildCopy32_from m op (srcbuf e) ip1 (op + len))
          (\<lambda>m1. wp (fast_match e ?tok (ip1 + len) (op + len) m1) (fast_round e ip op m))"
        if "op + len \<le> oend m - 32" "ip1 + len \<le> iend e - 32"
      proof (rule wp_mono[OF wp_wildCopy32_from])
        fix m1 assume "ext_copied m m1 op (srcbuf e) ip1 (op + len - op)"
        then show "wp (fast_match e ?tok (ip1 + len) (op + len) m1) (fast_round e ip op m)"
          using that by (intro fast_round_match[OF wf op(1) l, where n = len]) auto
      qed (use that op op0 l in \<open>auto simp: lits_at_def\<close>)
      with t True r Inr x exit[OF l] show ?thesis
        by (auto simp: fast_sequence_def Let_def wp_bind)
    qed
  next
    case False
    note l = lits_at_short[OF ip False]
    have hi: "0 \<le> ?hi" "?hi \<le> 14" using False high_nibble_bounds[of ?tok] by auto
    have "wp (memcpy_from m op (srcbuf e) (ip + 1) 16)
        (\<lambda>m1. wp (fast_match e ?tok (ip + 1 + ?hi) (op + ?hi) m1) (fast_round e ip op m))"
      if "ip + 1 \<le> iend e - 17"
      by (rule wp_memcpy_from, goal_cases)
         (use that op op0 ip hi in \<open>auto intro!: fast_round_match[OF wf op(1) l, where n = 16]\<close>)
    with t False exit[OF l] show ?thesis
      by (auto simp: fast_sequence_def Let_def wp_bind)
  qed
qed

section \<open>The whole decoder\<close>

text \<open>What a run from \<open>ip\<close> on does: the sequences it read, and the last literals.\<close>

definition run_post :: "decoder \<Rightarrow> int \<Rightarrow> int \<Rightarrow> bytes \<Rightarrow> flow \<Rightarrow> bool" where
  "run_post e ip op m f \<longleftrightarrow> frame_below m (flow_mem f) op \<and> (case f of
       Continue ip' op' m' \<Rightarrow> False
     | Break ip' op' m' \<Rightarrow> op \<le> op' \<and> op' \<le> oend m
         \<and> (\<not> partialDecoding e \<longrightarrow> (\<exists>ss t l. t \<le> 15 \<and> seqs_ok (hist e op m) ss
              \<and> seg (srcbuf e) ip (iend e) = enc_block ss t l
              \<and> hist e op' m' = expand (hist e op m) ss @ l))
     | Output_error ip' m' \<Rightarrow> ip \<le> ip')"

lemma run_post_stop: "seq_round e ip op m f \<Longrightarrow> \<forall>ip' op' m'. f \<noteq> Continue ip' op' m' \<Longrightarrow> run_post e ip op m f"
proof (cases f)
  case (Break ip' op' m')
  have "\<exists>ss t l. t \<le> 15 \<and> seqs_ok (hist e op m) ss \<and> seg (srcbuf e) ip (iend e) = enc_block ss t l
      \<and> hist e op' m' = expand (hist e op m) ss @ l"
    if "t \<le> 15 \<and> seg (srcbuf e) ip (iend e) = enc_last t l \<and> hist e op' m' = hist e op m @ l" for t l
    using that by (intro exI[of _ "[]"] exI[of _ t] exI[of _ l]) (simp add: enc_block_def)
  moreover assume "seq_round e ip op m f"
  ultimately show ?thesis using Break by (auto simp: run_post_def seq_round_def)
qed (auto simp: run_post_def seq_round_def)

lemma run_post_step:
  assumes s: "seq_round e ip op m (Continue ip1 op1 m1)" and r: "run_post e ip1 op1 m1 f" and ip: "0 \<le> ip"
  shows "run_post e ip op m f"
proof -
  have b: "ip < ip1" "ip1 < iend e" "op \<le> op1" "op1 \<le> oend m" "frame_below m m1 op"
    using s by (auto simp: seq_round_def)
  then have lm: "length m1 = length m" by (simp add: frame_below_def)
  have fr: "frame_below m (flow_mem f) op"
    using r b frame_below_trans[OF b(5), of "flow_mem f" op1] by (simp add: run_post_def)
  have "\<exists>ss t l. t \<le> 15 \<and> seqs_ok (hist e op m) ss \<and> seg (srcbuf e) ip (iend e) = enc_block ss t l
      \<and> hist e op' m' = expand (hist e op m) ss @ l"
    if f: "f = Break ip' op' m'" and np: "\<not> partialDecoding e" for ip' op' m'
  proof -
    obtain q where q: "seq_ok (hist e op m) q" "seg (srcbuf e) ip ip1 = enc_seq q"
      "hist e op1 m1 = expand1 (hist e op m) q"
      using s np by (auto simp: seq_round_def)
    obtain ss t l where ss: "t \<le> 15" "seqs_ok (hist e op1 m1) ss"
      "seg (srcbuf e) ip1 (iend e) = enc_block ss t l" "hist e op' m' = expand (hist e op1 m1) ss @ l"
      using r f np by (auto simp: run_post_def)
    have "seg (srcbuf e) ip (iend e) = enc_block (q # ss) t l"
      using seg_append[of ip ip1 "iend e" "srcbuf e"] b ip q ss by (simp add: enc_block_def)
    then show ?thesis using q ss by (intro exI[of _ "q # ss"] exI[of _ t] exI[of _ l]) simp
  qed
  then show ?thesis using r fr b lm by (cases f) (auto simp: run_post_def)
qed

lemma safe_loop_ok:
  assumes "dec_wf e base" "base \<le> op" "op \<le> oend m" "0 \<le> ip" "ip < iend e"
  shows "wp (safe_loop e ip op m) (run_post e ip op m)"
  using assms
proof (induction e ip op m rule: safe_loop.induct)
  case (1 e ip op m)
  from safe_sequence_ok[OF "1.prems"] obtain f where f: "safe_sequence e ip op m = Some f"
    and s: "seq_round e ip op m f" by (auto simp: wp_iff)
  show ?case
  proof (cases f)
    case (Continue ip' op' m')
    then have "wp (safe_loop e ip' op' m') (run_post e ip' op' m')"
      using "1.prems" f s by (intro "1.IH") (auto simp: seq_round_def frame_below_def)
    then have "wp (safe_loop e ip' op' m') (run_post e ip op m)"
      by (rule wp_mono) (rule run_post_step[OF s[unfolded Continue] _ "1.prems"(4)])
    with f Continue show ?thesis by (subst safe_loop.simps) simp
  qed (use f run_post_stop[OF s] in \<open>subst safe_loop.simps, simp add: wp_Some\<close>)+
qed

lemma fast_loop_ok:
  assumes "dec_wf e base" "base \<le> op" "op \<le> oend m - 64" "0 \<le> ip" "ip < iend e"
  shows "wp (fast_loop e ip op m) (run_post e ip op m)"
  using assms
proof (induction e ip op m rule: fast_loop.induct)
  case (1 e ip op m)
  from fast_sequence_ok[OF "1.prems"] obtain r where r: "fast_sequence e ip op m = Some r"
    and s: "fast_round e ip op m r" by (auto simp: wp_iff)
  show ?case
  proof (cases r)
    case (Fast_continue ip' op' m')
    then have s': "seq_round e ip op m (Continue ip' op' m')" and o: "op' \<le> oend m - 64"
      using s by (auto simp: fast_round_def)
    have "wp (fast_loop e ip' op' m') (run_post e ip' op' m')"
      using "1.prems" r s' o Fast_continue by (intro "1.IH") (auto simp: seq_round_def frame_below_def)
    then have "wp (fast_loop e ip' op' m') (run_post e ip op m)"
      by (rule wp_mono) (rule run_post_step[OF s' _ "1.prems"(4)])
    with r Fast_continue show ?thesis by (subst fast_loop.simps) simp
  next
    case (Fast_exit f)
    then have s': "seq_round e ip op m f" using s by (simp add: fast_round_def)
    show ?thesis
    proof (cases f)
      case (Continue ip' op' m')
      then have "wp (safe_loop e ip' op' m') (run_post e ip' op' m')"
        using "1.prems" s' by (intro safe_loop_ok) (auto simp: seq_round_def frame_below_def)
      then have "wp (safe_loop e ip' op' m') (run_post e ip op m)"
        by (rule wp_mono) (rule run_post_step[OF s'[unfolded Continue] _ "1.prems"(4)])
      with r Fast_exit Continue show ?thesis by (subst fast_loop.simps) simp
    qed (use r Fast_exit run_post_stop[OF s'] in \<open>subst fast_loop.simps, simp add: wp_Some\<close>)+
  qed
qed

definition decode_post :: "decoder \<Rightarrow> int \<Rightarrow> bytes \<Rightarrow> int \<times> bytes \<Rightarrow> bool" where
  "decode_post e base m = (\<lambda>(n, m'). frame_below m m' base \<and> n \<le> max 0 (oend m - base)
     \<and> (0 \<le> n \<and> \<not> partialDecoding e \<longrightarrow> (\<exists>ss t l. t \<le> 15 \<and> seqs_ok (hist e base m) ss
          \<and> srcbuf e = enc_block ss t l \<and> hist e (base + n) m' = expand (hist e base m) ss @ l)))"

lemma token_0: "[0] = enc_block [] 0 []"
  by (simp add: enc_block_def enc_last_def token_byte_def enc_len_def)

lemma decode_post_fail: "n < 0 \<Longrightarrow> decode_post e base m (n, m)"
  by (simp add: decode_post_def)

lemma decompress_generic_empty:
  assumes "dec_wf e base" "oend m \<le> base"
  shows "wp (LZ4_decompress_generic e base m) (decode_post e base m)"
proof (cases "src_addr e = 0 \<or> oend m - base < 0")
  case True
  then show ?thesis by (simp add: LZ4_decompress_generic_def wp_Some decode_post_fail)
next
  case False
  then have b: "oend m - base = 0" using assms(2) by simp
  note unf = LZ4_decompress_generic_def Let_def if_not_P[OF False] if_P[OF b]
  show ?thesis
  proof (cases "partialDecoding e")
    case True
    then show ?thesis unfolding unf by (simp add: wp_Some decode_post_def)
  next
    case np: False
    show ?thesis
    proof (cases "srcbuf e = [0]")
      case True
      have "decode_post e base m (0, m)"
        unfolding decode_post_def prod.case
        by (intro conjI impI exI[of _ "[]"] exI[of _ "0::nat"]) (use True token_0 in auto)
      then show ?thesis using True np unfolding unf by (simp add: wp_Some wp_bind wp_ld in_buf_def at_def)
    next
      case False
      then have "\<not> (iend e = 1 \<and> at (srcbuf e) 0 = 0)" by (cases "srcbuf e") (auto simp: at_def)
      then show ?thesis using np unfolding unf
        by (auto simp: wp_Some wp_bind wp_ld in_buf_def decode_post_fail)
    qed
  qed
qed

lemma run_post_decode:
  assumes "run_post e 0 base m f" "base < oend m"
  shows "decode_post e base m (case f of Output_error ip m \<Rightarrow> (- ip - 1, m)
     | Break ip op m \<Rightarrow> (op - base, m) | Continue ip op m \<Rightarrow> (op - base, m))"
  using assms by (cases f) (auto simp: run_post_def decode_post_def seg_full)

lemma decompress_generic_ok:
  assumes wf: "dec_wf e base"
  shows "wp (LZ4_decompress_generic e base m) (decode_post e base m)"
proof (cases "oend m \<le> base")
  case True
  then show ?thesis using decompress_generic_empty[OF wf] by simp
next
  case False
  show ?thesis
  proof (cases "src_addr e = 0 \<or> iend e = 0")
    case True
    with False show ?thesis
      by (auto simp: LZ4_decompress_generic_def decode_post_def wp_Some Let_def)
  next
    case go: False
    have "wp (if fast_dec_loop e \<and> \<not> oend m - base < 64 then fast_loop e 0 base m else safe_loop e 0 base m)
        (run_post e 0 base m)"
      using False go wf by (auto intro!: fast_loop_ok safe_loop_ok)
    then obtain f where f: "(if fast_dec_loop e \<and> \<not> oend m - base < 64 then fast_loop e 0 base m
        else safe_loop e 0 base m) = Some f" and r: "run_post e 0 base m f" by (auto simp: wp_iff)
    have "LZ4_decompress_generic e base m = Some (case f of Output_error ip m \<Rightarrow> (- ip - 1, m)
       | Break ip op m \<Rightarrow> (op - base, m) | Continue ip op m \<Rightarrow> (op - base, m))"
      using False go f by (simp add: LZ4_decompress_generic_def Let_def)
    then show ?thesis using run_post_decode[OF r] False by (simp add: wp_Some)
  qed
qed

lemma LZ4_decompress_generic_sound_result:
  assumes "dec_wf e base" "\<not> partialDecoding e" "LZ4_decompress_generic e base m = Some (n, m')" "0 \<le> n"
  shows "\<exists>ss t l. t \<le> 15 \<and> seqs_ok (hist e base m) ss \<and> srcbuf e = enc_block ss t l
    \<and> hist e (base + n) m' = expand (hist e base m) ss @ l"
  using decompress_generic_ok[OF assms(1), of m] assms(2-4)
  by (auto simp: wp_iff decode_post_def)

section \<open>Properties\<close>

text \<open>C1. Memory safety of \<open>LZ4_decompress_generic\<close>: whatever bytes the input holds, in full and
  in partial mode, with and without the fast loop, prefix and dictionary, no access of the
  decoder leaves the input, the dictionary or the output region and no \<open>memcpy\<close> overlaps
  (the result is not \<open>None\<close>); nothing before \<open>dst\<close> changes; the value returned is at most
  \<open>outputSize\<close>.\<close>

theorem LZ4_decompress_generic_memory_safe:
  assumes "dec_wf e base"
  shows "\<exists>n m'. LZ4_decompress_generic e base m = Some (n, m') \<and> length m' = length m
    \<and> (\<forall>p. 0 \<le> p \<and> p < base \<longrightarrow> at m' p = at m p) \<and> n \<le> max 0 (oend m - base)"
  using decompress_generic_ok[OF assms, of m]
  by (auto simp: wp_iff decode_post_def frame_below_def)

text \<open>A decoder with nothing before \<open>dst\<close>, for the examples: \<open>demo_decoder fast src\<close>.\<close>

definition demo_decoder :: "bool \<Rightarrow> bytes \<Rightarrow> decoder" where
  "demo_decoder fast src = \<lparr>srcbuf = src, src_addr = 4096, dst_addr = 65536, partialDecoding = False,
     dict = noDict, lowPrefix = 0, dictbuf = [], fast_dec_loop = fast\<rparr>"

lemma demo_decoder_wf: "dec_wf (demo_decoder fast src) 0"
  by (simp add: dec_wf_def demo_decoder_def)

lemma LZ4_decompress_generic_memory_safe_witness:
  "\<exists>n m'. LZ4_decompress_generic (demo_decoder True [240, 255, 255, 1, 2, 3]) 0 (replicate 100 0) = Some (n, m')
    \<and> length m' = 100 \<and> n \<le> 100"
  using LZ4_decompress_generic_memory_safe[OF demo_decoder_wf, of True "[240, 255, 255, 1, 2, 3]" "replicate 100 0"]
  by auto

text \<open>C2. Soundness: a full decode that returns \<open>n \<ge> 0\<close> has read a block of the LZ4 format, with
  every match inside the history, and the history followed by the \<open>n\<close> bytes written is the
  expansion of that block after the history.\<close>

theorem LZ4_decompress_generic_sound:
  assumes "dec_wf e base" "\<not> partialDecoding e" "LZ4_decompress_generic e base m = Some (n, m')" "0 \<le> n"
  shows "\<exists>ss t l. t \<le> 15 \<and> seqs_ok (hist e base m) ss \<and> srcbuf e = enc_block ss t l
    \<and> hist e (base + n) m' = expand (hist e base m) ss @ l"
  by (rule LZ4_decompress_generic_sound_result[OF assms])

text \<open>The block \<open>0x10 0x61\<close> is a single literal.\<close>

lemma demo_decode: "LZ4_decompress_generic (demo_decoder False [16, 97]) 0 [0] = Some (1, [97])"
  by (simp add: LZ4_decompress_generic_def demo_decoder_def)
     (subst safe_loop.simps, simp add: safe_sequence_def ld_def in_buf_def at_def safe_literal_copy_def
       memcpy_from_def rdn_def wrn_def seg_def upd_def)

lemma LZ4_decompress_generic_sound_witness:
  "\<exists>ss t l. t \<le> 15 \<and> seqs_ok [] ss \<and> [16, 97] = enc_block ss t l \<and> [97] = expand [] ss @ l"
  using LZ4_decompress_generic_sound[OF demo_decoder_wf _ demo_decode]
  by (simp add: demo_decoder_def hist_def)

end
