(* ===== verification/LZ4_Decompress_Complete.thy ===== *)
theory LZ4_Decompress_Complete
  imports LZ4_Decompress_Sound
begin

text \<open>
  The decoder accepts every block that respects the end-of-block conditions of the format
  and fits the output: no branch to \<open>_output_error\<close> is taken. With the soundness of
  \<open>LZ4_decompress_generic\<close> and the unambiguity of the grammar this determines its result.
\<close>

section \<open>The copies keep the length of the memory\<close>

lemma wrn_length: "wrn m p bs = Some m' \<Longrightarrow> length m' = length m"
  by (auto simp: wrn_def split: if_splits)

lemma st_length: "st m p b = Some m' \<Longrightarrow> length m' = length m"
  by (auto simp: st_def split: if_splits)

lemma memcpy_length: "memcpy m d s n = Some m' \<Longrightarrow> length m' = length m"
  by (auto simp: memcpy_def in_buf_def split: if_splits)

lemma memcpy_from_length: "memcpy_from m d x s n = Some m' \<Longrightarrow> length m' = length m"
  by (auto simp: memcpy_from_def bind_Some dest: wrn_length)

lemma wildCopy8_from_length: "wildCopy8_from m d x s e = Some m' \<Longrightarrow> length m' = length m"
proof (induction m d x s e rule: wildCopy8_from.induct)
  case (1 m d x s e)
  then show ?case
    by (subst (asm) (2) wildCopy8_from.simps) (auto simp: bind_Some split: if_splits dest: memcpy_from_length)
qed

lemma wildCopy32_from_length: "wildCopy32_from m d x s e = Some m' \<Longrightarrow> length m' = length m"
proof (induction m d x s e rule: wildCopy32_from.induct)
  case (1 m d x s e)
  then show ?case
    by (subst (asm) (2) wildCopy32_from.simps)
       (auto simp: bind_Some split: if_splits dest: memcpy_from_length, (metis memcpy_from_length)+)
qed

lemma wildCopy8_length: "wildCopy8 m d s e = Some m' \<Longrightarrow> length m' = length m"
proof (induction m d s e rule: wildCopy8.induct)
  case (1 m d s e)
  then show ?case
    by (subst (asm) (2) wildCopy8.simps) (auto simp: bind_Some split: if_splits dest: memcpy_length)
qed

lemma copy_head8_length: "copy_head8 off match op m = Some (m', x) \<Longrightarrow> length m' = length m"
  by (auto simp: copy_head8_def bind_Some Let_def split: if_splits dest!: st_length wrn_length memcpy_length)

lemmas length_kept = memcpy_length memcpy_from_length wildCopy8_from_length wildCopy32_from_length
  wildCopy8_length copy_head8_length

section \<open>No error in the match copies\<close>

definition no_err :: "flow \<Rightarrow> bool" where
  "no_err f \<longleftrightarrow> (\<forall>ip m. f \<noteq> Output_error ip m)"

lemma no_err_simps [simp]:
  "no_err (Continue ip op m)" "no_err (Break ip op m)" "\<not> no_err (Output_error ip m)"
  by (simp_all add: no_err_def)

lemma ext_dict_copy_no_err:
  "ext_dict_copy e len match ip op m = Some f \<Longrightarrow> op + len \<le> oend m - 5 \<Longrightarrow> no_err f"
  by (auto simp: ext_dict_copy_def bind_Some Let_def split: if_splits)

lemma block_match_copy_no_err:
  assumes "block_match_copy len off match ip op m = Some f" "op + len \<le> oend m - 5"
  shows "no_err f"
  using assms by (auto simp: block_match_copy_def bind_Some Let_def split: if_splits prod.splits
      dest!: copy_head8_length)

lemma offset_accepted:
  assumes "dec_wf e base" "base \<le> op" "off \<le> 65535" "off \<le> dictSize e + op"
  shows "\<not> op - off + dictSize e < lowPrefix e"
  using assms dictSize_nonneg[of e] by (cases "dict e = withPrefix64k") (auto simp: dec_wf_def simp del: dictSize_nonneg)

lemma safe_match_copy_no_err:
  assumes "safe_match_copy e len off (op - off) ip op m = Some f" "\<not> partialDecoding e"
    and "dec_wf e base" "base \<le> op" "off \<le> 65535" "off \<le> dictSize e + op" "op + len \<le> oend m - 5"
  shows "no_err f"
  using assms(1,2,7) offset_accepted[OF assms(3-6)]
  by (auto simp: safe_match_copy_def split: if_splits dest: ext_dict_copy_no_err block_match_copy_no_err)

section \<open>Reading an encoded field\<close>

lemma seg_split:
  assumes "seg s i j = xs @ ys" "0 \<le> i" "i \<le> j" "j \<le> int (length s)"
  shows "seg s i (i + int (length xs)) = xs" "seg s (i + int (length xs)) j = ys"
    "i + int (length xs) \<le> j" "j = i + int (length xs) + int (length ys)"
proof -
  have l: "nat (j - i) = length xs + length ys" using assms length_seg[of i j s] by simp
  then show b: "i + int (length xs) \<le> j" and "j = i + int (length xs) + int (length ys)" using assms(3) by auto
  have "seg s i j = seg s i (i + int (length xs)) @ seg s (i + int (length xs)) j"
    using assms b by (intro seg_append) auto
  moreover have "length (seg s i (i + int (length xs))) = length xs" using assms b by simp
  ultimately show "seg s i (i + int (length xs)) = xs" "seg s (i + int (length xs)) j = ys"
    using assms(1) by auto
qed

lemma rvl_loop_enc:
  assumes "seg s ip j = enc_ext k" "0 \<le> ip" "ip \<le> j" "j \<le> ilimit" "j \<le> int (length s)"
  shows "rvl_loop s ip ilimit l = Some (Some (l + int k), j)"
  using assms
proof (induction k arbitrary: ip l rule: enc_ext.induct)
  case (1 k)
  have split1: "seg s ip j = [b] @ xs \<Longrightarrow> ld s ip = Some b \<and> seg s (ip + 1) j = xs \<and> j = ip + 1 + int (length xs)"
    for b xs
  proof -
    assume a: "seg s ip j = [b] @ xs"
    from seg_split[OF a "1.prems"(2,3,5)] have r: "seg s ip (ip + 1) = [b]" "seg s (ip + 1) j = xs"
      "j = ip + 1 + int (length xs)" by (auto simp: numeral_eq_Suc)
    moreover have "ip < int (length s)" using r "1.prems" by auto
    ultimately show ?thesis using seg_one[of ip s] "1.prems"(2)
      by (simp add: ld_def in_buf_def at_def)
  qed
  show ?case
  proof (cases "k < 255")
    case True
    then have "enc_ext k = [of_nat k]" by (subst enc_ext.simps) simp
    then have "ld s ip = Some (of_nat k) \<and> seg s (ip + 1) j = [] \<and> j = ip + 1"
      using split1[of "of_nat k" "[]"] "1.prems"(1) by auto
    moreover have "(of_nat k :: byte) \<noteq> 255" using of_nat_byte_inj[of k 255] True by simp
    ultimately show ?thesis using True "1.prems" uint_of_nat_byte[of k]
      by (subst rvl_loop.simps) simp
  next
    case False
    then have "enc_ext k = 255 # enc_ext (k - 255)" by (subst enc_ext.simps) simp
    then have h: "ld s ip = Some 255 \<and> seg s (ip + 1) j = enc_ext (k - 255)
        \<and> j = ip + 1 + int (length (enc_ext (k - 255)))"
      using split1[of 255 "enc_ext (k - 255)"] "1.prems"(1) by auto
    then have "ip + 1 \<le> j" "ip + 1 < j" by auto
    have "rvl_loop s (ip + 1) ilimit (l + 255) = Some (Some (l + 255 + int (k - 255)), j)"
      by (rule "1.IH"[OF False]) (use h \<open>ip + 1 \<le> j\<close> "1.prems" in auto)
    moreover have "ld s ip = Some 255" "\<not> ilimit < ip + 1" using h \<open>ip + 1 \<le> j\<close> "1.prems" by auto
    moreover have "l + 255 + int (k - 255) = l + int k" using False by simp
    ultimately show ?thesis by (subst rvl_loop.simps) simp
  qed
qed

lemma rvl_enc:
  assumes "seg (srcbuf e) ip j = enc_ext k" "0 \<le> ip" "ip \<le> j" "j \<le> ilimit" "j \<le> iend e"
  shows "read_variable_length (srcbuf e) ip ilimit c = Some (Some (int k), j)"
proof -
  have "ip < j" using assms(1,3) by (metis enc_ext_nonempty order_le_imp_less_or_eq seg_empty)
  then show ?thesis using rvl_loop_enc[OF assms] assms(4) by (simp add: read_variable_length_def)
qed

lemma off_at_enc:
  assumes "seg (srcbuf e) p (p + 2) = [of_nat (off mod 256), of_nat (off div 256)]"
    and "0 \<le> p" "p + 2 \<le> iend e" "off \<le> 65535"
  shows "off_at e p = int off"
proof -
  have "nat (off_at e p) \<le> 65535" using off_at_bounds[of e p] by simp
  then have "nat (off_at e p) = off"
    using off_at_bytes[OF assms(2,3)] assms(1,4) by (intro enc_off_inj) auto
  then show ?thesis using off_at_bounds(1)[of e p] by simp
qed

definition no_wrap :: "decoder \<Rightarrow> bytes \<Rightarrow> bool" where
  "no_wrap e m \<longleftrightarrow> 0 \<le> dst_addr e \<and> dst_addr e + oend m < 2 ^ 64 \<and> 0 < src_addr e \<and> src_addr e + iend e < 2 ^ 64"

lemma no_wrap_dst: "no_wrap e m \<Longrightarrow> 0 \<le> p \<Longrightarrow> 0 \<le> n \<Longrightarrow> p + n \<le> oend m \<Longrightarrow> \<not> ptr_wraps (dst_addr e) p n"
  by (simp add: no_wrap_def ptr_wraps_def mod_pos_pos_trivial)

lemma no_wrap_src: "no_wrap e m \<Longrightarrow> 0 \<le> p \<Longrightarrow> 0 \<le> n \<Longrightarrow> p + n \<le> iend e \<Longrightarrow> \<not> ptr_wraps (src_addr e) p n"
  by (simp add: no_wrap_def ptr_wraps_def mod_pos_pos_trivial)

lemma no_wrap_length: "length m' = length m \<Longrightarrow> no_wrap e m' = no_wrap e m"
  by (simp add: no_wrap_def)

section \<open>No error in a round that reads a sequence\<close>

text \<open>What stands at \<open>op\<close> when a match of \<open>n\<close> bytes at distance \<open>off\<close> may follow.\<close>

definition room :: "decoder \<Rightarrow> int \<Rightarrow> nat \<Rightarrow> nat \<Rightarrow> int \<Rightarrow> bytes \<Rightarrow> bool" where
  "room e base off n op m \<longleftrightarrow> \<not> partialDecoding e \<and> dec_wf e base \<and> base \<le> op \<and> no_wrap e m
     \<and> off \<le> 65535 \<and> int off \<le> dictSize e + op \<and> 4 \<le> n \<and> op + int n \<le> oend m - 5"

lemma room_length: "length m' = length m \<Longrightarrow> room e base off n op m \<Longrightarrow> room e base off n op m'"
  using no_wrap_length[of m' m e] by (simp add: room_def)

lemma room_safe_match_copy:
  "room e base off n op m \<Longrightarrow> safe_match_copy e (int n) (int off) (op - int off) ip op m = Some f \<Longrightarrow> no_err f"
  using safe_match_copy_no_err[of e "int n" "int off" op ip m f base] by (simp add: room_def)

lemma room_no_wrap: "room e base off n op m \<Longrightarrow> 0 \<le> k \<Longrightarrow> k \<le> int n + 5 \<Longrightarrow> \<not> ptr_wraps (dst_addr e) op k"
  by (rule no_wrap_dst[of _ m]) (auto simp: room_def dec_wf_def)

lemma copy_match_no_err:
  assumes r: "room e base off n op m" and f: "copy_match e lo (int off) (op - int off) ip op m = Some f"
    and lo: "lo = int (min (n - 4) 15)" and s: "seg (srcbuf e) ip j = enc_len (n - 4)"
    and ip: "0 \<le> ip" "ip \<le> j" "j \<le> iend e - 6"
  shows "no_err f"
proof (cases "n - 4 < 15")
  case True
  then have "lo \<noteq> 15" "lo + 4 = int n" using lo r by (auto simp: room_def)
  then show ?thesis using f room_safe_match_copy[OF r] by (simp add: copy_match_def)
next
  case False
  then have lo: "lo = 15" and s: "seg (srcbuf e) ip j = enc_ext (n - 19)"
    using lo s by (auto simp: enc_len_def)
  have rv: "read_variable_length (srcbuf e) ip (iend e - 5 + 1) False = Some (Some (int (n - 19)), j)"
    by (rule rvl_enc[OF s]) (use ip in auto)
  have "\<not> ptr_wraps (dst_addr e) op (15 + int (n - 19))"
    by (rule room_no_wrap[OF r]) (use False in auto)
  moreover have "15 + int (n - 19) + 4 = int n" using False by auto
  ultimately show ?thesis
    using f lo rv room_safe_match_copy[OF r, of j f] by (simp add: copy_match_def Let_def)
qed

text \<open>The bytes of a sequence from its offset on.\<close>

definition tail_at :: "decoder \<Rightarrow> nat \<Rightarrow> nat \<Rightarrow> int \<Rightarrow> int \<Rightarrow> byte \<Rightarrow> bool" where
  "tail_at e off n p j token \<longleftrightarrow> 0 \<le> p \<and> p + 2 \<le> j \<and> j \<le> iend e - 6 \<and> off_at e p = int off
     \<and> seg (srcbuf e) (p + 2) j = enc_len (n - 4) \<and> uint (token AND 15) = int (min (n - 4) 15)"

lemma tail_read: "tail_at e off n p j token \<Longrightarrow> LZ4_readLE16 (srcbuf e) p = Some (int off)"
  using wp_readLE16[of e p "\<lambda>x. x = int off"] by (auto simp: wp_iff tail_at_def)

lemma get_offset_no_err:
  assumes "room e base off n op m" "tail_at e off n p j token" "get_offset e token p op m = Some f"
  shows "no_err f"
  using assms(3) tail_read[OF assms(2)] assms(2)
  by (auto simp: get_offset_def tail_at_def dest: copy_match_no_err[OF assms(1)])

text \<open>The literal part of a sequence that is in the input.\<close>

definition head_at :: "decoder \<Rightarrow> int \<Rightarrow> int \<Rightarrow> int \<Rightarrow> bool" where
  "head_at e ip len ip1 \<longleftrightarrow> lits_at e ip len ip1 \<and> ip1 + len \<le> iend e"

lemma literal_length_enc:
  assumes h: "head_at e ip len ip1" and "uint (drop_bit 4 (at (srcbuf e) ip)) = 15"
    and w: "no_wrap e m" "0 \<le> op" "op + len \<le> oend m"
  shows "literal_length e 15 (ip + 1) op = Some (Inr (len, ip1))"
proof -
  have b: "0 \<le> ip" "ip < ip1" "ip1 + len \<le> iend e" "0 \<le> len" using h by (auto simp: head_at_def lits_at_def)
  have "unat (at (srcbuf e) ip) div 16 = 15"
    using assms(2) nat_div_distrib[of "uint (at (srcbuf e) ip)" 16] by (simp add: uint_high_nibble)
  then have l15: "15 \<le> nat len" using h by (simp add: head_at_def lits_at_def min_def split: if_splits)
  then have s: "seg (srcbuf e) (ip + 1) ip1 = enc_ext (nat len - 15)"
    using h by (simp add: head_at_def lits_at_def enc_len_def)
  have "read_variable_length (srcbuf e) (ip + 1) (iend e - 15) True = Some (Some (int (nat len - 15)), ip1)"
    by (rule rvl_enc[OF s]) (use b l15 in auto)
  moreover have "15 + int (nat len - 15) = len" using l15 by auto
  moreover have "\<not> ptr_wraps (dst_addr e) op len" "\<not> ptr_wraps (src_addr e) ip1 len"
    using no_wrap_dst[OF w(1)] no_wrap_src[OF w(1)] w b by auto
  ultimately show ?thesis by (simp add: literal_length_def Let_def)
qed

lemma head_at_short:
  assumes "head_at e ip len ip1" "uint (drop_bit 4 (at (srcbuf e) ip)) \<noteq> 15"
  shows "uint (drop_bit 4 (at (srcbuf e) ip)) = len" "ip1 = ip + 1" "len \<le> 14"
proof -
  let ?t = "at (srcbuf e) ip"
  have n: "uint (drop_bit 4 ?t) = int (unat ?t div 16)" by (simp add: uint_high_nibble zdiv_int)
  then have "nat len = unat ?t div 16" "nat len < 15"
    using assms by (auto simp: head_at_def lits_at_def min_def split: if_splits)
  moreover have "0 \<le> len" using assms(1) by (simp add: head_at_def lits_at_def)
  ultimately show u: "uint (drop_bit 4 ?t) = len" and "len \<le> 14" using n by linarith+
  have "seg (srcbuf e) (ip + 1) ip1 = []"
    using assms(1) \<open>nat len < 15\<close> by (simp add: head_at_def lits_at_def enc_len_def)
  then have "length (seg (srcbuf e) (ip + 1) ip1) = 0" by simp
  then show "ip1 = ip + 1" using assms(1) length_seg[of "ip + 1" ip1 "srcbuf e"]
    by (simp add: head_at_def lits_at_def)
qed

lemma safe_literal_copy_no_err:
  assumes "room e base off n (op + len) m" "tail_at e off n (ip1 + len) j token"
    and "safe_literal_copy e token len ip1 op m = Some f" "op + len \<le> oend m - 12"
  shows "no_err f"
  using assms(2-4)
  by (auto simp: safe_literal_copy_def bind_Some Let_def tail_at_def split: if_splits
      dest!: wildCopy8_from_length get_offset_no_err[OF room_length[OF _ assms(1)] assms(2)])

lemma safe_literal_copy_last_no_err:
  assumes "safe_literal_copy e token len ip1 op m = Some f" "\<not> partialDecoding e"
    and "ip1 + len = iend e" "op + len \<le> oend m"
  shows "no_err f"
  using assms by (auto simp: safe_literal_copy_def bind_Some Let_def split: if_splits)

lemma shortcut_no_err:
  assumes "room e base off n (op + len) m" "tail_at e off n (ip1 + len) j token"
    and "shortcut e token len ip1 op m = Some f"
  shows "no_err f"
proof -
  note rd = tail_read[OF assms(2)]
  have *: "no_err f" if "copy_match e (uint (token AND 15)) (int off) (op + len - int off) (ip1 + len + 2) (op + len) m1 = Some f"
    "length m1 = length m" for m1
    using assms(2) copy_match_no_err[OF room_length[OF that(2) assms(1)] that(1), where j = j] by (simp add: tail_at_def)
  show ?thesis using assms(3) rd
    by (auto simp: shortcut_def bind_Some Let_def split: if_splits dest: memcpy_from_length *)
qed

lemma room_offset: "room e base off n op m \<Longrightarrow> \<not> op - int off + dictSize e < lowPrefix e"
  using offset_accepted[of e base op "int off"] by (simp add: room_def)

lemma stay_fast_no_err: "no_err f' \<Longrightarrow> stay_fast f' = Fast_exit f \<Longrightarrow> no_err f"
  by (cases f') (auto simp: stay_fast_def)

lemma fast_match_copy_no_err:
  assumes r: "room e base off n op m"
    and f: "fast_match_copy e (int n) (int off) (op - int off) ip op m = Some (Fast_exit f)"
  shows "no_err f"
proof -
  have "op + int n \<le> oend m - 5" using r by (simp add: room_def)
  then show ?thesis
    using f room_offset[OF r] unfolding fast_match_copy_def
    by (auto simp: bind_Some split: if_splits dest!: stay_fast_no_err[OF ext_dict_copy_no_err])
qed

lemma fast_match_no_err:
  assumes r: "room e base off n op m" and t: "tail_at e off n p j token"
    and f: "fast_match e token p op m = Some (Fast_exit f)"
  shows "no_err f"
proof -
  note rd = tail_read[OF t]
  have n: "4 \<le> n" using r by (simp add: room_def)
  have fin: "no_err f" if "(if op + int n \<ge> oend m - 64
        then map_option Fast_exit (safe_match_copy e (int n) (int off) (op - int off) ip op m)
      else fast_match_copy e (int n) (int off) (op - int off) ip op m) = Some (Fast_exit f)" for ip
    using that room_safe_match_copy[OF r] fast_match_copy_no_err[OF r]
    by (auto split: if_splits)
  show ?thesis
  proof (cases "n - 4 < 15")
    case True
    then have lo: "uint (token AND 15) \<noteq> 15" "uint (token AND 15) + 4 = int n"
      using t n by (auto simp: tail_at_def)
    then show ?thesis using f rd fin[of "p + 2"]
      by (auto simp: fast_match_def Let_def bind_Some split: if_splits)
  next
    case False
    then have lo: "uint (token AND 15) = 15" and s: "seg (srcbuf e) (p + 2) j = enc_ext (n - 19)"
      using t by (auto simp: tail_at_def enc_len_def)
    have rv: "read_variable_length (srcbuf e) (p + 2) (iend e - 5 + 1) False = Some (Some (int (n - 19)), j)"
      by (rule rvl_enc[OF s]) (use t in \<open>auto simp: tail_at_def\<close>)
    have k: "15 + int (n - 19) + 4 = int n" using False by auto
    have "\<not> ptr_wraps (dst_addr e) op (int n)" by (rule room_no_wrap[OF r]) auto
    then show ?thesis using f rd lo rv k fin[of j] room_offset[OF r]
      by (auto simp: fast_match_def Let_def)
  qed
qed

section \<open>No error in a round\<close>

lemma safe_sequence_no_err:
  assumes h: "head_at e ip len ip1" and r: "room e base off n (op + len) m"
    and t: "tail_at e off n (ip1 + len) j (at (srcbuf e) ip)"
    and op: "0 \<le> op" "op + len \<le> oend m - 12" and f: "safe_sequence e ip op m = Some f"
  shows "no_err f"
proof -
  let ?tok = "at (srcbuf e) ip"
  have b: "0 \<le> ip" "ip < iend e" using h by (auto simp: head_at_def lits_at_def)
  have ld: "ld (srcbuf e) ip = Some ?tok" using b by (simp add: ld_def in_buf_def)
  have w: "no_wrap e m" using r by (simp add: room_def)
  show ?thesis
  proof (cases "uint (drop_bit 4 ?tok) = 15")
    case True
    have "literal_length e 15 (ip + 1) op = Some (Inr (len, ip1))"
      by (rule literal_length_enc[OF h True w op(1)]) (use op in simp)
    with f ld True show ?thesis
      using safe_literal_copy_no_err[OF r t _ op(2)] by (simp add: safe_sequence_def)
  next
    case False
    note s = head_at_short[OF h False]
    from f ld False s show ?thesis
      using safe_literal_copy_no_err[OF r t _ op(2)] shortcut_no_err[OF r t]
      by (auto simp: safe_sequence_def Let_def split: if_splits)
  qed
qed

lemma safe_sequence_last_no_err:
  assumes h: "head_at e ip len ip1" and "ip1 + len = iend e" "\<not> partialDecoding e" "no_wrap e m"
    and op: "0 \<le> op" "op + len \<le> oend m" and f: "safe_sequence e ip op m = Some f"
  shows "no_err f"
proof -
  let ?tok = "at (srcbuf e) ip"
  have b: "0 \<le> ip" "ip < iend e" using h by (auto simp: head_at_def lits_at_def)
  have ld: "ld (srcbuf e) ip = Some ?tok" using b by (simp add: ld_def in_buf_def)
  note last = safe_literal_copy_last_no_err[OF _ assms(3,2) op(2)]
  show ?thesis
  proof (cases "uint (drop_bit 4 ?tok) = 15")
    case True
    have "literal_length e 15 (ip + 1) op = Some (Inr (len, ip1))"
      by (rule literal_length_enc[OF h True assms(4) op])
    with f ld True show ?thesis using last by (simp add: safe_sequence_def)
  next
    case False
    note s = head_at_short[OF h False]
    then have "\<not> ip + 1 < iend e - 14 - 2" using assms(2) by simp
    with f ld False s show ?thesis using last by (auto simp: safe_sequence_def Let_def)
  qed
qed

lemma fast_sequence_no_err:
  assumes h: "head_at e ip len ip1" and r: "room e base off n (op + len) m"
    and t: "tail_at e off n (ip1 + len) j (at (srcbuf e) ip)"
    and op: "0 \<le> op" "op + len \<le> oend m - 12" and f: "fast_sequence e ip op m = Some (Fast_exit f)"
  shows "no_err f"
proof -
  let ?tok = "at (srcbuf e) ip"
  have b: "0 \<le> ip" "ip < iend e" using h by (auto simp: head_at_def lits_at_def)
  have ld: "ld (srcbuf e) ip = Some ?tok" using b by (simp add: ld_def in_buf_def)
  have w: "no_wrap e m" using r by (simp add: room_def)
  have m: "no_err f" if "fast_match e ?tok p q m1 = Some (Fast_exit f)" "length m1 = length m" "p = ip1 + len" "q = op + len" for m1 p q
    using fast_match_no_err[OF room_length[OF that(2) r] t] that by simp
  show ?thesis
  proof (cases "uint (drop_bit 4 ?tok) = 15")
    case True
    have "literal_length e 15 (ip + 1) op = Some (Inr (len, ip1))"
      by (rule literal_length_enc[OF h True w op(1)]) (use op in simp)
    with f ld True show ?thesis
      using safe_literal_copy_no_err[OF r t _ op(2)]
      by (auto simp: fast_sequence_def bind_Some split: if_splits dest: wildCopy32_from_length m)
  next
    case False
    note s = head_at_short[OF h False]
    from f ld False s show ?thesis
      using safe_literal_copy_no_err[OF r t _ op(2)]
      by (auto simp: fast_sequence_def Let_def bind_Some split: if_splits dest: memcpy_from_length m)
  qed
qed

lemma fast_sequence_last:
  assumes h: "head_at e ip len ip1" and "ip1 + len = iend e" "\<not> partialDecoding e" "no_wrap e m"
    and op: "0 \<le> op" "op + len \<le> oend m" and f: "fast_sequence e ip op m = Some r"
  shows "\<exists>f. r = Fast_exit f \<and> no_err f"
proof -
  let ?tok = "at (srcbuf e) ip"
  have b: "0 \<le> ip" "ip < iend e" using h by (auto simp: head_at_def lits_at_def)
  have ld: "ld (srcbuf e) ip = Some ?tok" using b by (simp add: ld_def in_buf_def)
  note last = safe_literal_copy_last_no_err[OF _ assms(3,2) op(2)]
  show ?thesis
  proof (cases "uint (drop_bit 4 ?tok) = 15")
    case True
    have "literal_length e 15 (ip + 1) op = Some (Inr (len, ip1))"
      by (rule literal_length_enc[OF h True assms(4) op])
    with f ld True assms(2) show ?thesis using last by (auto simp: fast_sequence_def)
  next
    case False
    note s = head_at_short[OF h False]
    then have "ip + 1 > iend e - 17" using assms(2) by simp
    with f ld False s show ?thesis using last by (auto simp: fast_sequence_def Let_def)
  qed
qed

section \<open>Where the parts of an encoded sequence lie\<close>

lemma unat_token_byte: "unat (token_byte a b) = 16 * min a 15 + min b 15"
  unfolding token_byte_def by (subst unat_of_nat_byte) auto

lemma seg_ConsE:
  assumes "seg s i j = x # ys" "0 \<le> i" "i \<le> j" "j \<le> int (length s)"
  shows "at s i = x \<and> seg s (i + 1) j = ys \<and> i + 1 \<le> j"
proof -
  from assms(1) have a: "seg s i j = [x] @ ys" by simp
  from seg_split[OF a assms(2-4)] have r: "seg s i (i + 1) = [x]" "seg s (i + 1) j = ys" "i + 1 \<le> j"
    by auto
  then show ?thesis using seg_one[of i s] assms(2,4) by (simp add: at_def)
qed

lemma head_parts:
  assumes "seg (srcbuf e) ip j = token_byte (length l) t # enc_len (length l) @ l @ xs"
    and b: "0 \<le> ip" "ip \<le> j" "j \<le> iend e"
  obtains ip1 where "head_at e ip (int (length l)) ip1" "at (srcbuf e) ip = token_byte (length l) t"
    "seg (srcbuf e) (ip1 + int (length l)) j = xs" "ip1 + int (length l) \<le> j"
proof -
  from seg_ConsE[OF assms] have tok: "at (srcbuf e) ip = token_byte (length l) t"
    and s1: "seg (srcbuf e) (ip + 1) j = enc_len (length l) @ (l @ xs)" and j1: "ip + 1 \<le> j" by auto
  define ip1 where "ip1 = ip + 1 + int (length (enc_len (length l)))"
  have b1: "0 \<le> ip + 1" using b by simp
  from seg_split[OF s1 b1 j1 b(3)] have s2: "seg (srcbuf e) (ip + 1) ip1 = enc_len (length l)"
    and s3: "seg (srcbuf e) ip1 j = l @ xs" and j2: "ip1 \<le> j" by (auto simp: ip1_def)
  have b2: "0 \<le> ip1" "ip < ip1" using b by (auto simp: ip1_def)
  from seg_split[OF s3 b2(1) j2 b(3)] have s4: "seg (srcbuf e) (ip1 + int (length l)) j = xs"
    and j3: "ip1 + int (length l) \<le> j" by auto
  have "head_at e ip (int (length l)) ip1"
    using b b2 j1 j2 j3 s2 tok by (simp add: head_at_def lits_at_def unat_token_byte)
  then show thesis using that tok s4 j3 by blast
qed

lemma seq_parts:
  assumes "seg (srcbuf e) ip j = enc_seq (Seq l off n)" and b: "0 \<le> ip" "ip \<le> j" "j \<le> iend e - 6"
    and "off \<le> 65535"
  obtains ip1 where "head_at e ip (int (length l)) ip1"
    "tail_at e off n (ip1 + int (length l)) j (at (srcbuf e) ip)"
proof -
  have s: "seg (srcbuf e) ip j = token_byte (length l) (n - 4) # enc_len (length l) @ l
      @ ([of_nat (off mod 256), of_nat (off div 256)] @ enc_len (n - 4))" using assms(1) by simp
  have b3: "j \<le> iend e" using b by simp
  obtain ip1 where h: "head_at e ip (int (length l)) ip1" and tok: "at (srcbuf e) ip = token_byte (length l) (n - 4)"
    and s1: "seg (srcbuf e) (ip1 + int (length l)) j = [of_nat (off mod 256), of_nat (off div 256)] @ enc_len (n - 4)"
    and j1: "ip1 + int (length l) \<le> j" by (rule head_parts[OF s b(1,2) b3])
  let ?p = "ip1 + int (length l)"
  have p: "0 \<le> ?p" using h by (simp add: head_at_def lits_at_def)
  from seg_split[OF s1 p j1 b3]
  have s2: "seg (srcbuf e) ?p (?p + 2) = [of_nat (off mod 256), of_nat (off div 256)]"
    and s3: "seg (srcbuf e) (?p + 2) j = enc_len (n - 4)" and j2: "?p + 2 \<le> j" by auto
  have "uint (at (srcbuf e) ip AND 15) = int (unat (at (srcbuf e) ip) mod 16)"
    by (simp add: uint_low_nibble zmod_int)
  then have "uint (at (srcbuf e) ip AND 15) = int (min (n - 4) 15)"
    by (simp add: tok unat_token_byte mod_add_left_eq)
  moreover have "off_at e ?p = int off" using s2 p j2 b3 assms(5) by (intro off_at_enc) auto
  ultimately show thesis using that[OF h] p j2 s3 b by (simp add: tail_at_def)
qed

section \<open>The loops accept a block\<close>

definition at_block :: "decoder \<Rightarrow> int \<Rightarrow> int \<Rightarrow> int \<Rightarrow> bytes \<Rightarrow> lz_seq list \<Rightarrow> nat \<Rightarrow> bytes \<Rightarrow> bool" where
  "at_block e base ip op m ss t l \<longleftrightarrow> \<not> partialDecoding e \<and> dec_wf e base \<and> base \<le> op \<and> no_wrap e m
     \<and> 0 \<le> ip \<and> ip < iend e \<and> seg (srcbuf e) ip (iend e) = enc_block ss t l
     \<and> seqs_ok (hist e op m) ss \<and> ends_ok ss l \<and> op + int (expanded ss l) \<le> oend m"

lemma at_block_bounds:
  "at_block e base ip op m ss t l \<Longrightarrow> dec_wf e base \<and> base \<le> op \<and> 0 \<le> op \<and> op \<le> oend m \<and> 0 \<le> ip \<and> ip < iend e"
  by (auto simp: at_block_def dec_wf_def)

lemma at_block_first:
  assumes a: "at_block e base ip op m (Seq l1 off n # ss) t l"
  obtains ip1 j where "head_at e ip (int (length l1)) ip1"
    "tail_at e off n (ip1 + int (length l1)) j (at (srcbuf e) ip)"
    "room e base off n (op + int (length l1)) m" "0 \<le> op" "op + int (length l1) \<le> oend m - 12"
proof -
  let ?q = "Seq l1 off n"
  have b: "0 \<le> ip" "ip \<le> iend e" and s: "seg (srcbuf e) ip (iend e) = enc_seq ?q @ enc_block ss t l"
    and q: "seq_ok (hist e op m) ?q" and eo: "ends_ok (?q # ss) l" "seqs_ok (hist e op m) (?q # ss)"
    and fits: "op + int (expanded (?q # ss) l) \<le> oend m"
    using a by (auto simp: at_block_def enc_block_Cons)
  define j where "j = ip + int (length (enc_seq ?q))"
  from seg_split[OF s b order_refl]
  have sq: "seg (srcbuf e) ip j = enc_seq ?q" and je: "iend e = j + int (length (enc_block ss t l))"
    by (simp_all only: j_def)
  have "j \<le> iend e - 6" using je enc_block_length[OF eo(1), of t] by simp
  moreover have "ip \<le> j" by (simp add: j_def)
  ultimately obtain ip1 where ip1: "head_at e ip (int (length l1)) ip1"
    "tail_at e off n (ip1 + int (length l1)) j (at (srcbuf e) ip)"
    using seq_parts[OF sq b(1)] q by (auto simp: seq_ok_def)
  note ends = ends_ok_Cons[OF eo]
  have "op + int (length l1) \<le> oend m - 12"
    using fits ends(3) by (simp add: expanded_Cons)
  moreover have "room e base off n (op + int (length l1)) m"
    using a q fits ends(2) length_hist[of op m e] at_block_bounds[OF a]
    by (auto simp: room_def at_block_def seq_ok_def expanded_Cons)
  moreover have "0 \<le> op" using at_block_bounds[OF a] by simp
  ultimately show thesis using that ip1 by blast
qed

lemma at_block_last:
  assumes a: "at_block e base ip op m [] t l"
  obtains ip1 where "head_at e ip (int (length l)) ip1" "ip1 + int (length l) = iend e"
proof -
  have s: "seg (srcbuf e) ip (iend e) = token_byte (length l) t # enc_len (length l) @ l @ []"
    and b: "0 \<le> ip" "ip \<le> iend e" using a by (auto simp: at_block_def enc_block_Nil enc_last_def)
  obtain ip1 where h: "head_at e ip (int (length l)) ip1" "seg (srcbuf e) (ip1 + int (length l)) (iend e) = []"
    "ip1 + int (length l) \<le> iend e" by (rule head_parts[OF s b order_refl])
  moreover have "0 \<le> ip1 + int (length l)" using h(1) by (simp add: head_at_def lits_at_def)
  ultimately have "ip1 + int (length l) = iend e"
    using length_seg[of "ip1 + int (length l)" "iend e" "srcbuf e"] by simp
  then show thesis using that h(1) by blast
qed

lemma at_block_step:
  assumes a: "at_block e base ip op m (q # ss) t l" and s: "seq_round e ip op m (Continue ip' op' m')"
  shows "at_block e base ip' op' m' ss t l"
proof -
  have np: "\<not> partialDecoding e" using a by (simp add: at_block_def)
  obtain q' where q': "seq_ok (hist e op m) q'" "seg (srcbuf e) ip ip' = enc_seq q'"
    "hist e op' m' = expand1 (hist e op m) q'" and b: "ip < ip'" "ip' < iend e" "op \<le> op'" "op' \<le> oend m"
    and f: "frame_below m m' op"
    using s np by (auto simp: seq_round_def)
  have lm: "length m' = length m" using f by (rule frame_below_length)
  note bb = at_block_bounds[OF a]
  have "enc_seq q' @ seg (srcbuf e) ip' (iend e) = enc_seq q @ enc_block ss t l"
    using a b q'(2) seg_append[of ip ip' "iend e" "srcbuf e"] by (simp add: at_block_def enc_block_Cons)
  moreover have "seq_ok (hist e op m) q" using a by (simp add: at_block_def)
  ultimately have e: "q' = q \<and> seg (srcbuf e) ip' (iend e) = enc_block ss t l"
    using q'(1) by (intro enc_seq_inj)
  have "int (length (hist e op' m')) = int (length (hist e op m)) + int (length (lits q) + mlen q)"
    using q'(3) e by simp
  then have "op' = op + int (length (lits q) + mlen q)"
    using length_hist[of op m e] length_hist[of op' m' e] bb b lm by simp
  then show ?thesis
    using a e q'(3) b bb lm ends_ok_Cons(1)[of q ss l] no_wrap_length[OF lm, of e]
    by (auto simp: at_block_def expanded_Cons)
qed

lemma at_block_no_step:
  assumes a: "at_block e base ip op m [] t l" and s: "seq_round e ip op m (Continue ip' op' m')"
  shows False
proof -
  have np: "\<not> partialDecoding e" using a by (simp add: at_block_def)
  obtain q' where q': "seg (srcbuf e) ip ip' = enc_seq q'" and b: "ip < ip'" "ip' < iend e"
    using s np by (auto simp: seq_round_def)
  have "enc_seq q' @ seg (srcbuf e) ip' (iend e) = enc_last t l"
    using a b q' seg_append[of ip ip' "iend e" "srcbuf e"] by (simp add: at_block_def enc_block_Nil)
  then show False by (simp add: enc_seq_not_last)
qed

lemma safe_sequence_block_no_err:
  assumes a: "at_block e base ip op m ss t l" and f: "safe_sequence e ip op m = Some f"
  shows "no_err f"
proof (cases ss)
  case Nil
  then obtain ip1 where "head_at e ip (int (length l)) ip1" "ip1 + int (length l) = iend e"
    using at_block_last a by blast
  then show ?thesis
    using safe_sequence_last_no_err[OF _ _ _ _ _ _ f] a Nil at_block_bounds[OF a] by (auto simp: at_block_def)
next
  case (Cons q ss')
  obtain l1 off n where q: "q = Seq l1 off n" by (cases q)
  obtain ip1 j where "head_at e ip (int (length l1)) ip1"
    "tail_at e off n (ip1 + int (length l1)) j (at (srcbuf e) ip)"
    "room e base off n (op + int (length l1)) m" "0 \<le> op" "op + int (length l1) \<le> oend m - 12"
    by (rule at_block_first[OF a[unfolded Cons q]])
  then show ?thesis using safe_sequence_no_err[OF _ _ _ _ _ f] by blast
qed

lemma fast_sequence_block_no_err:
  assumes a: "at_block e base ip op m ss t l" and f: "fast_sequence e ip op m = Some (Fast_exit f)"
  shows "no_err f"
proof (cases ss)
  case Nil
  then obtain ip1 where "head_at e ip (int (length l)) ip1" "ip1 + int (length l) = iend e"
    using at_block_last a by blast
  then show ?thesis
    using fast_sequence_last[OF _ _ _ _ _ _ f] a Nil at_block_bounds[OF a] by (auto simp: at_block_def)
next
  case (Cons q ss')
  obtain l1 off n where q: "q = Seq l1 off n" by (cases q)
  obtain ip1 j where "head_at e ip (int (length l1)) ip1"
    "tail_at e off n (ip1 + int (length l1)) j (at (srcbuf e) ip)"
    "room e base off n (op + int (length l1)) m" "0 \<le> op" "op + int (length l1) \<le> oend m - 12"
    by (rule at_block_first[OF a[unfolded Cons q]])
  then show ?thesis using fast_sequence_no_err[OF _ _ _ _ _ f] by blast
qed

lemma safe_loop_no_err:
  "at_block e base ip op m ss t l \<Longrightarrow> safe_loop e ip op m = Some f \<Longrightarrow> no_err f"
proof (induction ss arbitrary: ip op m)
  case Nil
  note b = at_block_bounds[OF Nil.prems(1)]
  obtain f0 where f0: "safe_sequence e ip op m = Some f0" and s: "seq_round e ip op m f0"
    using safe_sequence_ok[of e base op m ip] b by (auto simp: wp_iff)
  have "no_err f0" using safe_sequence_block_no_err[OF Nil.prems(1) f0] .
  with f0 s Nil.prems at_block_no_step[OF Nil.prems(1)] show ?case
    by (subst (asm) safe_loop.simps) (cases f0; auto)
next
  case (Cons q ss)
  note b = at_block_bounds[OF Cons.prems(1)]
  obtain f0 where f0: "safe_sequence e ip op m = Some f0" and s: "seq_round e ip op m f0"
    using safe_sequence_ok[of e base op m ip] b by (auto simp: wp_iff)
  have "no_err f0" using safe_sequence_block_no_err[OF Cons.prems(1) f0] .
  with f0 s Cons.prems(2) Cons.IH[OF at_block_step[OF Cons.prems(1)]] show ?case
    by (subst (asm) safe_loop.simps) (cases f0; auto)
qed

lemma fast_loop_no_err:
  "at_block e base ip op m ss t l \<Longrightarrow> op \<le> oend m - 64 \<Longrightarrow> fast_loop e ip op m = Some f \<Longrightarrow> no_err f"
proof (induction ss arbitrary: ip op m)
  case Nil
  note b = at_block_bounds[OF Nil.prems(1)]
  obtain r where r: "fast_sequence e ip op m = Some r" and s: "fast_round e ip op m r"
    using fast_sequence_ok[of e base op m ip] b Nil.prems(2) by (auto simp: wp_iff)
  show ?case
  proof (cases r)
    case (Fast_continue ip' op' m')
    with s at_block_no_step[OF Nil.prems(1)] show ?thesis by (auto simp: fast_round_def)
  next
    case (Fast_exit f0)
    then have "no_err f0" using fast_sequence_block_no_err[OF Nil.prems(1)] r by simp
    with r s Fast_exit Nil.prems(3) at_block_no_step[OF Nil.prems(1)] show ?thesis
      by (subst (asm) fast_loop.simps) (cases f0; auto simp: fast_round_def)
  qed
next
  case (Cons q ss)
  note b = at_block_bounds[OF Cons.prems(1)]
  obtain r where r: "fast_sequence e ip op m = Some r" and s: "fast_round e ip op m r"
    using fast_sequence_ok[of e base op m ip] b Cons.prems(2) by (auto simp: wp_iff)
  show ?case
  proof (cases r)
    case (Fast_continue ip' op' m')
    then have "at_block e base ip' op' m' ss t l" "op' \<le> oend m' - 64"
      using s at_block_step[OF Cons.prems(1)] by (auto simp: fast_round_def seq_round_def frame_below_def)
    moreover have "fast_loop e ip' op' m' = Some f"
      using Cons.prems(3) r Fast_continue by (subst (asm) fast_loop.simps) simp
    ultimately show ?thesis by (rule Cons.IH)
  next
    case (Fast_exit f0)
    then have n: "no_err f0" using fast_sequence_block_no_err[OF Cons.prems(1)] r by simp
    have "no_err f" if "f0 = Continue ip' op' m'" "safe_loop e ip' op' m' = Some f" for ip' op' m'
      using that s Fast_exit safe_loop_no_err[OF at_block_step[OF Cons.prems(1)]] by (simp add: fast_round_def)
    with n r Fast_exit Cons.prems(3) show ?thesis
      by (subst (asm) fast_loop.simps) (cases f0; auto)
  qed
qed

text \<open>Completeness of \<open>LZ4_decompress_generic\<close>, with the result that soundness then gives.\<close>

lemma decompress_generic_complete:
  assumes wf: "dec_wf e base" "\<not> partialDecoding e" "no_wrap e m"
    and src: "srcbuf e = enc_block ss t l" and ok: "seqs_ok (hist e base m) ss" "ends_ok ss l"
    and fits: "base + int (expanded ss l) \<le> oend m" "base < oend m \<or> t = 0"
  shows "\<exists>m'. LZ4_decompress_generic e base m = Some (int (expanded ss l), m')
    \<and> frame_below m m' base \<and> hist e (base + int (expanded ss l)) m' = expand (hist e base m) ss @ l"
proof -
  have base: "0 \<le> base" using wf(1) by (simp add: dec_wf_def)
  obtain n m' where r: "LZ4_decompress_generic e base m = Some (n, m')" and p: "decode_post e base m (n, m')"
    using decompress_generic_ok[OF wf(1), of m] by (auto simp: wp_iff)
  have s0: "src_addr e \<noteq> 0" using wf(3) by (simp add: no_wrap_def)
  have iend: "0 < iend e" unfolding src by (simp add: enc_block_def enc_last_def)
  have "0 \<le> n"
  proof (cases "base < oend m")
    case True
    have a: "at_block e base 0 base m ss t l"
      using wf src ok fits iend seg_full[of "srcbuf e"] by (simp add: at_block_def)
    obtain f where f: "(if fast_dec_loop e \<and> \<not> oend m - base < 64 then fast_loop e 0 base m
        else safe_loop e 0 base m) = Some f"
      and n: "(n, m') = (case f of Output_error ip m \<Rightarrow> (- ip - 1, m)
        | Break ip op m \<Rightarrow> (op - base, m) | Continue ip op m \<Rightarrow> (op - base, m))"
      using r s0 iend True by (auto simp: LZ4_decompress_generic_def Let_def bind_Some)
    have "no_err f" using f safe_loop_no_err[OF a] fast_loop_no_err[OF a] by (auto split: if_splits)
    moreover have "run_post e 0 base m f"
      using f fast_loop_ok[of e base base m 0] safe_loop_ok[of e base base m 0] wf(1) iend True
      by (auto simp: wp_iff split: if_splits)
    ultimately show ?thesis using n by (cases f) (auto simp: run_post_def)
  next
    case False
    then have z: "oend m - base = 0" "expanded ss l = 0" "t = 0" using fits base by auto
    then have "ss = []" "l = []" using ok by (cases ss; auto simp: expanded_def seq_ok_def)+
    then have "srcbuf e = [0]" using src z(3) token_0 by simp
    then show ?thesis using r z s0 wf(2)
      by (simp add: LZ4_decompress_generic_def Let_def ld_def in_buf_def at_def)
  qed
  then obtain ss' t' l' where q: "seqs_ok (hist e base m) ss'" "srcbuf e = enc_block ss' t' l'"
    "hist e (base + n) m' = expand (hist e base m) ss' @ l'"
    using p wf(2) by (auto simp: decode_post_def)
  have e: "ss' = ss \<and> l' = l" using enc_block_inj[OF _ q(1) ok(1), of t' l' t l] q(2) src by simp
  have fr: "frame_below m m' base" and nb: "n \<le> max 0 (oend m - base)" using p by (auto simp: decode_post_def)
  have "length m' = length m" using fr by (rule frame_below_length)
  then have "int (length (hist e (base + n) m')) = dictSize e + (base + n)"
    "int (length (hist e base m)) = dictSize e + base"
    using base nb \<open>0 \<le> n\<close> fits by (auto intro!: length_hist)
  then have "n = int (expanded ss l)" using q(3) e length_expand[of "hist e base m" ss l] by simp
  then show ?thesis using r fr q(3) e by simp
qed

section \<open>Properties\<close>

text \<open>C3. Completeness: a block that respects the end-of-block conditions of the format, whose
  matches stay in the history and whose expansion fits the output, is decoded; the value
  returned is the size of the expansion and the output is the expansion. So neither the fast
  loop, the shortcuts nor the parsing restrictions ever reject a block that a compressor
  may produce.\<close>

theorem LZ4_decompress_generic_complete:
  assumes "dec_wf e base" "\<not> partialDecoding e" "no_wrap e m"
    and "srcbuf e = enc_block ss t l" "seqs_ok (hist e base m) ss" "ends_ok ss l"
    and "base + int (expanded ss l) \<le> oend m" "base < oend m \<or> t = 0"
  shows "\<exists>m'. LZ4_decompress_generic e base m = Some (int (expanded ss l), m')
    \<and> hist e (base + int (expanded ss l)) m' = expand (hist e base m) ss @ l"
  using decompress_generic_complete[OF assms] by blast

text \<open>The block for \<open>abcabcabcabcabc12345\<close>: three literals, a match of 12 at distance 3, five
  literals.\<close>

definition demo_block :: bytes where
  "demo_block = enc_block [Seq [97, 98, 99] 3 12] 0 [49, 50, 51, 52, 53]"

lemma demo_block_bytes: "demo_block = [56, 97, 98, 99, 3, 0, 80, 49, 50, 51, 52, 53]"
  by (simp add: demo_block_def enc_block_def enc_last_def token_byte_def enc_len_def)

lemma demo_block_decodes:
  "\<exists>m'. LZ4_decompress_generic (demo_decoder fast demo_block) 0 (replicate 100 0) = Some (20, m')"
  using decompress_generic_complete[OF demo_decoder_wf, of fast demo_block "replicate 100 0"
      "[Seq [97, 98, 99] 3 12]" 0 "[49, 50, 51, 52, 53]"]
  by (simp add: demo_decoder_def hist_def no_wrap_def demo_block_def seq_ok_def ends_ok_def expanded_def
      enc_block_def enc_last_def enc_len_def, blast)

lemma LZ4_decompress_generic_complete_witness:
  "\<exists>m'. LZ4_decompress_generic (demo_decoder True demo_block) 0 (replicate 20 0) = Some (20, m')
    \<and> hist (demo_decoder True demo_block) 20 m' = expand [] [Seq [97, 98, 99] 3 12] @ [49, 50, 51, 52, 53]"
  using LZ4_decompress_generic_complete[OF demo_decoder_wf, of True demo_block "replicate 20 0"
      "[Seq [97, 98, 99] 3 12]" 0 "[49, 50, 51, 52, 53]"]
  by (simp add: demo_decoder_def hist_def no_wrap_def demo_block_def seq_ok_def ends_ok_def expanded_def
      enc_block_def enc_last_def enc_len_def)

text \<open>C6. The fast loop is an optimisation of the safe loop: when a decode with it and one without
  it both succeed, they return the same size and the same bytes.\<close>

theorem LZ4_fast_loop_agrees:
  assumes "dec_wf e base" "\<not> partialDecoding e"
    and "LZ4_decompress_generic (e\<lparr>fast_dec_loop := True\<rparr>) base m = Some (n1, m1)" "0 \<le> n1"
    and "LZ4_decompress_generic (e\<lparr>fast_dec_loop := False\<rparr>) base m = Some (n2, m2)" "0 \<le> n2"
  shows "n1 = n2 \<and> seg m1 base (base + n1) = seg m2 base (base + n2)"
proof -
  let ?h = "hist e base m"
  have h: "hist (e\<lparr>fast_dec_loop := b\<rparr>) p x = hist e p x" for b p x by (simp add: hist_def)
  have w: "dec_wf (e\<lparr>fast_dec_loop := b\<rparr>) base" for b using assms(1) by (auto simp: dec_wf_def)
  have f: "frame_below m m1 base \<and> n1 \<le> max 0 (oend m - base)" "frame_below m m2 base \<and> n2 \<le> max 0 (oend m - base)"
    using decompress_generic_ok[OF w, of True m] decompress_generic_ok[OF w, of False m] assms(3,5)
    by (auto simp: wp_iff decode_post_def)
  obtain s1 t1 l1 where 1: "seqs_ok ?h s1" "srcbuf e = enc_block s1 t1 l1" "hist e (base + n1) m1 = expand ?h s1 @ l1"
    using LZ4_decompress_generic_sound_result[OF w _ assms(3,4)] assms(2) by (auto simp: h)
  obtain s2 t2 l2 where 2: "seqs_ok ?h s2" "srcbuf e = enc_block s2 t2 l2" "hist e (base + n2) m2 = expand ?h s2 @ l2"
    using LZ4_decompress_generic_sound_result[OF w _ assms(5,6)] assms(2) by (auto simp: h)
  have "s1 = s2 \<and> l1 = l2" using enc_block_inj[OF _ 1(1) 2(1)] 1(2) 2(2) by metis
  then have "hist e (base + n1) m1 = hist e (base + n2) m2" using 1(3) 2(3) by simp
  then have e: "take (nat (base + n1)) m1 = take (nat (base + n2)) m2" by (simp add: hist_def)
  have b: "0 \<le> base" using assms(1) by (simp add: dec_wf_def)
  have n: "base + n1 \<le> oend m1 \<or> n1 = 0" "base + n2 \<le> oend m2 \<or> n2 = 0" "oend m1 = oend m2"
    using f assms(4,6) by (auto simp: frame_below_def)
  show ?thesis
  proof (cases "base \<le> oend m")
    case True
    then have "base + n1 \<le> oend m1" "base + n2 \<le> oend m2" using n f by (auto simp: frame_below_def)
    then have "nat (base + n1) = nat (base + n2)"
      using arg_cong[OF e, of length] b assms(4,6) by simp
    then have "n1 = n2" using b assms(4,6) by linarith
    then show ?thesis using arg_cong[OF e, of "drop (nat base)"] b assms(4)
      by (simp add: seg_def drop_take nat_add_distrib)
  next
    case False
    then have "n1 = 0" "n2 = 0" using f assms(4,6) by auto
    then show ?thesis by simp
  qed
qed

lemma LZ4_fast_loop_agrees_witness:
  "\<exists>m1 m2. LZ4_decompress_generic (demo_decoder True demo_block) 0 (replicate 100 0) = Some (20, m1)
    \<and> LZ4_decompress_generic (demo_decoder False demo_block) 0 (replicate 100 0) = Some (20, m2)
    \<and> seg m1 0 20 = seg m2 0 20"
proof -
  obtain m1 where 1: "LZ4_decompress_generic (demo_decoder True demo_block) 0 (replicate 100 0) = Some (20, m1)"
    using demo_block_decodes by blast
  obtain m2 where 2: "LZ4_decompress_generic (demo_decoder False demo_block) 0 (replicate 100 0) = Some (20, m2)"
    using demo_block_decodes by blast
  have u: "(demo_decoder True demo_block)\<lparr>fast_dec_loop := b\<rparr> = demo_decoder b demo_block" for b
    by (simp add: demo_decoder_def)
  have "seg m1 0 (0 + 20) = seg m2 0 (0 + 20)"
    using LZ4_fast_loop_agrees[OF demo_decoder_wf, of True demo_block "replicate 100 0" 20 m1 20 m2] 1 2
    unfolding u by (simp add: demo_decoder_def)
  with 1 2 show ?thesis by simp
qed

end
