(* ===== verification/LZ4_Decompress_Api.thy ===== *)
theory LZ4_Decompress_Api
  imports LZ4_Decompress_Complete
begin

text \<open>
  The decoding functions that \<open>lz4.c\<close> exports, over a flat address space: each picks the
  dictionary mode, the prefix and the external dictionary that \<open>LZ4_decompress_generic\<close> is
  called with. Then the streaming decoder \<open>LZ4_decompress_safe_continue\<close> and its context.

  \<open>decodes_to h src out\<close> is the contract that all of them share: \<open>src\<close> is a block of the
  format which, decoded after the history \<open>h\<close>, stands for \<open>out\<close>; \<open>block_of\<close> is the same for
  a block that respects the end-of-block conditions, as a compressor must produce it.
\<close>

section \<open>The contract\<close>

definition decodes_to :: "bytes \<Rightarrow> bytes \<Rightarrow> bytes \<Rightarrow> bool" where
  "decodes_to h src out \<longleftrightarrow> (\<exists>ss t l. t \<le> 15 \<and> seqs_ok h ss \<and> src = enc_block ss t l \<and> h @ out = expand h ss @ l)"

definition block_of :: "bytes \<Rightarrow> bytes \<Rightarrow> bytes \<Rightarrow> bool" where
  "block_of h src out \<longleftrightarrow> (\<exists>ss l. seqs_ok h ss \<and> ends_ok ss l \<and> src = enc_block ss 0 l \<and> h @ out = expand h ss @ l)"

lemma block_of_decodes: "block_of h src out \<Longrightarrow> decodes_to h src out"
  unfolding block_of_def decodes_to_def by (metis zero_le)

lemma decodes_to_unique: "decodes_to h src out \<Longrightarrow> decodes_to h src out' \<Longrightarrow> out = out'"
  unfolding decodes_to_def by (metis enc_block_inj same_append_eq)

text \<open>A longer history changes nothing; a history of 64 KB - 1 bytes is enough.\<close>

lemma expand1_append:
  assumes "seq_ok h s"
  shows "expand1 (d @ h) s = d @ expand1 h s"
  using assms lz_copy_append[of "moff s" "h @ lits s" "mlen s" d] by (cases s) (simp add: seq_ok_def)

lemma seqs_ok_longer: "seqs_ok h ss \<Longrightarrow> seqs_ok (d @ h) ss \<and> expand (d @ h) ss = d @ expand h ss"
  by (induction ss arbitrary: h) (auto simp: expand1_append seq_ok_def)

lemma seqs_ok_shorter: "seqs_ok (d @ h) ss \<Longrightarrow> 65535 \<le> length h \<Longrightarrow> seqs_ok h ss"
proof (induction ss arbitrary: h)
  case (Cons s ss)
  then have "seq_ok h s" by (auto simp: seq_ok_def)
  with Cons show ?case by (auto simp: expand1_append)
qed simp

lemma decodes_to_longer: "decodes_to h src out \<Longrightarrow> decodes_to (d @ h) src out"
  unfolding decodes_to_def using seqs_ok_longer by (metis append_assoc)

lemma block_of_shorter: "block_of (d @ h) src out \<Longrightarrow> 65535 \<le> length h \<Longrightarrow> block_of h src out"
  unfolding block_of_def using seqs_ok_longer seqs_ok_shorter by (metis append_assoc same_append_eq)

lemma block_of_longer: "block_of h src out \<Longrightarrow> block_of (d @ h) src out"
  unfolding block_of_def using seqs_ok_longer by (metis append_assoc)

section \<open>Memory\<close>

type_synonym memory = "int \<Rightarrow> byte"

definition read_mem :: "memory \<Rightarrow> int \<Rightarrow> int \<Rightarrow> bytes" where
  "read_mem mem a n = map (\<lambda>k. mem (a + int k)) [0..<nat n]"

definition write_mem :: "memory \<Rightarrow> int \<Rightarrow> bytes \<Rightarrow> memory" where
  "write_mem mem a bs = (\<lambda>p. if a \<le> p \<and> p < a + int (length bs) then bs ! nat (p - a) else mem p)"

definition apart :: "int \<Rightarrow> int \<Rightarrow> int \<Rightarrow> int \<Rightarrow> bool" where
  "apart a n b k \<longleftrightarrow> n \<le> 0 \<or> k \<le> 0 \<or> a + n \<le> b \<or> b + k \<le> a"

lemma length_read_mem [simp]: "length (read_mem mem a n) = nat n"
  by (simp add: read_mem_def)

lemma nth_read_mem: "k < nat n \<Longrightarrow> read_mem mem a n ! k = mem (a + int k)"
  by (simp add: read_mem_def)

lemma read_mem_split:
  assumes "0 \<le> n" "0 \<le> k"
  shows "read_mem mem a (n + k) = read_mem mem a n @ read_mem mem (a + n) k"
  using assms by (intro nth_equalityI) (auto simp: nth_append nth_read_mem nat_add_distrib algebra_simps of_nat_diff)

lemma read_write_apart:
  "apart a n b (int (length bs)) \<Longrightarrow> read_mem (write_mem mem b bs) a n = read_mem mem a n"
  by (auto simp: read_mem_def write_mem_def apart_def)

lemma read_write_part:
  assumes "0 \<le> i" "0 \<le> n" "i + n \<le> int (length bs)"
  shows "read_mem (write_mem mem a bs) (a + i) n = seg bs i (i + n)"
  using assms by (intro nth_equalityI) (auto simp: read_mem_def write_mem_def nth_seg nat_add_distrib)

lemma read_write_all: "read_mem (write_mem mem a xs) a (int (length xs)) = xs"
  using read_write_part[of 0 "int (length xs)" xs mem a] seg_full[of xs] by simp

lemma read_mem_cong: "(\<And>p. a \<le> p \<Longrightarrow> p < a + n \<Longrightarrow> mem' p = mem p) \<Longrightarrow> read_mem mem' a n = read_mem mem a n"
  by (auto simp: read_mem_def)

section \<open>Calling the decoder\<close>

text \<open>
  A call with \<open>prefixSize\<close> accessible bytes before \<open>dst\<close>. The input and the external
  dictionary must not overlap the output (in-place decoding is not modelled): \<open>None\<close>.
\<close>

definition call_decoder ::
  "bool \<Rightarrow> memory \<Rightarrow> int \<Rightarrow> int \<Rightarrow> int \<Rightarrow> int \<Rightarrow> bool \<Rightarrow> dict_directive \<Rightarrow> int \<Rightarrow> int \<Rightarrow> int \<Rightarrow> int
     \<Rightarrow> (int \<times> memory) option" where
  "call_decoder fast mem src dst srcSize outputSize partial d prefixSize low dictStart dictSz =
    (if src = 0 \<or> outputSize < 0 then Some (-1, mem)
     else if srcSize < 0 \<or> \<not> apart src srcSize dst outputSize \<or> \<not> apart dictStart dictSz dst outputSize
       then None
     else do {
       (n, m) \<leftarrow> LZ4_decompress_generic
         \<lparr>srcbuf = read_mem mem src srcSize, src_addr = src, dst_addr = dst - prefixSize,
          partialDecoding = partial, dict = d, lowPrefix = low,
          dictbuf = read_mem mem dictStart dictSz, fast_dec_loop = fast\<rparr>
         prefixSize (read_mem mem (dst - prefixSize) (prefixSize + outputSize));
       Some (n, write_mem mem (dst - prefixSize) m) })"

definition LZ4_decompress_safe :: "bool \<Rightarrow> memory \<Rightarrow> int \<Rightarrow> int \<Rightarrow> int \<Rightarrow> int \<Rightarrow> (int \<times> memory) option" where
  "LZ4_decompress_safe fast mem source dest compressedSize maxDecompressedSize =
     call_decoder fast mem source dest compressedSize maxDecompressedSize False noDict 0 0 0 0"

definition LZ4_decompress_safe_partial ::
  "bool \<Rightarrow> memory \<Rightarrow> int \<Rightarrow> int \<Rightarrow> int \<Rightarrow> int \<Rightarrow> int \<Rightarrow> (int \<times> memory) option" where
  "LZ4_decompress_safe_partial fast mem src dst compressedSize targetOutputSize dstCapacity =
     call_decoder fast mem src dst compressedSize (min targetOutputSize dstCapacity) True noDict 0 0 0 0"

text \<open>\<open>lowPrefix\<close> is \<open>dest - 64 KB\<close>, although only \<open>64 KB - 1\<close> bytes need to be there.\<close>

definition LZ4_decompress_safe_withPrefix64k ::
  "bool \<Rightarrow> memory \<Rightarrow> int \<Rightarrow> int \<Rightarrow> int \<Rightarrow> int \<Rightarrow> (int \<times> memory) option" where
  "LZ4_decompress_safe_withPrefix64k fast mem source dest compressedSize maxOutputSize =
     call_decoder fast mem source dest compressedSize maxOutputSize False withPrefix64k
       (KB 64 - 1) (KB 64 - 1 - KB 64) 0 0"

definition LZ4_decompress_safe_withSmallPrefix ::
  "bool \<Rightarrow> memory \<Rightarrow> int \<Rightarrow> int \<Rightarrow> int \<Rightarrow> int \<Rightarrow> int \<Rightarrow> (int \<times> memory) option" where
  "LZ4_decompress_safe_withSmallPrefix fast mem source dest compressedSize maxOutputSize prefixSize =
     call_decoder fast mem source dest compressedSize maxOutputSize False noDict prefixSize 0 0 0"

definition LZ4_decompress_safe_forceExtDict ::
  "bool \<Rightarrow> memory \<Rightarrow> int \<Rightarrow> int \<Rightarrow> int \<Rightarrow> int \<Rightarrow> int \<Rightarrow> int \<Rightarrow> (int \<times> memory) option" where
  "LZ4_decompress_safe_forceExtDict fast mem source dest compressedSize maxOutputSize dictStart dictSz =
     call_decoder fast mem source dest compressedSize maxOutputSize False usingExtDict 0 0 dictStart dictSz"

definition LZ4_decompress_safe_doubleDict ::
  "bool \<Rightarrow> memory \<Rightarrow> int \<Rightarrow> int \<Rightarrow> int \<Rightarrow> int \<Rightarrow> int \<Rightarrow> int \<Rightarrow> int \<Rightarrow> (int \<times> memory) option" where
  "LZ4_decompress_safe_doubleDict fast mem source dest compressedSize maxOutputSize prefixSize dictStart dictSz =
     call_decoder fast mem source dest compressedSize maxOutputSize False usingExtDict prefixSize 0 dictStart dictSz"

definition LZ4_decompress_safe_usingDict ::
  "bool \<Rightarrow> memory \<Rightarrow> int \<Rightarrow> int \<Rightarrow> int \<Rightarrow> int \<Rightarrow> int \<Rightarrow> int \<Rightarrow> (int \<times> memory) option" where
  "LZ4_decompress_safe_usingDict fast mem source dest compressedSize maxOutputSize dictStart dictSz =
    (if dictSz = 0 then LZ4_decompress_safe fast mem source dest compressedSize maxOutputSize
     else if dictStart + dictSz = dest then
       if dictSz \<ge> KB 64 - 1
       then LZ4_decompress_safe_withPrefix64k fast mem source dest compressedSize maxOutputSize
       else LZ4_decompress_safe_withSmallPrefix fast mem source dest compressedSize maxOutputSize dictSz
     else LZ4_decompress_safe_forceExtDict fast mem source dest compressedSize maxOutputSize dictStart dictSz)"

text \<open>The modes that the functions above combine with a prefix and a dictionary.\<close>

definition mode_ok :: "dict_directive \<Rightarrow> int \<Rightarrow> int \<Rightarrow> int \<Rightarrow> bool" where
  "mode_ok d prefixSize low dictSz \<longleftrightarrow> 0 \<le> prefixSize \<and> 0 \<le> dictSz
     \<and> (d \<noteq> usingExtDict \<longrightarrow> dictSz = 0) \<and> (d \<noteq> withPrefix64k \<longrightarrow> low = 0)
     \<and> (d = withPrefix64k \<longrightarrow> prefixSize = 65535 \<and> low = -1)"

abbreviation history :: "memory \<Rightarrow> int \<Rightarrow> int \<Rightarrow> int \<Rightarrow> int \<Rightarrow> bytes" where
  "history mem dst prefixSize dictStart dictSz \<equiv>
     read_mem mem dictStart dictSz @ read_mem mem (dst - prefixSize) prefixSize"

lemma write_mem_frame:
  assumes f: "frame_below m m' base" and m: "m = read_mem mem a (base + cap)" and b: "0 \<le> base" "0 \<le> cap"
    and p: "p < a + base \<or> a + base + cap \<le> p"
  shows "write_mem mem a m' p = mem p"
proof -
  have l: "int (length m') = base + cap" using f m b by (simp add: frame_below_def)
  show ?thesis
  proof (cases "a \<le> p \<and> p < a + int (length m')")
    case True
    then have q: "0 \<le> p - a" "p - a < base" using p l by auto
    then have "at m' (p - a) = at m (p - a)" using f by (simp add: frame_below_def)
    also have "\<dots> = mem p" using q b m by (simp add: at_def nth_read_mem)
    finally show ?thesis using True by (simp add: write_mem_def at_def)
  qed (auto simp: write_mem_def)
qed

lemma call_decoder_ok:
  assumes mode: "mode_ok d prefixSize low dictSz" and "0 \<le> srcSize"
    and ap: "apart src srcSize dst cap" "apart dictStart dictSz dst cap"
  shows "wp (call_decoder fast mem src dst srcSize cap partial d prefixSize low dictStart dictSz)
    (\<lambda>(n, mem'). (\<forall>p. p < dst \<or> dst + cap \<le> p \<longrightarrow> mem' p = mem p) \<and> n \<le> max 0 cap
      \<and> (0 \<le> n \<and> \<not> partial \<longrightarrow> decodes_to (history mem dst prefixSize dictStart dictSz)
            (read_mem mem src srcSize) (read_mem mem' dst n)))"
proof (cases "src = 0 \<or> cap < 0")
  case True
  then show ?thesis by (simp add: call_decoder_def wp_Some)
next
  case False
  define e where "e = \<lparr>srcbuf = read_mem mem src srcSize, src_addr = src, dst_addr = dst - prefixSize,
      partialDecoding = partial, dict = d, lowPrefix = low,
      dictbuf = read_mem mem dictStart dictSz, fast_dec_loop = fast\<rparr>"
  define m where "m = read_mem mem (dst - prefixSize) (prefixSize + cap)"
  have b: "0 \<le> prefixSize" "0 \<le> cap" "oend m = prefixSize + cap"
    using mode False by (auto simp: mode_ok_def m_def)
  have wf: "dec_wf e prefixSize" using mode by (auto simp: dec_wf_def e_def mode_ok_def read_mem_def)
  have h: "hist e prefixSize m = history mem dst prefixSize dictStart dictSz"
    using b by (simp add: hist_def e_def m_def read_mem_split)
  have sb: "srcbuf e = read_mem mem src srcSize" by (simp add: e_def)
  obtain n m' where r: "LZ4_decompress_generic e prefixSize m = Some (n, m')" and p: "decode_post e prefixSize m (n, m')"
    using decompress_generic_ok[OF wf, of m] by (auto simp: wp_iff)
  have f: "frame_below m m' prefixSize" and n: "n \<le> max 0 cap" using p b by (auto simp: decode_post_def)
  have lm: "int (length m') = prefixSize + cap" using f b by (simp add: frame_below_def)
  let ?mem = "write_mem mem (dst - prefixSize) m'"
  have c: "call_decoder fast mem src dst srcSize cap partial d prefixSize low dictStart dictSz = Some (n, ?mem)"
    using False assms r by (simp add: call_decoder_def e_def m_def)
  have "?mem p = mem p" if "p < dst \<or> dst + cap \<le> p" for p
    by (rule write_mem_frame[OF f m_def b(1,2)]) (use that in auto)
  moreover have "decodes_to (history mem dst prefixSize dictStart dictSz) (read_mem mem src srcSize) (read_mem ?mem dst n)"
    if n0: "0 \<le> n" "\<not> partial"
  proof -
    obtain ss t l where s: "t \<le> 15" "seqs_ok (hist e prefixSize m) ss" "srcbuf e = enc_block ss t l"
      "hist e (prefixSize + n) m' = expand (hist e prefixSize m) ss @ l"
      using p n0 by (auto simp: decode_post_def e_def)
    have "read_mem ?mem dst n = seg m' prefixSize (prefixSize + n)"
      using read_write_part[of prefixSize n m' mem "dst - prefixSize"] b n n0 lm by simp
    moreover have "take (nat (prefixSize + n)) m' = take (nat prefixSize) m' @ seg m' prefixSize (prefixSize + n)"
      using b n0 by (simp add: seg_def nat_add_distrib take_add)
    moreover have "take (nat prefixSize) m' = take (nat prefixSize) m"
      using hist_frame[OF f, of prefixSize e] b by (simp add: hist_def)
    ultimately have "hist e (prefixSize + n) m' = hist e prefixSize m @ read_mem ?mem dst n"
      by (simp add: hist_def)
    then show ?thesis
      unfolding decodes_to_def h[symmetric] sb[symmetric]
      using s by (intro exI[of _ ss] exI[of _ t] exI[of _ l]) simp
  qed
  ultimately show ?thesis using c n by (simp add: wp_Some)
qed

lemma call_decoder_complete:
  assumes mode: "mode_ok d prefixSize low dictSz" and "0 \<le> srcSize"
    and ap: "apart src srcSize dst cap" "apart dictStart dictSz dst cap"
    and addr: "0 < src" "src + srcSize < 2 ^ 64" "prefixSize \<le> dst" "dst + cap < 2 ^ 64"
    and blk: "block_of (history mem dst prefixSize dictStart dictSz) (read_mem mem src srcSize) out"
    and fits: "int (length out) \<le> cap"
  shows "\<exists>mem'. call_decoder fast mem src dst srcSize cap False d prefixSize low dictStart dictSz
    = Some (int (length out), mem')"
proof -
  define e where "e = \<lparr>srcbuf = read_mem mem src srcSize, src_addr = src, dst_addr = dst - prefixSize,
      partialDecoding = False, dict = d, lowPrefix = low,
      dictbuf = read_mem mem dictStart dictSz, fast_dec_loop = fast\<rparr>"
  define m where "m = read_mem mem (dst - prefixSize) (prefixSize + cap)"
  have b: "0 \<le> prefixSize" "0 \<le> cap" "oend m = prefixSize + cap"
    using mode fits by (auto simp: mode_ok_def m_def)
  have wf: "dec_wf e prefixSize" using mode by (auto simp: dec_wf_def e_def mode_ok_def read_mem_def)
  have nw: "no_wrap e m" using addr b assms(2) by (simp add: no_wrap_def e_def)
  have h: "hist e prefixSize m = history mem dst prefixSize dictStart dictSz"
    using b by (simp add: hist_def e_def m_def read_mem_split)
  have sb: "srcbuf e = read_mem mem src srcSize" by (simp add: e_def)
  obtain ss l where s: "seqs_ok (hist e prefixSize m) ss" "ends_ok ss l" "srcbuf e = enc_block ss 0 l"
    "hist e prefixSize m @ out = expand (hist e prefixSize m) ss @ l"
    using blk unfolding block_of_def h[symmetric] sb[symmetric] by blast
  have len: "length out = expanded ss l" using arg_cong[OF s(4), of length] length_expand[of "hist e prefixSize m" ss l] by simp
  have "\<exists>m'. LZ4_decompress_generic e prefixSize m = Some (int (expanded ss l), m')"
    using decompress_generic_complete[OF wf _ nw s(3,1,2)] len fits b by (auto simp: e_def)
  then show ?thesis
    using len b ap assms(2) addr by (auto simp: call_decoder_def e_def m_def)
qed

section \<open>The streaming decoder\<close>

record streamDecode =
  externalDict :: int
  prefixEnd :: int
  extDictSize :: int
  prefixSize :: int

definition LZ4_setStreamDecode :: "int \<Rightarrow> int \<Rightarrow> streamDecode" where
  "LZ4_setStreamDecode dictionary dictSz =
     \<lparr>externalDict = 0, prefixEnd = (if dictSz \<noteq> 0 then dictionary + dictSz else dictionary),
      extDictSize = 0, prefixSize = dictSz\<rparr>"

definition LZ4_decompress_safe_continue ::
  "bool \<Rightarrow> memory \<Rightarrow> streamDecode \<Rightarrow> int \<Rightarrow> int \<Rightarrow> int \<Rightarrow> int \<Rightarrow> (int \<times> streamDecode \<times> memory) option" where
  "LZ4_decompress_safe_continue fast mem sd source dest compressedSize maxOutputSize =
    (if prefixSize sd = 0 then do {
       (result, mem) \<leftarrow> LZ4_decompress_safe fast mem source dest compressedSize maxOutputSize;
       if result \<le> 0 then Some (result, sd, mem)
       else Some (result, sd\<lparr>prefixSize := result, prefixEnd := dest + result\<rparr>, mem) }
     else if prefixEnd sd = dest then do {
       (result, mem) \<leftarrow>
         (if prefixSize sd \<ge> KB 64 - 1
          then LZ4_decompress_safe_withPrefix64k fast mem source dest compressedSize maxOutputSize
          else if extDictSize sd = 0
          then LZ4_decompress_safe_withSmallPrefix fast mem source dest compressedSize maxOutputSize (prefixSize sd)
          else LZ4_decompress_safe_doubleDict fast mem source dest compressedSize maxOutputSize
                 (prefixSize sd) (externalDict sd) (extDictSize sd));
       if result \<le> 0 then Some (result, sd, mem)
       else Some (result, sd\<lparr>prefixSize := prefixSize sd + result, prefixEnd := prefixEnd sd + result\<rparr>, mem) }
     else let sd = sd\<lparr>extDictSize := prefixSize sd, externalDict := prefixEnd sd - prefixSize sd\<rparr> in do {
       (result, mem) \<leftarrow> LZ4_decompress_safe_forceExtDict fast mem source dest compressedSize maxOutputSize
                          (externalDict sd) (extDictSize sd);
       if result \<le> 0 then Some (result, sd, mem)
       else Some (result, sd\<lparr>prefixSize := result, prefixEnd := dest + result\<rparr>, mem) })"

text \<open>
  The history of a stream: the external dictionary followed by the prefix, both where they
  were decoded. \<open>sd_wf\<close> is the invariant of the context; \<open>sd_clear\<close> says that a call may
  write \<open>cap\<close> bytes at \<open>dest\<close> without touching the history it is going to use.
\<close>

definition sd_wf :: "streamDecode \<Rightarrow> bool" where
  "sd_wf sd \<longleftrightarrow> 0 \<le> extDictSize sd \<and> 0 \<le> prefixSize sd \<and> (prefixSize sd = 0 \<longrightarrow> extDictSize sd = 0)"

definition sd_history :: "memory \<Rightarrow> streamDecode \<Rightarrow> bytes" where
  "sd_history mem sd = history mem (prefixEnd sd) (prefixSize sd) (externalDict sd) (extDictSize sd)"

text \<open>The history a call with destination \<open>dest\<close> decodes against: moving to another buffer
  turns the prefix into the external dictionary and forgets the older one.\<close>

definition sd_turn :: "streamDecode \<Rightarrow> int \<Rightarrow> streamDecode" where
  "sd_turn sd dest = (if prefixSize sd = 0 \<or> prefixEnd sd = dest then sd
     else sd\<lparr>extDictSize := prefixSize sd, externalDict := prefixEnd sd - prefixSize sd,
             prefixSize := 0, prefixEnd := dest\<rparr>)"

definition sd_clear :: "streamDecode \<Rightarrow> int \<Rightarrow> int \<Rightarrow> bool" where
  "sd_clear sd dest cap \<longleftrightarrow> apart (externalDict (sd_turn sd dest)) (extDictSize (sd_turn sd dest)) dest cap"

text \<open>Which call a step of the stream makes; the history of the 64 KB mode is cut to 64 KB - 1.\<close>

definition sd_call :: "bool \<Rightarrow> memory \<Rightarrow> streamDecode \<Rightarrow> int \<Rightarrow> int \<Rightarrow> int \<Rightarrow> int \<Rightarrow> (int \<times> memory) option" where
  "sd_call fast mem sd source dest csize cap =
    (if prefixSize sd \<ge> 65535 then call_decoder fast mem source dest csize cap False withPrefix64k 65535 (-1) 0 0
     else if extDictSize sd = 0 then call_decoder fast mem source dest csize cap False noDict (prefixSize sd) 0 0 0
     else call_decoder fast mem source dest csize cap False usingExtDict (prefixSize sd) 0
            (externalDict sd) (extDictSize sd))"

lemma continue_sd_call:
  assumes "sd_wf sd"
  shows "LZ4_decompress_safe_continue fast mem sd source dest csize cap = do {
     (n, mem) \<leftarrow> sd_call fast mem (sd_turn sd dest) source dest csize cap;
     Some (n, if n \<le> 0 then (if prefixSize sd = 0 \<or> prefixEnd sd = dest then sd
                else sd\<lparr>extDictSize := prefixSize sd, externalDict := prefixEnd sd - prefixSize sd\<rparr>)
              else (sd_turn sd dest)\<lparr>prefixSize := prefixSize (sd_turn sd dest) + n, prefixEnd := dest + n\<rparr>, mem) }"
proof -
  have e: "prefixSize sd = 0 \<Longrightarrow> extDictSize sd = 0" "0 \<le> prefixSize sd" using assms by (auto simp: sd_wf_def)
  consider "prefixSize sd = 0" | "prefixSize sd \<noteq> 0" "prefixEnd sd = dest" | "prefixSize sd \<noteq> 0" "prefixEnd sd \<noteq> dest" by blast
  then show ?thesis
  proof cases
    case 1
    then show ?thesis using e
      by (auto simp: LZ4_decompress_safe_continue_def LZ4_decompress_safe_def sd_call_def sd_turn_def
          intro!: arg_cong2[where f = Option.bind] ext)
  next
    case 2
    then show ?thesis
      by (auto simp: LZ4_decompress_safe_continue_def sd_call_def sd_turn_def
          LZ4_decompress_safe_withPrefix64k_def LZ4_decompress_safe_withSmallPrefix_def LZ4_decompress_safe_doubleDict_def
          intro!: arg_cong2[where f = Option.bind] ext)
  next
    case 3
    then have turn: "sd_turn sd dest = sd\<lparr>extDictSize := prefixSize sd, externalDict := prefixEnd sd - prefixSize sd,
             prefixSize := 0, prefixEnd := dest\<rparr>" by (simp add: sd_turn_def)
    show ?thesis using e 3
      by (auto simp: LZ4_decompress_safe_continue_def sd_call_def turn LZ4_decompress_safe_forceExtDict_def Let_def
          intro!: arg_cong2[where f = Option.bind] ext)
  qed
qed

lemma sd_history_split:
  assumes "65535 \<le> prefixSize sd"
  shows "sd_history mem sd = (read_mem mem (externalDict sd) (extDictSize sd)
      @ read_mem mem (prefixEnd sd - prefixSize sd) (prefixSize sd - 65535)) @ history mem (prefixEnd sd) 65535 0 0"
proof -
  have "read_mem mem (prefixEnd sd - prefixSize sd) (prefixSize sd)
      = read_mem mem (prefixEnd sd - prefixSize sd) (prefixSize sd - 65535) @ read_mem mem (prefixEnd sd - 65535) 65535"
    using read_mem_split[of "prefixSize sd - 65535" 65535 mem "prefixEnd sd - prefixSize sd"] assms by simp
  then show ?thesis by (simp add: sd_history_def read_mem_def)
qed

lemma sd_call_ok:
  assumes b: "0 \<le> prefixSize sd" "0 \<le> extDictSize sd" and "0 \<le> csize" "apart source csize dest cap"
    and ap: "apart (externalDict sd) (extDictSize sd) dest cap"
    and p: "prefixSize sd \<noteq> 0 \<longrightarrow> prefixEnd sd = dest"
  shows "wp (sd_call fast mem sd source dest csize cap) (\<lambda>(n, mem').
    (\<forall>p. p < dest \<or> dest + cap \<le> p \<longrightarrow> mem' p = mem p) \<and> n \<le> max 0 cap
    \<and> (0 \<le> n \<longrightarrow> decodes_to (sd_history mem sd) (read_mem mem source csize) (read_mem mem' dest n)))"
proof -
  have ap0: "apart a 0 dest cap" for a by (simp add: apart_def)
  show ?thesis
  proof (cases "prefixSize sd \<ge> 65535")
    case True
    have "wp (call_decoder fast mem source dest csize cap False withPrefix64k 65535 (-1) 0 0) (\<lambda>(n, mem').
      (\<forall>p. p < dest \<or> dest + cap \<le> p \<longrightarrow> mem' p = mem p) \<and> n \<le> max 0 cap
      \<and> (0 \<le> n \<and> \<not> False \<longrightarrow> decodes_to (history mem dest 65535 0 0) (read_mem mem source csize) (read_mem mem' dest n)))"
      by (rule call_decoder_ok) (use assms(3,4) ap0 in \<open>auto simp: mode_ok_def\<close>)
    then show ?thesis
      using True p b unfolding sd_call_def if_P[OF True] sd_history_split[OF True]
      by (auto elim!: wp_mono intro: decodes_to_longer)
  next
    case False
    show ?thesis
    proof (cases "extDictSize sd = 0")
      case True
      have "history mem dest (prefixSize sd) 0 0 = sd_history mem sd"
        using True p by (cases "prefixSize sd = 0") (simp_all add: sd_history_def read_mem_def)
      moreover have "wp (call_decoder fast mem source dest csize cap False noDict (prefixSize sd) 0 0 0) (\<lambda>(n, mem').
        (\<forall>p. p < dest \<or> dest + cap \<le> p \<longrightarrow> mem' p = mem p) \<and> n \<le> max 0 cap
        \<and> (0 \<le> n \<and> \<not> False \<longrightarrow> decodes_to (history mem dest (prefixSize sd) 0 0) (read_mem mem source csize) (read_mem mem' dest n)))"
        by (rule call_decoder_ok) (use assms(3,4) ap0 b in \<open>auto simp: mode_ok_def\<close>)
      ultimately show ?thesis using True False by (simp add: sd_call_def)
    next
      case nz: False
      have "history mem dest (prefixSize sd) (externalDict sd) (extDictSize sd) = sd_history mem sd"
        using p by (cases "prefixSize sd = 0") (simp_all add: sd_history_def read_mem_def)
      moreover have "wp (call_decoder fast mem source dest csize cap False usingExtDict (prefixSize sd) 0
          (externalDict sd) (extDictSize sd)) (\<lambda>(n, mem').
        (\<forall>p. p < dest \<or> dest + cap \<le> p \<longrightarrow> mem' p = mem p) \<and> n \<le> max 0 cap
        \<and> (0 \<le> n \<and> \<not> False \<longrightarrow> decodes_to (history mem dest (prefixSize sd) (externalDict sd) (extDictSize sd))
              (read_mem mem source csize) (read_mem mem' dest n)))"
        by (rule call_decoder_ok) (use assms(3,4) ap b in \<open>auto simp: mode_ok_def\<close>)
      ultimately show ?thesis using nz False by (simp add: sd_call_def)
    qed
  qed
qed

lemma sd_call_complete:
  assumes b: "0 \<le> prefixSize sd" "0 \<le> extDictSize sd" and "0 \<le> csize" "apart source csize dest cap"
    and ap: "apart (externalDict sd) (extDictSize sd) dest cap"
    and p: "prefixSize sd \<noteq> 0 \<longrightarrow> prefixEnd sd = dest"
    and addr: "0 < source" "source + csize < 2 ^ 64" "prefixSize sd \<le> dest" "dest + cap < 2 ^ 64"
    and blk: "block_of (sd_history mem sd) (read_mem mem source csize) out" and fits: "int (length out) \<le> cap"
  shows "\<exists>mem'. sd_call fast mem sd source dest csize cap = Some (int (length out), mem')"
proof -
  have ap0: "apart a 0 dest cap" for a by (simp add: apart_def)
  show ?thesis
  proof (cases "prefixSize sd \<ge> 65535")
    case True
    have pe: "prefixEnd sd = dest" using p True by auto
    have "block_of (history mem dest 65535 0 0) (read_mem mem source csize) out"
      using blk unfolding sd_history_split[OF True] pe by (rule block_of_shorter) simp
    then have "\<exists>mem'. call_decoder fast mem source dest csize cap False withPrefix64k 65535 (-1) 0 0
        = Some (int (length out), mem')"
      by (intro call_decoder_complete) (use assms(3,4) ap0 addr fits True in \<open>auto simp: mode_ok_def\<close>)
    then show ?thesis using True by (simp add: sd_call_def)
  next
    case False
    show ?thesis
    proof (cases "extDictSize sd = 0")
      case True
      have h: "history mem dest (prefixSize sd) 0 0 = sd_history mem sd"
        using True p by (cases "prefixSize sd = 0") (simp_all add: sd_history_def read_mem_def)
      have "\<exists>mem'. call_decoder fast mem source dest csize cap False noDict (prefixSize sd) 0 0 0
          = Some (int (length out), mem')"
        by (rule call_decoder_complete) (use assms(3,4) ap0 b addr fits blk h in \<open>auto simp: mode_ok_def\<close>)
      then show ?thesis using True False by (simp add: sd_call_def)
    next
      case nz: False
      have h: "history mem dest (prefixSize sd) (externalDict sd) (extDictSize sd) = sd_history mem sd"
        using p by (cases "prefixSize sd = 0") (simp_all add: sd_history_def read_mem_def)
      have "\<exists>mem'. call_decoder fast mem source dest csize cap False usingExtDict (prefixSize sd) 0
          (externalDict sd) (extDictSize sd) = Some (int (length out), mem')"
        by (rule call_decoder_complete) (use assms(3,4) ap b addr fits blk h in \<open>auto simp: mode_ok_def\<close>)
      then show ?thesis using nz False by (simp add: sd_call_def)
    qed
  qed
qed

lemma sd_turn_facts:
  assumes "sd_wf sd"
  shows "0 \<le> prefixSize (sd_turn sd dest)" "0 \<le> extDictSize (sd_turn sd dest)"
    "prefixSize (sd_turn sd dest) \<noteq> 0 \<longrightarrow> prefixEnd (sd_turn sd dest) = dest"
  using assms by (auto simp: sd_wf_def sd_turn_def)

definition sd_next :: "streamDecode \<Rightarrow> int \<Rightarrow> int \<Rightarrow> streamDecode" where
  "sd_next sd dest n = (sd_turn sd dest)\<lparr>prefixSize := prefixSize (sd_turn sd dest) + n, prefixEnd := dest + n\<rparr>"

lemma sd_next_wf: "sd_wf sd \<Longrightarrow> 0 < n \<Longrightarrow> sd_wf (sd_next sd dest n)"
  by (auto simp: sd_wf_def sd_next_def sd_turn_def)

lemma sd_next_history:
  assumes wf: "sd_wf sd" and c: "sd_clear sd dest cap" "0 < n" "n \<le> cap"
    and f: "\<forall>p. p < dest \<or> dest + cap \<le> p \<longrightarrow> mem' p = mem p"
  shows "sd_history mem' (sd_next sd dest n) = sd_history mem (sd_turn sd dest) @ read_mem mem' dest n"
proof -
  let ?t = "sd_turn sd dest"
  note t = sd_turn_facts[OF wf, of dest]
  have e: "read_mem mem' (externalDict ?t) (extDictSize ?t) = read_mem mem (externalDict ?t) (extDictSize ?t)"
    using c f unfolding sd_clear_def apart_def read_mem_def by (auto intro!: map_cong)
  have p: "read_mem mem' (dest - prefixSize ?t) (prefixSize ?t) = read_mem mem (dest - prefixSize ?t) (prefixSize ?t)"
    using f unfolding read_mem_def by (auto intro!: map_cong)
  have q: "read_mem mem (prefixEnd ?t - prefixSize ?t) (prefixSize ?t) = read_mem mem (dest - prefixSize ?t) (prefixSize ?t)"
    using t(3) by (cases "prefixSize ?t = 0") (auto simp: read_mem_def)
  have "read_mem mem' (dest - prefixSize ?t) (prefixSize ?t + n)
      = read_mem mem' (dest - prefixSize ?t) (prefixSize ?t) @ read_mem mem' dest n"
    using read_mem_split[of "prefixSize ?t" n mem' "dest - prefixSize ?t"] t(1) c by simp
  then show ?thesis by (simp add: sd_history_def sd_next_def e p q algebra_simps)
qed

text \<open>The contract of one step of a stream, and that it accepts every well-formed block.\<close>

lemma continue_ok:
  assumes wf: "sd_wf sd" and "0 \<le> csize" "apart source csize dest cap" and c: "sd_clear sd dest cap"
  shows "wp (LZ4_decompress_safe_continue fast mem sd source dest csize cap) (\<lambda>(n, sd', mem').
    sd_wf sd' \<and> (\<forall>p. p < dest \<or> dest + cap \<le> p \<longrightarrow> mem' p = mem p) \<and> n \<le> max 0 cap
    \<and> (0 \<le> n \<longrightarrow> decodes_to (sd_history mem (sd_turn sd dest)) (read_mem mem source csize) (read_mem mem' dest n))
    \<and> (0 < n \<longrightarrow> sd' = sd_next sd dest n
         \<and> sd_history mem' sd' = sd_history mem (sd_turn sd dest) @ read_mem mem' dest n))"
proof -
  have "wp (sd_call fast mem (sd_turn sd dest) source dest csize cap) (\<lambda>(n, mem').
    (\<forall>p. p < dest \<or> dest + cap \<le> p \<longrightarrow> mem' p = mem p) \<and> n \<le> max 0 cap
    \<and> (0 \<le> n \<longrightarrow> decodes_to (sd_history mem (sd_turn sd dest)) (read_mem mem source csize) (read_mem mem' dest n)))"
    by (rule sd_call_ok[OF sd_turn_facts(1,2)[OF wf] assms(2,3) c[unfolded sd_clear_def] sd_turn_facts(3)[OF wf]])
  then show ?thesis
    unfolding continue_sd_call[OF wf] wp_bind
  proof (rule wp_mono)
    fix r assume r: "case r of (n, mem') \<Rightarrow> (\<forall>p. p < dest \<or> dest + cap \<le> p \<longrightarrow> mem' p = mem p) \<and> n \<le> max 0 cap
      \<and> (0 \<le> n \<longrightarrow> decodes_to (sd_history mem (sd_turn sd dest)) (read_mem mem source csize) (read_mem mem' dest n))"
    obtain n mem' where rr: "r = (n, mem')" by (cases r)
    have f: "\<forall>p. p < dest \<or> dest + cap \<le> p \<longrightarrow> mem' p = mem p" and n: "n \<le> max 0 cap" using r rr by auto
    have w: "sd_wf (sd\<lparr>extDictSize := prefixSize sd, externalDict := prefixEnd sd - prefixSize sd\<rparr>)"
      using wf by (simp add: sd_wf_def)
    show "wp (case r of (n, mem') \<Rightarrow> Some (n, if n \<le> 0 then (if prefixSize sd = 0 \<or> prefixEnd sd = dest then sd
          else sd\<lparr>extDictSize := prefixSize sd, externalDict := prefixEnd sd - prefixSize sd\<rparr>)
        else (sd_turn sd dest)\<lparr>prefixSize := prefixSize (sd_turn sd dest) + n, prefixEnd := dest + n\<rparr>, mem'))
      (\<lambda>(n, sd', mem'). sd_wf sd' \<and> (\<forall>p. p < dest \<or> dest + cap \<le> p \<longrightarrow> mem' p = mem p) \<and> n \<le> max 0 cap
      \<and> (0 \<le> n \<longrightarrow> decodes_to (sd_history mem (sd_turn sd dest)) (read_mem mem source csize) (read_mem mem' dest n))
      \<and> (0 < n \<longrightarrow> sd' = sd_next sd dest n
         \<and> sd_history mem' sd' = sd_history mem (sd_turn sd dest) @ read_mem mem' dest n))"
    proof (cases "n \<le> 0")
      case True
      with r rr wf w f n show ?thesis by (auto simp: wp_Some)
    next
      case False
      then have k: "0 < n" "n \<le> cap" using n by auto
      with r rr f sd_next_wf[OF wf k(1)] sd_next_history[OF wf c k f] show ?thesis
        by (auto simp: wp_Some sd_next_def)
    qed
  qed
qed

lemma continue_complete:
  assumes wf: "sd_wf sd" and "0 \<le> csize" "apart source csize dest cap" and c: "sd_clear sd dest cap"
    and addr: "0 < source" "source + csize < 2 ^ 64" "prefixSize (sd_turn sd dest) \<le> dest" "dest + cap < 2 ^ 64"
    and blk: "block_of (sd_history mem (sd_turn sd dest)) (read_mem mem source csize) out"
    and fits: "int (length out) \<le> cap"
  shows "\<exists>sd' mem'. LZ4_decompress_safe_continue fast mem sd source dest csize cap = Some (int (length out), sd', mem')
    \<and> read_mem mem' dest (int (length out)) = out"
proof -
  obtain mem' where m: "sd_call fast mem (sd_turn sd dest) source dest csize cap = Some (int (length out), mem')"
    using sd_call_complete[OF sd_turn_facts(1,2)[OF wf] assms(2,3) c[unfolded sd_clear_def] sd_turn_facts(3)[OF wf] addr blk fits]
    by blast
  then obtain sd' where r: "LZ4_decompress_safe_continue fast mem sd source dest csize cap = Some (int (length out), sd', mem')"
    by (auto simp: continue_sd_call[OF wf])
  then have "decodes_to (sd_history mem (sd_turn sd dest)) (read_mem mem source csize) (read_mem mem' dest (int (length out)))"
    using continue_ok[OF wf assms(2,3) c, of fast mem] by (auto simp: wp_Some)
  then have "read_mem mem' dest (int (length out)) = out"
    using decodes_to_unique block_of_decodes[OF blk] by blast
  then show ?thesis using r by blast
qed

text \<open>\<open>LZ4_decompress_safe_usingDict\<close> is one such call on a context made for the occasion.\<close>

definition sd_of_dict :: "int \<Rightarrow> int \<Rightarrow> int \<Rightarrow> streamDecode" where
  "sd_of_dict dest dictStart dictSz =
     (if dictStart + dictSz = dest then \<lparr>externalDict = 0, prefixEnd = dest, extDictSize = 0, prefixSize = dictSz\<rparr>
      else \<lparr>externalDict = dictStart, prefixEnd = dest, extDictSize = dictSz, prefixSize = 0\<rparr>)"

lemma usingDict_sd_call:
  "LZ4_decompress_safe_usingDict fast mem source dest csize cap dictStart dictSz
     = sd_call fast mem (sd_of_dict dest dictStart dictSz) source dest csize cap"
  by (simp add: LZ4_decompress_safe_usingDict_def sd_call_def sd_of_dict_def LZ4_decompress_safe_def
      LZ4_decompress_safe_withPrefix64k_def LZ4_decompress_safe_withSmallPrefix_def
      LZ4_decompress_safe_forceExtDict_def)

lemma sd_of_dict_history:
  "0 \<le> dictSz \<Longrightarrow> sd_history mem (sd_of_dict dest dictStart dictSz) = read_mem mem dictStart dictSz"
  by (auto simp: sd_history_def sd_of_dict_def read_mem_def)

lemma sd_of_dict_apart:
  "apart dictStart dictSz dest cap \<Longrightarrow> apart (externalDict (sd_of_dict dest dictStart dictSz))
     (extDictSize (sd_of_dict dest dictStart dictSz)) dest cap"
  by (auto simp: sd_of_dict_def apart_def)

text \<open>Decoding arbitrary input with a dictionary.\<close>

lemma usingDict_sound:
  assumes "0 \<le> csize" "0 \<le> dictSz" "apart source csize dest cap" "apart dictStart dictSz dest cap"
  shows "\<exists>n mem'. LZ4_decompress_safe_usingDict fast mem source dest csize cap dictStart dictSz = Some (n, mem')
    \<and> (\<forall>p. p < dest \<or> dest + cap \<le> p \<longrightarrow> mem' p = mem p) \<and> n \<le> max 0 cap
    \<and> (0 \<le> n \<longrightarrow> decodes_to (read_mem mem dictStart dictSz) (read_mem mem source csize) (read_mem mem' dest n))"
proof -
  have "wp (sd_call fast mem (sd_of_dict dest dictStart dictSz) source dest csize cap) (\<lambda>(n, mem').
    (\<forall>p. p < dest \<or> dest + cap \<le> p \<longrightarrow> mem' p = mem p) \<and> n \<le> max 0 cap
    \<and> (0 \<le> n \<longrightarrow> decodes_to (sd_history mem (sd_of_dict dest dictStart dictSz))
          (read_mem mem source csize) (read_mem mem' dest n)))"
    by (rule sd_call_ok) (use assms sd_of_dict_apart[OF assms(4)] in \<open>auto simp: sd_of_dict_def\<close>)
  then show ?thesis
    unfolding usingDict_sd_call sd_of_dict_history[OF assms(2)] wp_iff by auto
qed

text \<open>Decoding with a dictionary, a block that is well-formed.\<close>

lemma usingDict_complete:
  assumes "0 \<le> csize" "0 \<le> dictSz" "apart source csize dest cap" "apart dictStart dictSz dest cap"
    and "0 < source" "source + csize < 2 ^ 64" "0 \<le> dest" "0 \<le> dictStart" "dest + cap < 2 ^ 64"
    and "block_of (read_mem mem dictStart dictSz) (read_mem mem source csize) out" "int (length out) \<le> cap"
  shows "\<exists>mem'. LZ4_decompress_safe_usingDict fast mem source dest csize cap dictStart dictSz
      = Some (int (length out), mem') \<and> read_mem mem' dest (int (length out)) = out"
proof -
  have h: "block_of (sd_history mem (sd_of_dict dest dictStart dictSz)) (read_mem mem source csize) out"
    using assms(10) by (simp add: sd_of_dict_history assms(2))
  have "\<exists>mem'. sd_call fast mem (sd_of_dict dest dictStart dictSz) source dest csize cap = Some (int (length out), mem')"
    by (rule sd_call_complete[OF _ _ assms(1,3) sd_of_dict_apart[OF assms(4)] _ assms(5,6) _ assms(9) h assms(11)])
       (use assms in \<open>auto simp: sd_of_dict_def\<close>)
  then obtain mem' where c: "sd_call fast mem (sd_of_dict dest dictStart dictSz) source dest csize cap
      = Some (int (length out), mem')" by blast
  have "wp (sd_call fast mem (sd_of_dict dest dictStart dictSz) source dest csize cap) (\<lambda>(n, mem').
    (\<forall>p. p < dest \<or> dest + cap \<le> p \<longrightarrow> mem' p = mem p) \<and> n \<le> max 0 cap
    \<and> (0 \<le> n \<longrightarrow> decodes_to (sd_history mem (sd_of_dict dest dictStart dictSz))
          (read_mem mem source csize) (read_mem mem' dest n)))"
    by (rule sd_call_ok) (use assms sd_of_dict_apart[OF assms(4)] in \<open>auto simp: sd_of_dict_def\<close>)
  then have "decodes_to (sd_history mem (sd_of_dict dest dictStart dictSz))
      (read_mem mem source csize) (read_mem mem' dest (int (length out)))"
    using c by (simp add: wp_Some)
  then have "read_mem mem' dest (int (length out)) = out"
    using decodes_to_unique block_of_decodes[OF h] by blast
  then show ?thesis using c by (simp add: usingDict_sd_call)
qed

section \<open>Properties\<close>

text \<open>C7. \<open>LZ4_decompress_safe_usingDict\<close> on arbitrary input: for a dictionary of any size, adjacent
  to the output or anywhere else, the call touches nothing outside \<open>dest\<close> \<dots> \<open>dest + cap\<close>,
  returns at most \<open>cap\<close>, and when it returns \<open>n \<ge> 0\<close> the input was a block that stands for
  the \<open>n\<close> bytes written, after the dictionary.\<close>

theorem LZ4_decompress_safe_usingDict_sound:
  assumes "0 \<le> csize" "0 \<le> dictSz" "apart source csize dest cap" "apart dictStart dictSz dest cap"
  shows "\<exists>n mem'. LZ4_decompress_safe_usingDict fast mem source dest csize cap dictStart dictSz = Some (n, mem')
    \<and> (\<forall>p. p < dest \<or> dest + cap \<le> p \<longrightarrow> mem' p = mem p) \<and> n \<le> max 0 cap
    \<and> (0 \<le> n \<longrightarrow> decodes_to (read_mem mem dictStart dictSz) (read_mem mem source csize) (read_mem mem' dest n))"
  by (rule usingDict_sound[OF assms])

text \<open>An address space for the examples: the block of a demo at address 4096, zeros elsewhere.\<close>

definition demo_memory :: memory where
  "demo_memory = write_mem (\<lambda>p. 0) 4096 demo_block"

lemma demo_memory_block: "read_mem demo_memory 4096 12 = demo_block"
  using read_write_part[of 0 12 demo_block "\<lambda>p. 0" 4096] seg_full[of demo_block]
  by (simp add: demo_memory_def demo_block_bytes)

definition demo_data :: bytes where
  "demo_data = concat (replicate 5 [97, 98, 99]) @ [49, 50, 51, 52, 53]"

lemma length_demo_data: "length demo_data = 20"
  by (simp add: demo_data_def numeral_eq_Suc)

lemma demo_expand: "expand [] [Seq [97, 98, 99] 3 12] @ [49, 50, 51, 52, 53] = demo_data"
  by (simp add: demo_data_def numeral_eq_Suc)

lemma demo_block_of: "block_of [] demo_block demo_data"
  unfolding block_of_def demo_block_def demo_expand[symmetric]
  by (intro exI[of _ "[Seq [97, 98, 99] 3 12]"] exI[of _ "[49, 50, 51, 52, 53]"])
     (simp add: seq_ok_def ends_ok_def)

lemma LZ4_decompress_safe_usingDict_sound_witness:
  "\<exists>n mem'. LZ4_decompress_safe_usingDict True demo_memory 4096 65536 12 20 0 0 = Some (n, mem') \<and> n \<le> 20
    \<and> (0 \<le> n \<longrightarrow> decodes_to [] demo_block (read_mem mem' 65536 n))"
proof -
  have "apart 4096 12 65536 20" "apart 0 0 65536 20" by (simp_all add: apart_def)
  from LZ4_decompress_safe_usingDict_sound[OF _ _ this, of True demo_memory] show ?thesis
    by (auto simp: demo_memory_block read_mem_def[of demo_memory 0 0])
qed

text \<open>C8. \<open>LZ4_decompress_safe_usingDict\<close> decodes every well-formed block that fits: the value
  returned is the size of the data, and the data stands at \<open>dest\<close>.\<close>

theorem LZ4_decompress_safe_usingDict_complete:
  assumes "0 \<le> csize" "0 \<le> dictSz" "apart source csize dest cap" "apart dictStart dictSz dest cap"
    and "0 < source" "source + csize < 2 ^ 64" "0 \<le> dest" "0 \<le> dictStart" "dest + cap < 2 ^ 64"
    and "block_of (read_mem mem dictStart dictSz) (read_mem mem source csize) out" "int (length out) \<le> cap"
  shows "\<exists>mem'. LZ4_decompress_safe_usingDict fast mem source dest csize cap dictStart dictSz
      = Some (int (length out), mem') \<and> read_mem mem' dest (int (length out)) = out"
  by (rule usingDict_complete[OF assms])

lemma LZ4_decompress_safe_usingDict_complete_witness:
  "\<exists>mem'. LZ4_decompress_safe_usingDict False demo_memory 4096 65536 12 20 0 0 = Some (20, mem')
    \<and> read_mem mem' 65536 20 = demo_data"
proof -
  have "apart 4096 12 65536 20" "apart 0 0 65536 20" by (simp_all add: apart_def)
  from LZ4_decompress_safe_usingDict_complete[OF _ _ this, of demo_memory demo_data False] show ?thesis
    using demo_block_of by (simp add: demo_memory_block read_mem_def[of demo_memory 0 0] length_demo_data)
qed

text \<open>C9. One step of a stream, on arbitrary input: the context invariant is kept, nothing outside
  the output buffer changes, and after a step that returns \<open>n > 0\<close> the history of the context
  is the history the block was decoded against followed by the \<open>n\<close> bytes it stands for.
  Moving to another buffer turns the prefix into the external dictionary (\<open>sd_turn\<close>).\<close>

theorem LZ4_decompress_safe_continue_step:
  assumes "sd_wf sd" "0 \<le> csize" "apart source csize dest cap" "sd_clear sd dest cap"
  shows "\<exists>n sd' mem'. LZ4_decompress_safe_continue fast mem sd source dest csize cap = Some (n, sd', mem')
    \<and> sd_wf sd' \<and> (\<forall>p. p < dest \<or> dest + cap \<le> p \<longrightarrow> mem' p = mem p) \<and> n \<le> max 0 cap
    \<and> (0 < n \<longrightarrow> decodes_to (sd_history mem (sd_turn sd dest)) (read_mem mem source csize) (read_mem mem' dest n)
         \<and> sd_history mem' sd' = sd_history mem (sd_turn sd dest) @ read_mem mem' dest n)"
  using continue_ok[OF assms, of fast mem] by (auto simp: wp_iff)

lemma LZ4_decompress_safe_continue_step_witness:
  "\<exists>n sd' mem'. LZ4_decompress_safe_continue True demo_memory (LZ4_setStreamDecode 0 0) 4096 65536 12 20
      = Some (n, sd', mem') \<and> sd_wf sd' \<and> n \<le> 20"
proof -
  have w: "sd_wf (LZ4_setStreamDecode 0 0)" by (simp add: sd_wf_def LZ4_setStreamDecode_def)
  have "apart 4096 12 65536 20" by (simp add: apart_def)
  moreover have "sd_clear (LZ4_setStreamDecode 0 0) 65536 20"
    by (simp add: sd_clear_def sd_turn_def LZ4_setStreamDecode_def apart_def)
  ultimately show ?thesis
    using LZ4_decompress_safe_continue_step[OF w, of 12 4096 65536 20 True demo_memory] by auto
qed

text \<open>C10. One step of a stream decodes every block that is well-formed after the history of the
  stream and fits the output buffer, whether it continues the prefix (with 64 KB of it, less,
  or with an external dictionary besides) or starts in another buffer.\<close>

theorem LZ4_decompress_safe_continue_complete:
  assumes "sd_wf sd" "0 \<le> csize" "apart source csize dest cap" "sd_clear sd dest cap"
    and "0 < source" "source + csize < 2 ^ 64" "prefixSize (sd_turn sd dest) \<le> dest" "dest + cap < 2 ^ 64"
    and "block_of (sd_history mem (sd_turn sd dest)) (read_mem mem source csize) out" "int (length out) \<le> cap"
  shows "\<exists>sd' mem'. LZ4_decompress_safe_continue fast mem sd source dest csize cap = Some (int (length out), sd', mem')
    \<and> read_mem mem' dest (int (length out)) = out"
  by (rule continue_complete[OF assms])

lemma LZ4_decompress_safe_continue_complete_witness:
  "\<exists>sd' mem'. LZ4_decompress_safe_continue True demo_memory (LZ4_setStreamDecode 0 0) 4096 65536 12 20
      = Some (20, sd', mem')
    \<and> read_mem mem' 65536 20 = demo_data"
proof -
  let ?sd = "LZ4_setStreamDecode 0 0"
  have w: "sd_wf ?sd" by (simp add: sd_wf_def LZ4_setStreamDecode_def)
  have t: "sd_turn ?sd 65536 = ?sd" by (simp add: sd_turn_def LZ4_setStreamDecode_def)
  have h: "sd_history demo_memory ?sd = []" by (simp add: sd_history_def LZ4_setStreamDecode_def read_mem_def)
  have c: "apart 4096 12 65536 20" "sd_clear ?sd 65536 20"
    by (simp_all add: sd_clear_def t) (simp_all add: LZ4_setStreamDecode_def apart_def)
  show ?thesis
    using LZ4_decompress_safe_continue_complete[OF w _ c, of demo_memory demo_data True] demo_block_of
    by (simp add: t h demo_memory_block length_demo_data) (simp add: LZ4_setStreamDecode_def)
qed

end
