(* ===== verification/LZ4_Compress_Emit.thy ===== *)
theory LZ4_Compress_Emit
  imports LZ4_Compress_Search LZ4_Decompress_Api
begin

text \<open>
  The output side of the compressor: each of its writing steps appends the bytes that the
  grammar asks for, although several of them write ahead of the position they reach. The
  output so far is a \<open>prefix\<close> of the output buffer.
\<close>

section \<open>Appending to the output\<close>

lemma prefix_upd:
  assumes "prefix A m" "length A + length bs \<le> length m"
  shows "prefix (A @ bs) (upd m (int (length A)) bs)"
  using assms by (auto simp: prefix_def upd_def)

lemma prefix_upd_mid:
  assumes "prefix (A @ t # R) m"
  shows "prefix (A @ t' # R) (upd m (int (length A)) [t']) \<and> at m (int (length A)) = t"
  using assms by (auto simp: prefix_def upd_def at_def)

lemma prefix_ext_copied:
  assumes p: "prefix A m" and c: "ext_copied m m' (int (length A)) x s n" and b: "int (length A) + n \<le> int (length m)" "0 \<le> n"
    "0 \<le> s" "s + n \<le> int (length x)"
  shows "prefix (A @ seg x s (s + n)) m'"
proof -
  have l: "length m' = length m" using c by (auto simp: ext_copied_def frame_below_def)
  have "take (length A + nat n) m' = A @ seg x s (s + n)"
  proof (rule nth_equalityI)
    show "length (take (length A + nat n) m') = length (A @ seg x s (s + n))" using l b by auto
    fix i assume i: "i < length (take (length A + nat n) m')"
    show "take (length A + nat n) m' ! i = (A @ seg x s (s + n)) ! i"
    proof (cases "i < length A")
      case True
      then have "m' ! i = m ! i" using c unfolding ext_copied_def frame_below_def at_def
        by (metis nat_int of_nat_0_le_iff of_nat_less_iff)
      also have "\<dots> = A ! i" using p True by (auto simp: prefix_def nth_append)
      finally show ?thesis using True i by (simp add: nth_append)
    next
      case False
      then have k: "i - length A < nat n" using i by auto
      then have "at m' (int (length A) + int (i - length A)) = at x (s + int (i - length A))"
        using c by (auto simp: ext_copied_def)
      moreover have "nat (s + int (i - length A)) = nat s + (i - length A)"
        "nat (int (length A) + int (i - length A)) = i" using False b by linarith+
      ultimately have "m' ! i = x ! (nat s + (i - length A))" by (simp only: at_def)
      then show ?thesis using False i k b by (simp add: nth_append nth_seg)
    qed
  qed
  then show ?thesis by (metis take_is_prefix)
qed

text \<open>\<open>writes c op bs m\<close>: run on an output that begins with \<open>A\<close>, \<open>c\<close> appends \<open>bs\<close>.\<close>

definition appended :: "bytes \<Rightarrow> bytes \<Rightarrow> int \<times> bytes \<Rightarrow> bool" where
  "appended A m r \<longleftrightarrow> prefix A (snd r) \<and> length (snd r) = length m \<and> fst r = int (length A)"

lemma write_ext_ok:
  assumes "prefix A m" "0 \<le> n" "int (length A) + n div 255 + 1 \<le> int (length m)"
  shows "wp (write_ext m (int (length A)) n) (appended (A @ enc_ext (nat n)) m)"
  using assms
proof (induction "nat n" arbitrary: A m n rule: less_induct)
  case less
  have p: "prefix (A @ [b]) (upd m (int (length A)) [b])" for b
    using less.prems by (intro prefix_upd) auto
  have b: "in_buf m (int (length A)) 1" using less.prems by (auto simp: in_buf_def)
  show ?case
  proof (cases "255 \<le> n")
    case True
    have d: "n div 255 = (n - 255) div 255 + 1" using True by simp
    have "wp (write_ext (upd m (int (length A)) [255]) (int (length (A @ [255]))) (n - 255))
        (appended ((A @ [255]) @ enc_ext (nat (n - 255))) (upd m (int (length A)) [255]))"
      using True less.prems p b d by (intro less.hyps) auto
    moreover have "enc_ext (nat n) = 255 # enc_ext (nat (n - 255))"
      using True by (subst enc_ext.simps) (simp add: nat_diff_distrib)
    ultimately show ?thesis
      using True b by (subst write_ext.simps) (simp add: wp_simps appended_def[abs_def] add.commute)
  next
    case False
    then have "enc_ext (nat n) = [of_int n]"
      using less.prems by (subst enc_ext.simps) (simp add: of_nat_nat)
    then show ?thesis
      using False b p by (subst write_ext.simps) (simp add: wp_simps appended_def add.commute)
  qed
qed

lemma enc_ext_div: "enc_ext n = replicate (n div 255) 255 @ [of_nat (n mod 255)]"
proof (induction n rule: enc_ext.induct)
  case (1 n)
  show ?case
  proof (cases "n < 255")
    case False
    then show ?thesis using 1 by (subst enc_ext.simps) (simp add: le_div_geq le_mod_geq)
  qed (subst enc_ext.simps, simp)
qed

lemma replicate_4: "replicate (j + 4) x = [x, x, x, x] @ replicate j x"
proof -
  have "replicate 4 x = [x, x, x, x]" by (simp add: numeral_eq_Suc)
  then show ?thesis by (simp add: add.commute[of j] replicate_add)
qed

lemma replicate_take_4: "k \<le> 3 \<Longrightarrow> replicate k x = take k [x, x, x, x]"
  by (auto simp: numeral_eq_Suc le_Suc_eq)

lemma write_match_ext_ok:
  assumes "prefix A m" "0 \<le> n" "int (length A) + n div 255 + 4 \<le> int (length m)"
  shows "wp (write_match_ext m (int (length A)) n) (appended (A @ enc_ext (nat n)) m)"
  using assms
proof (induction "nat n" arbitrary: A m n rule: less_induct)
  case less
  let ?m = "upd m (int (length A)) [255, 255, 255, 255]"
  have b: "in_buf m (int (length A)) 4" using less.prems by (auto simp: in_buf_def)
  have l: "length ?m = length m" using b by simp
  have p: "prefix (A @ [255, 255, 255, 255]) ?m"
    using less.prems by (intro prefix_upd) auto
  show ?case
  proof (cases "1020 \<le> n")
    case True
    have d: "n div 255 = (n - 1020) div 255 + 4" using True by simp
    have "wp (write_match_ext ?m (int (length (A @ [255, 255, 255, 255]))) (n - 1020))
        (appended ((A @ [255, 255, 255, 255]) @ enc_ext (nat (n - 1020))) ?m)"
      using True less.prems p l d by (intro less.hyps) auto
    moreover have "enc_ext (nat n) = [255, 255, 255, 255] @ enc_ext (nat (n - 1020))"
    proof -
      have "nat n = nat (n - 1020) + 4 * 255" using True by simp
      then have "nat n div 255 = nat (n - 1020) div 255 + 4" "nat n mod 255 = nat (n - 1020) mod 255"
        by (simp_all only: div_mult_self1 mod_mult_self1)
      then show ?thesis unfolding enc_ext_div[of "nat n"] enc_ext_div[of "nat (n - 1020)"]
        by (simp only: replicate_4 append_assoc)
    qed
    ultimately show ?thesis
      using True b l by (subst write_match_ext.simps) (simp add: wp_simps appended_def[abs_def] add.commute)
  next
    case False
    let ?k = "n div 255"
    have k: "0 \<le> ?k" "?k \<le> 3" using False less.prems by auto
    have pk: "prefix (A @ replicate (nat ?k) 255) ?m"
    proof -
      have "replicate (nat ?k) (255::byte) = take (nat ?k) [255, 255, 255, 255]"
        using k by (intro replicate_take_4) simp
      moreover have "prefix (A @ take (nat ?k) [255, 255, 255, 255]) (A @ [255, 255, 255, 255])"
        by (simp only: same_prefix_prefix take_is_prefix)
      ultimately show ?thesis using p by (simp only: prefix_order.trans)
    qed
    have b2: "in_buf ?m (int (length A) + ?k) 1" using less.prems k l by (auto simp: in_buf_def)
    have e: "enc_ext (nat n) = replicate (nat ?k) 255 @ [of_int (n mod 255)]"
      using less.prems(2) by (simp add: enc_ext_div nat_div_distrib nat_mod_distrib flip: of_nat_nat)
    have p2: "prefix ((A @ replicate (nat ?k) 255) @ [of_int (n mod 255)])
        (upd ?m (int (length (A @ replicate (nat ?k) 255))) [of_int (n mod 255)])"
      using less.prems k l by (intro prefix_upd[OF pk]) auto
    then show ?thesis
      using False b b2 k l by (subst write_match_ext.simps) (simp add: wp_simps appended_def e add.commute)
  qed
qed


section \<open>Sizes\<close>

abbreviation enc :: "lz_seq list \<Rightarrow> bytes" where "enc ss \<equiv> concat (map enc_seq ss)"

lemma enc_len_size: "length (enc_len n) = (n + 240) div 255"
  unfolding length_enc_len by (cases "n < 15") (auto simp: div_eq_0_iff intro: arg_cong[where f = "\<lambda>k. k div 255"] simp flip: div_add_self2)

lemma div255_super: "a div 255 + b div 255 \<le> (a + b) div (255::nat)"
  by linarith

lemma enc_seq_size:
  assumes "4 \<le> mlen q"
  shows "length (enc_seq q) \<le> (length (lits q) + mlen q) + (length (lits q) + mlen q) div 255"
proof -
  obtain l off n where q: "q = Seq l off n" by (cases q)
  have "(n - 4 + 240) div 255 \<le> n - 4" by linarith
  moreover have "(length l + 240) div 255 \<le> 1 + (length l + n) div 255" by linarith
  ultimately show ?thesis using assms q by (simp add: enc_len_size)
qed

text \<open>A parse is never longer than \<open>LZ4_compressBound\<close> allows.\<close>

lemma enc_size: "seqs_ok h ss \<Longrightarrow> length (enc ss) \<le> expanded ss [] + expanded ss [] div 255"
proof (induction ss arbitrary: h)
  case (Cons q ss)
  then have "length (enc_seq q) \<le> (length (lits q) + mlen q) + (length (lits q) + mlen q) div 255"
    by (intro enc_seq_size) (auto simp: seq_ok_def)
  moreover have "length (enc ss) \<le> expanded ss [] + expanded ss [] div 255" using Cons by auto
  ultimately show ?case
    using div255_super[of "length (lits q) + mlen q" "expanded ss []"] by (simp add: expanded_Cons)
qed simp

section \<open>The state of the compressor\<close>

abbreviation hist_before :: "cenv \<Rightarrow> bytes" where
  "hist_before e \<equiv> take (nat (dl e + srcpos e)) (hist_cur e)"

text \<open>The sequences \<open>ss\<close> stand for the source up to \<open>a\<close>, and may be followed by the rest as last literals.\<close>

definition parse :: "cenv \<Rightarrow> lz_seq list \<Rightarrow> int \<Rightarrow> bool" where
  "parse e ss a \<longleftrightarrow> srcpos e \<le> a \<and> a \<le> c_iend e \<and> seqs_ok (hist_before e) ss
     \<and> expand (hist_before e) ss = take (nat (dl e + a)) (hist_cur e)
     \<and> (ss \<noteq> [] \<longrightarrow> a \<le> c_iend e - 5 \<and> a - int (mlen (last ss)) \<le> c_iend e - 12)"

definition out_room :: "cenv \<Rightarrow> bytes \<Rightarrow> bool" where
  "out_room e m \<longleftrightarrow> (case outputDirective e of
       notLimited \<Rightarrow> inputSize e + inputSize e div 255 + 16 \<le> int (length m)
     | limitedOutput \<Rightarrow> olimit e \<le> int (length m))"

text \<open>The only excuse for a \<open>return 0\<close>: an output limit below the worst case.\<close>

definition tight :: "cenv \<Rightarrow> bool" where
  "tight e \<longleftrightarrow> outputDirective e = limitedOutput \<and> olimit e < inputSize e + inputSize e div 255 + 16"

text \<open>A sequence has its literals, but no match yet.\<close>

definition lit_part :: "bytes \<Rightarrow> bytes" where
  "lit_part l = token_byte (length l) 0 # enc_len (length l) @ l"

definition pending :: "cenv \<Rightarrow> lz_seq list \<Rightarrow> bytes \<Rightarrow> int \<Rightarrow> int \<Rightarrow> bytes \<Rightarrow> bool" where
  "pending e ss l ip op m \<longleftrightarrow> parse e ss (ip - int (length l)) \<and> ip \<le> c_iend e - 12
     \<and> take (nat (dl e + ip)) (hist_cur e) = take (nat (dl e + ip - int (length l))) (hist_cur e) @ l
     \<and> prefix (enc ss @ lit_part l) m \<and> op = int (length (enc ss @ lit_part l))
     \<and> (outputDirective e = limitedOutput \<longrightarrow> op + 5 \<le> olimit e)"

lemma parse_size:
  assumes "parse e ss a" "0 \<le> srcpos e"
  shows "int (length (enc ss)) \<le> (a - srcpos e) + (a - srcpos e) div 255"
proof -
  have "length (expand (hist_before e) ss) = length (hist_before e) + expanded ss []"
    using length_expand[of "hist_before e" ss "[]"] by simp
  then have "int (expanded ss []) = a - srcpos e"
    using assms by (auto simp: parse_def min_def split: if_splits)
  moreover have "length (enc ss) \<le> expanded ss [] + expanded ss [] div 255"
    using assms by (intro enc_size) (auto simp: parse_def)
  then have "int (length (enc ss)) \<le> int (expanded ss [] + expanded ss [] div 255)" by (simp only: of_nat_le_iff)
  ultimately show ?thesis by (simp only: of_nat_add zdiv_int of_nat_numeral)
qed

lemma parse_Nil: "0 \<le> srcpos e \<Longrightarrow> srcpos e \<le> c_iend e \<Longrightarrow> parse e [] (srcpos e)"
  by (simp add: parse_def)

lemma hist_seg:
  assumes "0 \<le> a" "a \<le> b" "b \<le> c_iend e"
  shows "take (nat (dl e + b)) (hist_cur e) = take (nat (dl e + a)) (hist_cur e) @ seg (cur e) a b"
proof -
  have "take (nat (dl e + b)) (hist_cur e) = take (nat (dl e + a)) (hist_cur e) @ seg (hist_cur e) (dl e + a) (dl e + b)"
    using assms seg_append[of 0 "dl e + a" "dl e + b" "hist_cur e"] by (simp add: seg_def)
  moreover have "seg (hist_cur e) (dl e + a) (dl e + b) = seg (cur e) a b"
    using assms by (simp add: seg_def nat_add_distrib)
  ultimately show ?thesis by simp
qed


section \<open>Token and literals\<close>

lemma token_lits: "(if 15 \<le> n then 240 else of_nat (n * 16) :: byte) = token_byte n 0"
  by (auto simp: token_byte_def min_def mult.commute)

text \<open>The common part of a sequence and of the last literals: token and length.\<close>

lemma lit_head_ok:
  assumes p: "prefix A m" and n: "0 \<le> n" and b: "int (length A) + 1 + (n + 240) div 255 \<le> int (length m)"
  shows "wp (if n \<ge> RUN_MASK then do { m \<leftarrow> st m (int (length A)) 240; write_ext m (int (length A) + 1) (n - RUN_MASK) }
     else do { m \<leftarrow> st m (int (length A)) (of_int (n * 16)); Some (int (length A) + 1, m) })
     (appended (A @ token_byte (nat n) 0 # enc_len (nat n)) m)"
proof -
  have d: "0 \<le> (n + 240) div 255" using n by simp
  have ib: "in_buf m (int (length A)) 1" using b d by (simp add: in_buf_def)
  have p1: "prefix (A @ [t]) (upd m (int (length A)) [t])" for t
    using b d by (intro prefix_upd[OF p]) simp
  show ?thesis
  proof (cases "15 \<le> n")
    case True
    then have n15: "15 \<le> nat n" "\<not> nat n < 15" by simp_all
    then have t: "token_byte (nat n) 0 = 240" using token_lits[of "nat n"] by (simp only: if_True)
    have "wp (write_ext (upd m (int (length A)) [240]) (int (length (A @ [240]))) (n - 15))
        (appended ((A @ [240]) @ enc_ext (nat (n - 15))) (upd m (int (length A)) [240]))"
    proof (rule write_ext_ok)
      have "(n + 240) div 255 = (n - 15) div 255 + 1" by simp
      then show "int (length (A @ [240])) + (n - 15) div 255 + 1 \<le> int (length (upd m (int (length A)) [240]))"
        using b ib by simp
    qed (use p1 True in auto)
    then show ?thesis using True ib t n15
      by (simp add: wp_simps appended_def[abs_def] enc_len_def nat_diff_distrib add.commute)
  next
    case False
    then have "\<not> 15 \<le> nat n" by simp
    then have "token_byte (nat n) 0 = of_int (n * 16)"
      using token_lits[of "nat n"] n by (simp flip: of_nat_nat)
    then show ?thesis using False ib p1 n by (simp add: wp_simps appended_def enc_len_def add.commute)
  qed
qed

lemma encode_literals_ok:
  assumes e: "env_ok e" and pa: "parse e ss a" and ip: "a \<le> ip" "ip \<le> c_iend e - 12"
    and p: "prefix (enc ss) m" and room: "out_room e m"
  shows "wp (encode_literals e a ip (int (length (enc ss))) m) (\<lambda>r. case r of
      Inl m' \<Rightarrow> tight e \<and> length m' = length m
    | Inr (token, op, m') \<Rightarrow> token = int (length (enc ss)) \<and> pending e ss (seg (cur e) a ip) ip op m'
        \<and> length m' = length m)"
proof -
  let ?op = "int (length (enc ss))" let ?ll = "ip - a" let ?l = "seg (cur e) a ip"
  let ?A = "enc ss @ token_byte (nat ?ll) 0 # enc_len (nat ?ll)"
  have s: "0 \<le> srcpos e" "srcpos e \<le> a" using e pa by (auto simp: env_ok_def parse_def)
  have ll: "length ?l = nat ?ll" using ip s by simp
  have d: "(?ll + 240) div 255 \<le> 1 + ?ll div 255" "0 \<le> ?ll div 255" using ip by auto
  have worst: "?op + 1 + ?ll + 8 + ?ll div 255 < inputSize e + inputSize e div 255 + 16"
  proof -
    have "?op \<le> (a - srcpos e) + (a - srcpos e) div 255" using parse_size[OF pa] s by simp
    moreover have "(a - srcpos e) div 255 + ?ll div 255 \<le> (a - srcpos e + ?ll) div 255"
      using s ip by linarith
    moreover have "(a - srcpos e + ?ll) div 255 \<le> inputSize e div 255"
      using ip by (intro zdiv_mono1) auto
    ultimately show ?thesis using ip by simp
  qed
  show ?thesis
  proof (cases "outputDirective e = limitedOutput \<and> ?op + 1 + ?ll + (2 + 1 + LASTLITERALS) + ?ll div 255 > olimit e")
    case True
    then show ?thesis using worst by (simp add: encode_literals_def wp_Some Let_def tight_def)
  next
    case False
    have fit: "?op + 1 + ?ll + 8 + ?ll div 255 \<le> int (length m)"
    proof (cases "outputDirective e")
      case limitedOutput
      then show ?thesis using False room by (simp add: out_room_def)
    next
      case notLimited
      then show ?thesis using worst room by (simp add: out_room_def)
    qed
    have lh: "wp (if ?ll \<ge> RUN_MASK then do { m \<leftarrow> st m ?op 240; write_ext m (?op + 1) (?ll - RUN_MASK) }
     else do { m \<leftarrow> st m ?op (of_int (?ll * 16)); Some (?op + 1, m) }) (appended ?A m)"
      using ip d fit by (intro lit_head_ok[OF p]) auto
    have la: "int (length ?A) = ?op + 1 + (?ll + 240) div 255"
      using ip by (simp add: enc_len_size zdiv_int)
    have ll0: "(?ll + 240) div 255 = 0" if "?ll = 0" using that by simp
    have cpy: "wp (wildCopy8_from m' (int (length ?A)) (cur e) a (int (length ?A) + ?ll))
        (\<lambda>m''. length m'' = length m \<and> prefix (?A @ ?l) m'')" if m': "prefix ?A m'" "length m' = length m" for m'
    proof -
      have "wp (wildCopy8_from m' (int (length ?A)) (cur e) a (int (length ?A) + ?ll))
        (\<lambda>m''. ext_copied m' m'' (int (length ?A)) (cur e) a (int (length ?A) + ?ll - int (length ?A)))"
        using ip s m' d fit la ll0 by (intro wp_wildCopy8_from) (cases "?ll = 0", auto)
      then show ?thesis
      proof (rule wp_mono)
        fix m'' assume c: "ext_copied m' m'' (int (length ?A)) (cur e) a (int (length ?A) + ?ll - int (length ?A))"
        have "prefix (?A @ seg (cur e) a (a + ?ll)) m''"
          using c ip s m' la d fit by (intro prefix_ext_copied[OF m'(1)]) auto
        then show "length m'' = length m \<and> prefix (?A @ ?l) m''"
          using c m' by (auto simp: ext_copied_def frame_below_def)
      qed
    qed
    have pend: "pending e ss ?l ip (int (length ?A) + ?ll) m''" if "prefix (?A @ ?l) m''" for m''
    proof -
      have "outputDirective e = limitedOutput \<longrightarrow> int (length ?A) + ?ll + 5 \<le> olimit e"
        using False la d by auto
      moreover have "take (nat (dl e + ip)) (hist_cur e) = take (nat (dl e + a)) (hist_cur e) @ ?l"
        using s ip by (intro hist_seg) auto
      ultimately show ?thesis using that pa ll ip s
        unfolding pending_def lit_part_def by simp
    qed
    have "wp (if ?ll \<ge> RUN_MASK then do { m \<leftarrow> st m ?op 240; write_ext m (?op + 1) (?ll - RUN_MASK) }
     else do { m \<leftarrow> st m ?op (of_int (?ll * 16)); Some (?op + 1, m) })
      (\<lambda>(op, m'). wp (wildCopy8_from m' op (cur e) a (op + ?ll)) (\<lambda>m''. pending e ss ?l ip (op + ?ll) m'' \<and> length m'' = length m))"
    proof (rule wp_mono[OF lh])
      fix r assume a: "appended ?A m r"
      obtain op m' where r: "r = (op, m')" by (cases r)
      have f: "prefix ?A m'" "length m' = length m" "op = int (length ?A)"
        using a by (simp_all only: r appended_def fst_conv snd_conv)
      show "case r of (op, m') \<Rightarrow> wp (wildCopy8_from m' op (cur e) a (op + ?ll))
          (\<lambda>m''. pending e ss ?l ip (op + ?ll) m'' \<and> length m'' = length m)"
        unfolding r prod.case f(3) using cpy[OF f(1,2)] by (rule wp_mono) (use pend in blast)
    qed
    moreover have "encode_literals e a ip ?op m = do {
        (op, m) \<leftarrow> (if ?ll \<ge> RUN_MASK then do { m \<leftarrow> st m ?op 240; write_ext m (?op + 1) (?ll - RUN_MASK) }
          else do { m \<leftarrow> st m ?op (of_int (?ll * 16)); Some (?op + 1, m) });
        m \<leftarrow> wildCopy8_from m op (cur e) a (op + ?ll);
        Some (Inr (?op, op + ?ll, m)) }"
      using False unfolding encode_literals_def Let_def by (simp only: if_False)
    ultimately show ?thesis
      by (simp only: wp_bind wp_Some case_prod_beta case_prod_beta' sum.case simp_thms fst_conv snd_conv)
  qed
qed


section \<open>Offset and match length\<close>

lemma uint16_masks:
  "unat ((x :: u16) AND 255) = unat x mod 256" "unat (drop_bit 8 (x :: u16) AND 255) = unat x div 256"
proof -
  have m: "w AND 255 = take_bit 8 w" for w :: u16 by (simp add: take_bit_eq_mask mask_eq_exp_minus_1)
  show "unat (x AND 255) = unat x mod 256" by (simp add: m take_bit_eq_mod unat_mod)
  have "unat x < 65536" using unsigned_less[of x, where 'a = nat] by simp
  then show "unat (drop_bit 8 x AND 255) = unat x div 256"
    by (simp add: m take_bit_eq_mod unat_mod drop_bit_eq_div unat_div)
qed

lemma store_le16_bytes: "store_le16 x = [of_nat (unat x mod 256), of_nat (unat x div 256)]"
proof -
  have "(ucast w :: byte) = of_nat (unat w)" for w :: u16 by simp
  then show ?thesis by (simp only: store_le16_def uint16_masks(2)) (simp only: uint16_masks(1))
qed

lemma store_le16_offset:
  assumes "0 \<le> off" "off \<le> 65535"
  shows "store_le16 (of_int off) = [of_nat (nat off mod 256), of_nat (nat off div 256)]"
proof -
  have "unat (of_int off :: u16) = nat off"
    using assms by (simp add: unat_eq_nat_uint uint_word_of_int take_bit_eq_mod)
  then show ?thesis by (simp add: store_le16_bytes)
qed

lemma token_add: "k \<le> 15 \<Longrightarrow> token_byte n 0 + of_nat k = token_byte n k"
  by (simp add: token_byte_def)

lemma pending_size:
  assumes "pending e ss l ip op m" "0 \<le> srcpos e"
  shows "op \<le> (ip - srcpos e) + (ip - srcpos e) div 255 + 2"
proof -
  let ?a = "ip - int (length l)"
  have p: "parse e ss ?a" using assms by (simp add: pending_def)
  have "op = int (length (enc ss)) + 1 + int (length l) + (int (length l) + 240) div 255"
    using assms by (simp add: pending_def lit_part_def enc_len_size zdiv_int)
  moreover have "int (length (enc ss)) \<le> (?a - srcpos e) + (?a - srcpos e) div 255"
    using parse_size[OF p assms(2)] .
  moreover have "(?a - srcpos e) div 255 + (int (length l) + 240) div 255 \<le> (ip - srcpos e) div 255 + 1"
    by linarith
  ultimately show ?thesis by simp
qed

text \<open>A repeat at distance \<open>off\<close> is a match of the format.\<close>

lemma parse_snoc:
  assumes s: "0 \<le> srcpos e" and a: "parse e ss (ip - int (length l))"
    and l: "take (nat (dl e + ip)) (hist_cur e) = take (nat (dl e + ip - int (length l))) (hist_cur e) @ l"
    and off: "0 < off" "off \<le> 65535" "off \<le> dl e + ip" and r: "rep e ip off n" "4 \<le> n"
    and b: "ip \<le> c_iend e - 12" "ip + n \<le> c_iend e - 5"
  shows "parse e (ss @ [Seq l (nat off) (nat n)]) (ip + n)"
proof -
  let ?q = "Seq l (nat off) (nat n)" let ?h = "take (nat (dl e + ip)) (hist_cur e)"
  have ip: "0 \<le> ip" "srcpos e \<le> ip" using a s by (auto simp: parse_def)
  have ex: "expand (hist_before e) ss @ l = ?h" using a l by (simp only: parse_def add_diff_eq)
  have h: "length ?h = nat (dl e + ip)" using ip b by simp
  have "lz_copy (nat off) (nat n) ?h = take (nat (dl e + ip + n)) (hist_cur e)"
  proof (rule lz_copy_eqI)
    show "take (length ?h) (take (nat (dl e + ip + n)) (hist_cur e)) = ?h"
      unfolding h using ip r(2) by (simp add: min_def)
    show "length (take (nat (dl e + ip + n)) (hist_cur e)) = length ?h + nat n"
      unfolding h using ip b r(2) by (simp add: nat_add_distrib min_def)
    show "0 < nat off" "nat off \<le> length ?h" unfolding h using off by auto
    fix k assume k: "k < nat n"
    then have "at (hist_cur e) (dl e + ip + int k) = at (hist_cur e) (dl e + ip + int k - off)"
      using r by (simp add: rep_at)
    moreover have "nat (dl e + ip + int k) = length ?h + k" "nat (dl e + ip + int k - off) = length ?h + k - nat off"
      unfolding h using ip off by (auto simp: nat_add_distrib nat_diff_distrib)
    moreover have "length ?h + k < nat (dl e + ip + n)" "length ?h + k - nat off < nat (dl e + ip + n)"
      unfolding h using k ip off by linarith+
    ultimately show "take (nat (dl e + ip + n)) (hist_cur e) ! (length ?h + k)
        = take (nat (dl e + ip + n)) (hist_cur e) ! (length ?h + k - nat off)"
      by (simp only: at_def nth_take)
  qed
  then have "expand (hist_before e) (ss @ [?q]) = take (nat (dl e + (ip + n))) (hist_cur e)"
    using ex by (simp add: expand_append add.assoc)
  moreover have "seqs_ok (hist_before e) (ss @ [?q])"
  proof -
    have "length (expand (hist_before e) ss) + length l = nat (dl e + ip)"
      using ex h by (metis length_append)
    then show ?thesis using a off r(2) by (auto simp: seqs_ok_append parse_def seq_ok_def)
  qed
  ultimately show ?thesis using ip b r(2) by (simp add: parse_def)
qed


lemma pending_room:
  assumes p: "pending e ss l ip op m" and s: "0 \<le> srcpos e" and room: "out_room e m" and k: "0 \<le> k" "ip + 4 + k \<le> matchlimit e"
    and lim: "outputDirective e = limitedOutput \<longrightarrow> op + 8 + (k + 240) div 255 \<le> olimit e"
  shows "op + (k - 15) div 255 + 7 \<le> int (length m)"
proof (cases "outputDirective e")
  case notLimited
  have "op \<le> (ip - srcpos e) + (ip - srcpos e) div 255 + 2" using pending_size[OF p s] .
  moreover have "(ip - srcpos e) div 255 \<le> inputSize e div 255"
    using p by (intro zdiv_mono1) (auto simp: pending_def)
  moreover have "(k - 15) div 255 \<le> k" using k by linarith
  ultimately show ?thesis using notLimited room k by (simp add: out_room_def)
next
  case limitedOutput
  have "(k + 240) div 255 = (k - 15) div 255 + 1" by simp
  then show ?thesis using limitedOutput room lim by (simp add: out_room_def)
qed

lemma enc_snoc: "enc (ss @ [Seq l off (n + 4)])
    = enc ss @ token_byte (length l) n # enc_len (length l) @ l @ [of_nat (off mod 256), of_nat (off div 256)] @ enc_len n"
  by simp

text \<open>The second half of \<open>encode_match\<close>, once the length is known.\<close>

lemma match_code_ok:
  assumes p: "prefix (enc ss @ lit_part l @ ob) m" and op: "op = int (length (enc ss @ lit_part l @ ob))"
    and k: "0 \<le> k" and room: "op + (k - 15) div 255 + 5 \<le> int (length m)"
    and q: "q = Seq l off (nat (k + 4))" "ob = [of_nat (off mod 256), of_nat (off div 256)]"
  shows "wp (do { t \<leftarrow> ld m (int (length (enc ss)));
      if k \<ge> ML_MASK then do {
         m \<leftarrow> st m (int (length (enc ss))) (t + 15);
         (op, m) \<leftarrow> write_match_ext m op (k - ML_MASK);
         Some (Inr (ip, op, m)) }
       else do {
         m \<leftarrow> st m (int (length (enc ss))) (t + of_int k);
         Some (Inr (ip, op, m)) } })
    (\<lambda>r. \<exists>op' m'. r = Inr (ip, op', m') \<and> prefix (enc (ss @ [q])) m' \<and> op' = int (length (enc (ss @ [q])))
       \<and> length m' = length m \<and> op' \<le> op + (k + 240) div 255)"
proof -
  let ?R = "enc_len (length l) @ l @ ob" let ?t = "token_byte (length l)" let ?T = "int (length (enc ss))"
  have p': "prefix (enc ss @ ?t 0 # ?R) m" using p by (simp add: lit_part_def)
  note u = prefix_upd_mid[OF p']
  have ib: "in_buf m ?T 1" using prefix_length_le[OF p'] by (simp add: in_buf_def)
  have qe: "enc (ss @ [q]) = (enc ss @ ?t (nat k) # ?R) @ enc_len (nat k)"
    using enc_snoc[of ss l off "nat k"] q k by (simp add: nat_add_distrib)
  have opl: "op = int (length (enc ss @ ?t (nat k) # ?R))" using op by (simp add: lit_part_def)
  show ?thesis
  proof (cases "15 \<le> k")
    case True
    have t: "?t 0 + 15 = ?t (nat k)"
    proof -
      have "15 \<le> nat k" using True by simp
      then have "?t (nat k) = ?t 15" by (simp add: token_byte_def)
      then show ?thesis using token_add[of 15 "length l"] by simp
    qed
    have d: "(k + 240) div 255 = (k - 15) div 255 + 1" "0 \<le> (k - 15) div 255" using True by simp_all
    let ?m = "upd m ?T [?t (nat k)]"
    have "wp (write_match_ext ?m op (k - 15)) (appended ((enc ss @ ?t (nat k) # ?R) @ enc_ext (nat (k - 15))) ?m)"
      unfolding opl by (rule write_match_ext_ok) (use u True room opl ib in auto)
    moreover have "enc_ext (nat (k - 15)) = enc_len (nat k)"
    proof -
      have "\<not> nat k < 15" "nat (k - 15) = nat k - 15" using True by auto
      then show ?thesis by (simp add: enc_len_def)
    qed
    ultimately have "wp (write_match_ext ?m op (k - 15)) (appended (enc (ss @ [q])) ?m)" unfolding qe by simp
    then have w: "wp (write_match_ext ?m op (k - 15)) (\<lambda>r. prefix (enc (ss @ [q])) (snd r)
        \<and> fst r = int (length (enc (ss @ [q]))) \<and> length (snd r) = length m \<and> fst r \<le> op + (k + 240) div 255)"
      by (rule wp_mono) (use ib opl qe k in \<open>auto simp: appended_def enc_len_size zdiv_int\<close>)
    show ?thesis using True ib u t w
      by (simp only: wp_simps if_True simp_thms) (auto elim!: wp_mono simp: wp_simps)
  next
    case False
    have "?t 0 + of_int k = ?t (nat k)" using token_add[of "nat k" "length l"] False k by (simp flip: of_nat_nat)
    moreover have "enc_len (nat k) = []" using False by (simp add: enc_len_def)
    moreover have "0 \<le> (k + 240) div 255" using k by simp
    ultimately show ?thesis using False ib u opl qe k by (simp add: wp_simps)
  qed
qed


definition matched :: "cenv \<Rightarrow> lz_seq list \<Rightarrow> int \<Rightarrow> int \<Rightarrow> bytes \<Rightarrow> bytes + int \<times> int \<times> bytes \<Rightarrow> bool" where
  "matched e ss ip n m r = (case r of
      Inl m' \<Rightarrow> tight e \<and> length m' = length m
    | Inr (ip', op', m') \<Rightarrow> \<exists>q. ip + n \<le> ip' \<and> ip' \<le> matchlimit e \<and> parse e (ss @ [q]) ip'
        \<and> prefix (enc (ss @ [q])) m' \<and> op' = int (length (enc (ss @ [q]))) \<and> length m' = length m
        \<and> (outputDirective e = limitedOutput \<longrightarrow> op' + 6 \<le> olimit e))"

lemma encode_match_ok:
  assumes e: "env_ok e" and p: "pending e ss l ip op m" and m: "match_ok e ip d p off"
    and n: "ip + n \<le> matchlimit e" "4 \<le> n" "rep e ip off n" "d \<longrightarrow> p + 4 \<le> dl e"
    and room: "out_room e m"
  shows "wp (encode_match e ip d p off (int (length (enc ss))) op m) (matched e ss ip n m)"
proof -
  let ?ob = "[of_nat (nat off mod 256), of_nat (nat off div 256)] :: bytes"
  let ?m = "upd m op ?ob" let ?T = "int (length (enc ss))"
  have s: "0 \<le> srcpos e" "srcpos e \<le> ip" "ip \<le> c_iend e - 12" using e p by (auto simp: env_ok_def pending_def parse_def)
  have off: "0 < off" "off \<le> 65535" "off \<le> dl e + ip" using m s by (auto simp: match_ok_def vpos_def split: if_splits)
  have code: "(if maybe_extMem e then off else ip - p) = off"
  proof (cases "maybe_extMem e")
    case False
    then have "\<not> d" "extdict e = []" using m e
      by (auto simp: match_ok_def env_ok_def mode_fits_def maybe_extMem_def split: dict_directive.splits)
    then show ?thesis using m by (simp add: match_ok_def vpos_def)
  qed simp
  have op: "op = int (length (enc ss @ lit_part l))" and pr: "prefix (enc ss @ lit_part l) m" using p by (auto simp: pending_def)
  have "op + 2 \<le> int (length m)"
  proof (cases "outputDirective e")
    case limitedOutput
    then show ?thesis using p room by (simp add: pending_def out_room_def)
  next
    case notLimited
    then show ?thesis using pending_room[OF p s(1) room, of 0] n by simp
  qed
  then have ib: "in_buf m op 2" "length ?m = length m" using op by (simp_all add: in_buf_def)
  have pr2: "prefix (enc ss @ lit_part l @ ?ob) ?m" and op2: "op + 2 = int (length (enc ss @ lit_part l @ ?ob))"
    using prefix_upd[OF pr, of ?ob] ib op by (simp_all add: in_buf_def)
  have le16: "LZ4_writeLE16 m op (of_int off) = Some ?m"
    using ib off by (simp add: LZ4_writeLE16_def store_le16_offset wrn_def)
  have "wp (match_length e d ip p) (\<lambda>(mc, ip'). ip' = ip + 4 + mc \<and> n \<le> 4 + mc \<and> ip' \<le> matchlimit e \<and> rep e ip off (4 + mc))"
    by (rule match_length_ok[OF e s(2) m n])
  then obtain mc where mc: "match_length e d ip p = Some (mc, ip + 4 + mc)" "n \<le> 4 + mc" "ip + 4 + mc \<le> matchlimit e" "rep e ip off (4 + mc)"
    by (auto simp: wp_iff)
  let ?code = "do { t \<leftarrow> ld ?m ?T;
      if mc \<ge> ML_MASK then do {
         m \<leftarrow> st ?m ?T (t + 15);
         (op, m) \<leftarrow> write_match_ext m (op + 2) (mc - ML_MASK);
         Some (Inr (ip + 4 + mc, op, m)) }
       else do {
         m \<leftarrow> st ?m ?T (t + of_int mc);
         Some (Inr (ip + 4 + mc, op + 2, m)) } }"
  have eq: "encode_match e ip d p off ?T op m = (if outputDirective e = limitedOutput
        \<and> op + 2 + (1 + LASTLITERALS) + (mc + 240) div 255 > olimit e then Some (Inl ?m) else ?code)"
    unfolding encode_match_def code le16 Let_def Option.bind.simps(2) mc(1) prod.case ..
  show ?thesis
  proof (cases "outputDirective e = limitedOutput \<and> op + 2 + (1 + LASTLITERALS) + (mc + 240) div 255 > olimit e")
    case True
    moreover have "op \<le> (ip - srcpos e) + (ip - srcpos e) div 255 + 2" using pending_size[OF p s(1)] .
    moreover have "(ip - srcpos e) div 255 \<le> inputSize e div 255" using s by (intro zdiv_mono1) auto
    moreover have "(mc + 240) div 255 \<le> mc" using mc n by linarith
    ultimately have "tight e" using mc by (simp add: tight_def)
    with True show ?thesis unfolding eq using ib by (simp add: wp_Some matched_def)
  next
    case False
    let ?q = "Seq l (nat off) (nat (mc + 4))"
    have k: "0 \<le> mc" using mc n by simp
    have "op + (mc - 15) div 255 + 7 \<le> int (length m)"
      using False mc k by (intro pending_room[OF p s(1) room]) auto
    then have fit: "op + 2 + (mc - 15) div 255 + 5 \<le> int (length ?m)" using ib by simp
    have "parse e (ss @ [Seq l (nat off) (nat (4 + mc))]) (ip + (4 + mc))"
      by (rule parse_snoc[OF s(1)]) (use p off mc k s in \<open>auto simp: pending_def\<close>)
    then have pa: "parse e (ss @ [?q]) (ip + 4 + mc)" by (simp add: add.commute add.left_commute)
    have "wp ?code (\<lambda>r :: bytes + int \<times> int \<times> bytes. \<exists>op' m'. r = Inr (ip + 4 + mc, op', m') \<and> prefix (enc (ss @ [?q])) m' \<and> op' = int (length (enc (ss @ [?q])))
       \<and> length m' = length ?m \<and> op' \<le> op + 2 + (mc + 240) div 255)"
      by (rule match_code_ok[OF pr2 op2 k fit refl refl])
    then have "wp ?code (matched e ss ip n m)"
    proof (rule wp_mono)
      fix r :: "bytes + int \<times> int \<times> bytes" assume "\<exists>op' m'. r = Inr (ip + 4 + mc, op', m') \<and> prefix (enc (ss @ [?q])) m' \<and> op' = int (length (enc (ss @ [?q])))
       \<and> length m' = length ?m \<and> op' \<le> op + 2 + (mc + 240) div 255"
      then obtain op' m' where r: "r = Inr (ip + 4 + mc, op', m')" "prefix (enc (ss @ [?q])) m'"
        "op' = int (length (enc (ss @ [?q])))" "length m' = length ?m" "op' \<le> op + 2 + (mc + 240) div 255" by blast
      have "ip + n \<le> ip + 4 + mc" "length m' = length m" "outputDirective e = limitedOutput \<longrightarrow> op' + 6 \<le> olimit e"
        using mc r(4,5) ib False by auto
      then show "matched e ss ip n m r"
        unfolding r(1) matched_def sum.case prod.case using mc(3) pa r(2,3) by blast
    qed
    then show ?thesis unfolding eq using False by (simp only: if_False)
  qed
qed

end
