(* ===== verification/LZ4_Compress_Sound.thy ===== *)
theory LZ4_Compress_Sound
  imports LZ4_Compress_Emit
begin

text \<open>
  The main loop of the compressor and its entry points: no access leaves a buffer, every loop
  ends, and what is written is a block of the format that stands for the source.
\<close>

section \<open>Runs of matches\<close>

definition ready :: "cenv \<Rightarrow> lz_seq list \<Rightarrow> int \<Rightarrow> int \<Rightarrow> bytes \<Rightarrow> bool" where
  "ready e ss a op m \<longleftrightarrow> parse e ss a \<and> prefix (enc ss) m \<and> op = int (length (enc ss))"

text \<open>What is known when a run of matches that began at \<open>ip\<close> has ended.\<close>

fun run_ends :: "cenv \<Rightarrow> htable \<Rightarrow> int \<Rightarrow> bytes \<Rightarrow> outcome \<Rightarrow> bool" where
  "run_ends e tbl0 ip m (Return_0 m' tbl) \<longleftrightarrow>
     tight e \<and> length m' = length m \<and> tinv e tbl0 (c_iend e) tbl"
| "run_ends e tbl0 ip m (Last_literals a op m' tbl) \<longleftrightarrow>
     (\<exists>ss. ready e ss a op m') \<and> length m' = length m \<and> tinv e tbl0 (c_iend e) tbl"
| "run_ends e tbl0 ip m (Search ip' a op m' tbl fh) \<longleftrightarrow>
     (\<exists>ss. ready e ss a op m') \<and> length m' = length m \<and> tinv e tbl0 ip' tbl \<and> ip < a \<and> a \<le> c_iend e - 12 \<and> ip' = a + 1"

lemma run_ends_mono: "run_ends e tbl0 ip m f \<Longrightarrow> ip0 \<le> ip \<Longrightarrow> length m = length m0 \<Longrightarrow> run_ends e tbl0 ip0 m0 f"
  by (cases f) auto

lemma out_room_cong: "length m = length m' \<Longrightarrow> out_room e m = out_room e m'"
  by (simp add: out_room_def split: limitedOutput_directive.split)

lemma token_zero:
  assumes r: "ready e ss ip op m" and s: "0 \<le> srcpos e" and room: "out_room e m" and ip: "ip \<le> c_iend e - 12"
    and lim: "outputDirective e = limitedOutput \<longrightarrow> op + 6 \<le> olimit e"
  shows "in_buf m op 1 \<and> pending e ss [] ip (op + 1) (upd m op [0])"
proof -
  have op: "op = int (length (enc ss))" and pr: "prefix (enc ss) m" and pa: "parse e ss ip" using r by (auto simp: ready_def)
  have "op + 1 \<le> int (length m)"
  proof (cases "outputDirective e")
    case limitedOutput
    then show ?thesis using lim room by (simp add: out_room_def)
  next
    case notLimited
    moreover have "op \<le> (ip - srcpos e) + (ip - srcpos e) div 255" using parse_size[OF pa s] op by simp
    moreover have "(ip - srcpos e) div 255 \<le> inputSize e div 255" using ip by (intro zdiv_mono1) auto
    ultimately show ?thesis using room ip by (simp add: out_room_def)
  qed
  then have ib: "in_buf m op 1" using op by (simp add: in_buf_def)
  have lp: "lit_part [] = [0]" by (simp add: lit_part_def token_byte_def enc_len_def)
  have "prefix (enc ss @ [0]) (upd m op [0])"
    unfolding op by (rule prefix_upd[OF pr]) (use ib op in \<open>simp add: in_buf_def\<close>)
  then show ?thesis using ib pa op ip lim by (auto simp: pending_def lp)
qed

lemma next_match_ok:
  assumes e: "env_ok e" and "pending e ss l ip op m" "match_ok e ip d p off"
    and "ip + n \<le> matchlimit e" "4 \<le> n" "rep e ip off n" "d \<longrightarrow> p + 4 \<le> dl e"
    and "out_room e m" "tinv e tbl0 (ip + n) tbl" "token = int (length (enc ss))"
  shows "wp (next_match e ip d p off token op m tbl) (run_ends e tbl0 ip m)"
  using assms
proof (induction "nat (c_iend e - ip)" arbitrary: ip d p off token op m tbl ss l n rule: less_induct)
  case less
  note P = less.prems
  have s: "0 \<le> srcpos e" "srcpos e \<le> ip" using P(1,2) by (auto simp: env_ok_def pending_def parse_def)
  have "wp (encode_match e ip d p off token op m) (matched e ss ip n m)"
    unfolding P(10) by (rule encode_match_ok[OF P(1-8)])
  then obtain r where r: "encode_match e ip d p off token op m = Some r" and mt: "matched e ss ip n m r"
    by (auto simp: wp_iff)
  have tend: "tinv e tbl0 (c_iend e) tbl" using P(9) by (rule tbl_inv_mono) (use P(4) in simp)
  show ?case
  proof (cases r)
    case (Inl m')
    with r mt tend show ?thesis by (subst next_match.simps) (simp add: wp_simps matched_def)
  next
    case (Inr x)
    then obtain ip' op' m' where x: "r = Inr (ip', op', m')" by (cases x) auto
    with mt obtain q where f: "ip + n \<le> ip'" "ip' \<le> matchlimit e" "parse e (ss @ [q]) ip'"
      "prefix (enc (ss @ [q])) m'" "op' = int (length (enc (ss @ [q])))" "length m' = length m"
      "outputDirective e = limitedOutput \<longrightarrow> op' + 6 \<le> olimit e"
      by (auto simp: matched_def)
    have rd: "ready e (ss @ [q]) ip' op' m'" using f by (simp add: ready_def)
    show ?thesis
    proof (cases "ip' \<ge> mflimitPlusOne e")
      case True
      with r x rd f tend show ?thesis by (subst next_match.simps) (auto simp: wp_simps)
    next
      case False
      then have ip': "ip' \<le> c_iend e - 12" by simp
      have "wp (test_next e ip' tbl) (\<lambda>(tbl', nxt). tinv e tbl0 (ip' + 1) tbl'
          \<and> (\<forall>d p off. nxt = Some (d, p, off) \<longrightarrow> match_ok e ip' d p off \<and> rep e ip' off 4))"
        by (rule test_next_ok[OF P(1) _ _ ip']) (use P(9) f(1) P(5) s in \<open>auto elim: tbl_inv_mono\<close>)
      then obtain tbl' nxt where tn: "test_next e ip' tbl = Some (tbl', nxt)" "tinv e tbl0 (ip' + 1) tbl'"
        "\<And>d p off. nxt = Some (d, p, off) \<Longrightarrow> match_ok e ip' d p off \<and> rep e ip' off 4"
        by (auto simp: wp_iff)
      show ?thesis
      proof (cases nxt)
        case None
        have "wp (LZ4_hashPosition (cur e) (ip' + 1) (tableT e)) (\<lambda>h. wp (Some (Search (ip' + 1) ip' op' m' tbl' h))
            (run_ends e tbl0 ip m))"
          by (rule wp_hashPosition) (use s f ip' rd tn P(5) in \<open>auto simp: wp_Some\<close>)
        then show ?thesis using r x False tn None by (subst next_match.simps) (simp add: wp_bind)
      next
        case (Some y)
        then obtain d' p' off' where y: "nxt = Some (d', p', off')" by (cases y) auto
        have room': "out_room e m'" using P(8) f(6) out_room_cong by blast
        have t0: "in_buf m' op' 1" "pending e (ss @ [q]) [] ip' (op' + 1) (upd m' op' [0])"
          using token_zero[OF rd s(1) room' ip' f(7)] by auto
        have l: "length (upd m' op' [0]) = length m" using t0(1) f(6) by simp
        note mm = tn(3)[OF y]
        have "wp (next_match e ip' d' p' off' op' (op' + 1) (upd m' op' [0]) tbl') (run_ends e tbl0 ip' (upd m' op' [0]))"
        proof (rule less.hyps[OF _ P(1) t0(2)])
          show "nat (c_iend e - ip') < nat (c_iend e - ip)" using f P(5) ip' by auto
          show "match_ok e ip' d' p' off'" "rep e ip' off' 4" using mm by auto
          show "d' \<longrightarrow> p' + 4 \<le> dl e" using mm by (auto simp: match_ok_def)
          show "out_room e (upd m' op' [0])" using P(8) l out_room_cong by blast
          show "tinv e tbl0 (ip' + 4) tbl'" using tn(2) by (rule tbl_inv_mono) simp
        qed (use ip' f in auto)
        then have "wp (next_match e ip' d' p' off' op' (op' + 1) (upd m' op' [0]) tbl') (run_ends e tbl0 ip m)"
          by (rule wp_mono) (erule run_ends_mono, use f P(5) l in auto)
        then show ?thesis using r x False tn(1) y t0(1) by (subst next_match.simps) (simp add: wp_simps)
      qed
    qed
  qed
qed

section \<open>The main loop\<close>

definition loop_ends :: "cenv \<Rightarrow> htable \<Rightarrow> bytes \<Rightarrow> outcome \<Rightarrow> bool" where
  "loop_ends e tbl0 m f \<longleftrightarrow> run_ends e tbl0 (c_iend e) m f"

lemma compress_loop_ok:
  assumes e: "env_ok e" and "ready e ss a op m" "ip = a + 1" "a \<le> c_iend e - 12" "tinv e tbl0 ip tbl" "out_room e m"
  shows "wp (compress_loop e ip a op m tbl fh) (loop_ends e tbl0 m)"
  using assms
proof (induction "nat (c_iend e - a)" arbitrary: ip a op m tbl ss fh rule: less_induct)
  case less
  note P = less.prems
  have pa: "parse e ss a" and s: "0 \<le> srcpos e" "srcpos e \<le> a" "1 \<le> acceleration e"
    using P(1,2) by (auto simp: env_ok_def ready_def parse_def)
  have "wp (find_match e tbl fh ip 1 (acceleration e * 2 ^ LZ4_skipTrigger)) (found e tbl0 ip)"
    by (rule find_match_ok[OF P(1) P(5)]) (use P s in auto)
  then obtain r where r: "find_match e tbl fh ip 1 (acceleration e * 2 ^ LZ4_skipTrigger) = Some r" and fd: "found e tbl0 ip r"
    by (auto simp: wp_iff)
  show ?case
  proof (cases r)
    case (Inl tbl')
    with r fd P show ?thesis
      by (subst compress_loop.simps) (auto simp: wp_simps found_def loop_ends_def)
  next
    case (Inr y)
    then obtain i d p off tbl' where y: "r = Inr (i, d, p, off, tbl')" by (cases y) auto
    with fd have f: "ip \<le> i" "i \<le> c_iend e - 12" "match_ok e i d p off" "rep e i off 4" "tinv e tbl0 (i + 1) tbl'"
      by (auto simp: found_def)
    have "wp (catch_up e d a i p) (\<lambda>(ip', p'). a \<le> ip' \<and> ip' \<le> i \<and> match_ok e ip' d p' off
        \<and> rep e ip' off (4 + (i - ip')) \<and> (d \<longrightarrow> p' + (4 + (i - ip')) \<le> dl e))"
      by (rule catch_up_ok[OF P(1) s(2) f(3)]) (use f P(3) in \<open>auto simp: match_ok_def\<close>)
    then obtain i' p' where c: "catch_up e d a i p = Some (i', p')" "a \<le> i'" "i' \<le> i" "match_ok e i' d p' off"
      "rep e i' off (4 + (i - i'))" "d \<longrightarrow> p' + (4 + (i - i')) \<le> dl e" by (auto simp: wp_iff)
    have op: "op = int (length (enc ss))" and pr: "prefix (enc ss) m" using P(2) by (auto simp: ready_def)
    have "wp (encode_literals e a i' op m) (\<lambda>r. case r of
        Inl m' \<Rightarrow> tight e \<and> length m' = length m
      | Inr (token, op, m') \<Rightarrow> token = int (length (enc ss)) \<and> pending e ss (seg (cur e) a i') i' op m' \<and> length m' = length m)"
      unfolding op by (rule encode_literals_ok[OF P(1) pa c(2) _ pr P(6)]) (use c f in simp)
    then obtain r2 where r2: "encode_literals e a i' op m = Some r2" and el: "case r2 of
        Inl m' \<Rightarrow> tight e \<and> length m' = length m
      | Inr (token, op, m') \<Rightarrow> token = int (length (enc ss)) \<and> pending e ss (seg (cur e) a i') i' op m' \<and> length m' = length m"
      by (auto simp: wp_iff)
    show ?thesis
    proof (cases r2)
      case (Inl m')
      moreover have "tinv e tbl0 (c_iend e) tbl'" using f(5) by (rule tbl_inv_mono) (use f in simp)
      ultimately show ?thesis using r y c(1) r2 el
        by (subst compress_loop.simps) (simp add: wp_simps loop_ends_def)
    next
      case (Inr z)
      then obtain token op' m' where z: "r2 = Inr (token, op', m')" by (cases z) auto
      with el have g: "token = int (length (enc ss))" "pending e ss (seg (cur e) a i') i' op' m'" "length m' = length m" by auto
      have room': "out_room e m'" using P(6) g(3) out_room_cong by blast
      have "wp (next_match e i' d p' off token op' m' tbl') (run_ends e tbl0 i' m')"
      proof (rule next_match_ok[OF P(1) g(2) c(4) _ _ c(5) _ room' _ g(1)])
        show "tinv e tbl0 (i' + (4 + (i - i'))) tbl'" using f(5) by (rule tbl_inv_mono) simp
      qed (use f c in auto)
      then obtain o1 where o: "next_match e i' d p' off token op' m' tbl' = Some o1" and re: "run_ends e tbl0 i' m' o1"
        by (auto simp: wp_iff)
      show ?thesis
      proof (cases o1)
        case (Search ip2 a2 op2 m2 tbl2 fh2)
        with re g obtain ss2 where h: "ready e ss2 a2 op2 m2" "length m2 = length m" "tinv e tbl0 ip2 tbl2" "i' < a2"
          "a2 \<le> c_iend e - 12" "ip2 = a2 + 1" by auto
        have "wp (compress_loop e ip2 a2 op2 m2 tbl2 fh2) (loop_ends e tbl0 m2)"
        proof (rule less.hyps[OF _ P(1) h(1,6,5,3)])
          show "out_room e m2" using P(6) h(2) out_room_cong by blast
        qed (use h c in auto)
        then have "wp (compress_loop e ip2 a2 op2 m2 tbl2 fh2) (loop_ends e tbl0 m)"
          by (rule wp_mono) (auto simp: loop_ends_def h(2) elim: run_ends_mono)
        then show ?thesis using r y c(1) r2 z o Search by (subst compress_loop.simps) (simp add: wp_simps)
      qed (use r y c(1) r2 z o re g in \<open>subst compress_loop.simps, auto simp: wp_simps loop_ends_def\<close>)+
    qed
  qed
qed


section \<open>The last literals\<close>

text \<open>What a call returns: 0 when the output is too small, else the size of a block.\<close>

definition result_ok :: "cenv \<Rightarrow> bytes \<Rightarrow> int \<times> bytes \<Rightarrow> bool" where
  "result_ok e m r \<longleftrightarrow> length (snd r) = length m \<and> 0 \<le> fst r \<and> fst r \<le> int (length m)
     \<and> fst r \<le> inputSize e + inputSize e div 255 + 16 \<and> (fst r = 0 \<longrightarrow> tight e)
     \<and> (0 < fst r \<longrightarrow> (outputDirective e = limitedOutput \<longrightarrow> fst r \<le> olimit e)
          \<and> block_of (hist_before e) (take (nat (fst r)) (snd r)) (drop (nat (srcpos e)) (cur e)))"

lemma last_literals_ok:
  assumes rd: "ready e ss a op m" and s: "0 \<le> srcpos e" and room: "out_room e m"
  shows "wp (last_literals e a op m) (result_ok e m)"
proof -
  let ?lr = "c_iend e - a" let ?l = "seg (cur e) a (c_iend e)"
  let ?A = "enc ss @ token_byte (nat ?lr) 0 # enc_len (nat ?lr)"
  have op: "op = int (length (enc ss))" and pr: "prefix (enc ss) m" and pa: "parse e ss a" using rd by (auto simp: ready_def)
  have a: "srcpos e \<le> a" "a \<le> c_iend e" using pa by (auto simp: parse_def)
  have ll: "length ?l = nat ?lr" using a s by simp
  have sz: "op \<le> (a - srcpos e) + (a - srcpos e) div 255" using parse_size[OF pa s] op by simp
  have sz2: "(a - srcpos e) div 255 + (?lr + 240) div 255 \<le> inputSize e div 255 + 1" using a by linarith
  have n: "0 \<le> (?lr + 240) div 255" using a by simp
  show ?thesis
  proof (cases "outputDirective e = limitedOutput \<and> op + ?lr + 1 + (?lr + 255 - RUN_MASK) div 255 > olimit e")
    case True
    moreover have "(?lr + 255 - RUN_MASK) div 255 = (?lr + 240) div 255" by simp
    ultimately have "tight e" using sz sz2 by (auto simp: tight_def)
    with True show ?thesis using a s by (simp add: last_literals_def Let_def wp_Some result_ok_def)
  next
    case False
    have lim: "outputDirective e = limitedOutput \<longrightarrow> op + ?lr + 1 + (?lr + 240) div 255 \<le> olimit e"
      using False by (auto simp: algebra_simps)
    have fit: "op + ?lr + 1 + (?lr + 240) div 255 \<le> int (length m)"
    proof (cases "outputDirective e")
      case limitedOutput
      then show ?thesis using lim room by (simp add: out_room_def)
    next
      case notLimited
      then show ?thesis using sz sz2 a room by (simp add: out_room_def)
    qed
    have lh: "wp (if ?lr \<ge> RUN_MASK then do { m \<leftarrow> st m op 240; write_ext m (op + 1) (?lr - RUN_MASK) }
     else do { m \<leftarrow> st m op (of_int (?lr * 16)); Some (op + 1, m) }) (appended ?A m)"
      unfolding op by (rule lit_head_ok[OF pr]) (use a fit op in auto)
    have la: "int (length ?A) = op + 1 + (?lr + 240) div 255"
      using a op by (simp add: enc_len_size zdiv_int)
    have blk: "result_ok e m (int (length ?A) + ?lr, m'')" if m'': "prefix (?A @ ?l) m''" "length m'' = length m" for m''
    proof -
      have eb: "?A @ ?l = enc_block ss 0 ?l" using ll by (simp add: enc_block_def enc_last_def)
      have r: "nat (int (length ?A) + ?lr) = length (?A @ ?l)" unfolding length_append[of ?A ?l] ll using a by linarith
      then have tk: "take (nat (int (length ?A) + ?lr)) m'' = enc_block ss 0 ?l"
        using m''(1) unfolding r eb by (auto simp: prefix_def)
      have "hist_before e @ drop (nat (srcpos e)) (cur e) = hist_cur e"
        using s a by (simp add: nat_add_distrib)
      moreover have "expand (hist_before e) ss @ ?l = hist_cur e"
        using hist_seg[of a "c_iend e" e] pa a s by (simp add: parse_def)
      moreover have "ends_ok ss ?l"
        unfolding ends_ok_def ll using pa a by (cases "ss = []") (auto simp: parse_def nat_le_eq_zle)
      ultimately have "block_of (hist_before e) (enc_block ss 0 ?l) (drop (nat (srcpos e)) (cur e))"
        using pa unfolding block_of_def parse_def by metis
      then show ?thesis using m'' tk la n lim fit sz sz2 a op by (auto simp: result_ok_def)
    qed
    have cpy: "wp (memcpy_from m' (int (length ?A)) (cur e) a ?lr) (\<lambda>m''. result_ok e m (int (length ?A) + ?lr, m''))"
      if m': "prefix ?A m'" "length m' = length m" for m'
    proof (rule wp_memcpy_from)
      fix m'' assume c: "ext_copied m' m'' (int (length ?A)) (cur e) a ?lr"
      have "prefix (?A @ seg (cur e) a (a + ?lr)) m''"
        by (rule prefix_ext_copied[OF m'(1) c]) (use a s m' la fit in auto)
      moreover have "length m'' = length m" using c m' by (simp add: ext_copied_def frame_below_def)
      ultimately show "result_ok e m (int (length ?A) + ?lr, m'')" using blk by simp
    qed (use a s la fit m' in auto)
    have "wp (if ?lr \<ge> RUN_MASK then do { m \<leftarrow> st m op 240; write_ext m (op + 1) (?lr - RUN_MASK) }
     else do { m \<leftarrow> st m op (of_int (?lr * 16)); Some (op + 1, m) })
      (\<lambda>(op, m'). wp (memcpy_from m' op (cur e) a ?lr) (\<lambda>m''. result_ok e m (op + ?lr, m'')))"
    proof (rule wp_mono[OF lh])
      fix r assume ap: "appended ?A m r"
      obtain op m' where r: "r = (op, m')" by (cases r)
      have f: "prefix ?A m'" "length m' = length m" "op = int (length ?A)"
        using ap by (simp_all only: r appended_def fst_conv snd_conv)
      show "case r of (op, m') \<Rightarrow> wp (memcpy_from m' op (cur e) a ?lr) (\<lambda>m''. result_ok e m (op + ?lr, m''))"
        unfolding r prod.case f(3) by (rule cpy[OF f(1,2)])
    qed
    moreover have "last_literals e a op m = do {
        (op, m) \<leftarrow> (if ?lr \<ge> RUN_MASK then do { m \<leftarrow> st m op 240; write_ext m (op + 1) (?lr - RUN_MASK) }
          else do { m \<leftarrow> st m op (of_int (?lr * 16)); Some (op + 1, m) });
        m \<leftarrow> memcpy_from m op (cur e) a ?lr;
        Some (op + ?lr, m) }"
      using False unfolding last_literals_def Let_def by (simp only: if_False)
    ultimately show ?thesis
      by (simp only: wp_bind wp_Some case_prod_beta case_prod_beta' fst_conv snd_conv)
  qed
qed

section \<open>The whole call\<close>

lemma compress_body_ok:
  assumes e: "env_ok e" and room: "out_room e m" and t: "tinv e tbl0 (srcpos e + 1) tbl" and ne: "srcpos e < c_iend e"
  shows "wp (compress_body e m tbl) (\<lambda>(r, m', tbl'). result_ok e m (r, m') \<and> tinv e tbl0 (c_iend e) tbl')"
proof -
  have s: "0 \<le> srcpos e" "srcpos e \<le> c_iend e" using e by (auto simp: env_ok_def)
  have r0: "ready e [] (srcpos e) 0 m" using parse_Nil[OF s] by (simp add: ready_def)
  show ?thesis
  proof (cases "c_iend e - srcpos e < LZ4_minLength")
    case True
    have "tinv e tbl0 (c_iend e) tbl" using t by (rule tbl_inv_mono) (use ne in simp)
    then show ?thesis using True last_literals_ok[OF r0 s(1) room]
      by (auto simp: compress_body_def wp_simps Let_def elim!: wp_mono)
  next
    case False
    have "wp (put_position e (srcpos e) tbl) (tinv e tbl0 (srcpos e + 1))"
      by (rule put_position_ok[OF e t]) (use False in auto)
    then obtain tbl1 where p: "put_position e (srcpos e) tbl = Some tbl1" "tinv e tbl0 (srcpos e + 1) tbl1"
      by (auto simp: wp_iff)
    have "wp (LZ4_hashPosition (cur e) (srcpos e + 1) (tableT e)) (\<lambda>h. True)"
      by (rule wp_hashPosition) (use False s in auto)
    then obtain h where h: "LZ4_hashPosition (cur e) (srcpos e + 1) (tableT e) = Some h" by (auto simp: wp_iff)
    have "wp (compress_loop e (srcpos e + 1) (srcpos e) 0 m tbl1 h) (loop_ends e tbl0 m)"
      by (rule compress_loop_ok[OF e r0 refl _ p(2) room]) (use False in simp)
    then obtain f where f: "compress_loop e (srcpos e + 1) (srcpos e) 0 m tbl1 h = Some f" "loop_ends e tbl0 m f"
      by (auto simp: wp_iff)
    show ?thesis
    proof (cases f)
      case (Return_0 m' tbl')
      then show ?thesis using False p h f s by (simp add: compress_body_def wp_simps loop_ends_def result_ok_def)
    next
      case (Last_literals a op m' tbl')
      with f obtain ss where l: "ready e ss a op m'" "length m' = length m" "tinv e tbl0 (c_iend e) tbl'"
        by (auto simp: loop_ends_def)
      have "wp (last_literals e a op m') (result_ok e m')"
        by (rule last_literals_ok[OF l(1) s(1)]) (use room l(2) out_room_cong in blast)
      then have "wp (last_literals e a op m') (result_ok e m)" using l(2) by (simp add: result_ok_def[abs_def])
      then show ?thesis using False p h f(1) Last_literals l
        by (auto simp: compress_body_def wp_simps Let_def elim!: wp_mono)
    next
      case (Search ip a op m' tbl' fh)
      then show ?thesis using f by (auto simp: loop_ends_def)
    qed
  qed
qed


section \<open>The entry points\<close>

lemma generic_validated_ok:
  assumes e: "e = compress_env c sg source dictBytes cap dir tt d small accel" "env_ok e" "out_room e dst"
    and t: "\<And>h. old_entry e (hashTable c h)" and ne: "source < int (length sg)"
  shows "wp (LZ4_compress_generic_validated c sg source dictBytes dst cap dir tt d small accel)
    (\<lambda>(r, m, c'). (r = 0 \<and> m = dst \<and> c' = c \<and> tt = byU16 \<and> LZ4_64Klimit \<le> int (length sg) - source)
       \<or> (result_ok e dst (r, m) \<and> tinv e (hashTable c) (c_iend e) (hashTable c')
          \<and> currentOffset c' = (currentOffset c + (int (length sg) - source)) mod 2 ^ 32 \<and> tableType c' = tt
          \<and> dictionary c' = dictionary c
          \<and> dictCtx c' = (if d = usingDictCtx then None else dictCtx c)
          \<and> cdictSize c' = (if d = usingDictCtx then int (length sg) - source else (cdictSize c + (int (length sg) - source)) mod 2 ^ 32)))"
proof -
  have se: "srcpos e = source" "cur e = sg" "startIndex e = currentOffset c" by (simp_all add: e(1) compress_env_def)
  have "tinv e (hashTable c) (srcpos e + 1) (hashTable c)"
    using t by (auto simp: tbl_inv_def old_entry_def)
  then have b: "wp (compress_body e dst (hashTable c)) (\<lambda>(r, m', tbl'). result_ok e dst (r, m') \<and> tinv e (hashTable c) (c_iend e) tbl')"
    using ne se by (intro compress_body_ok[OF e(2,3)]) auto
  show ?thesis
  proof (cases "tt = byU16 \<and> int (length sg) - source \<ge> LZ4_64Klimit")
    case True
    then show ?thesis by (simp add: LZ4_compress_generic_validated_def wp_Some)
  next
    case False
    then show ?thesis using b unfolding LZ4_compress_generic_validated_def e(1)[symmetric]
      by (auto simp: wp_simps Let_def elim!: wp_mono)
  qed
qed

text \<open>A call on a fresh context: any source, any output buffer.\<close>

definition compressed :: "bytes \<Rightarrow> bytes \<Rightarrow> int \<times> bytes \<Rightarrow> bool" where
  "compressed src dst r \<longleftrightarrow> length (snd r) = length dst \<and> 0 \<le> fst r \<and> fst r \<le> int (length dst)
     \<and> (0 < fst r \<longrightarrow> fst r \<le> LZ4_compressBound (int (length src)) \<and> block_of [] (take (nat (fst r)) (snd r)) src)
     \<and> (int (length src) \<le> LZ4_MAX_INPUT_SIZE \<and> LZ4_compressBound (int (length src)) \<le> int (length dst) \<longrightarrow> 0 < fst r)"

lemma fresh_env_ok:
  assumes "0 < length src" "int (length src) \<le> LZ4_MAX_INPUT_SIZE" "1 \<le> accel"
    and "tt = (if int (length src) < LZ4_64Klimit then byU16 else byU32)"
    and e: "e = compress_env LZ4_initStream src 0 [] cap dir tt noDict False accel"
  shows "env_ok e" "old_entry e 0" "tt = byU16 \<longrightarrow> int (length src) < LZ4_64Klimit"
  using assms by (auto simp: compress_env_def LZ4_initStream_def env_ok_def mode_fits_def old_entry_def)

lemma empty_block: "block_of [] (take 1 (upd dst 0 [0])) [] \<longleftrightarrow> True"
proof -
  have "take 1 (upd dst 0 [0]) = enc_block [] 0 []"
    by (simp add: upd_def enc_block_def enc_last_def enc_len_def token_byte_def)
  then show ?thesis by (auto simp: block_of_def ends_ok_def intro: exI[of _ "[]"])
qed

lemma compress_bound_eq: "0 \<le> n \<Longrightarrow> n \<le> LZ4_MAX_INPUT_SIZE \<Longrightarrow> LZ4_compressBound n = n + n div 255 + 16"
  by (simp add: LZ4_compressBound_def)

lemma generic_fresh_ok:
  assumes cap: "dir = limitedOutput \<and> cap = int (length dst) \<or> dir = notLimited \<and> cap = 0 \<and> LZ4_compressBound (int (length src)) \<le> int (length dst)"
    and a: "1 \<le> accel" and tt: "tt = (if int (length src) < LZ4_64Klimit then byU16 else byU32)"
    and lim: "int (length src) \<le> LZ4_MAX_INPUT_SIZE \<and> LZ4_compressBound (int (length src)) \<le> int (length dst) \<longrightarrow> dir = notLimited"
  shows "wp (LZ4_compress_generic LZ4_initStream src 0 [] dst cap dir tt noDict False accel) (\<lambda>(r, m, c). compressed src dst (r, m))"
proof (cases "int (length src) > LZ4_MAX_INPUT_SIZE")
  case True
  then show ?thesis by (simp add: LZ4_compress_generic_def wp_Some compressed_def)
next
  case big: False
  note cb = compress_bound_eq[of "int (length src)"]
  show ?thesis
  proof (cases "src = []")
    case True
    show ?thesis
    proof (cases "dst = []")
      case dn: True
      then have "dir = limitedOutput \<and> cap = 0" using cap True by (auto simp: LZ4_compressBound_def)
      then show ?thesis using True dn
        by (simp add: LZ4_compress_generic_def wp_Some compressed_def LZ4_compressBound_def)
    next
      case False
      then have l: "1 \<le> int (length dst)" by (cases dst) auto
      then have "compressed [] dst (1, upd dst 0 [0])"
        using empty_block[of dst] by (auto simp: compressed_def LZ4_compressBound_def in_buf_def)
      then show ?thesis using True cap l by (auto simp: LZ4_compress_generic_def wp_simps in_buf_def)
    qed
  next
    case ne: False
    define e where "e = compress_env LZ4_initStream src 0 [] cap dir tt noDict False accel"
    have pos: "0 < length src" using ne by simp
    note fr = fresh_env_ok[OF pos _ a tt e_def]
    have se: "srcpos e = 0" "cur e = src" "extdict e = []" "olimit e = cap" "outputDirective e = dir"
      by (simp_all add: e_def compress_env_def)
    have room: "out_room e dst" using cap cb big se by (auto simp: out_room_def)
    have z: "hashTable LZ4_initStream h = 0" for h by (simp add: LZ4_initStream_def)
    have "wp (LZ4_compress_generic_validated LZ4_initStream src 0 [] dst cap dir tt noDict False accel)
       (\<lambda>(r, m, c'). result_ok e dst (r, m))"
      by (rule wp_mono[OF generic_validated_ok[OF e_def fr(1) room]]) (use big fr z pos in auto)
    moreover have "compressed src dst (r, m)" if "result_ok e dst (r, m)" for r m
      using that cap cb big lim by (auto simp: result_ok_def compressed_def tight_def se)
    ultimately show ?thesis using big ne
      by (auto simp: LZ4_compress_generic_def elim!: wp_mono)
  qed
qed

lemma fast_extState_ok:
  assumes "cap = int (length dst)"
  shows "wp (LZ4_compress_fast_extState src dst cap accel) (compressed src dst)"
proof -
  let ?tt = "if int (length src) < LZ4_64Klimit then byU16 else byU32"
  have a: "1 \<le> clamp_acceleration accel" by (simp add: clamp_acceleration_def)
  show ?thesis
  proof (cases "cap \<ge> LZ4_compressBound (int (length src))")
    case True
    have "wp (LZ4_compress_generic LZ4_initStream src 0 [] dst 0 notLimited ?tt noDict False (clamp_acceleration accel))
        (\<lambda>(r, m, c). compressed src dst (r, m))"
      by (rule generic_fresh_ok[OF _ a refl]) (use True assms in auto)
    then show ?thesis using True by (auto simp: LZ4_compress_fast_extState_def Let_def wp_simps elim!: wp_mono)
  next
    case False
    have "wp (LZ4_compress_generic LZ4_initStream src 0 [] dst cap limitedOutput ?tt noDict False (clamp_acceleration accel))
        (\<lambda>(r, m, c). compressed src dst (r, m))"
      by (rule generic_fresh_ok[OF _ a refl]) (use False assms in auto)
    then show ?thesis using False by (auto simp: LZ4_compress_fast_extState_def Let_def wp_simps elim!: wp_mono)
  qed
qed


text \<open>Compress, then decompress from any memory that holds the block.\<close>

lemma decompress_compressed:
  assumes c: "compressed src dst (n, dst')" "0 < n" and m: "read_mem mem s n = take (nat n) dst'"
    and a: "apart s n d cap" "0 < s" "s + n < 2 ^ 64" "0 \<le> d" "d + cap < 2 ^ 64" and l: "int (length src) \<le> cap"
  shows "\<exists>mem'. LZ4_decompress_safe fast mem s d n cap = Some (int (length src), mem')
    \<and> read_mem mem' d (int (length src)) = src"
proof -
  have "block_of (read_mem mem 0 0) (read_mem mem s n) src"
    using c m by (simp add: compressed_def read_mem_def[of mem 0 0])
  moreover have "apart 0 0 d cap" by (simp add: apart_def)
  ultimately have "\<exists>mem'. LZ4_decompress_safe_usingDict fast mem s d n cap 0 0 = Some (int (length src), mem')
      \<and> read_mem mem' d (int (length src)) = src"
    using usingDict_complete[of n 0 s d cap 0 mem src fast] a c l by simp
  then show ?thesis by (simp add: LZ4_decompress_safe_usingDict_def)
qed

section \<open>Properties\<close>

text \<open>C12. The index that \<open>LZ4_hashPosition\<close> computes lies inside the hash table of 16 KB: below 8192
  for the 16-bit entries of \<open>byU16\<close>, below 4096 for the 32-bit entries otherwise.\<close>

theorem LZ4_hashPosition_bound:
  assumes "LZ4_hashPosition m p tt = Some h"
  shows "unat h < (if tt = byU16 then 8192 else 4096)"
proof (cases "tt = byU16")
  case True
  have "unat (drop_bit 19 (x :: u32)) < 8192" for x
    using unsigned_less[of x, where 'a = nat] by (simp add: drop_bit_eq_div unat_div less_mult_imp_div_less)
  then show ?thesis using assms True by (auto simp: LZ4_hashPosition_def LZ4_hash4_def Option.bind_eq_Some_conv)
next
  case False
  have b: "unat (drop_bit 52 (x :: u64)) < 4096" for x
    using unsigned_less[of x, where 'a = nat] by (simp add: drop_bit_eq_div unat_div less_mult_imp_div_less)
  have "unat (ucast (drop_bit 52 (x :: u64)) :: u32) < 4096" for x
    using le_less_trans[OF take_bit_nat_less_eq_self b[of x]] by (simp add: unsigned_ucast_eq)
  then show ?thesis using assms False by (auto simp: LZ4_hashPosition_def LZ4_hash5_def Let_def Option.bind_eq_Some_conv)
qed

lemma LZ4_hashPosition_bound_witness: "\<exists>h. LZ4_hashPosition [1, 2, 3, 4] 0 byU16 = Some h \<and> unat h < 8192"
proof -
  obtain h where "LZ4_hashPosition [1, 2, 3, 4] 0 byU16 = Some h"
    by (simp add: LZ4_hashPosition_def LZ4_read32_def rdn_def in_buf_def)
  with LZ4_hashPosition_bound[OF this] show ?thesis by simp
qed

text \<open>C13. \<open>LZ4_compress_fast\<close> on any source, into an output buffer of any size, with any
  acceleration: it ends, makes no access outside source and output, and a result \<open>n > 0\<close> is the
  size of a well-formed block (end-of-block conditions included) that stands for the source.\<close>

theorem LZ4_compress_fast_correct:
  assumes "cap = int (length dst)"
  shows "\<exists>n dst'. LZ4_compress_fast src dst cap accel = Some (n, dst') \<and> length dst' = length dst
    \<and> 0 \<le> n \<and> n \<le> cap \<and> (0 < n \<longrightarrow> block_of [] (take (nat n) dst') src)"
  using fast_extState_ok[OF assms, of src accel] assms
  by (auto simp: wp_iff LZ4_compress_fast_def compressed_def)

lemma LZ4_compress_fast_correct_witness:
  "\<exists>n dst'. LZ4_compress_fast demo_data (replicate 10 0) 10 7 = Some (n, dst') \<and> 0 \<le> n \<and> n \<le> 10
    \<and> (0 < n \<longrightarrow> block_of [] (take (nat n) dst') demo_data)"
  using LZ4_compress_fast_correct[of 10 "replicate 10 0" demo_data 7] by auto

text \<open>C14. Compression cannot fail for lack of room in a buffer of \<open>LZ4_compressBound\<close> bytes, and
  never writes more than that.\<close>

theorem LZ4_compress_default_succeeds:
  assumes "cap = int (length dst)" "int (length src) \<le> LZ4_MAX_INPUT_SIZE" "LZ4_compressBound (int (length src)) \<le> cap"
  shows "\<exists>n dst'. LZ4_compress_default src dst cap = Some (n, dst') \<and> 0 < n \<and> n \<le> LZ4_compressBound (int (length src))"
  using fast_extState_ok[OF assms(1), of src 1] assms
  by (auto simp: wp_iff LZ4_compress_default_def LZ4_compress_fast_def compressed_def)

lemma LZ4_compress_default_succeeds_witness:
  "\<exists>n dst'. LZ4_compress_default demo_data (replicate 40 0) 40 = Some (n, dst') \<and> 0 < n \<and> n \<le> 36"
  using LZ4_compress_default_succeeds[of 40 "replicate 40 0" demo_data]
  by (simp add: length_demo_data LZ4_compressBound_def)

text \<open>C15. Round trip: whatever \<open>LZ4_compress_default\<close> returns for a source, \<open>LZ4_decompress_safe\<close>
  turns back into that source, from any memory that holds the block.\<close>

theorem LZ4_block_roundtrip:
  assumes "LZ4_compress_default src dst (int (length dst)) = Some (n, dst')" "0 < n"
    and "read_mem mem s n = take (nat n) dst'"
    and "apart s n d cap" "0 < s" "s + n < 2 ^ 64" "0 \<le> d" "d + cap < 2 ^ 64" "int (length src) \<le> cap"
  shows "\<exists>mem'. LZ4_decompress_safe fast mem s d n cap = Some (int (length src), mem')
    \<and> read_mem mem' d (int (length src)) = src"
proof -
  have "compressed src dst (n, dst')"
    using fast_extState_ok[OF refl, of src dst 1] assms(1)
    by (simp add: wp_Some LZ4_compress_default_def LZ4_compress_fast_def)
  then show ?thesis by (rule decompress_compressed[OF _ assms(2-)])
qed

lemma LZ4_block_roundtrip_witness:
  "\<exists>n dst' mem'. LZ4_compress_default demo_data (replicate 40 0) 40 = Some (n, dst')
    \<and> LZ4_decompress_safe True (write_mem (\<lambda>p. 0) 4096 (take (nat n) dst')) 4096 65536 n 20 = Some (20, mem')
    \<and> read_mem mem' 65536 20 = demo_data"
proof -
  have c: "wp (LZ4_compress_default demo_data (replicate 40 0) 40) (compressed demo_data (replicate 40 0))"
    using fast_extState_ok[of 40 "replicate 40 0" demo_data 1] by (simp add: LZ4_compress_default_def LZ4_compress_fast_def)
  then obtain n dst' where r: "LZ4_compress_default demo_data (replicate 40 0) 40 = Some (n, dst')"
    and k: "compressed demo_data (replicate 40 0) (n, dst')" by (auto simp: wp_iff)
  from k have n: "0 < n" "n \<le> 40" "length dst' = 40"
    by (auto simp: compressed_def length_demo_data LZ4_compressBound_def)
  let ?mem = "write_mem (\<lambda>p. 0) 4096 (take (nat n) dst')"
  have l: "int (length (take (nat n) dst')) = n" using n by simp
  then have m: "read_mem ?mem 4096 n = take (nat n) dst'"
    using read_write_part[of 0 n "take (nat n) dst'" "\<lambda>p. 0" 4096] n seg_full[of "take (nat n) dst'"] by simp
  have "apart 4096 n 65536 20" using n by (simp add: apart_def)
  from LZ4_block_roundtrip[of demo_data "replicate 40 0" n dst' ?mem 4096 65536 20 True, OF _ n(1) m this]
  show ?thesis using r n by (auto simp: length_demo_data)
qed

end
