(* ===== verification/LZ4_Compress_Stream.thy ===== *)
theory LZ4_Compress_Stream
  imports LZ4_Compress_Sound
begin

text \<open>
  The streaming compressor of \<open>lz4.c\<close>, over the flat address space of the decoding API:
  \<open>LZ4_resetStream\<close>, \<open>LZ4_resetStream_fast\<close>, \<open>LZ4_loadDict\<close>, \<open>LZ4_attach_dictionary\<close>,
  \<open>LZ4_renormDictT\<close>, \<open>LZ4_compress_fast_continue\<close> and \<open>LZ4_saveDict\<close>. The context is \<open>cctx\<close>.
  The hash table lives on from call to call; \<open>cs_wf\<close> is the invariant that makes its old
  entries harmless, and each call is proved to produce a block for its source after the
  dictionary that it uses.
\<close>

section \<open>Resetting, loading and attaching\<close>

definition LZ4_resetStream :: "cctx \<Rightarrow> cctx" where
  "LZ4_resetStream c = LZ4_initStream"

definition LZ4_resetStream_fast :: "cctx \<Rightarrow> cctx" where
  "LZ4_resetStream_fast c = LZ4_prepareTable c 0 byU32"

text \<open>The loop of \<open>LZ4_loadDict\<close> over the last 64 KB of the dictionary: index 65536 is its end.\<close>

function load_loop :: "bytes \<Rightarrow> int \<Rightarrow> htable \<Rightarrow> htable option" where
  "load_loop bs p tbl =
    (if p \<le> int (length bs) - 8 then do {
       h \<leftarrow> LZ4_hashPosition bs p byU32;
       load_loop bs (p + 3) (LZ4_putIndexOnHash (KB 64 - int (length bs) + p) h tbl byU32) }
     else Some tbl)"
  by pat_completeness auto
termination
  by (relation "measure (\<lambda>(bs, p, tbl). nat (int (length bs) - p))") auto

declare load_loop.simps [simp del]

definition LZ4_loadDict :: "memory \<Rightarrow> int \<Rightarrow> int \<Rightarrow> (int \<times> cctx) option" where
  "LZ4_loadDict mem dict_addr dict_size =
    (let c = LZ4_initStream\<lparr>currentOffset := KB 64\<rparr> in
     if dict_size < 8 then Some (0, c)
     else let p = (if dict_size > KB 64 then dict_addr + dict_size - KB 64 else dict_addr);
              size = dict_addr + dict_size - p in do {
       tbl \<leftarrow> load_loop (read_mem mem p size) 0 (hashTable c);
       Some (size, c\<lparr>dictionary := p, cdictSize := size, tableType := byU32, hashTable := tbl\<rparr>) })"

text \<open>A context as it is seen through \<open>dictCtx\<close>: made by \<open>LZ4_loadDict\<close>, it has no \<open>dictCtx\<close> itself.\<close>

definition as_dict :: "cctx \<Rightarrow> dict_ctx" where
  "as_dict c = \<lparr>dc_hashTable = hashTable c, dc_currentOffset = currentOffset c, dc_dictionary = dictionary c,
     dc_dictSize = cdictSize c\<rparr>"

definition LZ4_attach_dictionary :: "cctx \<Rightarrow> cctx option \<Rightarrow> cctx" where
  "LZ4_attach_dictionary working dictStream =
    (case dictStream of None \<Rightarrow> working\<lparr>dictCtx := None\<rparr>
     | Some d \<Rightarrow> (if currentOffset working = 0 then working\<lparr>currentOffset := KB 64\<rparr> else working)
         \<lparr>dictCtx := if cdictSize d = 0 then None else Some (as_dict d)\<rparr>)"

section \<open>One call\<close>

definition LZ4_renormDictT :: "cctx \<Rightarrow> int \<Rightarrow> cctx" where
  "LZ4_renormDictT c nextSize =
    (if (currentOffset c + nextSize) mod 2 ^ 32 > 0x80000000 then
       let delta = (currentOffset c - KB 64) mod 2 ^ 32;
           dictEnd = dictionary c + cdictSize c;
           size = min (cdictSize c) (KB 64) in
       c\<lparr>hashTable := (\<lambda>h. if hashTable c h < delta then 0 else hashTable c h - delta),
         currentOffset := KB 64, cdictSize := size, dictionary := dictEnd - size\<rparr>
     else c)"

text \<open>\<open>LZ4_compress_generic\<close> on the address space; the output is \<open>limitedOutput\<close>. \<open>None\<close> also if the
  output overlaps the source or the dictionary.\<close>

definition dict_of_mode :: "cctx \<Rightarrow> dict_directive \<Rightarrow> int \<times> int" where
  "dict_of_mode c d = (case d of usingExtDict \<Rightarrow> (dictionary c, cdictSize c)
     | usingDictCtx \<Rightarrow> (case dictCtx c of Some dc \<Rightarrow> (dc_dictionary dc, dc_dictSize dc) | None \<Rightarrow> (0, 0))
     | _ \<Rightarrow> (0, 0))"

definition call_compressor ::
  "memory \<Rightarrow> cctx \<Rightarrow> int \<Rightarrow> int \<Rightarrow> int \<Rightarrow> int \<Rightarrow> dict_directive \<Rightarrow> bool \<Rightarrow> int \<Rightarrow> (int \<times> cctx \<times> memory) option" where
  "call_compressor mem c source srcSize dest maxOutputSize d small accel =
    (if srcSize < 0 then Some (0, c, mem)
     else let prefix = (if d = withPrefix64k then cdictSize c else 0); (da, ds) = dict_of_mode c d in
     if \<not> apart (source - prefix) (prefix + srcSize) dest maxOutputSize \<or> \<not> apart da ds dest maxOutputSize then None
     else do {
       (r, m, c) \<leftarrow> LZ4_compress_generic c (read_mem mem (source - prefix) (prefix + srcSize)) prefix
         (read_mem mem da ds) (read_mem mem dest maxOutputSize) maxOutputSize limitedOutput byU32 d small accel;
       Some (r, c, write_mem mem dest m) })"

text \<open>The two adjustments of the dictionary: tiny dictionaries are dropped, and what the source
  overwrites is cut off.\<close>

definition drop_tiny :: "cctx \<Rightarrow> int \<Rightarrow> int \<Rightarrow> int \<Rightarrow> cctx \<times> int" where
  "drop_tiny c dictEnd source srcSize =
    (if cdictSize c < 4 \<and> dictEnd \<noteq> source \<and> srcSize > 0 \<and> dictCtx c = None
     then (c\<lparr>cdictSize := 0, dictionary := source\<rparr>, source) else (c, dictEnd))"

definition cut_overlap :: "cctx \<Rightarrow> int \<Rightarrow> int \<Rightarrow> int \<Rightarrow> cctx" where
  "cut_overlap c dictEnd source srcSize =
    (let sourceEnd = source + srcSize in
     if sourceEnd > dictionary c \<and> sourceEnd < dictEnd then
       let size = min (dictEnd - sourceEnd) (KB 64); size = (if size < 4 then 0 else size) in
       c\<lparr>cdictSize := size, dictionary := dictEnd - size\<rparr>
     else c)"

definition copy_dictCtx :: "cctx \<Rightarrow> dict_ctx \<Rightarrow> cctx" where
  "copy_dictCtx c dc = c\<lparr>hashTable := dc_hashTable dc, currentOffset := dc_currentOffset dc, tableType := byU32,
     dictionary := dc_dictionary dc, cdictSize := dc_dictSize dc, dictCtx := None\<rparr>"

definition LZ4_compress_fast_continue ::
  "memory \<Rightarrow> cctx \<Rightarrow> int \<Rightarrow> int \<Rightarrow> int \<Rightarrow> int \<Rightarrow> int \<Rightarrow> (int \<times> cctx \<times> memory) option" where
  "LZ4_compress_fast_continue mem c source dest srcSize maxOutputSize accel =
    (let dictEnd = (if cdictSize c \<noteq> 0 then dictionary c + cdictSize c else 0);
         c = LZ4_renormDictT c srcSize;
         accel = clamp_acceleration accel;
         (c, dictEnd) = drop_tiny c dictEnd source srcSize;
         c = cut_overlap c dictEnd source srcSize;
         small = (cdictSize c < KB 64 \<and> cdictSize c < currentOffset c) in
     if dictEnd = source then call_compressor mem c source srcSize dest maxOutputSize withPrefix64k small accel
     else do {
       (r, c, mem) \<leftarrow> (case dictCtx c of
           Some dc \<Rightarrow> if srcSize > KB 4
             then call_compressor mem (copy_dictCtx c dc) source srcSize dest maxOutputSize usingExtDict False accel
             else call_compressor mem c source srcSize dest maxOutputSize usingDictCtx False accel
         | None \<Rightarrow> call_compressor mem c source srcSize dest maxOutputSize usingExtDict small accel);
       Some (r, c\<lparr>dictionary := source, cdictSize := srcSize mod 2 ^ 32\<rparr>, mem) })"

definition LZ4_saveDict :: "memory \<Rightarrow> cctx \<Rightarrow> int \<Rightarrow> int \<Rightarrow> int \<times> cctx \<times> memory" where
  "LZ4_saveDict mem c safeBuffer dictLength =
    (let n = (if dictLength mod 2 ^ 32 > KB 64 then KB 64 else dictLength);
         n = (if n mod 2 ^ 32 > cdictSize c then cdictSize c else n);
         mem = (if n > 0 then write_mem mem safeBuffer (read_mem mem (dictionary c + cdictSize c - n) n) else mem) in
     (n, c\<lparr>dictionary := safeBuffer, cdictSize := n\<rparr>, mem))"

section \<open>The invariant of a stream\<close>

definition dict_ok :: "dict_ctx \<Rightarrow> bool" where
  "dict_ok dc \<longleftrightarrow> dc_currentOffset dc = 65536 \<and> 0 \<le> dc_dictSize dc \<and> dc_dictSize dc \<le> 65536
     \<and> (\<forall>h. dc_hashTable dc h = 0 \<or> (65536 - dc_dictSize dc \<le> dc_hashTable dc h \<and> dc_hashTable dc h + 4 \<le> 65536))"

definition cs_wf :: "cctx \<Rightarrow> bool" where
  "cs_wf c \<longleftrightarrow> 0 \<le> cdictSize c \<and> cdictSize c \<le> currentOffset c \<and> currentOffset c \<le> 2 ^ 31
     \<and> (\<forall>h. hashTable c h = 0 \<or> (0 < hashTable c h \<and> hashTable c h + 4 \<le> currentOffset c))
     \<and> (\<forall>dc. dictCtx c = Some dc \<longrightarrow> dict_ok dc \<and> 65536 \<le> currentOffset c)"

text \<open>The context a call works with, the address where its dictionary ends, and the dictionary.\<close>

definition cs_turn :: "cctx \<Rightarrow> int \<Rightarrow> int \<Rightarrow> cctx \<times> int" where
  "cs_turn c source srcSize =
    (let (c1, dictEnd) = drop_tiny (LZ4_renormDictT c srcSize)
           (if cdictSize c \<noteq> 0 then dictionary c + cdictSize c else 0) source srcSize in
     (cut_overlap c1 dictEnd source srcSize, dictEnd))"

definition cs_dict :: "cctx \<Rightarrow> int \<Rightarrow> int \<Rightarrow> int \<times> int" where
  "cs_dict c source srcSize =
    (let (c1, dictEnd) = cs_turn c source srcSize in
     case dictCtx c1 of Some dc \<Rightarrow> if dictEnd = source then (dictionary c1, cdictSize c1) else (dc_dictionary dc, dc_dictSize dc)
     | None \<Rightarrow> (dictionary c1, cdictSize c1))"

definition cs_history :: "memory \<Rightarrow> cctx \<Rightarrow> int \<Rightarrow> int \<Rightarrow> bytes" where
  "cs_history mem c source srcSize = read_mem mem (fst (cs_dict c source srcSize)) (snd (cs_dict c source srcSize))"

lemma initStream_wf: "cs_wf LZ4_initStream"
  by (simp add: cs_wf_def LZ4_initStream_def)

lemma resetStream_fast_wf:
  assumes "cs_wf c" "tableType c = clearedTable \<longrightarrow> currentOffset c \<le> 2 ^ 30"
  shows "cs_wf (LZ4_resetStream_fast c)"
    "currentOffset (LZ4_resetStream_fast c) = 0 \<or> 65536 \<le> currentOffset (LZ4_resetStream_fast c)"
proof -
  have "cs_wf (LZ4_resetStream_fast c)
    \<and> (currentOffset (LZ4_resetStream_fast c) = 0 \<or> 65536 \<le> currentOffset (LZ4_resetStream_fast c))"
  proof (cases "tableType c \<noteq> clearedTable \<and> (tableType c \<noteq> byU32 \<or> currentOffset c > 2 ^ 30)")
    case True
    then show ?thesis by (auto simp: cs_wf_def LZ4_resetStream_fast_def LZ4_prepareTable_def Let_def)
  next
    case False
    then have o: "0 \<le> currentOffset c" "currentOffset c \<le> 2 ^ 30" using assms by (auto simp: cs_wf_def)
    then have "(currentOffset c + 65536) mod 2 ^ 32 = currentOffset c + 65536" by (intro mod_pos_pos_trivial) auto
    then show ?thesis using False assms(1) o
      by (auto simp: cs_wf_def LZ4_resetStream_fast_def LZ4_prepareTable_def Let_def)
  qed
  then show "cs_wf (LZ4_resetStream_fast c)"
    "currentOffset (LZ4_resetStream_fast c) = 0 \<or> 65536 \<le> currentOffset (LZ4_resetStream_fast c)" by auto
qed

text \<open>\<open>LZ4_loadDict\<close>: every entry of the table is a position of the dictionary.\<close>

lemma load_loop_ok:
  assumes "length bs \<le> 65536" "0 \<le> p"
    and "\<forall>h. tbl h = 0 \<or> (65536 - int (length bs) \<le> tbl h \<and> tbl h + 4 \<le> 65536)"
  shows "wp (load_loop bs p tbl) (\<lambda>tbl. \<forall>h. tbl h = 0 \<or> (65536 - int (length bs) \<le> tbl h \<and> tbl h + 4 \<le> 65536))"
  using assms
proof (induction bs p tbl rule: load_loop.induct)
  case (1 bs p tbl)
  show ?case
  proof (cases "p \<le> int (length bs) - 8")
    case False
    then show ?thesis using "1.prems" by (subst load_loop.simps) (simp add: wp_Some)
  next
    case True
    have "wp (LZ4_hashPosition bs p byU32)
      (\<lambda>h. wp (load_loop bs (p + 3) (LZ4_putIndexOnHash (KB 64 - int (length bs) + p) h tbl byU32))
        (\<lambda>tbl. \<forall>h. tbl h = 0 \<or> (65536 - int (length bs) \<le> tbl h \<and> tbl h + 4 \<le> 65536)))"
    proof (rule wp_hashPosition)
      fix h assume h: "LZ4_hashPosition bs p byU32 = Some h"
      have m: "(65536 - int (length bs) + p) mod 2 ^ 32 = 65536 - int (length bs) + p"
        using "1.prems" True by (intro mod_pos_pos_trivial) auto
      show "wp (load_loop bs (p + 3) (LZ4_putIndexOnHash (KB 64 - int (length bs) + p) h tbl byU32))
        (\<lambda>tbl. \<forall>h. tbl h = 0 \<or> (65536 - int (length bs) \<le> tbl h \<and> tbl h + 4 \<le> 65536))"
        using "1.prems" True m by (intro "1.IH"[OF True h]) (auto simp: LZ4_putIndexOnHash_def)
    qed (use "1.prems" True in auto)
    then show ?thesis using True by (subst load_loop.simps) (simp add: wp_bind)
  qed
qed

lemma loadDict_ok:
  "wp (LZ4_loadDict mem a n) (\<lambda>(r, c). cs_wf c \<and> dict_ok (as_dict c) \<and> dictCtx c = None \<and> r = cdictSize c
     \<and> r = (if n < 8 then 0 else min n 65536) \<and> (r \<noteq> 0 \<longrightarrow> dictionary c = a + n - r))"
proof (cases "n < 8")
  case True
  then show ?thesis
    by (simp add: LZ4_loadDict_def wp_Some LZ4_initStream_def cs_wf_def dict_ok_def as_dict_def)
next
  case False
  let ?r = "min n 65536" let ?p = "if n > KB 64 then a + n - KB 64 else a"
  have r: "a + n - ?p = ?r" "0 \<le> ?r" "8 \<le> ?r" "?r \<le> 65536" using False by auto
  have "wp (load_loop (read_mem mem ?p ?r) 0 (\<lambda>h. 0)) (\<lambda>tbl. \<forall>h. tbl h = 0 \<or>
      (65536 - int (length (read_mem mem ?p ?r)) \<le> tbl h \<and> tbl h + 4 \<le> 65536))"
    by (rule load_loop_ok) (use r in auto)
  then have w: "wp (load_loop (read_mem mem ?p ?r) 0 (\<lambda>h. 0)) (\<lambda>tbl. \<forall>h. tbl h = 0 \<or>
      (65536 - ?r \<le> tbl h \<and> tbl h + 4 \<le> 65536))" using r by simp
  have "wp (LZ4_loadDict mem a n) (\<lambda>(r, c). r = ?r \<and> cdictSize c = ?r \<and> dictionary c = ?p \<and> dictCtx c = None
      \<and> currentOffset c = 65536 \<and> (\<forall>h. hashTable c h = 0 \<or> (65536 - ?r \<le> hashTable c h \<and> hashTable c h + 4 \<le> 65536)))"
    using False w unfolding LZ4_loadDict_def Let_def r(1)
    by (auto simp: wp_simps LZ4_initStream_def elim!: wp_mono)
  then show ?thesis
  proof (rule wp_mono, clarify)
    fix c :: cctx assume c: "cdictSize c = ?r" "dictionary c = ?p" "dictCtx c = None" "currentOffset c = 65536"
      "\<forall>h. hashTable c h = 0 \<or> (65536 - ?r \<le> hashTable c h \<and> hashTable c h + 4 \<le> 65536)"
    have "hashTable c h = 0 \<or> 0 < hashTable c h \<and> hashTable c h + 4 \<le> 65536" for h
      using c(5)[rule_format, of h] r by auto
    then show "cs_wf c \<and> dict_ok (as_dict c) \<and> dictCtx c = None \<and> ?r = cdictSize c
     \<and> ?r = (if n < 8 then 0 else min n 65536) \<and> (?r \<noteq> 0 \<longrightarrow> dictionary c = a + n - ?r)"
      using c r False by (auto simp: cs_wf_def dict_ok_def as_dict_def)
  qed
qed

lemma attach_wf:
  assumes "cs_wf c" "currentOffset c = 0 \<or> 65536 \<le> currentOffset c" "dict_ok (as_dict d)"
  shows "cs_wf (LZ4_attach_dictionary c (Some d))"
  using assms by (auto simp: cs_wf_def LZ4_attach_dictionary_def)


section \<open>Adjusting the dictionary\<close>

abbreviation room_left :: "cctx \<Rightarrow> int \<Rightarrow> bool" where
  "room_left c n \<equiv> 0 \<le> n \<and> n \<le> INT_MAX \<and> (n \<le> LZ4_MAX_INPUT_SIZE \<longrightarrow> currentOffset c + n \<le> 2 ^ 31)"

lemma renorm_entry:
  fixes co :: int
  assumes o: "0 \<le> co" "co \<le> 2 ^ 31" and i: "i = 0 \<or> (0 < i \<and> i + 4 \<le> co)" and d: "d = (co - 65536) mod 2 ^ 32"
  shows "\<not> i < d \<Longrightarrow> i \<noteq> d \<Longrightarrow> d < i \<and> i - d + 4 \<le> 65536"
proof (cases "65536 \<le> co")
  case True
  then have "d = co - 65536" unfolding d using o by (intro mod_pos_pos_trivial) auto
  then show "\<not> i < d \<Longrightarrow> i \<noteq> d \<Longrightarrow> d < i \<and> i - d + 4 \<le> 65536" using i True by auto
next
  case False
  have "d = (co - 65536 + 2 ^ 32) mod 2 ^ 32" unfolding d by (simp only: mod_add_self2)
  also have "\<dots> = co - 65536 + 2 ^ 32" using o False by (intro mod_pos_pos_trivial) auto
  finally show "\<not> i < d \<Longrightarrow> i \<noteq> d \<Longrightarrow> d < i \<and> i - d + 4 \<le> 65536" using i o False by auto
qed

lemma renorm_ok:
  assumes wf: "cs_wf c" and n: "0 \<le> n" "n \<le> INT_MAX"
  shows "cs_wf (LZ4_renormDictT c n)" "room_left (LZ4_renormDictT c n) n" "dictCtx (LZ4_renormDictT c n) = dictCtx c"
    "dictionary (LZ4_renormDictT c n) + cdictSize (LZ4_renormDictT c n) = dictionary c + cdictSize c"
    "cdictSize (LZ4_renormDictT c n) = 0 \<longleftrightarrow> cdictSize c = 0" "cdictSize (LZ4_renormDictT c n) \<le> cdictSize c"
proof -
  have o: "0 \<le> currentOffset c" "currentOffset c \<le> 2 ^ 31" using wf by (auto simp: cs_wf_def)
  have m: "(currentOffset c + n) mod 2 ^ 32 = currentOffset c + n" using o n by (intro mod_pos_pos_trivial) auto
  show "room_left (LZ4_renormDictT c n) n" using n m by (simp add: LZ4_renormDictT_def Let_def)
  show "cs_wf (LZ4_renormDictT c n)"
  proof (cases "currentOffset c + n > 2 ^ 31")
    case True
    have i: "hashTable c h = 0 \<or> 0 < hashTable c h \<and> hashTable c h + 4 \<le> currentOffset c" for h
      using wf by (auto simp: cs_wf_def)
    define d where "d = (currentOffset c - KB 64) mod 2 ^ 32"
    have dd: "d = (currentOffset c - 65536) mod 2 ^ 32" by (simp add: d_def)
    have "(if hashTable c h < d then 0 else hashTable c h - d) = 0
      \<or> 0 < (if hashTable c h < d then 0 else hashTable c h - d) \<and> (if hashTable c h < d then 0 else hashTable c h - d) + 4 \<le> 65536" for h
      using renorm_entry[OF o i dd, of h] by auto
    then have "\<forall>h. (if hashTable c h < d then 0 else hashTable c h - d) = 0
      \<or> 0 < (if hashTable c h < d then 0 else hashTable c h - d) \<and> (if hashTable c h < d then 0 else hashTable c h - d) + 4 \<le> 65536" by blast
    moreover have "0 \<le> cdictSize c" "\<forall>dc. dictCtx c = Some dc \<longrightarrow> dict_ok dc" using wf by (auto simp: cs_wf_def)
    moreover have "LZ4_renormDictT c n = c\<lparr>hashTable := (\<lambda>h. if hashTable c h < d then 0 else hashTable c h - d),
        currentOffset := 65536, cdictSize := min (cdictSize c) 65536,
        dictionary := dictionary c + cdictSize c - min (cdictSize c) 65536\<rparr>"
      using True m unfolding LZ4_renormDictT_def Let_def d_def[symmetric] by simp
    ultimately show ?thesis unfolding cs_wf_def by simp
  next
    case False
    then show ?thesis using wf m by (simp add: LZ4_renormDictT_def)
  qed
qed (auto simp: LZ4_renormDictT_def Let_def min_def)

text \<open>What a call finds: the invariant, room for the source, and where the dictionary ends.\<close>

definition turned :: "cctx \<Rightarrow> int \<Rightarrow> int \<Rightarrow> int \<Rightarrow> bool" where
  "turned c dictEnd source n \<longleftrightarrow> cs_wf c \<and> room_left c n
     \<and> (dictEnd = dictionary c + cdictSize c \<or> (dictEnd = 0 \<and> cdictSize c = 0))"

lemma cut_overlap_ok:
  assumes t: "turned c dictEnd source n" and s: "0 < source"
  shows "turned (cut_overlap c dictEnd source n) dictEnd source n" "dictCtx (cut_overlap c dictEnd source n) = dictCtx c"
    "cut_overlap c dictEnd source n = c
      \<or> (cdictSize c \<noteq> 0 \<and> (cdictSize (cut_overlap c dictEnd source n) = 0 \<or> 4 \<le> cdictSize (cut_overlap c dictEnd source n)))"
  using assms unfolding turned_def cut_overlap_def cs_wf_def Let_def by (auto simp: min_def)

lemma cs_turn_ok:
  assumes wf: "cs_wf c" and n: "0 \<le> n" "n \<le> INT_MAX" and s: "0 < source"
    and t: "cs_turn c source n = (c1, dictEnd)"
  shows "turned c1 dictEnd source n" "dictCtx c1 = dictCtx c"
    "dictEnd \<noteq> source \<Longrightarrow> 0 < n \<Longrightarrow> dictCtx c = None \<Longrightarrow> 4 \<le> cdictSize c1 \<or> cdictSize c1 = 0"
proof -
  let ?r = "LZ4_renormDictT c n" let ?e = "if cdictSize c \<noteq> 0 then dictionary c + cdictSize c else 0"
  note r = renorm_ok[OF wf n]
  obtain c2 e2 where d: "drop_tiny ?r ?e source n = (c2, e2)" by (cases "drop_tiny ?r ?e source n")
  have t1: "turned ?r ?e source n" using r by (auto simp: turned_def)
  then have t2: "turned c2 e2 source n" "dictCtx c2 = dictCtx c"
    using d r(3) by (auto simp: drop_tiny_def turned_def cs_wf_def split: if_splits)
  have ce: "c1 = cut_overlap c2 e2 source n" "dictEnd = e2"
    using t d by (auto simp: cs_turn_def)
  note k = cut_overlap_ok[OF t2(1) s]
  show "turned c1 dictEnd source n" "dictCtx c1 = dictCtx c" using k(1,2) t2(2) ce by auto
  assume a: "dictEnd \<noteq> source" "0 < n" "dictCtx c = None"
  have "4 \<le> cdictSize c2"
    using d a ce(2) r(3) by (auto simp: drop_tiny_def split: if_splits)
  then show "4 \<le> cdictSize c1 \<or> cdictSize c1 = 0" using k(3) ce by auto
qed

section \<open>The old entries of the table\<close>

abbreviation stream_env :: "cctx \<Rightarrow> bytes \<Rightarrow> int \<Rightarrow> bytes \<Rightarrow> int \<Rightarrow> dict_directive \<Rightarrow> bool \<Rightarrow> int \<Rightarrow> cenv" where
  "stream_env c sg pos ext cap d small accel \<equiv> compress_env c sg pos ext cap limitedOutput byU32 d small accel"

lemma entry_unreachable:
  assumes "tableT e = byU32" "i = 0" "65535 < startIndex e"
  shows "\<not> reachable e i"
  using assms by (simp add: reachable_def)

text \<open>A table that may hold anything from the last 64 KB or more is safe when the dictionary is as
  long as that, or as long as everything so far, or when indexes before it are refused.\<close>

lemma old_entry_ok:
  assumes wf: "cs_wf c" and e: "e = stream_env c sg pos ext cap d small accel"
    and d: "d = withPrefix64k \<or> d = usingExtDict" and small: "small \<longleftrightarrow> cdictSize c < 65536 \<and> cdictSize c < currentOffset c"
    and ext: "d = usingExtDict \<longrightarrow> 4 \<le> cdictSize c \<or> cdictSize c = 0"
  shows "old_entry e (hashTable c h)"
proof -
  let ?i = "hashTable c h"
  have f: "startIndex e = currentOffset c" "dictLen e = cdictSize c" "dictSmall e = small" "tableT e = byU32" "dictDirective e = d"
    using d by (auto simp: e compress_env_def split: option.splits)
  have i: "?i = 0 \<or> (0 < ?i \<and> ?i + 4 \<le> currentOffset c)" and b: "0 \<le> cdictSize c" "cdictSize c \<le> currentOffset c" "currentOffset c \<le> 2 ^ 31"
    using wf by (auto simp: cs_wf_def)
  have p: "prefixIdxLimit e = currentOffset c - cdictSize c"
    unfolding prefixIdxLimit_def f using b by (intro mod_pos_pos_trivial) auto
  show ?thesis
    using i b p small d ext unfolding old_entry_def reachable_def f by auto
qed


section \<open>A call of the compressor\<close>

lemma block_of_empty: "block_of h [0] []"
proof -
  have "[0] = enc_block [] 0 []" by (simp add: enc_block_def enc_last_def enc_len_def token_byte_def)
  then show ?thesis by (auto simp: block_of_def ends_ok_def intro!: exI[of _ "[]"])
qed

text \<open>The bytes a call may refer to, and what it leaves behind.\<close>

definition call_dict :: "memory \<Rightarrow> cctx \<Rightarrow> int \<Rightarrow> dict_directive \<Rightarrow> bytes" where
  "call_dict mem c source d = (if d = withPrefix64k then read_mem mem (source - cdictSize c) (cdictSize c)
     else read_mem mem (fst (dict_of_mode c d)) (snd (dict_of_mode c d)))"

definition call_post :: "memory \<Rightarrow> cctx \<Rightarrow> int \<Rightarrow> int \<Rightarrow> int \<Rightarrow> int \<Rightarrow> dict_directive \<Rightarrow> int \<times> cctx \<times> memory \<Rightarrow> bool" where
  "call_post mem c source n dest cap d = (\<lambda>(r, c', mem').
     (\<forall>p. p < dest \<or> dest + cap \<le> p \<longrightarrow> mem' p = mem p) \<and> 0 \<le> r \<and> r \<le> max 0 cap
     \<and> (0 < r \<longrightarrow> n \<le> LZ4_MAX_INPUT_SIZE
          \<and> block_of (call_dict mem c source d) (read_mem mem' dest r) (read_mem mem source n))
     \<and> (n \<le> LZ4_MAX_INPUT_SIZE \<longrightarrow> (LZ4_compressBound n \<le> cap \<longrightarrow> 0 < r)
          \<and> cs_wf c' \<and> dictionary c' = dictionary c \<and> dictCtx c' = (if d = usingDictCtx \<and> 0 < n then None else dictCtx c)
          \<and> currentOffset c' = currentOffset c + n
          \<and> cdictSize c' = (if d = usingDictCtx \<and> 0 < n then n else cdictSize c + n)))"

lemma write_mem_outside:
  assumes "length m = nat cap" "p < dest \<or> dest + cap \<le> p"
  shows "write_mem mem dest m p = mem p"
  using assms by (auto simp: write_mem_def)

lemma tables_stay_wf:
  assumes wf: "cs_wf c" and t: "tinv e (hashTable c) (c_iend e) tbl" and e: "startIndex e = currentOffset c" "inputSize e = n" "0 \<le> n"
  shows "tbl h = 0 \<or> (0 < tbl h \<and> tbl h + 4 \<le> currentOffset c + n)"
proof -
  have "tbl h = hashTable c h \<or> (currentOffset c \<le> tbl h \<and> tbl h + 12 \<le> currentOffset c + n)"
    using t e by (auto simp: tbl_inv_def)
  moreover have "hashTable c h = 0 \<or> (0 < hashTable c h \<and> hashTable c h + 4 \<le> currentOffset c)" "0 \<le> currentOffset c"
    using wf by (auto simp: cs_wf_def)
  ultimately show ?thesis using e(3) by auto
qed

lemma call_compressor_ok:
  assumes wf: "cs_wf c" and rl: "room_left c n" and ac: "1 \<le> accel" and d: "d \<noteq> noDict"
    and ap: "apart (source - (if d = withPrefix64k then cdictSize c else 0)) ((if d = withPrefix64k then cdictSize c else 0) + n) dest cap"
      "apart (fst (dict_of_mode c d)) (snd (dict_of_mode c d)) dest cap"
    and env: "\<And>sg pos ext. 0 < n \<Longrightarrow> n \<le> LZ4_MAX_INPUT_SIZE \<Longrightarrow> int (length sg) = pos + n \<Longrightarrow> pos = (if d = withPrefix64k then cdictSize c else 0) \<Longrightarrow>
       int (length ext) = snd (dict_of_mode c d) \<Longrightarrow>
       env_ok (stream_env c sg pos ext cap d small accel) \<and> (\<forall>h. old_entry (stream_env c sg pos ext cap d small accel) (hashTable c h))"
    and ds: "0 \<le> snd (dict_of_mode c d)" and dm: "d = usingDictCtx \<Longrightarrow> dictCtx c \<noteq> None"
  shows "wp (call_compressor mem c source n dest cap d small accel) (call_post mem c source n dest cap d)"
proof -
  let ?pre = "if d = withPrefix64k then cdictSize c else 0"
  let ?sg = "read_mem mem (source - ?pre) (?pre + n)"
  let ?ext = "read_mem mem (fst (dict_of_mode c d)) (snd (dict_of_mode c d))"
  let ?dst = "read_mem mem dest cap"
  let ?gen = "LZ4_compress_generic c ?sg ?pre ?ext ?dst cap limitedOutput byU32 d small accel"
  have b: "0 \<le> ?pre" "0 \<le> n" "0 \<le> currentOffset c" using wf rl by (auto simp: cs_wf_def)
  have lsg: "int (length ?sg) = ?pre + n" using b by simp
  have sg: "?sg = read_mem mem (source - ?pre) ?pre @ read_mem mem source n"
    using read_mem_split[of ?pre n mem "source - ?pre"] b by simp
  have call: "call_compressor mem c source n dest cap d small accel
      = do { (r, m, c') \<leftarrow> ?gen; Some (r, c', write_mem mem dest m) }"
    using b ap by (simp add: call_compressor_def case_prod_beta Let_def)
  have frame: "\<forall>p. p < dest \<or> dest + cap \<le> p \<longrightarrow> write_mem mem dest m p = mem p" if "length m = nat cap" for m
    using that by (auto intro: write_mem_outside)
  have rd: "read_mem (write_mem mem dest m) dest r = take (nat r) m" if "0 \<le> r" "r \<le> int (length m)" for r m
    using read_write_part[of 0 r m mem dest] that by (simp add: seg_def)
  have "wp ?gen (\<lambda>(r, m, c'). call_post mem c source n dest cap d (r, c', write_mem mem dest m))"
  proof (cases "n > LZ4_MAX_INPUT_SIZE")
    case True
    then have "?gen = Some (0, ?dst, c)" using lsg by (simp add: LZ4_compress_generic_def)
    then show ?thesis using True frame[of ?dst] by (simp add: wp_Some call_post_def)
  next
    case fits: False
    show ?thesis
    proof (cases "n = 0")
    case True
    have g: "?gen = (if cap \<le> 0 then Some (0, ?dst, c) else Some (1, upd ?dst 0 [0], c))"
      using lsg True b by (simp add: LZ4_compress_generic_def st_def in_buf_def)
    show ?thesis
    proof (cases "cap \<le> 0")
      case c0: True
      then show ?thesis unfolding g using True wf frame[of ?dst] c0
        by (simp add: wp_Some call_post_def LZ4_compressBound_def)
    next
      case False
      have l: "length (upd ?dst 0 [0]) = nat cap" using False by (simp add: in_buf_def)
      have "take (nat 1) (upd ?dst 0 [0]) = [0]" by (simp add: upd_def)
      moreover have "read_mem (write_mem mem dest (upd ?dst 0 [0])) dest 1 = take (nat 1) (upd ?dst 0 [0])"
        using l False by (intro rd) auto
      ultimately have "read_mem (write_mem mem dest (upd ?dst 0 [0])) dest 1 = [0]" by simp
      then show ?thesis unfolding g using True wf frame[OF l] False
        by (simp add: wp_Some call_post_def block_of_empty read_mem_def[of mem source 0])
    qed
  next
    case False
    then have n: "0 < n" using b by simp
    define e where "e = stream_env c ?sg ?pre ?ext cap d small accel"
    have lext: "int (length ?ext) = snd (dict_of_mode c d)" using ds by simp
    have en: "env_ok e" "\<And>h. old_entry e (hashTable c h)" using env[OF n _ lsg refl lext] fits by (auto simp: e_def)
    have f: "cur e = ?sg" "srcpos e = ?pre" "extdict e = ?ext" "outputDirective e = limitedOutput" "olimit e = cap"
      "startIndex e = currentOffset c" by (simp_all add: e_def compress_env_def)
    have room: "out_room e ?dst" using f by (simp add: out_room_def)
    have sz: "inputSize e = n" using f lsg by simp
    have hb: "hist_before e = call_dict mem c source d"
    proof (cases "d = withPrefix64k")
      case True
      then have "?ext = []" by (simp add: dict_of_mode_def read_mem_def)
      then show ?thesis using True f sg b by (simp add: call_dict_def)
    next
      case False
      then show ?thesis using f by (simp add: call_dict_def)
    qed
    have src: "drop (nat (srcpos e)) (cur e) = read_mem mem source n" using f sg b by simp
    have mods: "(currentOffset c + n) mod 2 ^ 32 = currentOffset c + n" "(cdictSize c + n) mod 2 ^ 32 = cdictSize c + n"
      using wf rl fits by (auto simp: cs_wf_def intro!: mod_pos_pos_trivial)
    have gen: "?gen = LZ4_compress_generic_validated c ?sg ?pre ?ext ?dst cap limitedOutput byU32 d small accel"
      using n b lsg fits by (simp add: LZ4_compress_generic_def)
    have "?pre < int (length ?sg)" using n lsg by simp
    from generic_validated_ok[OF e_def en(1) room en(2) this]
    show ?thesis unfolding gen
    proof (rule wp_mono)
      fix x assume x: "case x of (r, m, c') \<Rightarrow> (r = 0 \<and> m = ?dst \<and> c' = c \<and> byU32 = byU16 \<and> LZ4_64Klimit \<le> int (length ?sg) - ?pre)
       \<or> (result_ok e ?dst (r, m) \<and> tinv e (hashTable c) (c_iend e) (hashTable c')
          \<and> currentOffset c' = (currentOffset c + (int (length ?sg) - ?pre)) mod 2 ^ 32 \<and> tableType c' = byU32
          \<and> dictionary c' = dictionary c
          \<and> dictCtx c' = (if d = usingDictCtx then None else dictCtx c)
          \<and> cdictSize c' = (if d = usingDictCtx then int (length ?sg) - ?pre else (cdictSize c + (int (length ?sg) - ?pre)) mod 2 ^ 32))"
      obtain r m c' where xx: "x = (r, m, c')" by (cases x)
      have n': "int (length ?sg) - ?pre = n" using lsg by simp
      have y: "result_ok e ?dst (r, m)" "tinv e (hashTable c) (c_iend e) (hashTable c')"
        "currentOffset c' = currentOffset c + n" "dictionary c' = dictionary c"
        "dictCtx c' = (if d = usingDictCtx then None else dictCtx c)"
        "cdictSize c' = (if d = usingDictCtx then n else cdictSize c + n)"
        using x unfolding xx prod.case n' mods by simp_all
      have lm: "length m = nat cap" and r: "0 \<le> r" "r \<le> int (length m)" using y(1) by (auto simp: result_ok_def)
      have "0 < r \<longrightarrow> block_of (call_dict mem c source d) (read_mem (write_mem mem dest m) dest r) (read_mem mem source n)"
        using y(1) rd[OF r] hb src by (simp add: result_ok_def)
      moreover have "LZ4_compressBound n \<le> cap \<longrightarrow> 0 < r"
        using y(1) sz f b fits compress_bound_eq[OF b(2)] by (auto simp: result_ok_def tight_def)
      moreover have "r \<le> max 0 cap" using r lm by (simp add: max_def split: if_splits)
      moreover have "cs_wf c'"
        using tables_stay_wf[OF wf y(2) f(6) sz b(2)] wf rl y(3,5,6) b fits by (auto simp: cs_wf_def)
      ultimately show "case x of (r, m, c') \<Rightarrow> call_post mem c source n dest cap d (r, c', write_mem mem dest m)"
        using frame[OF lm] r lm y(3-) n fits by (simp add: xx call_post_def)
    qed
    qed
  qed
  then show ?thesis unfolding call by (auto simp: wp_simps elim!: wp_mono)
qed


section \<open>The modes of a step\<close>

lemma stream_env_ok:
  assumes wf: "cs_wf c" and rl: "room_left c n" and ac: "1 \<le> accel" and n: "int (length sg) = pos + n" "0 \<le> pos" "n \<le> LZ4_MAX_INPUT_SIZE"
    and m: "mode_fits (stream_env c sg pos ext cap d small accel)"
    and dl: "dictLen (stream_env c sg pos ext cap d small accel) \<le> currentOffset c"
  shows "env_ok (stream_env c sg pos ext cap d small accel)"
  using assms by (auto simp: env_ok_def compress_env_def cs_wf_def)

lemma prefix_call_ok:
  assumes t: "turned c source source n" and s: "0 < source" and ac: "1 \<le> accel"
    and ap: "apart source n dest cap" "apart (dictionary c) (cdictSize c) dest cap"
    and small: "small \<longleftrightarrow> cdictSize c < 65536 \<and> cdictSize c < currentOffset c"
  shows "wp (call_compressor mem c source n dest cap withPrefix64k small accel) (call_post mem c source n dest cap withPrefix64k)"
    "dictionary c = source - cdictSize c"
proof -
  have wf: "cs_wf c" and rl: "room_left c n" and de: "dictionary c = source - cdictSize c"
    using t s by (auto simp: turned_def)
  then show "dictionary c = source - cdictSize c" by simp
  have b: "0 \<le> cdictSize c" "cdictSize c \<le> currentOffset c" "0 \<le> n" using wf rl by (auto simp: cs_wf_def)
  show "wp (call_compressor mem c source n dest cap withPrefix64k small accel) (call_post mem c source n dest cap withPrefix64k)"
  proof (rule call_compressor_ok[OF wf rl ac])
    show "apart (source - (if withPrefix64k = withPrefix64k then cdictSize c else 0))
        ((if withPrefix64k = withPrefix64k then cdictSize c else 0) + n) dest cap"
      using ap b de by (auto simp: apart_def)
    fix sg ext :: bytes and pos
    assume nm: "n \<le> LZ4_MAX_INPUT_SIZE" and a: "int (length sg) = pos + n" "pos = (if withPrefix64k = withPrefix64k then cdictSize c else 0)"
      "int (length ext) = snd (dict_of_mode c withPrefix64k)"
    let ?e = "stream_env c sg pos ext cap withPrefix64k small accel"
    have dl: "dictLen ?e = cdictSize c" by (simp add: compress_env_def split: option.splits)
    have "mode_fits ?e" using a dl by (simp add: mode_fits_def dict_of_mode_def compress_env_def)
    then have "env_ok ?e" using a b dl nm by (intro stream_env_ok[OF wf rl ac]) auto
    moreover have "old_entry ?e (hashTable c h)" for h by (rule old_entry_ok[OF wf refl _ small]) auto
    ultimately show "env_ok ?e \<and> (\<forall>h. old_entry ?e (hashTable c h))" by blast
  qed (auto simp: dict_of_mode_def apart_def)
qed

lemma ext_call_ok:
  assumes wf: "cs_wf c" and rl: "room_left c n" and ac: "1 \<le> accel"
    and ap: "apart source n dest cap" "apart (dictionary c) (cdictSize c) dest cap"
    and oe: "\<And>sg ext h. 0 < n \<Longrightarrow> old_entry (stream_env c sg 0 ext cap usingExtDict small accel) (hashTable c h)"
  shows "wp (call_compressor mem c source n dest cap usingExtDict small accel) (call_post mem c source n dest cap usingExtDict)"
proof (rule call_compressor_ok[OF wf rl ac])
  fix sg ext :: bytes and pos
  assume nm: "n \<le> LZ4_MAX_INPUT_SIZE" and a: "0 < n" "int (length sg) = pos + n" "pos = (if usingExtDict = withPrefix64k then cdictSize c else 0)"
    "int (length ext) = snd (dict_of_mode c usingExtDict)"
  let ?e = "stream_env c sg pos ext cap usingExtDict small accel"
  have dl: "dictLen ?e = cdictSize c" by (simp add: compress_env_def split: option.splits)
  have "mode_fits ?e" using a dl by (simp add: mode_fits_def dict_of_mode_def compress_env_def)
  then have "env_ok ?e" using a wf dl nm by (intro stream_env_ok[OF wf rl ac]) (auto simp: cs_wf_def)
  then show "env_ok ?e \<and> (\<forall>h. old_entry ?e (hashTable c h))" using oe[OF a(1)] a(3) by simp
qed (use ap wf in \<open>auto simp: dict_of_mode_def cs_wf_def\<close>)

lemma dictCtx_call_ok:
  assumes wf: "cs_wf c" and rl: "room_left c n" and ac: "1 \<le> accel" and dc: "dictCtx c = Some dc"
    and ap: "apart source n dest cap" "apart (dc_dictionary dc) (dc_dictSize dc) dest cap"
  shows "wp (call_compressor mem c source n dest cap usingDictCtx False accel) (call_post mem c source n dest cap usingDictCtx)"
proof (rule call_compressor_ok[OF wf rl ac])
  have d: "dict_ok dc" "65536 \<le> currentOffset c" using wf dc by (auto simp: cs_wf_def)
  fix sg ext :: bytes and pos
  assume nm: "n \<le> LZ4_MAX_INPUT_SIZE" and a: "0 < n" "int (length sg) = pos + n" "pos = (if usingDictCtx = withPrefix64k then cdictSize c else 0)"
    "int (length ext) = snd (dict_of_mode c usingDictCtx)"
  let ?e = "stream_env c sg pos ext cap usingDictCtx False accel"
  have "mode_fits ?e" using a d dc by (auto simp: mode_fits_def dict_of_mode_def compress_env_def dict_ok_def)
  then have "env_ok ?e" using a d dc nm by (intro stream_env_ok[OF wf rl ac]) (auto simp: compress_env_def dict_ok_def)
  moreover have "old_entry ?e (hashTable c h)" for h
  proof -
    have "hashTable c h = 0 \<or> 0 < hashTable c h \<and> hashTable c h + 4 \<le> currentOffset c" using wf by (simp add: cs_wf_def)
    then show ?thesis using d by (auto simp: old_entry_def compress_env_def)
  qed
  ultimately show "env_ok ?e \<and> (\<forall>h. old_entry ?e (hashTable c h))" by blast
qed (use ap dc wf in \<open>auto simp: dict_of_mode_def cs_wf_def dict_ok_def\<close>)

lemma copy_dictCtx_ok:
  assumes "dict_ok dc" "0 \<le> n" "n \<le> INT_MAX"
  shows "cs_wf (copy_dictCtx c dc)" "room_left (copy_dictCtx c dc) n"
    "old_entry (stream_env (copy_dictCtx c dc) sg 0 ext cap usingExtDict False accel) (hashTable (copy_dictCtx c dc) h)"
proof -
  have i: "dc_hashTable dc h = 0 \<or> (65536 - dc_dictSize dc \<le> dc_hashTable dc h \<and> dc_hashTable dc h + 4 \<le> 65536)" for h
    using assms(1) by (simp add: dict_ok_def)
  have b: "0 \<le> dc_dictSize dc" "dc_dictSize dc \<le> 65536" "dc_currentOffset dc = 65536" using assms(1) by (auto simp: dict_ok_def)
  have "dc_hashTable dc h = 0 \<or> 0 < dc_hashTable dc h \<and> dc_hashTable dc h + 4 \<le> 65536" for h using i[of h] b by auto
  then show "cs_wf (copy_dictCtx c dc)" using b by (simp add: cs_wf_def copy_dictCtx_def)
  show "room_left (copy_dictCtx c dc) n" using assms b by (simp add: copy_dictCtx_def)
  show "old_entry (stream_env (copy_dictCtx c dc) sg 0 ext cap usingExtDict False accel) (hashTable (copy_dictCtx c dc) h)"
    using i[of h] b by (auto simp: old_entry_def reachable_def copy_dictCtx_def compress_env_def)
qed


section \<open>A step of the stream\<close>

definition cs_clear :: "cctx \<Rightarrow> int \<Rightarrow> int \<Rightarrow> int \<Rightarrow> int \<Rightarrow> bool" where
  "cs_clear c source n dest cap \<longleftrightarrow> apart source n dest cap
     \<and> apart (fst (cs_dict c source n)) (snd (cs_dict c source n)) dest cap"

text \<open>After a step the dictionary ends with the source, and what precedes it comes from the history.\<close>

definition step_post :: "memory \<Rightarrow> cctx \<Rightarrow> int \<Rightarrow> int \<Rightarrow> int \<Rightarrow> int \<Rightarrow> int \<times> cctx \<times> memory \<Rightarrow> bool" where
  "step_post mem c source n dest cap = (\<lambda>(r, c', mem').
     (\<forall>p. p < dest \<or> dest + cap \<le> p \<longrightarrow> mem' p = mem p) \<and> 0 \<le> r \<and> r \<le> max 0 cap
     \<and> (0 < r \<longrightarrow> n \<le> LZ4_MAX_INPUT_SIZE
          \<and> block_of (cs_history mem c source n) (read_mem mem' dest r) (read_mem mem source n))
     \<and> (n \<le> LZ4_MAX_INPUT_SIZE \<longrightarrow> (LZ4_compressBound n \<le> cap \<longrightarrow> 0 < r) \<and> cs_wf c'
       \<and> dictionary c' + cdictSize c' = source + n \<and> n \<le> cdictSize c' \<and> cdictSize c' \<le> snd (cs_dict c source n) + n
       \<and> (cdictSize c' = n \<or> (dictionary c' = fst (cs_dict c source n) \<and> dictionary c' + snd (cs_dict c source n) = source))))"

lemma fast_continue_ok:
  assumes wf: "cs_wf c" and n: "0 \<le> n" "n \<le> INT_MAX" and s: "0 < source" and cl: "cs_clear c source n dest cap"
  shows "wp (LZ4_compress_fast_continue mem c source dest n cap accel) (step_post mem c source n dest cap)"
proof -
  obtain c1 de where tn: "cs_turn c source n = (c1, de)" by (cases "cs_turn c source n")
  let ?a = "clamp_acceleration accel" let ?small = "cdictSize c1 < KB 64 \<and> cdictSize c1 < currentOffset c1"
  have a: "1 \<le> ?a" by (simp add: clamp_acceleration_def)
  note t = cs_turn_ok[OF wf n s tn]
  have w1: "cs_wf c1" and rl: "room_left c1 n" using t(1) by (auto simp: turned_def)
  have nm: "n mod 2 ^ 32 = n" using n by simp
  have b: "0 \<le> cdictSize c1" "0 \<le> currentOffset c1" using w1 by (auto simp: cs_wf_def)
  obtain c2 where d: "drop_tiny (LZ4_renormDictT c n) (if cdictSize c \<noteq> 0 then dictionary c + cdictSize c else 0) source n = (c2, de)"
    and c1: "cut_overlap c2 de source n = c1"
    using tn by (auto simp: cs_turn_def split: prod.splits)
  have eq: "LZ4_compress_fast_continue mem c source dest n cap accel =
     (if de = source then call_compressor mem c1 source n dest cap withPrefix64k ?small ?a
      else do {
       (r, c, mem) \<leftarrow> (case dictCtx c1 of
           Some dc \<Rightarrow> if n > KB 4
             then call_compressor mem (copy_dictCtx c1 dc) source n dest cap usingExtDict False ?a
             else call_compressor mem c1 source n dest cap usingDictCtx False ?a
         | None \<Rightarrow> call_compressor mem c1 source n dest cap usingExtDict ?small ?a);
       Some (r, c\<lparr>dictionary := source, cdictSize := n mod 2 ^ 32\<rparr>, mem) })"
    unfolding LZ4_compress_fast_continue_def Let_def d prod.case c1 ..
  show ?thesis
  proof (cases "de = source")
    case True
    then have cd: "cs_dict c source n = (dictionary c1, cdictSize c1)" using tn by (simp add: cs_dict_def split: option.splits)
    have p: "wp (call_compressor mem c1 source n dest cap withPrefix64k ?small ?a) (call_post mem c1 source n dest cap withPrefix64k)"
      "dictionary c1 = source - cdictSize c1"
      using prefix_call_ok(1)[OF t(1)[unfolded True] s a _ _ refl, of dest cap mem]
        prefix_call_ok(2)[OF t(1)[unfolded True] s a _ _ refl, of dest cap] cl cd by (auto simp: cs_clear_def)
    have "call_dict mem c1 source withPrefix64k = cs_history mem c source n"
      using cd p(2) by (simp add: call_dict_def cs_history_def)
    then show ?thesis unfolding eq using True p cd b
      by (auto simp: call_post_def step_post_def elim!: wp_mono)
  next
    case False
    have ext: "wp X (\<lambda>x. wp (case x of (r, c', mem') \<Rightarrow> Some (r, c'\<lparr>dictionary := source, cdictSize := n mod 2 ^ 32\<rparr>, mem')) (step_post mem c source n dest cap))"
      if "wp X (call_post mem c2 source n dest cap d)" "call_dict mem c2 source d = cs_history mem c source n"
        "0 \<le> snd (cs_dict c source n)" "0 \<le> currentOffset c2" for X c2 d
      using that(1)
    proof (rule wp_mono)
      fix x assume x: "call_post mem c2 source n dest cap d x"
      obtain r c' mem' where xx: "x = (r, c', mem')" by (cases x)
      have "cs_wf (c'\<lparr>dictionary := source, cdictSize := n\<rparr>)" if "n \<le> LZ4_MAX_INPUT_SIZE"
        using x that n \<open>0 \<le> currentOffset c2\<close> by (auto simp: call_post_def xx cs_wf_def)
      then show "wp (case x of (r, c', mem') \<Rightarrow> Some (r, c'\<lparr>dictionary := source, cdictSize := n mod 2 ^ 32\<rparr>, mem')) (step_post mem c source n dest cap)"
        using x that(2,3) nm n by (simp add: wp_Some call_post_def step_post_def xx)
    qed
    show ?thesis
    proof (cases "dictCtx c1")
      case None
      then have cd: "cs_dict c source n = (dictionary c1, cdictSize c1)" using tn by (simp add: cs_dict_def)
      have "wp (call_compressor mem c1 source n dest cap usingExtDict ?small ?a) (call_post mem c1 source n dest cap usingExtDict)"
      proof (rule ext_call_ok[OF w1 rl a])
        fix sg ext :: bytes and h assume n0: "0 < n"
        have "4 \<le> cdictSize c1 \<or> cdictSize c1 = 0" by (rule t(3)[OF False n0]) (use None t(2) in simp)
        then show "old_entry (stream_env c1 sg 0 ext cap usingExtDict ?small ?a) (hashTable c1 h)"
          by (intro old_entry_ok[OF w1 refl]) auto
      qed (use cl cd in \<open>auto simp: cs_clear_def\<close>)
      moreover have "call_dict mem c1 source usingExtDict = cs_history mem c source n"
        using cd by (simp add: call_dict_def cs_history_def dict_of_mode_def)
      ultimately show ?thesis unfolding eq using False None ext[of _ c1 usingExtDict] cd b by (simp add: wp_bind)
    next
      case (Some dc)
      then have cd: "cs_dict c source n = (dc_dictionary dc, dc_dictSize dc)" using tn False by (simp add: cs_dict_def)
      have dk: "dict_ok dc" "0 \<le> dc_dictSize dc" using w1 Some by (auto simp: cs_wf_def dict_ok_def)
      show ?thesis
      proof (cases "n > KB 4")
        case True
        note k = copy_dictCtx_ok[OF dk(1) n]
        have "wp (call_compressor mem (copy_dictCtx c1 dc) source n dest cap usingExtDict False ?a)
            (call_post mem (copy_dictCtx c1 dc) source n dest cap usingExtDict)"
          by (rule ext_call_ok[OF k(1,2) a _ _ k(3)]) (use cl cd in \<open>auto simp: cs_clear_def copy_dictCtx_def\<close>)
        moreover have "call_dict mem (copy_dictCtx c1 dc) source usingExtDict = cs_history mem c source n"
          using cd by (simp add: call_dict_def cs_history_def dict_of_mode_def copy_dictCtx_def)
        ultimately show ?thesis unfolding eq using False Some True ext[of _ "copy_dictCtx c1 dc" usingExtDict] cd dk k(1)
          by (simp add: wp_bind copy_dictCtx_def dict_ok_def)
      next
        case small: False
        have "wp (call_compressor mem c1 source n dest cap usingDictCtx False ?a) (call_post mem c1 source n dest cap usingDictCtx)"
          by (rule dictCtx_call_ok[OF w1 rl a Some]) (use cl cd in \<open>auto simp: cs_clear_def\<close>)
        moreover have "call_dict mem c1 source usingDictCtx = cs_history mem c source n"
          using cd Some by (simp add: call_dict_def cs_history_def dict_of_mode_def)
        ultimately show ?thesis unfolding eq using False Some small ext[of _ c1 usingDictCtx] cd dk b by (simp add: wp_bind)
      qed
    qed
  qed
qed

text \<open>The history a call uses is the end of the dictionary the context holds.\<close>

lemma read_mem_suffix: "0 \<le> k \<Longrightarrow> k \<le> n \<Longrightarrow> suffix (read_mem mem (a + n - k) k) (read_mem mem a n)"
  using read_mem_split[of "n - k" k mem a] by (simp add: suffix_def add_diff_eq)

lemma cs_dict_inside:
  assumes wf: "cs_wf c" and n: "0 \<le> n" "n \<le> INT_MAX" and dc: "dictCtx c = None" and s: "0 < source"
  shows "snd (cs_dict c source n) = 0 \<or> (0 \<le> snd (cs_dict c source n) \<and> snd (cs_dict c source n) \<le> cdictSize c
    \<and> fst (cs_dict c source n) = dictionary c + cdictSize c - snd (cs_dict c source n))"
proof -
  obtain c1 de where tn: "cs_turn c source n = (c1, de)" by (cases "cs_turn c source n")
  have b: "0 \<le> cdictSize c" using wf by (simp add: cs_wf_def)
  let ?r = "LZ4_renormDictT c n"
  note r = renorm_ok[OF wf n]
  obtain c2 where d: "drop_tiny ?r (if cdictSize c \<noteq> 0 then dictionary c + cdictSize c else 0) source n = (c2, de)"
    and c1: "c1 = cut_overlap c2 de source n"
    using tn by (auto simp: cs_turn_def split: prod.splits)
  have c2: "dictCtx c2 = None" "0 \<le> cdictSize c2" "cdictSize c2 = 0 \<and> (de = source \<or> de = 0) \<or> (cdictSize c2 \<le> cdictSize c
      \<and> dictionary c2 + cdictSize c2 = dictionary c + cdictSize c \<and> de = dictionary c + cdictSize c)"
    using d r dc b by (auto simp: drop_tiny_def cs_wf_def split: if_splits)
  have "dictCtx c1 = None" using c1 c2(1) by (simp add: cut_overlap_def Let_def)
  then have cd: "cs_dict c source n = (dictionary c1, cdictSize c1)"
    using tn by (simp add: cs_dict_def)
  have "0 \<le> cdictSize c1 \<and> cdictSize c1 \<le> cdictSize c \<and> dictionary c1 = dictionary c + cdictSize c - cdictSize c1"
    if "cdictSize c1 \<noteq> 0"
  proof (cases "source + n > dictionary c2 \<and> source + n < de")
    case True
    then show ?thesis using c1 c2 that s n by (auto simp: cut_overlap_def Let_def min_def split: if_splits)
  next
    case nc: False
    then have "c1 = c2" using c1 by (auto simp: cut_overlap_def)
    then show ?thesis using c2 that by auto
  qed
  then show ?thesis unfolding cd by auto
qed

lemma cs_history_suffix:
  assumes "cs_wf c" "0 \<le> n" "n \<le> INT_MAX" "dictCtx c = None" "0 < source"
  shows "suffix (cs_history mem c source n) (read_mem mem (dictionary c) (cdictSize c))"
  using cs_dict_inside[OF assms] read_mem_suffix[of "snd (cs_dict c source n)" "cdictSize c" mem "dictionary c"]
  by (auto simp: cs_history_def read_mem_def)

lemma apart_inside: "apart a n b k \<Longrightarrow> a \<le> a' \<Longrightarrow> a' + n' \<le> a + n \<Longrightarrow> apart a' n' b k"
  by (auto simp: apart_def)

lemma cs_clear_inside:
  assumes "cs_wf c" "0 \<le> n" "n \<le> INT_MAX" "dictCtx c = None" "0 < source"
    and "apart source n dest cap" "apart (dictionary c) (cdictSize c) dest cap"
  shows "cs_clear c source n dest cap"
  using cs_dict_inside[OF assms(1-5)]
proof
  assume "snd (cs_dict c source n) = 0"
  then show ?thesis using assms(6) by (simp add: cs_clear_def apart_def)
next
  assume d: "0 \<le> snd (cs_dict c source n) \<and> snd (cs_dict c source n) \<le> cdictSize c
    \<and> fst (cs_dict c source n) = dictionary c + cdictSize c - snd (cs_dict c source n)"
  then have "apart (fst (cs_dict c source n)) (snd (cs_dict c source n)) dest cap"
    by (intro apart_inside[OF assms(7)]) auto
  then show ?thesis using assms(6) by (simp add: cs_clear_def)
qed

text \<open>\<open>LZ4_saveDict\<close> moves the end of the dictionary.\<close>

lemma saveDict_ok:
  assumes wf: "cs_wf c" and k: "0 \<le> k" "k < 2 ^ 31" and r: "LZ4_saveDict mem c buf k = (n, c', mem')"
  shows "n = min (min k 65536) (cdictSize c) \<and> cs_wf c' \<and> dictionary c' = buf \<and> cdictSize c' = n
    \<and> read_mem mem' buf n = read_mem mem (dictionary c + cdictSize c - n) n"
proof -
  have b: "0 \<le> cdictSize c" using wf by (simp add: cs_wf_def)
  have m: "k mod 2 ^ 32 = k" "min k 65536 mod 2 ^ 32 = min k 65536" using k by (auto simp: min_def)
  have n: "n = min (min k 65536) (cdictSize c)"
    using r k m b by (auto simp: LZ4_saveDict_def Let_def min_def split: if_splits)
  have "read_mem (write_mem mem buf (read_mem mem a n)) buf n = read_mem mem a n" for a
    using read_write_part[of 0 n "read_mem mem a n" mem buf] n k b seg_full[of "read_mem mem a n"] by simp
  moreover have "mem' = (if n > 0 then write_mem mem buf (read_mem mem (dictionary c + cdictSize c - n) n) else mem)"
    "c' = c\<lparr>dictionary := buf, cdictSize := n\<rparr>"
    using r by (auto simp: LZ4_saveDict_def Let_def)
  ultimately show ?thesis using n wf k by (auto simp: cs_wf_def read_mem_def min_def)
qed

section \<open>Both ends of a stream\<close>

lemma stream_step_roundtrip:
  assumes wf: "cs_wf c" and n: "0 < n" "n \<le> INT_MAX" and s: "0 < source" and cl: "cs_clear c source n dest cap"
    and r: "LZ4_compress_fast_continue mem c source dest n cap accel = Some (r, c', mem')" "0 < r"
    and d: "sd_wf sd" "apart src2 r dst2 cap2" "sd_clear sd dst2 cap2" "0 < src2" "src2 + r < 2 ^ 64"
      "prefixSize (sd_turn sd dst2) \<le> dst2" "dst2 + cap2 < 2 ^ 64" "n \<le> cap2"
    and m: "read_mem mem2 src2 r = read_mem mem' dest r"
    and h: "suffix (cs_history mem c source n) (sd_history mem2 (sd_turn sd dst2))"
  shows "\<exists>sd' mem2'. LZ4_decompress_safe_continue fast mem2 sd src2 dst2 r cap2 = Some (n, sd', mem2')
    \<and> read_mem mem2' dst2 n = read_mem mem source n"
proof -
  have "block_of (cs_history mem c source n) (read_mem mem' dest r) (read_mem mem source n)"
    using fast_continue_ok[OF wf _ n(2) s cl, of mem accel] n r by (simp add: wp_Some step_post_def)
  then have "block_of (sd_history mem2 (sd_turn sd dst2)) (read_mem mem2 src2 r) (read_mem mem source n)"
    using h block_of_longer m unfolding suffix_def by metis
  from continue_complete[OF d(1) _ d(2-7) this] show ?thesis using n r d(8) by simp
qed

section \<open>Properties\<close>


definition demo_source :: memory where
  "demo_source = write_mem (\<lambda>p. 0) 4096 demo_data"

lemma demo_source_data: "read_mem demo_source 4096 20 = demo_data"
  using read_write_part[of 0 20 demo_data "\<lambda>p. 0" 4096] seg_full[of demo_data]
  by (simp add: demo_source_def length_demo_data)

lemma demo_turn: "cs_turn LZ4_initStream 4096 20 = (LZ4_initStream\<lparr>cdictSize := 0, dictionary := 4096\<rparr>, 4096)"
  by (simp add: cs_turn_def LZ4_renormDictT_def drop_tiny_def cut_overlap_def LZ4_initStream_def)

lemma demo_dict: "cs_dict LZ4_initStream 4096 20 = (4096, 0)"
  unfolding cs_dict_def demo_turn by (simp add: LZ4_initStream_def)

lemma demo_clear: "cs_clear LZ4_initStream 4096 20 65536 40"
  unfolding cs_clear_def demo_dict by (simp add: apart_def)




text \<open>C18. \<open>LZ4_loadDict\<close> ends and stays inside the dictionary for any size; it keeps the last 64 KB of
  it (nothing of one shorter than 8 bytes), and the context satisfies the invariant both as a
  stream and as a dictionary to attach.\<close>

theorem LZ4_loadDict_correct:
  "\<exists>r c. LZ4_loadDict mem a n = Some (r, c) \<and> cs_wf c \<and> dict_ok (as_dict c)
    \<and> r = (if n < 8 then 0 else min n 65536) \<and> cdictSize c = r
    \<and> (n < 8 \<or> read_mem mem (dictionary c) (cdictSize c) = read_mem mem (a + n - r) r)"
  using loadDict_ok[of mem a n] by (auto simp: wp_iff)

text \<open>C19. \<open>LZ4_saveDict\<close> keeps the invariant and moves the last \<open>n\<close> bytes of the dictionary to the
  safe buffer, \<open>n\<close> being what was asked for, 64 KB or the dictionary's size, whichever is least;
  source and target may overlap.\<close>

theorem LZ4_saveDict_correct:
  assumes "cs_wf c" "0 \<le> k" "k < 2 ^ 31" "LZ4_saveDict mem c buf k = (n, c', mem')"
  shows "n = min (min k 65536) (cdictSize c) \<and> cs_wf c' \<and> dictionary c' = buf \<and> cdictSize c' = n
    \<and> read_mem mem' buf n = read_mem mem (dictionary c + cdictSize c - n) n"
  by (rule saveDict_ok[OF assms])

lemma LZ4_saveDict_correct_witness:
  "\<exists>n c' mem'. LZ4_saveDict demo_source LZ4_initStream 65536 100 = (n, c', mem') \<and> n = 0 \<and> cs_wf c'"
proof -
  obtain n c' mem' where r: "LZ4_saveDict demo_source LZ4_initStream 65536 100 = (n, c', mem')" by (metis prod_cases3)
  from LZ4_saveDict_correct[OF initStream_wf _ _ r] have "n = 0 \<and> cs_wf c'"
    by (simp add: LZ4_initStream_def)
  with r show ?thesis by blast
qed

end
