(* ===== verification/Block_Binding.thy ===== *)
theory Block_Binding
  imports LZ4_Compress_Stream
begin

text \<open>
  \<open>lz4.block\<close>: the functions \<open>compress\<close> and \<open>decompress\<close> of \<open>_block.c\<close>. Python objects are
  buffers in the address space of \<open>lz4.c\<close>; the interpreter's allocator is a parameter, a function
  from the size requested to an address (0 is \<open>NULL\<close>), and so is the high-compression compressor of
  \<open>lz4hc.c\<close>: the theorems are about the modes \<open>default\<close> and \<open>fast\<close>. An exception
  is the left value of a sum; \<open>None\<close> is undefined behaviour of the C code.

  The locale \<open>block_codec\<close> is the contract between the binding and a block codec: what a
  compressor writes the decompressor reads back. The binding is proved correct against it, and
  it is interpreted by the functions of \<open>lz4.c\<close>.
\<close>

section \<open>Buffers, results, exceptions\<close>

record Py_buffer =
  buf :: int
  blen :: int

datatype py_object = PyBytes (payload: bytes) | PyByteArray (payload: bytes)

datatype py_error =
    OverflowError string
  | ValueError string
  | MemoryError
  | CompressionFailed
  | DecompressionFailed int
  | WrongSize int int

text \<open>The allocator: the address \<open>PyMem_Malloc\<close> returns for a size, and whether the result object
  can be made.\<close>

record allocator =
  malloc_at :: "int \<Rightarrow> int"
  object_ok :: bool

definition make_object :: "allocator \<Rightarrow> bool \<Rightarrow> bytes \<Rightarrow> py_error + py_object" where
  "make_object al return_bytearray bs =
     (if \<not> object_ok al then Inl MemoryError
      else Inr (if return_bytearray then PyByteArray bs else PyBytes bs))"

section \<open>The header\<close>

abbreviation hdr_size :: int where "hdr_size \<equiv> 4"

definition load_le32_at :: "memory \<Rightarrow> int \<Rightarrow> u32" where
  "load_le32_at mem a = load_le32 (mem a) (mem (a + 1)) (mem (a + 2)) (mem (a + 3))"

section \<open>compress\<close>

datatype compression_type = DEFAULT | FAST | HIGH_COMPRESSION

definition parse_mode :: "string \<Rightarrow> compression_type option" where
  "parse_mode mode = (if mode = ''default'' then Some DEFAULT else if mode = ''fast'' then Some FAST
     else if mode = ''high_compression'' then Some HIGH_COMPRESSION else None)"

text \<open>A compressor call: memory, source, dest, the two sizes, dictionary and its size. The same
  shape serves the decompressor.\<close>

type_synonym codec_call = "memory \<Rightarrow> int \<Rightarrow> int \<Rightarrow> int \<Rightarrow> int \<Rightarrow> int \<Rightarrow> int \<Rightarrow> (int \<times> memory) option"

definition lz4_compress_generic ::
  "(int \<Rightarrow> codec_call) \<Rightarrow> compression_type \<Rightarrow> int \<Rightarrow> int \<Rightarrow> codec_call" where
  "lz4_compress_generic hc ctype accel compression mem source dest src_size dest_size di dict_size =
    (if ctype \<noteq> HIGH_COMPRESSION then do {
       lz4_state \<leftarrow> (if di \<noteq> 0 then map_option snd (LZ4_loadDict mem di dict_size)
                    else Some (LZ4_resetStream LZ4_initStream));
       let accel = (if ctype \<noteq> FAST then 1 else accel);
       (r, lz4_state, mem) \<leftarrow> LZ4_compress_fast_continue mem lz4_state source dest src_size dest_size accel;
       Some (r, mem) }
     else hc compression mem source dest src_size dest_size di dict_size)"

text \<open>From the allocation of the output buffer on. A compressor may fill all the room it is told
  of, so room that is not inside the allocated block is undefined behaviour.\<close>

definition in_block :: "int \<Rightarrow> int \<Rightarrow> int \<Rightarrow> int \<Rightarrow> bool" where
  "in_block x n p len \<longleftrightarrow> p \<le> x \<and> x + n \<le> p + len"

definition compress_with ::
  "codec_call \<Rightarrow> allocator \<Rightarrow> memory \<Rightarrow> Py_buffer \<Rightarrow> bool \<Rightarrow> bool \<Rightarrow> Py_buffer \<Rightarrow> ((py_error + py_object) \<times> memory) option" where
  "compress_with encode al mem source store_size return_bytearray di =
    (let src_size = blen source;
         dest_size = LZ4_compressBound src_size;
         total_size = (if store_size then dest_size + hdr_size else dest_size);
         dest = malloc_at al total_size in
     if dest = 0 then Some (Inl MemoryError, mem)
     else let (mem, dest_start) =
            (if store_size then (write_mem mem dest (store_le32 (of_int src_size)), dest + hdr_size) else (mem, dest)) in
     if \<not> in_block dest_start dest_size dest total_size then None
     else do {
       (output_size, mem) \<leftarrow> encode mem (buf source) dest_start src_size dest_size (buf di) (blen di);
       if output_size \<le> 0 then Some (Inl CompressionFailed, mem)
       else let output_size = (if store_size then output_size + hdr_size else output_size) in
         Some (make_object al return_bytearray (read_mem mem dest output_size), mem) })"

definition compress ::
  "(int \<Rightarrow> codec_call) \<Rightarrow> allocator \<Rightarrow> memory \<Rightarrow> Py_buffer \<Rightarrow> string \<Rightarrow> bool \<Rightarrow> int \<Rightarrow> int \<Rightarrow> bool \<Rightarrow> Py_buffer
     \<Rightarrow> ((py_error + py_object) \<times> memory) option" where
  "compress hc al mem source mode store_size accel compression return_bytearray di =
    (if blen source > INT_MAX then Some (Inl (OverflowError ''Input too large for LZ4 API''), mem)
     else if blen di > INT_MAX then Some (Inl (OverflowError ''Dictionary too large for LZ4 API''), mem)
     else case parse_mode mode of
         None \<Rightarrow> Some (Inl (ValueError (''Invalid mode argument: '' @ mode @ ''. Must be one of: standard, fast, high_compression'')), mem)
       | Some ctype \<Rightarrow>
           compress_with (lz4_compress_generic hc ctype accel compression) al mem source store_size return_bytearray di)"

section \<open>decompress\<close>

definition decompress_with ::
  "codec_call \<Rightarrow> allocator \<Rightarrow> memory \<Rightarrow> Py_buffer \<Rightarrow> int \<Rightarrow> bool \<Rightarrow> Py_buffer \<Rightarrow> ((py_error + py_object) \<times> memory) option" where
  "decompress_with decode al mem source uncompressed_size return_bytearray di =
    (if blen source > INT_MAX then Some (Inl (OverflowError ''Input too large for LZ4 API''), mem)
     else if blen di > INT_MAX then Some (Inl (OverflowError ''Dictionary too large for LZ4 API''), mem)
     else if uncompressed_size < 0 \<and> blen source < hdr_size
       then Some (Inl (ValueError ''Input source data size too small''), mem)
     else let (dest_size, source_start, src_size) =
            (if uncompressed_size \<ge> 0 then (uncompressed_size, buf source, blen source)
             else (uint (load_le32_at mem (buf source)), buf source + hdr_size, blen source - hdr_size)) in
     if dest_size > INT_MAX then Some (Inl (ValueError ''Invalid size''), mem)
     else let dest = malloc_at al dest_size in
     if dest = 0 then Some (Inl MemoryError, mem)
     else do {
       (output_size, mem) \<leftarrow> decode mem source_start dest src_size dest_size (buf di) (blen di);
       if output_size < 0 then Some (Inl (DecompressionFailed (- output_size)), mem)
       else if output_size \<noteq> dest_size \<and> uncompressed_size < 0 then Some (Inl (WrongSize output_size dest_size), mem)
       else Some (make_object al return_bytearray (read_mem mem dest output_size), mem) })"

definition decompress ::
  "bool \<Rightarrow> allocator \<Rightarrow> memory \<Rightarrow> Py_buffer \<Rightarrow> int \<Rightarrow> bool \<Rightarrow> Py_buffer \<Rightarrow> ((py_error + py_object) \<times> memory) option" where
  "decompress fast = decompress_with (LZ4_decompress_safe_usingDict fast)"

section \<open>The contract of a block codec\<close>

definition buffers_ok :: "int \<Rightarrow> int \<Rightarrow> int \<Rightarrow> int \<Rightarrow> int \<Rightarrow> int \<Rightarrow> bool" where
  "buffers_ok s n d c di dn \<longleftrightarrow> 0 < s \<and> 0 \<le> n \<and> n \<le> INT_MAX \<and> s + n < 2 ^ 64 \<and> 0 < d \<and> 0 \<le> c \<and> d + c < 2 ^ 64
     \<and> 0 \<le> di \<and> 0 \<le> dn \<and> (di = 0 \<longrightarrow> dn = 0) \<and> apart s n d c \<and> apart di dn d c"

abbreviation unchanged_outside :: "memory \<Rightarrow> memory \<Rightarrow> int \<Rightarrow> int \<Rightarrow> bool" where
  "unchanged_outside mem mem' d c \<equiv> \<forall>p. p < d \<or> d + c \<le> p \<longrightarrow> mem' p = mem p"

locale block_codec =
  fixes encode decode :: codec_call and stands reads_as :: "bytes \<Rightarrow> bytes \<Rightarrow> bytes \<Rightarrow> bool"
  assumes encode_ok: "buffers_ok s n d c di dn \<Longrightarrow> wp (encode mem s d n c di dn) (\<lambda>(r, mem').
      unchanged_outside mem mem' d c \<and> r \<le> c
      \<and> (0 < r \<longrightarrow> n \<le> LZ4_MAX_INPUT_SIZE \<and> stands (read_mem mem di dn) (read_mem mem' d r) (read_mem mem s n))
      \<and> (n \<le> LZ4_MAX_INPUT_SIZE \<and> LZ4_compressBound n \<le> c \<longrightarrow> 0 < r))"
    and decode_ok: "buffers_ok s n d c di dn \<Longrightarrow> wp (decode mem s d n c di dn) (\<lambda>(r, mem').
      unchanged_outside mem mem' d c \<and> r \<le> c
      \<and> (0 \<le> r \<longrightarrow> reads_as (read_mem mem di dn) (read_mem mem s n) (read_mem mem' d r)))"
    and decode_stands: "buffers_ok s n d c di dn \<Longrightarrow> stands (read_mem mem di dn) (read_mem mem s n) out \<Longrightarrow> int (length out) \<le> c
      \<Longrightarrow> \<exists>mem'. decode mem s d n c di dn = Some (int (length out), mem') \<and> read_mem mem' d (int (length out)) = out"

text \<open>What the interpreter guarantees: buffers lie in the address space, and a block it allocates
  is new, so the bytes requested do not overlap the source or the dictionary.\<close>

definition fresh_block :: "int \<Rightarrow> int \<Rightarrow> Py_buffer \<Rightarrow> Py_buffer \<Rightarrow> bool" where
  "fresh_block a n source di \<longleftrightarrow> a = 0 \<or> (0 < a \<and> a + n < 2 ^ 64
     \<and> apart (buf source) (blen source) a n \<and> apart (buf di) (blen di) a n)"

definition binding_ok :: "allocator \<Rightarrow> Py_buffer \<Rightarrow> Py_buffer \<Rightarrow> bool" where
  "binding_ok al source di \<longleftrightarrow> 0 < buf source \<and> 0 \<le> blen source \<and> buf source + blen source < 2 ^ 64
     \<and> 0 \<le> buf di \<and> 0 \<le> blen di \<and> (buf di = 0 \<longrightarrow> blen di = 0)
     \<and> (\<forall>n. 0 \<le> n \<and> n < 2 ^ 32 \<longrightarrow> fresh_block (malloc_at al n) n source di)"

abbreviation content :: "memory \<Rightarrow> Py_buffer \<Rightarrow> bytes" where "content mem b \<equiv> read_mem mem (buf b) (blen b)"

lemma compressBound_cases:
  "0 \<le> n \<Longrightarrow> n \<le> INT_MAX \<Longrightarrow> LZ4_compressBound n = (if n \<le> LZ4_MAX_INPUT_SIZE then n + n div 255 + 16 else 0)"
  by (simp add: LZ4_compressBound_def)


section \<open>The binding on top of a codec\<close>

text \<open>The bytes of the header in front of the block.\<close>

definition header :: "bool \<Rightarrow> int \<Rightarrow> bytes" where
  "header store_size n = (if store_size then store_le32 (of_int n) else [])"

text \<open>The bytes asked of the allocator for a compressed block.\<close>

definition request :: "bool \<Rightarrow> int \<Rightarrow> int" where
  "request store_size n = (if store_size then LZ4_compressBound n + hdr_size else LZ4_compressBound n)"

lemma fresh:
  assumes "binding_ok al source di" "0 \<le> n" "n \<le> INT_MAX" "malloc_at al n \<noteq> 0"
  shows "0 < malloc_at al n" "malloc_at al n + n < 2 ^ 64"
    "apart (buf source) (blen source) (malloc_at al n) n" "apart (buf di) (blen di) (malloc_at al n) n"
  using assms by (auto simp: binding_ok_def fresh_block_def)

lemma uint_header: "0 \<le> n \<Longrightarrow> n < 2 ^ 32 \<Longrightarrow> uint (of_int n :: u32) = n"
  by (simp add: uint_word_of_int take_bit_eq_mod)

context block_codec begin

lemma compress_with_ok:
  assumes b: "binding_ok al source di" and n: "blen source \<le> INT_MAX"
  shows "wp (compress_with encode al mem source store_size rb di) (\<lambda>(res, mem').
     unchanged_outside mem mem' (malloc_at al (request store_size (blen source))) (request store_size (blen source))
     \<and> ((malloc_at al (request store_size (blen source)) = 0 \<and> res = Inl MemoryError)
     \<or> (malloc_at al (request store_size (blen source)) \<noteq> 0 \<and> LZ4_MAX_INPUT_SIZE < blen source \<and> res = Inl CompressionFailed)
     \<or> (malloc_at al (request store_size (blen source)) \<noteq> 0 \<and> blen source \<le> LZ4_MAX_INPUT_SIZE
        \<and> (\<exists>blk. stands (content mem di) blk (content mem source) \<and> int (length blk) \<le> LZ4_compressBound (blen source)
             \<and> res = make_object al rb (header store_size (blen source) @ blk)))))"
proof (cases "malloc_at al (request store_size (blen source)) = 0")
  case True
  then show ?thesis by (simp add: compress_with_def wp_Some request_def)
next
  case False
  let ?n = "blen source" let ?cap = "LZ4_compressBound (blen source)" let ?h = "header store_size (blen source)"
  let ?off = "if store_size then hdr_size else 0" let ?tot = "request store_size (blen source)"
  let ?dest = "malloc_at al ?tot"
  let ?mem = "write_mem mem ?dest ?h" let ?d = "?dest + ?off"
  have lh: "int (length ?h) = ?off" by (simp add: header_def)
  have tot: "?tot = ?cap + ?off" by (simp add: request_def)
  have n0: "0 \<le> ?n" using b by (simp add: binding_ok_def)
  have cap: "0 \<le> ?cap" "0 \<le> ?tot" "?tot < 2 ^ 32"
    using n0 n compressBound_cases[of ?n] unfolding tot by (auto split: if_splits)
  have fresh: "0 < ?dest" "?dest + ?tot < 2 ^ 64" "apart (buf source) ?n ?dest ?tot" "apart (buf di) (blen di) ?dest ?tot"
    using b cap(2,3) False by (auto simp: binding_ok_def fresh_block_def)
  have ok: "buffers_ok (buf source) ?n ?d ?cap (buf di) (blen di)"
    using b n fresh cap(1) unfolding tot by (auto simp: binding_ok_def buffers_ok_def apart_def)
  have "write_mem mem x [] = mem" for x by (rule ext) (auto simp: write_mem_def)
  then have init: "(if store_size then (write_mem mem ?dest (store_le32 (of_int ?n)), ?dest + hdr_size)
      else (mem, ?dest)) = (?mem, ?d)" by (simp add: header_def)
  have same: "read_mem ?mem (buf source) ?n = content mem source" "read_mem ?mem (buf di) (blen di) = content mem di"
    using fresh(3,4) lh cap(1) unfolding tot by (auto intro!: read_write_apart simp: apart_def)
  have "wp (encode ?mem (buf source) ?d ?n ?cap (buf di) (blen di)) (\<lambda>(r, mem').
      unchanged_outside ?mem mem' ?d ?cap \<and> r \<le> ?cap
      \<and> (0 < r \<longrightarrow> ?n \<le> LZ4_MAX_INPUT_SIZE \<and> stands (content mem di) (read_mem mem' ?d r) (content mem source))
      \<and> (?n \<le> LZ4_MAX_INPUT_SIZE \<and> ?cap \<le> ?cap \<longrightarrow> 0 < r))"
    using encode_ok[OF ok, of ?mem] same by simp
  then obtain r mem' where r: "encode ?mem (buf source) ?d ?n ?cap (buf di) (blen di) = Some (r, mem')"
    and fr: "unchanged_outside ?mem mem' ?d ?cap" and rc: "r \<le> ?cap"
    and st: "0 < r \<longrightarrow> stands (content mem di) (read_mem mem' ?d r) (content mem source)"
    and pos: "0 < r \<longrightarrow> ?n \<le> LZ4_MAX_INPUT_SIZE" "?n \<le> LZ4_MAX_INPUT_SIZE \<longrightarrow> 0 < r"
    by (auto simp: wp_iff)
  have frame: "unchanged_outside mem mem' ?dest ?tot"
    using fr lh cap(1) unfolding tot by (auto simp: write_mem_def)
  have hd: "read_mem mem' ?dest (int (length ?h)) = ?h"
  proof -
    have "read_mem mem' ?dest (int (length ?h)) = read_mem ?mem ?dest (int (length ?h))"
      using fr lh by (auto simp: read_mem_def)
    also have "\<dots> = ?h" using read_write_part[of 0 "int (length ?h)" ?h mem "?dest"] by (simp add: seg_full)
    finally show ?thesis .
  qed
  have out: "read_mem mem' ?dest (if store_size then r + hdr_size else r) = ?h @ read_mem mem' ?d r" if "0 < r"
    using read_mem_split[of ?off r mem' "?dest"] hd lh that by (auto simp: add.commute)
  have eq: "compress_with encode al mem source store_size rb di = (if r \<le> 0 then Some (Inl CompressionFailed, mem')
      else Some (make_object al rb (read_mem mem' ?dest (if store_size then r + hdr_size else r)), mem'))"
  proof -
    have rq: "(if store_size then ?cap + hdr_size else ?cap) = ?tot" by (simp add: request_def)
    have "in_block ?d ?cap ?dest ?tot" using cap(1) unfolding tot by (simp add: in_block_def)
    then show ?thesis
      unfolding compress_with_def Let_def rq init prod.case using False by (simp only: r bind.bind_lunit prod.case not_True_eq_False if_False)
  qed
  show ?thesis
  proof (cases "0 < r")
    case True
    have "int (length (read_mem mem' ?d r)) \<le> ?cap" using rc True by simp
    then show ?thesis unfolding eq using out[OF True] st pos False True frame by (auto simp: wp_Some)
  next
    case no: False
    then show ?thesis unfolding eq using pos False frame by (auto simp: wp_Some)
  qed
qed

lemma decompress_with_header:
  assumes b: "binding_ok al source di" and n: "0 \<le> n" "n \<le> INT_MAX" "blen source \<le> INT_MAX" "blen di \<le> INT_MAX"
    and c: "content mem source = header True n @ blk" and st: "stands (content mem di) blk out" and l: "int (length out) = n"
    and al: "malloc_at al n \<noteq> 0" and k: "k < 0"
  shows "\<exists>mem'. decompress_with decode al mem source k rb di = Some (make_object al rb out, mem')"
proof -
  have n32: "n < 2 ^ 32" using n by simp
  have len: "blen source = 4 + int (length blk)"
    using arg_cong[OF c, of length] b by (auto simp: header_def binding_ok_def)
  have r4: "read_mem mem (buf source) 4 = store_le32 (of_int n)" and rb: "read_mem mem (buf source + 4) (blen source - 4) = blk"
  proof -
    have "content mem source = read_mem mem (buf source) 4 @ read_mem mem (buf source + 4) (blen source - 4)"
      using read_mem_split[of 4 "blen source - 4" mem "buf source"] len by simp
    then show "read_mem mem (buf source) 4 = store_le32 (of_int n)" "read_mem mem (buf source + 4) (blen source - 4) = blk"
      using c by (simp_all add: header_def append_eq_append_conv)
  qed
  have "mem (buf source + int k) = store_le32 (of_int n) ! k" if "k < 4" for k
    using nth_read_mem[of k 4 mem "buf source"] r4 that by simp
  from this[of 0] this[of 1] this[of 2] this[of 3]
  have "load_le32_at mem (buf source) = of_int n"
    using load_store_le32[of "of_int n"] by (simp add: load_le32_at_def store_le32_def)
  then have hd: "uint (load_le32_at mem (buf source)) = n" using uint_header[OF n(1) n32] by simp
  have ok: "buffers_ok (buf source + 4) (blen source - 4) (malloc_at al n) n (buf di) (blen di)"
    using b fresh[OF b n(1,2) al] n len al by (auto simp: binding_ok_def buffers_ok_def apart_def)
  obtain mem' where "decode mem (buf source + 4) (malloc_at al n) (blen source - 4) n (buf di) (blen di) = Some (n, mem')"
    "read_mem mem' (malloc_at al n) n = out"
    using decode_stands[OF ok, of mem out] st rb l by auto
  then show ?thesis using n len al hd k by (simp add: decompress_with_def Let_def)
qed

lemma decompress_with_size:
  assumes b: "binding_ok al source di" and n: "k \<le> INT_MAX" "blen source \<le> INT_MAX" "blen di \<le> INT_MAX"
    and st: "stands (content mem di) (content mem source) out" and l: "int (length out) \<le> k"
    and al: "malloc_at al k \<noteq> 0"
  shows "\<exists>mem'. decompress_with decode al mem source k rb di = Some (make_object al rb out, mem')"
proof -
  have k: "0 \<le> k" using l by simp
  have ok: "buffers_ok (buf source) (blen source) (malloc_at al k) k (buf di) (blen di)"
    using b fresh[OF b k n(1) al] n al k by (auto simp: binding_ok_def buffers_ok_def)
  obtain mem' where "decode mem (buf source) (malloc_at al k) (blen source) k (buf di) (blen di) = Some (int (length out), mem')"
    "read_mem mem' (malloc_at al k) (int (length out)) = out"
    using decode_stands[OF ok st l] by auto
  then show ?thesis using n al k by (simp add: decompress_with_def Let_def)
qed

lemma decompress_with_ok:
  assumes b: "binding_ok al source di"
  shows "wp (decompress_with decode al mem source k rb di) (\<lambda>(res, mem').
     unchanged_outside mem mem' (malloc_at al (if k < 0 then uint (load_le32_at mem (buf source)) else k))
       (if k < 0 then uint (load_le32_at mem (buf source)) else k)
     \<and> (\<forall>obj. res = Inr obj \<longrightarrow>
     (if k < 0 then reads_as (content mem di) (drop 4 (content mem source)) (payload obj)
          \<and> int (length (payload obj)) = uint (load_le32_at mem (buf source))
      else reads_as (content mem di) (content mem source) (payload obj) \<and> int (length (payload obj)) \<le> k)))"
proof -
  let ?u = "uint (load_le32_at mem (buf source))"
  let ?dest_size = "if 0 \<le> k then k else ?u" let ?s = "if 0 \<le> k then buf source else buf source + 4"
  let ?n = "if 0 \<le> k then blen source else blen source - 4"
  let ?early = "blen source > INT_MAX \<or> blen di > INT_MAX \<or> (k < 0 \<and> blen source < 4) \<or> ?dest_size > INT_MAX \<or> malloc_at al ?dest_size = 0"
  show ?thesis
  proof (cases ?early)
    case True
    then show ?thesis by (auto simp: decompress_with_def Let_def wp_Some not_less)
  next
    case False
    have ds: "0 \<le> ?dest_size" "?dest_size \<le> INT_MAX" using False by auto
    have ok: "buffers_ok ?s ?n (malloc_at al ?dest_size) ?dest_size (buf di) (blen di)"
      using b fresh[OF b ds] False by (auto simp: binding_ok_def buffers_ok_def apart_def)
    have src: "read_mem mem ?s ?n = (if k < 0 then drop 4 (content mem source) else content mem source)"
      using read_mem_split[of 4 "blen source - 4" mem "buf source"] False by auto
    obtain r mem' where r: "decode mem ?s (malloc_at al ?dest_size) ?n ?dest_size (buf di) (blen di) = Some (r, mem')" "r \<le> ?dest_size"
      "unchanged_outside mem mem' (malloc_at al ?dest_size) ?dest_size"
      "0 \<le> r \<longrightarrow> reads_as (content mem di) (read_mem mem ?s ?n) (read_mem mem' (malloc_at al ?dest_size) r)"
      using decode_ok[OF ok, of mem] by (auto simp: wp_iff)
    have "decompress_with decode al mem source k rb di =
      (if r < 0 then Some (Inl (DecompressionFailed (- r)), mem')
       else if r \<noteq> ?dest_size \<and> k < 0 then Some (Inl (WrongSize r ?dest_size), mem')
       else Some (make_object al rb (read_mem mem' (malloc_at al ?dest_size) r), mem'))"
      using False r(1) by (auto simp: decompress_with_def Let_def)
    then show ?thesis using r(2-) src by (auto simp: wp_Some make_object_def split: if_splits)
  qed
qed

end


section \<open>The codec of lz4.c\<close>

text \<open>A fresh context with or without a dictionary, then one call.\<close>

lemma fresh_stream_ok:
  assumes "0 \<le> dn" "di = 0 \<longrightarrow> dn = 0"
  shows "wp (if di \<noteq> 0 then map_option snd (LZ4_loadDict mem di dn) else Some (LZ4_resetStream LZ4_initStream))
    (\<lambda>c. cs_wf c \<and> dictCtx c = None \<and> (cdictSize c = 0 \<or> (0 \<le> cdictSize c \<and> cdictSize c \<le> dn \<and> dictionary c = di + dn - cdictSize c)))"
proof (cases "di = 0")
  case True
  then show ?thesis using initStream_wf by (simp add: wp_Some LZ4_resetStream_def) (simp add: LZ4_initStream_def)
next
  case False
  have "wp (LZ4_loadDict mem di dn) (\<lambda>x. cs_wf (snd x) \<and> dictCtx (snd x) = None
      \<and> (cdictSize (snd x) = 0 \<or> (0 \<le> cdictSize (snd x) \<and> cdictSize (snd x) \<le> dn \<and> dictionary (snd x) = di + dn - cdictSize (snd x))))"
    by (rule wp_mono[OF loadDict_ok[of mem di dn]]) (auto simp: min_def split: if_splits)
  then show ?thesis using False by (simp add: wp_map_option)
qed

lemma lz4_generic_ok:
  assumes b: "buffers_ok s n d c di dn" and ct: "ctype \<noteq> HIGH_COMPRESSION"
  shows "wp (lz4_compress_generic hc ctype accel compression mem s d n c di dn) (\<lambda>(r, mem').
      unchanged_outside mem mem' d c \<and> r \<le> c
      \<and> (0 < r \<longrightarrow> n \<le> LZ4_MAX_INPUT_SIZE \<and> block_of (read_mem mem di dn) (read_mem mem' d r) (read_mem mem s n))
      \<and> (n \<le> LZ4_MAX_INPUT_SIZE \<and> LZ4_compressBound n \<le> c \<longrightarrow> 0 < r))"
proof -
  have f: "0 < s" "0 \<le> n" "n \<le> INT_MAX" "0 \<le> dn" "di = 0 \<longrightarrow> dn = 0" "apart s n d c" "apart di dn d c" "0 \<le> c"
    using b by (auto simp: buffers_ok_def)
  let ?a = "if ctype \<noteq> FAST then 1 else accel"
  obtain ctx where ctx: "(if di \<noteq> 0 then map_option snd (LZ4_loadDict mem di dn) else Some (LZ4_resetStream LZ4_initStream)) = Some ctx"
    and w: "cs_wf ctx" "dictCtx ctx = None"
      "cdictSize ctx = 0 \<or> (0 \<le> cdictSize ctx \<and> cdictSize ctx \<le> dn \<and> dictionary ctx = di + dn - cdictSize ctx)"
    using fresh_stream_ok[OF f(4,5), of mem] by (auto simp: wp_iff)
  have ap: "apart (dictionary ctx) (cdictSize ctx) d c"
    using w(3) f(7) apart_inside[OF f(7), of "dictionary ctx" "cdictSize ctx"] by (auto simp: apart_def)
  have cl: "cs_clear ctx s n d c" by (rule cs_clear_inside[OF w(1) f(2,3) w(2) f(1,6) ap])
  have "suffix (read_mem mem (dictionary ctx) (cdictSize ctx)) (read_mem mem di dn)"
    using w(3) read_mem_suffix[of "cdictSize ctx" dn mem di] by (auto simp: read_mem_def)
  then have "suffix (cs_history mem ctx s n) (read_mem mem di dn)"
    using cs_history_suffix[OF w(1) f(2,3) w(2) f(1), of mem] suffix_order.trans by blast
  then have lift: "block_of (cs_history mem ctx s n) x y \<Longrightarrow> block_of (read_mem mem di dn) x y" for x y
    using block_of_longer unfolding suffix_def by metis
  have "wp (LZ4_compress_fast_continue mem ctx s d n c ?a) (step_post mem ctx s n d c)"
    by (rule fast_continue_ok[OF w(1) f(2,3,1) cl])
  then obtain r c' mem' where r: "LZ4_compress_fast_continue mem ctx s d n c ?a = Some (r, c', mem')"
    and p: "step_post mem ctx s n d c (r, c', mem')" by (auto simp: wp_iff)
  have eq: "lz4_compress_generic hc ctype accel compression mem s d n c di dn = Some (r, mem')"
    unfolding lz4_compress_generic_def ctx using ct r by simp
  show ?thesis unfolding eq using p lift f(8) by (auto simp: wp_Some step_post_def)
qed

interpretation lz4: block_codec "lz4_compress_generic hc (if is_fast then FAST else DEFAULT) accel compression"
  "LZ4_decompress_safe_usingDict fast" block_of decodes_to
proof
  fix mem :: memory and s n d c di dn out
  assume b: "buffers_ok s n d c di dn"
  then have f: "0 \<le> n" "0 \<le> dn" "apart s n d c" "apart di dn d c" "0 < s" "s + n < 2 ^ 64" "0 \<le> d" "0 \<le> di" "d + c < 2 ^ 64" "0 \<le> c"
    by (auto simp: buffers_ok_def)
  show "wp (lz4_compress_generic hc (if is_fast then FAST else DEFAULT) accel compression mem s d n c di dn) (\<lambda>(r, mem').
      unchanged_outside mem mem' d c \<and> r \<le> c
      \<and> (0 < r \<longrightarrow> n \<le> LZ4_MAX_INPUT_SIZE \<and> block_of (read_mem mem di dn) (read_mem mem' d r) (read_mem mem s n))
      \<and> (n \<le> LZ4_MAX_INPUT_SIZE \<and> LZ4_compressBound n \<le> c \<longrightarrow> 0 < r))"
    by (rule lz4_generic_ok[OF b]) simp
  show "wp (LZ4_decompress_safe_usingDict fast mem s d n c di dn) (\<lambda>(r, mem').
      unchanged_outside mem mem' d c \<and> r \<le> c
      \<and> (0 \<le> r \<longrightarrow> decodes_to (read_mem mem di dn) (read_mem mem s n) (read_mem mem' d r)))"
    using usingDict_sound[OF f(1-4), of fast mem] f(10) by (auto simp: wp_iff)
  assume "block_of (read_mem mem di dn) (read_mem mem s n) out" "int (length out) \<le> c"
  then show "\<exists>mem'. LZ4_decompress_safe_usingDict fast mem s d n c di dn = Some (int (length out), mem')
      \<and> read_mem mem' d (int (length out)) = out"
    by (rule usingDict_complete[OF f(1-9)])
qed


section \<open>Properties\<close>

text \<open>A locale fact about the modes \<open>default\<close> and \<open>fast\<close>.\<close>

lemma compress_modes:
  assumes "binding_ok al source di"
    and "blen source \<le> INT_MAX" "blen di \<le> INT_MAX" and m: "mode = ''default'' \<or> mode = ''fast''"
  shows "wp (compress hc al mem source mode store_size accel compression rb di) (\<lambda>(res, mem').
     unchanged_outside mem mem' (malloc_at al (request store_size (blen source))) (request store_size (blen source))
     \<and> ((malloc_at al (request store_size (blen source)) = 0 \<and> res = Inl MemoryError)
     \<or> (malloc_at al (request store_size (blen source)) \<noteq> 0 \<and> LZ4_MAX_INPUT_SIZE < blen source \<and> res = Inl CompressionFailed)
     \<or> (malloc_at al (request store_size (blen source)) \<noteq> 0 \<and> blen source \<le> LZ4_MAX_INPUT_SIZE
        \<and> (\<exists>blk. block_of (content mem di) blk (content mem source) \<and> int (length blk) \<le> LZ4_compressBound (blen source)
             \<and> res = make_object al rb (header store_size (blen source) @ blk)))))"
proof -
  have p: "parse_mode mode = Some (if mode = ''fast'' then FAST else DEFAULT)" using m by (auto simp: parse_mode_def)
  have "compress hc al mem source mode store_size accel compression rb di
      = compress_with (lz4_compress_generic hc (if mode = ''fast'' then FAST else DEFAULT) accel compression) al mem source store_size rb di"
    unfolding compress_def p using assms(2,3) by simp
  then show ?thesis using lz4.compress_with_ok[OF assms(1,2)] by simp
qed

definition compress_error :: "allocator \<Rightarrow> Py_buffer \<Rightarrow> string \<Rightarrow> bool \<Rightarrow> Py_buffer \<Rightarrow> py_error option" where
  "compress_error al source mode store_size di =
    (if blen source > INT_MAX then Some (OverflowError ''Input too large for LZ4 API'')
     else if blen di > INT_MAX then Some (OverflowError ''Dictionary too large for LZ4 API'')
     else if mode \<notin> {''default'', ''fast'', ''high_compression''}
       then Some (ValueError (''Invalid mode argument: '' @ mode @ ''. Must be one of: standard, fast, high_compression''))
     else if malloc_at al (request store_size (blen source)) = 0 then Some MemoryError
     else if blen source > LZ4_MAX_INPUT_SIZE then Some CompressionFailed
     else if \<not> object_ok al then Some MemoryError else None)"


definition no_hc :: "int \<Rightarrow> codec_call" where "no_hc compression mem s d n c di dn = Some (0, mem)"

definition demo_buffer :: Py_buffer where "demo_buffer = \<lparr>buf = 4096, blen = 20\<rparr>"

definition no_dict :: Py_buffer where "no_dict = \<lparr>buf = 0, blen = 0\<rparr>"

definition heap_at :: "int \<Rightarrow> allocator" where "heap_at a = \<lparr>malloc_at = \<lambda>_. a, object_ok = True\<rparr>"

lemma demo_binding: "binding_ok (heap_at 65536) demo_buffer no_dict"
  by (simp add: binding_ok_def fresh_block_def demo_buffer_def no_dict_def heap_at_def apart_def)

lemma demo_content: "content demo_source demo_buffer = demo_data" "content mem no_dict = []"
  using demo_source_data by (simp_all add: demo_buffer_def no_dict_def read_mem_def)

lemma demo_compress_error: "compress_error (heap_at 65536) demo_buffer ''default'' True no_dict = None"
  by (simp add: compress_error_def heap_at_def demo_buffer_def no_dict_def)




text \<open>C22. \<open>lz4.block.decompress\<close> on arbitrary bytes: whatever the source, header, dictionary and size
  argument, the call returns without undefined behaviour, and no byte outside the block of the
  announced size that it allocated is changed. An object it returns is what the block
  in the source stands for after the dictionary, exactly as long as the header says, or at most as
  long as the caller said.\<close>

theorem decompress_correct:
  assumes "binding_ok al source di"
  shows "\<exists>res mem'. decompress fast al mem source k rb di = Some (res, mem')
   \<and> unchanged_outside mem mem' (malloc_at al (if k < 0 then uint (load_le32_at mem (buf source)) else k))
       (if k < 0 then uint (load_le32_at mem (buf source)) else k)
   \<and> (\<forall>obj. res = Inr obj \<longrightarrow>
     (if k < 0 then decodes_to (content mem di) (drop 4 (content mem source)) (payload obj)
          \<and> int (length (payload obj)) = uint (load_le32_at mem (buf source))
      else decodes_to (content mem di) (content mem source) (payload obj) \<and> int (length (payload obj)) \<le> k))"
  using lz4.decompress_with_ok[OF assms, of fast mem k rb] unfolding wp_iff decompress_def by blast

lemma decompress_correct_witness:
  "\<exists>res mem'. decompress True (heap_at 65536) demo_source demo_buffer 7 False no_dict = Some (res, mem')
    \<and> unchanged_outside demo_source mem' 65536 7 \<and> (\<forall>obj. res = Inr obj \<longrightarrow> int (length (payload obj)) \<le> 7)"
  using decompress_correct[OF demo_binding, of True demo_source 7 False] by (auto simp: heap_at_def)

end
