(* ===== verification/LZ4_Compress_Reset.thy ===== *)
theory LZ4_Compress_Reset
  imports LZ4_Compress_Stream
begin

text \<open>
  One-shot compression with a context that was used before: \<open>LZ4_compress_fast_extState_fastReset\<close>
  of \<open>lz4.c\<close>, which \<open>lz4frame.c\<close> calls for independent blocks, and what the calls of \<open>lz4.c\<close>
  leave of a context when a context passes from one to the other.
\<close>

section \<open>The function\<close>

definition LZ4_compress_fast_extState_fastReset ::
  "memory \<Rightarrow> cctx \<Rightarrow> int \<Rightarrow> int \<Rightarrow> int \<Rightarrow> int \<Rightarrow> int \<Rightarrow> (int \<times> cctx \<times> memory) option" where
  "LZ4_compress_fast_extState_fastReset mem c src dst srcSize dstCapacity accel =
    (let accel = clamp_acceleration accel;
         (dir, limit) = (if dstCapacity \<ge> LZ4_compressBound srcSize then (notLimited, 0) else (limitedOutput, dstCapacity));
         tt = (if srcSize < LZ4_64Klimit then byU16 else byU32);
         c = LZ4_prepareTable c srcSize tt;
         small = (tt = byU16 \<and> currentOffset c \<noteq> 0) in
     if srcSize < 0 then Some (0, c, mem)
     else if \<not> apart src srcSize dst dstCapacity then None
     else do {
       (r, m, c) \<leftarrow> LZ4_compress_generic c (read_mem mem src srcSize) 0 [] (read_mem mem dst dstCapacity) limit dir tt noDict small accel;
       Some (r, c, write_mem mem dst m) })"

section \<open>What a call leaves of the context\<close>

text \<open>A context without an attached dictionary stays so.\<close>

lemma generic_dictCtx:
  "LZ4_compress_generic c sg source di dst cap dir tt d small accel = Some (r, m, c') \<Longrightarrow> dictCtx c = None \<Longrightarrow> dictCtx c' = None"
  by (auto simp: LZ4_compress_generic_def LZ4_compress_generic_validated_def Let_def split: if_splits option.splits Option.bind_splits)

lemma call_compressor_dictCtx:
  "call_compressor mem c source n dest cap d small accel = Some (r, c', mem') \<Longrightarrow> dictCtx c = None \<Longrightarrow> dictCtx c' = None"
  by (auto simp: call_compressor_def Let_def split: if_splits prod.splits Option.bind_splits dest: generic_dictCtx)

lemma fast_continue_dictCtx:
  assumes r: "LZ4_compress_fast_continue mem c source dest n cap accel = Some (r, c', mem')" and d: "dictCtx c = None"
  shows "dictCtx c' = None"
proof -
  have 1: "dictCtx (LZ4_renormDictT c n) = None" using d by (simp add: LZ4_renormDictT_def Let_def)
  obtain c1 de where t: "drop_tiny (LZ4_renormDictT c n) (if cdictSize c \<noteq> 0 then dictionary c + cdictSize c else 0) source n = (c1, de)"
    by (cases "drop_tiny (LZ4_renormDictT c n) (if cdictSize c \<noteq> 0 then dictionary c + cdictSize c else 0) source n")
  have "dictCtx c1 = None" using t 1 by (auto simp: drop_tiny_def split: if_splits)
  then have 2: "dictCtx (cut_overlap c1 d source n) = None" for d by (simp add: cut_overlap_def Let_def)
  show ?thesis using r unfolding LZ4_compress_fast_continue_def Let_def t
    by (auto simp: 2 split: if_splits Option.bind_splits dest: call_compressor_dictCtx[OF _ 2])
qed

text \<open>After a call with some input the table has the type of the call.\<close>

lemma generic_tableType:
  assumes "LZ4_compress_generic c sg source di dst cap dir tt d small accel = Some (r, m, c')"
    and "source < int (length sg)" "int (length sg) - source \<le> LZ4_MAX_INPUT_SIZE" "tt \<noteq> byU16"
  shows "tableType c' = tt"
  using assms by (auto simp: LZ4_compress_generic_def LZ4_compress_generic_validated_def Let_def split: if_splits option.splits Option.bind_splits)

lemma call_compressor_tableType:
  assumes r: "call_compressor mem c source n dest cap d small accel = Some (r, c', mem')" and n: "0 < n" "n \<le> LZ4_MAX_INPUT_SIZE"
    and z: "d = withPrefix64k \<longrightarrow> 0 \<le> cdictSize c"
  shows "tableType c' = byU32"
proof -
  let ?pre = "if d = withPrefix64k then cdictSize c else 0"
  obtain m where "LZ4_compress_generic c (read_mem mem (source - ?pre) (?pre + n)) ?pre (read_mem mem (fst (dict_of_mode c d)) (snd (dict_of_mode c d)))
      (read_mem mem dest cap) cap limitedOutput byU32 d small accel = Some (r, m, c')"
    using r n by (auto simp: call_compressor_def Let_def case_prod_beta split: if_splits Option.bind_splits)
  then show ?thesis by (rule generic_tableType) (use n z in auto)
qed

lemma fast_continue_tableType:
  assumes r: "LZ4_compress_fast_continue mem c source dest n cap accel = Some (r, c', mem')" and d: "dictCtx c = None" and wf: "cs_wf c"
    and n: "0 < n" "n \<le> LZ4_MAX_INPUT_SIZE" and s: "0 < source"
  shows "tableType c' = byU32"
proof -
  obtain c1 de where tn: "cs_turn c source n = (c1, de)" by (cases "cs_turn c source n")
  have n': "0 \<le> n" "n \<le> INT_MAX" using n by auto
  note t = cs_turn_ok[OF wf n' s tn]
  have z: "0 \<le> cdictSize c1" "dictCtx c1 = None" using t(1,2) d by (auto simp: turned_def cs_wf_def)
  obtain c2 where dt: "drop_tiny (LZ4_renormDictT c n) (if cdictSize c \<noteq> 0 then dictionary c + cdictSize c else 0) source n = (c2, de)"
    and c1: "cut_overlap c2 de source n = c1"
    using tn by (auto simp: cs_turn_def split: prod.splits)
  let ?small = "cdictSize c1 < KB 64 \<and> cdictSize c1 < currentOffset c1" and ?a = "clamp_acceleration accel"
  have eq: "(if de = source then call_compressor mem c1 source n dest cap withPrefix64k ?small ?a
      else do {
       (r, c, mem) \<leftarrow> call_compressor mem c1 source n dest cap usingExtDict ?small ?a;
       Some (r, c\<lparr>dictionary := source, cdictSize := n mod 2 ^ 32\<rparr>, mem) }) = Some (r, c', mem')"
    using r unfolding LZ4_compress_fast_continue_def Let_def dt prod.case c1 z(2) option.case .
  show ?thesis
  proof (cases "de = source")
    case True
    then show ?thesis using eq call_compressor_tableType[OF _ n, of mem c1 source dest cap withPrefix64k] z(1) by simp
  next
    case False
    then show ?thesis using eq call_compressor_tableType[OF _ n, of mem c1 source dest cap usingExtDict] by (auto split: Option.bind_splits)
  qed
qed

section \<open>Correctness\<close>

text \<open>A context between two uses: its table is empty whenever it is marked as cleared.\<close>

definition reusable :: "cctx \<Rightarrow> bool" where
  "reusable c \<longleftrightarrow> cs_wf c \<and> dictCtx c = None \<and> (tableType c = clearedTable \<longrightarrow> currentOffset c = 0)"

lemma initStream_reusable: "reusable LZ4_initStream"
  using initStream_wf by (simp add: reusable_def LZ4_initStream_def)

lemma resetStream_fast_reusable:
  assumes "reusable c"
  shows "reusable (LZ4_resetStream_fast c)" "cdictSize (LZ4_resetStream_fast c) = 0"
proof -
  have w: "cs_wf (LZ4_resetStream_fast c)" using assms resetStream_fast_wf(1)[of c] by (auto simp: reusable_def)
  then show "reusable (LZ4_resetStream_fast c)" using assms by (auto simp: reusable_def LZ4_resetStream_fast_def LZ4_prepareTable_def Let_def)
  show "cdictSize (LZ4_resetStream_fast c) = 0" by (simp add: LZ4_resetStream_fast_def LZ4_prepareTable_def Let_def)
qed

text \<open>What \<open>LZ4_prepareTable\<close> makes of it: no dictionary, and either an empty table or small indexes.\<close>

lemma prepareTable_reset:
  assumes c: "reusable c" and n: "0 \<le> n" and tt: "tt = (if n < LZ4_64Klimit then byU16 else byU32)"
  defines "k \<equiv> LZ4_prepareTable c n tt"
  shows "reusable k" "cdictSize k = 0" "0 \<le> currentOffset k" "currentOffset k = 0 \<or> tt = byU16 \<and> currentOffset k + n < 65535"
    "hashTable k h = 0 \<or> 0 < hashTable k h \<and> hashTable k h + 4 \<le> currentOffset k"
proof -
  have o: "0 \<le> currentOffset c" "currentOffset c \<le> 2 ^ 31" using c by (auto simp: reusable_def cs_wf_def)
  let ?r = "tableType c \<noteq> clearedTable \<and> (tableType c \<noteq> tt \<or> tt = byU16 \<and> (currentOffset c + n) mod 2 ^ 32 \<ge> 65535
      \<or> tt = byU32 \<and> currentOffset c > 2 ^ 30 \<or> n \<ge> KB 4)"
  have k: "currentOffset k = 0 \<and> hashTable k = (\<lambda>h. 0) \<and> tableType k = clearedTable
      \<or> currentOffset k = currentOffset c \<and> hashTable k = hashTable c \<and> tableType k = tableType c
        \<and> (tableType c = clearedTable \<or> tt = byU16 \<and> (currentOffset c + n) mod 2 ^ 32 < 65535 \<and> n < KB 4)"
  proof (cases ?r)
    case True
    then show ?thesis by (auto simp: k_def LZ4_prepareTable_def Let_def)
  next
    case False
    have "tt = byU32 \<longrightarrow> n \<ge> KB 4" using tt by auto
    then have "tt = byU32 \<longrightarrow> currentOffset c = 0" using False c by (auto simp: reusable_def)
    then show ?thesis using False tt by (auto simp: k_def LZ4_prepareTable_def Let_def split: if_splits)
  qed
  have m: "(currentOffset c + n) mod 2 ^ 32 = currentOffset c + n" if "n < KB 4"
    using that o n by (intro mod_pos_pos_trivial) auto
  show d: "cdictSize k = 0" by (simp add: k_def LZ4_prepareTable_def Let_def)
  have "dictCtx k = None" by (simp add: k_def LZ4_prepareTable_def Let_def)
  then show "reusable k" using c k d by (auto simp: reusable_def cs_wf_def)
  show "0 \<le> currentOffset k" using k o by auto
  show "currentOffset k = 0 \<or> tt = byU16 \<and> currentOffset k + n < 65535" using k c m by (auto simp: reusable_def)
  show "hashTable k h = 0 \<or> 0 < hashTable k h \<and> hashTable k h + 4 \<le> currentOffset k" using \<open>reusable k\<close> by (simp add: reusable_def cs_wf_def)
qed

definition reset_post :: "memory \<Rightarrow> int \<Rightarrow> int \<Rightarrow> int \<Rightarrow> int \<Rightarrow> int \<times> cctx \<times> memory \<Rightarrow> bool" where
  "reset_post mem src n dst cap = (\<lambda>(r, c', mem'). (\<forall>p. p < dst \<or> dst + cap \<le> p \<longrightarrow> mem' p = mem p) \<and> 0 \<le> r \<and> r \<le> cap \<and> reusable c'
     \<and> (0 < r \<longrightarrow> block_of [] (read_mem mem' dst r) (read_mem mem src n)) \<and> (LZ4_compressBound n \<le> cap \<longrightarrow> 0 < r))"

lemma fastReset_ok:
  assumes c: "reusable c" and n: "0 < n" "n \<le> LZ4_MAX_INPUT_SIZE" and cap: "0 \<le> cap" and ap: "apart src n dst cap"
  shows "wp (LZ4_compress_fast_extState_fastReset mem c src dst n cap accel) (reset_post mem src n dst cap)"
proof -
  define tt where "tt = (if n < LZ4_64Klimit then byU16 else byU32)"
  define k where "k = LZ4_prepareTable c n tt"
  define small where "small \<longleftrightarrow> tt = byU16 \<and> currentOffset k \<noteq> 0"
  obtain dir limit where dl: "(if cap \<ge> LZ4_compressBound n then (notLimited, 0) else (limitedOutput, cap)) = (dir, limit :: int)"
    by (metis surj_pair)
  let ?a = "clamp_acceleration accel" let ?src = "read_mem mem src n" and ?dst = "read_mem mem dst cap"
  define e where "e = compress_env k ?src 0 [] limit dir tt noDict small ?a"
  note p = prepareTable_reset[OF c _ tt_def, folded k_def]
  have n0: "0 \<le> n" using n by simp
  have ls: "int (length ?src) = n" using n by simp
  have f: "cur e = ?src" "srcpos e = 0" "extdict e = []" "startIndex e = currentOffset k" "dictLen e = 0" "dictDirective e = noDict"
    "dictSmall e = small" "tableT e = tt" "outputDirective e = dir" "olimit e = limit" "acceleration e = ?a"
    using p(1,2)[OF n0] by (simp_all add: e_def compress_env_def reusable_def)
  have pl: "prefixIdxLimit e = currentOffset k"
    unfolding prefixIdxLimit_def f using p(3,4)[OF n0] n by (subst mod_pos_pos_trivial) auto
  have en: "env_ok e" unfolding env_ok_def mode_fits_def f ls using p(3,4)[OF n0] n
    by (auto simp: tt_def clamp_acceleration_def)
  have old: "old_entry e (hashTable k h)" for h
    unfolding old_entry_def reachable_def f pl using p(3,4)[OF n0] p(5)[OF n0, of h] by (auto simp: small_def)
  have room: "out_room e ?dst" unfolding out_room_def f ls using dl cap compress_bound_eq[of n] n by (auto split: if_splits)
  have lt: "(0 :: int) < int (length ?src)" using n by simp
  note g = generic_validated_ok[OF e_def en room old lt]
  have gen: "LZ4_compress_generic k ?src 0 [] ?dst limit dir tt noDict small ?a = LZ4_compress_generic_validated k ?src 0 [] ?dst limit dir tt noDict small ?a"
    using n by (simp add: LZ4_compress_generic_def)
  have call: "LZ4_compress_fast_extState_fastReset mem c src dst n cap accel
      = do { (r, m, c) \<leftarrow> LZ4_compress_generic_validated k ?src 0 [] ?dst limit dir tt noDict small ?a; Some (r, c, write_mem mem dst m) }"
    using ap n unfolding LZ4_compress_fast_extState_fastReset_def Let_def dl prod.case tt_def[symmetric] k_def[symmetric] small_def[symmetric] gen by simp
  have "wp (LZ4_compress_generic_validated k ?src 0 [] ?dst limit dir tt noDict small ?a)
      (\<lambda>(r, m, c'). reset_post mem src n dst cap (r, c', write_mem mem dst m))"
  proof (rule wp_mono[OF g], clarify)
    fix r m c'
    assume "r = 0 \<and> m = ?dst \<and> c' = k \<and> tt = byU16 \<and> LZ4_64Klimit \<le> int (length ?src) - 0
       \<or> result_ok e ?dst (r, m) \<and> tinv e (hashTable k) (c_iend e) (hashTable c')
          \<and> currentOffset c' = (currentOffset k + (int (length ?src) - 0)) mod 2 ^ 32 \<and> tableType c' = tt \<and> dictionary c' = dictionary k
          \<and> dictCtx c' = (if noDict = usingDictCtx then None else dictCtx k)
          \<and> cdictSize c' = (if noDict = usingDictCtx then int (length ?src) - 0 else (cdictSize k + (int (length ?src) - 0)) mod 2 ^ 32)"
    moreover have "\<not> (tt = byU16 \<and> LZ4_64Klimit \<le> int (length ?src) - 0)" using ls by (simp add: tt_def)
    moreover have "(currentOffset k + n) mod 2 ^ 32 = currentOffset k + n" "n mod 2 ^ 32 = n" using p(3,4)[OF n0] n by (auto intro!: mod_pos_pos_trivial)
    ultimately have y: "result_ok e ?dst (r, m)" "tinv e (hashTable k) (c_iend e) (hashTable c')" "currentOffset c' = currentOffset k + n" "tableType c' = tt"
      "dictCtx c' = None" "cdictSize c' = n"
      using ls p(1,2)[OF n0] by (auto simp: reusable_def)
    have lm: "length m = nat cap" and r: "0 \<le> r" "r \<le> int (length m)" using y(1) by (auto simp: result_ok_def)
    have "hashTable c' h = 0 \<or> 0 < hashTable c' h \<and> hashTable c' h + 4 \<le> currentOffset k + n" for h
      using tables_stay_wf[OF _ y(2) f(4) _ n0] p(1)[OF n0] f(1,2) ls by (simp add: reusable_def)
    then have "cs_wf c'" using y(3,5,6) p(3,4)[OF n0] n by (auto simp: cs_wf_def)
    then have "reusable c'" using y(4,5) by (auto simp: reusable_def tt_def split: if_splits)
    moreover have "read_mem (write_mem mem dst m) dst r = take (nat r) m" using read_write_part[of 0 r m mem dst] r by (simp add: seg_def)
    moreover have "write_mem mem dst m q = mem q" if "q < dst \<or> dst + cap \<le> q" for q using write_mem_outside[OF lm that] .
    moreover have "0 < r" if "LZ4_compressBound n \<le> cap"
    proof -
      have "dir = notLimited" using dl that by auto
      then show ?thesis using y(1) f(9) by (auto simp: result_ok_def tight_def)
    qed
    ultimately show "reset_post mem src n dst cap (r, c', write_mem mem dst m)"
      using y(1) r lm cap f by (auto simp: reset_post_def result_ok_def)
  qed
  then show ?thesis unfolding call by (auto simp: wp_simps elim!: wp_mono)
qed

section \<open>Properties\<close>

text \<open>C38. \<open>LZ4_compress_fast_extState_fastReset\<close> on a context that was initialised and then used any number of times, with whatever
  its tables hold from earlier sources: for every source that is not empty it ends with checked accesses, writes only to the output
  buffer, and a positive result is the length of a block that stands for the source alone, so no match refers to an earlier source.
  It succeeds with \<open>LZ4_compressBound\<close> bytes, and the context can be used again.\<close>

theorem LZ4_fastReset_correct:
  assumes "reusable c" "0 < n" "n \<le> LZ4_MAX_INPUT_SIZE" "0 \<le> cap" "apart src n dst cap"
  shows "\<exists>r c' mem'. LZ4_compress_fast_extState_fastReset mem c src dst n cap accel = Some (r, c', mem') \<and> reusable c'
    \<and> (\<forall>p. p < dst \<or> dst + cap \<le> p \<longrightarrow> mem' p = mem p) \<and> 0 \<le> r \<and> r \<le> cap
    \<and> (0 < r \<longrightarrow> block_of [] (read_mem mem' dst r) (read_mem mem src n)) \<and> (LZ4_compressBound n \<le> cap \<longrightarrow> 0 < r)"
  using fastReset_ok[OF assms, of mem accel] unfolding wp_iff reset_post_def by blast

lemma LZ4_fastReset_correct_witness:
  "\<exists>r1 c1 m1 r2 c2 m2. LZ4_compress_fast_extState_fastReset (\<lambda>p. of_int p) LZ4_initStream 1000 2000 40 100 1 = Some (r1, c1, m1)
    \<and> LZ4_compress_fast_extState_fastReset m1 c1 1005 3000 40 100 1 = Some (r2, c2, m2) \<and> 0 < r2
    \<and> block_of [] (read_mem m2 3000 r2) (read_mem m1 1005 40)"
proof -
  have b: "LZ4_compressBound 40 = 56" by (simp add: LZ4_compressBound_def)
  have a: "apart 1000 40 2000 100" "apart 1005 40 3000 100" by (simp_all add: apart_def)
  obtain r1 c1 m1 where 1: "LZ4_compress_fast_extState_fastReset (\<lambda>p. of_int p) LZ4_initStream 1000 2000 40 100 1 = Some (r1, c1, m1)" "reusable c1"
    using LZ4_fastReset_correct[OF initStream_reusable _ _ _ a(1), of "\<lambda>p. of_int p" 1] by auto
  obtain r2 c2 m2 where "LZ4_compress_fast_extState_fastReset m1 c1 1005 3000 40 100 1 = Some (r2, c2, m2)" "0 < r2"
    "block_of [] (read_mem m2 3000 r2) (read_mem m1 1005 40)"
    using LZ4_fastReset_correct[OF 1(2) _ _ _ a(2), of m1 1] b by auto
  then show ?thesis using 1(1) by blast
qed

end
