(* ===== verification/Stream_Binding.thy ===== *)
theory Stream_Binding
  imports Block_Binding LZ4_Compress_Reset
begin

text \<open>
  \<open>lz4.stream\<close>: the context of \<open>_stream.c\<close>, its double buffer, and the functions \<open>_create_context\<close>,
  \<open>_compress\<close>, \<open>_get_block\<close> and \<open>_decompress\<close>. Addresses and memory are those of \<open>Block_Binding\<close>;
  the high-compression functions of \<open>lz4hc.c\<close> are a parameter \<open>hc_api\<close>. An exception is the left
  value of a sum; \<open>None\<close> is undefined behaviour of the C code.
\<close>

section \<open>Types\<close>

datatype buffer_strategy_e = DOUBLE_BUFFER | RING_BUFFER
datatype direction_e = COMPRESS | DECOMPRESS

datatype exc =
    PyExc_OverflowError string
  | PyExc_ValueError string
  | PyExc_MemoryError string
  | PyExc_NotImplementedError string
  | PyErr_NoMemory
  | LZ4StreamError string

text \<open>The double buffer; \<open>index\<close> is \<open>-1\<close> before the pages are reserved.\<close>

record double_buffer =
  db_buf :: int
  page_size :: int
  pages :: "int list"
  index :: int

text \<open>The union of states: \<open>'hc\<close> is \<open>LZ4_streamHC_t\<close>.\<close>

datatype 'hc lz4_state_t = No_state | Fast_state cctx | HC_state 'hc | Decode_state streamDecode

record config_t =
  cfg_acceleration :: int
  compression_level :: int
  store_comp_size :: int
  return_bytearray :: bool
  direction :: direction_e
  cfg_comp :: compression_type

record 'hc stream_context =
  strategy :: buffer_strategy_e
  double_buf :: double_buffer
  output_buf :: int
  output_len :: int
  lz4_state :: "'hc lz4_state_t"
  config :: config_t

record 'hc hc_api =
  hc_create :: "int \<Rightarrow> 'hc"
  hc_loadDict :: "memory \<Rightarrow> 'hc \<Rightarrow> int \<Rightarrow> int \<Rightarrow> 'hc option"
  hc_continue :: "memory \<Rightarrow> 'hc \<Rightarrow> int \<Rightarrow> int \<Rightarrow> int \<Rightarrow> int \<Rightarrow> (int \<times> 'hc \<times> memory) option"

text \<open>\<open>GET_MAX_UINT32 n\<close>: the largest value of \<open>n\<close> bytes; a conversion to \<open>int\<close>.\<close>

definition GET_MAX_UINT32 :: "int \<Rightarrow> int" where
  "GET_MAX_UINT32 byte_depth = 2 ^ (8 * nat byte_depth) - 1"

definition to_int :: "int \<Rightarrow> int" where
  "to_int x = (x + 2 ^ 31) mod 2 ^ 32 - 2 ^ 31"

section \<open>Block lengths\<close>

definition load_block_length :: "int \<Rightarrow> memory \<Rightarrow> int \<Rightarrow> int" where
  "load_block_length block_length_size mem a =
    (if block_length_size = 1 then uint (mem a)
     else if block_length_size = 2 then uint (load_le16 (mem a) (mem (a + 1)))
     else if block_length_size = 4 then to_int (uint (load_le32_at mem a))
     else - 1)"

text \<open>The bytes written, or \<open>None\<close> when the status is 0.\<close>

definition store_block_length :: "int \<Rightarrow> int \<Rightarrow> bytes option" where
  "store_block_length block_length block_length_size =
    (if block_length_size = 0 then Some []
     else if block_length_size = 1 then
       if block_length > 255 then None else Some [of_int block_length]
     else if block_length_size = 2 then
       if block_length > 65535 then None else Some (store_le16 (of_int block_length))
     else if block_length_size = 4 then
       if block_length > INT_MAX then None else Some (store_le32 (of_int block_length))
     else None)"

section \<open>Bounds\<close>

definition get_compress_bound :: "int \<Rightarrow> int" where
  "get_compress_bound input_size = LZ4_compressBound input_size mod 2 ^ 32"

definition get_input_bound :: "int \<Rightarrow> int" where
  "get_input_bound compress_max_size =
    (let csize = (if compress_max_size < 16 then 17 else compress_max_size);
         isize = (if csize \<le> get_compress_bound LZ4_MAX_INPUT_SIZE then
                    let isize = ((csize * 2 ^ 8 - csize - 4080) mod 2 ^ 64) div 2 ^ 8 in
                    if isize > LZ4_MAX_INPUT_SIZE then 0 else isize + 1
                  else 0) in
     isize mod 2 ^ 32)"

section \<open>The buffer strategies\<close>

definition double_buffer_update_index :: "'hc stream_context \<Rightarrow> 'hc stream_context" where
  "double_buffer_update_index ctx =
     ctx\<lparr>double_buf := (double_buf ctx)\<lparr>index := (index (double_buf ctx) + 1) mod 2\<rparr>\<rparr>"

definition double_buffer_get_compression_page :: "'hc stream_context \<Rightarrow> int option" where
  "double_buffer_get_compression_page ctx =
    (let i = index (double_buf ctx) in
     if 0 \<le> i \<and> i < int (length (pages (double_buf ctx))) then Some (pages (double_buf ctx) ! nat i) else None)"

text \<open>The size asked of the allocator is computed in 32 bits.\<close>

definition double_buffer_reserve_resources ::
  "(int \<Rightarrow> int) \<Rightarrow> 'hc stream_context \<Rightarrow> int \<Rightarrow> exc + 'hc stream_context" where
  "double_buffer_reserve_resources malloc ctx buffer_size =
    (let p = malloc (buffer_size * 2 mod 2 ^ 32) in
     if p = 0 then Inl (PyExc_MemoryError ''Could not allocate double-buffer'')
     else Inr (ctx\<lparr>double_buf := \<lparr>db_buf = p, page_size = buffer_size, pages = [p, p + buffer_size], index = 0\<rparr>\<rparr>))"

text \<open>The vtable \<open>strategy_ops\<close>; the ring buffer is not implemented, its functions return \<open>NULL\<close>, 0 or an error.\<close>

definition reserve_resources :: "(int \<Rightarrow> int) \<Rightarrow> 'hc stream_context \<Rightarrow> int \<Rightarrow> exc + 'hc stream_context" where
  "reserve_resources malloc ctx buffer_size =
    (case strategy ctx of DOUBLE_BUFFER \<Rightarrow> double_buffer_reserve_resources malloc ctx buffer_size
     | RING_BUFFER \<Rightarrow> Inl (PyExc_NotImplementedError ''Buffer strategy not implemented: ring_buffer''))"

definition get_work_buffer :: "'hc stream_context \<Rightarrow> int option" where
  "get_work_buffer ctx =
    (case strategy ctx of DOUBLE_BUFFER \<Rightarrow> double_buffer_get_compression_page ctx | RING_BUFFER \<Rightarrow> Some 0)"

definition get_work_buffer_size :: "'hc stream_context \<Rightarrow> int" where
  "get_work_buffer_size ctx = (case strategy ctx of DOUBLE_BUFFER \<Rightarrow> page_size (double_buf ctx) | RING_BUFFER \<Rightarrow> 0)"

definition get_dest_buffer_size :: "'hc stream_context \<Rightarrow> int" where
  "get_dest_buffer_size ctx =
    (case strategy ctx of
       DOUBLE_BUFFER \<Rightarrow> (if direction (config ctx) = COMPRESS then output_len ctx else page_size (double_buf ctx))
     | RING_BUFFER \<Rightarrow> 0)"

definition update_context_after_process :: "'hc stream_context \<Rightarrow> exc + 'hc stream_context" where
  "update_context_after_process ctx =
    (case strategy ctx of DOUBLE_BUFFER \<Rightarrow> Inr (double_buffer_update_index ctx)
     | RING_BUFFER \<Rightarrow> Inl (PyExc_NotImplementedError ''Buffer strategy not implemented: ring_buffer''))"

section \<open>Creating a context\<close>

text \<open>The parsed arguments; what the three allocators answer.\<close>

record create_args =
  strategy_name :: string
  direction_name :: string
  buffer_size :: int
  mode :: string
  acceleration_arg :: int
  compression_level_arg :: int
  return_bytearray_arg :: bool
  store_comp_size_arg :: int
  dictionary_arg :: Py_buffer

record create_env =
  context_ok :: bool
  malloc_pages :: "int \<Rightarrow> int"
  malloc_output :: "int \<Rightarrow> int"
  state_ok :: bool

definition LZ4_versionNumber :: int where
  "LZ4_versionNumber = 1 * 100 * 100 + 9 * 100 + 4"

definition reset_stream :: "cctx \<Rightarrow> cctx" where
  "reset_stream c = (if LZ4_versionNumber \<ge> 10900 then LZ4_resetStream_fast c else LZ4_resetStream c)"

definition parse_strategy :: "string \<Rightarrow> buffer_strategy_e option" where
  "parse_strategy s = (if s = ''double_buffer'' then Some DOUBLE_BUFFER
     else if s = ''ring_buffer'' then Some RING_BUFFER else None)"

definition parse_direction :: "string \<Rightarrow> direction_e option" where
  "parse_direction s = (if s = ''compress'' then Some COMPRESS else if s = ''decompress'' then Some DECOMPRESS else None)"

text \<open>The checks on the arguments, in order; then the length and the allocation size of the output buffer.\<close>

definition check_args :: "create_env \<Rightarrow> create_args \<Rightarrow> exc + (buffer_strategy_e \<times> direction_e \<times> compression_type)" where
  "check_args env args =
    (if blen (dictionary_arg args) > INT_MAX then Inl (PyExc_OverflowError ''Dictionary too large for LZ4 API'')
     else if store_comp_size_arg args \<notin> {0, 1, 2, 4}
       then Inl (PyExc_ValueError ''Invalid store_comp_size, valid values: 0, 1, 2 or 4'')
     else if \<not> context_ok env then Inl PyErr_NoMemory
     else case parse_strategy (strategy_name args) of
       None \<Rightarrow> Inl (PyExc_ValueError (''Invalid strategy argument: '' @ strategy_name args @ ''. Must be one of: double_buffer, ring_buffer''))
     | Some strat \<Rightarrow> (case parse_direction (direction_name args) of
       None \<Rightarrow> Inl (PyExc_ValueError (''Invalid direction argument: '' @ direction_name args @ ''. Must be one of: compress, decompress''))
     | Some dir \<Rightarrow> (case parse_mode (mode args) of
       None \<Rightarrow> Inl (PyExc_ValueError (''Invalid mode argument: '' @ mode args @ ''. Must be one of: default, fast, high_compression''))
     | Some cty \<Rightarrow> Inr (strat, dir, cty))))"

definition output_sizes :: "create_args \<Rightarrow> direction_e \<Rightarrow> exc + (int \<times> int)" where
  "output_sizes args dir =
    (let store_max_size = (if store_comp_size_arg args = 0 then GET_MAX_UINT32 4 else GET_MAX_UINT32 (store_comp_size_arg args)) in
     case dir of
       COMPRESS \<Rightarrow>
         let len = get_compress_bound (buffer_size args); total_size = (len + store_comp_size_arg args) mod 2 ^ 32 in
         if len = 0 then Inl (PyExc_ValueError ''Invalid buffer_size argument. Cannot define output buffer size.'')
         else if len > store_max_size then Inl (LZ4StreamError ''Inconsistent buffer_size/store_comp_size values.'')
         else Inr (len, total_size)
     | DECOMPRESS \<Rightarrow> Inr (buffer_size args, buffer_size args))"

text \<open>The LZ4 state with the dictionary.\<close>

definition init_state ::
  "'hc hc_api \<Rightarrow> create_env \<Rightarrow> memory \<Rightarrow> create_args \<Rightarrow> direction_e \<Rightarrow> compression_type \<Rightarrow> (exc + 'hc lz4_state_t) option" where
  "init_state hc env mem args dir cty =
    (let di = dictionary_arg args in
     if \<not> state_ok env then Some (Inl (PyExc_MemoryError ''Could not create LZ4 state''))
     else case dir of
       COMPRESS \<Rightarrow>
         if cty = HIGH_COMPRESSION then
           let s = hc_create hc (compression_level_arg args) in
           if blen di > 0 then map_option (\<lambda>s. Inr (HC_state s)) (hc_loadDict hc mem s (buf di) (blen di))
           else Some (Inr (HC_state s))
         else
           let s = reset_stream LZ4_initStream in
           if blen di > 0 then map_option (\<lambda>(_, s). Inr (Fast_state s)) (LZ4_loadDict mem (buf di) (blen di))
           else Some (Inr (Fast_state s))
     | DECOMPRESS \<Rightarrow> Some (Inr (Decode_state (LZ4_setStreamDecode (buf di) (blen di)))))"

definition create_context ::
  "'hc hc_api \<Rightarrow> create_env \<Rightarrow> memory \<Rightarrow> create_args \<Rightarrow> (exc + 'hc stream_context) option" where
  "create_context hc env mem args =
    (case check_args env args of Inl e \<Rightarrow> Some (Inl e)
     | Inr (strat, dir, cty) \<Rightarrow> (case output_sizes args dir of Inl e \<Rightarrow> Some (Inl e)
     | Inr (len, total_size) \<Rightarrow>
       let ctx = \<lparr>strategy = strat, double_buf = \<lparr>db_buf = 0, page_size = 0, pages = [0, 0], index = 0\<rparr>,
             output_buf = 0, output_len = len, lz4_state = No_state,
             config = \<lparr>cfg_acceleration = acceleration_arg args, compression_level = compression_level_arg args,
               store_comp_size = store_comp_size_arg args, return_bytearray = return_bytearray_arg args,
               direction = dir, cfg_comp = cty\<rparr>\<rparr> in
       (case reserve_resources (malloc_pages env) ctx (buffer_size args) of Inl e \<Rightarrow> Some (Inl e)
       | Inr ctx \<Rightarrow>
         let out = malloc_output env total_size in
         if out = 0 then Some (Inl (PyExc_MemoryError ''Could not allocate output buffer''))
         else do {
           r \<leftarrow> init_state hc env mem args dir cty;
           case r of Inl e \<Rightarrow> Some (Inl e) | Inr s \<Rightarrow> Some (Inr (ctx\<lparr>output_buf := out, lz4_state := s\<rparr>)) })))"

section \<open>Compressing\<close>

definition stream_compress_generic ::
  "'hc hc_api \<Rightarrow> memory \<Rightarrow> 'hc stream_context \<Rightarrow> int \<Rightarrow> int \<Rightarrow> int \<Rightarrow> int \<Rightarrow> (int \<times> 'hc stream_context \<times> memory) option" where
  "stream_compress_generic hc mem ctx source srcSize dest dest_size =
    (case lz4_state ctx of
       HC_state s \<Rightarrow> do {
         (comp_len, s, mem) \<leftarrow> hc_continue hc mem s source dest srcSize dest_size;
         Some (comp_len, ctx\<lparr>lz4_state := HC_state s\<rparr>, mem) }
     | Fast_state s \<Rightarrow> do {
         let accel = (if cfg_comp (config ctx) \<noteq> FAST then 1 else cfg_acceleration (config ctx));
         (comp_len, s, mem) \<leftarrow> LZ4_compress_fast_continue mem s source dest srcSize dest_size accel;
         Some (comp_len, ctx\<lparr>lz4_state := Fast_state s\<rparr>, mem) }
     | _ \<Rightarrow> None)"

definition result_object :: "bool \<Rightarrow> 'hc stream_context \<Rightarrow> bytes \<Rightarrow> exc + py_object" where
  "result_object object_made ctx bs =
    (if \<not> object_made then Inl PyErr_NoMemory
     else Inr (if return_bytearray (config ctx) then PyByteArray bs else PyBytes bs))"

definition stream_compress ::
  "'hc hc_api \<Rightarrow> bool \<Rightarrow> 'hc stream_context \<Rightarrow> memory \<Rightarrow> Py_buffer \<Rightarrow> ((exc + py_object) \<times> 'hc stream_context \<times> memory) option" where
  "stream_compress hc object_made ctx mem source =
    (if lz4_state ctx = No_state then Some (Inl (PyExc_ValueError ''No valid LZ4 stream context supplied''), ctx, mem)
     else if blen source > get_work_buffer_size ctx then Some (Inl (PyExc_OverflowError ''Input too large for LZ4 API''), ctx, mem)
     else do {
       page \<leftarrow> get_work_buffer ctx;
       mem \<leftarrow> (if apart (buf source) (blen source) page (blen source)
               then Some (write_mem mem page (content mem source)) else None);
       (output_size, ctx, mem) \<leftarrow> stream_compress_generic hc mem ctx page (to_int (blen source))
           (output_buf ctx + store_comp_size (config ctx)) (to_int (output_len ctx));
       if output_size \<le> 0 then Some (Inl (LZ4StreamError ''Compression failed''), ctx, mem)
       else case store_block_length output_size (store_comp_size (config ctx)) of
         None \<Rightarrow> Some (Inl (LZ4StreamError ''Compressed stream size too large''), ctx, mem)
       | Some bs \<Rightarrow>
           let mem = write_mem mem (output_buf ctx) bs; output_size = output_size + store_comp_size (config ctx) in
           (case result_object object_made ctx (read_mem mem (output_buf ctx) output_size) of
              Inl e \<Rightarrow> Some (Inl e, ctx, mem)
            | Inr dest \<Rightarrow> (case update_context_after_process ctx of
                Inl e \<Rightarrow> Some (Inl e, ctx, mem)
              | Inr ctx \<Rightarrow> Some (Inr dest, ctx, mem))) })"

section \<open>Splitting off a block, decompressing\<close>

definition get_block :: "bool \<Rightarrow> 'hc stream_context \<Rightarrow> memory \<Rightarrow> Py_buffer \<Rightarrow> exc + py_object" where
  "get_block object_made ctx mem source =
    (let scs = store_comp_size (config ctx) in
     if lz4_state ctx = No_state then Inl (PyExc_ValueError ''No valid LZ4 stream context supplied'')
     else if blen source > INT_MAX then Inl (PyExc_OverflowError ''Input too large for LZ4 API'')
     else if scs = 0 then Inl (LZ4StreamError ''LZ4 context is configured for storing block size out-of-band'')
     else if blen source < scs then Inl (LZ4StreamError ''Invalid source, too small for holding any block'')
     else let block_buf = buf source + scs; block_len = load_block_length scs mem (buf source) mod 2 ^ 32 in
     if blen source - scs < block_len then Inl (LZ4StreamError ''Requested input size larger than source size'')
     else result_object object_made ctx (read_mem mem block_buf block_len))"

definition stream_decompress ::
  "bool \<Rightarrow> bool \<Rightarrow> 'hc stream_context \<Rightarrow> memory \<Rightarrow> Py_buffer \<Rightarrow> ((exc + py_object) \<times> 'hc stream_context \<times> memory) option" where
  "stream_decompress fast object_made ctx mem source =
    (let scs = store_comp_size (config ctx);
         source_size_max = (if scs = 0 then GET_MAX_UINT32 4 else GET_MAX_UINT32 scs) in
     if lz4_state ctx = No_state then Some (Inl (PyExc_ValueError ''No valid LZ4 stream context supplied''), ctx, mem)
     else if blen source > source_size_max
       then Some (Inl (PyExc_OverflowError ''Source length too large for LZ4 store_comp_size value''), ctx, mem)
     else if get_input_bound (blen source) = 0 \<or> get_input_bound (blen source) > get_dest_buffer_size ctx
       then Some (Inl (LZ4StreamError ''Maximal decompressed data cannot fit in LZ4 internal buffer''), ctx, mem)
     else do {
       page \<leftarrow> get_work_buffer ctx;
       sd \<leftarrow> (case lz4_state ctx of Decode_state sd \<Rightarrow> Some sd | _ \<Rightarrow> None);
       (output_size, sd, mem) \<leftarrow> LZ4_decompress_safe_continue fast mem sd (buf source) page (to_int (blen source))
           (to_int (get_dest_buffer_size ctx));
       let ctx = ctx\<lparr>lz4_state := Decode_state sd\<rparr>;
       if output_size < 0 then Some (Inl (LZ4StreamError ''Decompression failed.''), ctx, mem)
       else if output_size > output_len ctx
         then Some (Inl (PyExc_OverflowError ''Decompressed stream too large for LZ4 API''), ctx, mem)
       else do {
         mem \<leftarrow> (if apart page output_size (output_buf ctx) output_size
                 then Some (write_mem mem (output_buf ctx) (read_mem mem page output_size)) else None);
         case update_context_after_process ctx of
           Inl e \<Rightarrow> Some (Inl e, ctx, mem)
         | Inr ctx' \<Rightarrow> Some (result_object object_made ctx (read_mem mem (output_buf ctx) output_size), ctx', mem) } })"

section \<open>Facts about lengths and bounds\<close>

lemma to_int_id: "0 \<le> x \<Longrightarrow> x \<le> INT_MAX \<Longrightarrow> to_int x = x"
  by (simp add: to_int_def)

lemma store_block_length_size: "store_block_length n scs = Some bs \<Longrightarrow> int (length bs) = scs"
  by (auto simp: store_block_length_def split: if_splits)

lemma store_block_length_fits:
  "scs \<in> {0, 1, 2, 4} \<Longrightarrow> n \<le> INT_MAX \<Longrightarrow> (scs \<noteq> 0 \<Longrightarrow> n \<le> GET_MAX_UINT32 scs) \<Longrightarrow> store_block_length n scs \<noteq> None"
  by (auto simp: store_block_length_def GET_MAX_UINT32_def)

lemma load_le16_store: "0 \<le> n \<Longrightarrow> n \<le> 65535 \<Longrightarrow> uint (load_le16 (store_le16 (of_int n) ! 0) (store_le16 (of_int n) ! 1)) = n"
proof -
  assume n: "0 \<le> n" "n \<le> 65535"
  let ?w = "of_int n :: u16"
  have u: "uint ?w = n" using n by (simp add: uint_word_of_int take_bit_eq_mod)
  have m: "(255 :: u16) = mask 8" by (simp add: mask_eq_exp_minus_1)
  have b: "uint (ucast (x AND 0xff) :: byte) = uint x mod 256" for x :: u16
    unfolding m by (simp add: unsigned_ucast_eq take_bit_eq_mod uint_mod flip: take_bit_eq_mask)
  have "uint (drop_bit 8 ?w) = n div 256" using u by (simp add: drop_bit_eq_div uint_div)
  then have "uint (ucast (?w AND 0xff) :: byte) = n mod 256" "uint (ucast (drop_bit 8 ?w AND 0xff) :: byte) = n div 256 mod 256"
    using u by (simp_all add: b)
  then show ?thesis using n by (simp add: uint_load_le16 store_le16_def)
qed

text \<open>The stored length is read back.\<close>

lemma load_stored_block_length:
  assumes st: "store_block_length n scs = Some bs" and n: "0 \<le> n" and s: "scs \<noteq> 0" and m: "read_mem mem a scs = bs"
  shows "load_block_length scs mem a = n"
proof -
  have s4: "scs = 1 \<or> scs = 2 \<or> scs = 4" using st s by (auto simp: store_block_length_def split: if_splits)
  have at: "mem (a + int k) = bs ! k" if "int k < scs" for k
    using nth_read_mem[of k scs mem a] m that by auto
  from s4 show ?thesis
  proof (elim disjE)
    assume "scs = 1"
    then show ?thesis using st n at[of 0]
      by (auto simp: store_block_length_def load_block_length_def uint_word_of_int take_bit_eq_mod split: if_splits)
  next
    assume 2: "scs = 2"
    then have "bs = store_le16 (of_int n)" "n \<le> 65535" using st by (auto simp: store_block_length_def split: if_splits)
    then show ?thesis using 2 at[of 0] at[of 1] load_le16_store[OF n] by (simp add: load_block_length_def)
  next
    assume 4: "scs = 4"
    then have bs: "bs = store_le32 (of_int n)" "n \<le> INT_MAX" using st by (auto simp: store_block_length_def split: if_splits)
    have "load_le32_at mem a = of_int n"
      using 4 bs(1) at[of 0] at[of 1] at[of 2] at[of 3] load_store_le32[of "of_int n"]
      by (simp add: load_le32_at_def store_le32_def)
    then show ?thesis using 4 n bs(2) uint_header[of n] to_int_id[of n] by (simp add: load_block_length_def)
  qed
qed

lemma compress_bound_eq': "0 \<le> n \<Longrightarrow> n \<le> LZ4_MAX_INPUT_SIZE \<Longrightarrow> get_compress_bound n = n + n div 255 + 16"
  by (simp add: get_compress_bound_def LZ4_compressBound_def)

lemma input_bound_eq:
  assumes "0 \<le> c" "c \<le> get_compress_bound LZ4_MAX_INPUT_SIZE"
  shows "get_input_bound c = (if c < 16 then 1 else (255 * c - 4080) div 256 + 1)"
proof -
  let ?c = "if c < 16 then 17 else c"
  have g: "get_compress_bound LZ4_MAX_INPUT_SIZE = 2122219150" by (simp add: compress_bound_eq')
  have c: "16 \<le> ?c" "?c \<le> 2122219150" using assms g by auto
  have e: "(?c * 2 ^ 8 - ?c - 4080) mod 2 ^ 64 = 255 * ?c - 4080" using c by simp
  have le: "(255 * ?c - 4080) div 256 \<le> LZ4_MAX_INPUT_SIZE" using c by simp
  have "get_input_bound c = ((255 * ?c - 4080) div 256 + 1) mod 2 ^ 32"
    unfolding get_input_bound_def Let_def e g using c le by simp
  also have "\<dots> = (255 * ?c - 4080) div 256 + 1" using c le by simp
  finally show ?thesis by (cases "c < 16") auto
qed

lemma input_bound_mono:
  "0 \<le> c \<Longrightarrow> c \<le> c' \<Longrightarrow> c' \<le> get_compress_bound LZ4_MAX_INPUT_SIZE \<Longrightarrow> get_input_bound c \<le> get_input_bound c'"
  by (auto simp: input_bound_eq intro!: zdiv_mono1)

lemma input_bound_pos: "0 \<le> c \<Longrightarrow> c \<le> get_compress_bound LZ4_MAX_INPUT_SIZE \<Longrightarrow> 0 < get_input_bound c"
  by (auto simp: input_bound_eq intro!: add_nonneg_pos)

lemma compress_bound_mono:
  "0 \<le> n \<Longrightarrow> n \<le> m \<Longrightarrow> m \<le> LZ4_MAX_INPUT_SIZE \<Longrightarrow> get_compress_bound n \<le> get_compress_bound m"
  using zdiv_mono1[of n m 255] by (simp add: compress_bound_eq')

lemma input_bound_inverts:
  assumes "0 \<le> n" "n \<le> LZ4_MAX_INPUT_SIZE"
  shows "n \<le> get_input_bound (get_compress_bound n)" "get_input_bound (get_compress_bound n) \<le> n + 1"
proof -
  let ?q = "n div 255" let ?r = "n mod 255"
  have n: "n = 255 * ?q + ?r" "0 \<le> ?r" "?r < 255" by simp_all
  have c: "get_compress_bound n = 256 * ?q + ?r + 16" using compress_bound_eq'[OF assms] n(1) by linarith
  have b: "get_compress_bound n \<le> get_compress_bound LZ4_MAX_INPUT_SIZE" using assms by (intro compress_bound_mono) auto
  have "0 \<le> ?q" using assms(1) by (simp add: pos_imp_zdiv_nonneg_iff)
  then have ge: "\<not> get_compress_bound n < 16" using c n(2) by linarith
  have "(255 * get_compress_bound n - 4080) = 256 * (255 * ?q) + 255 * ?r" using c by simp
  then have d: "(255 * get_compress_bound n - 4080) div 256 = 255 * ?q + (255 * ?r) div 256" by simp
  have g: "get_input_bound (get_compress_bound n) = 255 * ?q + (255 * ?r) div 256 + 1"
    using input_bound_eq[OF _ b] ge d by simp
  have "?r - 1 \<le> (255 * ?r) div 256" "(255 * ?r) div 256 \<le> ?r" using n(2,3) by linarith+
  then show "n \<le> get_input_bound (get_compress_bound n)" "get_input_bound (get_compress_bound n) \<le> n + 1"
    unfolding g using n(1) by linarith+
qed

section \<open>The invariant of a context\<close>

definition ctx_wf :: "'hc stream_context \<Rightarrow> bool" where
  "ctx_wf ctx \<longleftrightarrow> strategy ctx = DOUBLE_BUFFER \<and> store_comp_size (config ctx) \<in> {0, 1, 2, 4}
     \<and> pages (double_buf ctx) = [db_buf (double_buf ctx), db_buf (double_buf ctx) + page_size (double_buf ctx)]
     \<and> index (double_buf ctx) \<in> {0, 1} \<and> 0 \<le> page_size (double_buf ctx)
     \<and> (case direction (config ctx) of
          COMPRESS \<Rightarrow> page_size (double_buf ctx) \<le> LZ4_MAX_INPUT_SIZE
            \<and> output_len ctx = get_compress_bound (page_size (double_buf ctx))
            \<and> (store_comp_size (config ctx) \<noteq> 0 \<longrightarrow> output_len ctx \<le> GET_MAX_UINT32 (store_comp_size (config ctx)))
            \<and> (if cfg_comp (config ctx) = HIGH_COMPRESSION then \<exists>s. lz4_state ctx = HC_state s
               else \<exists>s. lz4_state ctx = Fast_state s \<and> cs_wf s \<and> dictCtx s = None)
        | DECOMPRESS \<Rightarrow> output_len ctx = page_size (double_buf ctx) \<and> (\<exists>s. lz4_state ctx = Decode_state s \<and> sd_wf s))"

text \<open>The page the next call works in.\<close>

definition work_page :: "'hc stream_context \<Rightarrow> int" where
  "work_page ctx = db_buf (double_buf ctx) + index (double_buf ctx) * page_size (double_buf ctx)"

lemma get_work_buffer_wf: "ctx_wf ctx \<Longrightarrow> get_work_buffer ctx = Some (work_page ctx)"
  by (auto simp: ctx_wf_def get_work_buffer_def double_buffer_get_compression_page_def work_page_def Let_def)

section \<open>One call of the compressor\<close>

text \<open>After a call the dictionary ends with the source; it is no more than the source unless the
  source continues the dictionary before it.\<close>

definition followed :: "cctx \<Rightarrow> cctx \<Rightarrow> int \<Rightarrow> int \<Rightarrow> bool" where
  "followed c c' source n \<longleftrightarrow> cs_wf c' \<and> dictCtx c' = None \<and> dictionary c' + cdictSize c' = source + n
     \<and> n \<le> cdictSize c' \<and> cdictSize c' \<le> cdictSize c + n
     \<and> (cdictSize c = 0 \<or> dictionary c + cdictSize c \<noteq> source \<longrightarrow> cdictSize c' = n)"

definition turned_to :: "cctx \<Rightarrow> int \<Rightarrow> int \<Rightarrow> bool" where
  "turned_to c source n \<longleftrightarrow> cs_wf c \<and> dictCtx c = None \<and> dictionary c = source \<and> cdictSize c = n"

lemma followed_turned:
  "followed c c' source n \<Longrightarrow> cdictSize c \<noteq> 0 \<longrightarrow> dictionary c + cdictSize c \<noteq> source \<Longrightarrow> turned_to c' source n"
  by (auto simp: followed_def turned_to_def)

lemma fast_continue_followed:
  assumes wf: "cs_wf c" "dictCtx c = None" and n: "0 \<le> n" "n \<le> LZ4_MAX_INPUT_SIZE" and s: "0 < source"
    and cl: "cs_clear c source n dest cap" and b: "LZ4_compressBound n \<le> cap"
  shows "\<exists>r c' mem'. LZ4_compress_fast_continue mem c source dest n cap accel = Some (r, c', mem')
    \<and> 0 < r \<and> r \<le> cap \<and> (\<forall>p. p < dest \<or> dest + cap \<le> p \<longrightarrow> mem' p = mem p)
    \<and> block_of (cs_history mem c source n) (read_mem mem' dest r) (read_mem mem source n) \<and> followed c c' source n"
proof -
  have n2: "n \<le> INT_MAX" using n(2) by simp
  obtain r c' mem' where r: "LZ4_compress_fast_continue mem c source dest n cap accel = Some (r, c', mem')"
    and p: "step_post mem c source n dest cap (r, c', mem')"
    using fast_continue_ok[OF wf(1) n(1) n2 s cl, of mem accel] by (auto simp: wp_iff)
  have q: "0 < r" "r \<le> max 0 cap" "cs_wf c'" "dictionary c' + cdictSize c' = source + n" "n \<le> cdictSize c'"
    "cdictSize c' \<le> snd (cs_dict c source n) + n"
    "cdictSize c' = n \<or> (dictionary c' = fst (cs_dict c source n) \<and> dictionary c' + snd (cs_dict c source n) = source)"
    using p n b by (auto simp: step_post_def)
  have w: "0 \<le> cdictSize c" using wf(1) by (simp add: cs_wf_def)
  have "followed c c' source n"
  proof (cases "snd (cs_dict c source n) = 0")
    case True
    then have "cdictSize c' = n" using q(5,6) by simp
    then show ?thesis using q(3,4) w fast_continue_dictCtx[OF r wf(2)] by (simp add: followed_def)
  next
    case False
    then have d: "snd (cs_dict c source n) \<le> cdictSize c"
      "fst (cs_dict c source n) + snd (cs_dict c source n) = dictionary c + cdictSize c" "cdictSize c \<noteq> 0"
      using cs_dict_inside[OF wf(1) n(1) n2 wf(2) s] by auto
    have "cdictSize c' \<le> cdictSize c + n" using q(6) d(1) by linarith
    moreover have "cdictSize c' = n" if "cdictSize c = 0 \<or> dictionary c + cdictSize c \<noteq> source"
      using q(7) d(2,3) that by auto
    ultimately show ?thesis using q(3-5) fast_continue_dictCtx[OF r wf(2)] by (simp add: followed_def)
  qed
  then show ?thesis using r p q(1,2) by (auto simp: step_post_def)
qed

abbreviation toggled :: "'hc stream_context \<Rightarrow> 'hc lz4_state_t \<Rightarrow> 'hc stream_context" where
  "toggled ctx s \<equiv> double_buffer_update_index (ctx\<lparr>lz4_state := s\<rparr>)"

lemma toggled_wf:
  assumes "ctx_wf ctx"
  shows "lz4_state ctx = Fast_state c \<Longrightarrow> cs_wf c' \<Longrightarrow> dictCtx c' = None \<Longrightarrow> ctx_wf (toggled ctx (Fast_state c'))"
    "lz4_state ctx = Decode_state sd \<Longrightarrow> sd_wf sd' \<Longrightarrow> ctx_wf (toggled ctx (Decode_state sd'))"
  using assms
  by (cases "direction (config ctx)"; auto simp: ctx_wf_def double_buffer_update_index_def split: if_splits)+

lemma toggled_simps [simp]:
  "config (toggled ctx s) = config ctx" "lz4_state (toggled ctx s) = s" "output_buf (toggled ctx s) = output_buf ctx"
  "output_len (toggled ctx s) = output_len ctx" "db_buf (double_buf (toggled ctx s)) = db_buf (double_buf ctx)"
  "page_size (double_buf (toggled ctx s)) = page_size (double_buf ctx)"
  by (simp_all add: double_buffer_update_index_def)

lemma page_cases:
  assumes "ctx_wf ctx"
  shows "work_page ctx = db_buf (double_buf ctx) \<and> work_page (toggled ctx s) = db_buf (double_buf ctx) + page_size (double_buf ctx)
    \<or> work_page ctx = db_buf (double_buf ctx) + page_size (double_buf ctx) \<and> work_page (toggled ctx s) = db_buf (double_buf ctx)"
  using assms by (auto simp: ctx_wf_def work_page_def double_buffer_update_index_def)

lemma toggled_index: "ctx_wf ctx \<Longrightarrow> index (double_buf (toggled ctx s)) \<noteq> index (double_buf ctx)"
  by (auto simp: ctx_wf_def double_buffer_update_index_def)

text \<open>Where the context's buffers may be: the page, the output buffer, the dictionary.\<close>

definition compress_room :: "'hc stream_context \<Rightarrow> cctx \<Rightarrow> Py_buffer \<Rightarrow> bool" where
  "compress_room ctx c source \<longleftrightarrow> (let out = output_buf ctx + store_comp_size (config ctx); page = work_page ctx; n = blen source in
     0 \<le> n \<and> n \<le> page_size (double_buf ctx) \<and> 0 < page \<and> apart (buf source) n page n \<and> apart page n out (output_len ctx)
     \<and> apart (dictionary c) (cdictSize c) out (output_len ctx))"

text \<open>Whatever its matches, a block is hardly longer than what it stands for.\<close>

lemma block_of_size:
  assumes "block_of h src out"
  shows "int (length src) \<le> int (length out) + int (length out) div 255 + 2"
proof -
  obtain ss l where b: "seqs_ok h ss" "src = enc_block ss 0 l" "h @ out = expand h ss @ l"
    using assms by (auto simp: block_of_def)
  have lo: "length out = expanded ss [] + length l"
    using arg_cong[OF b(3), of length] length_expand[of h ss "[]"] by simp
  have "length src = length (concat (map enc_seq ss)) + 1 + (length l + 240) div 255 + length l"
    using b(2) by (simp add: enc_block_def enc_last_length enc_len_size)
  moreover have "length (concat (map enc_seq ss)) \<le> expanded ss [] + expanded ss [] div 255" by (rule enc_size[OF b(1)])
  moreover have "(length l + 240) div 255 \<le> 1 + length l div 255" by linarith
  ultimately have "length src \<le> length out + length out div 255 + 2"
    using lo div255_super[of "expanded ss []" "length l"] by linarith
  then have "int (length src) \<le> int (length out + length out div 255 + 2)" by (simp only: of_nat_le_iff)
  then show ?thesis by (simp add: zdiv_int)
qed

lemma block_input_bound:
  assumes c: "0 \<le> c" "c \<le> n + n div 255 + 2" and n: "0 < n" "n \<le> LZ4_MAX_INPUT_SIZE"
  shows "0 < get_input_bound c" "get_input_bound c \<le> n"
proof -
  have "get_compress_bound n \<le> get_compress_bound LZ4_MAX_INPUT_SIZE" using n by (intro compress_bound_mono) auto
  then have b: "c \<le> get_compress_bound LZ4_MAX_INPUT_SIZE" using c(2) n compress_bound_eq'[of n] by simp
  show "0 < get_input_bound c" by (rule input_bound_pos[OF c(1) b])
  have "255 * c - 4080 \<le> 256 * n - 3570" using c(2) by linarith
  then have "(255 * c - 4080) div 256 \<le> n - 1" by linarith
  then show "get_input_bound c \<le> n" using n unfolding input_bound_eq[OF c(1) b] by auto
qed

lemma compress_step:
  fixes mem :: memory
  assumes wf: "ctx_wf ctx" and st: "lz4_state ctx = Fast_state c" and room: "compress_room ctx c source"
  defines "page \<equiv> work_page ctx" and "n \<equiv> blen source" and "scs \<equiv> store_comp_size (config ctx)" and "out \<equiv> output_buf ctx"
  defines "mem1 \<equiv> write_mem mem page (content mem source)"
  shows "\<exists>blk lb c' mem'. stream_compress hc made ctx mem source = Some (result_object made ctx (lb @ blk),
        (if made then toggled ctx (Fast_state c') else ctx\<lparr>lz4_state := Fast_state c'\<rparr>), mem')
    \<and> store_block_length (int (length blk)) scs = Some lb \<and> 0 < length blk \<and> int (length blk) \<le> n + n div 255 + 2
    \<and> block_of (cs_history mem1 c page n) blk (content mem source) \<and> followed c c' page n
    \<and> (\<forall>p. p < out \<or> out + scs + output_len ctx \<le> p \<longrightarrow> mem' p = mem1 p)"
proof -
  let ?P = "page_size (double_buf ctx)" let ?d = "out + scs" let ?cap = "output_len ctx"
  have dir: "direction (config ctx) = COMPRESS" "cfg_comp (config ctx) \<noteq> HIGH_COMPRESSION"
    using wf st by (auto simp: ctx_wf_def split: direction_e.splits if_splits)
  have w: "cs_wf c" "dictCtx c = None" "0 \<le> ?P" "?P \<le> LZ4_MAX_INPUT_SIZE" "?cap = get_compress_bound ?P"
    "scs \<in> {0, 1, 2, 4}" "scs \<noteq> 0 \<longrightarrow> ?cap \<le> GET_MAX_UINT32 scs" "strategy ctx = DOUBLE_BUFFER"
    using wf st dir by (auto simp: ctx_wf_def scs_def)
  have r: "0 \<le> n" "n \<le> ?P" "0 < page" "apart (buf source) n page n" "apart page n ?d ?cap"
    "apart (dictionary c) (cdictSize c) ?d ?cap"
    using room by (auto simp: compress_room_def Let_def page_def n_def scs_def out_def)
  have n: "n \<le> LZ4_MAX_INPUT_SIZE" "n \<le> INT_MAX" using r(2) w(4) by auto
  have "0 \<le> ?P div 255" "?P div 255 \<le> 8289918" using w(3,4) zdiv_mono1[of ?P LZ4_MAX_INPUT_SIZE 255] by (auto simp: pos_imp_zdiv_nonneg_iff)
  then have cap: "?cap \<le> INT_MAX" "LZ4_compressBound n \<le> ?cap" "0 \<le> ?cap"
    using w(3-5) compress_bound_eq'[of ?P] compress_bound_mono[OF r(1,2) w(4)] compress_bound_eq'[OF r(1) n(1)]
      compressBound_cases[OF r(1) n(2)] n by (auto simp: get_compress_bound_def)
  have cl: "cs_clear c page n ?d ?cap" by (rule cs_clear_inside[OF w(1) r(1) n(2) w(2) r(3,5,6)])
  let ?accel = "if cfg_comp (config ctx) \<noteq> FAST then 1 else cfg_acceleration (config ctx)"
  obtain k c' mem2 where k: "LZ4_compress_fast_continue mem1 c page ?d n ?cap ?accel = Some (k, c', mem2)"
    "0 < k" "k \<le> ?cap" "\<forall>p. p < ?d \<or> ?d + ?cap \<le> p \<longrightarrow> mem2 p = mem1 p"
    "block_of (cs_history mem1 c page n) (read_mem mem2 ?d k) (read_mem mem1 page n)" "followed c c' page n"
    using fast_continue_followed[OF w(1,2) r(1) n(1) r(3) cl cap(2), of mem1 ?accel] by blast
  have src: "read_mem mem1 page n = content mem source"
    using r(1) read_write_all[of mem page "content mem source"] by (simp add: mem1_def n_def)
  let ?blk = "read_mem mem2 ?d k"
  have blk: "int (length ?blk) = k" "0 < length ?blk" using k(2) by auto
  have "int (length ?blk) \<le> n + n div 255 + 2" using block_of_size[OF k(5)[unfolded src]] r(1) by (simp add: n_def)
  moreover have "k \<le> INT_MAX" "scs \<noteq> 0 \<longrightarrow> k \<le> GET_MAX_UINT32 scs" using k(3) cap(1) w(7) by auto
  then obtain lb where lb: "store_block_length k scs = Some lb" using store_block_length_fits[OF w(6)] by blast
  let ?mem3 = "write_mem mem2 out lb"
  have ll: "int (length lb) = scs" by (rule store_block_length_size[OF lb])
  have res: "read_mem ?mem3 out (k + scs) = lb @ ?blk"
    using read_mem_split[of scs k ?mem3 out] read_write_all[of mem2 out lb] read_write_apart[of ?d k out lb mem2] ll k(2)
    by (auto simp: apart_def add.commute)
  have gen: "stream_compress_generic hc mem1 ctx page n ?d ?cap = Some (k, ctx\<lparr>lz4_state := Fast_state c'\<rparr>, mem2)"
    using k(1) st by (simp add: stream_compress_generic_def)
  have upd: "update_context_after_process (ctx\<lparr>lz4_state := Fast_state c'\<rparr>) = Inr (toggled ctx (Fast_state c'))"
    using w(8) by (simp add: update_context_after_process_def)
  have made: "result_object made (ctx\<lparr>lz4_state := Fast_state c'\<rparr>) bs = result_object made ctx bs" for bs
    by (simp add: result_object_def)
  have run: "stream_compress hc made ctx mem source = Some (result_object made ctx (lb @ ?blk),
      (if made then toggled ctx (Fast_state c') else ctx\<lparr>lz4_state := Fast_state c'\<rparr>), ?mem3)"
  proof -
    have "\<not> blen source > get_work_buffer_size ctx" using r(2) w(8) by (simp add: get_work_buffer_size_def n_def)
    moreover have "to_int (blen source) = n" "to_int ?cap = ?cap"
      using to_int_id r(1) n(2) cap by (auto simp: n_def)
    moreover have "write_mem mem page (read_mem mem (buf source) n) = mem1" by (simp add: mem1_def n_def)
    ultimately show ?thesis
      using st k(2) gen get_work_buffer_wf[OF wf] r(4) lb res upd
      by (simp add: stream_compress_def page_def[symmetric] out_def[symmetric] scs_def[symmetric]
          n_def[symmetric] made) (simp add: result_object_def)
  qed
  have "\<forall>p. p < out \<or> out + scs + ?cap \<le> p \<longrightarrow> ?mem3 p = mem1 p"
    using k(4) ll cap(3) by (auto simp: write_mem_def)
  ultimately show ?thesis using lb blk k(5,6) src
    by (intro exI[of _ ?blk] exI[of _ lb] exI[of _ c'] exI[of _ ?mem3] conjI run) simp_all
qed

section \<open>One call of the decompressor\<close>

definition decompress_room :: "'hc stream_context \<Rightarrow> streamDecode \<Rightarrow> Py_buffer \<Rightarrow> bool" where
  "decompress_room ctx sd source \<longleftrightarrow> (let P = page_size (double_buf ctx); page = work_page ctx in
     P \<le> INT_MAX \<and> 0 \<le> blen source \<and> 0 < buf source \<and> buf source + blen source < 2 ^ 64 \<and> page + P < 2 ^ 64
     \<and> prefixSize (sd_turn sd page) \<le> page \<and> apart (buf source) (blen source) page P \<and> sd_clear sd page P
     \<and> apart page P (output_buf ctx) P)"

lemma decode_ctx:
  assumes "ctx_wf ctx" "lz4_state ctx = Decode_state sd"
  shows "sd_wf sd" "output_len ctx = page_size (double_buf ctx)" "get_dest_buffer_size ctx = page_size (double_buf ctx)"
    "0 \<le> page_size (double_buf ctx)" "sd_wf sd' \<Longrightarrow> ctx_wf (ctx\<lparr>lz4_state := Decode_state sd'\<rparr>)"
    "update_context_after_process (ctx\<lparr>lz4_state := Decode_state sd'\<rparr>) = Inr (toggled ctx (Decode_state sd'))"
  using assms
  by (auto simp: ctx_wf_def get_dest_buffer_size_def update_context_after_process_def split: direction_e.splits if_splits)

text \<open>The call once its arguments are accepted.\<close>

definition accepted :: "'hc stream_context \<Rightarrow> Py_buffer \<Rightarrow> bool" where
  "accepted ctx source \<longleftrightarrow>
     blen source \<le> (if store_comp_size (config ctx) = 0 then GET_MAX_UINT32 4 else GET_MAX_UINT32 (store_comp_size (config ctx)))
     \<and> get_input_bound (blen source) \<noteq> 0 \<and> get_input_bound (blen source) \<le> page_size (double_buf ctx)"

lemma accepted_length:
  assumes "accepted ctx source" "0 \<le> blen source"
  shows "blen source \<le> INT_MAX"
proof (rule ccontr)
  assume "\<not> ?thesis"
  moreover have "get_compress_bound LZ4_MAX_INPUT_SIZE = 2122219150" by (simp add: compress_bound_eq')
  ultimately have "get_input_bound (blen source) = 0" by (simp add: get_input_bound_def Let_def)
  then show False using assms(1) by (simp add: accepted_def)
qed

lemma decompress_result:
  assumes wf: "ctx_wf ctx" and st: "lz4_state ctx = Decode_state sd" and room: "decompress_room ctx sd source"
    and ok: "accepted ctx source"
    and r: "LZ4_decompress_safe_continue fast mem sd (buf source) (work_page ctx) (blen source) (page_size (double_buf ctx))
      = Some (n, sd', mem1)" and n: "n \<le> page_size (double_buf ctx)"
  shows "stream_decompress fast made ctx mem source =
    (if n < 0 then Some (Inl (LZ4StreamError ''Decompression failed.''), ctx\<lparr>lz4_state := Decode_state sd'\<rparr>, mem1)
     else Some (result_object made ctx (read_mem mem1 (work_page ctx) n), toggled ctx (Decode_state sd'),
        write_mem mem1 (output_buf ctx) (read_mem mem1 (work_page ctx) n)))"
proof -
  let ?P = "page_size (double_buf ctx)"
  note d = decode_ctx[OF wf st]
  have rm: "?P \<le> INT_MAX" "0 \<le> blen source" "apart (work_page ctx) ?P (output_buf ctx) ?P"
    using room by (auto simp: decompress_room_def Let_def)
  have "blen source \<le> INT_MAX" by (rule accepted_length[OF ok rm(2)])
  then have i: "to_int (blen source) = blen source" "to_int ?P = ?P" using to_int_id rm d(4) by auto
  have ap: "apart (work_page ctx) n (output_buf ctx) n" using rm(3) n by (auto simp: apart_def)
  have m: "result_object made (ctx\<lparr>lz4_state := Decode_state sd'\<rparr>) = result_object made ctx"
    by (simp add: result_object_def fun_eq_iff)
  have w: "read_mem (write_mem mem1 (output_buf ctx) (read_mem mem1 (work_page ctx) n)) (output_buf ctx) n
      = read_mem mem1 (work_page ctx) n" if "0 \<le> n"
    using read_write_all[of mem1 "output_buf ctx" "read_mem mem1 (work_page ctx) n"] that by simp
  show ?thesis
    using st ok n get_work_buffer_wf[OF wf] r d(2,3) d(6)[of sd'] ap w
    by (simp add: stream_decompress_def accepted_def i m Let_def)
qed

lemma stream_decompress_ok:
  assumes wf: "ctx_wf ctx" and st: "lz4_state ctx = Decode_state sd" and room: "decompress_room ctx sd source"
  defines "P \<equiv> page_size (double_buf ctx)" and "page \<equiv> work_page ctx"
  shows "wp (stream_decompress fast made ctx mem source) (\<lambda>(res, ctx', mem'). ctx_wf ctx'
    \<and> (\<forall>p. (p < page \<or> page + P \<le> p) \<and> (p < output_buf ctx \<or> output_buf ctx + P \<le> p) \<longrightarrow> mem' p = mem p)
    \<and> (\<forall>obj. res = Inr obj \<longrightarrow> decodes_to (sd_history mem (sd_turn sd page)) (content mem source) (payload obj)
         \<and> int (length (payload obj)) \<le> P))"
proof (cases "accepted ctx source")
  case False
  have "stream_decompress fast made ctx mem source = Some (Inl (PyExc_OverflowError ''Source length too large for LZ4 store_comp_size value''), ctx, mem)
    \<or> stream_decompress fast made ctx mem source = Some (Inl (LZ4StreamError ''Maximal decompressed data cannot fit in LZ4 internal buffer''), ctx, mem)"
    using False st decode_ctx(3)[OF wf st] by (auto simp: stream_decompress_def accepted_def Let_def)
  then show ?thesis using wf by (auto simp: wp_Some)
next
  case True
  note d = decode_ctx[OF wf st]
  have rm: "0 \<le> blen source" "apart (buf source) (blen source) page P" "sd_clear sd page P"
    using room by (auto simp: decompress_room_def Let_def P_def page_def)
  obtain n sd' mem1 where r: "LZ4_decompress_safe_continue fast mem sd (buf source) page (blen source) P = Some (n, sd', mem1)"
    and c: "sd_wf sd'" "\<forall>p. p < page \<or> page + P \<le> p \<longrightarrow> mem1 p = mem p" "n \<le> max 0 P"
      "0 \<le> n \<longrightarrow> decodes_to (sd_history mem (sd_turn sd page)) (content mem source) (read_mem mem1 page n)"
    using continue_ok[OF d(1) rm, of fast mem] by (auto simp: wp_iff)
  have n: "n \<le> P" using c(3) d(4) by (simp add: P_def)
  note run = decompress_result[OF wf st room True r[unfolded P_def page_def] n[unfolded P_def], of made]
  show ?thesis
  proof (cases "n < 0")
    case True
    then show ?thesis using run c(2) d(5)[OF c(1)] by (auto simp: wp_Some)
  next
    case False
    have "payload obj = read_mem mem1 page n" if "result_object made ctx (read_mem mem1 (work_page ctx) n) = Inr obj" for obj
      using that by (auto simp: result_object_def page_def split: if_splits)
    moreover have "ctx_wf (toggled ctx (Decode_state sd'))" by (rule toggled_wf(2)[OF wf st c(1)])
    ultimately show ?thesis using run False c(2,4) n by (auto simp: wp_Some write_mem_def P_def page_def)
  qed
qed

lemma decompress_step:
  assumes wf: "ctx_wf ctx" and st: "lz4_state ctx = Decode_state sd" and room: "decompress_room ctx sd source"
  defines "P \<equiv> page_size (double_buf ctx)" and "page \<equiv> work_page ctx"
  assumes blk: "block_of (sd_history mem (sd_turn sd page)) (content mem source) out"
    and n: "out \<noteq> []" "int (length out) \<le> P" "int (length out) \<le> LZ4_MAX_INPUT_SIZE"
    and scs: "store_comp_size (config ctx) \<noteq> 0 \<longrightarrow> blen source \<le> GET_MAX_UINT32 (store_comp_size (config ctx))"
  shows "\<exists>mem'. stream_decompress fast made ctx mem source = Some (result_object made ctx out,
      toggled ctx (Decode_state (sd_next sd page (int (length out)))), mem')
    \<and> read_mem mem' page (int (length out)) = out
    \<and> (\<forall>p. (p < page \<or> page + P \<le> p) \<and> (p < output_buf ctx \<or> output_buf ctx + P \<le> p) \<longrightarrow> mem' p = mem p)"
proof -
  let ?n = "int (length out)"
  note d = decode_ctx[OF wf st]
  have rm: "0 \<le> blen source" "apart (buf source) (blen source) page P" "sd_clear sd page P" "0 < buf source"
    "buf source + blen source < 2 ^ 64" "prefixSize (sd_turn sd page) \<le> page" "page + P < 2 ^ 64" "apart page P (output_buf ctx) P"
    using room by (auto simp: decompress_room_def Let_def P_def page_def)
  have sz: "blen source \<le> ?n + ?n div 255 + 2" using block_of_size[OF blk] rm(1) by simp
  have pos: "0 < ?n" using n(1) by simp
  note ib = block_input_bound[OF rm(1) sz pos n(3)]
  have "blen source \<le> GET_MAX_UINT32 4"
  proof -
    have "?n div 255 \<le> ?n" by simp
    then have "blen source \<le> 4294967295" using sz n(3) by linarith
    then show ?thesis by (simp add: GET_MAX_UINT32_def)
  qed
  then have ok: "accepted ctx source" using ib n(2) scs by (auto simp: accepted_def P_def)
  obtain sd' mem1 where r: "LZ4_decompress_safe_continue fast mem sd (buf source) page (blen source) P = Some (?n, sd', mem1)"
    and o: "read_mem mem1 page ?n = out"
    using continue_complete[OF d(1) rm(1-7) blk n(2)] by blast
  then have c: "\<forall>p. p < page \<or> page + P \<le> p \<longrightarrow> mem1 p = mem p" "sd' = sd_next sd page ?n"
    using continue_ok[OF d(1) rm(1-3), of fast mem] pos by (auto simp: wp_Some)
  have run: "stream_decompress fast made ctx mem source = Some (result_object made ctx out,
      toggled ctx (Decode_state (sd_next sd page ?n)), write_mem mem1 (output_buf ctx) out)"
    using decompress_result[OF wf st room ok r[unfolded P_def page_def] n(2)[unfolded P_def], of made] o c(2)
    by (simp add: page_def)
  have "apart page ?n (output_buf ctx) ?n" using rm(8) n(2) by (auto simp: apart_def)
  then have "read_mem (write_mem mem1 (output_buf ctx) out) page ?n = out" using o by (simp add: read_write_apart)
  moreover have "\<forall>p. (p < page \<or> page + P \<le> p) \<and> (p < output_buf ctx \<or> output_buf ctx + P \<le> p)
      \<longrightarrow> write_mem mem1 (output_buf ctx) out p = mem p"
    using c(1) n(2) by (auto simp: write_mem_def)
  ultimately show ?thesis using run by blast
qed

section \<open>A created context\<close>

text \<open>The state holds the end of the dictionary, or all of it.\<close>

definition holds_dict :: "'hc lz4_state_t \<Rightarrow> int \<Rightarrow> int \<Rightarrow> bool" where
  "holds_dict s di dn \<longleftrightarrow> (case s of
       Fast_state c \<Rightarrow> cs_wf c \<and> dictCtx c = None
         \<and> (cdictSize c = 0 \<or> (0 < cdictSize c \<and> cdictSize c \<le> dn \<and> dictionary c = di + dn - cdictSize c))
     | Decode_state sd \<Rightarrow> sd_wf sd \<and> extDictSize sd = 0 \<and> prefixSize sd = dn \<and> (dn \<noteq> 0 \<longrightarrow> prefixEnd sd = di + dn)
     | _ \<Rightarrow> False)"

lemma init_state_ok:
  assumes "state_ok env" "cty \<noteq> HIGH_COMPRESSION \<or> dir = DECOMPRESS" "0 \<le> blen (dictionary_arg args)"
  shows "\<exists>s. init_state hc env mem args dir cty = Some (Inr s)
    \<and> holds_dict s (buf (dictionary_arg args)) (blen (dictionary_arg args))
    \<and> (if dir = COMPRESS then \<exists>c. s = Fast_state c else \<exists>sd. s = Decode_state sd)"
proof (cases dir)
  case DECOMPRESS
  then show ?thesis using assms
    by (auto simp: init_state_def Let_def holds_dict_def LZ4_setStreamDecode_def sd_wf_def)
next
  case COMPRESS
  have cty: "cty \<noteq> HIGH_COMPRESSION" using COMPRESS assms(2) by auto
  let ?di = "dictionary_arg args"
  show ?thesis
  proof (cases "0 < blen ?di")
    case True
    obtain r c where "LZ4_loadDict mem (buf ?di) (blen ?di) = Some (r, c)" "cs_wf c" "dictCtx c = None" "r = cdictSize c"
      "r = (if blen ?di < 8 then 0 else min (blen ?di) 65536)" "r \<noteq> 0 \<longrightarrow> dictionary c = buf ?di + blen ?di - r"
      using loadDict_ok[of mem "buf ?di" "blen ?di"] by (auto simp: wp_iff)
    then show ?thesis using True COMPRESS cty assms(1)
      by (auto simp: init_state_def Let_def holds_dict_def split: if_splits)
  next
    case False
    have "reset_stream LZ4_initStream = LZ4_resetStream_fast LZ4_initStream" by (simp add: reset_stream_def LZ4_versionNumber_def)
    moreover have "cs_wf (LZ4_resetStream_fast LZ4_initStream)"
      by (rule resetStream_fast_wf(1)[OF initStream_wf]) (simp add: LZ4_initStream_def)
    moreover have "dictCtx (LZ4_resetStream_fast LZ4_initStream) = None" "cdictSize (LZ4_resetStream_fast LZ4_initStream) = 0"
      by (simp_all add: LZ4_resetStream_fast_def LZ4_prepareTable_def Let_def)
    ultimately show ?thesis using False COMPRESS cty assms(1) by (auto simp: init_state_def Let_def holds_dict_def)
  qed
qed

text \<open>The arguments \<open>_create_context\<close> accepts; the bytes it asks for the output buffer; whether a
  context can be made: the arguments are accepted and every allocation is granted.\<close>

definition args_ok :: "create_args \<Rightarrow> bool" where
  "args_ok args \<longleftrightarrow> blen (dictionary_arg args) \<le> INT_MAX \<and> store_comp_size_arg args \<in> {0, 1, 2, 4}
     \<and> strategy_name args = ''double_buffer'' \<and> direction_name args \<in> {''compress'', ''decompress''}
     \<and> mode args \<in> {''default'', ''fast'', ''high_compression''}
     \<and> (direction_name args = ''compress'' \<longrightarrow> buffer_size args \<le> LZ4_MAX_INPUT_SIZE
         \<and> (store_comp_size_arg args \<noteq> 0 \<longrightarrow> get_compress_bound (buffer_size args) \<le> GET_MAX_UINT32 (store_comp_size_arg args)))"

definition output_request :: "create_args \<Rightarrow> int" where
  "output_request args = (if direction_name args = ''compress''
     then (get_compress_bound (buffer_size args) + store_comp_size_arg args) mod 2 ^ 32 else buffer_size args)"

definition creatable :: "create_env \<Rightarrow> create_args \<Rightarrow> bool" where
  "creatable env args \<longleftrightarrow> args_ok args \<and> context_ok env \<and> malloc_pages env (buffer_size args * 2 mod 2 ^ 32) \<noteq> 0
     \<and> malloc_output env (output_request args) \<noteq> 0 \<and> state_ok env"

lemma compress_bound_zero: "0 \<le> n \<Longrightarrow> n < 2 ^ 32 \<Longrightarrow> get_compress_bound n = 0 \<longleftrightarrow> LZ4_MAX_INPUT_SIZE < n"
proof -
  assume n: "0 \<le> n" "n < 2 ^ 32"
  show ?thesis
  proof (cases "n \<le> LZ4_MAX_INPUT_SIZE")
    case True
    then have "0 < get_compress_bound n" using n(1) by (simp add: compress_bound_eq' add_nonneg_pos)
    then show ?thesis using True by simp
  qed (use n in \<open>simp add: get_compress_bound_def LZ4_compressBound_def\<close>)
qed

lemma compress_bound_max: "0 \<le> n \<Longrightarrow> n < 2 ^ 32 \<Longrightarrow> get_compress_bound n \<le> GET_MAX_UINT32 4"
  by (simp add: get_compress_bound_def GET_MAX_UINT32_def)

definition created :: "create_env \<Rightarrow> create_args \<Rightarrow> direction_e \<Rightarrow> 'hc stream_context \<Rightarrow> bool" where
  "created env args dir ctx \<longleftrightarrow> ctx_wf ctx \<and> direction (config ctx) = dir \<and> index (double_buf ctx) = 0
     \<and> page_size (double_buf ctx) = buffer_size args \<and> db_buf (double_buf ctx) = malloc_pages env (buffer_size args * 2 mod 2 ^ 32)
     \<and> db_buf (double_buf ctx) \<noteq> 0 \<and> output_buf ctx \<noteq> 0 \<and> store_comp_size (config ctx) = store_comp_size_arg args
     \<and> output_buf ctx = malloc_output env (if dir = COMPRESS then (output_len ctx + store_comp_size_arg args) mod 2 ^ 32 else output_len ctx)
     \<and> return_bytearray (config ctx) = return_bytearray_arg args
     \<and> holds_dict (lz4_state ctx) (buf (dictionary_arg args)) (blen (dictionary_arg args))"

lemma check_args_ok:
  "check_args env args = Inr (strat, dir, cty) \<longleftrightarrow> blen (dictionary_arg args) \<le> INT_MAX \<and> store_comp_size_arg args \<in> {0, 1, 2, 4}
     \<and> context_ok env \<and> parse_strategy (strategy_name args) = Some strat \<and> parse_direction (direction_name args) = Some dir
     \<and> parse_mode (mode args) = Some cty"
  by (auto simp: check_args_def split: option.splits)

lemma output_sizes_ok:
  assumes "0 \<le> buffer_size args" "buffer_size args < 2 ^ 32"
  shows "output_sizes args dir = Inr (len, tot) \<longleftrightarrow>
    (case dir of COMPRESS \<Rightarrow> buffer_size args \<le> LZ4_MAX_INPUT_SIZE \<and> len = get_compress_bound (buffer_size args)
       \<and> (store_comp_size_arg args \<noteq> 0 \<longrightarrow> len \<le> GET_MAX_UINT32 (store_comp_size_arg args))
       \<and> tot = (len + store_comp_size_arg args) mod 2 ^ 32
     | DECOMPRESS \<Rightarrow> len = buffer_size args \<and> tot = buffer_size args)"
  using compress_bound_zero[OF assms] compress_bound_max[OF assms]
  by (cases dir) (auto simp: output_sizes_def Let_def)

lemma create_context_ok:
  assumes b: "0 \<le> buffer_size args" "buffer_size args < 2 ^ 32" and d: "0 \<le> blen (dictionary_arg args)"
    and m: "mode args \<noteq> ''high_compression'' \<or> direction_name args \<noteq> ''compress''"
  shows "\<exists>res. create_context hc env mem args = Some res
    \<and> (case res of Inr ctx \<Rightarrow> creatable env args
           \<and> created env args (if direction_name args = ''compress'' then COMPRESS else DECOMPRESS) ctx
       | Inl e \<Rightarrow> \<not> creatable env args)"
proof (cases "check_args env args")
  case (Inl e)
  have "\<not> creatable env args"
    using Inl by (auto simp: creatable_def args_ok_def check_args_def parse_strategy_def parse_direction_def parse_mode_def split: if_splits)
  then show ?thesis using Inl by (auto simp: create_context_def)
next
  case (Inr p)
  obtain strat dir cty where p: "p = (strat, dir, cty)" by (cases p)
  then have c: "check_args env args = Inr (strat, dir, cty)" using Inr by simp
  note ca = c[unfolded check_args_ok]
  have dn: "dir = (if direction_name args = ''compress'' then COMPRESS else DECOMPRESS)"
    "direction_name args \<in> {''compress'', ''decompress''}"
    using ca by (auto simp: parse_direction_def split: if_splits)
  have cty: "cty \<noteq> HIGH_COMPRESSION \<or> dir = DECOMPRESS" "mode args \<in> {''default'', ''fast'', ''high_compression''}"
    using ca m dn by (auto simp: parse_mode_def split: if_splits)
  show ?thesis
  proof (cases "output_sizes args dir")
    case (Inl e)
    have "output_sizes args dir \<noteq> Inr (len, tot)" for len tot using Inl by simp
    then have "\<not> args_ok args" using output_sizes_ok[OF b, of dir] dn
      by (auto simp: args_ok_def split: if_splits direction_e.splits)
    then show ?thesis using Inl c by (auto simp: create_context_def creatable_def)
  next
    case (Inr q)
    then obtain len tot where q: "output_sizes args dir = Inr (len, tot)" by (cases q) auto
    note os = q[unfolded output_sizes_ok[OF b]]
    show ?thesis
    proof (cases strat)
      case RING_BUFFER
      then have "\<not> args_ok args" using ca by (auto simp: args_ok_def parse_strategy_def)
      then show ?thesis using c q RING_BUFFER by (auto simp: create_context_def creatable_def Let_def reserve_resources_def)
    next
      case DOUBLE_BUFFER
      have sn: "strategy_name args = ''double_buffer''" using ca DOUBLE_BUFFER by (auto simp: parse_strategy_def split: if_splits)
      have ok: "args_ok args" using ca dn cty sn os by (auto simp: args_ok_def split: if_splits)
      have tot: "tot = output_request args" using os dn by (auto simp: output_request_def split: if_splits)
      let ?p = "malloc_pages env (buffer_size args * 2 mod 2 ^ 32)"
      show ?thesis
      proof (cases "?p = 0 \<or> malloc_output env tot = 0 \<or> \<not> state_ok env")
        case True
        then show ?thesis using c q DOUBLE_BUFFER
          by (auto simp: create_context_def creatable_def tot[symmetric] Let_def reserve_resources_def
              double_buffer_reserve_resources_def init_state_def)
      next
        case False
        then obtain s where s: "init_state hc env mem args dir cty = Some (Inr s)"
          "holds_dict s (buf (dictionary_arg args)) (blen (dictionary_arg args))"
          "if dir = COMPRESS then \<exists>c. s = Fast_state c else \<exists>sd. s = Decode_state sd"
          using init_state_ok[OF _ cty(1) d, of env hc mem] by auto
        obtain ctx where ctx: "create_context hc env mem args = Some (Inr ctx)"
          "ctx = \<lparr>strategy = DOUBLE_BUFFER, double_buf = \<lparr>db_buf = ?p, page_size = buffer_size args,
             pages = [?p, ?p + buffer_size args], index = 0\<rparr>,
             output_buf = malloc_output env tot, output_len = len, lz4_state = s,
             config = \<lparr>cfg_acceleration = acceleration_arg args, compression_level = compression_level_arg args,
               store_comp_size = store_comp_size_arg args, return_bytearray = return_bytearray_arg args,
               direction = dir, cfg_comp = cty\<rparr>\<rparr>"
          using False c q DOUBLE_BUFFER s(1)
          by (auto simp: create_context_def Let_def reserve_resources_def double_buffer_reserve_resources_def)
        have "created env args dir ctx"
          using s(2,3) ca os cty(1) b False
          by (cases dir) (auto simp: ctx(2) created_def ctx_wf_def holds_dict_def)
        moreover have "creatable env args" using ok ca False tot by (simp add: creatable_def)
        ultimately show ?thesis using ctx(1) dn(1) by auto
      qed
    qed
  qed
qed

lemma create_context_created:
  assumes "create_context hc env mem args = Some (Inr ctx)"
    and b: "0 \<le> buffer_size args" "buffer_size args < 2 ^ 32" "0 \<le> blen (dictionary_arg args)"
    and m: "mode args \<noteq> ''high_compression'' \<or> direction_name args \<noteq> ''compress''"
  shows "created env args (if direction_name args = ''compress'' then COMPRESS else DECOMPRESS) ctx"
    "parse_mode (mode args) = Some (cfg_comp (config ctx))" "store_comp_size (config ctx) = store_comp_size_arg args"
proof -
  show c: "created env args (if direction_name args = ''compress'' then COMPRESS else DECOMPRESS) ctx"
    using create_context_ok[OF b m, of hc env mem] assms(1) by auto
  then show "store_comp_size (config ctx) = store_comp_size_arg args" by (simp add: created_def)
  show "parse_mode (mode args) = Some (cfg_comp (config ctx))" using assms(1)
    by (auto simp: create_context_def check_args_ok Let_def reserve_resources_def double_buffer_reserve_resources_def
        split: sum.splits prod.splits if_splits buffer_strategy_e.splits Option.bind_splits)
qed

section \<open>The life of a compressor\<close>

text \<open>At creation the pages and the dictionary do not overlap the output buffer.\<close>

definition encoder_layout :: "create_args \<Rightarrow> 'hc stream_context \<Rightarrow> bool" where
  "encoder_layout args ctx \<longleftrightarrow> (let b = db_buf (double_buf ctx); out = output_buf ctx;
       cap = output_len ctx + store_comp_size (config ctx) in
     0 < b \<and> apart b (2 * page_size (double_buf ctx)) out cap
     \<and> apart (buf (dictionary_arg args)) (blen (dictionary_arg args)) out cap)"

text \<open>The contexts of a compressor in mode \<open>default\<close> or \<open>fast\<close>: created, then called any number of
  times, with chunks of any length, a full page or nothing at all included, and whatever came of it.\<close>

inductive encoding :: "'hc hc_api \<Rightarrow> 'hc stream_context \<Rightarrow> bool" for hc where
  encoder_created: "create_context hc env mem args = Some (Inr ctx) \<Longrightarrow> 0 \<le> buffer_size args \<Longrightarrow> buffer_size args < 2 ^ 32
    \<Longrightarrow> 0 \<le> blen (dictionary_arg args) \<Longrightarrow> direction_name args = ''compress'' \<Longrightarrow> mode args \<noteq> ''high_compression''
    \<Longrightarrow> encoder_layout args ctx \<Longrightarrow> encoding hc ctx"
| compressed: "encoding hc ctx \<Longrightarrow> 0 \<le> blen source \<Longrightarrow> stream_compress hc made ctx mem source = Some (res, ctx', mem')
    \<Longrightarrow> encoding hc ctx'"

definition encoder_ready :: "'hc stream_context \<Rightarrow> cctx \<Rightarrow> bool" where
  "encoder_ready ctx c \<longleftrightarrow> (let b = db_buf (double_buf ctx); out = output_buf ctx; cap = output_len ctx + store_comp_size (config ctx) in
     ctx_wf ctx \<and> lz4_state ctx = Fast_state c \<and> 0 < b \<and> apart b (2 * page_size (double_buf ctx)) out cap
     \<and> apart (dictionary c) (cdictSize c) out cap)"

lemma encoder_room:
  assumes r: "encoder_ready ctx c" and n: "0 \<le> blen source" "blen source \<le> page_size (double_buf ctx)"
    and s: "apart (buf source) (blen source) (work_page ctx) (blen source)"
  shows "compress_room ctx c source"
proof -
  have wf: "ctx_wf ctx" using r by (simp add: encoder_ready_def Let_def)
  then have "0 \<le> store_comp_size (config ctx)" "0 \<le> page_size (double_buf ctx)" by (auto simp: ctx_wf_def)
  then show ?thesis using r n s page_cases[OF wf, of No_state]
    by (auto simp: encoder_ready_def compress_room_def Let_def apart_def)
qed

lemma encoder_start:
  assumes c: "created env args COMPRESS ctx" and hc: "cfg_comp (config ctx) \<noteq> HIGH_COMPRESSION" and l: "encoder_layout args ctx"
  shows "\<exists>c. encoder_ready ctx c"
proof -
  obtain cc where "lz4_state ctx = Fast_state cc" "cdictSize cc = 0 \<or> (0 < cdictSize cc \<and> cdictSize cc \<le> blen (dictionary_arg args)
      \<and> dictionary cc = buf (dictionary_arg args) + blen (dictionary_arg args) - cdictSize cc)" "ctx_wf ctx"
    using c hc by (auto simp: created_def ctx_wf_def holds_dict_def split: lz4_state_t.splits)
  then show ?thesis using l by (auto simp: encoder_layout_def encoder_ready_def Let_def apart_def)
qed

text \<open>The dictionary of the next call is made of the pages and of the dictionary before.\<close>

lemma encoder_next:
  assumes r: "encoder_ready ctx c" and f: "followed c c' (work_page ctx) n" and n: "0 \<le> n" "n \<le> page_size (double_buf ctx)"
  shows "encoder_ready (toggled ctx (Fast_state c')) c'" "encoder_ready (ctx\<lparr>lz4_state := Fast_state c'\<rparr>) c'"
proof -
  let ?out = "output_buf ctx" let ?cap = "output_len ctx + store_comp_size (config ctx)"
  have wf: "ctx_wf ctx" and st: "lz4_state ctx = Fast_state c" using r by (auto simp: encoder_ready_def Let_def)
  have w: "cs_wf c'" "dictCtx c' = None" using f by (auto simp: followed_def)
  have dir: "direction (config ctx) = COMPRESS" using wf st by (auto simp: ctx_wf_def split: direction_e.splits)
  have "0 \<le> page_size (double_buf ctx)" "page_size (double_buf ctx) \<le> LZ4_MAX_INPUT_SIZE"
    "output_len ctx = get_compress_bound (page_size (double_buf ctx))" "0 \<le> store_comp_size (config ctx)"
    using wf dir by (auto simp: ctx_wf_def)
  then have cap: "0 < ?cap" by (simp add: compress_bound_eq' add_pos_nonneg add_nonneg_pos)
  have "apart (dictionary c') (cdictSize c') ?out ?cap"
    using r f n cap page_cases[OF wf, of No_state] by (auto simp: encoder_ready_def followed_def Let_def apart_def)
  moreover have "ctx_wf (ctx\<lparr>lz4_state := Fast_state c'\<rparr>)" using wf st w by (auto simp: ctx_wf_def split: direction_e.splits if_splits)
  ultimately show "encoder_ready (toggled ctx (Fast_state c')) c'" "encoder_ready (ctx\<lparr>lz4_state := Fast_state c'\<rparr>) c'"
    using r toggled_wf(1)[OF wf st w] by (auto simp: encoder_ready_def Let_def)
qed

lemma encoding_ready: "encoding hc ctx \<Longrightarrow> \<exists>c. encoder_ready ctx c"
proof (induction rule: encoding.induct)
  case (encoder_created env mem args ctx)
  have "created env args COMPRESS ctx" "cfg_comp (config ctx) \<noteq> HIGH_COMPRESSION"
    using create_context_created[OF encoder_created(1-4)] encoder_created(5,6) by (auto simp: parse_mode_def split: if_splits)
  then show ?case using encoder_start encoder_created(7) by blast
next
  case (compressed ctx source made mem res ctx' mem')
  then obtain c where r: "encoder_ready ctx c" by blast
  then have wf: "ctx_wf ctx" and st: "lz4_state ctx = Fast_state c" by (auto simp: encoder_ready_def Let_def)
  show ?case
  proof (cases "blen source > page_size (double_buf ctx)")
    case True
    then have "ctx' = ctx" using compressed(3) st wf by (auto simp: stream_compress_def get_work_buffer_size_def ctx_wf_def)
    then show ?thesis using r by blast
  next
    case False
    then have n: "blen source \<le> page_size (double_buf ctx)" by simp
    have "apart (buf source) (blen source) (work_page ctx) (blen source)"
      using compressed(3) st wf n get_work_buffer_wf[OF wf]
      by (auto simp: stream_compress_def get_work_buffer_size_def split: if_splits buffer_strategy_e.splits) (auto simp: ctx_wf_def)
    from compress_step[OF wf st encoder_room[OF r compressed(2) n this], of hc made mem]
    obtain c' where "ctx' = (if made then toggled ctx (Fast_state c') else ctx\<lparr>lz4_state := Fast_state c'\<rparr>)"
      "followed c c' (work_page ctx) (blen source)" using compressed(3) by auto
    then show ?thesis using encoder_next[OF r _ compressed(2) n] by (cases made) auto
  qed
qed

section \<open>The life of a decompressor\<close>

text \<open>At creation the pages do not overlap the output buffer or the dictionary.\<close>

definition decoder_layout :: "create_args \<Rightarrow> 'hc stream_context \<Rightarrow> bool" where
  "decoder_layout args ctx \<longleftrightarrow> (let b = db_buf (double_buf ctx); P = page_size (double_buf ctx);
       di = buf (dictionary_arg args); dn = blen (dictionary_arg args) in
     0 < b \<and> b + 2 * P < 2 ^ 64 \<and> apart b (2 * P) (output_buf ctx) P \<and> apart di dn b (2 * P) \<and> (dn \<noteq> 0 \<longrightarrow> di + dn \<noteq> b))"

definition source_clear :: "'hc stream_context \<Rightarrow> Py_buffer \<Rightarrow> bool" where
  "source_clear ctx source \<longleftrightarrow> 0 < buf source \<and> 0 \<le> blen source \<and> buf source + blen source < 2 ^ 64
     \<and> apart (buf source) (blen source) (db_buf (double_buf ctx)) (2 * page_size (double_buf ctx))"

text \<open>The contexts of a decompressor: created, then called any number of times with arbitrary bytes,
  as long as no block was empty or filled its page: after such a block the page used next is not free
  of the history. (A call that fails without switching pages may be repeated.)\<close>

inductive decoding :: "bool \<Rightarrow> 'hc stream_context \<Rightarrow> bool" for fast where
  decoder_created: "create_context hc env mem args = Some (Inr ctx) \<Longrightarrow> 0 \<le> buffer_size args \<Longrightarrow> buffer_size args \<le> INT_MAX
    \<Longrightarrow> 0 \<le> blen (dictionary_arg args) \<Longrightarrow> direction_name args = ''decompress'' \<Longrightarrow> decoder_layout args ctx \<Longrightarrow> decoding fast ctx"
| decompressed: "decoding fast ctx \<Longrightarrow> source_clear ctx source \<Longrightarrow> stream_decompress fast made ctx mem source = Some (res, ctx', mem')
    \<Longrightarrow> made \<or> index (double_buf ctx') = index (double_buf ctx)
    \<Longrightarrow> (\<forall>obj. res = Inr obj \<longrightarrow> payload obj \<noteq> [] \<and> int (length (payload obj)) < page_size (double_buf ctx))
    \<Longrightarrow> decoding fast ctx'"

definition decoder_ready :: "'hc stream_context \<Rightarrow> streamDecode \<Rightarrow> bool" where
  "decoder_ready ctx sd \<longleftrightarrow> (let b = db_buf (double_buf ctx); P = page_size (double_buf ctx) in
     ctx_wf ctx \<and> lz4_state ctx = Decode_state sd \<and> P \<le> INT_MAX \<and> 0 < b \<and> b + 2 * P < 2 ^ 64 \<and> apart b (2 * P) (output_buf ctx) P
     \<and> (prefixSize sd = 0 \<or> prefixEnd sd \<noteq> work_page ctx \<and> apart (prefixEnd sd - prefixSize sd) (prefixSize sd) (work_page ctx) P))"

lemma decoder_room:
  assumes r: "decoder_ready ctx sd" and s: "source_clear ctx source"
  shows "decompress_room ctx sd source" "prefixSize (sd_turn sd (work_page ctx)) = 0"
    "sd_history mem (sd_turn sd (work_page ctx)) = read_mem mem (prefixEnd sd - prefixSize sd) (prefixSize sd)"
proof -
  have wf: "ctx_wf ctx" and st: "lz4_state ctx = Decode_state sd" using r by (auto simp: decoder_ready_def Let_def)
  have sd: "sd_wf sd" by (rule decode_ctx(1)[OF wf st])
  have P: "0 \<le> page_size (double_buf ctx)" by (rule decode_ctx(4)[OF wf st])
  have far: "prefixSize sd = 0 \<or> prefixEnd sd \<noteq> work_page ctx \<and> apart (prefixEnd sd - prefixSize sd) (prefixSize sd) (work_page ctx) (page_size (double_buf ctx))"
    using r by (simp add: decoder_ready_def Let_def)
  show t: "prefixSize (sd_turn sd (work_page ctx)) = 0" using far by (auto simp: sd_turn_def)
  show "sd_history mem (sd_turn sd (work_page ctx)) = read_mem mem (prefixEnd sd - prefixSize sd) (prefixSize sd)"
    using far sd by (auto simp: sd_turn_def sd_history_def read_mem_def sd_wf_def)
  have "sd_clear sd (work_page ctx) (page_size (double_buf ctx))"
    using far sd by (auto simp: sd_clear_def sd_turn_def sd_wf_def apart_def)
  then show "decompress_room ctx sd source" unfolding decompress_room_def Let_def t
    using r s P page_cases[OF wf, of No_state] by (auto simp: decoder_ready_def source_clear_def Let_def apart_def)
qed

lemma decoder_start:
  assumes c: "created env args DECOMPRESS ctx" and l: "decoder_layout args ctx" and b: "buffer_size args \<le> INT_MAX"
  shows "\<exists>sd. decoder_ready ctx sd"
proof -
  let ?di = "buf (dictionary_arg args)" let ?dn = "blen (dictionary_arg args)"
  obtain sd where st: "lz4_state ctx = Decode_state sd" "prefixSize sd = ?dn" "?dn \<noteq> 0 \<longrightarrow> prefixEnd sd = ?di + ?dn" "ctx_wf ctx"
    using c by (auto simp: created_def ctx_wf_def holds_dict_def split: lz4_state_t.splits)
  moreover have "work_page ctx = db_buf (double_buf ctx)" "page_size (double_buf ctx) = buffer_size args"
    using c by (auto simp: created_def work_page_def)
  moreover have "0 \<le> page_size (double_buf ctx)" using st(4) by (auto simp: ctx_wf_def)
  ultimately show ?thesis using l b
    by (intro exI[of _ sd]) (auto simp: decoder_layout_def decoder_ready_def Let_def apart_def)
qed

lemma continue_stays:
  "LZ4_decompress_safe_continue fast mem sd source dest csize cap = Some (n, sd', mem') \<Longrightarrow> n \<le> 0
    \<Longrightarrow> prefixSize sd' = prefixSize sd \<and> prefixEnd sd' = prefixEnd sd"
  by (auto simp: LZ4_decompress_safe_continue_def Let_def split: Option.bind_splits if_splits)

lemma decoder_next:
  assumes r: "decoder_ready ctx sd" and s: "source_clear ctx source"
    and run: "stream_decompress fast made ctx mem source = Some (res, ctx', mem')"
    and m: "made \<or> index (double_buf ctx') = index (double_buf ctx)"
    and ob: "\<forall>obj. res = Inr obj \<longrightarrow> payload obj \<noteq> [] \<and> int (length (payload obj)) < page_size (double_buf ctx)"
  shows "\<exists>sd'. decoder_ready ctx' sd'"
proof (cases "accepted ctx source")
  case False
  have wf: "ctx_wf ctx" and st: "lz4_state ctx = Decode_state sd" using r by (auto simp: decoder_ready_def Let_def)
  have "ctx' = ctx" using run False st decode_ctx(3)[OF wf st]
    by (auto simp: stream_decompress_def accepted_def Let_def split: if_splits)
  then show ?thesis using r by blast
next
  case True
  let ?P = "page_size (double_buf ctx)" let ?page = "work_page ctx"
  have wf: "ctx_wf ctx" and st: "lz4_state ctx = Decode_state sd" using r by (auto simp: decoder_ready_def Let_def)
  note d = decode_ctx[OF wf st] and room = decoder_room(1,2)[OF r s]
  have rm: "0 \<le> blen source" "apart (buf source) (blen source) ?page ?P" "sd_clear sd ?page ?P"
    using room by (auto simp: decompress_room_def Let_def)
  obtain n sd' mem1 where k: "LZ4_decompress_safe_continue fast mem sd (buf source) ?page (blen source) ?P = Some (n, sd', mem1)"
    and c: "sd_wf sd'" "n \<le> max 0 ?P" "0 < n \<longrightarrow> sd' = sd_next sd ?page n"
    using continue_ok[OF d(1) rm, of fast mem] by (auto simp: wp_iff)
  have n: "n \<le> ?P" using c(2) d(4) by simp
  note q = decompress_result[OF wf st room(1) True k n, of made]
  show ?thesis
  proof (cases "n < 0")
    case True
    then have e: "ctx' = ctx\<lparr>lz4_state := Decode_state sd'\<rparr>" using q run by simp
    have "decoder_ready ctx' sd'" unfolding e using r d(5)[OF c(1)] continue_stays[OF k] True
      by (auto simp: decoder_ready_def Let_def work_page_def)
    then show ?thesis by blast
  next
    case False
    then have e: "ctx' = toggled ctx (Decode_state sd')" "res = result_object made ctx (read_mem mem1 ?page n)"
      using q run by auto
    have mk: made using m toggled_index[OF wf] e(1) by auto
    obtain obj where obj: "res = Inr obj" "payload obj = read_mem mem1 ?page n" using e(2) mk by (auto simp: result_object_def)
    then have n0: "0 < n" "n < ?P" using ob False by (auto simp: read_mem_def)
    have nx: "prefixEnd sd' = ?page + n" "prefixSize sd' = n" using c(3) n0(1) room(2) by (auto simp: sd_next_def)
    have "ctx_wf ctx'" unfolding e(1) by (rule toggled_wf(2)[OF wf st c(1)])
    then have "decoder_ready ctx' sd'" using r n0 page_cases[OF wf, of "Decode_state sd'"] unfolding e(1)
      by (auto simp: decoder_ready_def Let_def nx apart_def)
    then show ?thesis by blast
  qed
qed

lemma decoding_ready: "decoding fast ctx \<Longrightarrow> \<exists>sd. decoder_ready ctx sd"
proof (induction rule: decoding.induct)
  case (decoder_created hc env mem args ctx)
  have b: "buffer_size args < 2 ^ 32" using decoder_created(3) by simp
  have m: "mode args \<noteq> ''high_compression'' \<or> direction_name args \<noteq> ''compress''" using decoder_created(5) by simp
  have "created env args DECOMPRESS ctx"
    using create_context_created(1)[OF decoder_created(1,2) b decoder_created(4) m] decoder_created(5) by simp
  then show ?case by (rule decoder_start[OF _ decoder_created(6,3)])
next
  case (decompressed ctx source made mem res ctx' mem')
  then show ?case using decoder_next by blast
qed

section \<open>Splitting off a block\<close>

lemma get_block_ok:
  assumes st: "lz4_state ctx \<noteq> No_state" and lb: "store_block_length (int (length blk)) (store_comp_size (config ctx)) = Some lb"
    and scs: "store_comp_size (config ctx) \<noteq> 0" and src: "content mem source = lb @ blk @ rest"
    and n: "0 \<le> blen source" "blen source \<le> INT_MAX"
  shows "get_block made ctx mem source = result_object made ctx blk"
proof -
  let ?scs = "store_comp_size (config ctx)"
  have l: "int (length lb) = ?scs" by (rule store_block_length_size[OF lb])
  have len: "blen source = ?scs + int (length blk) + int (length rest)"
    using arg_cong[OF src, of length] n(1) l by simp
  have "content mem source = read_mem mem (buf source) ?scs @ read_mem mem (buf source + ?scs) (int (length blk))
      @ read_mem mem (buf source + ?scs + int (length blk)) (int (length rest))"
    using read_mem_split[of ?scs "int (length blk) + int (length rest)" mem "buf source"]
      read_mem_split[of "int (length blk)" "int (length rest)" mem "buf source + ?scs"] len l by (simp add: add.assoc)
  then have r: "read_mem mem (buf source) ?scs = lb" "read_mem mem (buf source + ?scs) (int (length blk)) = blk"
    using src l by (auto simp: append_eq_append_conv)
  have k: "load_block_length ?scs mem (buf source) = int (length blk)"
    by (rule load_stored_block_length[OF lb _ scs r(1)]) simp
  have "int (length blk) mod 2 ^ 32 = int (length blk)" using len n(2) l by (intro mod_pos_pos_trivial) auto
  then show ?thesis using st scs n len l r(2) by (simp add: get_block_def Let_def k)
qed

section \<open>Properties\<close>

definition demo_hc_api :: "unit hc_api" where
  "demo_hc_api = \<lparr>hc_create = (\<lambda>_. ()), hc_loadDict = (\<lambda>_ _ _ _. None), hc_continue = (\<lambda>_ _ _ _ _ _. None)\<rparr>"

definition demo_env :: create_env where
  "demo_env = \<lparr>context_ok = True, malloc_pages = (\<lambda>_. 8192), malloc_output = (\<lambda>_. 16384), state_ok = True\<rparr>"

definition demo_args :: "string \<Rightarrow> create_args" where
  "demo_args dir = \<lparr>strategy_name = ''double_buffer'', direction_name = dir, buffer_size = 64, mode = ''default'',
     acceleration_arg = 1, compression_level_arg = 9, return_bytearray_arg = False, store_comp_size_arg = 2,
     dictionary_arg = no_dict\<rparr>"

lemma demo_args_simps [simp]:
  "strategy_name (demo_args d) = ''double_buffer''" "direction_name (demo_args d) = d" "buffer_size (demo_args d) = 64"
  "mode (demo_args d) = ''default''" "store_comp_size_arg (demo_args d) = 2" "dictionary_arg (demo_args d) = no_dict"
  "blen no_dict = 0"
  by (simp_all add: demo_args_def no_dict_def)

lemma demo_env_simps [simp]:
  "context_ok demo_env" "malloc_pages demo_env k = 8192" "malloc_output demo_env k = 16384" "state_ok demo_env"
  by (simp_all add: demo_env_def)

lemma outcome_Inr:
  assumes "\<exists>res. f = Some res \<and> (case res of Inr x \<Rightarrow> P x | Inl e \<Rightarrow> Q e)" "\<And>e. \<not> Q e"
  shows "\<exists>x. f = Some (Inr x) \<and> P x"
proof -
  obtain res where "f = Some res" "case res of Inr x \<Rightarrow> P x | Inl e \<Rightarrow> Q e" using assms(1) by auto
  then show ?thesis using assms(2) by (cases res) auto
qed

lemma outcome_Inl:
  assumes "\<exists>res. f = Some res \<and> (case res of Inr x \<Rightarrow> P x | Inl e \<Rightarrow> Q e)" "\<And>x. \<not> P x"
  shows "\<exists>e. f = Some (Inl e) \<and> Q e"
proof -
  obtain res where "f = Some res" "case res of Inr x \<Rightarrow> P x | Inl e \<Rightarrow> Q e" using assms(1) by auto
  then show ?thesis using assms(2) by (cases res) auto
qed

lemma demo_args_ok: "args_ok (demo_args d) \<longleftrightarrow> d = ''compress'' \<or> d = ''decompress''"
  using compress_bound_eq'[of 64] by (auto simp: args_ok_def GET_MAX_UINT32_def)

lemma demo_created:
  assumes "d \<in> {''compress'', ''decompress''}"
  shows "\<exists>ctx. create_context demo_hc_api demo_env mem (demo_args d) = Some (Inr ctx)
    \<and> created demo_env (demo_args d) (if d = ''compress'' then COMPRESS else DECOMPRESS) ctx"
proof -
  have "creatable demo_env (demo_args d)" using assms by (auto simp: creatable_def demo_args_ok)
  then show ?thesis using outcome_Inr[OF create_context_ok[of "demo_args d" demo_hc_api demo_env mem]] by auto
qed




text \<open>The usage of the documentation: chunks as long as the page, one after the other.\<close>

definition demo_page :: Py_buffer where "demo_page = \<lparr>buf = 4096, blen = 64\<rparr>"


text \<open>C30. \<open>_decompress\<close> of arbitrary bytes, on a context that was created and then called any number of times on arbitrary bytes
  such that no block was empty or filled its page: the call has no undefined behaviour, keeps the
  context well-formed whatever it answers, writes only to its page and its output buffer, and an object
  it returns is the expansion of the block after the block decoded last (or the dictionary) and fits
  the page. The bytes of this call may do anything, fill the page included; after a block that fills
  its page or is empty the next call is not claimed (the page it writes is still the history).\<close>

theorem stream_decompress_safe:
  fixes ctx :: "'hc stream_context"
  assumes "decoding fast ctx" "source_clear ctx source"
  shows "\<exists>sd res ctx' mem'. lz4_state ctx = Decode_state sd
    \<and> stream_decompress fast made ctx mem source = Some (res, ctx', mem') \<and> ctx_wf ctx'
    \<and> (\<forall>p. (p < work_page ctx \<or> work_page ctx + page_size (double_buf ctx) \<le> p)
        \<and> (p < output_buf ctx \<or> output_buf ctx + page_size (double_buf ctx) \<le> p) \<longrightarrow> mem' p = mem p)
    \<and> (\<forall>obj. res = Inr obj \<longrightarrow> decodes_to (read_mem mem (prefixEnd sd - prefixSize sd) (prefixSize sd)) (content mem source) (payload obj)
         \<and> int (length (payload obj)) \<le> page_size (double_buf ctx))"
proof -
  obtain sd where rd: "decoder_ready ctx sd" using decoding_ready[OF assms(1)] by blast
  then have "ctx_wf ctx" and st: "lz4_state ctx = Decode_state sd" by (auto simp: decoder_ready_def Let_def)
  from stream_decompress_ok[OF this decoder_room(1)[OF rd assms(2)], of fast made mem] st show ?thesis
    unfolding decoder_room(3)[OF rd assms(2)] wp_iff by fastforce
qed

lemma stream_decompress_safe_witness:
  "\<exists>ctx res ctx' mem'. create_context demo_hc_api demo_env (\<lambda>_. 255) (demo_args ''decompress'') = Some (Inr ctx)
     \<and> stream_decompress True True ctx (\<lambda>_. 255) demo_buffer = Some (res, ctx', mem') \<and> ctx_wf ctx'"
proof -
  obtain ctx where ctx: "create_context demo_hc_api demo_env (\<lambda>_. 255) (demo_args ''decompress'') = Some (Inr ctx)"
    and cr: "created demo_env (demo_args ''decompress'') DECOMPRESS ctx"
    using demo_created[of "''decompress''" "\<lambda>_. 255"] by auto
  have pg: "page_size (double_buf ctx) = 64" "output_buf ctx = 16384" "db_buf (double_buf ctx) = 8192"
    using cr by (auto simp: created_def)
  have "decoder_layout (demo_args ''decompress'') ctx" by (simp add: decoder_layout_def Let_def pg apart_def no_dict_def)
  then have e: "decoding True ctx" by (intro decoder_created[OF ctx]) simp_all
  have "source_clear ctx demo_buffer" by (simp add: source_clear_def pg demo_buffer_def apart_def)
  from stream_decompress_safe[OF e this, of True "\<lambda>_. 255"] show ?thesis using ctx by blast
qed

text \<open>C31. \<open>get_input_bound\<close> inverts \<open>get_compress_bound\<close> up to one byte, on the safe side.\<close>

theorem get_input_bound_inverts:
  assumes "0 \<le> n" "n \<le> LZ4_MAX_INPUT_SIZE"
  shows "n \<le> get_input_bound (get_compress_bound n) \<and> get_input_bound (get_compress_bound n) \<le> n + 1"
  using input_bound_inverts[OF assms] by simp

lemma get_input_bound_inverts_witness:
  "510 \<le> get_input_bound (get_compress_bound 510) \<and> get_input_bound (get_compress_bound 510) \<le> 511"
  using get_input_bound_inverts[of 510] by simp

text \<open>C32. \<open>_get_block\<close> splits off the first block of a byte stream: if the source begins with the stored
  length of a block and the block, the object returned holds exactly the block.\<close>

theorem get_block_splits:
  assumes "lz4_state ctx \<noteq> No_state" "store_comp_size (config ctx) \<noteq> 0" "0 \<le> blen source" "blen source \<le> INT_MAX"
    and "store_block_length (int (length blk)) (store_comp_size (config ctx)) = Some lb"
    and "content mem source = lb @ blk @ rest"
  shows "get_block made ctx mem source = result_object made ctx blk"
  by (rule get_block_ok[OF assms(1,5,2,6,3,4)])

lemma get_block_splits_witness:
  "\<exists>ctx. create_context demo_hc_api demo_env (\<lambda>_. 0) (demo_args ''decompress'') = Some (Inr ctx)
     \<and> get_block True ctx (write_mem (\<lambda>_. 0) 4096 [3, 0, 7, 8, 9, 1, 0, 5]) \<lparr>buf = 4096, blen = 8\<rparr> = Inr (PyBytes [7, 8, 9])"
proof -
  obtain ctx where ctx: "create_context demo_hc_api demo_env (\<lambda>_. 0) (demo_args ''decompress'') = Some (Inr ctx)"
    and cr: "created demo_env (demo_args ''decompress'') DECOMPRESS ctx"
    using demo_created[of "''decompress''" "\<lambda>_. 0"] by auto
  have s: "lz4_state ctx \<noteq> No_state" "store_comp_size (config ctx) = 2" "\<not> return_bytearray (config ctx)"
    using cr by (auto simp: created_def holds_dict_def demo_args_def)
  have c: "content (write_mem (\<lambda>_. 0) 4096 [3, 0, 7, 8, 9, 1, 0, 5]) \<lparr>buf = 4096, blen = 8\<rparr> = [3, 0] @ [7, 8, 9] @ [1, 0, 5 :: byte]"
    using read_write_all[of "\<lambda>_. 0" 4096 "[3, 0, 7, 8, 9, 1, 0, 5]"] by simp
  have l: "store_block_length (int (length [7, 8, 9 :: byte])) (store_comp_size (config ctx)) = Some [3, 0]"
    using s(2) by (simp add: store_block_length_def store_le16_def)
  have "get_block True ctx (write_mem (\<lambda>_. 0) 4096 [3, 0, 7, 8, 9, 1, 0, 5]) \<lparr>buf = 4096, blen = 8\<rparr> = result_object True ctx [7, 8, 9]"
    by (rule get_block_splits[OF s(1) _ _ _ l c]) (use s(2) in simp_all)
  then show ?thesis using ctx s(3) by (auto simp: result_object_def)
qed

end
