(* ===== verification/Stream_Session.thy ===== *)
theory Stream_Session
  imports Stream_Binding
begin

text \<open>
  A whole session of \<open>lz4.stream\<close>: one context compresses chunks, another one decompresses the
  blocks in the same order. The interface is the locale \<open>stream_channel\<close>: one chunk is delivered
  and both ends stay in step. \<open>_stream.c\<close> provides it as long as no chunk fills a page.
\<close>

section \<open>The interface\<close>

fun transmit :: "('s \<Rightarrow> 'a \<Rightarrow> ('b \<times> 's) option) \<Rightarrow> ('r \<Rightarrow> 'b \<Rightarrow> ('a \<times> 'r) option)
    \<Rightarrow> 's \<Rightarrow> 'r \<Rightarrow> 'a list \<Rightarrow> ('a list \<times> 's \<times> 'r) option" where
  "transmit send recv s r [] = Some ([], s, r)"
| "transmit send recv s r (x # xs) = do {
     (b, s') \<leftarrow> send s x;
     (y, r') \<leftarrow> recv r b;
     (ys, s'', r'') \<leftarrow> transmit send recv s' r' xs;
     Some (y # ys, s'', r'') }"

locale stream_channel =
  fixes send :: "'s \<Rightarrow> 'a \<Rightarrow> ('b \<times> 's) option" and recv :: "'r \<Rightarrow> 'b \<Rightarrow> ('a \<times> 'r) option"
    and in_step :: "'s \<Rightarrow> 'r \<Rightarrow> bool" and chunk_ok :: "'a \<Rightarrow> bool"
  assumes delivers: "in_step s r \<Longrightarrow> chunk_ok x \<Longrightarrow>
    \<exists>b s' r'. send s x = Some (b, s') \<and> recv r b = Some (x, r') \<and> in_step s' r'"
begin

lemma session: "in_step s r \<Longrightarrow> list_all chunk_ok xs \<Longrightarrow> \<exists>s' r'. transmit send recv s r xs = Some (xs, s', r') \<and> in_step s' r'"
proof (induction xs arbitrary: s r)
  case (Cons x xs)
  have x: "chunk_ok x" using Cons.prems(2) by simp
  obtain b s' r' where 1: "send s x = Some (b, s')" "recv r b = Some (x, r')" "in_step s' r'"
    using delivers[OF Cons.prems(1) x] by blast
  from Cons.IH[OF 1(3)] Cons.prems(2) show ?case using 1 by fastforce
qed simp

end

section \<open>The two ends\<close>

text \<open>\<open>compress\<close> of a chunk at \<open>ua\<close>; \<open>get_block\<close> (when lengths are stored) and \<open>decompress\<close> of the bytes at \<open>ub\<close>.\<close>

definition send_one :: "'hc hc_api \<Rightarrow> int \<Rightarrow> 'hc stream_context \<times> memory \<Rightarrow> bytes \<Rightarrow> (bytes \<times> 'hc stream_context \<times> memory) option" where
  "send_one hc ua s xs = do {
     (res, s') \<leftarrow> stream_compress hc True (fst s) (write_mem (snd s) ua xs) \<lparr>buf = ua, blen = int (length xs)\<rparr>;
     (case res of Inl e \<Rightarrow> None | Inr obj \<Rightarrow> Some (payload obj, s')) }"

definition recv_one :: "bool \<Rightarrow> int \<Rightarrow> 'hc stream_context \<times> memory \<Rightarrow> bytes \<Rightarrow> (bytes \<times> 'hc stream_context \<times> memory) option" where
  "recv_one fast ub r bs = do {
     blk \<leftarrow> (if store_comp_size (config (fst r)) = 0 then Some bs
       else case get_block True (fst r) (write_mem (snd r) ub bs) \<lparr>buf = ub, blen = int (length bs)\<rparr> of
         Inl e \<Rightarrow> None | Inr obj \<Rightarrow> Some (payload obj));
     (res, r') \<leftarrow> stream_decompress fast True (fst r) (write_mem (snd r) ub blk) \<lparr>buf = ub, blen = int (length blk)\<rparr>;
     (case res of Inl e \<Rightarrow> None | Inr obj \<Rightarrow> Some (payload obj, r')) }"

text \<open>The bytes either end can still refer to.\<close>

definition sent_bytes :: "'hc stream_context \<Rightarrow> memory \<Rightarrow> bytes" where
  "sent_bytes ctx mem = (case lz4_state ctx of Fast_state c \<Rightarrow> read_mem mem (dictionary c) (cdictSize c) | _ \<Rightarrow> [])"

definition got_bytes :: "'hc stream_context \<Rightarrow> memory \<Rightarrow> bytes" where
  "got_bytes ctx mem = (case lz4_state ctx of
     Decode_state sd \<Rightarrow> read_mem mem (prefixEnd sd - prefixSize sd) (prefixSize sd) | _ \<Rightarrow> [])"

text \<open>The places of the buffers: \<open>ua\<close> has room for a page, \<open>ub\<close> for a block and its length.\<close>

definition block_room :: "int \<Rightarrow> int" where
  "block_room P = get_compress_bound P + 4"

definition sender_ready :: "int \<Rightarrow> int \<Rightarrow> 'hc stream_context \<Rightarrow> bool" where
  "sender_ready ua P ctx \<longleftrightarrow> (let b = db_buf (double_buf ctx); out = output_buf ctx; cap = output_len ctx + store_comp_size (config ctx) in
     ctx_wf ctx \<and> page_size (double_buf ctx) = P \<and> 0 < b \<and> apart ua P b (2 * P) \<and> apart b (2 * P) out cap
     \<and> (\<exists>c. lz4_state ctx = Fast_state c \<and> apart (dictionary c) (cdictSize c) ua P
          \<and> apart (dictionary c) (cdictSize c) (work_page ctx) P \<and> apart (dictionary c) (cdictSize c) out cap
          \<and> (cdictSize c \<noteq> 0 \<longrightarrow> dictionary c + cdictSize c \<noteq> work_page ctx)))"

definition receiver_ready :: "int \<Rightarrow> int \<Rightarrow> 'hc stream_context \<Rightarrow> bool" where
  "receiver_ready ub P ctx \<longleftrightarrow> (let b = db_buf (double_buf ctx); Q = page_size (double_buf ctx); out = output_buf ctx in
     ctx_wf ctx \<and> P \<le> Q \<and> Q \<le> INT_MAX \<and> 0 < b \<and> b + 2 * Q < 2 ^ 64 \<and> 0 < ub \<and> ub + block_room P < 2 ^ 64
     \<and> apart ub (block_room P) b (2 * Q) \<and> apart b (2 * Q) out Q
     \<and> (\<exists>sd. lz4_state ctx = Decode_state sd \<and> (prefixSize sd = 0 \<or> prefixEnd sd \<noteq> work_page ctx)
          \<and> apart (prefixEnd sd - prefixSize sd) (prefixSize sd) ub (block_room P)
          \<and> apart (prefixEnd sd - prefixSize sd) (prefixSize sd) (work_page ctx) Q))"

definition in_step :: "int \<Rightarrow> int \<Rightarrow> int \<Rightarrow> 'hc stream_context \<times> memory \<Rightarrow> 'hc stream_context \<times> memory \<Rightarrow> bool" where
  "in_step ua ub P s r \<longleftrightarrow> sender_ready ua P (fst s) \<and> receiver_ready ub P (fst r)
     \<and> store_comp_size (config (fst s)) = store_comp_size (config (fst r))
     \<and> suffix (sent_bytes (fst s) (snd s)) (got_bytes (fst r) (snd r))"

definition chunk_ok :: "int \<Rightarrow> bytes \<Rightarrow> bool" where
  "chunk_ok P xs \<longleftrightarrow> xs \<noteq> [] \<and> int (length xs) < P"

section \<open>One step of each end\<close>

lemma stored_fits: "store_block_length n scs = Some lb \<Longrightarrow> scs \<noteq> 0 \<longrightarrow> n \<le> GET_MAX_UINT32 scs"
  by (auto simp: store_block_length_def GET_MAX_UINT32_def split: if_splits)

lemma payload_result: "result_object True ctx bs = Inr obj \<Longrightarrow> payload obj = bs"
  by (auto simp: result_object_def)

lemma result_made: "\<exists>obj. result_object True ctx bs = Inr obj \<and> payload obj = bs"
  by (simp add: result_object_def)

lemma send_step:
  assumes rdy: "sender_ready ua P ctx" and xs: "chunk_ok P xs"
  shows "\<exists>lb blk h ctx' mem'. send_one hc ua (ctx, mem) xs = Some (lb @ blk, ctx', mem')
    \<and> store_block_length (int (length blk)) (store_comp_size (config ctx)) = Some lb \<and> 0 < length blk
    \<and> int (length blk) \<le> P + P div 255 + 2 \<and> suffix h (sent_bytes ctx mem) \<and> block_of h blk xs
    \<and> sent_bytes ctx' mem' = xs \<and> sender_ready ua P ctx' \<and> config ctx' = config ctx"
proof -
  let ?n = "int (length xs)" let ?b = "db_buf (double_buf ctx)" let ?out = "output_buf ctx"
  let ?cap = "output_len ctx + store_comp_size (config ctx)"
  obtain c where wf: "ctx_wf ctx" and P: "page_size (double_buf ctx) = P" and b: "0 < ?b" "apart ua P ?b (2 * P)" "apart ?b (2 * P) ?out ?cap"
    and st: "lz4_state ctx = Fast_state c"
    and d: "apart (dictionary c) (cdictSize c) ua P" "apart (dictionary c) (cdictSize c) (work_page ctx) P"
      "apart (dictionary c) (cdictSize c) ?out ?cap" "cdictSize c \<noteq> 0 \<longrightarrow> dictionary c + cdictSize c \<noteq> work_page ctx"
    using rdy by (auto simp: sender_ready_def Let_def)
  have n: "0 < ?n" "?n < P" using xs by (auto simp: chunk_ok_def)
  have w: "0 \<le> store_comp_size (config ctx)" "0 \<le> output_len ctx" "cs_wf c" "dictCtx c = None" "P \<le> LZ4_MAX_INPUT_SIZE"
    using wf st P by (auto simp: ctx_wf_def get_compress_bound_def split: direction_e.splits if_splits)
  define page where "page = work_page ctx"
  have pg: "page = ?b \<and> work_page (toggled ctx s) = ?b + P \<or> page = ?b + P \<and> work_page (toggled ctx s) = ?b" for s
    using page_cases[OF wf, of s] P by (simp add: page_def)
  let ?m0 = "write_mem mem ua xs" let ?src = "\<lparr>buf = ua, blen = ?n\<rparr>" let ?m1 = "write_mem ?m0 page xs"
  have c0: "content ?m0 ?src = xs" using read_write_all[of mem ua xs] by simp
  have pp: "?b \<le> page" "page + P \<le> ?b + 2 * P" using pg[of No_state] n by auto
  have sub: "apart page ?n (?out + store_comp_size (config ctx)) (output_len ctx)" "apart ua ?n page ?n"
    "apart (dictionary c) (cdictSize c) (?out + store_comp_size (config ctx)) (output_len ctx)"
    using pp b(2,3) d(3) n w(1,2) by (auto simp: apart_def)
  have room: "compress_room ctx c ?src"
    using sub n b(1) P pp(1) by (simp add: compress_room_def Let_def page_def)
  obtain blk lb c' mem' where r: "stream_compress hc True ctx ?m0 ?src = Some (result_object True ctx (lb @ blk), toggled ctx (Fast_state c'), mem')"
    and o: "store_block_length (int (length blk)) (store_comp_size (config ctx)) = Some lb" "0 < length blk"
      "int (length blk) \<le> ?n + ?n div 255 + 2" "block_of (cs_history ?m1 c page ?n) blk xs" "followed c c' page ?n"
      "\<forall>p. p < ?out \<or> ?out + store_comp_size (config ctx) + output_len ctx \<le> p \<longrightarrow> mem' p = ?m1 p"
    using compress_step[OF wf st room, of hc True ?m0] unfolding c0 page_def by auto
  have tt: "turned_to c' page ?n" by (rule followed_turned[OF o(5)]) (use d(4) page_def in simp)
  then have ct: "cs_wf c'" "dictCtx c' = None" by (simp_all add: turned_to_def)
  have "read_mem ?m1 (dictionary c) (cdictSize c) = read_mem mem (dictionary c) (cdictSize c)"
    using d(1,2) n by (intro read_mem_cong) (auto simp: write_mem_def apart_def page_def)
  then have h: "suffix (cs_history ?m1 c page ?n) (sent_bytes ctx mem)"
    using cs_history_suffix[OF w(3) _ _ w(4), of ?n page ?m1] n w(5) b(1) pp(1) st by (auto simp: sent_bytes_def)
  have "read_mem mem' page ?n = xs"
  proof -
    have "read_mem mem' page ?n = read_mem ?m1 page ?n"
      using o(6) b(3) n pp w(1,2) by (intro read_mem_cong) (auto simp: apart_def)
    then show ?thesis using read_write_all[of ?m0 page xs] by simp
  qed
  then have new: "sent_bytes (toggled ctx (Fast_state c')) mem' = xs" using tt by (simp add: sent_bytes_def turned_to_def)
  have "ctx_wf (toggled ctx (Fast_state c'))" by (rule toggled_wf(1)[OF wf st ct])
  then have "sender_ready ua P (toggled ctx (Fast_state c'))"
    using b P tt n pg[of "Fast_state c'"] by (auto simp: sender_ready_def Let_def turned_to_def apart_def)
  moreover have "?n div 255 \<le> P div 255" using n by (intro zdiv_mono1) auto
  ultimately show ?thesis using r o h new n
    by (intro exI[of _ lb] exI[of _ blk] exI[of _ "cs_history ?m1 c page ?n"] exI[of _ "toggled ctx (Fast_state c')"] exI[of _ mem'] conjI)
      (auto simp: send_one_def result_object_def)
qed


lemma recv_step:
  assumes rdy: "receiver_ready ub P ctx" and xs: "chunk_ok P xs" and max: "P \<le> LZ4_MAX_INPUT_SIZE"
    and lb: "store_block_length (int (length blk)) (store_comp_size (config ctx)) = Some lb"
    and sz: "int (length blk) \<le> P + P div 255 + 2" and blk: "block_of (got_bytes ctx mem) blk xs"
  shows "\<exists>ctx' mem'. recv_one fast ub (ctx, mem) (lb @ blk) = Some (xs, ctx', mem')
    \<and> got_bytes ctx' mem' = xs \<and> receiver_ready ub P ctx' \<and> config ctx' = config ctx"
proof -
  let ?n = "int (length xs)" let ?b = "db_buf (double_buf ctx)" let ?out = "output_buf ctx" let ?Q = "page_size (double_buf ctx)"
  let ?scs = "store_comp_size (config ctx)"
  obtain sd where wf: "ctx_wf ctx" and q: "P \<le> ?Q" "?Q \<le> INT_MAX" "0 < ?b" "?b + 2 * ?Q < 2 ^ 64" "0 < ub" "ub + block_room P < 2 ^ 64"
      "apart ub (block_room P) ?b (2 * ?Q)" "apart ?b (2 * ?Q) ?out ?Q"
    and st: "lz4_state ctx = Decode_state sd" and far: "prefixSize sd = 0 \<or> prefixEnd sd \<noteq> work_page ctx"
    and d: "apart (prefixEnd sd - prefixSize sd) (prefixSize sd) ub (block_room P)"
      "apart (prefixEnd sd - prefixSize sd) (prefixSize sd) (work_page ctx) ?Q"
    using rdy by (auto simp: receiver_ready_def Let_def)
  have n: "0 < ?n" "?n < P" using xs by (auto simp: chunk_ok_def)
  define page where "page = work_page ctx"
  have pg: "page = ?b \<and> work_page (toggled ctx s) = ?b + ?Q \<or> page = ?b + ?Q \<and> work_page (toggled ctx s) = ?b" for s
    using page_cases[OF wf, of s] by (simp add: page_def)
  have sd: "sd_wf sd" "0 \<le> prefixSize sd" "prefixSize sd = 0 \<Longrightarrow> extDictSize sd = 0"
    using decode_ctx(1)[OF wf st] by (auto simp: sd_wf_def)
  have br: "int (length blk) \<le> block_room P" "?scs + int (length blk) \<le> block_room P" "block_room P \<le> INT_MAX" "0 < block_room P"
  proof -
    have "0 \<le> P div 255" using n by (simp add: pos_imp_zdiv_nonneg_iff)
    moreover have "P div 255 \<le> 8289918" using zdiv_mono1[OF max, of 255] by simp
    moreover have "?scs \<le> 4" using wf by (auto simp: ctx_wf_def)
    moreover have "block_room P = P + P div 255 + 20" using n max compress_bound_eq'[of P] by (simp add: block_room_def)
    ultimately show "int (length blk) \<le> block_room P" "?scs + int (length blk) \<le> block_room P" "block_room P \<le> INT_MAX" "0 < block_room P"
      using sz max n by simp_all
  qed
  let ?m0 = "write_mem mem ub blk" let ?src = "\<lparr>buf = ub, blen = int (length blk)\<rparr>"
  have c0: "content ?m0 ?src = blk" using read_write_all[of mem ub blk] by simp
  have got: "(if ?scs = 0 then Some (lb @ blk)
       else case get_block True ctx (write_mem mem ub (lb @ blk)) \<lparr>buf = ub, blen = int (length (lb @ blk))\<rparr> of
         Inl e \<Rightarrow> None | Inr obj \<Rightarrow> Some (payload obj)) = Some blk"
  proof (cases "?scs = 0")
    case True
    then show ?thesis using lb by (simp add: store_block_length_def)
  next
    case False
    let ?s = "\<lparr>buf = ub, blen = int (length (lb @ blk))\<rparr>"
    have "content (write_mem mem ub (lb @ blk)) ?s = lb @ blk @ []" using read_write_all[of mem ub "lb @ blk"] by simp
    moreover have "blen ?s \<le> INT_MAX" using br store_block_length_size[OF lb] by simp
    ultimately have "get_block True ctx (write_mem mem ub (lb @ blk)) ?s = result_object True ctx blk"
      using st by (intro get_block_ok[OF _ lb False]) auto
    then show ?thesis using False by (simp add: result_object_def)
  qed
  have t: "sd_history ?m0 (sd_turn sd page) = got_bytes ctx mem" "sd_clear sd page ?Q" "prefixSize (sd_turn sd page) = 0"
  proof -
    have "read_mem ?m0 (prefixEnd sd - prefixSize sd) (prefixSize sd) = got_bytes ctx mem"
      using d(1) br(1) st by (auto simp: got_bytes_def apart_def write_mem_def intro!: read_mem_cong)
    then show "sd_history ?m0 (sd_turn sd page) = got_bytes ctx mem"
      using far sd by (auto simp: sd_turn_def sd_history_def read_mem_def page_def)
    show "sd_clear sd page ?Q" using far d(2) sd by (auto simp: sd_clear_def sd_turn_def page_def apart_def)
    show "prefixSize (sd_turn sd page) = 0" using far by (auto simp: sd_turn_def page_def)
  qed
  have room: "decompress_room ctx sd ?src"
    unfolding decompress_room_def Let_def page_def[symmetric] t(3)
    using q pg[of No_state] br t(2) n by (auto simp: apart_def)
  have ne: "xs \<noteq> []" using n by auto
  have scs: "?scs \<noteq> 0 \<longrightarrow> blen ?src \<le> GET_MAX_UINT32 ?scs" using stored_fits[OF lb] by simp
  have le: "?n \<le> ?Q" "?n \<le> LZ4_MAX_INPUT_SIZE" using n q(1) max by auto
  have hist: "block_of (sd_history ?m0 (sd_turn sd (work_page ctx))) (content ?m0 ?src) xs"
    using blk t(1) c0 by (simp add: page_def)
  let ?c = "toggled ctx (Decode_state (sd_next sd page ?n))"
  obtain mem' where r: "stream_decompress fast True ctx ?m0 ?src = Some (result_object True ctx xs, ?c, mem')"
    and o: "read_mem mem' page ?n = xs"
    using decompress_step[OF wf st room hist ne le scs, of fast True] unfolding page_def by blast
  have nx: "prefixEnd (sd_next sd page ?n) = page + ?n" "prefixSize (sd_next sd page ?n) = ?n"
    using t(3) by (simp_all add: sd_next_def)
  have nw: "sd_wf (sd_next sd page ?n)" by (rule sd_next_wf[OF sd(1) n(1)])
  have "ctx_wf ?c" by (rule toggled_wf(2)[OF wf st nw])
  then have "receiver_ready ub P ?c"
    using q pg[of "Decode_state (sd_next sd page ?n)"] n br(3) by (auto simp: receiver_ready_def Let_def nx apart_def)
  moreover have "got_bytes ?c mem' = xs" using o by (simp add: got_bytes_def nx)
  moreover have "recv_one fast ub (ctx, mem) (lb @ blk) = Some (xs, ?c, mem')"
    unfolding recv_one_def fst_conv snd_conv got using r by (auto simp: result_object_def)
  ultimately show ?thesis by (intro exI[of _ ?c] exI[of _ mem'] conjI) simp_all
qed

lemma deliver_one:
  assumes s: "in_step ua ub P s r" and xs: "chunk_ok P xs"
  shows "\<exists>b s' r'. send_one hc ua s xs = Some (b, s') \<and> recv_one fast ub r b = Some (xs, r') \<and> in_step ua ub P s' r'"
proof -
  obtain ctx mem ctx2 mem2 where p: "s = (ctx, mem)" "r = (ctx2, mem2)" by (cases s, cases r)
  note i = s[unfolded in_step_def p fst_conv snd_conv]
  obtain lb blk h ctx' mem' where a: "send_one hc ua (ctx, mem) xs = Some (lb @ blk, ctx', mem')"
    "store_block_length (int (length blk)) (store_comp_size (config ctx)) = Some lb"
    "int (length blk) \<le> P + P div 255 + 2" "suffix h (sent_bytes ctx mem)" "block_of h blk xs"
    "sent_bytes ctx' mem' = xs" "sender_ready ua P ctx'" "config ctx' = config ctx"
    using send_step[OF conjunct1[OF i] xs, of hc mem] by blast
  have max: "P \<le> LZ4_MAX_INPUT_SIZE"
    using i by (auto simp: sender_ready_def Let_def ctx_wf_def split: direction_e.splits if_splits)
  have "suffix h (got_bytes ctx2 mem2)" using a(4) i suffix_order.trans by blast
  then have "block_of (got_bytes ctx2 mem2) blk xs" using a(5) block_of_longer unfolding suffix_def by metis
  then obtain ctx2' mem2' where "recv_one fast ub (ctx2, mem2) (lb @ blk) = Some (xs, ctx2', mem2')"
    "got_bytes ctx2' mem2' = xs" "receiver_ready ub P ctx2'" "config ctx2' = config ctx2"
    using recv_step[of ub P ctx2 xs blk lb mem2 fast] i xs max a(2,3) by auto
  then show ?thesis using a i by (auto simp: in_step_def p intro!: exI[of _ "lb @ blk"])
qed

interpretation lz4_stream: stream_channel "send_one hc ua" "recv_one fast ub" "in_step ua ub P" "chunk_ok P"
  by unfold_locales (rule deliver_one)


section \<open>From two created contexts\<close>

text \<open>The user's buffers, the pages, the output buffer and the dictionary do not overlap.\<close>

definition sender_layout :: "int \<Rightarrow> create_args \<Rightarrow> 'hc stream_context \<Rightarrow> bool" where
  "sender_layout ua args ctx \<longleftrightarrow> (let b = db_buf (double_buf ctx); P = page_size (double_buf ctx); out = output_buf ctx;
       cap = output_len ctx + store_comp_size (config ctx); di = buf (dictionary_arg args); dn = blen (dictionary_arg args) in
     0 < b \<and> apart ua P b (2 * P) \<and> apart b (2 * P) out cap \<and> apart di dn ua P \<and> apart di dn b (2 * P) \<and> apart di dn out cap
     \<and> (dn \<noteq> 0 \<longrightarrow> di + dn \<noteq> b))"

definition receiver_layout :: "int \<Rightarrow> int \<Rightarrow> create_args \<Rightarrow> 'hc stream_context \<Rightarrow> bool" where
  "receiver_layout ub P args ctx \<longleftrightarrow> (let b = db_buf (double_buf ctx); Q = page_size (double_buf ctx); out = output_buf ctx;
       di = buf (dictionary_arg args); dn = blen (dictionary_arg args) in
     0 < b \<and> b + 2 * Q < 2 ^ 64 \<and> 0 < ub \<and> ub + block_room P < 2 ^ 64
     \<and> apart ub (block_room P) b (2 * Q) \<and> apart b (2 * Q) out Q \<and> apart di dn ub (block_room P) \<and> apart di dn b (2 * Q)
     \<and> (dn \<noteq> 0 \<longrightarrow> di + dn \<noteq> b))"

lemma created_work_page: "created env args dir ctx \<Longrightarrow> work_page ctx = db_buf (double_buf ctx)"
  by (simp add: created_def work_page_def)

lemma apart_half: "apart a n b (2 * k) \<Longrightarrow> apart a n b k"
  by (auto simp: apart_def)

lemma created_sender:
  assumes c: "created env args COMPRESS ctx" and l: "sender_layout ua args ctx" and hc: "cfg_comp (config ctx) \<noteq> HIGH_COMPRESSION"
    and d: "0 \<le> blen (dictionary_arg args)"
  shows "sender_ready ua (buffer_size args) ctx" "suffix (sent_bytes ctx mem) (content mem (dictionary_arg args))"
proof -
  let ?di = "buf (dictionary_arg args)" let ?dn = "blen (dictionary_arg args)"
  have wf: "ctx_wf ctx" and P: "page_size (double_buf ctx) = buffer_size args" using c by (auto simp: created_def)
  obtain cc where st: "lz4_state ctx = Fast_state cc"
    and cc: "cdictSize cc = 0 \<or> (0 < cdictSize cc \<and> cdictSize cc \<le> ?dn \<and> dictionary cc = ?di + ?dn - cdictSize cc)"
    using c hc by (auto simp: created_def ctx_wf_def holds_dict_def split: lz4_state_t.splits)
  have sub: "apart (dictionary cc) (cdictSize cc) a n" if "apart ?di ?dn a n" for a n
    using that cc by (auto simp: apart_def)
  let ?b = "db_buf (double_buf ctx)" let ?out = "output_buf ctx" let ?cap = "output_len ctx + store_comp_size (config ctx)"
  note lay = l[unfolded sender_layout_def Let_def P]
  have far: "cdictSize cc \<noteq> 0 \<longrightarrow> dictionary cc + cdictSize cc \<noteq> ?b" using cc lay by auto
  show "sender_ready ua (buffer_size args) ctx"
    unfolding sender_ready_def Let_def created_work_page[OF c] P
    using lay wf st far sub[of ua "buffer_size args"] sub[of ?b "buffer_size args"] sub[of ?out ?cap] apart_half[of _ _ ?b]
    by blast
  show "suffix (sent_bytes ctx mem) (content mem (dictionary_arg args))"
    using cc st read_mem_suffix[of "cdictSize cc" ?dn mem ?di] by (auto simp: sent_bytes_def) (simp add: read_mem_def)
qed

lemma created_receiver:
  assumes c: "created env args DECOMPRESS ctx" and l: "receiver_layout ub P args ctx"
    and b: "P \<le> buffer_size args" "buffer_size args \<le> INT_MAX" and d: "0 \<le> blen (dictionary_arg args)"
  shows "receiver_ready ub P ctx" "got_bytes ctx mem = content mem (dictionary_arg args)"
proof -
  let ?di = "buf (dictionary_arg args)" let ?dn = "blen (dictionary_arg args)"
  have wf: "ctx_wf ctx" and P: "page_size (double_buf ctx) = buffer_size args" using c by (auto simp: created_def)
  obtain sd where st: "lz4_state ctx = Decode_state sd" and sd: "prefixSize sd = ?dn" "?dn \<noteq> 0 \<longrightarrow> prefixEnd sd = ?di + ?dn"
    using c by (auto simp: created_def ctx_wf_def holds_dict_def split: lz4_state_t.splits)
  have sub: "apart (prefixEnd sd - prefixSize sd) (prefixSize sd) a n" if "apart ?di ?dn a n" for a n
    using that sd by (auto simp: apart_def)
  let ?b = "db_buf (double_buf ctx)"
  note lay = l[unfolded receiver_layout_def Let_def P]
  have far: "prefixSize sd = 0 \<or> prefixEnd sd \<noteq> ?b" using sd lay by auto
  show "receiver_ready ub P ctx"
    unfolding receiver_ready_def Let_def created_work_page[OF c] P
    using lay wf st far b sub[of ub "block_room P"] sub[of ?b "buffer_size args"] apart_half[of _ _ ?b]
    by blast
  show "got_bytes ctx mem = content mem (dictionary_arg args)"
    using sd st by (cases "?dn = 0") (auto simp: got_bytes_def read_mem_def)
qed

lemma created_in_step:
  assumes s: "create_context hc env1 smem args1 = Some (Inr s)" "direction_name args1 = ''compress''" "mode args1 \<noteq> ''high_compression''"
      "0 \<le> blen (dictionary_arg args1)" "sender_layout ua args1 s"
    and r: "create_context hc env2 rmem args2 = Some (Inr r)" "direction_name args2 = ''decompress''"
      "0 \<le> blen (dictionary_arg args2)" "receiver_layout ub (buffer_size args1) args2 r"
    and P: "0 \<le> buffer_size args1" "buffer_size args1 \<le> buffer_size args2" "buffer_size args2 \<le> INT_MAX"
    and same: "store_comp_size_arg args1 = store_comp_size_arg args2" "content smem (dictionary_arg args1) = content rmem (dictionary_arg args2)"
  shows "in_step ua ub (buffer_size args1) (s, smem) (r, rmem)"
proof -
  have b: "buffer_size args1 < 2 ^ 32" "0 \<le> buffer_size args2" "buffer_size args2 < 2 ^ 32" using P by auto
  have ne: "''decompress'' \<noteq> ''compress''" by simp
  note cs = create_context_created[OF s(1) P(1) b(1) s(4) disjI1[OF s(3)]]
  note cr = create_context_created[OF r(1) b(2,3) r(3)]
  have hc: "cfg_comp (config s) \<noteq> HIGH_COMPRESSION" using cs(2) s(3) by (auto simp: parse_mode_def split: if_splits)
  have c1: "created env1 args1 COMPRESS s" using cs(1) s(2) by simp
  have c2: "created env2 args2 DECOMPRESS r" "store_comp_size (config r) = store_comp_size_arg args2" using cr r(2) ne by simp_all
  show ?thesis
    using created_sender(1)[OF c1 s(5) hc s(4)] created_sender(2)[OF c1 s(5) hc s(4), of smem]
      created_receiver(1)[OF c2(1) r(4) P(2,3) r(3)] created_receiver(2)[OF c2(1) r(4) P(2,3) r(3), of rmem]
      cs(3) c2(2) same by (simp add: in_step_def)
qed

text \<open>C27. A compressor in mode \<open>default\<close> or \<open>fast\<close> and a decompressor, created with the same \<open>store_comp_size\<close> and the same
  dictionary contents, deliver any list of chunks that are not empty and shorter than the compressor's page: each chunk is
  compressed, split off the stream by \<open>get_block\<close> and decompressed to itself, in order, however many there are. (After a chunk
  that fills a page the two pages look to the decoder like one contiguous buffer; an empty chunk switches pages without leaving
  the history. Both are excluded.)\<close>

theorem stream_session_roundtrip:
  assumes "create_context hc env1 smem args1 = Some (Inr s)" "direction_name args1 = ''compress''" "mode args1 \<noteq> ''high_compression''"
      "0 \<le> blen (dictionary_arg args1)" "sender_layout ua args1 s"
    and "create_context hc env2 rmem args2 = Some (Inr r)" "direction_name args2 = ''decompress''"
      "0 \<le> blen (dictionary_arg args2)" "receiver_layout ub (buffer_size args1) args2 r"
    and "0 \<le> buffer_size args1" "buffer_size args1 \<le> buffer_size args2" "buffer_size args2 \<le> INT_MAX"
    and "store_comp_size_arg args1 = store_comp_size_arg args2" "content smem (dictionary_arg args1) = content rmem (dictionary_arg args2)"
    and "list_all (chunk_ok (buffer_size args1)) chunks"
  shows "\<exists>s' r'. transmit (send_one hc ua) (recv_one fast ub) (s, smem) (r, rmem) chunks = Some (chunks, s', r')"
  using lz4_stream.session[OF created_in_step[OF assms(1-14)] assms(15)] by blast

lemma stream_session_roundtrip_witness:
  "\<exists>s r s' r'. create_context demo_hc_api demo_env (\<lambda>_. 0) (demo_args ''compress'') = Some (Inr s)
     \<and> create_context demo_hc_api demo_env (\<lambda>_. 0) (demo_args ''decompress'') = Some (Inr r)
     \<and> transmit (send_one demo_hc_api 4096) (recv_one True 4096) (s, \<lambda>_. 0) (r, \<lambda>_. 0) [demo_data, [1, 2, 3], demo_data]
        = Some ([demo_data, [1, 2, 3], demo_data], s', r')"
proof -
  obtain s where s: "create_context demo_hc_api demo_env (\<lambda>_. 0) (demo_args ''compress'') = Some (Inr s)"
    and cs: "created demo_env (demo_args ''compress'') COMPRESS s"
    using demo_created[of "''compress''" "\<lambda>_. 0"] by auto
  obtain r where r: "create_context demo_hc_api demo_env (\<lambda>_. 0) (demo_args ''decompress'') = Some (Inr r)"
    and cr: "created demo_env (demo_args ''decompress'') DECOMPRESS r"
    using demo_created[of "''decompress''" "\<lambda>_. 0"] by auto
  have b: "get_compress_bound 64 = 80" using compress_bound_eq'[of 64] by simp
  have "output_len s = 80" using cs b by (auto simp: created_def ctx_wf_def)
  then have ls: "sender_layout 4096 (demo_args ''compress'') s"
    using cs by (auto simp: created_def sender_layout_def Let_def demo_env_def apart_def)
  have lr: "receiver_layout 4096 64 (demo_args ''decompress'') r"
    using cr b by (auto simp: created_def receiver_layout_def Let_def demo_env_def apart_def block_room_def)
  have ch: "list_all (chunk_ok 64) [demo_data, [1, 2, 3], demo_data]" using length_demo_data by (auto simp: chunk_ok_def)
  have "\<exists>s' r'. transmit (send_one demo_hc_api 4096) (recv_one True 4096) (s, \<lambda>_. 0) (r, \<lambda>_. 0) [demo_data, [1, 2, 3], demo_data]
        = Some ([demo_data, [1, 2, 3], demo_data], s', r')"
    by (rule stream_session_roundtrip[OF s _ _ _ ls r]) (use lr ch in simp_all)
  then show ?thesis using s r by blast
qed

end
