(* ===== verification/XXHash.thy ===== *)
theory XXHash
  imports LZ4_Count
begin

text \<open>
  \<open>xxhash.c\<close>, the 32-bit hash: \<open>XXH32\<close> on a whole input, and the streaming interface
  \<open>XXH32_reset\<close>, \<open>XXH32_update\<close>, \<open>XXH32_digest\<close>, which \<open>lz4frame.c\<close> uses for its checksums.
  The machine's byte order and the alignment of an access are parameters. \<open>xxh32\<close> is the hash as
  a function of a byte list; the one-shot routine and the streaming one are both proved equal to it.

  The locale \<open>streaming_hash\<close> is what a user of such an interface relies on.
\<close>

section \<open>Reads\<close>

datatype XXH_endianess = XXH_bigEndian | XXH_littleEndian
datatype XXH_alignment = XXH_aligned | XXH_unaligned
datatype XXH_errorcode = XXH_OK | XXH_ERROR

text \<open>A native 32-bit load, and the swap of its bytes.\<close>

definition XXH_read32 :: "XXH_endianess \<Rightarrow> bytes \<Rightarrow> int \<Rightarrow> u32 option" where
  "XXH_read32 machine m p =
     map_option (\<lambda>bs. le_word (if machine = XXH_littleEndian then bs else rev bs)) (rdn m p 4)"

definition XXH_swap32 :: "u32 \<Rightarrow> u32" where
  "XXH_swap32 x = (push_bit 24 x AND 0xff000000) OR (push_bit 8 x AND 0x00ff0000)
     OR (drop_bit 8 x AND 0x0000ff00) OR (drop_bit 24 x AND 0x000000ff)"

text \<open>The two alignments differ in the C expression, not in the value.\<close>

definition XXH_readLE32_align :: "bytes \<Rightarrow> int \<Rightarrow> XXH_endianess \<Rightarrow> XXH_alignment \<Rightarrow> u32 option" where
  "XXH_readLE32_align m p endian align =
    (case align of
       XXH_unaligned \<Rightarrow> if endian = XXH_littleEndian then XXH_read32 endian m p
                        else map_option XXH_swap32 (XXH_read32 endian m p)
     | XXH_aligned \<Rightarrow> if endian = XXH_littleEndian then XXH_read32 endian m p
                      else map_option XXH_swap32 (XXH_read32 endian m p))"

definition XXH_readLE32 :: "bytes \<Rightarrow> int \<Rightarrow> XXH_endianess \<Rightarrow> u32 option" where
  "XXH_readLE32 m p endian = XXH_readLE32_align m p endian XXH_unaligned"

definition XXH_readBE32 :: "XXH_endianess \<Rightarrow> bytes \<Rightarrow> int \<Rightarrow> u32 option" where
  "XXH_readBE32 machine m p =
    (if machine = XXH_littleEndian then map_option XXH_swap32 (XXH_read32 machine m p) else XXH_read32 machine m p)"

lemma bit_le_word4:
  "bit (le_word [b0, b1, b2, b3] :: u32) n \<longleftrightarrow> (n < 8 \<and> bit b0 n) \<or> (8 \<le> n \<and> n < 16 \<and> bit b1 (n - 8))
     \<or> (16 \<le> n \<and> n < 24 \<and> bit b2 (n - 16)) \<or> (24 \<le> n \<and> n < 32 \<and> bit b3 (n - 24))"
proof -
  consider "n < 8" | "8 \<le> n" "n < 16" | "16 \<le> n" "n < 24" | "24 \<le> n" "n < 32" | "32 \<le> n" by linarith
  then show ?thesis
  proof cases
    case 2
    then have "n div 8 = 1" "n mod 8 = n - 8" by presburger+
    with 2 show ?thesis by (simp add: bit_le_word del: le_word.simps)
  next
    case 3
    then have "n div 8 = 2" "n mod 8 = n - 16" by presburger+
    with 3 show ?thesis by (simp add: bit_le_word del: le_word.simps)
  next
    case 4
    then have "n div 8 = 3" "n mod 8 = n - 24" by presburger+
    with 4 show ?thesis by (simp add: bit_le_word numeral_3_eq_3 del: le_word.simps)
  qed (simp_all add: bit_le_word del: le_word.simps)
qed

lemma byte_mask: "bit (0xff000000 :: u32) n \<longleftrightarrow> 24 \<le> n \<and> n < 32" "bit (0x00ff0000 :: u32) n \<longleftrightarrow> 16 \<le> n \<and> n < 24"
  "bit (0x0000ff00 :: u32) n \<longleftrightarrow> 8 \<le> n \<and> n < 16" "bit (0x000000ff :: u32) n \<longleftrightarrow> n < 8"
proof -
  have m: "(0xff000000 :: u32) = push_bit 24 (mask 8)" "(0x00ff0000 :: u32) = push_bit 16 (mask 8)"
    "(0x0000ff00 :: u32) = push_bit 8 (mask 8)" "(0x000000ff :: u32) = mask 8"
    by (simp_all add: mask_eq_exp_minus_1 push_bit_eq_mult)
  show "bit (0xff000000 :: u32) n \<longleftrightarrow> 24 \<le> n \<and> n < 32" "bit (0x00ff0000 :: u32) n \<longleftrightarrow> 16 \<le> n \<and> n < 24"
    "bit (0x0000ff00 :: u32) n \<longleftrightarrow> 8 \<le> n \<and> n < 16" "bit (0x000000ff :: u32) n \<longleftrightarrow> n < 8"
    unfolding m by (auto simp: bit_push_bit_iff bit_mask_iff possible_bit_def)
qed

lemma bit_swap32:
  "n < 8 \<Longrightarrow> bit (XXH_swap32 x) n \<longleftrightarrow> bit x (n + 24)"
  "8 \<le> n \<Longrightarrow> n < 16 \<Longrightarrow> bit (XXH_swap32 x) n \<longleftrightarrow> bit x (n + 8)"
  "16 \<le> n \<Longrightarrow> n < 24 \<Longrightarrow> bit (XXH_swap32 x) n \<longleftrightarrow> bit x (n - 8)"
  "24 \<le> n \<Longrightarrow> n < 32 \<Longrightarrow> bit (XXH_swap32 x) n \<longleftrightarrow> bit x (n - 24)"
  unfolding XXH_swap32_def bit_or_iff bit_and_iff byte_mask
  by (simp_all add: bit_push_bit_iff bit_drop_bit_eq possible_bit_def add.commute)

lemma swap32_le_word: "XXH_swap32 (le_word [b0, b1, b2, b3]) = le_word [b3, b2, b1, b0]"
proof (rule bit_word_eqI)
  fix n assume n: "n < LENGTH(32)"
  then consider "n < 8" | "8 \<le> n" "n < 16" | "16 \<le> n" "n < 24" | "24 \<le> n" "n < 32" by (auto, linarith)
  then show "bit (XXH_swap32 (le_word [b0, b1, b2, b3])) n = bit (le_word [b3, b2, b1, b0] :: u32) n"
  proof cases
    case 1
    then show ?thesis by (simp add: bit_swap32(1) bit_le_word4 del: le_word.simps)
  next
    case 2
    then have "n + 8 - 16 = n - 8" by linarith
    with 2 show ?thesis by (simp add: bit_swap32(2) bit_le_word4 del: le_word.simps)
  next
    case 3
    then have "n - 8 - 8 = n - 16" "8 \<le> n - 8" "n - 8 < 16" by linarith+
    with 3 show ?thesis by (simp add: bit_swap32(3) bit_le_word4 del: le_word.simps)
  next
    case 4
    then have "n - 24 < 8" by linarith
    with 4 show ?thesis by (simp add: bit_swap32(4) bit_le_word4 del: le_word.simps)
  qed
qed

lemma four_bytes: "length bs = 4 \<Longrightarrow> \<exists>b0 b1 b2 b3. bs = [b0, b1, b2, b3]"
  by (auto simp: numeral_eq_Suc length_Suc_conv)

lemma swap32_rev: "length bs = 4 \<Longrightarrow> XXH_swap32 (le_word (rev bs)) = le_word bs"
  using four_bytes[of bs] swap32_le_word by (auto simp del: le_word.simps)

lemma le_word_store: "le_word (store_le32 x) = x"
proof (rule bit_word_eqI)
  fix n assume n: "n < LENGTH(32)"
  have b0: "bit (ucast (x AND 0xff) :: byte) i \<longleftrightarrow> i < 8 \<and> bit x i" for i using bit_masked_byte[of 0 x i] by simp
  have "n < 8 \<or> (8 \<le> n \<and> n < 16) \<or> (16 \<le> n \<and> n < 24) \<or> (24 \<le> n \<and> n < 32)" using n by auto
  then show "bit (le_word (store_le32 x) :: u32) n = bit x n"
    unfolding store_le32_def by (auto simp: bit_le_word4 bit_masked_byte b0 simp del: le_word.simps)
qed

lemma store_le_word: "length bs = 4 \<Longrightarrow> store_le32 (le_word bs) = bs"
  by (rule le_word_inj[where 'a = 32]) (simp_all add: le_word_store)

text \<open>The value read does not depend on the byte order or the alignment.\<close>

lemma wp_readLE32_align [wp_simps]:
  "wp (XXH_readLE32_align m p endian align) Q \<longleftrightarrow> in_buf m p 4 \<and> Q (le_word (seg m p (p + 4)))"
proof -
  have "in_buf m p 4 \<Longrightarrow> length (seg m p (p + 4)) = 4" by (auto simp: in_buf_def)
  then show ?thesis
    by (cases endian; cases align)
       (auto simp: XXH_readLE32_align_def XXH_read32_def wp_simps swap32_rev)
qed

section \<open>Rounds, avalanche, finalisation\<close>

abbreviation PRIME32_1 :: u32 where "PRIME32_1 \<equiv> 2654435761"
abbreviation PRIME32_2 :: u32 where "PRIME32_2 \<equiv> 2246822519"
abbreviation PRIME32_3 :: u32 where "PRIME32_3 \<equiv> 3266489917"
abbreviation PRIME32_4 :: u32 where "PRIME32_4 \<equiv> 668265263"
abbreviation PRIME32_5 :: u32 where "PRIME32_5 \<equiv> 374761393"

definition XXH_rotl32 :: "u32 \<Rightarrow> nat \<Rightarrow> u32" where
  "XXH_rotl32 x r = (push_bit r x OR drop_bit (32 - r) x)"

definition XXH32_round :: "u32 \<Rightarrow> u32 \<Rightarrow> u32" where
  "XXH32_round seed input =
    (let seed = seed + input * PRIME32_2; seed = XXH_rotl32 seed 13 in seed * PRIME32_1)"

definition XXH32_avalanche :: "u32 \<Rightarrow> u32" where
  "XXH32_avalanche h32 =
    (let h32 = h32 XOR drop_bit 15 h32; h32 = h32 * PRIME32_2;
         h32 = h32 XOR drop_bit 13 h32; h32 = h32 * PRIME32_3 in
     h32 XOR drop_bit 16 h32)"

text \<open>The cases of the \<open>switch\<close> on \<open>len&15\<close> with what they fall through to.\<close>

datatype process = PROCESS1 | PROCESS4

definition finalize_switch :: "process list list" where
  "finalize_switch =
    [[], [PROCESS1], [PROCESS1, PROCESS1], [PROCESS1, PROCESS1, PROCESS1],
     [PROCESS4], [PROCESS4, PROCESS1], [PROCESS4, PROCESS1, PROCESS1], [PROCESS4, PROCESS1, PROCESS1, PROCESS1],
     [PROCESS4, PROCESS4], [PROCESS4, PROCESS4, PROCESS1], [PROCESS4, PROCESS4, PROCESS1, PROCESS1],
     [PROCESS4, PROCESS4, PROCESS1, PROCESS1, PROCESS1],
     [PROCESS4, PROCESS4, PROCESS4], [PROCESS4, PROCESS4, PROCESS4, PROCESS1],
     [PROCESS4, PROCESS4, PROCESS4, PROCESS1, PROCESS1], [PROCESS4, PROCESS4, PROCESS4, PROCESS1, PROCESS1, PROCESS1]]"

fun run_processes :: "XXH_endianess \<Rightarrow> XXH_alignment \<Rightarrow> bytes \<Rightarrow> process list \<Rightarrow> int \<Rightarrow> u32 \<Rightarrow> u32 option" where
  "run_processes endian align m [] p h32 = Some h32"
| "run_processes endian align m (PROCESS1 # ps) p h32 = do {
     b \<leftarrow> ld m p;
     let h32 = h32 + ucast b * PRIME32_5;
     run_processes endian align m ps (p + 1) (XXH_rotl32 h32 11 * PRIME32_1) }"
| "run_processes endian align m (PROCESS4 # ps) p h32 = do {
     w \<leftarrow> XXH_readLE32_align m p endian align;
     let h32 = h32 + w * PRIME32_3;
     run_processes endian align m ps (p + 4) (XXH_rotl32 h32 17 * PRIME32_4) }"

definition XXH32_finalize :: "u32 \<Rightarrow> bytes \<Rightarrow> int \<Rightarrow> int \<Rightarrow> XXH_endianess \<Rightarrow> XXH_alignment \<Rightarrow> u32 option" where
  "XXH32_finalize h32 m p len endian align =
     map_option XXH32_avalanche (run_processes endian align m (finalize_switch ! nat (len mod 16)) p h32)"

section \<open>One-shot hashing\<close>

text \<open>The four accumulators, one stripe of sixteen bytes, and the do-while loop over the stripes.\<close>

type_synonym accumulators = "u32 \<times> u32 \<times> u32 \<times> u32"

definition initial_accumulators :: "u32 \<Rightarrow> accumulators" where
  "initial_accumulators seed = (seed + PRIME32_1 + PRIME32_2, seed + PRIME32_2, seed + 0, seed - PRIME32_1)"

definition XXH32_stripe :: "XXH_endianess \<Rightarrow> XXH_alignment \<Rightarrow> bytes \<Rightarrow> int \<Rightarrow> accumulators \<Rightarrow> accumulators option" where
  "XXH32_stripe endian align m p v = (case v of (v1, v2, v3, v4) \<Rightarrow> do {
     w1 \<leftarrow> XXH_readLE32_align m p endian align;
     w2 \<leftarrow> XXH_readLE32_align m (p + 4) endian align;
     w3 \<leftarrow> XXH_readLE32_align m (p + 8) endian align;
     w4 \<leftarrow> XXH_readLE32_align m (p + 12) endian align;
     Some (XXH32_round v1 w1, XXH32_round v2 w2, XXH32_round v3 w3, XXH32_round v4 w4) })"

function oneshot_loop ::
  "XXH_endianess \<Rightarrow> XXH_alignment \<Rightarrow> bytes \<Rightarrow> int \<Rightarrow> int \<Rightarrow> accumulators \<Rightarrow> (accumulators \<times> int) option" where
  "oneshot_loop endian align m limit p v = do {
     v \<leftarrow> XXH32_stripe endian align m p v;
     if p + 16 < limit then oneshot_loop endian align m limit (p + 16) v else Some (v, p + 16) }"
  by pat_completeness auto
termination
  by (relation "measure (\<lambda>(endian, align, m, limit, p, v). nat (limit - p))") auto

declare oneshot_loop.simps [simp del]

definition merge_accumulators :: "accumulators \<Rightarrow> u32" where
  "merge_accumulators v = (case v of (v1, v2, v3, v4) \<Rightarrow>
     XXH_rotl32 v1 1 + XXH_rotl32 v2 7 + XXH_rotl32 v3 12 + XXH_rotl32 v4 18)"

definition XXH32_endian_align :: "bytes \<Rightarrow> int \<Rightarrow> u32 \<Rightarrow> XXH_endianess \<Rightarrow> XXH_alignment \<Rightarrow> u32 option" where
  "XXH32_endian_align input len seed endian align = do {
     let bEnd = len;
     (h32, p) \<leftarrow> (if len \<ge> 16 then do {
                    (v, p) \<leftarrow> oneshot_loop endian align input (bEnd - 15) 0 (initial_accumulators seed);
                    Some (merge_accumulators v, p) }
                  else Some (seed + PRIME32_5, 0));
     XXH32_finalize (h32 + of_int len) input p (len mod 16) endian align }"

text \<open>\<open>check_align\<close> is the macro \<open>XXH_FORCE_ALIGN_CHECK\<close>, \<open>addr\<close> the address of the input.\<close>

definition XXH32 :: "bool \<Rightarrow> XXH_endianess \<Rightarrow> int \<Rightarrow> bytes \<Rightarrow> int \<Rightarrow> u32 \<Rightarrow> u32 option" where
  "XXH32 check_align endian addr input len seed =
    (if check_align \<and> addr mod 4 = 0 then XXH32_endian_align input len seed endian XXH_aligned
     else XXH32_endian_align input len seed endian XXH_unaligned)"

section \<open>Streaming\<close>

text \<open>\<open>acc\<close> is \<open>v1\<close> to \<open>v4\<close>; \<open>mem32\<close> is the array of four words, as bytes.\<close>

record XXH32_state =
  total_len_32 :: u32
  large_len :: bool
  acc :: accumulators
  mem32 :: bytes
  memsize :: u32

definition XXH32_reset :: "u32 \<Rightarrow> XXH32_state" where
  "XXH32_reset seed = \<lparr>total_len_32 = 0, large_len = False, acc = initial_accumulators seed,
     mem32 = replicate 16 0, memsize = 0\<rparr>"

function update_loop ::
  "XXH_endianess \<Rightarrow> bytes \<Rightarrow> int \<Rightarrow> int \<Rightarrow> accumulators \<Rightarrow> (accumulators \<times> int) option" where
  "update_loop endian m limit p v = do {
     v \<leftarrow> XXH32_stripe endian XXH_unaligned m p v;
     if p + 16 \<le> limit then update_loop endian m limit (p + 16) v else Some (v, p + 16) }"
  by pat_completeness auto
termination
  by (relation "measure (\<lambda>(endian, m, limit, p, v). nat (limit + 1 - p))") auto

declare update_loop.simps [simp del]

text \<open>The three steps of an update that completes a stripe: fill the buffer, take full stripes from
  the input, keep the rest.\<close>

definition update_fill :: "XXH32_state \<Rightarrow> bytes \<Rightarrow> XXH_endianess \<Rightarrow> (XXH32_state \<times> int) option" where
  "update_fill state input endian =
    (if memsize state \<noteq> 0 then do {
       mem \<leftarrow> memcpy_from (mem32 state) (uint (memsize state)) input 0 (16 - uint (memsize state));
       v \<leftarrow> XXH32_stripe endian XXH_unaligned mem 0 (acc state);
       Some (state\<lparr>mem32 := mem, acc := v, memsize := 0\<rparr>, 16 - uint (memsize state)) }
     else Some (state, 0))"

definition update_stripes :: "XXH32_state \<Rightarrow> bytes \<Rightarrow> int \<Rightarrow> XXH_endianess \<Rightarrow> (XXH32_state \<times> int) option" where
  "update_stripes state input p endian =
    (let bEnd = int (length input) in
     if p \<le> bEnd - 16 then do {
       (v, p) \<leftarrow> update_loop endian input (bEnd - 16) p (acc state);
       Some (state\<lparr>acc := v\<rparr>, p) }
     else Some (state, p))"

definition update_keep :: "XXH32_state \<Rightarrow> bytes \<Rightarrow> int \<Rightarrow> XXH32_state option" where
  "update_keep state input p =
    (let bEnd = int (length input) in
     if p < bEnd then do {
       mem \<leftarrow> memcpy_from (mem32 state) 0 input p (bEnd - p);
       Some (state\<lparr>mem32 := mem, memsize := of_int (bEnd - p)\<rparr>) }
     else Some state)"

text \<open>The input is \<open>None\<close> for the null pointer, otherwise the \<open>len\<close> bytes it points to.\<close>

definition XXH32_update_endian :: "XXH32_state \<Rightarrow> bytes option \<Rightarrow> XXH_endianess \<Rightarrow> (XXH_errorcode \<times> XXH32_state) option" where
  "XXH32_update_endian state input_ptr endian =
    (case input_ptr of None \<Rightarrow> Some (XXH_ERROR, state)
     | Some input \<Rightarrow>
       let len = int (length input);
           state = state\<lparr>total_len_32 := total_len_32 state + of_int len\<rparr>;
           state = state\<lparr>large_len := large_len state \<or> len \<ge> 16 \<or> total_len_32 state \<ge> 16\<rparr> in
       if uint (memsize state) + len < 16 then do {
         mem \<leftarrow> memcpy_from (mem32 state) (uint (memsize state)) input 0 len;
         Some (XXH_OK, state\<lparr>mem32 := mem, memsize := memsize state + of_int len\<rparr>) }
       else do {
         (state, p) \<leftarrow> update_fill state input endian;
         (state, p) \<leftarrow> update_stripes state input p endian;
         state \<leftarrow> update_keep state input p;
         Some (XXH_OK, state) })"

definition XXH32_update :: "XXH_endianess \<Rightarrow> XXH32_state \<Rightarrow> bytes option \<Rightarrow> (XXH_errorcode \<times> XXH32_state) option" where
  "XXH32_update endian_detected state input = XXH32_update_endian state input endian_detected"

definition XXH32_digest_endian :: "XXH32_state \<Rightarrow> XXH_endianess \<Rightarrow> u32 option" where
  "XXH32_digest_endian state endian =
    (let h32 = (if large_len state then merge_accumulators (acc state) else fst (snd (snd (acc state))) + PRIME32_5) in
     XXH32_finalize (h32 + total_len_32 state) (mem32 state) 0 (uint (memsize state)) endian XXH_aligned)"

definition XXH32_digest :: "XXH_endianess \<Rightarrow> XXH32_state \<Rightarrow> u32 option" where
  "XXH32_digest endian_detected state = XXH32_digest_endian state endian_detected"

section \<open>Canonical representation\<close>

definition word_bytes :: "XXH_endianess \<Rightarrow> u32 \<Rightarrow> bytes" where
  "word_bytes machine x = (if machine = XXH_littleEndian then store_le32 x else rev (store_le32 x))"

definition XXH32_canonicalFromHash :: "XXH_endianess \<Rightarrow> u32 \<Rightarrow> bytes" where
  "XXH32_canonicalFromHash machine hash =
     word_bytes machine (if machine = XXH_littleEndian then XXH_swap32 hash else hash)"

definition XXH32_hashFromCanonical :: "XXH_endianess \<Rightarrow> bytes \<Rightarrow> u32 option" where
  "XXH32_hashFromCanonical machine src = XXH_readBE32 machine src 0"

section \<open>The hash of a byte list\<close>

text \<open>Full blocks are folded in, the rest is left over. This holds for any block size.\<close>

function stripes :: "nat \<Rightarrow> ('v \<Rightarrow> bytes \<Rightarrow> 'v) \<Rightarrow> 'v \<Rightarrow> bytes \<Rightarrow> 'v \<times> bytes" where
  "stripes n f v xs = (if n = 0 \<or> length xs < n then (v, xs) else stripes n f (f v (take n xs)) (drop n xs))"
  by pat_completeness auto
termination
  by (relation "measure (\<lambda>(n, f, v, xs). length xs)") auto

declare stripes.simps [simp del]

lemma stripes_short: "length xs < n \<Longrightarrow> stripes n f v xs = (v, xs)"
  by (subst stripes.simps) simp

lemma stripes_block: "0 < n \<Longrightarrow> length bs = n \<Longrightarrow> stripes n f v (bs @ xs) = stripes n f (f v bs) xs"
  by (subst stripes.simps) simp

lemma stripes_append:
  assumes "stripes n f v xs = (v', r)"
  shows "stripes n f v (xs @ ys) = stripes n f v' (r @ ys)"
  using assms
proof (induction n f v xs rule: stripes.induct)
  case (1 n f v xs)
  show ?case
  proof (cases "n = 0 \<or> length xs < n")
    case True
    then show ?thesis using 1(2) by (subst (asm) stripes.simps) auto
  next
    case False
    have "stripes n f v (xs @ ys) = stripes n f v (take n xs @ (drop n xs @ ys))"
      unfolding append_assoc[symmetric] append_take_drop_id ..
    also have "\<dots> = stripes n f (f v (take n xs)) (drop n xs @ ys)" using False by (intro stripes_block) auto
    also have "\<dots> = stripes n f v' (r @ ys)"
      using 1(1)[OF False] 1(2) False by (subst (asm) stripes.simps) auto
    finally show ?thesis .
  qed
qed

lemma stripes_rest: "0 < n \<Longrightarrow> length (snd (stripes n f v xs)) = length xs mod n"
proof (induction n f v xs rule: stripes.induct)
  case (1 n f v xs)
  then show ?case by (subst stripes.simps) (auto simp: le_mod_geq)
qed

text \<open>The instance of \<open>XXH32\<close>: a stripe is sixteen bytes; the tail is taken by fours, then by ones.\<close>

definition stripe32 :: "accumulators \<Rightarrow> bytes \<Rightarrow> accumulators" where
  "stripe32 v bs = (case v of (v1, v2, v3, v4) \<Rightarrow>
     (XXH32_round v1 (le_word (take 4 bs)), XXH32_round v2 (le_word (take 4 (drop 4 bs))),
      XXH32_round v3 (le_word (take 4 (drop 8 bs))), XXH32_round v4 (le_word (take 4 (drop 12 bs)))))"

definition step1 :: "u32 \<Rightarrow> byte \<Rightarrow> u32" where
  "step1 h b = XXH_rotl32 (h + ucast b * PRIME32_5) 11 * PRIME32_1"

definition step4 :: "u32 \<Rightarrow> bytes \<Rightarrow> u32" where
  "step4 h bs = XXH_rotl32 (h + le_word bs * PRIME32_3) 17 * PRIME32_4"

definition tail32 :: "u32 \<Rightarrow> bytes \<Rightarrow> u32" where
  "tail32 h xs = (case stripes 4 step4 h xs of (h, r) \<Rightarrow> foldl step1 h r)"

definition xxh32 :: "u32 \<Rightarrow> bytes \<Rightarrow> u32" where
  "xxh32 seed xs = (case stripes 16 stripe32 (initial_accumulators seed) xs of (v, r) \<Rightarrow>
     XXH32_avalanche (tail32 ((if length xs \<ge> 16 then merge_accumulators v else seed + PRIME32_5) + of_nat (length xs)) r))"

lemma seg_within: "0 \<le> p \<Longrightarrow> 0 \<le> i \<Longrightarrow> i \<le> j \<Longrightarrow> j \<le> n \<Longrightarrow> p + n \<le> int (length m)
    \<Longrightarrow> seg m (p + i) (p + j) = take (nat (j - i)) (drop (nat i) (seg m p (p + n)))"
  by (simp add: seg_def drop_take min_def nat_add_distrib add.commute nat_diff_distrib)

lemma stripe_ok:
  assumes "in_buf m p 16"
  shows "XXH32_stripe endian align m p v = Some (stripe32 v (seg m p (p + 16)))"
proof -
  have b: "0 \<le> p" "p + 16 \<le> int (length m)" using assms by (auto simp: in_buf_def)
  have r: "XXH_readLE32_align m q endian align = Some (le_word (seg m q (q + 4)))" if "in_buf m q 4" for q
    using wp_readLE32_align[of m q endian align "\<lambda>w. w = le_word (seg m q (q + 4))"] that by (auto simp: wp_iff)
  have q: "in_buf m p 4" "in_buf m (p + 4) 4" "in_buf m (p + 8) 4" "in_buf m (p + 12) 4"
    using b by (auto simp: in_buf_def)
  show ?thesis using b seg_within[of p 0 4 16 m] seg_within[of p 4 8 16 m] seg_within[of p 8 12 16 m] seg_within[of p 12 16 16 m]
    by (cases v) (simp add: XXH32_stripe_def stripe32_def r[OF q(1)] r[OF q(2)] r[OF q(3)] r[OF q(4)] add.assoc)
qed

text \<open>Positions that are whole blocks apart.\<close>

lemma next_block: "(q - (p + m)) mod m = 0 \<Longrightarrow> (q - p) mod m = (0 :: int)"
  using mod_add_self2[of "q - (p + m)" m] by simp

lemma rest_of_blocks:
  fixes n p m :: int
  assumes "p mod m = 0" "p \<le> n" "n - p < m"
  shows "n mod m = n - p"
proof -
  have "n mod m = ((n - p) + p) mod m" by simp
  also have "\<dots> = ((n - p) + p mod m) mod m" by (rule mod_add_right_eq[symmetric])
  also have "\<dots> = n - p" using assms by simp
  finally show ?thesis .
qed

lemma oneshot_loop_ok:
  assumes "0 \<le> p" "p < limit" "limit + 15 \<le> int (length m)"
  shows "\<exists>v' p'. oneshot_loop endian align m limit p v = Some (v', p') \<and> p \<le> p' \<and> p' \<le> limit + 15 \<and> limit \<le> p'
    \<and> (p' - p) mod 16 = 0 \<and> stripes 16 stripe32 v (seg m p (limit + 15)) = (v', seg m p' (limit + 15))"
  using assms
proof (induction endian align m limit p v rule: oneshot_loop.induct)
  case (1 endian align m limit p v)
  let ?v = "stripe32 v (seg m p (p + 16))"
  have b: "in_buf m p 16" using 1(2-4) by (simp add: in_buf_def)
  have e: "seg m p (limit + 15) = seg m p (p + 16) @ seg m (p + 16) (limit + 15)" using 1(2,3) by (intro seg_append) auto
  have s: "stripes 16 stripe32 v (seg m p (limit + 15)) = stripes 16 stripe32 ?v (seg m (p + 16) (limit + 15))"
    unfolding e using 1(2-4) by (intro stripes_block) auto
  show ?case
  proof (cases "p + 16 < limit")
    case True
    obtain v' p' where r: "oneshot_loop endian align m limit (p + 16) ?v = Some (v', p')" "p + 16 \<le> p'" "p' \<le> limit + 15" "limit \<le> p'"
      "(p' - (p + 16)) mod 16 = 0" "stripes 16 stripe32 ?v (seg m (p + 16) (limit + 15)) = (v', seg m p' (limit + 15))"
      using 1(1)[OF stripe_ok[OF b] True] 1(2-4) True by auto
    have "(p' - p) mod 16 = 0" by (rule next_block[OF r(5)])
    then show ?thesis using r s True by (cases v', subst oneshot_loop.simps) (simp add: stripe_ok[OF b])
  next
    case False
    have "length (seg m (p + 16) (limit + 15)) < 16" using 1(2-4) False by simp
    then show ?thesis using s False 1(2-4)
      by (cases ?v, subst oneshot_loop.simps) (simp add: stripe_ok[OF b] stripes_short)
  qed
qed

lemma update_loop_oneshot: "update_loop endian m limit p v = oneshot_loop endian XXH_unaligned m (limit + 1) p v"
proof (induction endian m limit p v rule: update_loop.induct)
  case (1 endian m limit p v)
  show ?case
    by (subst update_loop.simps, subst oneshot_loop.simps) (auto simp: 1 zle_iff_zadd intro!: Option.bind_cong)
qed

lemma finalize_switch_nth:
  assumes "n < 16"
  shows "finalize_switch ! n = replicate (n div 4) PROCESS4 @ replicate (n mod 4) PROCESS1"
proof -
  have r: "replicate 2 x = [x, x]" "replicate 3 x = [x, x, x]" for x :: process by (simp_all add: numeral_eq_Suc)
  have e: "finalize_switch = map (\<lambda>n. replicate (n div 4) PROCESS4 @ replicate (n mod 4) PROCESS1) [0..<16]"
    by (simp add: finalize_switch_def upt_rec r)
  show ?thesis unfolding e using assms by simp
qed

lemma run_ones:
  "in_buf m p (int n) \<Longrightarrow> run_processes endian align m (replicate n PROCESS1) p h = Some (foldl step1 h (seg m p (p + int n)))"
proof (induction n arbitrary: p h)
  case (Suc n)
  have b: "in_buf m p 1" "in_buf m (p + 1) (int n)" using Suc.prems by (auto simp: in_buf_def)
  have "p + int (Suc n) = p + 1 + int n" by simp
  then have "seg m p (p + int (Suc n)) = seg m p (p + 1) @ seg m (p + 1) (p + 1 + int n)"
    using Suc.prems seg_append[of p "p + 1" "p + 1 + int n" m] by (simp only: in_buf_def)
  also have "seg m p (p + 1) = [at m p]" using b(1) by (simp add: in_buf_def seg_one at_def)
  finally show ?case using b Suc.IH[OF b(2)] by (simp add: ld_def step1_def Let_def)
qed simp

lemma run_all:
  assumes "in_buf m p (int (4 * a + b))" "b < 4"
  shows "run_processes endian align m (replicate a PROCESS4 @ replicate b PROCESS1) p h
    = Some (tail32 h (seg m p (p + int (4 * a + b))))"
  using assms(1)
proof (induction a arbitrary: p h)
  case 0
  have "length (seg m p (p + int b)) < 4" using 0 assms(2) by (simp add: in_buf_def)
  with 0 show ?case by (simp add: run_ones tail32_def stripes_short)
next
  case (Suc a)
  have b: "in_buf m p 4" "in_buf m (p + 4) (int (4 * a + b))" using Suc.prems by (auto simp: in_buf_def)
  have e: "seg m p (p + int (4 * Suc a + b)) = seg m p (p + 4) @ seg m (p + 4) (p + 4 + int (4 * a + b))"
    using Suc.prems seg_append[of p "p + 4" "p + int (4 * Suc a + b)"] by (simp add: in_buf_def algebra_simps)
  have "tail32 h (seg m p (p + int (4 * Suc a + b))) = tail32 (step4 h (seg m p (p + 4))) (seg m (p + 4) (p + 4 + int (4 * a + b)))"
    unfolding e tail32_def using b(1) by (subst stripes_block) (auto simp: in_buf_def)
  moreover have "XXH_readLE32_align m p endian align = Some (le_word (seg m p (p + 4)))"
    using wp_readLE32_align[of m p endian align "\<lambda>w. w = le_word (seg m p (p + 4))"] b(1) by (auto simp: wp_iff)
  ultimately show ?case using Suc.IH[OF b(2)] by (simp add: step4_def Let_def)
qed

lemma finalize_ok:
  assumes "in_buf m p n" "n < 16"
  shows "XXH32_finalize h m p n endian align = Some (XXH32_avalanche (tail32 h (seg m p (p + n))))"
proof -
  have n: "0 \<le> n" "nat (n mod 16) = nat n" "nat n < 16" using assms by (auto simp: in_buf_def)
  have e: "int (4 * (nat n div 4) + nat n mod 4) = n" using n(1) by simp
  show ?thesis unfolding XXH32_finalize_def n(2)
    using run_all[of m p "nat n div 4" "nat n mod 4" endian align h] assms(1) unfolding e finalize_switch_nth[OF n(3)] by simp
qed

section \<open>The interface of a streaming hash\<close>

fun update_all :: "('s \<Rightarrow> bytes \<Rightarrow> 's option) \<Rightarrow> 's \<Rightarrow> bytes list \<Rightarrow> 's option" where
  "update_all update state [] = Some state"
| "update_all update state (c # cs) = do { state \<leftarrow> update state c; update_all update state cs }"

text \<open>\<open>holds st xs\<close>: the state has absorbed \<open>xs\<close>; \<open>fits\<close> bounds the length it may absorb.\<close>

locale streaming_hash =
  fixes update :: "'s \<Rightarrow> bytes \<Rightarrow> 's option" and digest :: "'s \<Rightarrow> 'h option" and hash :: "bytes \<Rightarrow> 'h"
    and holds :: "'s \<Rightarrow> bytes \<Rightarrow> bool" and fits :: "nat \<Rightarrow> bool"
  assumes update_holds: "holds state xs \<Longrightarrow> fits (length (xs @ ys)) \<Longrightarrow> \<exists>state'. update state ys = Some state' \<and> holds state' (xs @ ys)"
    and digest_holds: "holds state xs \<Longrightarrow> digest state = Some (hash xs)"
    and fits_mono: "fits n \<Longrightarrow> m \<le> n \<Longrightarrow> fits m"
begin

lemma update_all_holds:
  "holds state xs \<Longrightarrow> fits (length (xs @ concat cs))
    \<Longrightarrow> \<exists>state'. update_all update state cs = Some state' \<and> holds state' (xs @ concat cs)"
proof (induction cs arbitrary: state xs)
  case (Cons c cs)
  have "fits (length (xs @ c))" using fits_mono[OF Cons.prems(2)] by simp
  then obtain state' where "update state c = Some state'" "holds state' (xs @ c)"
    using update_holds[OF Cons.prems(1)] by blast
  with Cons.IH[of state' "xs @ c"] Cons.prems(2) show ?case by simp
qed simp

lemma streaming_digest:
  "holds state [] \<Longrightarrow> fits (length (concat cs))
    \<Longrightarrow> \<exists>state'. update_all update state cs = Some state' \<and> digest state' = Some (hash (concat cs))"
  using update_all_holds[of state "[]" cs] digest_holds by fastforce

end

section \<open>The streaming interface of XXH32\<close>

definition XXH32_holds :: "u32 \<Rightarrow> XXH32_state \<Rightarrow> bytes \<Rightarrow> bool" where
  "XXH32_holds seed state xs \<longleftrightarrow> (\<exists>r. stripes 16 stripe32 (initial_accumulators seed) xs = (acc state, r)
     \<and> length (mem32 state) = 16 \<and> length r < 16 \<and> take (length r) (mem32 state) = r
     \<and> memsize state = of_nat (length r) \<and> total_len_32 state = of_nat (length xs) \<and> (large_len state \<longleftrightarrow> 16 \<le> length xs))"

lemma reset_holds: "XXH32_holds seed (XXH32_reset seed) []"
  by (simp add: XXH32_holds_def XXH32_reset_def stripes_short)

lemma upd_prefix:
  "length m = n \<Longrightarrow> length r + length bs \<le> n \<Longrightarrow> take (length r) m = r
    \<Longrightarrow> take (length r + length bs) (upd m (int (length r)) bs) = r @ bs"
  by (simp add: upd_def)

lemma seg_0: "seg xs 0 n = take (nat n) xs"
  by (simp add: seg_def)

lemma seg_to_end: "0 \<le> p \<Longrightarrow> seg xs p (int (length xs)) = drop (nat p) xs"
  by (simp add: seg_def nat_diff_distrib)

lemma uint_of_nat32: "n < 16 \<Longrightarrow> uint (of_nat n :: u32) = int n"
  by (simp add: uint_nat unat_of_nat take_bit_eq_mod)

lemma large_len_ok:
  assumes "m < 16 \<or> large" "large \<longleftrightarrow> 16 \<le> m"
  shows "large \<or> 16 \<le> int n \<or> 16 \<le> (of_nat m + of_nat n :: u32) \<longleftrightarrow> 16 \<le> m + n"
proof (cases "large \<or> 16 \<le> n")
  case False
  then have "m + n < 32" using assms by auto
  then have "unat (of_nat (m + n) :: u32) = m + n"
    by (simp add: unat_of_nat take_bit_eq_mod del: of_nat_add)
  then show ?thesis using False by (simp add: word_le_nat_alt)
qed (use assms in auto)

lemma take_seg_0 [simp]: "in_buf ys 0 n \<Longrightarrow> seg ys 0 n = take (nat n) ys"
  by (simp add: seg_def)

lemma memcpy_from_ok:
  "in_buf src s n \<Longrightarrow> in_buf m d n \<Longrightarrow> memcpy_from m d src s n = Some (upd m d (seg src s (s + n)))"
  by (auto simp: memcpy_from_def rdn_def wrn_def in_buf_def)

lemma update_keep_ok:
  assumes "length (mem32 state) = 16" "0 \<le> p" "p \<le> int (length ys)" "int (length ys) - p < 16" "memsize state = 0"
  shows "\<exists>m. update_keep state ys p = Some (state\<lparr>mem32 := m, memsize := of_nat (length (drop (nat p) ys))\<rparr>)
      \<and> length m = 16 \<and> take (length (drop (nat p) ys)) m = drop (nat p) ys"
proof (cases "p < int (length ys)")
  case True
  let ?r = "drop (nat p) ys" let ?m = "upd (mem32 state) 0 ?r"
  have n: "int (length ys) - p = int (length ?r)" using assms(2) True by simp
  have b: "in_buf ys p (int (length ?r))" "in_buf (mem32 state) 0 (int (length ?r))"
    using assms True by (auto simp: in_buf_def)
  have s: "seg ys p (p + int (length ?r)) = ?r" using assms(2) True by (simp add: seg_def)
  have "update_keep state ys p = Some (state\<lparr>mem32 := ?m, memsize := of_nat (length ?r)\<rparr>)"
    unfolding update_keep_def Let_def n using True memcpy_from_ok[OF b] s by simp
  moreover have "length ?m = 16" using b(2) assms(1) by simp
  moreover have "take (length ?r) ?m = ?r" by (simp add: upd_def)
  ultimately show ?thesis by blast
next
  case False
  then have "drop (nat p) ys = []" using assms(3) by simp
  then show ?thesis using False assms(1,5) by (cases state) (auto simp: update_keep_def Let_def)
qed

lemma update_stripes_ok:
  assumes "0 \<le> p" "p \<le> int (length ys)"
  shows "\<exists>v p'. update_stripes state ys p endian = Some (state\<lparr>acc := v\<rparr>, p') \<and> 0 \<le> p' \<and> p' \<le> int (length ys)
    \<and> int (length ys) - p' < 16 \<and> stripes 16 stripe32 (acc state) (drop (nat p) ys) = (v, drop (nat p') ys)"
proof (cases "p \<le> int (length ys) - 16")
  case True
  obtain v' p' where "oneshot_loop endian XXH_unaligned ys (int (length ys) - 15) p (acc state) = Some (v', p')" "p \<le> p'"
    "p' \<le> int (length ys)" "int (length ys) - 15 \<le> p'"
    "stripes 16 stripe32 (acc state) (seg ys p (int (length ys))) = (v', seg ys p' (int (length ys)))"
    using oneshot_loop_ok[of p "int (length ys) - 15" ys endian XXH_unaligned "acc state"] assms True by auto
  then show ?thesis using True assms
    by (cases v') (auto simp: update_stripes_def Let_def update_loop_oneshot seg_to_end)
next
  case False
  then have "length (drop (nat p) ys) < 16" using assms by simp
  then show ?thesis using False assms stripes_short[of "drop (nat p) ys" 16]
    by (intro exI[of _ "acc state"] exI[of _ p]) (simp add: update_stripes_def Let_def)
qed

lemma update_fill_ok:
  assumes m: "length (mem32 state) = 16" "take (length r) (mem32 state) = r" "memsize state = of_nat (length r)" "length r < 16"
    and l: "16 \<le> length r + length ys"
  shows "\<exists>m v p. update_fill state ys endian = Some (state\<lparr>mem32 := m, acc := v, memsize := 0\<rparr>, p) \<and> length m = 16
    \<and> 0 \<le> p \<and> p \<le> int (length ys) \<and> stripes 16 stripe32 (acc state) (r @ ys) = stripes 16 stripe32 v (drop (nat p) ys)"
proof (cases "r = []")
  case True
  then show ?thesis using m
    by (intro exI[of _ "mem32 state"] exI[of _ "acc state"] exI[of _ 0]) (simp add: update_fill_def)
next
  case False
  let ?k = "int (length r)" let ?f = "take (16 - length r) ys" let ?m = "upd (mem32 state) ?k ?f"
  have k: "uint (memsize state) = ?k" using m(3,4) by (simp add: uint_of_nat32)
  then have nz: "memsize state \<noteq> 0" using False by auto
  have lf: "int (length ?f) = 16 - ?k" "nat (16 - ?k) = 16 - length r" using l m(4) by auto
  have b: "in_buf ys 0 (16 - ?k)" "in_buf (mem32 state) ?k (16 - ?k)" using l m(1,4) by (auto simp: in_buf_def)
  have c: "memcpy_from (mem32 state) ?k ys 0 (16 - ?k) = Some ?m"
    using memcpy_from_ok[OF b] b(1) lf(2) by simp
  have lm: "length ?m = 16" using b(2) lf(1) m(1) by simp
  then have me: "?m = r @ ?f"
    using upd_prefix[OF m(1), of r ?f] m(2,4) l lf(1) by (simp add: min_def split: if_splits)
  have ib: "in_buf ?m 0 16" using lm by (simp add: in_buf_def)
  have st: "XXH32_stripe endian XXH_unaligned ?m 0 (acc state) = Some (stripe32 (acc state) ?m)"
    using stripe_ok[OF ib] lm by (simp add: seg_def)
  have "stripes 16 stripe32 (acc state) (r @ ys) = stripes 16 stripe32 (acc state) (?m @ drop (16 - length r) ys)"
    unfolding me by simp
  also have "\<dots> = stripes 16 stripe32 (stripe32 (acc state) ?m) (drop (16 - length r) ys)"
    using lm by (intro stripes_block) auto
  finally show ?thesis using l m(4) unfolding update_fill_def k c
    by (intro exI[of _ ?m] exI[of _ "stripe32 (acc state) ?m"] exI[of _ "16 - ?k"]) (simp add: nz st lf(2) c lm)
qed

lemma update_holds_ok:
  assumes h: "XXH32_holds seed state xs"
  shows "\<exists>state'. XXH32_update_endian state (Some ys) endian = Some (XXH_OK, state') \<and> XXH32_holds seed state' (xs @ ys)"
proof -
  obtain r where r: "stripes 16 stripe32 (initial_accumulators seed) xs = (acc state, r)" and m: "length (mem32 state) = 16"
    "take (length r) (mem32 state) = r" "memsize state = of_nat (length r)" "length r < 16"
    and t: "total_len_32 state = of_nat (length xs)" "large_len state \<longleftrightarrow> 16 \<le> length xs"
    using h by (auto simp: XXH32_holds_def)
  let ?len = "int (length ys)"
  define s0 where "s0 = state\<lparr>total_len_32 := total_len_32 state + of_int ?len,
     large_len := large_len state \<or> 16 \<le> ?len \<or> 16 \<le> total_len_32 state + of_int ?len\<rparr>"
  have s0: "acc s0 = acc state" "mem32 s0 = mem32 state" "memsize s0 = memsize state"
    "total_len_32 s0 = of_nat (length (xs @ ys))" "large_len s0 \<longleftrightarrow> 16 \<le> length (xs @ ys)"
    using t large_len_ok[of "length xs" "large_len state" "length ys"] by (auto simp: s0_def)
  have app: "stripes 16 stripe32 (initial_accumulators seed) (xs @ ys) = stripes 16 stripe32 (acc state) (r @ ys)"
    by (rule stripes_append[OF r])
  have k: "uint (memsize state) = int (length r)" using m(3,4) by (simp add: uint_of_nat32)
  have upd: "XXH32_update_endian state (Some ys) endian =
     (if uint (memsize s0) + ?len < 16 then do {
         mem \<leftarrow> memcpy_from (mem32 s0) (uint (memsize s0)) ys 0 ?len;
         Some (XXH_OK, s0\<lparr>mem32 := mem, memsize := memsize s0 + of_int ?len\<rparr>) }
      else do {
         (s1, p) \<leftarrow> update_fill s0 ys endian;
         (s2, p) \<leftarrow> update_stripes s1 ys p endian;
         s3 \<leftarrow> update_keep s2 ys p;
         Some (XXH_OK, s3) })"
    by (simp add: XXH32_update_endian_def s0_def Let_def)
  show ?thesis
  proof (cases "length r + length ys < 16")
    case True
    let ?m = "upd (mem32 state) (int (length r)) ys"
    have b: "in_buf ys 0 ?len" "in_buf (mem32 state) (int (length r)) ?len" using True m(1) by (auto simp: in_buf_def)
    have "XXH32_update_endian state (Some ys) endian = Some (XXH_OK, s0\<lparr>mem32 := ?m, memsize := of_nat (length (r @ ys))\<rparr>)"
      using True memcpy_from_ok[OF b] b(1) unfolding upd s0(1-3) k by (simp add: m(3))
    moreover have "take (length (r @ ys)) ?m = r @ ys" "length ?m = 16"
      using upd_prefix[OF m(1), of r ys] m(1,2) b(2) True by simp_all
    ultimately show ?thesis using True app s0 by (auto simp: XXH32_holds_def stripes_short)
  next
    case False
    obtain m1 v1 p1 where 1: "update_fill s0 ys endian = Some (s0\<lparr>mem32 := m1, acc := v1, memsize := 0\<rparr>, p1)" "length m1 = 16"
      "0 \<le> p1" "p1 \<le> ?len" "stripes 16 stripe32 (acc state) (r @ ys) = stripes 16 stripe32 v1 (drop (nat p1) ys)"
      using update_fill_ok[of s0 r ys endian] m False unfolding s0(1-3) by auto
    let ?s1 = "s0\<lparr>mem32 := m1, acc := v1, memsize := 0\<rparr>"
    obtain v2 p2 where 2: "update_stripes ?s1 ys p1 endian = Some (?s1\<lparr>acc := v2\<rparr>, p2)" "0 \<le> p2" "p2 \<le> ?len" "?len - p2 < 16"
      "stripes 16 stripe32 v1 (drop (nat p1) ys) = (v2, drop (nat p2) ys)"
      using update_stripes_ok[OF 1(3,4), of ?s1 endian] by auto
    let ?s2 = "?s1\<lparr>acc := v2\<rparr>"
    obtain m3 where 3: "update_keep ?s2 ys p2 = Some (?s2\<lparr>mem32 := m3, memsize := of_nat (length (drop (nat p2) ys))\<rparr>)"
      "length m3 = 16" "take (length (drop (nat p2) ys)) m3 = drop (nat p2) ys"
      using update_keep_ok[of ?s2 p2 ys] 1(2) 2(2-4) by auto
    have "XXH32_update_endian state (Some ys) endian = Some (XXH_OK, ?s2\<lparr>mem32 := m3, memsize := of_nat (length (drop (nat p2) ys))\<rparr>)"
      unfolding upd using False k 1(1) 2(1) 3(1) s0(3) by simp
    moreover have "length (drop (nat p2) ys) < 16" using 2(2-4) by simp
    ultimately show ?thesis using app 1(5) 2(5) 3(2,3) s0(4,5) by (auto simp: XXH32_holds_def)
  qed
qed

lemma digest_holds_ok: "XXH32_holds seed state xs \<Longrightarrow> XXH32_digest_endian state endian = Some (xxh32 seed xs)"
proof -
  assume "XXH32_holds seed state xs"
  then obtain r where r: "stripes 16 stripe32 (initial_accumulators seed) xs = (acc state, r)" and m: "length (mem32 state) = 16"
    "take (length r) (mem32 state) = r" "memsize state = of_nat (length r)" "length r < 16"
    and t: "total_len_32 state = of_nat (length xs)" "large_len state \<longleftrightarrow> 16 \<le> length xs"
    by (auto simp: XXH32_holds_def)
  have k: "uint (memsize state) = int (length r)" using m(3,4) by (simp add: uint_of_nat32)
  have b: "in_buf (mem32 state) 0 (int (length r))" using m(1,4) by (simp add: in_buf_def)
  have s: "seg (mem32 state) 0 (0 + int (length r)) = r" using m(2) by (simp add: seg_def)
  have v3: "fst (snd (snd (acc state))) = seed" if "length xs < 16"
  proof -
    have "acc state = initial_accumulators seed" using r that by (simp add: stripes_short)
    then show ?thesis by (simp add: initial_accumulators_def)
  qed
  show ?thesis using m(4) finalize_ok[OF b, unfolded s] v3
    by (auto simp: XXH32_digest_endian_def Let_def k t xxh32_def r)
qed

lemma XXH32_endian_align_ok: "XXH32_endian_align xs (int (length xs)) seed endian align = Some (xxh32 seed xs)"
proof (cases "16 \<le> length xs")
  case True
  let ?n = "int (length xs)"
  obtain v p where r: "oneshot_loop endian align xs (?n - 15) 0 (initial_accumulators seed) = Some (v, p)" "0 \<le> p" "p \<le> ?n"
    "?n - 15 \<le> p" "p mod 16 = 0" "stripes 16 stripe32 (initial_accumulators seed) (seg xs 0 ?n) = (v, seg xs p ?n)"
    using oneshot_loop_ok[of 0 "?n - 15" xs endian align "initial_accumulators seed"] True by auto
  have n: "?n mod 16 = ?n - p" using r(3-5) by (intro rest_of_blocks) auto
  have b: "in_buf xs p (?n - p)" "?n - p < 16" using r(2-4) by (auto simp: in_buf_def)
  have "XXH32_endian_align xs ?n seed endian align = XXH32_finalize (merge_accumulators v + of_nat (length xs)) xs p (?n - p) endian align"
    using True r(1) by (cases v) (simp add: XXH32_endian_align_def Let_def n)
  also have "\<dots> = Some (xxh32 seed xs)"
    using finalize_ok[OF b] r(6) True by (simp add: xxh32_def seg_full)
  finally show ?thesis .
next
  case False
  then have n: "int (length xs) mod 16 = int (length xs)" by simp
  have b: "in_buf xs 0 (int (length xs))" by (simp add: in_buf_def)
  show ?thesis using False finalize_ok[OF b] by (simp add: XXH32_endian_align_def n xxh32_def stripes_short seg_full)
qed

definition update32 :: "XXH_endianess \<Rightarrow> XXH32_state \<Rightarrow> bytes \<Rightarrow> XXH32_state option" where
  "update32 endian state ys = map_option snd (XXH32_update endian state (Some ys))"

interpretation xxh32: streaming_hash "update32 endian" "XXH32_digest endian" "xxh32 seed" "XXH32_holds seed" "\<lambda>n. True"
proof
  fix state xs ys
  assume "XXH32_holds seed state xs"
  from update_holds_ok[OF this, of ys endian]
  show "\<exists>state'. update32 endian state ys = Some state' \<and> XXH32_holds seed state' (xs @ ys)"
    by (auto simp: update32_def XXH32_update_def)
qed (simp_all add: XXH32_digest_def digest_holds_ok)

section \<open>Properties\<close>

text \<open>C24. \<open>XXH32\<close> is memory safe and machine independent: on either byte order, aligned or not, it reads
  only the input and returns the hash \<open>xxh32\<close> of its bytes.\<close>

theorem XXH32_portable: "XXH32 check_align endian addr xs (int (length xs)) seed = Some (xxh32 seed xs)"
  by (simp add: XXH32_def XXH32_endian_align_ok)

text \<open>C23. The streaming hash equals the one-shot hash: after \<open>XXH32_reset\<close>, updates with any chunks, of any
  sizes and number, succeed inside their buffers, and the digest is \<open>XXH32\<close> of the chunks joined.\<close>

theorem XXH32_streaming:
  "\<exists>state. update_all (\<lambda>s c. map_option snd (XXH32_update endian s (Some c))) (XXH32_reset seed) chunks = Some state
    \<and> XXH32_digest endian state = XXH32 check_align endian addr (concat chunks) (int (length (concat chunks))) seed"
proof -
  have "update32 endian = (\<lambda>s c. map_option snd (XXH32_update endian s (Some c)))" by (simp add: fun_eq_iff update32_def)
  then show ?thesis
    using xxh32.streaming_digest[OF reset_holds TrueI, where endian = endian and cs = chunks]
    by (simp add: XXH32_def XXH32_endian_align_ok)
qed

text \<open>C26. The canonical form of a hash is big-endian on every machine, and reading it back, on a machine
  of either byte order, gives the hash.\<close>

theorem XXH32_canonical_roundtrip:
  "XXH32_canonicalFromHash machine hash = rev (store_le32 hash)
    \<and> XXH32_hashFromCanonical machine' (XXH32_canonicalFromHash machine hash) = Some hash"
proof -
  have c: "XXH32_canonicalFromHash m hash = rev (store_le32 hash)" for m
    using store_le_word[of "rev (store_le32 hash)"] swap32_rev[of "rev (store_le32 hash)"]
    by (simp add: XXH32_canonicalFromHash_def word_bytes_def le_word_store)
  have "in_buf (rev (store_le32 hash)) 0 4" "seg (rev (store_le32 hash)) 0 4 = rev (store_le32 hash)"
    by (simp_all add: in_buf_def seg_def)
  then show ?thesis unfolding c using swap32_rev[of "store_le32 hash"]
    by (simp add: XXH32_hashFromCanonical_def XXH_readBE32_def XXH_read32_def rdn_def le_word_store)
qed

end
