(* ===== verification/XXHash64.thy ===== *)
theory XXHash64
  imports XXHash
begin

text \<open>
  \<open>xxhash.c\<close>, the 64-bit hash: \<open>XXH64\<close> and the streaming interface \<open>XXH64_reset\<close>,
  \<open>XXH64_update\<close>, \<open>XXH64_digest\<close>. The reads, the stripes and the contract \<open>streaming_hash\<close> are
  those of \<open>XXHash\<close>; here a stripe is 32 bytes. The digest looks at \<open>total_len\<close>, a 64-bit
  counter, so the streaming interface is proved for less than \<open>2 ^ 64\<close> bytes.
\<close>

section \<open>Reads\<close>

definition XXH_read64 :: "XXH_endianess \<Rightarrow> bytes \<Rightarrow> int \<Rightarrow> u64 option" where
  "XXH_read64 machine m p =
     map_option (\<lambda>bs. le_word (if machine = XXH_littleEndian then bs else rev bs)) (rdn m p 8)"

definition XXH_swap64 :: "u64 \<Rightarrow> u64" where
  "XXH_swap64 x = (push_bit 56 x AND 0xff00000000000000) OR (push_bit 40 x AND 0x00ff000000000000)
     OR (push_bit 24 x AND 0x0000ff0000000000) OR (push_bit 8 x AND 0x000000ff00000000)
     OR (drop_bit 8 x AND 0x00000000ff000000) OR (drop_bit 24 x AND 0x0000000000ff0000)
     OR (drop_bit 40 x AND 0x000000000000ff00) OR (drop_bit 56 x AND 0x00000000000000ff)"

definition XXH_readLE64_align :: "bytes \<Rightarrow> int \<Rightarrow> XXH_endianess \<Rightarrow> XXH_alignment \<Rightarrow> u64 option" where
  "XXH_readLE64_align m p endian align =
    (case align of
       XXH_unaligned \<Rightarrow> if endian = XXH_littleEndian then XXH_read64 endian m p
                        else map_option XXH_swap64 (XXH_read64 endian m p)
     | XXH_aligned \<Rightarrow> if endian = XXH_littleEndian then XXH_read64 endian m p
                      else map_option XXH_swap64 (XXH_read64 endian m p))"

definition XXH_readLE64 :: "bytes \<Rightarrow> int \<Rightarrow> XXH_endianess \<Rightarrow> u64 option" where
  "XXH_readLE64 m p endian = XXH_readLE64_align m p endian XXH_unaligned"

text \<open>Byte \<open>q\<close> of a word as a mask; the swap takes byte \<open>7 - q\<close> there.\<close>

lemma byte_mask64: "n < 64 \<Longrightarrow> bit (push_bit k (mask 8) :: u64) n \<longleftrightarrow> k \<le> n \<and> n < k + 8"
  by (auto simp: bit_push_bit_iff bit_mask_iff possible_bit_def)

lemma swap64_masks: "XXH_swap64 x = (push_bit 56 x AND push_bit 56 (mask 8)) OR (push_bit 40 x AND push_bit 48 (mask 8))
     OR (push_bit 24 x AND push_bit 40 (mask 8)) OR (push_bit 8 x AND push_bit 32 (mask 8))
     OR (drop_bit 8 x AND push_bit 24 (mask 8)) OR (drop_bit 24 x AND push_bit 16 (mask 8))
     OR (drop_bit 40 x AND push_bit 8 (mask 8)) OR (drop_bit 56 x AND push_bit 0 (mask 8))"
  unfolding XXH_swap64_def by (simp add: mask_eq_exp_minus_1 push_bit_eq_mult)

lemma bit_swap64:
  assumes "q < 8" "r < 8"
  shows "bit (XXH_swap64 x) (8 * q + r) \<longleftrightarrow> bit x (8 * (7 - q) + r)"
proof -
  have n: "8 * q + r < 64" using assms by simp
  have "q \<in> set [0..<8]" using assms by simp
  then show ?thesis unfolding swap64_masks bit_or_iff bit_and_iff byte_mask64[OF n] using assms(2)
    by (simp add: upt_rec) (elim disjE; simp add: bit_push_bit_iff bit_drop_bit_eq possible_bit_def add.commute)
qed

lemma swap64_le_word:
  assumes "length bs = 8"
  shows "XXH_swap64 (le_word bs) = le_word (rev bs)"
proof (rule bit_word_eqI)
  fix n assume "n < LENGTH(64)"
  then have n: "n = 8 * (n div 8) + n mod 8" "n div 8 < 8" "n mod 8 < 8" "n < 64" by auto
  let ?q = "n div 8"
  have m: "8 * (7 - ?q) + n mod 8 < 64" "(8 * (7 - ?q) + n mod 8) div 8 = 7 - ?q" "(8 * (7 - ?q) + n mod 8) mod 8 = n mod 8"
    using n(2) by auto
  have "bit (XXH_swap64 (le_word bs)) n \<longleftrightarrow> bit (le_word bs :: u64) (8 * (7 - ?q) + n mod 8)"
    using bit_swap64[OF n(2,3)] n(1) by simp
  also have "\<dots> \<longleftrightarrow> bit (bs ! (7 - ?q)) (n mod 8)" unfolding bit_le_word m using m(1) assms by simp
  also have "bs ! (7 - ?q) = rev bs ! ?q" using n(2) assms by (simp add: rev_nth)
  finally show "bit (XXH_swap64 (le_word bs)) n = bit (le_word (rev bs) :: u64) n"
    using n(2,4) assms by (simp add: bit_le_word)
qed

lemma wp_readLE64_align [wp_simps]:
  "wp (XXH_readLE64_align m p endian align) Q \<longleftrightarrow> in_buf m p 8 \<and> Q (le_word (seg m p (p + 8)))"
proof -
  have "in_buf m p 8 \<Longrightarrow> length (seg m p (p + 8)) = 8" by (auto simp: in_buf_def)
  then show ?thesis using swap64_le_word[of "rev (seg m p (p + 8))"]
    by (cases endian; cases align) (auto simp: XXH_readLE64_align_def XXH_read64_def wp_simps)
qed

lemma readLE64_ok: "in_buf m p 8 \<Longrightarrow> XXH_readLE64_align m p endian align = Some (le_word (seg m p (p + 8)))"
  using wp_readLE64_align[of m p endian align "\<lambda>w. w = le_word (seg m p (p + 8))"] by (auto simp: wp_iff)

lemma readLE32_ok: "in_buf m p 4 \<Longrightarrow> XXH_readLE32_align m p endian align = Some (le_word (seg m p (p + 4)))"
  using wp_readLE32_align[of m p endian align "\<lambda>w. w = le_word (seg m p (p + 4))"] by (auto simp: wp_iff)

section \<open>Rounds, avalanche, finalisation\<close>

abbreviation PRIME64_1 :: u64 where "PRIME64_1 \<equiv> 11400714785074694791"
abbreviation PRIME64_2 :: u64 where "PRIME64_2 \<equiv> 14029467366897019727"
abbreviation PRIME64_3 :: u64 where "PRIME64_3 \<equiv> 1609587929392839161"
abbreviation PRIME64_4 :: u64 where "PRIME64_4 \<equiv> 9650029242287828579"
abbreviation PRIME64_5 :: u64 where "PRIME64_5 \<equiv> 2870177450012600261"

definition XXH_rotl64 :: "u64 \<Rightarrow> nat \<Rightarrow> u64" where
  "XXH_rotl64 x r = (push_bit r x OR drop_bit (64 - r) x)"

definition XXH64_round :: "u64 \<Rightarrow> u64 \<Rightarrow> u64" where
  "XXH64_round a input = XXH_rotl64 (a + input * PRIME64_2) 31 * PRIME64_1"

definition XXH64_mergeRound :: "u64 \<Rightarrow> u64 \<Rightarrow> u64" where
  "XXH64_mergeRound a val = (a XOR XXH64_round 0 val) * PRIME64_1 + PRIME64_4"

definition XXH64_avalanche :: "u64 \<Rightarrow> u64" where
  "XXH64_avalanche h64 =
    (let h64 = h64 XOR drop_bit 33 h64; h64 = h64 * PRIME64_2;
         h64 = h64 XOR drop_bit 29 h64; h64 = h64 * PRIME64_3 in
     h64 XOR drop_bit 32 h64)"

datatype process64 = PROCESS1_64 | PROCESS4_64 | PROCESS8_64

definition finalize_switch64 :: "process64 list list" where
  "finalize_switch64 =
    [[],
     [PROCESS1_64],
     [PROCESS1_64, PROCESS1_64],
     [PROCESS1_64, PROCESS1_64, PROCESS1_64],
     [PROCESS4_64],
     [PROCESS4_64, PROCESS1_64],
     [PROCESS4_64, PROCESS1_64, PROCESS1_64],
     [PROCESS4_64, PROCESS1_64, PROCESS1_64, PROCESS1_64],
     [PROCESS8_64],
     [PROCESS8_64, PROCESS1_64],
     [PROCESS8_64, PROCESS1_64, PROCESS1_64],
     [PROCESS8_64, PROCESS1_64, PROCESS1_64, PROCESS1_64],
     [PROCESS8_64, PROCESS4_64],
     [PROCESS8_64, PROCESS4_64, PROCESS1_64],
     [PROCESS8_64, PROCESS4_64, PROCESS1_64, PROCESS1_64],
     [PROCESS8_64, PROCESS4_64, PROCESS1_64, PROCESS1_64, PROCESS1_64],
     [PROCESS8_64, PROCESS8_64],
     [PROCESS8_64, PROCESS8_64, PROCESS1_64],
     [PROCESS8_64, PROCESS8_64, PROCESS1_64, PROCESS1_64],
     [PROCESS8_64, PROCESS8_64, PROCESS1_64, PROCESS1_64, PROCESS1_64],
     [PROCESS8_64, PROCESS8_64, PROCESS4_64],
     [PROCESS8_64, PROCESS8_64, PROCESS4_64, PROCESS1_64],
     [PROCESS8_64, PROCESS8_64, PROCESS4_64, PROCESS1_64, PROCESS1_64],
     [PROCESS8_64, PROCESS8_64, PROCESS4_64, PROCESS1_64, PROCESS1_64, PROCESS1_64],
     [PROCESS8_64, PROCESS8_64, PROCESS8_64],
     [PROCESS8_64, PROCESS8_64, PROCESS8_64, PROCESS1_64],
     [PROCESS8_64, PROCESS8_64, PROCESS8_64, PROCESS1_64, PROCESS1_64],
     [PROCESS8_64, PROCESS8_64, PROCESS8_64, PROCESS1_64, PROCESS1_64, PROCESS1_64],
     [PROCESS8_64, PROCESS8_64, PROCESS8_64, PROCESS4_64],
     [PROCESS8_64, PROCESS8_64, PROCESS8_64, PROCESS4_64, PROCESS1_64],
     [PROCESS8_64, PROCESS8_64, PROCESS8_64, PROCESS4_64, PROCESS1_64, PROCESS1_64],
     [PROCESS8_64, PROCESS8_64, PROCESS8_64, PROCESS4_64, PROCESS1_64, PROCESS1_64, PROCESS1_64]]"

fun run_processes64 :: "XXH_endianess \<Rightarrow> XXH_alignment \<Rightarrow> bytes \<Rightarrow> process64 list \<Rightarrow> int \<Rightarrow> u64 \<Rightarrow> u64 option" where
  "run_processes64 endian align m [] p h64 = Some h64"
| "run_processes64 endian align m (PROCESS1_64 # ps) p h64 = do {
     b \<leftarrow> ld m p;
     let h64 = h64 XOR (ucast b * PRIME64_5);
     run_processes64 endian align m ps (p + 1) (XXH_rotl64 h64 11 * PRIME64_1) }"
| "run_processes64 endian align m (PROCESS4_64 # ps) p h64 = do {
     w \<leftarrow> XXH_readLE32_align m p endian align;
     let h64 = h64 XOR (ucast w * PRIME64_1);
     run_processes64 endian align m ps (p + 4) (XXH_rotl64 h64 23 * PRIME64_2 + PRIME64_3) }"
| "run_processes64 endian align m (PROCESS8_64 # ps) p h64 = do {
     w \<leftarrow> XXH_readLE64_align m p endian align;
     let h64 = h64 XOR XXH64_round 0 w;
     run_processes64 endian align m ps (p + 8) (XXH_rotl64 h64 27 * PRIME64_1 + PRIME64_4) }"

definition XXH64_finalize :: "u64 \<Rightarrow> bytes \<Rightarrow> int \<Rightarrow> int \<Rightarrow> XXH_endianess \<Rightarrow> XXH_alignment \<Rightarrow> u64 option" where
  "XXH64_finalize h64 m p len endian align =
     map_option XXH64_avalanche (run_processes64 endian align m (finalize_switch64 ! nat (len mod 32)) p h64)"

section \<open>One-shot hashing\<close>

type_synonym accumulators64 = "u64 \<times> u64 \<times> u64 \<times> u64"

definition initial_accumulators64 :: "u64 \<Rightarrow> accumulators64" where
  "initial_accumulators64 seed = (seed + PRIME64_1 + PRIME64_2, seed + PRIME64_2, seed + 0, seed - PRIME64_1)"

definition XXH64_stripe :: "XXH_endianess \<Rightarrow> XXH_alignment \<Rightarrow> bytes \<Rightarrow> int \<Rightarrow> accumulators64 \<Rightarrow> accumulators64 option" where
  "XXH64_stripe endian align m p v = (case v of (v1, v2, v3, v4) \<Rightarrow> do {
     w1 \<leftarrow> XXH_readLE64_align m p endian align;
     w2 \<leftarrow> XXH_readLE64_align m (p + 8) endian align;
     w3 \<leftarrow> XXH_readLE64_align m (p + 16) endian align;
     w4 \<leftarrow> XXH_readLE64_align m (p + 24) endian align;
     Some (XXH64_round v1 w1, XXH64_round v2 w2, XXH64_round v3 w3, XXH64_round v4 w4) })"

text \<open>The do-while loop, the same in the one-shot routine and in the update.\<close>

function stripes_loop64 ::
  "XXH_endianess \<Rightarrow> XXH_alignment \<Rightarrow> bytes \<Rightarrow> int \<Rightarrow> int \<Rightarrow> accumulators64 \<Rightarrow> (accumulators64 \<times> int) option" where
  "stripes_loop64 endian align m limit p v = do {
     v \<leftarrow> XXH64_stripe endian align m p v;
     if p + 32 \<le> limit then stripes_loop64 endian align m limit (p + 32) v else Some (v, p + 32) }"
  by pat_completeness auto
termination
  by (relation "measure (\<lambda>(endian, align, m, limit, p, v). nat (limit + 1 - p))") auto

declare stripes_loop64.simps [simp del]

definition merge_accumulators64 :: "accumulators64 \<Rightarrow> u64" where
  "merge_accumulators64 v = (case v of (v1, v2, v3, v4) \<Rightarrow>
     let h64 = XXH_rotl64 v1 1 + XXH_rotl64 v2 7 + XXH_rotl64 v3 12 + XXH_rotl64 v4 18;
         h64 = XXH64_mergeRound h64 v1; h64 = XXH64_mergeRound h64 v2; h64 = XXH64_mergeRound h64 v3 in
     XXH64_mergeRound h64 v4)"

definition XXH64_endian_align :: "bytes \<Rightarrow> int \<Rightarrow> u64 \<Rightarrow> XXH_endianess \<Rightarrow> XXH_alignment \<Rightarrow> u64 option" where
  "XXH64_endian_align input len seed endian align = do {
     let bEnd = len;
     (h64, p) \<leftarrow> (if len \<ge> 32 then do {
                    (v, p) \<leftarrow> stripes_loop64 endian align input (bEnd - 32) 0 (initial_accumulators64 seed);
                    Some (merge_accumulators64 v, p) }
                  else Some (seed + PRIME64_5, 0));
     XXH64_finalize (h64 + of_int len) input p len endian align }"

definition XXH64 :: "bool \<Rightarrow> XXH_endianess \<Rightarrow> int \<Rightarrow> bytes \<Rightarrow> int \<Rightarrow> u64 \<Rightarrow> u64 option" where
  "XXH64 check_align endian addr input len seed =
    (if check_align \<and> addr mod 8 = 0 then XXH64_endian_align input len seed endian XXH_aligned
     else XXH64_endian_align input len seed endian XXH_unaligned)"

section \<open>Streaming\<close>

record XXH64_state =
  total_len :: u64
  acc64 :: accumulators64
  mem64 :: bytes
  memsize64 :: u32

definition XXH64_reset :: "u64 \<Rightarrow> XXH64_state" where
  "XXH64_reset seed = \<lparr>total_len = 0, acc64 = initial_accumulators64 seed, mem64 = replicate 32 0, memsize64 = 0\<rparr>"

definition update_fill64 :: "XXH64_state \<Rightarrow> bytes \<Rightarrow> XXH_endianess \<Rightarrow> (XXH64_state \<times> int) option" where
  "update_fill64 state input endian =
    (if memsize64 state \<noteq> 0 then do {
       mem \<leftarrow> memcpy_from (mem64 state) (uint (memsize64 state)) input 0 (32 - uint (memsize64 state));
       v \<leftarrow> XXH64_stripe endian XXH_unaligned mem 0 (acc64 state);
       Some (state\<lparr>mem64 := mem, acc64 := v, memsize64 := 0\<rparr>, 32 - uint (memsize64 state)) }
     else Some (state, 0))"

definition update_stripes64 :: "XXH64_state \<Rightarrow> bytes \<Rightarrow> int \<Rightarrow> XXH_endianess \<Rightarrow> (XXH64_state \<times> int) option" where
  "update_stripes64 state input p endian =
    (let bEnd = int (length input) in
     if p + 32 \<le> bEnd then do {
       (v, p) \<leftarrow> stripes_loop64 endian XXH_unaligned input (bEnd - 32) p (acc64 state);
       Some (state\<lparr>acc64 := v\<rparr>, p) }
     else Some (state, p))"

definition update_keep64 :: "XXH64_state \<Rightarrow> bytes \<Rightarrow> int \<Rightarrow> XXH64_state option" where
  "update_keep64 state input p =
    (let bEnd = int (length input) in
     if p < bEnd then do {
       mem \<leftarrow> memcpy_from (mem64 state) 0 input p (bEnd - p);
       Some (state\<lparr>mem64 := mem, memsize64 := of_int (bEnd - p)\<rparr>) }
     else Some state)"

definition XXH64_update_endian :: "XXH64_state \<Rightarrow> bytes option \<Rightarrow> XXH_endianess \<Rightarrow> (XXH_errorcode \<times> XXH64_state) option" where
  "XXH64_update_endian state input_ptr endian =
    (case input_ptr of None \<Rightarrow> Some (XXH_ERROR, state)
     | Some input \<Rightarrow>
       let len = int (length input); state = state\<lparr>total_len := total_len state + of_int len\<rparr> in
       if uint (memsize64 state) + len < 32 then do {
         mem \<leftarrow> memcpy_from (mem64 state) (uint (memsize64 state)) input 0 len;
         Some (XXH_OK, state\<lparr>mem64 := mem, memsize64 := memsize64 state + of_int len\<rparr>) }
       else do {
         (state, p) \<leftarrow> update_fill64 state input endian;
         (state, p) \<leftarrow> update_stripes64 state input p endian;
         state \<leftarrow> update_keep64 state input p;
         Some (XXH_OK, state) })"

definition XXH64_update :: "XXH_endianess \<Rightarrow> XXH64_state \<Rightarrow> bytes option \<Rightarrow> (XXH_errorcode \<times> XXH64_state) option" where
  "XXH64_update endian_detected state input = XXH64_update_endian state input endian_detected"

definition XXH64_digest_endian :: "XXH64_state \<Rightarrow> XXH_endianess \<Rightarrow> u64 option" where
  "XXH64_digest_endian state endian =
    (let h64 = (if total_len state \<ge> 32 then merge_accumulators64 (acc64 state)
                else fst (snd (snd (acc64 state))) + PRIME64_5) in
     XXH64_finalize (h64 + total_len state) (mem64 state) 0 (uint (total_len state)) endian XXH_aligned)"

definition XXH64_digest :: "XXH_endianess \<Rightarrow> XXH64_state \<Rightarrow> u64 option" where
  "XXH64_digest endian_detected state = XXH64_digest_endian state endian_detected"

section \<open>The hash of a byte list\<close>

definition stripe64 :: "accumulators64 \<Rightarrow> bytes \<Rightarrow> accumulators64" where
  "stripe64 v bs = (case v of (v1, v2, v3, v4) \<Rightarrow>
     (XXH64_round v1 (le_word (take 8 bs)), XXH64_round v2 (le_word (take 8 (drop 8 bs))),
      XXH64_round v3 (le_word (take 8 (drop 16 bs))), XXH64_round v4 (le_word (take 8 (drop 24 bs)))))"

definition tail1 :: "u64 \<Rightarrow> byte \<Rightarrow> u64" where
  "tail1 h b = XXH_rotl64 (h XOR (ucast b * PRIME64_5)) 11 * PRIME64_1"

definition tail4 :: "u64 \<Rightarrow> bytes \<Rightarrow> u64" where
  "tail4 h bs = XXH_rotl64 (h XOR (ucast (le_word bs :: u32) * PRIME64_1)) 23 * PRIME64_2 + PRIME64_3"

definition tail8 :: "u64 \<Rightarrow> bytes \<Rightarrow> u64" where
  "tail8 h bs = XXH_rotl64 (h XOR XXH64_round 0 (le_word bs)) 27 * PRIME64_1 + PRIME64_4"

definition tail64 :: "u64 \<Rightarrow> bytes \<Rightarrow> u64" where
  "tail64 h xs = (case stripes 8 tail8 h xs of (h, r) \<Rightarrow> case stripes 4 tail4 h r of (h, r) \<Rightarrow> foldl tail1 h r)"

definition xxh64 :: "u64 \<Rightarrow> bytes \<Rightarrow> u64" where
  "xxh64 seed xs = (case stripes 32 stripe64 (initial_accumulators64 seed) xs of (v, r) \<Rightarrow>
     XXH64_avalanche (tail64 ((if length xs \<ge> 32 then merge_accumulators64 v else seed + PRIME64_5) + of_nat (length xs)) r))"

lemma stripe64_ok:
  assumes "in_buf m p 32"
  shows "XXH64_stripe endian align m p v = Some (stripe64 v (seg m p (p + 32)))"
proof -
  have b: "0 \<le> p" "p + 32 \<le> int (length m)" using assms by (auto simp: in_buf_def)
  have q: "in_buf m p 8" "in_buf m (p + 8) 8" "in_buf m (p + 16) 8" "in_buf m (p + 24) 8"
    using b by (auto simp: in_buf_def)
  show ?thesis
    using b seg_within[of p 0 8 32 m] seg_within[of p 8 16 32 m] seg_within[of p 16 24 32 m] seg_within[of p 24 32 32 m]
    by (cases v) (simp add: XXH64_stripe_def stripe64_def readLE64_ok[OF q(1)] readLE64_ok[OF q(2)] readLE64_ok[OF q(3)]
        readLE64_ok[OF q(4)] add.assoc)
qed

lemma stripes_loop64_ok:
  assumes "0 \<le> p" "p \<le> limit" "limit + 32 \<le> int (length m)"
  shows "\<exists>v' p'. stripes_loop64 endian align m limit p v = Some (v', p') \<and> p \<le> p' \<and> p' \<le> limit + 32 \<and> limit < p'
    \<and> (p' - p) mod 32 = 0 \<and> stripes 32 stripe64 v (seg m p (limit + 32)) = (v', seg m p' (limit + 32))"
  using assms
proof (induction endian align m limit p v rule: stripes_loop64.induct)
  case (1 endian align m limit p v)
  let ?v = "stripe64 v (seg m p (p + 32))"
  have b: "in_buf m p 32" using 1(2-4) by (simp add: in_buf_def)
  have e: "seg m p (limit + 32) = seg m p (p + 32) @ seg m (p + 32) (limit + 32)" using 1(2,3) by (intro seg_append) auto
  have s: "stripes 32 stripe64 v (seg m p (limit + 32)) = stripes 32 stripe64 ?v (seg m (p + 32) (limit + 32))"
    unfolding e using 1(2-4) by (intro stripes_block) auto
  show ?case
  proof (cases "p + 32 \<le> limit")
    case True
    obtain v' p' where r: "stripes_loop64 endian align m limit (p + 32) ?v = Some (v', p')" "p + 32 \<le> p'" "p' \<le> limit + 32" "limit < p'"
      "(p' - (p + 32)) mod 32 = 0" "stripes 32 stripe64 ?v (seg m (p + 32) (limit + 32)) = (v', seg m p' (limit + 32))"
      using 1(1)[OF stripe64_ok[OF b] True] 1(2-4) True by auto
    have "(p' - p) mod 32 = 0" by (rule next_block[OF r(5)])
    then show ?thesis using r s True by (cases v', subst stripes_loop64.simps) (simp add: stripe64_ok[OF b])
  next
    case False
    have "length (seg m (p + 32) (limit + 32)) < 32" using 1(2-4) False by simp
    then show ?thesis using s False 1(2-4)
      by (cases ?v, subst stripes_loop64.simps) (simp add: stripe64_ok[OF b] stripes_short)
  qed
qed

lemma finalize_switch64_nth:
  assumes "n < 32"
  shows "finalize_switch64 ! n =
    replicate (n div 8) PROCESS8_64 @ replicate (n mod 8 div 4) PROCESS4_64 @ replicate (n mod 4) PROCESS1_64"
proof -
  have r: "replicate 2 x = [x, x]" "replicate 3 x = [x, x, x]" for x :: process64 by (simp_all add: numeral_eq_Suc)
  have e: "finalize_switch64
      = map (\<lambda>n. replicate (n div 8) PROCESS8_64 @ replicate (n mod 8 div 4) PROCESS4_64 @ replicate (n mod 4) PROCESS1_64) [0..<32]"
    by (simp add: finalize_switch64_def upt_rec r)
  show ?thesis unfolding e using assms by simp
qed

lemma run_ones64:
  "in_buf m p (int n) \<Longrightarrow> run_processes64 endian align m (replicate n PROCESS1_64) p h = Some (foldl tail1 h (seg m p (p + int n)))"
proof (induction n arbitrary: p h)
  case (Suc n)
  have b: "in_buf m p 1" "in_buf m (p + 1) (int n)" using Suc.prems by (auto simp: in_buf_def)
  have "p + int (Suc n) = p + 1 + int n" by simp
  then have "seg m p (p + int (Suc n)) = seg m p (p + 1) @ seg m (p + 1) (p + 1 + int n)"
    using Suc.prems seg_append[of p "p + 1" "p + 1 + int n" m] by (simp only: in_buf_def)
  also have "seg m p (p + 1) = [at m p]" using b(1) by (simp add: in_buf_def seg_one at_def)
  finally show ?case using b Suc.IH[OF b(2)] by (simp add: ld_def tail1_def Let_def)
qed simp

lemma run_fours64:
  assumes "in_buf m p (int (4 * a + b))" "a < 2" "b < 4"
  shows "run_processes64 endian align m (replicate a PROCESS4_64 @ replicate b PROCESS1_64) p h
    = Some (case stripes 4 tail4 h (seg m p (p + int (4 * a + b))) of (h, r) \<Rightarrow> foldl tail1 h r)"
proof -
  have short: "stripes 4 tail4 h' (seg m q (q + int b)) = (h', seg m q (q + int b))" if "in_buf m q (int b)" for q h'
    using that assms(3) by (intro stripes_short) (simp add: in_buf_def)
  show ?thesis
  proof (cases "a = 0")
    case True
    then show ?thesis using assms(1) by (simp add: run_ones64 short)
  next
    case False
    then have a: "a = 1" using assms(2) by simp
    have q: "in_buf m p 4" "in_buf m (p + 4) (int b)" using assms(1) a by (auto simp: in_buf_def)
    have e: "seg m p (p + int (4 * a + b)) = seg m p (p + 4) @ seg m (p + 4) (p + 4 + int b)"
      using assms(1) a seg_append[of p "p + 4" "p + int (4 * a + b)" m] by (simp add: in_buf_def algebra_simps)
    have "stripes 4 tail4 h (seg m p (p + int (4 * a + b))) = stripes 4 tail4 (tail4 h (seg m p (p + 4))) (seg m (p + 4) (p + 4 + int b))"
      unfolding e using q(1) by (intro stripes_block) (auto simp: in_buf_def)
    then show ?thesis using q a by (simp add: short[OF q(2)] readLE32_ok run_ones64 tail4_def Let_def)
  qed
qed

lemma run_all64:
  assumes "in_buf m p (int (8 * c + (4 * a + b)))" "a < 2" "b < 4"
  shows "run_processes64 endian align m (replicate c PROCESS8_64 @ replicate a PROCESS4_64 @ replicate b PROCESS1_64) p h
    = Some (tail64 h (seg m p (p + int (8 * c + (4 * a + b)))))"
  using assms(1)
proof (induction c arbitrary: p h)
  case 0
  have "length (seg m p (p + int (4 * a + b))) < 8" using 0 assms(2,3) by (simp add: in_buf_def)
  then show ?case using 0 run_fours64[OF _ assms(2,3), of m p endian align h] by (simp add: tail64_def stripes_short)
next
  case (Suc c)
  let ?k = "4 * a + b"
  have b: "in_buf m p 8" "in_buf m (p + 8) (int (8 * c + ?k))" using Suc.prems by (auto simp: in_buf_def)
  have e: "seg m p (p + int (8 * Suc c + ?k)) = seg m p (p + 8) @ seg m (p + 8) (p + 8 + int (8 * c + ?k))"
    using Suc.prems seg_append[of p "p + 8" "p + int (8 * Suc c + ?k)" m] by (simp add: in_buf_def algebra_simps)
  have "tail64 h (seg m p (p + int (8 * Suc c + ?k))) = tail64 (tail8 h (seg m p (p + 8))) (seg m (p + 8) (p + 8 + int (8 * c + ?k)))"
    unfolding e tail64_def using b(1) by (subst stripes_block) (auto simp: in_buf_def)
  then show ?case using Suc.IH[OF b(2)] by (simp add: tail8_def Let_def readLE64_ok[OF b(1)])
qed

lemma finalize64_ok:
  assumes "in_buf m p n" "n < 32" "len mod 32 = n"
  shows "XXH64_finalize h m p len endian align = Some (XXH64_avalanche (tail64 h (seg m p (p + n))))"
proof -
  let ?n = "nat n"
  have n: "0 \<le> n" "?n < 32" using assms by (auto simp: in_buf_def)
  have e: "int (8 * (?n div 8) + (4 * (?n mod 8 div 4) + ?n mod 4)) = n"
  proof -
    have "8 * (k div 8) + (4 * (k mod 8 div 4) + k mod 4) = k" for k :: nat by presburger
    from this[of ?n] show ?thesis using n(1) by simp
  qed
  have l: "?n mod 8 div 4 < 2" "?n mod 4 < 4" by (simp_all add: less_mult_imp_div_less)
  show ?thesis unfolding XXH64_finalize_def assms(3)
    using run_all64[OF _ l, of m p "?n div 8" endian align h] assms(1) unfolding e finalize_switch64_nth[OF n(2)] by simp
qed

section \<open>The streaming interface\<close>

definition XXH64_holds :: "u64 \<Rightarrow> XXH64_state \<Rightarrow> bytes \<Rightarrow> bool" where
  "XXH64_holds seed state xs \<longleftrightarrow> length xs < 2 ^ 64
     \<and> (\<exists>r. stripes 32 stripe64 (initial_accumulators64 seed) xs = (acc64 state, r)
     \<and> length (mem64 state) = 32 \<and> length r < 32 \<and> take (length r) (mem64 state) = r
     \<and> memsize64 state = of_nat (length r) \<and> total_len state = of_nat (length xs))"

lemma reset64_holds: "XXH64_holds seed (XXH64_reset seed) []"
  by (simp add: XXH64_holds_def XXH64_reset_def stripes_short)

lemma uint_small32: "n < 32 \<Longrightarrow> uint (of_nat n :: u32) = int n"
  by (simp add: uint_nat unat_of_nat take_bit_eq_mod)

lemma uint_small64: "n < 2 ^ 64 \<Longrightarrow> uint (of_nat n :: u64) = int n"
  by (simp add: uint_nat unat_of_nat take_bit_eq_mod)

lemma update_keep64_ok:
  assumes "length (mem64 state) = 32" "0 \<le> p" "p \<le> int (length ys)" "int (length ys) - p < 32" "memsize64 state = 0"
  shows "\<exists>m. update_keep64 state ys p = Some (state\<lparr>mem64 := m, memsize64 := of_nat (length (drop (nat p) ys))\<rparr>)
      \<and> length m = 32 \<and> take (length (drop (nat p) ys)) m = drop (nat p) ys"
proof (cases "p < int (length ys)")
  case True
  let ?r = "drop (nat p) ys" let ?m = "upd (mem64 state) 0 ?r"
  have n: "int (length ys) - p = int (length ?r)" using assms(2) True by simp
  have b: "in_buf ys p (int (length ?r))" "in_buf (mem64 state) 0 (int (length ?r))"
    using assms True by (auto simp: in_buf_def)
  have s: "seg ys p (p + int (length ?r)) = ?r" using assms(2) True by (simp add: seg_def)
  have "update_keep64 state ys p = Some (state\<lparr>mem64 := ?m, memsize64 := of_nat (length ?r)\<rparr>)"
    unfolding update_keep64_def Let_def n using True memcpy_from_ok[OF b] s by simp
  moreover have "length ?m = 32" using b(2) assms(1) by simp
  moreover have "take (length ?r) ?m = ?r" by (simp add: upd_def)
  ultimately show ?thesis by blast
next
  case False
  then have "drop (nat p) ys = []" using assms(3) by simp
  then show ?thesis using False assms(1,5) by (cases state) (auto simp: update_keep64_def Let_def)
qed

lemma update_stripes64_ok:
  assumes "0 \<le> p" "p \<le> int (length ys)"
  shows "\<exists>v p'. update_stripes64 state ys p endian = Some (state\<lparr>acc64 := v\<rparr>, p') \<and> 0 \<le> p' \<and> p' \<le> int (length ys)
    \<and> int (length ys) - p' < 32 \<and> stripes 32 stripe64 (acc64 state) (drop (nat p) ys) = (v, drop (nat p') ys)"
proof (cases "p + 32 \<le> int (length ys)")
  case True
  obtain v' p' where "stripes_loop64 endian XXH_unaligned ys (int (length ys) - 32) p (acc64 state) = Some (v', p')" "p \<le> p'"
    "p' \<le> int (length ys)" "int (length ys) - 32 < p'"
    "stripes 32 stripe64 (acc64 state) (seg ys p (int (length ys))) = (v', seg ys p' (int (length ys)))"
    using stripes_loop64_ok[of p "int (length ys) - 32" ys endian XXH_unaligned "acc64 state"] assms True by auto
  then show ?thesis using True assms
    by (cases v') (auto simp: update_stripes64_def Let_def seg_to_end)
next
  case False
  then have "length (drop (nat p) ys) < 32" using assms by simp
  then show ?thesis using False assms stripes_short[of "drop (nat p) ys" 32]
    by (intro exI[of _ "acc64 state"] exI[of _ p]) (simp add: update_stripes64_def Let_def)
qed

lemma update_fill64_ok:
  assumes m: "length (mem64 state) = 32" "take (length r) (mem64 state) = r" "memsize64 state = of_nat (length r)" "length r < 32"
    and l: "32 \<le> length r + length ys"
  shows "\<exists>m v p. update_fill64 state ys endian = Some (state\<lparr>mem64 := m, acc64 := v, memsize64 := 0\<rparr>, p) \<and> length m = 32
    \<and> 0 \<le> p \<and> p \<le> int (length ys) \<and> stripes 32 stripe64 (acc64 state) (r @ ys) = stripes 32 stripe64 v (drop (nat p) ys)"
proof (cases "r = []")
  case True
  then show ?thesis using m
    by (intro exI[of _ "mem64 state"] exI[of _ "acc64 state"] exI[of _ 0]) (simp add: update_fill64_def)
next
  case False
  let ?k = "int (length r)" let ?f = "take (32 - length r) ys" let ?m = "upd (mem64 state) ?k ?f"
  have k: "uint (memsize64 state) = ?k" using m(3,4) by (simp add: uint_small32)
  then have nz: "memsize64 state \<noteq> 0" using False by auto
  have lf: "int (length ?f) = 32 - ?k" "nat (32 - ?k) = 32 - length r" using l m(4) by auto
  have b: "in_buf ys 0 (32 - ?k)" "in_buf (mem64 state) ?k (32 - ?k)" using l m(1,4) by (auto simp: in_buf_def)
  have c: "memcpy_from (mem64 state) ?k ys 0 (32 - ?k) = Some ?m"
    using memcpy_from_ok[OF b] b(1) lf(2) by simp
  have lm: "length ?m = 32" using b(2) lf(1) m(1) by simp
  then have me: "?m = r @ ?f"
    using upd_prefix[OF m(1), of r ?f] m(2,4) l lf(1) by (simp add: min_def split: if_splits)
  have ib: "in_buf ?m 0 32" using lm by (simp add: in_buf_def)
  have st: "XXH64_stripe endian XXH_unaligned ?m 0 (acc64 state) = Some (stripe64 (acc64 state) ?m)"
    using stripe64_ok[OF ib] lm by (simp add: seg_def)
  have "stripes 32 stripe64 (acc64 state) (r @ ys) = stripes 32 stripe64 (acc64 state) (?m @ drop (32 - length r) ys)"
    unfolding me by simp
  also have "\<dots> = stripes 32 stripe64 (stripe64 (acc64 state) ?m) (drop (32 - length r) ys)"
    using lm by (intro stripes_block) auto
  finally show ?thesis using l m(4) unfolding update_fill64_def k c
    by (intro exI[of _ ?m] exI[of _ "stripe64 (acc64 state) ?m"] exI[of _ "32 - ?k"]) (simp add: nz st lf(2) c lm)
qed

lemma update64_holds_ok:
  assumes h: "XXH64_holds seed state xs" and fits: "length (xs @ ys) < 2 ^ 64"
  shows "\<exists>state'. XXH64_update_endian state (Some ys) endian = Some (XXH_OK, state') \<and> XXH64_holds seed state' (xs @ ys)"
proof -
  obtain r where r: "stripes 32 stripe64 (initial_accumulators64 seed) xs = (acc64 state, r)" and m: "length (mem64 state) = 32"
    "take (length r) (mem64 state) = r" "memsize64 state = of_nat (length r)" "length r < 32" and t: "total_len state = of_nat (length xs)"
    using h by (auto simp: XXH64_holds_def)
  let ?len = "int (length ys)"
  define s0 where "s0 = state\<lparr>total_len := total_len state + of_int ?len\<rparr>"
  have s0: "acc64 s0 = acc64 state" "mem64 s0 = mem64 state" "memsize64 s0 = memsize64 state"
    "total_len s0 = of_nat (length (xs @ ys))"
    using t by (auto simp: s0_def)
  have app: "stripes 32 stripe64 (initial_accumulators64 seed) (xs @ ys) = stripes 32 stripe64 (acc64 state) (r @ ys)"
    by (rule stripes_append[OF r])
  have k: "uint (memsize64 state) = int (length r)" using m(3,4) by (simp add: uint_small32)
  have upd: "XXH64_update_endian state (Some ys) endian =
     (if uint (memsize64 s0) + ?len < 32 then do {
         mem \<leftarrow> memcpy_from (mem64 s0) (uint (memsize64 s0)) ys 0 ?len;
         Some (XXH_OK, s0\<lparr>mem64 := mem, memsize64 := memsize64 s0 + of_int ?len\<rparr>) }
      else do {
         (s1, p) \<leftarrow> update_fill64 s0 ys endian;
         (s2, p) \<leftarrow> update_stripes64 s1 ys p endian;
         s3 \<leftarrow> update_keep64 s2 ys p;
         Some (XXH_OK, s3) })"
    by (simp add: XXH64_update_endian_def s0_def Let_def)
  show ?thesis
  proof (cases "length r + length ys < 32")
    case True
    let ?m = "upd (mem64 state) (int (length r)) ys"
    have b: "in_buf ys 0 ?len" "in_buf (mem64 state) (int (length r)) ?len" using True m(1) by (auto simp: in_buf_def)
    have "XXH64_update_endian state (Some ys) endian = Some (XXH_OK, s0\<lparr>mem64 := ?m, memsize64 := of_nat (length (r @ ys))\<rparr>)"
      using True memcpy_from_ok[OF b] b(1) unfolding upd s0(1-3) k by (simp add: m(3))
    moreover have "take (length (r @ ys)) ?m = r @ ys" "length ?m = 32"
      using upd_prefix[OF m(1), of r ys] m(1,2) b(2) True by simp_all
    ultimately show ?thesis using True app s0 fits by (auto simp: XXH64_holds_def stripes_short)
  next
    case False
    obtain m1 v1 p1 where 1: "update_fill64 s0 ys endian = Some (s0\<lparr>mem64 := m1, acc64 := v1, memsize64 := 0\<rparr>, p1)" "length m1 = 32"
      "0 \<le> p1" "p1 \<le> ?len" "stripes 32 stripe64 (acc64 state) (r @ ys) = stripes 32 stripe64 v1 (drop (nat p1) ys)"
      using update_fill64_ok[of s0 r ys endian] m False unfolding s0(1-3) by auto
    let ?s1 = "s0\<lparr>mem64 := m1, acc64 := v1, memsize64 := 0\<rparr>"
    obtain v2 p2 where 2: "update_stripes64 ?s1 ys p1 endian = Some (?s1\<lparr>acc64 := v2\<rparr>, p2)" "0 \<le> p2" "p2 \<le> ?len" "?len - p2 < 32"
      "stripes 32 stripe64 v1 (drop (nat p1) ys) = (v2, drop (nat p2) ys)"
      using update_stripes64_ok[OF 1(3,4), of ?s1 endian] by auto
    let ?s2 = "?s1\<lparr>acc64 := v2\<rparr>"
    obtain m3 where 3: "update_keep64 ?s2 ys p2 = Some (?s2\<lparr>mem64 := m3, memsize64 := of_nat (length (drop (nat p2) ys))\<rparr>)"
      "length m3 = 32" "take (length (drop (nat p2) ys)) m3 = drop (nat p2) ys"
      using update_keep64_ok[of ?s2 p2 ys] 1(2) 2(2-4) by auto
    have "XXH64_update_endian state (Some ys) endian = Some (XXH_OK, ?s2\<lparr>mem64 := m3, memsize64 := of_nat (length (drop (nat p2) ys))\<rparr>)"
      unfolding upd using False k 1(1) 2(1) 3(1) s0(3) by simp
    moreover have "length (drop (nat p2) ys) < 32" using 2(2-4) by simp
    ultimately show ?thesis using app 1(5) 2(5) 3(2,3) s0(4) fits by (auto simp: XXH64_holds_def)
  qed
qed

lemma digest64_holds_ok: "XXH64_holds seed state xs \<Longrightarrow> XXH64_digest_endian state endian = Some (xxh64 seed xs)"
proof -
  assume "XXH64_holds seed state xs"
  then obtain r where n: "length xs < 2 ^ 64" and r: "stripes 32 stripe64 (initial_accumulators64 seed) xs = (acc64 state, r)"
    and m: "length (mem64 state) = 32" "take (length r) (mem64 state) = r" "length r < 32" and t: "total_len state = of_nat (length xs)"
    by (auto simp: XXH64_holds_def)
  have u: "uint (total_len state) = int (length xs)" using t uint_small64[OF n] by simp
  then have large: "32 \<le> total_len state \<longleftrightarrow> 32 \<le> length xs" by (simp add: word_le_def)
  have "length r = length xs mod 32" using stripes_rest[of 32 stripe64 "initial_accumulators64 seed" xs] r by simp
  then have k: "int (length xs) mod 32 = int (length r)" by (simp add: zmod_int)
  have b: "in_buf (mem64 state) 0 (int (length r))" "int (length r) < 32" using m(1,3) by (simp_all add: in_buf_def)
  have s: "seg (mem64 state) 0 (0 + int (length r)) = r" using m(2) by (simp add: seg_def)
  have v3: "fst (snd (snd (acc64 state))) = seed" if "length xs < 32"
  proof -
    have "acc64 state = initial_accumulators64 seed" using r that by (simp add: stripes_short)
    then show ?thesis by (simp add: initial_accumulators64_def)
  qed
  show ?thesis using finalize64_ok[OF b k, unfolded s] v3
    unfolding XXH64_digest_endian_def Let_def large u unfolding xxh64_def r t by auto
qed

lemma XXH64_endian_align_ok: "XXH64_endian_align xs (int (length xs)) seed endian align = Some (xxh64 seed xs)"
proof (cases "32 \<le> length xs")
  case True
  let ?n = "int (length xs)"
  obtain v p where r: "stripes_loop64 endian align xs (?n - 32) 0 (initial_accumulators64 seed) = Some (v, p)" "0 \<le> p" "p \<le> ?n"
    "?n - 32 < p" "p mod 32 = 0" "stripes 32 stripe64 (initial_accumulators64 seed) (seg xs 0 ?n) = (v, seg xs p ?n)"
    using stripes_loop64_ok[of 0 "?n - 32" xs endian align "initial_accumulators64 seed"] True by auto
  have n: "?n mod 32 = ?n - p" using r(3-5) by (intro rest_of_blocks) auto
  have b: "in_buf xs p (?n - p)" "?n - p < 32" using r(2-4) by (auto simp: in_buf_def)
  have "XXH64_endian_align xs ?n seed endian align = XXH64_finalize (merge_accumulators64 v + of_nat (length xs)) xs p ?n endian align"
    using True r(1) by (cases v) (simp add: XXH64_endian_align_def Let_def)
  also have "\<dots> = Some (xxh64 seed xs)"
    using finalize64_ok[OF b n] r(6) True by (simp add: xxh64_def seg_full)
  finally show ?thesis .
next
  case False
  then have n: "int (length xs) < 32" "int (length xs) mod 32 = int (length xs)" by simp_all
  have b: "in_buf xs 0 (int (length xs))" by (simp add: in_buf_def)
  show ?thesis using False finalize64_ok[OF b n] by (simp add: XXH64_endian_align_def xxh64_def stripes_short seg_full)
qed

definition update64 :: "XXH_endianess \<Rightarrow> XXH64_state \<Rightarrow> bytes \<Rightarrow> XXH64_state option" where
  "update64 endian state ys = map_option snd (XXH64_update endian state (Some ys))"

interpretation xxh64: streaming_hash "update64 endian" "XXH64_digest endian" "xxh64 seed" "XXH64_holds seed" "\<lambda>n. n < 2 ^ 64"
proof
  fix state xs ys
  assume "XXH64_holds seed state xs" "length (xs @ ys) < 2 ^ 64"
  from update64_holds_ok[OF this, of endian]
  show "\<exists>state'. update64 endian state ys = Some state' \<and> XXH64_holds seed state' (xs @ ys)"
    by (auto simp: update64_def XXH64_update_def)
qed (simp_all add: XXH64_digest_def digest64_holds_ok)

section \<open>Properties\<close>

text \<open>C25. The 64-bit hash: \<open>XXH64\<close> reads only the input and gives the same value on either byte order,
  aligned or not; and hashing the input in chunks, less than \<open>2 ^ 64\<close> bytes in all, gives that value.\<close>

theorem XXH64_streaming:
  assumes "length (concat chunks) < 2 ^ 64"
  shows "\<exists>state. update_all (\<lambda>s c. map_option snd (XXH64_update endian s (Some c))) (XXH64_reset seed) chunks = Some state
    \<and> XXH64_digest endian state = XXH64 check_align endian' addr (concat chunks) (int (length (concat chunks))) seed
    \<and> XXH64 check_align endian' addr (concat chunks) (int (length (concat chunks))) seed = Some (xxh64 seed (concat chunks))"
proof -
  have "update64 endian = (\<lambda>s c. map_option snd (XXH64_update endian s (Some c)))" by (simp add: fun_eq_iff update64_def)
  then show ?thesis
    using xxh64.streaming_digest[OF reset64_holds, where endian = endian and cs = chunks] assms
    by (simp add: XXH64_def XXH64_endian_align_ok)
qed

lemma XXH64_streaming_witness:
  "\<exists>state. update_all (\<lambda>s c. map_option snd (XXH64_update XXH_littleEndian s (Some c))) (XXH64_reset 0) [[1, 2], [], replicate 40 7] = Some state
    \<and> XXH64_digest XXH_littleEndian state = Some (xxh64 0 ([1, 2] @ replicate 40 7))"
  using XXH64_streaming[of "[[1, 2], [], replicate 40 7]" XXH_littleEndian 0 False XXH_bigEndian 0] by auto

end
