(* ===== verification/LZ4F_Frame.thy ===== *)
theory LZ4F_Frame
  imports XXHash
begin

text \<open>
  The part of \<open>lz4frame.c\<close> that both directions share: error codes in a \<open>size_t\<close>, block sizes and
  output bounds, and the frame header, written by \<open>LZ4F_compressBegin\<close> and read by
  \<open>LZ4F_decodeHeader\<close>. A function that may return an error code returns the left value of a sum;
  \<open>as_size_t\<close> is its encoding. \<open>machine\<close> is the byte order, for \<open>xxhash.c\<close>.
\<close>

section \<open>Error codes\<close>

datatype LZ4F_errorCodes =
    OK_NoError | ERROR_GENERIC | ERROR_maxBlockSize_invalid | ERROR_blockMode_invalid
  | ERROR_contentChecksumFlag_invalid | ERROR_compressionLevel_invalid | ERROR_headerVersion_wrong
  | ERROR_blockChecksum_invalid | ERROR_reservedFlag_set | ERROR_allocation_failed
  | ERROR_srcSize_tooLarge | ERROR_dstMaxSize_tooSmall | ERROR_frameHeader_incomplete
  | ERROR_frameType_unknown | ERROR_frameSize_wrong | ERROR_srcPtr_wrong
  | ERROR_decompressionFailed | ERROR_headerChecksum_invalid | ERROR_contentChecksum_invalid
  | ERROR_frameDecoding_alreadyStarted | ERROR_compressionState_uninitialized | ERROR_parameter_null
  | ERROR_maxCode

definition error_list :: "LZ4F_errorCodes list" where
  "error_list =
    [OK_NoError, ERROR_GENERIC, ERROR_maxBlockSize_invalid, ERROR_blockMode_invalid,
     ERROR_contentChecksumFlag_invalid, ERROR_compressionLevel_invalid, ERROR_headerVersion_wrong,
     ERROR_blockChecksum_invalid, ERROR_reservedFlag_set, ERROR_allocation_failed,
     ERROR_srcSize_tooLarge, ERROR_dstMaxSize_tooSmall, ERROR_frameHeader_incomplete,
     ERROR_frameType_unknown, ERROR_frameSize_wrong, ERROR_srcPtr_wrong,
     ERROR_decompressionFailed, ERROR_headerChecksum_invalid, ERROR_contentChecksum_invalid,
     ERROR_frameDecoding_alreadyStarted, ERROR_compressionState_uninitialized, ERROR_parameter_null,
     ERROR_maxCode]"

text \<open>The value of an enumerator is its position.\<close>

definition error_value :: "LZ4F_errorCodes \<Rightarrow> int" where
  "error_value e = int (length (takeWhile (\<lambda>x. x \<noteq> e) error_list))"

definition LZ4F_returnErrorCode :: "LZ4F_errorCodes \<Rightarrow> int" where
  "LZ4F_returnErrorCode code = (- error_value code) mod 2 ^ 64"

definition LZ4F_isError :: "int \<Rightarrow> bool" where
  "LZ4F_isError code \<longleftrightarrow> code > (- error_value ERROR_maxCode) mod 2 ^ 64"

definition LZ4F_getErrorCode :: "int \<Rightarrow> LZ4F_errorCodes" where
  "LZ4F_getErrorCode functionResult =
    (if \<not> LZ4F_isError functionResult then OK_NoError
     else error_list ! nat ((- functionResult) mod 2 ^ 64))"

definition as_size_t :: "LZ4F_errorCodes + int \<Rightarrow> int" where
  "as_size_t r = (case r of Inl e \<Rightarrow> LZ4F_returnErrorCode e | Inr n \<Rightarrow> n)"

lemma error_value_cases:
  "error_value e = (case e of OK_NoError \<Rightarrow> 0 | ERROR_GENERIC \<Rightarrow> 1 | ERROR_maxBlockSize_invalid \<Rightarrow> 2
     | ERROR_blockMode_invalid \<Rightarrow> 3 | ERROR_contentChecksumFlag_invalid \<Rightarrow> 4 | ERROR_compressionLevel_invalid \<Rightarrow> 5
     | ERROR_headerVersion_wrong \<Rightarrow> 6 | ERROR_blockChecksum_invalid \<Rightarrow> 7 | ERROR_reservedFlag_set \<Rightarrow> 8
     | ERROR_allocation_failed \<Rightarrow> 9 | ERROR_srcSize_tooLarge \<Rightarrow> 10 | ERROR_dstMaxSize_tooSmall \<Rightarrow> 11
     | ERROR_frameHeader_incomplete \<Rightarrow> 12 | ERROR_frameType_unknown \<Rightarrow> 13 | ERROR_frameSize_wrong \<Rightarrow> 14
     | ERROR_srcPtr_wrong \<Rightarrow> 15 | ERROR_decompressionFailed \<Rightarrow> 16 | ERROR_headerChecksum_invalid \<Rightarrow> 17
     | ERROR_contentChecksum_invalid \<Rightarrow> 18 | ERROR_frameDecoding_alreadyStarted \<Rightarrow> 19
     | ERROR_compressionState_uninitialized \<Rightarrow> 20 | ERROR_parameter_null \<Rightarrow> 21 | ERROR_maxCode \<Rightarrow> 22)"
  by (cases e) (simp_all add: error_value_def error_list_def)

lemma error_value_range: "e \<noteq> OK_NoError \<Longrightarrow> e \<noteq> ERROR_maxCode \<Longrightarrow> 0 < error_value e \<and> error_value e < 22"
  by (cases e) (simp_all add: error_value_cases)

lemma error_list_value: "error_list ! nat (error_value e) = e"
  by (cases e) (simp_all add: error_value_cases error_list_def eval_nat_numeral)

lemma returnErrorCode_value:
  "e \<noteq> OK_NoError \<Longrightarrow> e \<noteq> ERROR_maxCode \<Longrightarrow> LZ4F_returnErrorCode e = 2 ^ 64 - error_value e"
proof -
  assume "e \<noteq> OK_NoError" "e \<noteq> ERROR_maxCode"
  from error_value_range[OF this] show ?thesis unfolding LZ4F_returnErrorCode_def
    by (subst mod_pos_pos_trivial[of "2 ^ 64 - error_value e" "2 ^ 64", symmetric]) (simp_all add: mod_diff_left_eq[symmetric] del: mod_pos_pos_trivial)
qed


section \<open>Little-endian fields\<close>

definition LZ4F_readLE32 :: "bytes \<Rightarrow> int \<Rightarrow> u32 option" where
  "LZ4F_readLE32 src p = do {
     b0 \<leftarrow> ld src p; b1 \<leftarrow> ld src (p + 1); b2 \<leftarrow> ld src (p + 2); b3 \<leftarrow> ld src (p + 3);
     Some (ucast b0 + push_bit 8 (ucast b1) + push_bit 16 (ucast b2) + push_bit 24 (ucast b3)) }"

definition LZ4F_writeLE32 :: "u32 \<Rightarrow> bytes" where
  "LZ4F_writeLE32 v = [ucast v, ucast (drop_bit 8 v), ucast (drop_bit 16 v), ucast (drop_bit 24 v)]"

definition LZ4F_readLE64 :: "bytes \<Rightarrow> int \<Rightarrow> u64 option" where
  "LZ4F_readLE64 src p = do {
     b0 \<leftarrow> ld src p; b1 \<leftarrow> ld src (p + 1); b2 \<leftarrow> ld src (p + 2); b3 \<leftarrow> ld src (p + 3);
     b4 \<leftarrow> ld src (p + 4); b5 \<leftarrow> ld src (p + 5); b6 \<leftarrow> ld src (p + 6); b7 \<leftarrow> ld src (p + 7);
     Some (ucast b0 + push_bit 8 (ucast b1) + push_bit 16 (ucast b2) + push_bit 24 (ucast b3)
         + push_bit 32 (ucast b4) + push_bit 40 (ucast b5) + push_bit 48 (ucast b6) + push_bit 56 (ucast b7)) }"

definition LZ4F_writeLE64 :: "u64 \<Rightarrow> bytes" where
  "LZ4F_writeLE64 v = [ucast v, ucast (drop_bit 8 v), ucast (drop_bit 16 v), ucast (drop_bit 24 v),
     ucast (drop_bit 32 v), ucast (drop_bit 40 v), ucast (drop_bit 48 v), ucast (drop_bit 56 v)]"

lemma LZ4F_writeLE32_store: "LZ4F_writeLE32 v = store_le32 v"
proof -
  have "(ucast (x AND 0xff) :: byte) = ucast x" for x :: u32
    using bit_masked_byte[of 0 x] by (intro bit_word_eqI) (auto simp: bit_ucast_iff)
  then show ?thesis by (simp add: LZ4F_writeLE32_def store_le32_def)
qed

lemma length_writeLE [simp]: "length (LZ4F_writeLE32 v) = 4" "length (LZ4F_writeLE64 w) = 8"
  by (simp_all add: LZ4F_writeLE32_def LZ4F_writeLE64_def)

text \<open>Adding a field above the bits used so far is the same as or-ing it in.\<close>

lemma le_step:
  fixes a :: "'a::len word"
  assumes "\<forall>n \<ge> k. \<not> bit a n"
  shows "a + push_bit k b = a OR push_bit k b"
  using assms by (intro disjunctive_add_eq_or bit_word_eqI) (auto simp: bit_and_iff bit_push_bit_iff)

lemma le_word_push: "le_word (bs @ [b]) = (le_word bs OR push_bit (8 * length bs) (ucast b) :: 'a::len word)"
proof (induction bs)
  case (Cons a bs)
  then show ?case by (simp add: push_bit_or push_bit_push_bit or.assoc)
qed simp

lemma le_word_snoc:
  "k = 8 * length bs \<Longrightarrow> (le_word bs :: 'a::len word) + push_bit k (ucast b) = le_word (bs @ [b])"
proof -
  assume k: "k = 8 * length bs"
  have "\<forall>n \<ge> k. \<not> bit (le_word bs :: 'a word) n" using k by (auto simp: bit_le_word)
  from le_step[OF this] show ?thesis by (simp add: k le_word_push)
qed

lemma le_sum4:
  "(ucast b0 :: 'a::len word) + push_bit 8 (ucast b1) + push_bit 16 (ucast b2) + push_bit 24 (ucast b3) = le_word [b0, b1, b2, b3]"
proof -
  have "(ucast b0 :: 'a word) = le_word [b0]" by simp
  then show ?thesis
    using le_word_snoc[of 8 "[b0]" b1, where 'a = 'a] le_word_snoc[of 16 "[b0, b1]" b2, where 'a = 'a]
      le_word_snoc[of 24 "[b0, b1, b2]" b3, where 'a = 'a] by (simp del: le_word.simps)
qed

lemma le_sum8:
  "(ucast b0 :: 'a::len word) + push_bit 8 (ucast b1) + push_bit 16 (ucast b2) + push_bit 24 (ucast b3)
     + push_bit 32 (ucast b4) + push_bit 40 (ucast b5) + push_bit 48 (ucast b6) + push_bit 56 (ucast b7)
   = le_word [b0, b1, b2, b3, b4, b5, b6, b7]"
  using le_word_snoc[of 32 "[b0, b1, b2, b3]" b4, where 'a = 'a] le_word_snoc[of 40 "[b0, b1, b2, b3, b4]" b5, where 'a = 'a]
    le_word_snoc[of 48 "[b0, b1, b2, b3, b4, b5]" b6, where 'a = 'a] le_word_snoc[of 56 "[b0, b1, b2, b3, b4, b5, b6]" b7, where 'a = 'a]
  by (simp add: le_sum4 del: le_word.simps)

lemma readLE32_le_word: "in_buf src p 4 \<Longrightarrow> LZ4F_readLE32 src p = Some (le_word (seg src p (p + 4)))"
proof -
  assume b: "in_buf src p 4"
  have s: "seg src p (p + 4) = [at src p, at src (p + 1), at src (p + 2), at src (p + 3)]"
    using b by (intro nth_equalityI) (auto simp: in_buf_def nth_seg at_def nat_add_distrib less_Suc_eq numeral_eq_Suc)
  have "ld src (p + i) = Some (at src (p + i))" if "0 \<le> i" "i < 4" for i using b that by (auto simp: ld_def in_buf_def)
  from this[of 0] this[of 1] this[of 2] this[of 3] show ?thesis
    by (simp add: LZ4F_readLE32_def s le_sum4 del: le_word.simps)
qed

lemma readLE64_le_word: "in_buf src p 8 \<Longrightarrow> LZ4F_readLE64 src p = Some (le_word (seg src p (p + 8)))"
proof -
  assume b: "in_buf src p 8"
  have s: "seg src p (p + 8) = [at src p, at src (p + 1), at src (p + 2), at src (p + 3),
      at src (p + 4), at src (p + 5), at src (p + 6), at src (p + 7)]"
    using b by (intro nth_equalityI) (auto simp: in_buf_def nth_seg at_def nat_add_distrib less_Suc_eq numeral_eq_Suc)
  have "ld src (p + i) = Some (at src (p + i))" if "0 \<le> i" "i < 8" for i using b that by (auto simp: ld_def in_buf_def)
  from this[of 0] this[of 1] this[of 2] this[of 3] this[of 4] this[of 5] this[of 6] this[of 7] show ?thesis
    by (simp add: LZ4F_readLE64_def s le_sum8 del: le_word.simps)
qed

lemma le_word_write32: "le_word (LZ4F_writeLE32 v) = v"
  by (simp add: LZ4F_writeLE32_store le_word_store del: le_word.simps)

lemma le_word_write64: "le_word (LZ4F_writeLE64 v) = v"
proof (rule bit_word_eqI)
  fix n assume n: "n < LENGTH(64)"
  have w: "LZ4F_writeLE64 v = map (\<lambda>k. ucast (drop_bit (8 * k) v)) [0..<8]" by (simp add: LZ4F_writeLE64_def upt_rec)
  have q: "n div 8 < 8" using n by auto
  have "bit (le_word (LZ4F_writeLE64 v) :: u64) n \<longleftrightarrow> bit (ucast (drop_bit (8 * (n div 8)) v) :: byte) (n mod 8)"
    using n q unfolding bit_le_word w by simp
  also have "\<dots> \<longleftrightarrow> bit v n"
  proof -
    have "n mod 8 < LENGTH(8)" by simp
    then show ?thesis unfolding bit_ucast_iff bit_drop_bit_eq possible_bit_def by (simp only: o_apply mult_div_mod_eq simp_thms)
  qed
  finally show "bit (le_word (LZ4F_writeLE64 v) :: u64) n = bit v n" .
qed


section \<open>Frame parameters\<close>

datatype LZ4F_blockMode_t = LZ4F_blockLinked | LZ4F_blockIndependent
datatype LZ4F_contentChecksum_t = LZ4F_noContentChecksum | LZ4F_contentChecksumEnabled
datatype LZ4F_blockChecksum_t = LZ4F_noBlockChecksum | LZ4F_blockChecksumEnabled
datatype LZ4F_frameType_t = LZ4F_frame | LZ4F_skippableFrame

record LZ4F_frameInfo_t =
  blockSizeID :: int
  blockMode :: LZ4F_blockMode_t
  contentChecksumFlag :: LZ4F_contentChecksum_t
  frameType :: LZ4F_frameType_t
  contentSize :: int
  dictID :: int
  blockChecksumFlag :: LZ4F_blockChecksum_t

record LZ4F_preferences_t =
  frameInfo :: LZ4F_frameInfo_t
  compressionLevel :: int
  autoFlush :: bool
  favorDecSpeed :: bool

definition LZ4F_INIT_FRAMEINFO :: LZ4F_frameInfo_t where
  "LZ4F_INIT_FRAMEINFO = \<lparr>blockSizeID = 0, blockMode = LZ4F_blockLinked, contentChecksumFlag = LZ4F_noContentChecksum,
     frameType = LZ4F_frame, contentSize = 0, dictID = 0, blockChecksumFlag = LZ4F_noBlockChecksum\<rparr>"

definition LZ4F_INIT_PREFERENCES :: LZ4F_preferences_t where
  "LZ4F_INIT_PREFERENCES = \<lparr>frameInfo = LZ4F_INIT_FRAMEINFO, compressionLevel = 0, autoFlush = False, favorDecSpeed = False\<rparr>"

text \<open>The enumerators as numbers.\<close>

definition mode_val :: "LZ4F_blockMode_t \<Rightarrow> int" where
  "mode_val m = (case m of LZ4F_blockLinked \<Rightarrow> 0 | LZ4F_blockIndependent \<Rightarrow> 1)"

definition content_val :: "LZ4F_contentChecksum_t \<Rightarrow> int" where
  "content_val f = (case f of LZ4F_noContentChecksum \<Rightarrow> 0 | LZ4F_contentChecksumEnabled \<Rightarrow> 1)"

definition block_val :: "LZ4F_blockChecksum_t \<Rightarrow> int" where
  "block_val f = (case f of LZ4F_noBlockChecksum \<Rightarrow> 0 | LZ4F_blockChecksumEnabled \<Rightarrow> 1)"

abbreviation LZ4F_max64KB :: int where "LZ4F_max64KB \<equiv> 4"
abbreviation LZ4F_max4MB :: int where "LZ4F_max4MB \<equiv> 7"
abbreviation minFHSize :: int where "minFHSize \<equiv> 7"
abbreviation maxFHSize :: int where "maxFHSize \<equiv> 19"
abbreviation BHSize :: int where "BHSize \<equiv> 4"
abbreviation BFSize :: int where "BFSize \<equiv> 4"
abbreviation LZ4F_MAGICNUMBER :: u32 where "LZ4F_MAGICNUMBER \<equiv> 0x184D2204"
abbreviation LZ4F_MAGIC_SKIPPABLE_START :: u32 where "LZ4F_MAGIC_SKIPPABLE_START \<equiv> 0x184D2A50"
abbreviation LZ4F_BLOCKUNCOMPRESSED_FLAG :: u32 where "LZ4F_BLOCKUNCOMPRESSED_FLAG \<equiv> 0x80000000"

section \<open>Block sizes and output bounds\<close>

definition LZ4F_getBlockSize :: "int \<Rightarrow> LZ4F_errorCodes + int" where
  "LZ4F_getBlockSize bsid =
    (let bsid = (if bsid = 0 then LZ4F_max64KB else bsid) in
     if bsid < LZ4F_max64KB \<or> bsid > LZ4F_max4MB then Inl ERROR_maxBlockSize_invalid
     else Inr ([KB 64, KB 256, KB 1024, KB 4096] ! nat (bsid - LZ4F_max64KB)))"

function optimal_loop :: "int \<Rightarrow> int \<Rightarrow> int \<Rightarrow> int \<Rightarrow> int" where
  "optimal_loop requestedBSID srcSize proposedBSID maxBlockSize =
    (if requestedBSID > proposedBSID then
       if srcSize \<le> maxBlockSize then proposedBSID
       else optimal_loop requestedBSID srcSize (proposedBSID + 1) (maxBlockSize * 4)
     else requestedBSID)"
  by auto
termination by (relation "measure (\<lambda>(r, _, p, _). nat (r - p))") auto

declare optimal_loop.simps [simp del]

definition LZ4F_optimalBSID :: "int \<Rightarrow> int \<Rightarrow> int" where
  "LZ4F_optimalBSID requestedBSID srcSize = optimal_loop requestedBSID srcSize LZ4F_max64KB (KB 64)"

text \<open>\<open>size_t\<close> arithmetic wraps; an invalid block size is the error code taken as a number.\<close>

definition LZ4F_compressBound_internal :: "int \<Rightarrow> LZ4F_preferences_t option \<Rightarrow> int \<Rightarrow> int" where
  "LZ4F_compressBound_internal srcSize preferencesPtr alreadyBuffered =
    (let prefs = (case preferencesPtr of Some p \<Rightarrow> p
           | None \<Rightarrow> LZ4F_INIT_PREFERENCES\<lparr>frameInfo := LZ4F_INIT_FRAMEINFO\<lparr>
               contentChecksumFlag := LZ4F_contentChecksumEnabled, blockChecksumFlag := LZ4F_blockChecksumEnabled\<rparr>\<rparr>);
         flush = (autoFlush prefs \<or> srcSize = 0);
         blockSize = as_size_t (LZ4F_getBlockSize (blockSizeID (frameInfo prefs)));
         maxBuffered = blockSize - 1;
         bufferedSize = min alreadyBuffered maxBuffered;
         maxSrcSize = (srcSize + bufferedSize) mod 2 ^ 64;
         nbFullBlocks = (maxSrcSize div blockSize) mod 2 ^ 32;
         partialBlockSize = and maxSrcSize (blockSize - 1);
         lastBlockSize = (if flush then partialBlockSize else 0);
         nbBlocks = (nbFullBlocks + (if lastBlockSize > 0 then 1 else 0)) mod 2 ^ 32;
         blockCRCSize = BFSize * block_val (blockChecksumFlag (frameInfo prefs));
         frameEnd = BHSize + content_val (contentChecksumFlag (frameInfo prefs)) * BFSize in
     ((BHSize + blockCRCSize) * nbBlocks + blockSize * nbFullBlocks + lastBlockSize + frameEnd) mod 2 ^ 64)"

definition LZ4F_compressFrameBound :: "int \<Rightarrow> LZ4F_preferences_t option \<Rightarrow> int" where
  "LZ4F_compressFrameBound srcSize preferencesPtr =
    (let prefs = (case preferencesPtr of Some p \<Rightarrow> p | None \<Rightarrow> LZ4F_INIT_PREFERENCES) in
     (maxFHSize + LZ4F_compressBound_internal srcSize (Some (prefs\<lparr>autoFlush := True\<rparr>)) 0) mod 2 ^ 64)"

definition LZ4F_compressBound :: "int \<Rightarrow> LZ4F_preferences_t option \<Rightarrow> int" where
  "LZ4F_compressBound srcSize preferencesPtr =
    (case preferencesPtr of
       Some p \<Rightarrow> if autoFlush p then LZ4F_compressBound_internal srcSize preferencesPtr 0
                 else LZ4F_compressBound_internal srcSize preferencesPtr (2 ^ 64 - 1)
     | None \<Rightarrow> LZ4F_compressBound_internal srcSize preferencesPtr (2 ^ 64 - 1))"

section \<open>The frame header\<close>

definition LZ4F_headerChecksum :: "XXH_endianess \<Rightarrow> bytes \<Rightarrow> byte option" where
  "LZ4F_headerChecksum machine hdr = do {
     xxh \<leftarrow> XXH32 False machine 0 hdr (int (length hdr)) 0;
     Some (ucast (drop_bit 8 xxh)) }"

text \<open>The header as \<open>LZ4F_compressBegin_usingCDict\<close> writes it.\<close>

definition FLG_byte :: "LZ4F_frameInfo_t \<Rightarrow> byte" where
  "FLG_byte fi = of_int (64 + mode_val (blockMode fi) * 32 + block_val (blockChecksumFlag fi) * 16
     + (if contentSize fi > 0 then 8 else 0) + content_val (contentChecksumFlag fi) * 4
     + (if dictID fi > 0 then 1 else 0))"

definition write_header :: "XXH_endianess \<Rightarrow> LZ4F_frameInfo_t \<Rightarrow> bytes option" where
  "write_header machine fi = do {
     let hdr = [FLG_byte fi, push_bit 4 (of_int (blockSizeID fi) AND 7)]
       @ (if contentSize fi \<noteq> 0 then LZ4F_writeLE64 (of_int (contentSize fi)) else [])
       @ (if dictID fi \<noteq> 0 then LZ4F_writeLE32 (of_int (dictID fi)) else []);
     hc \<leftarrow> LZ4F_headerChecksum machine hdr;
     Some (LZ4F_writeLE32 LZ4F_MAGICNUMBER @ hdr @ [hc]) }"

datatype dStage_t =
    dstage_getFrameHeader | dstage_storeFrameHeader | dstage_init
  | dstage_getBlockHeader | dstage_storeBlockHeader | dstage_copyDirect | dstage_getBlockChecksum
  | dstage_getCBlock | dstage_storeCBlock | dstage_flushOut | dstage_getSuffix | dstage_storeSuffix
  | dstage_getSFrameSize | dstage_storeSFrameSize | dstage_skipSkippable

record LZ4F_dctx =
  dframeInfo :: LZ4F_frameInfo_t
  dStage :: dStage_t
  frameRemainingSize :: int
  dmaxBlockSize :: int
  dmaxBufferSize :: int
  dtmpIn :: int
  dtmpInSize :: int
  dtmpInTarget :: int
  tmpOutBuffer :: int
  ddict :: int
  ddictSize :: int
  tmpOut :: int
  tmpOutSize :: int
  tmpOutStart :: int
  dxxh :: XXH32_state
  blockChecksum :: XXH32_state
  skipChecksum :: bool
  dheader :: bytes

text \<open>\<open>LZ4F_createDecompressionContext\<close>: what \<open>calloc\<close> returns.\<close>

abbreviation XXH32_zero :: XXH32_state where
  "XXH32_zero \<equiv> \<lparr>total_len_32 = 0, large_len = False, acc = (0, 0, 0, 0), mem32 = replicate 16 0, memsize = 0\<rparr>"

definition LZ4F_createDecompressionContext :: LZ4F_dctx where
  "LZ4F_createDecompressionContext = \<lparr>dframeInfo = LZ4F_INIT_FRAMEINFO, dStage = dstage_getFrameHeader,
     frameRemainingSize = 0, dmaxBlockSize = 0, dmaxBufferSize = 0, dtmpIn = 0, dtmpInSize = 0, dtmpInTarget = 0,
     tmpOutBuffer = 0, ddict = 0, ddictSize = 0, tmpOut = 0, tmpOutSize = 0, tmpOutStart = 0,
     dxxh = XXH32_zero, blockChecksum = XXH32_zero, skipChecksum = False, dheader = replicate 19 0\<rparr>"

text \<open>\<open>LZ4F_decodeHeader\<close> reads \<open>src\<close>, which is \<open>dctx->header\<close> itself if \<open>in_header\<close>.\<close>

definition LZ4F_decodeHeader ::
  "XXH_endianess \<Rightarrow> LZ4F_dctx \<Rightarrow> bytes \<Rightarrow> bool \<Rightarrow> ((LZ4F_errorCodes + int) \<times> LZ4F_dctx) option" where
  "LZ4F_decodeHeader machine dctx src in_header =
    (let srcSize = int (length src) in
     if srcSize < minFHSize then Some (Inl ERROR_frameHeader_incomplete, dctx)
     else do {
       let dctx = dctx\<lparr>dframeInfo := LZ4F_INIT_FRAMEINFO\<rparr>;
       magic \<leftarrow> LZ4F_readLE32 src 0;
       if magic AND 0xFFFFFFF0 = LZ4F_MAGIC_SKIPPABLE_START then
         let dctx = dctx\<lparr>dframeInfo := (dframeInfo dctx)\<lparr>frameType := LZ4F_skippableFrame\<rparr>\<rparr> in
         if in_header then Some (Inr srcSize, dctx\<lparr>dtmpInSize := srcSize, dtmpInTarget := 8, dStage := dstage_storeSFrameSize\<rparr>)
         else Some (Inr 4, dctx\<lparr>dStage := dstage_getSFrameSize\<rparr>)
       else if magic \<noteq> LZ4F_MAGICNUMBER then Some (Inl ERROR_frameType_unknown, dctx)
       else do {
         flg \<leftarrow> ld src 4;
         let version = drop_bit 6 flg AND 3;
         let blockChecksumFlag' = drop_bit 4 flg AND 1;
         let blockMode' = drop_bit 5 flg AND 1;
         let contentSizeFlag = drop_bit 3 flg AND 1;
         let contentChecksumFlag' = drop_bit 2 flg AND 1;
         let dictIDFlag = flg AND 1;
         if drop_bit 1 flg AND 1 \<noteq> 0 then Some (Inl ERROR_reservedFlag_set, dctx)
         else if version \<noteq> 1 then Some (Inl ERROR_headerVersion_wrong, dctx)
         else
           let frameHeaderSize = minFHSize + (if contentSizeFlag \<noteq> 0 then 8 else 0) + (if dictIDFlag \<noteq> 0 then 4 else 0) in
           if srcSize < frameHeaderSize then do {
             hdr \<leftarrow> (if in_header then Some (dheader dctx) else wrn (dheader dctx) 0 src);
             Some (Inr srcSize, dctx\<lparr>dheader := hdr, dtmpInSize := srcSize, dtmpInTarget := frameHeaderSize,
               dStage := dstage_storeFrameHeader\<rparr>) }
           else do {
             bd \<leftarrow> ld src 5;
             let blockSizeID' = drop_bit 4 bd AND 7;
             if drop_bit 7 bd AND 1 \<noteq> 0 then Some (Inl ERROR_reservedFlag_set, dctx)
             else if uint blockSizeID' < 4 then Some (Inl ERROR_maxBlockSize_invalid, dctx)
             else if bd AND 15 \<noteq> 0 then Some (Inl ERROR_reservedFlag_set, dctx)
             else do {
               hdr \<leftarrow> rdn src 4 (frameHeaderSize - 5);
               hc \<leftarrow> LZ4F_headerChecksum machine hdr;
               hc' \<leftarrow> ld src (frameHeaderSize - 1);
               if hc \<noteq> hc' then Some (Inl ERROR_headerChecksum_invalid, dctx)
               else do {
                 let fi = (dframeInfo dctx)\<lparr>
                   blockMode := (if blockMode' = 0 then LZ4F_blockLinked else LZ4F_blockIndependent),
                   blockChecksumFlag := (if blockChecksumFlag' = 0 then LZ4F_noBlockChecksum else LZ4F_blockChecksumEnabled),
                   contentChecksumFlag := (if contentChecksumFlag' = 0 then LZ4F_noContentChecksum else LZ4F_contentChecksumEnabled),
                   blockSizeID := uint blockSizeID'\<rparr>;
                 let dctx = dctx\<lparr>dmaxBlockSize := as_size_t (LZ4F_getBlockSize (uint blockSizeID'))\<rparr>;
                 size \<leftarrow> (if contentSizeFlag \<noteq> 0 then LZ4F_readLE64 src 6 else Some 0);
                 let dctx = (if contentSizeFlag \<noteq> 0 then dctx\<lparr>frameRemainingSize := uint size\<rparr> else dctx);
                 did \<leftarrow> (if dictIDFlag \<noteq> 0 then LZ4F_readLE32 src (frameHeaderSize - 5) else Some 0);
                 Some (Inr frameHeaderSize, dctx\<lparr>dStage := dstage_init,
                   dframeInfo := fi\<lparr>contentSize := uint size, dictID := uint did\<rparr>\<rparr>) } } } } })"

definition LZ4F_headerSize :: "bytes option \<Rightarrow> (LZ4F_errorCodes + int) option" where
  "LZ4F_headerSize src =
    (case src of None \<Rightarrow> Some (Inl ERROR_srcPtr_wrong)
     | Some src \<Rightarrow>
       if int (length src) < 5 then Some (Inl ERROR_frameHeader_incomplete)
       else do {
         magic \<leftarrow> LZ4F_readLE32 src 0;
         if magic AND 0xFFFFFFF0 = LZ4F_MAGIC_SKIPPABLE_START then Some (Inr 8)
         else if magic \<noteq> LZ4F_MAGICNUMBER then Some (Inl ERROR_frameType_unknown)
         else do {
           flg \<leftarrow> ld src 4;
           let contentSizeFlag = drop_bit 3 flg AND 1;
           let dictIDFlag = flg AND 1;
           Some (Inr (minFHSize + (if contentSizeFlag \<noteq> 0 then 8 else 0) + (if dictIDFlag \<noteq> 0 then 4 else 0))) } })"

section \<open>The header is read back\<close>

lemma XXH32_value: "XXH32 check_align machine addr xs (int (length xs)) seed = Some (xxh32 seed xs)"
  by (simp add: XXH32_def XXH32_endian_align_ok)

definition header_check :: "bytes \<Rightarrow> byte" where
  "header_check hdr = ucast (drop_bit 8 (xxh32 0 hdr))"

definition header_fields :: "LZ4F_frameInfo_t \<Rightarrow> bytes" where
  "header_fields fi = [FLG_byte fi, push_bit 4 (of_int (blockSizeID fi) AND 7)]
     @ (if contentSize fi \<noteq> 0 then LZ4F_writeLE64 (of_int (contentSize fi)) else [])
     @ (if dictID fi \<noteq> 0 then LZ4F_writeLE32 (of_int (dictID fi)) else [])"

definition header_of :: "LZ4F_frameInfo_t \<Rightarrow> bytes" where
  "header_of fi = LZ4F_writeLE32 LZ4F_MAGICNUMBER @ header_fields fi @ [header_check (header_fields fi)]"

lemma headerChecksum_value: "LZ4F_headerChecksum machine hdr = Some (header_check hdr)"
  by (simp add: LZ4F_headerChecksum_def XXH32_value header_check_def)

lemma write_header_value: "write_header machine fi = Some (header_of fi)"
  by (simp add: write_header_def headerChecksum_value header_of_def header_fields_def Let_def)

definition info_ok :: "LZ4F_frameInfo_t \<Rightarrow> bool" where
  "info_ok fi \<longleftrightarrow> 4 \<le> blockSizeID fi \<and> blockSizeID fi \<le> 7 \<and> 0 \<le> contentSize fi \<and> contentSize fi < 2 ^ 64
     \<and> 0 \<le> dictID fi \<and> dictID fi < 2 ^ 32 \<and> frameType fi = LZ4F_frame"

definition header_len :: "LZ4F_frameInfo_t \<Rightarrow> int" where
  "header_len fi = 7 + (if contentSize fi \<noteq> 0 then 8 else 0) + (if dictID fi \<noteq> 0 then 4 else 0)"

lemma length_header: "int (length (header_fields fi)) = header_len fi - 5" "int (length (header_of fi)) = header_len fi"
  by (simp_all add: header_fields_def header_of_def header_len_def)

lemma FLG_bits:
  assumes "0 \<le> contentSize fi" "0 \<le> dictID fi"
  shows "drop_bit 6 (FLG_byte fi) AND 3 = 1" "drop_bit 1 (FLG_byte fi) AND 1 = 0"
    "drop_bit 5 (FLG_byte fi) AND 1 = 0 \<longleftrightarrow> blockMode fi = LZ4F_blockLinked"
    "drop_bit 4 (FLG_byte fi) AND 1 = 0 \<longleftrightarrow> blockChecksumFlag fi = LZ4F_noBlockChecksum"
    "drop_bit 3 (FLG_byte fi) AND 1 = 0 \<longleftrightarrow> contentSize fi = 0"
    "drop_bit 2 (FLG_byte fi) AND 1 = 0 \<longleftrightarrow> contentChecksumFlag fi = LZ4F_noContentChecksum"
    "FLG_byte fi AND 1 = 0 \<longleftrightarrow> dictID fi = 0"
  using assms
  by (cases "blockMode fi"; cases "blockChecksumFlag fi"; cases "contentChecksumFlag fi"; cases "contentSize fi = 0"; cases "dictID fi = 0";
      simp add: FLG_byte_def mode_val_def block_val_def content_val_def)+

lemma BD_bits:
  assumes "4 \<le> k" "k \<le> (7 :: int)"
  defines "bd \<equiv> push_bit 4 (of_int k AND 7) :: byte"
  shows "uint (drop_bit 4 bd AND 7) = k" "drop_bit 7 bd AND 1 = 0" "bd AND 15 = 0"
proof -
  have "k = 4 \<or> k = 5 \<or> k = 6 \<or> k = 7" using assms by auto
  then show "uint (drop_bit 4 bd AND 7) = k" "drop_bit 7 bd AND 1 = 0" "bd AND 15 = 0" unfolding bd_def by auto
qed

lemma seg_mid: "p = int (length a) \<Longrightarrow> q = p + int (length b) \<Longrightarrow> seg (a @ b @ c) p q = b"
  by (simp add: seg_def)

lemma in_buf_mid: "p = int (length a) \<Longrightarrow> n = int (length b) \<Longrightarrow> in_buf (a @ b @ c) p n"
  by (simp add: in_buf_def)

lemma readLE32_mid: "p = int (length a) \<Longrightarrow> LZ4F_readLE32 (a @ LZ4F_writeLE32 v @ c) p = Some v"
  by (subst readLE32_le_word) (simp_all add: in_buf_mid seg_mid le_word_write32)

lemma readLE64_mid: "p = int (length a) \<Longrightarrow> LZ4F_readLE64 (a @ LZ4F_writeLE64 v @ c) p = Some v"
  by (subst readLE64_le_word) (simp_all add: in_buf_mid seg_mid le_word_write64)

lemma ld_mid: "p = int (length a) \<Longrightarrow> ld (a @ b # c) p = Some b"
  by (simp add: ld_def in_buf_def at_def nth_append)

lemma rdn_mid: "p = int (length a) \<Longrightarrow> n = int (length b) \<Longrightarrow> rdn (a @ b @ c) p n = Some b"
  by (simp add: rdn_def in_buf_mid seg_mid)

lemma uint_of_int64: "0 \<le> n \<Longrightarrow> n < 2 ^ 64 \<Longrightarrow> uint (of_int n :: u64) = n"
  by (simp add: uint_word_of_int take_bit_eq_mod)

lemma uint_of_int32: "0 \<le> n \<Longrightarrow> n < 2 ^ 32 \<Longrightarrow> uint (of_int n :: u32) = n"
  by (simp add: uint_word_of_int take_bit_eq_mod)

lemma header_reads:
  fixes rest :: bytes
  assumes ok: "info_ok fi"
  defines "s \<equiv> header_of fi @ rest"
  shows "LZ4F_readLE32 s 0 = Some LZ4F_MAGICNUMBER" "ld s 4 = Some (FLG_byte fi)"
    "ld s 5 = Some (push_bit 4 (of_int (blockSizeID fi) AND 7))"
    "rdn s 4 (header_len fi - 5) = Some (header_fields fi)"
    "ld s (header_len fi - 1) = Some (header_check (header_fields fi))"
    "contentSize fi \<noteq> 0 \<Longrightarrow> map_option uint (LZ4F_readLE64 s 6) = Some (contentSize fi)"
    "dictID fi \<noteq> 0 \<Longrightarrow> map_option uint (LZ4F_readLE32 s (header_len fi - 5)) = Some (dictID fi)"
    "header_len fi \<le> int (length s)"
proof -
  let ?m = "LZ4F_writeLE32 LZ4F_MAGICNUMBER" let ?f = "header_fields fi" let ?c = "header_check ?f"
  let ?bd = "push_bit 4 (of_int (blockSizeID fi) AND 7) :: byte"
  let ?s8 = "if contentSize fi \<noteq> 0 then LZ4F_writeLE64 (of_int (contentSize fi)) else []"
  let ?d4 = "if dictID fi \<noteq> 0 then LZ4F_writeLE32 (of_int (dictID fi)) else []"
  have f: "?f = FLG_byte fi # ?bd # ?s8 @ ?d4" by (simp add: header_fields_def)
  have s: "s = ?m @ ?f @ ?c # rest" by (simp add: s_def header_of_def)
  show "LZ4F_readLE32 s 0 = Some LZ4F_MAGICNUMBER" using readLE32_mid[of 0 "[]" LZ4F_MAGICNUMBER "?f @ ?c # rest"] by (simp add: s)
  show "ld s 4 = Some (FLG_byte fi)" using ld_mid[of 4 ?m "FLG_byte fi" "?bd # ?s8 @ ?d4 @ ?c # rest"] unfolding s f by simp
  show "ld s 5 = Some ?bd" using ld_mid[of 5 "?m @ [FLG_byte fi]" ?bd "?s8 @ ?d4 @ ?c # rest"] unfolding s f by simp
  show "rdn s 4 (header_len fi - 5) = Some ?f" unfolding s by (rule rdn_mid) (simp_all add: length_header)
  show "ld s (header_len fi - 1) = Some ?c" using ld_mid[of "header_len fi - 1" "?m @ ?f" ?c rest] by (simp add: s length_header)
  show "header_len fi \<le> int (length s)" by (simp add: s_def length_header)
  show "map_option uint (LZ4F_readLE64 s 6) = Some (contentSize fi)" if "contentSize fi \<noteq> 0"
    using that ok readLE64_mid[of 6 "?m @ [FLG_byte fi, ?bd]" "of_int (contentSize fi)" "?d4 @ ?c # rest"]
    unfolding s f by (simp add: info_ok_def uint_of_int64)
  show "map_option uint (LZ4F_readLE32 s (header_len fi - 5)) = Some (dictID fi)" if "dictID fi \<noteq> 0"
    using that ok readLE32_mid[of "header_len fi - 5" "?m @ [FLG_byte fi, ?bd] @ ?s8" "of_int (dictID fi)" "?c # rest"]
    unfolding s f by (cases "contentSize fi = 0") (simp_all add: info_ok_def uint_of_int32 header_len_def)
qed

text \<open>\<open>LZ4F_decodeHeader\<close> by the values of its fields, for a header that is all there.\<close>

lemma decodeHeader_fields:
  assumes len: "minFHSize \<le> int (length src)" "hlen \<le> int (length src)"
      "hlen = minFHSize + (if cs then 8 else 0) + (if di then 4 else 0)"
    and magic: "LZ4F_readLE32 src 0 = Some LZ4F_MAGICNUMBER" and flg: "ld src 4 = Some flg" and bd: "ld src 5 = Some bd"
    and f: "drop_bit 6 flg AND 3 = 1" "drop_bit 1 flg AND 1 = 0" "drop_bit 5 flg AND 1 = 0 \<longleftrightarrow> bm = LZ4F_blockLinked"
      "drop_bit 4 flg AND 1 = 0 \<longleftrightarrow> bc = LZ4F_noBlockChecksum" "drop_bit 3 flg AND 1 = 0 \<longleftrightarrow> \<not> cs"
      "drop_bit 2 flg AND 1 = 0 \<longleftrightarrow> cc = LZ4F_noContentChecksum" "flg AND 1 = 0 \<longleftrightarrow> \<not> di"
    and b: "uint (drop_bit 4 bd AND 7) = bsid" "drop_bit 7 bd AND 1 = 0" "bd AND 15 = 0" "4 \<le> bsid"
    and hc: "rdn src 4 (hlen - 5) = Some hdr" "ld src (hlen - 1) = Some (header_check hdr)"
    and sz: "(if cs then LZ4F_readLE64 src 6 else Some 0) = Some sz"
    and did: "(if di then LZ4F_readLE32 src (hlen - 5) else Some 0) = Some did"
  shows "LZ4F_decodeHeader machine d src in_header = Some (Inr hlen, d\<lparr>dStage := dstage_init,
      dmaxBlockSize := as_size_t (LZ4F_getBlockSize bsid), frameRemainingSize := (if cs then uint sz else frameRemainingSize d),
      dframeInfo := \<lparr>blockSizeID = bsid, blockMode = bm, contentChecksumFlag = cc, frameType = LZ4F_frame,
        contentSize = uint sz, dictID = uint did, blockChecksumFlag = bc\<rparr>\<rparr>)"
proof -
  have m: "LZ4F_MAGICNUMBER AND 0xFFFFFFF0 \<noteq> LZ4F_MAGIC_SKIPPABLE_START" by simp
  have e: "(if bm = LZ4F_blockLinked then LZ4F_blockLinked else LZ4F_blockIndependent) = bm"
    "(if bc = LZ4F_noBlockChecksum then LZ4F_noBlockChecksum else LZ4F_blockChecksumEnabled) = bc"
    "(if cc = LZ4F_noContentChecksum then LZ4F_noContentChecksum else LZ4F_contentChecksumEnabled) = cc"
    by (cases bm; cases bc; cases cc; simp)+
  have h: "minFHSize + (if drop_bit 3 flg AND 1 \<noteq> 0 then 8 else 0) + (if flg AND 1 \<noteq> 0 then 4 else 0) = hlen"
    using len(3) by (simp add: f)
  have nl: "\<not> int (length src) < minFHSize" "\<not> int (length src) < hlen" "\<not> bsid < 4" using len b by auto
  show ?thesis
    unfolding LZ4F_decodeHeader_def Let_def if_not_P[OF nl(1)] magic bind.bind_lunit if_not_P[OF m] flg h if_not_P[OF nl(2)] bd b(1) hc
      headerChecksum_value
    using sz did nl(3) by (simp add: f b(2,3) e LZ4F_INIT_FRAMEINFO_def del: One_nat_def)
qed

lemma decodeHeader_of:
  assumes ok: "info_ok fi"
  shows "LZ4F_decodeHeader machine d (header_of fi @ rest) in_header =
    Some (Inr (header_len fi), d\<lparr>dStage := dstage_init, dmaxBlockSize := as_size_t (LZ4F_getBlockSize (blockSizeID fi)),
      frameRemainingSize := (if contentSize fi \<noteq> 0 then contentSize fi else frameRemainingSize d), dframeInfo := fi\<rparr>)"
proof -
  note rd = header_reads[OF ok, of rest]
  have nn: "0 \<le> contentSize fi" "0 \<le> dictID fi" "4 \<le> blockSizeID fi" "blockSizeID fi \<le> 7" "frameType fi = LZ4F_frame"
    using ok by (auto simp: info_ok_def)
  note fl = FLG_bits[OF nn(1,2)] note bd = BD_bits[OF nn(3,4)]
  have l: "7 \<le> header_len fi" by (simp add: header_len_def)
  obtain sz where sz: "(if contentSize fi \<noteq> 0 then LZ4F_readLE64 (header_of fi @ rest) 6 else Some 0) = Some sz" "uint sz = contentSize fi"
    using rd(6) by (cases "contentSize fi = 0") auto
  obtain did where did: "(if dictID fi \<noteq> 0 then LZ4F_readLE32 (header_of fi @ rest) (header_len fi - 5) else Some 0) = Some did" "uint did = dictID fi"
    using rd(7) by (cases "dictID fi = 0") auto
  have fi: "\<lparr>blockSizeID = blockSizeID fi, blockMode = blockMode fi, contentChecksumFlag = contentChecksumFlag fi, frameType = LZ4F_frame,
      contentSize = contentSize fi, dictID = dictID fi, blockChecksumFlag = blockChecksumFlag fi\<rparr> = fi" using nn(5) by (cases fi) simp
  have "LZ4F_decodeHeader machine d (header_of fi @ rest) in_header = Some (Inr (header_len fi), d\<lparr>dStage := dstage_init,
      dmaxBlockSize := as_size_t (LZ4F_getBlockSize (blockSizeID fi)),
      frameRemainingSize := (if contentSize fi \<noteq> 0 then uint sz else frameRemainingSize d),
      dframeInfo := \<lparr>blockSizeID = blockSizeID fi, blockMode = blockMode fi, contentChecksumFlag = contentChecksumFlag fi,
        frameType = LZ4F_frame, contentSize = uint sz, dictID = uint did, blockChecksumFlag = blockChecksumFlag fi\<rparr>\<rparr>)"
  proof (rule decodeHeader_fields[where flg = "FLG_byte fi"])
    show "drop_bit 3 (FLG_byte fi) AND 1 = 0 \<longleftrightarrow> \<not> contentSize fi \<noteq> 0" unfolding not_not by (rule fl(5))
    show "FLG_byte fi AND 1 = 0 \<longleftrightarrow> \<not> dictID fi \<noteq> 0" unfolding not_not by (rule fl(7))
  qed (rule order_trans[OF l rd(8)] rd header_len_def fl bd nn sz(1) did(1))+
  then show ?thesis by (simp only: sz(2) did(2) fi)
qed

lemma headerSize_of:
  assumes ok: "info_ok fi"
  shows "LZ4F_headerSize (Some (header_of fi @ rest)) = Some (Inr (header_len fi))"
proof -
  note rd = header_reads[OF ok, of rest]
  have nn: "0 \<le> contentSize fi" "0 \<le> dictID fi" using ok by (auto simp: info_ok_def)
  have m: "LZ4F_MAGICNUMBER AND 0xFFFFFFF0 \<noteq> LZ4F_MAGIC_SKIPPABLE_START" by simp
  have l: "\<not> int (length (header_of fi @ rest)) < 5" using rd(8) by (simp add: header_len_def split: if_splits)
  have f: "(drop_bit 3 (FLG_byte fi) AND 1 \<noteq> 0) = (contentSize fi \<noteq> 0)" "(FLG_byte fi AND 1 \<noteq> 0) = (dictID fi \<noteq> 0)"
    using FLG_bits(5,7)[OF nn] by auto
  show ?thesis
    unfolding LZ4F_headerSize_def option.case if_not_P[OF l] rd(1) bind.bind_lunit if_not_P[OF m] rd(2) Let_def f
    by (simp add: header_len_def)
qed

lemma getBlockSize_cases: "4 \<le> k \<Longrightarrow> k \<le> 7 \<Longrightarrow> LZ4F_getBlockSize k = Inr (2 ^ (8 + 2 * nat k))"
proof -
  assume "4 \<le> k" "k \<le> 7"
  then have "k = 4 \<or> k = 5 \<or> k = 6 \<or> k = 7" by auto
  then show ?thesis by (auto simp: LZ4F_getBlockSize_def)
qed

lemma optimal_loop_ok:
  assumes "p \<le> r" "4 \<le> p" "m = 2 ^ (8 + 2 * nat p)"
  shows "let b = optimal_loop r n p m in p \<le> b \<and> b \<le> r \<and> (b = r \<or> n \<le> 2 ^ (8 + 2 * nat b))
    \<and> (\<forall>b'. p \<le> b' \<and> b' < b \<longrightarrow> 2 ^ (8 + 2 * nat b') < n)"
  using assms
proof (induction r n p m rule: optimal_loop.induct)
  case (1 r n p m)
  show ?case
  proof (cases "r > p \<and> \<not> n \<le> m")
    case True
    have "nat (p + 1) = nat p + 1" using 1(3) by simp
    then have m4: "m * 4 = 2 ^ (8 + 2 * nat (p + 1))" using 1(4) by (simp add: power_add)
    have "4 \<le> p + 1" "p + 1 \<le> r" using 1(3) True by auto
    from 1(1)[OF conjunct1[OF True] conjunct2[OF True] this(2,1) m4]
    have ih: "p + 1 \<le> optimal_loop r n (p + 1) (m * 4)" "optimal_loop r n (p + 1) (m * 4) \<le> r"
      "optimal_loop r n (p + 1) (m * 4) = r \<or> n \<le> 2 ^ (8 + 2 * nat (optimal_loop r n (p + 1) (m * 4)))"
      "\<And>b'. p + 1 \<le> b' \<Longrightarrow> b' < optimal_loop r n (p + 1) (m * 4) \<Longrightarrow> 2 ^ (8 + 2 * nat b') < n" by (auto simp: Let_def)
    have eq: "optimal_loop r n p m = optimal_loop r n (p + 1) (m * 4)" using True by (subst optimal_loop.simps) simp
    have "2 ^ (8 + 2 * nat b') < n" if "p \<le> b'" "b' < optimal_loop r n (p + 1) (m * 4)" for b'
      using ih(4)[of b'] that True 1(4) by (cases "b' = p") auto
    then show ?thesis using ih unfolding eq Let_def by simp
  next
    case False
    then have "optimal_loop r n p m = p" using 1(2) by (subst optimal_loop.simps) auto
    then show ?thesis using False 1(2,4) by (auto simp: Let_def)
  qed
qed

text \<open>What \<open>LZ4F_decodeHeader\<close> does to the context on any input.\<close>

definition same_buffers :: "LZ4F_dctx \<Rightarrow> LZ4F_dctx \<Rightarrow> bool" where
  "same_buffers d d' \<longleftrightarrow> dmaxBufferSize d' = dmaxBufferSize d \<and> dtmpIn d' = dtmpIn d \<and> tmpOutBuffer d' = tmpOutBuffer d
     \<and> ddict d' = ddict d \<and> ddictSize d' = ddictSize d \<and> tmpOut d' = tmpOut d \<and> tmpOutSize d' = tmpOutSize d
     \<and> tmpOutStart d' = tmpOutStart d \<and> dxxh d' = dxxh d \<and> blockChecksum d' = blockChecksum d \<and> skipChecksum d' = skipChecksum d
     \<and> length (dheader d') = length (dheader d)"

definition header_post :: "LZ4F_dctx \<Rightarrow> bytes \<Rightarrow> bool \<Rightarrow> LZ4F_errorCodes + int \<Rightarrow> LZ4F_dctx \<Rightarrow> bool" where
  "header_post d src in_header r d' \<longleftrightarrow> same_buffers d d' \<and> (case r of Inl e \<Rightarrow> dStage d' = dStage d \<and> dtmpInSize d' = dtmpInSize d \<and> dtmpInTarget d' = dtmpInTarget d
     | Inr n \<Rightarrow> 4 \<le> n \<and> n \<le> int (length src) \<and>
       (dStage d' = dstage_init \<and> 4 \<le> blockSizeID (dframeInfo d') \<and> blockSizeID (dframeInfo d') \<le> 7
           \<and> dmaxBlockSize d' = as_size_t (LZ4F_getBlockSize (blockSizeID (dframeInfo d'))) \<and> frameType (dframeInfo d') = LZ4F_frame
           \<and> dtmpInSize d' = dtmpInSize d \<and> dtmpInTarget d' = dtmpInTarget d
        \<or> dStage d' = dstage_getSFrameSize \<and> \<not> in_header \<and> dtmpInSize d' = dtmpInSize d \<and> dtmpInTarget d' = dtmpInTarget d
        \<or> dStage d' = dstage_storeSFrameSize \<and> in_header \<and> dtmpInSize d' = int (length src) \<and> dtmpInTarget d' = 8
           \<and> LZ4F_readLE32 src 0 \<noteq> Some LZ4F_MAGICNUMBER
        \<or> dStage d' = dstage_storeFrameHeader \<and> dtmpInSize d' = int (length src) \<and> int (length src) < dtmpInTarget d' \<and> dtmpInTarget d' \<le> 19
           \<and> LZ4F_readLE32 src 0 = Some LZ4F_MAGICNUMBER
           \<and> (if in_header then dheader d' = dheader d else take (length src) (dheader d') = src)))"

lemma decodeHeader_ok:
  assumes h: "length (dheader d) = 19"
  shows "wp (LZ4F_decodeHeader machine d src in_header) (\<lambda>(r, d'). header_post d src in_header r d')"
proof (cases "int (length src) < minFHSize")
  case True
  then show ?thesis by (simp add: LZ4F_decodeHeader_def wp_simps header_post_def same_buffers_def)
next
  case l: False
  have ib: "in_buf src p n" if "0 \<le> p" "0 \<le> n" "p + n \<le> 7" for p n using l that by (auto simp: in_buf_def)
  define magic where "magic = (le_word (seg src 0 4) :: u32)"
  have rm: "LZ4F_readLE32 src 0 = Some magic" using readLE32_le_word[of src 0] ib[of 0 4] by (simp add: magic_def)
  define flg where "flg = at src 4" define bd where "bd = at src 5"
  have rf: "ld src 4 = Some flg" "ld src 5 = Some bd" using ib[of 4 1] ib[of 5 1] by (simp_all add: ld_def flg_def bd_def)
  define cs where "cs \<longleftrightarrow> drop_bit 3 flg AND 1 \<noteq> 0" define di where "di \<longleftrightarrow> flg AND 1 \<noteq> 0"
  define hlen where "hlen = minFHSize + (if cs then 8 else 0) + (if di then 4 else 0)"
  have hl: "7 \<le> hlen" "hlen \<le> 19" "di \<Longrightarrow> 11 \<le> hlen" "cs \<Longrightarrow> 15 \<le> hlen" by (simp_all add: hlen_def)
  have sb: "same_buffers d (d\<lparr>dframeInfo := fi, dStage := s, frameRemainingSize := n, dmaxBlockSize := m, dtmpInSize := i, dtmpInTarget := j\<rparr>)"
    for fi s n m i j by (simp add: same_buffers_def)
  let ?d = "d\<lparr>dframeInfo := LZ4F_INIT_FRAMEINFO\<rparr>"
  consider (skip) "magic AND 0xFFFFFFF0 = LZ4F_MAGIC_SKIPPABLE_START"
    | (unknown) "magic AND 0xFFFFFFF0 \<noteq> LZ4F_MAGIC_SKIPPABLE_START" "magic \<noteq> LZ4F_MAGICNUMBER"
    | (flags) "magic = LZ4F_MAGICNUMBER" "drop_bit 1 flg AND 1 \<noteq> 0 \<or> drop_bit 6 flg AND 3 \<noteq> 1"
    | (short) "magic = LZ4F_MAGICNUMBER" "drop_bit 1 flg AND 1 = 0" "drop_bit 6 flg AND 3 = 1" "int (length src) < hlen"
    | (full) "magic = LZ4F_MAGICNUMBER" "drop_bit 1 flg AND 1 = 0" "drop_bit 6 flg AND 3 = 1" "\<not> int (length src) < hlen"
    by blast
  then show ?thesis
  proof cases
    case skip
    then have "magic \<noteq> LZ4F_MAGICNUMBER" by auto
    with skip show ?thesis using l
      by (simp add: LZ4F_decodeHeader_def rm wp_simps header_post_def same_buffers_def)
  next
    case unknown
    then show ?thesis using l
      by (simp add: LZ4F_decodeHeader_def rm wp_simps header_post_def same_buffers_def)
  next
    case flags
    then show ?thesis using l
      by (simp add: LZ4F_decodeHeader_def rm rf(1) wp_simps header_post_def same_buffers_def del: One_nat_def)
  next
    case short
    have w: "wrn (dheader d) 0 src = Some (upd (dheader d) 0 src)" "length (upd (dheader d) 0 src) = 19"
      using short(4) hl(2) h by (auto simp: wrn_def in_buf_def)
    have "LZ4F_decodeHeader machine d src in_header = Some (Inr (int (length src)), ?d\<lparr>
        dheader := (if in_header then dheader d else upd (dheader d) 0 src), dtmpInSize := int (length src), dtmpInTarget := hlen,
        dStage := dstage_storeFrameHeader\<rparr>)"
      using l short w(1) unfolding LZ4F_decodeHeader_def Let_def rm bind.bind_lunit rf cs_def[symmetric] di_def[symmetric] hlen_def[symmetric]
      by (simp del: One_nat_def)
    moreover have "take (length src) (upd (dheader d) 0 src) = src" by (simp add: upd_def)
    ultimately show ?thesis using l w(2) h short(1,4) hl(2) rm by (auto simp: wp_simps header_post_def same_buffers_def)
  next
    case full
    have r: "rdn src 4 (hlen - 5) = Some (seg src 4 (hlen - 1))" "ld src (hlen - 1) = Some (at src (hlen - 1))"
      using full(4) hl(1) by (auto simp: rdn_def ld_def in_buf_def)
    obtain sz where sz: "(if cs then LZ4F_readLE64 src 6 else Some 0) = Some sz"
      using readLE64_le_word[of src 6] full(4) hl(4) by (cases cs) (auto simp: in_buf_def)
    obtain did where did: "(if di then LZ4F_readLE32 src (hlen - 5) else Some 0) = Some did"
      using readLE32_le_word[of src "hlen - 5"] full(4) hl(3) by (cases di) (auto simp: in_buf_def)
    have "uint (drop_bit 4 bd AND 7) \<le> 7"
    proof -
      have "drop_bit 4 bd AND 7 = take_bit 3 (drop_bit 4 bd)" by (simp add: take_bit_eq_mask mask_eq_exp_minus_1)
      then show ?thesis by (simp add: take_bit_eq_mod uint_mod) 
    qed
    then show ?thesis
      using full l hl(1) unfolding LZ4F_decodeHeader_def Let_def rm bind.bind_lunit rf cs_def[symmetric] di_def[symmetric] hlen_def[symmetric] sz did r
        headerChecksum_value
      by (simp add: wp_simps header_post_def same_buffers_def LZ4F_INIT_FRAMEINFO_def del: One_nat_def)
  qed
qed

lemma decodeHeader_stage:
  assumes "LZ4F_decodeHeader machine d src ih = Some (Inr n, d')" "length (dheader d) = 19"
  shows "4 \<le> n \<and> n \<le> int (length src) \<and> (dStage d' \<in> {dstage_init, dstage_getSFrameSize, dstage_storeSFrameSize}
        \<or> dStage d' = dstage_storeFrameHeader \<and> dtmpInSize d' < dtmpInTarget d')"
  using decodeHeader_ok[OF assms(2), of machine src ih] assms(1) by (auto simp: wp_iff header_post_def)

section \<open>Properties\<close>

text \<open>C34. Error codes survive their encoding in a \<open>size_t\<close>: \<open>LZ4F_isError\<close> tells an error from a size below
  2^63, and \<open>LZ4F_getErrorCode\<close> gives the error back.\<close>

theorem LZ4F_error_roundtrip:
  assumes "e \<noteq> OK_NoError" "e \<noteq> ERROR_maxCode" "0 \<le> n" "n < 2 ^ 63"
  shows "LZ4F_isError (as_size_t (Inl e)) \<and> LZ4F_getErrorCode (as_size_t (Inl e)) = e
    \<and> \<not> LZ4F_isError (as_size_t (Inr n)) \<and> LZ4F_getErrorCode (as_size_t (Inr n)) = OK_NoError"
proof -
  note v = error_value_range[OF assms(1,2)]
  have m: "LZ4F_isError c \<longleftrightarrow> c > 2 ^ 64 - 22" for c by (simp add: LZ4F_isError_def error_value_cases)
  have "(- (2 ^ 64 - error_value e)) mod 2 ^ 64 = error_value e"
    using v mod_add_self2[of "error_value e - 2 ^ 64" "2 ^ 64"] by simp
  then have "LZ4F_isError (as_size_t (Inl e))" "LZ4F_getErrorCode (as_size_t (Inl e)) = e"
    using v by (simp_all add: as_size_t_def m LZ4F_getErrorCode_def returnErrorCode_value[OF assms(1,2)] error_list_value)
  moreover have "\<not> LZ4F_isError (as_size_t (Inr n))" using assms(4) by (simp add: as_size_t_def m)
  ultimately show ?thesis by (simp add: LZ4F_getErrorCode_def)
qed

lemma LZ4F_error_roundtrip_witness:
  "LZ4F_isError (as_size_t (Inl ERROR_frameType_unknown)) \<and> \<not> LZ4F_isError (as_size_t (Inr 7))"
  using LZ4F_error_roundtrip[of ERROR_frameType_unknown 7] by simp

text \<open>C33. The frame header \<open>LZ4F_compressBegin\<close> writes has 7 to 19 bytes; \<open>LZ4F_headerSize\<close> finds its length,
  and \<open>LZ4F_decodeHeader\<close>, whatever follows the header and on a machine of either byte order, accepts it,
  consumes exactly it, and sets the frame parameters that were written.\<close>

theorem LZ4F_header_roundtrip:
  assumes "info_ok fi"
  shows "\<exists>hdr. write_header machine fi = Some hdr \<and> 7 \<le> length hdr \<and> length hdr \<le> 19
    \<and> LZ4F_headerSize (Some (hdr @ rest)) = Some (Inr (int (length hdr)))
    \<and> LZ4F_decodeHeader machine' d (hdr @ rest) in_header = Some (Inr (int (length hdr)), d\<lparr>dStage := dstage_init,
        dmaxBlockSize := 2 ^ (8 + 2 * nat (blockSizeID fi)),
        frameRemainingSize := (if contentSize fi \<noteq> 0 then contentSize fi else frameRemainingSize d), dframeInfo := fi\<rparr>)"
proof -
  have b: "as_size_t (LZ4F_getBlockSize (blockSizeID fi)) = 2 ^ (8 + 2 * nat (blockSizeID fi))"
    using assms getBlockSize_cases by (simp add: info_ok_def as_size_t_def)
  have "7 \<le> int (length (header_of fi))" "int (length (header_of fi)) \<le> 19" unfolding length_header(2) by (simp_all add: header_len_def)
  then have "7 \<le> length (header_of fi)" "length (header_of fi) \<le> 19" by linarith+
  then show ?thesis
    using write_header_value[of machine fi] headerSize_of[OF assms, of rest] decodeHeader_of[OF assms, of machine' d rest in_header]
    by (intro exI[of _ "header_of fi"]) (simp add: length_header(2) b)
qed

lemma LZ4F_header_roundtrip_witness:
  "\<exists>hdr. write_header XXH_littleEndian (LZ4F_INIT_FRAMEINFO\<lparr>blockSizeID := 4, contentSize := 1000\<rparr>) = Some hdr
    \<and> LZ4F_headerSize (Some (hdr @ [0, 0, 0, 0])) = Some (Inr (int (length hdr)))"
  using LZ4F_header_roundtrip[of "LZ4F_INIT_FRAMEINFO\<lparr>blockSizeID := 4, contentSize := 1000\<rparr>" XXH_littleEndian "[0, 0, 0, 0]"
      XXH_bigEndian LZ4F_createDecompressionContext False]
  by (auto simp: info_ok_def LZ4F_INIT_FRAMEINFO_def)

text \<open>C35. \<open>LZ4F_optimalBSID\<close> ends and chooses the smallest block size, not above the one requested, that holds the
  source; if none does, the one requested.\<close>

theorem LZ4F_optimalBSID_minimal:
  assumes "4 \<le> r" "r \<le> 7"
  shows "let b = LZ4F_optimalBSID r n; size = (\<lambda>k. as_size_t (LZ4F_getBlockSize k)) in
    4 \<le> b \<and> b \<le> r \<and> (b = r \<or> n \<le> size b) \<and> (\<forall>b'. 4 \<le> b' \<and> b' < b \<longrightarrow> size b' < n)"
proof -
  have s: "as_size_t (LZ4F_getBlockSize k) = 2 ^ (8 + 2 * nat k)" if "4 \<le> k" "k \<le> r" for k
    using that assms getBlockSize_cases by (simp add: as_size_t_def)
  have "4 \<le> LZ4F_optimalBSID r n" "LZ4F_optimalBSID r n \<le> r" "LZ4F_optimalBSID r n = r \<or> n \<le> 2 ^ (8 + 2 * nat (LZ4F_optimalBSID r n))"
    "\<And>b'. 4 \<le> b' \<Longrightarrow> b' < LZ4F_optimalBSID r n \<Longrightarrow> 2 ^ (8 + 2 * nat b') < n"
    using optimal_loop_ok[of 4 r "KB 64" n] assms by (auto simp: LZ4F_optimalBSID_def Let_def)
  then show ?thesis by (auto simp: Let_def s)
qed

lemma LZ4F_optimalBSID_minimal_witness: "LZ4F_optimalBSID 7 70000 = 5"
proof -
  let ?b = "LZ4F_optimalBSID 7 70000"
  have b: "4 \<le> ?b" "?b \<le> 7" "?b = 7 \<or> 70000 \<le> as_size_t (LZ4F_getBlockSize ?b)"
    "\<And>b'. 4 \<le> b' \<Longrightarrow> b' < ?b \<Longrightarrow> as_size_t (LZ4F_getBlockSize b') < 70000"
    using LZ4F_optimalBSID_minimal[of 7 70000] by (auto simp: Let_def)
  have "?b = 4 \<or> ?b = 5 \<or> 5 < ?b" using b(1) by linarith
  then show ?thesis using b(3) b(4)[of 5] by (auto simp: LZ4F_getBlockSize_def as_size_t_def)
qed

end
