(* ===== verification/LZ4F_Decompress.thy ===== *)
theory LZ4F_Decompress
  imports LZ4F_Frame LZ4_Decompress_Api
begin

text \<open>
  \<open>LZ4F_decompress\<close> of \<open>lz4frame.c\<close>: one definition per stage of its state machine, the loop over
  the stages, and the functions around it. Buffers are addresses in a flat memory; a \<open>memcpy\<close> of
  overlapping ranges is \<open>None\<close>. A stage ends with \<open>Again\<close> (\<open>break\<close> and another turn of the loop),
  \<open>Stop\<close> (\<open>doAnotherStage = 0\<close>) or \<open>Return\<close>.
\<close>

section \<open>The variables of a call\<close>

record dloop =
  lmem :: memory
  lctx :: LZ4F_dctx
  srcPtr :: int
  dstPtr :: int
  nextSrcSizeHint :: int

record denv =
  dmachine :: XXH_endianess
  dfast :: bool
  malloc_in :: "int \<Rightarrow> int"
  malloc_out :: "int \<Rightarrow> int"
  srcEnd :: int
  dstStart :: int
  dstEnd :: int
  stableDst :: bool

datatype step = Again dloop | Stop dloop | Return "LZ4F_errorCodes + int" dloop

text \<open>Subtraction of \<open>size_t\<close>; a \<open>memcpy\<close>; a 32-bit field in memory.\<close>

definition usub :: "int \<Rightarrow> int \<Rightarrow> int" where
  "usub a b = (a - b) mod 2 ^ 64"

definition copy_mem :: "memory \<Rightarrow> int \<Rightarrow> int \<Rightarrow> int \<Rightarrow> memory option" where
  "copy_mem mem d s n = (if apart d n s n then Some (write_mem mem d (read_mem mem s n)) else None)"

definition read32_mem :: "memory \<Rightarrow> int \<Rightarrow> u32 option" where
  "read32_mem mem a = LZ4F_readLE32 (read_mem mem a 4) 0"

abbreviation has_blocksum :: "LZ4F_dctx \<Rightarrow> bool" where
  "has_blocksum d \<equiv> blockChecksumFlag (dframeInfo d) = LZ4F_blockChecksumEnabled"
abbreviation has_contentsum :: "LZ4F_dctx \<Rightarrow> bool" where
  "has_contentsum d \<equiv> contentChecksumFlag (dframeInfo d) = LZ4F_contentChecksumEnabled"
abbreviation linked :: "LZ4F_dctx \<Rightarrow> bool" where
  "linked d \<equiv> blockMode (dframeInfo d) = LZ4F_blockLinked"

definition LZ4F_resetDecompressionContext :: "LZ4F_dctx \<Rightarrow> LZ4F_dctx" where
  "LZ4F_resetDecompressionContext d =
     d\<lparr>dStage := dstage_getFrameHeader, ddict := 0, ddictSize := 0, skipChecksum := False\<rparr>"

definition checksum_update :: "XXH_endianess \<Rightarrow> XXH32_state \<Rightarrow> bytes \<Rightarrow> XXH32_state option" where
  "checksum_update machine s bs = map_option snd (XXH32_update machine s (Some bs))"

section \<open>The dictionary of linked blocks\<close>

text \<open>\<open>LZ4F_updateDict\<close>, branch by branch.\<close>

definition dict_within_tmp :: "LZ4F_dctx \<Rightarrow> memory \<Rightarrow> int \<Rightarrow> (LZ4F_dctx \<times> memory) option" where
  "dict_within_tmp d mem dstSize =
    (let preserveSize = tmpOut d - tmpOutBuffer d;
         copySize = (if tmpOutSize d > KB 64 then 0 else KB 64 - tmpOutSize d);
         copySize = min copySize preserveSize;
         oldDictEnd = ddict d + ddictSize d - tmpOutStart d in do {
     mem \<leftarrow> copy_mem mem (tmpOutBuffer d + preserveSize - copySize) (oldDictEnd - copySize) copySize;
     Some (d\<lparr>ddict := tmpOutBuffer d, ddictSize := preserveSize + tmpOutStart d + dstSize\<rparr>, mem) })"

definition dict_append_tmp :: "LZ4F_dctx \<Rightarrow> memory \<Rightarrow> int \<Rightarrow> int \<Rightarrow> (LZ4F_dctx \<times> memory) option" where
  "dict_append_tmp d mem dst dstSize = do {
     (d, mem) \<leftarrow> (if ddictSize d + dstSize > dmaxBufferSize d then
         let preserveSize = KB 64 - dstSize in do {
           mem \<leftarrow> copy_mem mem (tmpOutBuffer d) (ddict d + ddictSize d - preserveSize) preserveSize;
           Some (d\<lparr>ddictSize := preserveSize\<rparr>, mem) }
       else Some (d, mem));
     mem \<leftarrow> copy_mem mem (tmpOutBuffer d + ddictSize d) dst dstSize;
     Some (d\<lparr>ddictSize := ddictSize d + dstSize\<rparr>, mem) }"

definition dict_join_tmp :: "LZ4F_dctx \<Rightarrow> memory \<Rightarrow> int \<Rightarrow> int \<Rightarrow> (LZ4F_dctx \<times> memory) option" where
  "dict_join_tmp d mem dst dstSize =
    (let preserveSize = min (KB 64 - dstSize) (ddictSize d) in do {
     mem \<leftarrow> copy_mem mem (tmpOutBuffer d) (ddict d + ddictSize d - preserveSize) preserveSize;
     mem \<leftarrow> copy_mem mem (tmpOutBuffer d + preserveSize) dst dstSize;
     Some (d\<lparr>ddict := tmpOutBuffer d, ddictSize := preserveSize + dstSize\<rparr>, mem) })"

definition LZ4F_updateDict ::
  "LZ4F_dctx \<Rightarrow> memory \<Rightarrow> int \<Rightarrow> int \<Rightarrow> int \<Rightarrow> bool \<Rightarrow> (LZ4F_dctx \<times> memory) option" where
  "LZ4F_updateDict d mem dst dstSize dstBufferStart withinTmp =
    (let d = (if ddictSize d = 0 then d\<lparr>ddict := dst\<rparr> else d) in
     if ddict d + ddictSize d = dst then Some (d\<lparr>ddictSize := ddictSize d + dstSize\<rparr>, mem)
     else if dst - dstBufferStart + dstSize \<ge> KB 64 then
       Some (d\<lparr>ddict := dstBufferStart, ddictSize := dst - dstBufferStart + dstSize\<rparr>, mem)
     else if withinTmp \<and> ddict d = tmpOutBuffer d then Some (d\<lparr>ddictSize := ddictSize d + dstSize\<rparr>, mem)
     else if withinTmp then dict_within_tmp d mem dstSize
     else if ddict d = tmpOutBuffer d then dict_append_tmp d mem dst dstSize
     else dict_join_tmp d mem dst dstSize)"

section \<open>Header stages\<close>

text \<open>Copying what is there of a field into \<open>dctx->header\<close>.\<close>

definition fill_header :: "denv \<Rightarrow> dloop \<Rightarrow> int \<Rightarrow> dloop option" where
  "fill_header env l wanted =
    (let d = lctx l; n = min wanted (srcEnd env - srcPtr l) in do {
     hdr \<leftarrow> wrn (dheader d) (dtmpInSize d) (read_mem (lmem l) (srcPtr l) n);
     Some (l\<lparr>lctx := d\<lparr>dheader := hdr, dtmpInSize := dtmpInSize d + n\<rparr>, srcPtr := srcPtr l + n\<rparr>) })"

definition stage_storeFrameHeader :: "denv \<Rightarrow> dloop \<Rightarrow> step option" where
  "stage_storeFrameHeader env l = do {
     l \<leftarrow> fill_header env l (usub (dtmpInTarget (lctx l)) (dtmpInSize (lctx l)));
     let d = lctx l;
     if dtmpInSize d < dtmpInTarget d then Some (Stop (l\<lparr>nextSrcSizeHint := dtmpInTarget d - dtmpInSize d + BHSize\<rparr>))
     else do {
       hdr \<leftarrow> rdn (dheader d) 0 (dtmpInTarget d);
       (r, d) \<leftarrow> LZ4F_decodeHeader (dmachine env) d hdr True;
       (case r of Inl e \<Rightarrow> Some (Return (Inl e) (l\<lparr>lctx := d\<rparr>)) | Inr n \<Rightarrow> Some (Again (l\<lparr>lctx := d\<rparr>))) } }"

definition stage_getFrameHeader :: "denv \<Rightarrow> dloop \<Rightarrow> step option" where
  "stage_getFrameHeader env l =
    (if srcEnd env - srcPtr l \<ge> maxFHSize then do {
       (r, d) \<leftarrow> LZ4F_decodeHeader (dmachine env) (lctx l) (read_mem (lmem l) (srcPtr l) (srcEnd env - srcPtr l)) False;
       (case r of Inl e \<Rightarrow> Some (Return (Inl e) (l\<lparr>lctx := d\<rparr>))
        | Inr hSize \<Rightarrow> Some (Again (l\<lparr>lctx := d, srcPtr := srcPtr l + hSize\<rparr>))) }
     else
       let l = l\<lparr>lctx := (lctx l)\<lparr>dtmpInSize := 0\<rparr>\<rparr> in
       if srcEnd env - srcPtr l = 0 then Some (Return (Inr minFHSize) l)
       else stage_storeFrameHeader env (l\<lparr>lctx := (lctx l)\<lparr>dtmpInTarget := minFHSize, dStage := dstage_storeFrameHeader\<rparr>\<rparr>))"

section \<open>Block header stages\<close>

definition decode_block_header :: "denv \<Rightarrow> dloop \<Rightarrow> int \<Rightarrow> step option" where
  "decode_block_header env l selectedIn = do {
     blockHeader \<leftarrow> read32_mem (lmem l) selectedIn;
     let d = lctx l;
     let nextCBlockSize = uint (blockHeader AND 0x7FFFFFFF);
     let crcSize = (if has_blocksum d then BFSize else 0);
     if blockHeader = 0 then Some (Again (l\<lparr>lctx := d\<lparr>dStage := dstage_getSuffix\<rparr>\<rparr>))
     else if nextCBlockSize > dmaxBlockSize d then Some (Return (Inl ERROR_maxBlockSize_invalid) l)
     else if blockHeader AND LZ4F_BLOCKUNCOMPRESSED_FLAG \<noteq> 0 then
       Some (Again (l\<lparr>lctx := d\<lparr>dtmpInTarget := nextCBlockSize,
         blockChecksum := (if has_blocksum d then XXH32_reset 0 else blockChecksum d), dStage := dstage_copyDirect\<rparr>\<rparr>))
     else
       let l = l\<lparr>lctx := d\<lparr>dtmpInTarget := nextCBlockSize + crcSize, dStage := dstage_getCBlock\<rparr>\<rparr> in
       if dstPtr l = dstEnd env \<or> srcPtr l = srcEnd env
       then Some (Stop (l\<lparr>nextSrcSizeHint := BHSize + nextCBlockSize + crcSize\<rparr>))
       else Some (Again l) }"

text \<open>Copying what is there of a field into \<open>tmpIn\<close>.\<close>

definition fill_tmpIn :: "denv \<Rightarrow> dloop \<Rightarrow> int \<Rightarrow> dloop option" where
  "fill_tmpIn env l wanted =
    (let d = lctx l; n = min wanted (srcEnd env - srcPtr l) in do {
     mem \<leftarrow> copy_mem (lmem l) (dtmpIn d + dtmpInSize d) (srcPtr l) n;
     Some (l\<lparr>lmem := mem, lctx := d\<lparr>dtmpInSize := dtmpInSize d + n\<rparr>, srcPtr := srcPtr l + n\<rparr>) })"

definition stage_storeBlockHeader :: "denv \<Rightarrow> dloop \<Rightarrow> step option" where
  "stage_storeBlockHeader env l = do {
     l \<leftarrow> fill_tmpIn env l (usub BHSize (dtmpInSize (lctx l)));
     if dtmpInSize (lctx l) < BHSize then Some (Stop (l\<lparr>nextSrcSizeHint := BHSize - dtmpInSize (lctx l)\<rparr>))
     else decode_block_header env l (dtmpIn (lctx l)) }"

definition stage_getBlockHeader :: "denv \<Rightarrow> dloop \<Rightarrow> step option" where
  "stage_getBlockHeader env l =
    (if srcEnd env - srcPtr l \<ge> BHSize then decode_block_header env (l\<lparr>srcPtr := srcPtr l + BHSize\<rparr>) (srcPtr l)
     else stage_storeBlockHeader env (l\<lparr>lctx := (lctx l)\<lparr>dtmpInSize := 0, dStage := dstage_storeBlockHeader\<rparr>\<rparr>))"

definition init_buffers :: "denv \<Rightarrow> LZ4F_dctx \<Rightarrow> (LZ4F_errorCodes \<times> LZ4F_dctx) + LZ4F_dctx" where
  "init_buffers env d =
    (let bufferNeeded = dmaxBlockSize d + (if linked d then KB 128 else 0) in
     if bufferNeeded > dmaxBufferSize d then
       let d = d\<lparr>dmaxBufferSize := 0, dtmpIn := malloc_in env (dmaxBlockSize d + BFSize)\<rparr> in
       if dtmpIn d = 0 then Inl (ERROR_allocation_failed, d)
       else let d = d\<lparr>tmpOutBuffer := malloc_out env bufferNeeded\<rparr> in
         if tmpOutBuffer d = 0 then Inl (ERROR_allocation_failed, d)
         else Inr (d\<lparr>dmaxBufferSize := bufferNeeded\<rparr>)
     else Inr d)"

definition stage_init :: "denv \<Rightarrow> dloop \<Rightarrow> step option" where
  "stage_init env l =
    (let d = lctx l; d = (if has_contentsum d then d\<lparr>dxxh := XXH32_reset 0\<rparr> else d) in
     case init_buffers env d of
       Inl (e, d) \<Rightarrow> Some (Return (Inl e) (l\<lparr>lctx := d\<rparr>))
     | Inr d \<Rightarrow> stage_getBlockHeader env (l\<lparr>lctx := d\<lparr>dtmpInSize := 0, dtmpInTarget := 0,
         tmpOut := tmpOutBuffer d, tmpOutStart := 0, tmpOutSize := 0, dStage := dstage_getBlockHeader\<rparr>\<rparr>))"

section \<open>Uncompressed blocks\<close>

text \<open>What both kinds of block do with the bytes they produce: checksum, remaining size.\<close>

definition account :: "denv \<Rightarrow> LZ4F_dctx \<Rightarrow> bytes \<Rightarrow> LZ4F_dctx option" where
  "account env d bs = do {
     x \<leftarrow> (if has_contentsum d \<and> \<not> skipChecksum d then checksum_update (dmachine env) (dxxh d) bs else Some (dxxh d));
     Some (d\<lparr>dxxh := x, frameRemainingSize := (if contentSize (dframeInfo d) \<noteq> 0
       then usub (frameRemainingSize d) (int (length bs)) else frameRemainingSize d)\<rparr>) }"

definition copy_direct :: "denv \<Rightarrow> dloop \<Rightarrow> int \<Rightarrow> dloop option" where
  "copy_direct env l n = do {
     let bs = read_mem (lmem l) (srcPtr l) n;
     let d = lctx l;
     mem \<leftarrow> copy_mem (lmem l) (dstPtr l) (srcPtr l) n;
     b \<leftarrow> (if has_blocksum d \<and> \<not> skipChecksum d then checksum_update (dmachine env) (blockChecksum d) bs else Some (blockChecksum d));
     d \<leftarrow> account env (d\<lparr>blockChecksum := b\<rparr>) bs;
     (d, mem) \<leftarrow> (if linked d then LZ4F_updateDict d mem (dstPtr l) n (dstStart env) False else Some (d, mem));
     Some (l\<lparr>lmem := mem, lctx := d, srcPtr := srcPtr l + n, dstPtr := dstPtr l + n\<rparr>) }"

definition stage_copyDirect :: "denv \<Rightarrow> dloop \<Rightarrow> step option" where
  "stage_copyDirect env l =
    (let sizeToCopy = (if dstPtr l = 0 then 0
           else min (dtmpInTarget (lctx l)) (min (srcEnd env - srcPtr l) (dstEnd env - dstPtr l))) in do {
     l \<leftarrow> (if dstPtr l = 0 then Some l else copy_direct env l sizeToCopy);
     let d = lctx l;
     if sizeToCopy = dtmpInTarget d then
       Some (Again (l\<lparr>lctx := (if has_blocksum d then d\<lparr>dtmpInSize := 0, dStage := dstage_getBlockChecksum\<rparr>
         else d\<lparr>dStage := dstage_getBlockHeader\<rparr>)\<rparr>))
     else
       let d = d\<lparr>dtmpInTarget := dtmpInTarget d - sizeToCopy\<rparr> in
       Some (Stop (l\<lparr>lctx := d, nextSrcSizeHint := dtmpInTarget d + (if has_blocksum d then BFSize else 0) + BHSize\<rparr>)) })"

definition check_block :: "denv \<Rightarrow> dloop \<Rightarrow> bytes \<Rightarrow> step option" where
  "check_block env l crcSrc =
    (let ok = Some (Again (l\<lparr>lctx := (lctx l)\<lparr>dStage := dstage_getBlockHeader\<rparr>\<rparr>)) in
     if skipChecksum (lctx l) then ok
     else do {
       readCRC \<leftarrow> LZ4F_readLE32 crcSrc 0;
       calcCRC \<leftarrow> XXH32_digest (dmachine env) (blockChecksum (lctx l));
       if readCRC \<noteq> calcCRC then Some (Return (Inl ERROR_blockChecksum_invalid) l) else ok })"

definition stage_getBlockChecksum :: "denv \<Rightarrow> dloop \<Rightarrow> step option" where
  "stage_getBlockChecksum env l =
    (if srcEnd env - srcPtr l \<ge> 4 \<and> dtmpInSize (lctx l) = 0
     then check_block env (l\<lparr>srcPtr := srcPtr l + 4\<rparr>) (read_mem (lmem l) (srcPtr l) 4)
     else do {
       l \<leftarrow> fill_header env l (usub 4 (dtmpInSize (lctx l)));
       if dtmpInSize (lctx l) < 4 then Some (Stop l) else check_block env l (dheader (lctx l)) })"

section \<open>Compressed blocks\<close>

definition stage_flushOut :: "denv \<Rightarrow> dloop \<Rightarrow> step option" where
  "stage_flushOut env l = do {
     l \<leftarrow> (if dstPtr l \<noteq> 0 then
         let d = lctx l; n = min (tmpOutSize d - tmpOutStart d) (dstEnd env - dstPtr l) in do {
           mem \<leftarrow> copy_mem (lmem l) (dstPtr l) (tmpOut d + tmpOutStart d) n;
           (d, mem) \<leftarrow> (if linked d then LZ4F_updateDict d mem (dstPtr l) n (dstStart env) True else Some (d, mem));
           Some (l\<lparr>lmem := mem, lctx := d\<lparr>tmpOutStart := tmpOutStart d + n\<rparr>, dstPtr := dstPtr l + n\<rparr>) }
       else Some l);
     if tmpOutStart (lctx l) = tmpOutSize (lctx l)
     then Some (Again (l\<lparr>lctx := (lctx l)\<lparr>dStage := dstage_getBlockHeader\<rparr>\<rparr>))
     else Some (Stop (l\<lparr>nextSrcSizeHint := BHSize\<rparr>)) }"

text \<open>The dictionary as the block decoder gets it: its size is an \<open>int\<close>.\<close>

definition clipped_dict :: "LZ4F_dctx \<Rightarrow> int \<times> int" where
  "clipped_dict d =
    (if ddict d \<noteq> 0 \<and> ddictSize d > 2 ^ 30 then (ddict d + ddictSize d - KB 64, KB 64) else (ddict d, ddictSize d))"

definition call_block :: "denv \<Rightarrow> dloop \<Rightarrow> int \<Rightarrow> int \<Rightarrow> (int \<times> memory) option" where
  "call_block env l selectedIn dst =
    (case clipped_dict (lctx l) of (dict', dictSize') \<Rightarrow>
       LZ4_decompress_safe_usingDict (dfast env) (lmem l) selectedIn dst (dtmpInTarget (lctx l)) (dmaxBlockSize (lctx l))
         dict' dictSize')"

definition decode_to_dst :: "denv \<Rightarrow> dloop \<Rightarrow> int \<Rightarrow> step option" where
  "decode_to_dst env l selectedIn = do {
     (decodedSize, mem) \<leftarrow> call_block env l selectedIn (dstPtr l);
     if decodedSize < 0 then Some (Return (Inl ERROR_decompressionFailed) (l\<lparr>lmem := mem\<rparr>))
     else do {
       d \<leftarrow> account env (lctx l) (read_mem mem (dstPtr l) decodedSize);
       (d, mem) \<leftarrow> (if linked d then LZ4F_updateDict d mem (dstPtr l) decodedSize (dstStart env) False else Some (d, mem));
       Some (Again (l\<lparr>lmem := mem, lctx := d\<lparr>dStage := dstage_getBlockHeader\<rparr>, dstPtr := dstPtr l + decodedSize\<rparr>)) } }"

definition place_tmpOut :: "LZ4F_dctx \<Rightarrow> memory \<Rightarrow> (LZ4F_dctx \<times> memory) option" where
  "place_tmpOut d mem =
    (if \<not> linked d then Some (d, mem)
     else if ddict d = tmpOutBuffer d then do {
       (d, mem) \<leftarrow> (if ddictSize d > KB 128 then do {
           mem \<leftarrow> copy_mem mem (tmpOutBuffer d) (ddict d + ddictSize d - KB 64) (KB 64);
           Some (d\<lparr>ddictSize := KB 64\<rparr>, mem) } else Some (d, mem));
       Some (d\<lparr>tmpOut := tmpOutBuffer d + ddictSize d\<rparr>, mem) }
     else Some (d\<lparr>tmpOut := tmpOutBuffer d + min (ddictSize d) (KB 64)\<rparr>, mem))"

definition decode_to_tmp :: "denv \<Rightarrow> dloop \<Rightarrow> int \<Rightarrow> step option" where
  "decode_to_tmp env l selectedIn = do {
     (d, mem) \<leftarrow> place_tmpOut (lctx l) (lmem l);
     let l = l\<lparr>lctx := d, lmem := mem\<rparr>;
     (decodedSize, mem) \<leftarrow> call_block env l selectedIn (tmpOut d);
     if decodedSize < 0 then Some (Return (Inl ERROR_decompressionFailed) (l\<lparr>lmem := mem\<rparr>))
     else do {
       d \<leftarrow> account env d (read_mem mem (tmpOut d) decodedSize);
       stage_flushOut env (l\<lparr>lmem := mem, lctx := d\<lparr>tmpOutSize := decodedSize, tmpOutStart := 0, dStage := dstage_flushOut\<rparr>\<rparr>) } }"

text \<open>The checksum of a compressed block is verified even when checksums are to be skipped.\<close>

definition decode_block :: "denv \<Rightarrow> dloop \<Rightarrow> int \<Rightarrow> step option" where
  "decode_block env l selectedIn = do {
     (ok, l) \<leftarrow> (if has_blocksum (lctx l) then
         let target = dtmpInTarget (lctx l) - 4; l = l\<lparr>lctx := (lctx l)\<lparr>dtmpInTarget := target\<rparr>\<rparr> in do {
           readBlockCrc \<leftarrow> read32_mem (lmem l) (selectedIn + target);
           calcBlockCrc \<leftarrow> XXH32 False (dmachine env) selectedIn (read_mem (lmem l) selectedIn target) target 0;
           Some (readBlockCrc = calcBlockCrc, l) }
       else Some (True, l));
     if \<not> ok then Some (Return (Inl ERROR_blockChecksum_invalid) l)
     else
       let d = lctx l in
       if dstEnd env - dstPtr l \<ge> dmaxBlockSize d \<and> \<not> (ddict d \<noteq> 0 \<and> ddict d + ddictSize d = tmpOut d)
       then decode_to_dst env l selectedIn
       else decode_to_tmp env l selectedIn }"

definition stage_storeCBlock :: "denv \<Rightarrow> dloop \<Rightarrow> step option" where
  "stage_storeCBlock env l = do {
     l \<leftarrow> fill_tmpIn env l (usub (dtmpInTarget (lctx l)) (dtmpInSize (lctx l)));
     let d = lctx l;
     if dtmpInSize d < dtmpInTarget d
     then Some (Stop (l\<lparr>nextSrcSizeHint := dtmpInTarget d - dtmpInSize d + (if has_blocksum d then BFSize else 0) + BHSize\<rparr>))
     else decode_block env l (dtmpIn d) }"

definition stage_getCBlock :: "denv \<Rightarrow> dloop \<Rightarrow> step option" where
  "stage_getCBlock env l =
    (if srcEnd env - srcPtr l < dtmpInTarget (lctx l)
     then Some (Again (l\<lparr>lctx := (lctx l)\<lparr>dtmpInSize := 0, dStage := dstage_storeCBlock\<rparr>\<rparr>))
     else decode_block env (l\<lparr>srcPtr := srcPtr l + dtmpInTarget (lctx l)\<rparr>) (srcPtr l))"

section \<open>The end of a frame, skippable frames\<close>

definition check_suffix :: "denv \<Rightarrow> dloop \<Rightarrow> int \<Rightarrow> step option" where
  "check_suffix env l selectedIn =
    (let ok = Some (Stop (l\<lparr>lctx := LZ4F_resetDecompressionContext (lctx l), nextSrcSizeHint := 0\<rparr>)) in
     if skipChecksum (lctx l) then ok
     else do {
       readCRC \<leftarrow> read32_mem (lmem l) selectedIn;
       resultCRC \<leftarrow> XXH32_digest (dmachine env) (dxxh (lctx l));
       if readCRC \<noteq> resultCRC then Some (Return (Inl ERROR_contentChecksum_invalid) l) else ok })"

definition stage_storeSuffix :: "denv \<Rightarrow> dloop \<Rightarrow> step option" where
  "stage_storeSuffix env l = do {
     l \<leftarrow> fill_tmpIn env l (usub 4 (dtmpInSize (lctx l)));
     if dtmpInSize (lctx l) < 4 then Some (Stop (l\<lparr>nextSrcSizeHint := 4 - dtmpInSize (lctx l)\<rparr>))
     else check_suffix env l (dtmpIn (lctx l)) }"

definition stage_getSuffix :: "denv \<Rightarrow> dloop \<Rightarrow> step option" where
  "stage_getSuffix env l =
    (if frameRemainingSize (lctx l) \<noteq> 0 then Some (Return (Inl ERROR_frameSize_wrong) l)
     else if \<not> has_contentsum (lctx l)
       then Some (Stop (l\<lparr>lctx := LZ4F_resetDecompressionContext (lctx l), nextSrcSizeHint := 0\<rparr>))
     else if srcEnd env - srcPtr l < 4
       then stage_storeSuffix env (l\<lparr>lctx := (lctx l)\<lparr>dtmpInSize := 0, dStage := dstage_storeSuffix\<rparr>\<rparr>)
     else check_suffix env (l\<lparr>srcPtr := srcPtr l + 4\<rparr>) (srcPtr l))"

definition decode_SFrameSize :: "dloop \<Rightarrow> bytes \<Rightarrow> step option" where
  "decode_SFrameSize l selectedIn = do {
     SFrameSize \<leftarrow> LZ4F_readLE32 selectedIn 0;
     let d = lctx l;
     Some (Again (l\<lparr>lctx := d\<lparr>dframeInfo := (dframeInfo d)\<lparr>contentSize := uint SFrameSize\<rparr>,
       dtmpInTarget := uint SFrameSize, dStage := dstage_skipSkippable\<rparr>\<rparr>)) }"

definition stage_storeSFrameSize :: "denv \<Rightarrow> dloop \<Rightarrow> step option" where
  "stage_storeSFrameSize env l = do {
     l \<leftarrow> fill_header env l (usub (dtmpInTarget (lctx l)) (dtmpInSize (lctx l)));
     let d = lctx l;
     if dtmpInSize d < dtmpInTarget d then Some (Stop (l\<lparr>nextSrcSizeHint := dtmpInTarget d - dtmpInSize d\<rparr>))
     else do { s \<leftarrow> rdn (dheader d) 4 4; decode_SFrameSize l s } }"

definition stage_getSFrameSize :: "denv \<Rightarrow> dloop \<Rightarrow> step option" where
  "stage_getSFrameSize env l =
    (if srcEnd env - srcPtr l \<ge> 4 then decode_SFrameSize (l\<lparr>srcPtr := srcPtr l + 4\<rparr>) (read_mem (lmem l) (srcPtr l) 4)
     else stage_storeSFrameSize env (l\<lparr>lctx := (lctx l)\<lparr>dtmpInSize := 4, dtmpInTarget := 8, dStage := dstage_storeSFrameSize\<rparr>\<rparr>))"

definition stage_skipSkippable :: "denv \<Rightarrow> dloop \<Rightarrow> step option" where
  "stage_skipSkippable env l =
    (let skipSize = min (dtmpInTarget (lctx l)) (srcEnd env - srcPtr l);
         d = (lctx l)\<lparr>dtmpInTarget := dtmpInTarget (lctx l) - skipSize\<rparr> in
     Some (Stop (l\<lparr>srcPtr := srcPtr l + skipSize, nextSrcSizeHint := dtmpInTarget d,
       lctx := (if dtmpInTarget d \<noteq> 0 then d else LZ4F_resetDecompressionContext d)\<rparr>)))"

section \<open>The state machine\<close>

definition dispatch :: "denv \<Rightarrow> dloop \<Rightarrow> step option" where
  "dispatch env l =
    (case dStage (lctx l) of
       dstage_getFrameHeader \<Rightarrow> stage_getFrameHeader env l
     | dstage_storeFrameHeader \<Rightarrow> stage_storeFrameHeader env l
     | dstage_init \<Rightarrow> stage_init env l
     | dstage_getBlockHeader \<Rightarrow> stage_getBlockHeader env l
     | dstage_storeBlockHeader \<Rightarrow> stage_storeBlockHeader env l
     | dstage_copyDirect \<Rightarrow> stage_copyDirect env l
     | dstage_getBlockChecksum \<Rightarrow> stage_getBlockChecksum env l
     | dstage_getCBlock \<Rightarrow> stage_getCBlock env l
     | dstage_storeCBlock \<Rightarrow> stage_storeCBlock env l
     | dstage_flushOut \<Rightarrow> stage_flushOut env l
     | dstage_getSuffix \<Rightarrow> stage_getSuffix env l
     | dstage_storeSuffix \<Rightarrow> stage_storeSuffix env l
     | dstage_getSFrameSize \<Rightarrow> stage_getSFrameSize env l
     | dstage_storeSFrameSize \<Rightarrow> stage_storeSFrameSize env l
     | dstage_skipSkippable \<Rightarrow> stage_skipSkippable env l)"

text \<open>Every turn of the loop consumes input or moves to a stage of smaller rank.\<close>

definition rank :: "LZ4F_dctx \<Rightarrow> nat" where
  "rank d = (case dStage d of
       dstage_storeFrameHeader \<Rightarrow> if dtmpInSize d < dtmpInTarget d then 20 else 21
     | dstage_storeBlockHeader \<Rightarrow> if dtmpInSize d < 4 then 1 else 30
     | dstage_init \<Rightarrow> 10 | dstage_storeSFrameSize \<Rightarrow> 9 | dstage_copyDirect \<Rightarrow> 8 | dstage_getCBlock \<Rightarrow> 7 | dstage_storeCBlock \<Rightarrow> 6
     | dstage_getBlockChecksum \<Rightarrow> 5 | dstage_flushOut \<Rightarrow> 4 | dstage_getBlockHeader \<Rightarrow> 2 | _ \<Rightarrow> 0)"

text \<open>Sizes are unsigned, and the pointers stay in their buffers; anything else is undefined.\<close>

definition in_range :: "denv \<Rightarrow> dloop \<Rightarrow> bool" where
  "in_range env l \<longleftrightarrow> srcPtr l \<le> srcEnd env \<and> dstPtr l \<le> dstEnd env \<and> 0 \<le> dtmpInTarget (lctx l)
     \<and> 0 \<le> dtmpInSize (lctx l) \<and> length (dheader (lctx l)) = 19"

definition forward :: "denv \<Rightarrow> dloop \<Rightarrow> dloop \<Rightarrow> bool" where
  "forward env l l' \<longleftrightarrow> srcPtr l \<le> srcPtr l' \<and> srcPtr l' \<le> srcEnd env \<and> (srcPtr l' = srcPtr l \<longrightarrow> rank (lctx l') < rank (lctx l))"

lemma usub_nonneg: "0 \<le> usub a b"
  by (simp add: usub_def)

lemma fill_header_src:
  "fill_header env l w = Some l' \<Longrightarrow> srcPtr l' = srcPtr l + min w (srcEnd env - srcPtr l)
     \<and> dtmpInSize (lctx l') = dtmpInSize (lctx l) + min w (srcEnd env - srcPtr l)
     \<and> dtmpInTarget (lctx l') = dtmpInTarget (lctx l) \<and> dStage (lctx l') = dStage (lctx l)
     \<and> length (dheader (lctx l')) = length (dheader (lctx l))"
  by (auto simp: fill_header_def Let_def wrn_def split: Option.bind_splits if_splits)

lemma fill_tmpIn_src:
  "fill_tmpIn env l w = Some l' \<Longrightarrow> srcPtr l' = srcPtr l + min w (srcEnd env - srcPtr l)
     \<and> dtmpInSize (lctx l') = dtmpInSize (lctx l) + min w (srcEnd env - srcPtr l)
     \<and> dtmpInTarget (lctx l') = dtmpInTarget (lctx l) \<and> dStage (lctx l') = dStage (lctx l)"
  by (auto simp: fill_tmpIn_def Let_def split: Option.bind_splits)

lemma decode_block_header_again:
  "decode_block_header env l sel = Some (Again l') \<Longrightarrow> srcPtr l' = srcPtr l \<and> rank (lctx l') \<le> 8"
  by (auto simp: decode_block_header_def Let_def rank_def split: Option.bind_splits if_splits)

lemma flushOut_again: "stage_flushOut env l = Some (Again l') \<Longrightarrow> srcPtr l' = srcPtr l \<and> rank (lctx l') = 2"
  by (auto simp: stage_flushOut_def Let_def rank_def split: Option.bind_splits if_splits)

lemma decode_to_dst_again: "decode_to_dst env l sel = Some (Again l') \<Longrightarrow> srcPtr l' = srcPtr l \<and> rank (lctx l') = 2"
  by (auto simp: decode_to_dst_def Let_def rank_def split: Option.bind_splits if_splits)

lemma decode_to_tmp_again: "decode_to_tmp env l sel = Some (Again l') \<Longrightarrow> srcPtr l' = srcPtr l \<and> rank (lctx l') = 2"
  by (auto simp: decode_to_tmp_def Let_def split: Option.bind_splits if_splits dest!: flushOut_again)

lemma decode_block_again: "decode_block env l sel = Some (Again l') \<Longrightarrow> srcPtr l' = srcPtr l \<and> rank (lctx l') = 2"
  by (auto simp: decode_block_def Let_def split: Option.bind_splits if_splits dest!: decode_to_dst_again decode_to_tmp_again)

lemma fill_amount:
  assumes "in_range env l"
  shows "0 \<le> min (usub a b) (srcEnd env - srcPtr l)" "srcPtr l + min (usub a b) (srcEnd env - srcPtr l) \<le> srcEnd env"
  using assms usub_nonneg[of a b] by (auto simp: in_range_def)

lemma storeFrameHeader_again:
  assumes "in_range env l" "stage_storeFrameHeader env l = Some (Again l')" "rank (lctx l) = 21 \<or> dtmpInSize (lctx l) < dtmpInTarget (lctx l)"
  shows "forward env l l'"
proof -
  let ?n = "min (usub (dtmpInTarget (lctx l)) (dtmpInSize (lctx l))) (srcEnd env - srcPtr l)"
  note n = fill_amount[OF assms(1), of "dtmpInTarget (lctx l)" "dtmpInSize (lctx l)"]
  obtain l1 hdr k d where l1: "fill_header env l (usub (dtmpInTarget (lctx l)) (dtmpInSize (lctx l))) = Some l1"
    and s: "\<not> dtmpInSize (lctx l1) < dtmpInTarget (lctx l1)"
    and d: "LZ4F_decodeHeader (dmachine env) (lctx l1) hdr True = Some (Inr k, d)" and l': "l' = l1\<lparr>lctx := d\<rparr>"
    using assms(2) by (auto simp: stage_storeFrameHeader_def Let_def split: Option.bind_splits if_splits sum.splits)
  note f = fill_header_src[OF l1]
  have "length (dheader (lctx l1)) = 19" using f assms(1) by (simp add: in_range_def)
  from decodeHeader_stage[OF d this] have "rank d \<le> 20" by (auto simp: rank_def)
  moreover have "srcPtr l' = srcPtr l + ?n" using f l' by simp
  moreover have "?n = 0 \<Longrightarrow> \<not> dtmpInSize (lctx l) < dtmpInTarget (lctx l)" using f s by simp
  ultimately show ?thesis using n assms(3) l' by (auto simp: forward_def)
qed

lemma storeBlockHeader_again:
  assumes "in_range env l" "stage_storeBlockHeader env l = Some (Again l')" "rank (lctx l) = 30 \<or> dtmpInSize (lctx l) < 4"
  shows "forward env l l'"
proof -
  let ?n = "min (usub BHSize (dtmpInSize (lctx l))) (srcEnd env - srcPtr l)"
  note n = fill_amount[OF assms(1), of BHSize "dtmpInSize (lctx l)"]
  obtain l1 where l1: "fill_tmpIn env l (usub BHSize (dtmpInSize (lctx l))) = Some l1" "\<not> dtmpInSize (lctx l1) < 4"
    and d: "decode_block_header env l1 (dtmpIn (lctx l1)) = Some (Again l')"
    using assms(2) by (auto simp: stage_storeBlockHeader_def split: Option.bind_splits if_splits)
  note f = fill_tmpIn_src[OF l1(1)] and r = decode_block_header_again[OF d]
  then have "?n = 0 \<Longrightarrow> \<not> dtmpInSize (lctx l) < 4" using l1(2) by simp
  then show ?thesis using f r n assms(3) by (auto simp: forward_def)
qed

lemma getBlockHeader_again:
  assumes "in_range env l" "stage_getBlockHeader env l = Some (Again l')"
  shows "srcPtr l < srcPtr l' \<and> srcPtr l' \<le> srcEnd env"
proof (cases "srcEnd env - srcPtr l \<ge> BHSize")
  case True
  then have "decode_block_header env (l\<lparr>srcPtr := srcPtr l + BHSize\<rparr>) (srcPtr l) = Some (Again l')"
    using assms(2) by (simp add: stage_getBlockHeader_def)
  from decode_block_header_again[OF this] show ?thesis using True by simp
next
  case False
  let ?l = "l\<lparr>lctx := (lctx l)\<lparr>dtmpInSize := 0, dStage := dstage_storeBlockHeader\<rparr>\<rparr>"
  have s: "stage_storeBlockHeader env ?l = Some (Again l')" using False assms(2) by (simp add: stage_getBlockHeader_def)
  obtain l1 where l1: "fill_tmpIn env ?l (usub BHSize 0) = Some l1" "\<not> dtmpInSize (lctx l1) < 4"
    and d: "decode_block_header env l1 (dtmpIn (lctx l1)) = Some (Again l')"
    using s by (auto simp: stage_storeBlockHeader_def split: Option.bind_splits if_splits)
  have "in_range env ?l" using assms(1) by (simp add: in_range_def)
  note n = fill_amount[OF this, of BHSize 0]
  from fill_tmpIn_src[OF l1(1)] decode_block_header_again[OF d] l1(2) show ?thesis using n by auto
qed

lemma getFrameHeader_again:
  assumes "in_range env l" "stage_getFrameHeader env l = Some (Again l')"
  shows "srcPtr l < srcPtr l' \<and> srcPtr l' \<le> srcEnd env"
proof (cases "srcEnd env - srcPtr l \<ge> maxFHSize")
  case True
  obtain k d where d: "LZ4F_decodeHeader (dmachine env) (lctx l) (read_mem (lmem l) (srcPtr l) (srcEnd env - srcPtr l)) False = Some (Inr k, d)"
    and l': "l' = l\<lparr>lctx := d, srcPtr := srcPtr l + k\<rparr>"
    using assms(2) True by (auto simp: stage_getFrameHeader_def split: Option.bind_splits sum.splits)
  have "length (dheader (lctx l)) = 19" using assms(1) by (simp add: in_range_def)
  from decodeHeader_stage[OF d this] show ?thesis using l' True by auto
next
  case False
  let ?l = "l\<lparr>lctx := (lctx l)\<lparr>dtmpInSize := 0, dtmpInTarget := minFHSize, dStage := dstage_storeFrameHeader\<rparr>\<rparr>"
  have s: "stage_storeFrameHeader env ?l = Some (Again l')" using False assms(2)
    by (auto simp: stage_getFrameHeader_def Let_def split: if_splits)
  obtain l1 hdr k d where l1: "fill_header env ?l (usub minFHSize 0) = Some l1" "\<not> dtmpInSize (lctx l1) < dtmpInTarget (lctx l1)"
    and l': "l' = l1\<lparr>lctx := d\<rparr>"
    using s by (auto simp: stage_storeFrameHeader_def Let_def split: Option.bind_splits if_splits sum.splits)
  have "in_range env ?l" using assms(1) by (simp add: in_range_def)
  note n = fill_amount[OF this, of minFHSize 0]
  from fill_header_src[OF l1(1)] l1(2) show ?thesis using n l' by auto
qed

lemma copy_direct_src: "copy_direct env l n = Some l' \<Longrightarrow> srcPtr l' = srcPtr l + n"
  by (auto simp: copy_direct_def Let_def split: Option.bind_splits)

lemma copyDirect_again:
  assumes "in_range env l" "stage_copyDirect env l = Some (Again l')"
  shows "srcPtr l \<le> srcPtr l' \<and> srcPtr l' \<le> srcEnd env \<and> rank (lctx l') \<le> 5"
  using assms
  by (auto simp: stage_copyDirect_def Let_def rank_def in_range_def split: Option.bind_splits if_splits dest!: copy_direct_src)

lemma check_block_again: "check_block env l bs = Some (Again l') \<Longrightarrow> srcPtr l' = srcPtr l \<and> rank (lctx l') = 2"
  by (auto simp: check_block_def Let_def rank_def split: Option.bind_splits if_splits)

lemma getBlockChecksum_again:
  assumes "in_range env l" "stage_getBlockChecksum env l = Some (Again l')"
  shows "srcPtr l \<le> srcPtr l' \<and> srcPtr l' \<le> srcEnd env \<and> rank (lctx l') = 2"
  using assms fill_amount[OF assms(1), of 4 "dtmpInSize (lctx l)"]
  by (auto simp: stage_getBlockChecksum_def in_range_def split: Option.bind_splits if_splits dest!: check_block_again fill_header_src)

lemma getCBlock_again:
  assumes "in_range env l" "stage_getCBlock env l = Some (Again l')"
  shows "srcPtr l \<le> srcPtr l' \<and> srcPtr l' \<le> srcEnd env \<and> rank (lctx l') \<le> 6"
  using assms by (auto simp: stage_getCBlock_def in_range_def split: if_splits dest!: decode_block_again) (auto simp: rank_def)

lemma storeCBlock_again:
  assumes "in_range env l" "stage_storeCBlock env l = Some (Again l')"
  shows "srcPtr l \<le> srcPtr l' \<and> srcPtr l' \<le> srcEnd env \<and> rank (lctx l') = 2"
  using assms fill_amount[OF assms(1), of "dtmpInTarget (lctx l)" "dtmpInSize (lctx l)"]
  by (auto simp: stage_storeCBlock_def Let_def split: Option.bind_splits if_splits dest!: decode_block_again fill_tmpIn_src)

lemma decode_SFrameSize_again: "decode_SFrameSize l bs = Some (Again l') \<Longrightarrow> srcPtr l' = srcPtr l \<and> rank (lctx l') = 0"
  by (auto simp: decode_SFrameSize_def Let_def rank_def split: Option.bind_splits)

lemma storeSFrameSize_again:
  assumes "in_range env l" "stage_storeSFrameSize env l = Some (Again l')"
  shows "srcPtr l \<le> srcPtr l' \<and> srcPtr l' \<le> srcEnd env \<and> rank (lctx l') = 0 \<and> (srcPtr l' = srcPtr l \<longrightarrow> dtmpInTarget (lctx l) \<le> dtmpInSize (lctx l))"
  using assms fill_amount[OF assms(1), of "dtmpInTarget (lctx l)" "dtmpInSize (lctx l)"]
  by (auto simp: stage_storeSFrameSize_def Let_def split: Option.bind_splits if_splits dest!: decode_SFrameSize_again fill_header_src)

lemma getSFrameSize_again:
  assumes "in_range env l" "stage_getSFrameSize env l = Some (Again l')"
  shows "srcPtr l < srcPtr l' \<and> srcPtr l' \<le> srcEnd env"
proof (cases "srcEnd env - srcPtr l \<ge> 4")
  case True
  then show ?thesis using assms by (auto simp: stage_getSFrameSize_def dest!: decode_SFrameSize_again)
next
  case False
  let ?l = "l\<lparr>lctx := (lctx l)\<lparr>dtmpInSize := 4, dtmpInTarget := 8, dStage := dstage_storeSFrameSize\<rparr>\<rparr>"
  have "in_range env ?l" using assms(1) by (simp add: in_range_def)
  from storeSFrameSize_again[OF this, of l'] show ?thesis using False assms(2) by (auto simp: stage_getSFrameSize_def)
qed

lemma init_again:
  assumes "in_range env l" "stage_init env l = Some (Again l')"
  shows "srcPtr l < srcPtr l' \<and> srcPtr l' \<le> srcEnd env"
proof -
  let ?d = "if has_contentsum (lctx l) then (lctx l)\<lparr>dxxh := XXH32_reset 0\<rparr> else lctx l"
  obtain d where b: "init_buffers env ?d = Inr d"
    and s: "stage_getBlockHeader env (l\<lparr>lctx := d\<lparr>dtmpInSize := 0, dtmpInTarget := 0, tmpOut := tmpOutBuffer d, tmpOutStart := 0,
      tmpOutSize := 0, dStage := dstage_getBlockHeader\<rparr>\<rparr>) = Some (Again l')"
    using assms(2) by (auto simp: stage_init_def Let_def split: sum.splits prod.splits)
  have "length (dheader d) = 19" using b assms(1) by (auto simp: init_buffers_def Let_def in_range_def split: if_splits)
  with assms(1) have "in_range env (l\<lparr>lctx := d\<lparr>dtmpInSize := 0, dtmpInTarget := 0, tmpOut := tmpOutBuffer d, tmpOutStart := 0,
      tmpOutSize := 0, dStage := dstage_getBlockHeader\<rparr>\<rparr>)" by (simp add: in_range_def)
  from getBlockHeader_again[OF this s] show ?thesis by simp
qed

lemma forwardI: "srcPtr l < srcPtr l' \<Longrightarrow> srcPtr l' \<le> srcEnd env \<Longrightarrow> forward env l l'"
  by (simp add: forward_def)

lemma forwardI2: "srcPtr l \<le> srcPtr l' \<Longrightarrow> srcPtr l' \<le> srcEnd env \<Longrightarrow> rank (lctx l') < rank (lctx l) \<Longrightarrow> forward env l l'"
  by (simp add: forward_def)

lemma dispatch_forward:
  assumes r: "in_range env l" and d: "dispatch env l = Some (Again l')"
  shows "forward env l l'"
proof (cases "dStage (lctx l)")
  case dstage_getFrameHeader
  then show ?thesis using getFrameHeader_again[OF r] d by (auto simp: dispatch_def intro: forwardI)
next
  case dstage_storeFrameHeader
  then show ?thesis using storeFrameHeader_again[OF r] d by (auto simp: dispatch_def rank_def split: if_splits)
next
  case dstage_init
  then show ?thesis using init_again[OF r] d by (auto simp: dispatch_def intro: forwardI)
next
  case dstage_getBlockHeader
  then show ?thesis using getBlockHeader_again[OF r] d by (auto simp: dispatch_def intro: forwardI)
next
  case dstage_storeBlockHeader
  then show ?thesis using storeBlockHeader_again[OF r] d by (auto simp: dispatch_def rank_def split: if_splits)
next
  case s: dstage_copyDirect
  then have "rank (lctx l) = 8" by (simp add: rank_def)
  then show ?thesis using copyDirect_again[OF r] d s by (auto simp: dispatch_def intro!: forwardI2)
next
  case s: dstage_getBlockChecksum
  then have "rank (lctx l) = 5" by (simp add: rank_def)
  then show ?thesis using getBlockChecksum_again[OF r] d s by (auto simp: dispatch_def intro!: forwardI2)
next
  case s: dstage_getCBlock
  then have "rank (lctx l) = 7" by (simp add: rank_def)
  then show ?thesis using getCBlock_again[OF r] d s by (auto simp: dispatch_def intro!: forwardI2)
next
  case s: dstage_storeCBlock
  then have "rank (lctx l) = 6" by (simp add: rank_def)
  then show ?thesis using storeCBlock_again[OF r] d s by (auto simp: dispatch_def intro!: forwardI2)
next
  case s: dstage_flushOut
  then have "rank (lctx l) = 4" by (simp add: rank_def)
  then show ?thesis using flushOut_again[of env l l'] r d s by (auto simp: dispatch_def in_range_def intro!: forwardI2)
next
  case dstage_getSuffix
  then show ?thesis using d
    by (auto simp: dispatch_def stage_getSuffix_def stage_storeSuffix_def check_suffix_def Let_def split: Option.bind_splits if_splits)
next
  case dstage_storeSuffix
  then show ?thesis using d
    by (auto simp: dispatch_def stage_storeSuffix_def check_suffix_def Let_def split: Option.bind_splits if_splits)
next
  case dstage_getSFrameSize
  then show ?thesis using getSFrameSize_again[OF r] d by (auto simp: dispatch_def intro: forwardI)
next
  case s: dstage_storeSFrameSize
  then have "rank (lctx l) = 9" by (simp add: rank_def)
  then show ?thesis using storeSFrameSize_again[OF r] d s by (auto simp: dispatch_def intro!: forwardI2)
next
  case dstage_skipSkippable
  then show ?thesis using d by (auto simp: dispatch_def stage_skipSkippable_def Let_def)
qed

function run_stages :: "denv \<Rightarrow> dloop \<Rightarrow> ((LZ4F_errorCodes + int) \<times> dloop + dloop) option" where
  "run_stages env l =
    (if \<not> in_range env l then None
     else case dispatch env l of
       None \<Rightarrow> None
     | Some (Again l') \<Rightarrow> run_stages env l'
     | Some (Stop l') \<Rightarrow> Some (Inr l')
     | Some (Return r l') \<Rightarrow> Some (Inl (r, l')))"
  by auto
termination
proof (relation "measures [\<lambda>(env, l). nat (srcEnd env - srcPtr l), \<lambda>(env, l). rank (lctx l)]")
  fix env l x l'
  assume "\<not> \<not> in_range env l" "dispatch env l = Some x" "x = Again l'"
  then have "forward env l l'" using dispatch_forward by simp
  then show "((env, l'), env, l) \<in> measures [\<lambda>(env, l). nat (srcEnd env - srcPtr l), \<lambda>(env, l). rank (lctx l)]"
    by (cases "srcPtr l' = srcPtr l") (auto simp: forward_def)
qed simp

declare run_stages.simps [simp del]

section \<open>The functions\<close>

text \<open>At the end of a call the history of linked blocks is moved into \<open>tmpOut\<close>.\<close>

definition must_preserve :: "denv \<Rightarrow> LZ4F_dctx \<Rightarrow> bool" where
  "must_preserve env d \<longleftrightarrow> linked d \<and> ddict d \<noteq> tmpOutBuffer d \<and> ddict d \<noteq> 0 \<and> \<not> stableDst env
     \<and> dStage d \<in> {dstage_init, dstage_getBlockHeader, dstage_storeBlockHeader, dstage_copyDirect, dstage_getBlockChecksum,
                   dstage_getCBlock, dstage_storeCBlock, dstage_flushOut}"

definition preserve_history :: "denv \<Rightarrow> dloop \<Rightarrow> dloop option" where
  "preserve_history env l =
    (let d = lctx l in
     if \<not> must_preserve env d then Some l
     else if dStage d = dstage_flushOut then
       let preserveSize = tmpOut d - tmpOutBuffer d;
           copySize = (if tmpOutSize d > KB 64 then 0 else KB 64 - tmpOutSize d);
           copySize = min copySize preserveSize;
           oldDictEnd = ddict d + ddictSize d - tmpOutStart d in do {
         mem \<leftarrow> copy_mem (lmem l) (tmpOutBuffer d + preserveSize - copySize) (oldDictEnd - copySize) copySize;
         Some (l\<lparr>lmem := mem, lctx := d\<lparr>ddict := tmpOutBuffer d, ddictSize := preserveSize + tmpOutStart d\<rparr>\<rparr>) }
     else
       let oldDictEnd = ddict d + ddictSize d; newDictSize = min (ddictSize d) (KB 64) in do {
         mem \<leftarrow> copy_mem (lmem l) (tmpOutBuffer d) (oldDictEnd - newDictSize) newDictSize;
         Some (l\<lparr>lmem := mem, lctx := d\<lparr>ddict := tmpOutBuffer d, ddictSize := newDictSize, tmpOut := tmpOutBuffer d + newDictSize\<rparr>\<rparr>) })"

record dresult =
  dret :: "LZ4F_errorCodes + int"
  dstSize :: int
  srcSize :: int
  dctx_after :: LZ4F_dctx
  mem_after :: memory

definition LZ4F_decompress ::
  "denv \<Rightarrow> LZ4F_dctx \<Rightarrow> memory \<Rightarrow> int \<Rightarrow> int \<Rightarrow> int \<Rightarrow> int \<Rightarrow> bool \<Rightarrow> bool \<Rightarrow> dresult option" where
  "LZ4F_decompress env0 d mem dstBuffer dstCapacity srcBuffer srcLen keepDst skipChecksums = do {
     let env = env0\<lparr>srcEnd := srcBuffer + srcLen, dstStart := dstBuffer,
       dstEnd := (if dstBuffer \<noteq> 0 then dstBuffer + dstCapacity else 0), stableDst := keepDst\<rparr>;
     r \<leftarrow> run_stages env \<lparr>lmem = mem, lctx = d\<lparr>skipChecksum := (skipChecksum d \<or> skipChecksums)\<rparr>,
       srcPtr = srcBuffer, dstPtr = dstBuffer, nextSrcSizeHint = 1\<rparr>;
     (case r of
        Inl (r, l) \<Rightarrow> Some \<lparr>dret = r, dstSize = 0, srcSize = 0, dctx_after = lctx l, mem_after = lmem l\<rparr>
      | Inr l \<Rightarrow> do {
          l \<leftarrow> preserve_history env l;
          Some \<lparr>dret = Inr (nextSrcSizeHint l), dstSize = dstPtr l - dstBuffer, srcSize = srcPtr l - srcBuffer,
            dctx_after = lctx l, mem_after = lmem l\<rparr> }) }"

definition LZ4F_decompress_usingDict ::
  "denv \<Rightarrow> LZ4F_dctx \<Rightarrow> memory \<Rightarrow> int \<Rightarrow> int \<Rightarrow> int \<Rightarrow> int \<Rightarrow> int \<Rightarrow> int \<Rightarrow> bool \<Rightarrow> bool \<Rightarrow> dresult option" where
  "LZ4F_decompress_usingDict env d mem dstBuffer dstCapacity srcBuffer srcLen dict' dictSize' keepDst skipChecksums =
    LZ4F_decompress env
      (if dStage d \<in> {dstage_getFrameHeader, dstage_storeFrameHeader, dstage_init} then d\<lparr>ddict := dict', ddictSize := dictSize'\<rparr> else d)
      mem dstBuffer dstCapacity srcBuffer srcLen keepDst skipChecksums"

text \<open>\<open>LZ4F_getFrameInfo\<close>: the result, the bytes consumed, the frame parameters, the context and the memory.\<close>

definition LZ4F_getFrameInfo ::
  "denv \<Rightarrow> LZ4F_dctx \<Rightarrow> memory \<Rightarrow> bytes option \<Rightarrow> ((LZ4F_errorCodes + int) \<times> int \<times> LZ4F_frameInfo_t option \<times> LZ4F_dctx \<times> memory) option" where
  "LZ4F_getFrameInfo env d mem src =
    (if dStage d \<notin> {dstage_getFrameHeader, dstage_storeFrameHeader} then do {
       r \<leftarrow> LZ4F_decompress env d mem 0 0 0 0 False False;
       Some (dret r, 0, Some (dframeInfo d), dctx_after r, mem_after r) }
     else if dStage d = dstage_storeFrameHeader then Some (Inl ERROR_frameDecoding_alreadyStarted, 0, None, d, mem)
     else do {
       hSize \<leftarrow> LZ4F_headerSize src;
       (case (hSize, src) of
          (Inr h, Some s) \<Rightarrow>
            if int (length s) < h then Some (Inl ERROR_frameHeader_incomplete, 0, None, d, mem)
            else do {
              (r, d) \<leftarrow> LZ4F_decodeHeader (dmachine env) d (take (nat h) s) False;
              (case r of Inl e \<Rightarrow> Some (Inl e, 0, Some (dframeInfo d), d, mem)
               | Inr n \<Rightarrow> Some (Inr BHSize, n, Some (dframeInfo d), d, mem)) }
        | (Inl e, _) \<Rightarrow> Some (Inl e, 0, None, d, mem)
        | (Inr h, None) \<Rightarrow> None) })"

end
