(* ===== verification/LZ4F_Compress.thy ===== *)
theory LZ4F_Compress
  imports LZ4F_Decompress LZ4_Compress_Reset
begin

text \<open>
  The compression side of \<open>lz4frame.c\<close>: contexts and dictionaries, \<open>LZ4F_compressBegin\<close>,
  \<open>LZ4F_compressUpdate\<close>, \<open>LZ4F_uncompressedUpdate\<close>, \<open>LZ4F_flush\<close>, \<open>LZ4F_compressEnd\<close> and
  \<open>LZ4F_compressFrame\<close>. The caller's buffers and \<open>tmpBuff\<close> are addresses in a flat memory, the state
  behind \<open>lz4CtxPtr\<close> is a value. The functions of \<open>lz4hc.c\<close> are a parameter \<open>hc_lib\<close>, the allocator
  is in \<open>cf_env\<close>. \<open>None\<close> is undefined behaviour: a state used as the wrong type, overlapping \<open>memcpy\<close>.
\<close>

section \<open>Types\<close>

abbreviation LZ4HC_CLEVEL_MIN :: int where "LZ4HC_CLEVEL_MIN \<equiv> 3"
abbreviation LZ4HC_CLEVEL_DEFAULT :: int where "LZ4HC_CLEVEL_DEFAULT \<equiv> 9"

datatype LZ4F_blockCompression_t = LZ4B_COMPRESSED | LZ4B_UNCOMPRESSED
datatype LZ4F_lastBlockStatus = notDone | fromTmpBuffer | fromSrcBuffer

record 'h hc_lib =
  hc_initStream :: 'h
  hc_initStream_fast :: 'h
  hc_setLevel :: "'h \<Rightarrow> int \<Rightarrow> 'h"
  hc_favorSpeed :: "'h \<Rightarrow> bool \<Rightarrow> 'h"
  hc_resetStream_fast :: "'h \<Rightarrow> int \<Rightarrow> 'h"
  hc_attach :: "'h \<Rightarrow> 'h option \<Rightarrow> 'h"
  hc_load :: "memory \<Rightarrow> 'h \<Rightarrow> int \<Rightarrow> int \<Rightarrow> 'h"
  hc_save :: "memory \<Rightarrow> 'h \<Rightarrow> int \<Rightarrow> int \<Rightarrow> int \<times> 'h \<times> memory"
  hc_compress_continue :: "memory \<Rightarrow> 'h \<Rightarrow> int \<Rightarrow> int \<Rightarrow> int \<Rightarrow> int \<Rightarrow> (int \<times> 'h \<times> memory) option"
  hc_compress_fastReset :: "memory \<Rightarrow> 'h \<Rightarrow> int \<Rightarrow> int \<Rightarrow> int \<Rightarrow> int \<Rightarrow> int \<Rightarrow> (int \<times> 'h \<times> memory) option"

text \<open>\<open>hc_initStream_fast\<close> is what \<open>LZ4_initStream\<close>, the function of \<open>lz4.c\<close>, leaves of a new \<open>LZ4_streamHC_t\<close>; the others are
  the functions of \<open>lz4hc.c\<close>.\<close>

text \<open>What \<open>lz4CtxPtr\<close> points to: nothing, an \<open>LZ4_stream_t\<close> or an \<open>LZ4_streamHC_t\<close>.\<close>

datatype 'h lz4_ctx = No_ctx | Fast_ctx cctx | HC_ctx 'h

record 'h LZ4F_CDict =
  dictContent :: int
  fastCtx :: cctx
  HCCtx :: 'h

record 'h LZ4F_cctx =
  prefs :: LZ4F_preferences_t
  cStage :: int
  ccdict :: "'h LZ4F_CDict option"
  cmaxBlockSize :: int
  cmaxBufferSize :: int
  tmpBuff :: int
  ctmpIn :: int
  ctmpInSize :: int
  totalInSize :: int
  cxxh :: XXH32_state
  lz4Ctx :: "'h lz4_ctx"
  lz4CtxAlloc :: int
  lz4CtxState :: int
  blockCompression :: LZ4F_blockCompression_t

text \<open>The byte order; whether \<open>malloc\<close> of an \<open>LZ4F_CDict\<close> (0), an \<open>LZ4_stream_t\<close> (1), an \<open>LZ4_streamHC_t\<close> (2) succeeds; where
  buffers of a size are allocated, 0 for failure.\<close>

record cf_env =
  cmachine :: XXH_endianess
  state_fits :: "int \<Rightarrow> bool"
  malloc_dict :: "int \<Rightarrow> int"
  calloc_tmp :: "int \<Rightarrow> int"

section \<open>Contexts and dictionaries\<close>

definition LZ4F_createCompressionContext :: "'h LZ4F_cctx" where
  "LZ4F_createCompressionContext = \<lparr>prefs = LZ4F_INIT_PREFERENCES, cStage = 0, ccdict = None, cmaxBlockSize = 0, cmaxBufferSize = 0,
     tmpBuff = 0, ctmpIn = 0, ctmpInSize = 0, totalInSize = 0, cxxh = XXH32_zero, lz4Ctx = No_ctx, lz4CtxAlloc = 0, lz4CtxState = 0,
     blockCompression = LZ4B_COMPRESSED\<rparr>"

definition LZ4F_createCDict :: "'h hc_lib \<Rightarrow> cf_env \<Rightarrow> memory \<Rightarrow> int \<Rightarrow> int \<Rightarrow> ('h LZ4F_CDict option \<times> memory) option" where
  "LZ4F_createCDict hc env mem dictBuffer dictLength =
    (let (dictStart, dictLength) = (if dictLength > KB 64 then (dictBuffer + dictLength - KB 64, KB 64) else (dictBuffer, dictLength));
         content = malloc_dict env dictLength in
     if \<not> state_fits env 0 \<or> content = 0 \<or> \<not> state_fits env 1 \<or> \<not> state_fits env 2 then Some (None, mem)
     else do {
       mem \<leftarrow> copy_mem mem content dictStart dictLength;
       (_, fast) \<leftarrow> LZ4_loadDict mem content dictLength;
       let h = hc_load hc mem (hc_setLevel hc (hc_initStream_fast hc) LZ4HC_CLEVEL_DEFAULT) content dictLength;
       Some (Some \<lparr>dictContent = content, fastCtx = fast, HCCtx = h\<rparr>, mem) })"

text \<open>\<open>LZ4F_initStream\<close>: what happens at the start of each independent stream of blocks.\<close>

definition LZ4F_initStream :: "'h hc_lib \<Rightarrow> 'h lz4_ctx \<Rightarrow> 'h LZ4F_CDict option \<Rightarrow> int \<Rightarrow> LZ4F_blockMode_t \<Rightarrow> 'h lz4_ctx option" where
  "LZ4F_initStream hc ctx cdict level mode =
    (if level < LZ4HC_CLEVEL_MIN then
       (case ctx of
          Fast_ctx c \<Rightarrow>
            let c = (if \<not> Option.is_none cdict \<or> mode = LZ4F_blockLinked then LZ4_resetStream_fast c else c) in
            Some (Fast_ctx (LZ4_attach_dictionary c (map_option fastCtx cdict)))
        | _ \<Rightarrow> None)
     else
       (case ctx of
          HC_ctx h \<Rightarrow> Some (HC_ctx (hc_attach hc (hc_resetStream_fast hc h level) (map_option HCCtx cdict)))
        | _ \<Rightarrow> None))"

text \<open>The state of the right type: allocated, or reused if the memory is large enough for it.\<close>

definition ctxTypeID_to_size :: "int \<Rightarrow> int" where
  "ctxTypeID_to_size ctxTypeID = (if ctxTypeID = 1 then 16416 else if ctxTypeID = 2 then 262200 else 0)"

definition prepare_ctx :: "'h hc_lib \<Rightarrow> cf_env \<Rightarrow> 'h LZ4F_cctx \<Rightarrow> (LZ4F_errorCodes \<times> 'h LZ4F_cctx) + 'h LZ4F_cctx" where
  "prepare_ctx hc env cctx =
    (let level = compressionLevel (prefs cctx);
         ctxTypeID = (if level < LZ4HC_CLEVEL_MIN then 1 else 2);
         requiredSize = ctxTypeID_to_size ctxTypeID;
         allocatedSize = ctxTypeID_to_size (lz4CtxAlloc cctx) in
     if allocatedSize < requiredSize then
       let cctx = cctx\<lparr>lz4Ctx := (if \<not> state_fits env ctxTypeID then No_ctx
             else if level < LZ4HC_CLEVEL_MIN then Fast_ctx LZ4_initStream else HC_ctx (hc_initStream hc))\<rparr> in
       if \<not> state_fits env ctxTypeID then Inl (ERROR_allocation_failed, cctx)
       else Inr (cctx\<lparr>lz4CtxAlloc := ctxTypeID, lz4CtxState := ctxTypeID\<rparr>)
     else if lz4CtxState cctx \<noteq> ctxTypeID then
       Inr (cctx\<lparr>lz4Ctx := (if level < LZ4HC_CLEVEL_MIN then Fast_ctx LZ4_initStream
           else HC_ctx (hc_setLevel hc (hc_initStream hc) level)), lz4CtxState := ctxTypeID\<rparr>)
     else Inr cctx)"

definition prepare_tmp :: "cf_env \<Rightarrow> 'h LZ4F_cctx \<Rightarrow> memory \<Rightarrow> ((LZ4F_errorCodes \<times> 'h LZ4F_cctx) + 'h LZ4F_cctx) \<times> memory" where
  "prepare_tmp env cctx mem =
    (let is_linked = (blockMode (frameInfo (prefs cctx)) = LZ4F_blockLinked);
         requiredBuffSize = (if autoFlush (prefs cctx) then (if is_linked then KB 64 else 0)
           else (cmaxBlockSize cctx + (if is_linked then KB 128 else 0)) mod 2 ^ 64) in
     if cmaxBufferSize cctx < requiredBuffSize then
       let cctx = cctx\<lparr>cmaxBufferSize := 0, tmpBuff := calloc_tmp env requiredBuffSize\<rparr> in
       if tmpBuff cctx = 0 then (Inl (ERROR_allocation_failed, cctx), mem)
       else (Inr (cctx\<lparr>cmaxBufferSize := requiredBuffSize\<rparr>), write_mem mem (tmpBuff cctx) (replicate (nat requiredBuffSize) 0))
     else (Inr cctx, mem))"

section \<open>The frame header\<close>

text \<open>The result, the context and the memory.\<close>

type_synonym 'h cresult = "(LZ4F_errorCodes + int) \<times> 'h LZ4F_cctx \<times> memory"

definition begin_frame ::
  "'h hc_lib \<Rightarrow> cf_env \<Rightarrow> 'h LZ4F_cctx \<Rightarrow> memory \<Rightarrow> int \<Rightarrow> 'h LZ4F_CDict option \<Rightarrow> 'h cresult option" where
  "begin_frame hc env cctx mem dstBuffer cdict = do {
     let cctx = cctx\<lparr>ctmpIn := tmpBuff cctx, ctmpInSize := 0, cxxh := XXH32_reset 0, ccdict := cdict\<rparr>;
     let level = compressionLevel (prefs cctx);
     ctx \<leftarrow> (if blockMode (frameInfo (prefs cctx)) = LZ4F_blockLinked
       then LZ4F_initStream hc (lz4Ctx cctx) cdict level LZ4F_blockLinked else Some (lz4Ctx cctx));
     ctx \<leftarrow> (if level \<ge> LZ4HC_CLEVEL_MIN
       then (case ctx of HC_ctx h \<Rightarrow> Some (HC_ctx (hc_favorSpeed hc h (favorDecSpeed (prefs cctx)))) | _ \<Rightarrow> None) else Some ctx);
     hdr \<leftarrow> write_header (cmachine env) (frameInfo (prefs cctx));
     Some (Inr (int (length hdr)), cctx\<lparr>lz4Ctx := ctx,
       totalInSize := (if contentSize (frameInfo (prefs cctx)) \<noteq> 0 then 0 else totalInSize cctx), cStage := 1\<rparr>, write_mem mem dstBuffer hdr) }"

definition LZ4F_compressBegin_usingCDict ::
  "'h hc_lib \<Rightarrow> cf_env \<Rightarrow> 'h LZ4F_cctx \<Rightarrow> memory \<Rightarrow> int \<Rightarrow> int \<Rightarrow> 'h LZ4F_CDict option \<Rightarrow> LZ4F_preferences_t option
     \<Rightarrow> 'h cresult option" where
  "LZ4F_compressBegin_usingCDict hc env cctx mem dstBuffer dstCapacity cdict preferencesPtr =
    (if dstCapacity < maxFHSize then Some (Inl ERROR_dstMaxSize_tooSmall, cctx, mem)
     else let p = (case preferencesPtr of None \<Rightarrow> LZ4F_INIT_PREFERENCES | Some p \<Rightarrow> p); cctx = cctx\<lparr>prefs := p\<rparr> in
     case prepare_ctx hc env cctx of
       Inl (e, cctx) \<Rightarrow> Some (Inl e, cctx, mem)
     | Inr cctx \<Rightarrow>
         let fi = frameInfo (prefs cctx);
             fi = (if blockSizeID fi = 0 then fi\<lparr>blockSizeID := LZ4F_max64KB\<rparr> else fi);
             cctx = cctx\<lparr>prefs := (prefs cctx)\<lparr>frameInfo := fi\<rparr>, cmaxBlockSize := as_size_t (LZ4F_getBlockSize (blockSizeID fi))\<rparr> in
         (case prepare_tmp env cctx mem of
            (Inl (e, cctx), mem) \<Rightarrow> Some (Inl e, cctx, mem)
          | (Inr cctx, mem) \<Rightarrow> begin_frame hc env cctx mem dstBuffer cdict))"

definition LZ4F_compressBegin ::
  "'h hc_lib \<Rightarrow> cf_env \<Rightarrow> 'h LZ4F_cctx \<Rightarrow> memory \<Rightarrow> int \<Rightarrow> int \<Rightarrow> LZ4F_preferences_t option \<Rightarrow> 'h cresult option" where
  "LZ4F_compressBegin hc env cctx mem dstBuffer dstCapacity preferencesPtr =
     LZ4F_compressBegin_usingCDict hc env cctx mem dstBuffer dstCapacity None preferencesPtr"

section \<open>One block\<close>

type_synonym 'h compressFunc_t =
  "'h lz4_ctx \<Rightarrow> memory \<Rightarrow> int \<Rightarrow> int \<Rightarrow> int \<Rightarrow> int \<Rightarrow> int \<Rightarrow> 'h LZ4F_CDict option \<Rightarrow> (int \<times> 'h lz4_ctx \<times> memory) option"

text \<open>The checksum does not depend on the byte order of the machine.\<close>

definition LZ4F_makeBlock ::
  "memory \<Rightarrow> int \<Rightarrow> int \<Rightarrow> int \<Rightarrow> 'h compressFunc_t \<Rightarrow> 'h lz4_ctx \<Rightarrow> int \<Rightarrow> 'h LZ4F_CDict option \<Rightarrow> LZ4F_blockChecksum_t
     \<Rightarrow> (int \<times> 'h lz4_ctx \<times> memory) option" where
  "LZ4F_makeBlock mem dst src src_size compress ctx level cdict crcFlag = do {
     (r, ctx, mem) \<leftarrow> compress ctx mem src (dst + BHSize) src_size (src_size - 1) level cdict;
     let cSize = r mod 2 ^ 32;
     (cSize, mem) \<leftarrow> (if cSize = 0 \<or> cSize \<ge> src_size then do {
         mem \<leftarrow> copy_mem (write_mem mem dst (LZ4F_writeLE32 (of_int src_size OR LZ4F_BLOCKUNCOMPRESSED_FLAG))) (dst + BHSize) src src_size;
         Some (src_size, mem) }
       else Some (cSize, write_mem mem dst (LZ4F_writeLE32 (of_int cSize))));
     mem \<leftarrow> (if crcFlag = LZ4F_blockChecksumEnabled then do {
         crc32 \<leftarrow> XXH32 False XXH_littleEndian 0 (read_mem mem (dst + BHSize) cSize) cSize 0;
         Some (write_mem mem (dst + BHSize + cSize) (LZ4F_writeLE32 crc32)) }
       else Some mem);
     Some (BHSize + cSize + block_val crcFlag * BFSize, ctx, mem) }"

text \<open>The compression functions a block mode and a level can select.\<close>

definition acceleration_of :: "int \<Rightarrow> int" where
  "acceleration_of level = (if level < 0 then - level + 1 else 1)"

definition LZ4F_compressBlock :: "'h hc_lib \<Rightarrow> 'h compressFunc_t" where
  "LZ4F_compressBlock hc ctx mem src dst src_size dstCapacity level cdict = do {
     ctx \<leftarrow> LZ4F_initStream hc ctx cdict level LZ4F_blockIndependent;
     (case ctx of
        Fast_ctx c \<Rightarrow> do {
          (r, c, mem) \<leftarrow> (if \<not> Option.is_none cdict
            then LZ4_compress_fast_continue mem c src dst src_size dstCapacity (acceleration_of level)
            else LZ4_compress_fast_extState_fastReset mem c src dst src_size dstCapacity (acceleration_of level));
          Some (r, Fast_ctx c, mem) }
      | _ \<Rightarrow> None) }"

definition LZ4F_compressBlock_continue :: "'h compressFunc_t" where
  "LZ4F_compressBlock_continue ctx mem src dst src_size dstCapacity level cdict =
    (case ctx of
       Fast_ctx c \<Rightarrow> do {
         (r, c, mem) \<leftarrow> LZ4_compress_fast_continue mem c src dst src_size dstCapacity (acceleration_of level);
         Some (r, Fast_ctx c, mem) }
     | _ \<Rightarrow> None)"

definition LZ4F_compressBlockHC :: "'h hc_lib \<Rightarrow> 'h compressFunc_t" where
  "LZ4F_compressBlockHC hc ctx mem src dst src_size dstCapacity level cdict = do {
     ctx \<leftarrow> LZ4F_initStream hc ctx cdict level LZ4F_blockIndependent;
     (case ctx of
        HC_ctx h \<Rightarrow> do {
          (r, h, mem) \<leftarrow> (if \<not> Option.is_none cdict then hc_compress_continue hc mem h src dst src_size dstCapacity
            else hc_compress_fastReset hc mem h src dst src_size dstCapacity level);
          Some (r, HC_ctx h, mem) }
      | _ \<Rightarrow> None) }"

definition LZ4F_compressBlockHC_continue :: "'h hc_lib \<Rightarrow> 'h compressFunc_t" where
  "LZ4F_compressBlockHC_continue hc ctx mem src dst src_size dstCapacity level cdict =
    (case ctx of
       HC_ctx h \<Rightarrow> do {
         (r, h, mem) \<leftarrow> hc_compress_continue hc mem h src dst src_size dstCapacity;
         Some (r, HC_ctx h, mem) }
     | _ \<Rightarrow> None)"

definition LZ4F_doNotCompressBlock :: "'h compressFunc_t" where
  "LZ4F_doNotCompressBlock ctx mem src dst src_size dstCapacity level cdict = Some (0, ctx, mem)"

definition LZ4F_selectCompression :: "'h hc_lib \<Rightarrow> LZ4F_blockMode_t \<Rightarrow> int \<Rightarrow> LZ4F_blockCompression_t \<Rightarrow> 'h compressFunc_t" where
  "LZ4F_selectCompression hc mode level compressMode =
    (if compressMode = LZ4B_UNCOMPRESSED then LZ4F_doNotCompressBlock
     else if level < LZ4HC_CLEVEL_MIN then
       if mode = LZ4F_blockIndependent then LZ4F_compressBlock hc else LZ4F_compressBlock_continue
     else if mode = LZ4F_blockIndependent then LZ4F_compressBlockHC hc else LZ4F_compressBlockHC_continue hc)"

text \<open>A block with the parameters of the frame: the bytes written, the context and the memory.\<close>

definition emit_block ::
  "'h compressFunc_t \<Rightarrow> 'h LZ4F_cctx \<Rightarrow> memory \<Rightarrow> int \<Rightarrow> int \<Rightarrow> int \<Rightarrow> (int \<times> 'h LZ4F_cctx \<times> memory) option" where
  "emit_block compress cctx mem dst src src_size = do {
     (k, ctx, mem) \<leftarrow> LZ4F_makeBlock mem dst src src_size compress (lz4Ctx cctx) (compressionLevel (prefs cctx)) (ccdict cctx)
       (blockChecksumFlag (frameInfo (prefs cctx)));
     Some (k, cctx\<lparr>lz4Ctx := ctx\<rparr>, mem) }"

text \<open>\<open>LZ4F_localSaveDict\<close>: up to 64 KB of history go to \<open>tmpBuff\<close>.\<close>

definition LZ4F_localSaveDict :: "'h hc_lib \<Rightarrow> 'h LZ4F_cctx \<Rightarrow> memory \<Rightarrow> (int \<times> 'h LZ4F_cctx \<times> memory) option" where
  "LZ4F_localSaveDict hc cctx mem =
    (case lz4Ctx cctx of
       Fast_ctx c \<Rightarrow>
         if compressionLevel (prefs cctx) < LZ4HC_CLEVEL_MIN
         then let (n, c, mem) = LZ4_saveDict mem c (tmpBuff cctx) (KB 64) in Some (n, cctx\<lparr>lz4Ctx := Fast_ctx c\<rparr>, mem) else None
     | HC_ctx h \<Rightarrow>
         if compressionLevel (prefs cctx) < LZ4HC_CLEVEL_MIN then None
         else let (n, h, mem) = hc_save hc mem h (tmpBuff cctx) (KB 64) in Some (n, cctx\<lparr>lz4Ctx := HC_ctx h\<rparr>, mem)
     | No_ctx \<Rightarrow> None)"

definition save_to_tmp :: "'h hc_lib \<Rightarrow> 'h LZ4F_cctx \<Rightarrow> memory \<Rightarrow> ('h LZ4F_cctx \<times> memory) option" where
  "save_to_tmp hc cctx mem = do {
     (realDictSize, cctx, mem) \<leftarrow> LZ4F_localSaveDict hc cctx mem;
     Some (cctx\<lparr>ctmpIn := tmpBuff cctx + realDictSize\<rparr>, mem) }"

section \<open>Flushing\<close>

text \<open>What a caller sees in a \<open>size_t\<close>.\<close>

definition size_result :: "int \<Rightarrow> LZ4F_errorCodes + int" where
  "size_result n = (if LZ4F_isError n then Inl (LZ4F_getErrorCode n) else Inr n)"

definition LZ4F_flush :: "'h hc_lib \<Rightarrow> 'h LZ4F_cctx \<Rightarrow> memory \<Rightarrow> int \<Rightarrow> int \<Rightarrow> 'h cresult option" where
  "LZ4F_flush hc cctx mem dstBuffer dstCapacity =
    (if ctmpInSize cctx = 0 then Some (Inr 0, cctx, mem)
     else if cStage cctx \<noteq> 1 then Some (Inl ERROR_compressionState_uninitialized, cctx, mem)
     else if dstCapacity < ctmpInSize cctx + BHSize + BFSize then Some (Inl ERROR_dstMaxSize_tooSmall, cctx, mem)
     else do {
       let mode = blockMode (frameInfo (prefs cctx));
       let compress = LZ4F_selectCompression hc mode (compressionLevel (prefs cctx)) (blockCompression cctx);
       (k, cctx, mem) \<leftarrow> emit_block compress cctx mem dstBuffer (ctmpIn cctx) (ctmpInSize cctx);
       let cctx = (if mode = LZ4F_blockLinked then cctx\<lparr>ctmpIn := ctmpIn cctx + ctmpInSize cctx\<rparr> else cctx);
       let cctx = cctx\<lparr>ctmpInSize := 0\<rparr>;
       (cctx, mem) \<leftarrow> (if ctmpIn cctx + cmaxBlockSize cctx > tmpBuff cctx + cmaxBufferSize cctx
         then save_to_tmp hc cctx mem else Some (cctx, mem));
       Some (Inr k, cctx, mem) })"

section \<open>Updating\<close>

text \<open>The variables of a call: \<open>srcPtr\<close>, \<open>dstPtr\<close>, \<open>lastBlockCompressed\<close>, the context and the memory.\<close>

record 'h uloop =
  usrc :: int
  udst :: int
  ulast :: LZ4F_lastBlockStatus
  uctx :: "'h LZ4F_cctx"
  umem :: memory

definition update_block :: "'h compressFunc_t \<Rightarrow> 'h uloop \<Rightarrow> int \<Rightarrow> int \<Rightarrow> 'h uloop option" where
  "update_block compress u src n = do {
     (k, cctx, mem) \<leftarrow> emit_block compress (uctx u) (umem u) (udst u) src n;
     Some (u\<lparr>udst := udst u + k, uctx := cctx, umem := mem\<rparr>) }"

definition complete_tmp :: "'h compressFunc_t \<Rightarrow> 'h uloop \<Rightarrow> int \<Rightarrow> 'h uloop option" where
  "complete_tmp compress u src_size =
    (let cctx = uctx u; blockSize = cmaxBlockSize cctx; sizeToCopy = usub blockSize (ctmpInSize cctx) in
     if ctmpInSize cctx = 0 then Some u
     else if sizeToCopy > src_size then do {
       mem \<leftarrow> copy_mem (umem u) (ctmpIn cctx + ctmpInSize cctx) (usrc u) src_size;
       Some (u\<lparr>usrc := usrc u + src_size, uctx := cctx\<lparr>ctmpInSize := ctmpInSize cctx + src_size\<rparr>, umem := mem\<rparr>) }
     else do {
       mem \<leftarrow> copy_mem (umem u) (ctmpIn cctx + ctmpInSize cctx) (usrc u) sizeToCopy;
       u \<leftarrow> update_block compress (u\<lparr>usrc := usrc u + sizeToCopy, ulast := fromTmpBuffer, umem := mem\<rparr>) (ctmpIn cctx) blockSize;
       let cctx = uctx u;
       let cctx = (if blockMode (frameInfo (prefs cctx)) = LZ4F_blockLinked then cctx\<lparr>ctmpIn := ctmpIn cctx + blockSize\<rparr> else cctx);
       Some (u\<lparr>uctx := cctx\<lparr>ctmpInSize := 0\<rparr>\<rparr>) })"

text \<open>The loop over the full blocks of the source; without a block size it would not end.\<close>

function full_blocks :: "'h compressFunc_t \<Rightarrow> 'h uloop \<Rightarrow> int \<Rightarrow> int \<Rightarrow> 'h uloop option" where
  "full_blocks compress u blockSize src_end =
    (if blockSize \<le> 0 then None
     else if src_end - usrc u \<ge> blockSize then do {
       u' \<leftarrow> update_block compress (u\<lparr>ulast := fromSrcBuffer\<rparr>) (usrc u) blockSize;
       full_blocks compress (u'\<lparr>usrc := usrc u + blockSize\<rparr>) blockSize src_end }
     else Some u)"
  by auto
termination
  by (relation "measure (\<lambda>(_, u, _, src_end). nat (src_end - usrc u))") auto

declare full_blocks.simps [simp del]

definition flush_rest :: "'h compressFunc_t \<Rightarrow> 'h uloop \<Rightarrow> int \<Rightarrow> 'h uloop option" where
  "flush_rest compress u src_end =
    (if autoFlush (prefs (uctx u)) \<and> usrc u < src_end then do {
       u \<leftarrow> update_block compress (u\<lparr>ulast := fromSrcBuffer\<rparr>) (usrc u) (src_end - usrc u);
       Some (u\<lparr>usrc := src_end\<rparr>) }
     else Some u)"

definition keep_history :: "'h hc_lib \<Rightarrow> 'h uloop \<Rightarrow> bool \<Rightarrow> 'h uloop option" where
  "keep_history hc u stableSrc =
    (let cctx = uctx u in
     if blockMode (frameInfo (prefs cctx)) = LZ4F_blockLinked \<and> ulast u = fromSrcBuffer then
       if stableSrc then Some (u\<lparr>uctx := cctx\<lparr>ctmpIn := tmpBuff cctx\<rparr>\<rparr>)
       else do { (cctx, mem) \<leftarrow> save_to_tmp hc cctx (umem u); Some (u\<lparr>uctx := cctx, umem := mem\<rparr>) }
     else Some u)"

definition keep_within :: "'h hc_lib \<Rightarrow> 'h uloop \<Rightarrow> 'h uloop option" where
  "keep_within hc u =
    (let cctx = uctx u in
     if \<not> autoFlush (prefs cctx) \<and> ctmpIn cctx + cmaxBlockSize cctx > tmpBuff cctx + cmaxBufferSize cctx
     then do { (cctx, mem) \<leftarrow> save_to_tmp hc cctx (umem u); Some (u\<lparr>uctx := cctx, umem := mem\<rparr>) }
     else Some u)"

definition buffer_rest :: "'h uloop \<Rightarrow> int \<Rightarrow> 'h uloop option" where
  "buffer_rest u src_end =
    (if usrc u < src_end then do {
       mem \<leftarrow> copy_mem (umem u) (ctmpIn (uctx u)) (usrc u) (src_end - usrc u);
       Some (u\<lparr>uctx := (uctx u)\<lparr>ctmpInSize := src_end - usrc u\<rparr>, umem := mem\<rparr>) }
     else Some u)"

text \<open>The buffered data is flushed when the kind of blocks changes. The result of \<open>LZ4F_flush\<close> is added to
  \<open>dstPtr\<close> as it is, even if it is an error code.\<close>

definition switch_mode ::
  "'h hc_lib \<Rightarrow> LZ4F_blockCompression_t \<Rightarrow> 'h LZ4F_cctx \<Rightarrow> memory \<Rightarrow> int \<Rightarrow> int \<Rightarrow> (int \<times> 'h LZ4F_cctx \<times> memory) option" where
  "switch_mode hc mode cctx mem dstBuffer dstCapacity =
    (if blockCompression cctx \<noteq> mode then do {
       (r, cctx, mem) \<leftarrow> LZ4F_flush hc cctx mem dstBuffer dstCapacity;
       Some ((dstBuffer + as_size_t r) mod 2 ^ 64, cctx\<lparr>blockCompression := mode\<rparr>, mem) }
     else Some (dstBuffer, cctx, mem))"

definition update_blocks ::
  "'h hc_lib \<Rightarrow> 'h LZ4F_cctx \<Rightarrow> memory \<Rightarrow> int \<Rightarrow> int \<Rightarrow> int \<Rightarrow> bool \<Rightarrow> LZ4F_blockCompression_t \<Rightarrow> 'h uloop option" where
  "update_blocks hc cctx mem dst_pos srcBuffer src_size stableSrc mode = do {
     let src_end = srcBuffer + src_size;
     let compress = LZ4F_selectCompression hc (blockMode (frameInfo (prefs cctx))) (compressionLevel (prefs cctx)) mode;
     u \<leftarrow> complete_tmp compress \<lparr>usrc = srcBuffer, udst = dst_pos, ulast = notDone, uctx = cctx, umem = mem\<rparr> src_size;
     u \<leftarrow> full_blocks compress u (cmaxBlockSize cctx) src_end;
     u \<leftarrow> flush_rest compress u src_end;
     u \<leftarrow> keep_history hc u stableSrc;
     u \<leftarrow> keep_within hc u;
     buffer_rest u src_end }"

definition LZ4F_compressUpdateImpl ::
  "'h hc_lib \<Rightarrow> cf_env \<Rightarrow> 'h LZ4F_cctx \<Rightarrow> memory \<Rightarrow> int \<Rightarrow> int \<Rightarrow> int \<Rightarrow> int \<Rightarrow> bool \<Rightarrow> LZ4F_blockCompression_t
     \<Rightarrow> 'h cresult option" where
  "LZ4F_compressUpdateImpl hc env cctx mem dstBuffer dstCapacity srcBuffer src_size stableSrc mode =
    (if cStage cctx \<noteq> 1 then Some (Inl ERROR_compressionState_uninitialized, cctx, mem)
     else if dstCapacity < LZ4F_compressBound_internal src_size (Some (prefs cctx)) (ctmpInSize cctx)
       then Some (Inl ERROR_dstMaxSize_tooSmall, cctx, mem)
     else if mode = LZ4B_UNCOMPRESSED \<and> dstCapacity < src_size then Some (Inl ERROR_dstMaxSize_tooSmall, cctx, mem)
     else do {
       (dst_pos, cctx, mem) \<leftarrow> switch_mode hc mode cctx mem dstBuffer dstCapacity;
       u \<leftarrow> update_blocks hc cctx mem dst_pos srcBuffer src_size stableSrc mode;
       let cctx = uctx u;
       x \<leftarrow> (if contentChecksumFlag (frameInfo (prefs cctx)) = LZ4F_contentChecksumEnabled
         then checksum_update (cmachine env) (cxxh cctx) (read_mem (umem u) srcBuffer src_size) else Some (cxxh cctx));
       Some (size_result ((udst u - dstBuffer) mod 2 ^ 64), cctx\<lparr>cxxh := x, totalInSize := (totalInSize cctx + src_size) mod 2 ^ 64\<rparr>, umem u) })"

definition LZ4F_compressUpdate ::
  "'h hc_lib \<Rightarrow> cf_env \<Rightarrow> 'h LZ4F_cctx \<Rightarrow> memory \<Rightarrow> int \<Rightarrow> int \<Rightarrow> int \<Rightarrow> int \<Rightarrow> bool \<Rightarrow> 'h cresult option" where
  "LZ4F_compressUpdate hc env cctx mem dstBuffer dstCapacity srcBuffer src_size stableSrc =
     LZ4F_compressUpdateImpl hc env cctx mem dstBuffer dstCapacity srcBuffer src_size stableSrc LZ4B_COMPRESSED"

definition LZ4F_uncompressedUpdate ::
  "'h hc_lib \<Rightarrow> cf_env \<Rightarrow> 'h LZ4F_cctx \<Rightarrow> memory \<Rightarrow> int \<Rightarrow> int \<Rightarrow> int \<Rightarrow> int \<Rightarrow> bool \<Rightarrow> 'h cresult option" where
  "LZ4F_uncompressedUpdate hc env cctx mem dstBuffer dstCapacity srcBuffer src_size stableSrc =
    (if blockMode (frameInfo (prefs cctx)) \<noteq> LZ4F_blockIndependent then Some (Inl ERROR_blockMode_invalid, cctx, mem)
     else LZ4F_compressUpdateImpl hc env cctx mem dstBuffer dstCapacity srcBuffer src_size stableSrc LZ4B_UNCOMPRESSED)"

section \<open>The end of the frame; a whole frame\<close>

definition LZ4F_compressEnd :: "'h hc_lib \<Rightarrow> cf_env \<Rightarrow> 'h LZ4F_cctx \<Rightarrow> memory \<Rightarrow> int \<Rightarrow> int \<Rightarrow> 'h cresult option" where
  "LZ4F_compressEnd hc env cctx mem dstBuffer dstCapacity = do {
     (r, cctx, mem) \<leftarrow> LZ4F_flush hc cctx mem dstBuffer dstCapacity;
     (case r of
        Inl e \<Rightarrow> Some (Inl e, cctx, mem)
      | Inr flushSize \<Rightarrow>
          let dst_pos = dstBuffer + flushSize; dstCapacity = usub dstCapacity flushSize; fi = frameInfo (prefs cctx) in
          if dstCapacity < 4 then Some (Inl ERROR_dstMaxSize_tooSmall, cctx, mem)
          else let mem = write_mem mem dst_pos (LZ4F_writeLE32 0) in
            if contentChecksumFlag fi = LZ4F_contentChecksumEnabled \<and> dstCapacity < 8
            then Some (Inl ERROR_dstMaxSize_tooSmall, cctx, mem)
            else do {
              crc \<leftarrow> (if contentChecksumFlag fi = LZ4F_contentChecksumEnabled then do {
                  xxh \<leftarrow> XXH32_digest (cmachine env) (cxxh cctx); Some (LZ4F_writeLE32 xxh) }
                else Some []);
              let mem = write_mem mem (dst_pos + 4) crc;
              let total = totalInSize cctx;
              let cctx = cctx\<lparr>cStage := 0, cmaxBufferSize := 0\<rparr>;
              if contentSize fi \<noteq> 0 \<and> contentSize fi \<noteq> total then Some (Inl ERROR_frameSize_wrong, cctx, mem)
              else Some (Inr (flushSize + 4 + int (length crc)), cctx, mem) }) }"

definition frame_prefs :: "LZ4F_preferences_t option \<Rightarrow> int \<Rightarrow> LZ4F_preferences_t" where
  "frame_prefs preferencesPtr src_size =
    (let p = (case preferencesPtr of None \<Rightarrow> LZ4F_INIT_PREFERENCES | Some p \<Rightarrow> p);
         fi = frameInfo p;
         fi = (if contentSize fi \<noteq> 0 then fi\<lparr>contentSize := src_size\<rparr> else fi);
         fi = fi\<lparr>blockSizeID := LZ4F_optimalBSID (blockSizeID fi) src_size\<rparr>;
         fi = (if src_size \<le> as_size_t (LZ4F_getBlockSize (blockSizeID fi)) then fi\<lparr>blockMode := LZ4F_blockIndependent\<rparr> else fi) in
     p\<lparr>frameInfo := fi, autoFlush := True\<rparr>)"

definition LZ4F_compressFrame_usingCDict ::
  "'h hc_lib \<Rightarrow> cf_env \<Rightarrow> 'h LZ4F_cctx \<Rightarrow> memory \<Rightarrow> int \<Rightarrow> int \<Rightarrow> int \<Rightarrow> int \<Rightarrow> 'h LZ4F_CDict option \<Rightarrow> LZ4F_preferences_t option
     \<Rightarrow> 'h cresult option" where
  "LZ4F_compressFrame_usingCDict hc env cctx mem dstBuffer dstCapacity srcBuffer src_size cdict preferencesPtr =
    (let prefs = frame_prefs preferencesPtr src_size; dst_end = dstBuffer + dstCapacity in
     if dstCapacity < LZ4F_compressFrameBound src_size (Some prefs) then Some (Inl ERROR_dstMaxSize_tooSmall, cctx, mem)
     else do {
       (r, cctx, mem) \<leftarrow> LZ4F_compressBegin_usingCDict hc env cctx mem dstBuffer dstCapacity cdict (Some prefs);
       (case r of
          Inl e \<Rightarrow> Some (Inl e, cctx, mem)
        | Inr headerSize \<Rightarrow> do {
            let dst_pos = dstBuffer + headerSize;
            (r, cctx, mem) \<leftarrow> LZ4F_compressUpdate hc env cctx mem dst_pos (dst_end - dst_pos) srcBuffer src_size True;
            (case r of
               Inl e \<Rightarrow> Some (Inl e, cctx, mem)
             | Inr cSize \<Rightarrow> do {
                 let dst_pos = dst_pos + cSize;
                 (r, cctx, mem) \<leftarrow> LZ4F_compressEnd hc env cctx mem dst_pos (dst_end - dst_pos);
                 (case r of
                    Inl e \<Rightarrow> Some (Inl e, cctx, mem)
                  | Inr tailSize \<Rightarrow> Some (Inr (dst_pos + tailSize - dstBuffer), cctx, mem)) }) }) })"

text \<open>\<open>LZ4F_compressFrame\<close> has its context on the stack. The size of its buffer is pretended: nothing is buffered.\<close>

definition LZ4F_compressFrame ::
  "'h hc_lib \<Rightarrow> cf_env \<Rightarrow> memory \<Rightarrow> int \<Rightarrow> int \<Rightarrow> int \<Rightarrow> int \<Rightarrow> LZ4F_preferences_t option
     \<Rightarrow> ((LZ4F_errorCodes + int) \<times> memory) option" where
  "LZ4F_compressFrame hc env mem dstBuffer dstCapacity srcBuffer src_size preferencesPtr = do {
     let level = (case preferencesPtr of None \<Rightarrow> 0 | Some p \<Rightarrow> compressionLevel p);
     let cctx = LZ4F_createCompressionContext\<lparr>cmaxBufferSize := 5 * KB 1024\<rparr>;
     let cctx = (if level < LZ4HC_CLEVEL_MIN
       then cctx\<lparr>lz4Ctx := Fast_ctx LZ4_initStream, lz4CtxAlloc := 1, lz4CtxState := 1\<rparr> else cctx);
     (r, cctx, mem) \<leftarrow> LZ4F_compressFrame_usingCDict hc env cctx mem dstBuffer dstCapacity srcBuffer src_size None preferencesPtr;
     Some (r, mem) }"

end
