(* ===== verification/LZ4F_Decompress_Safe.thy ===== *)
theory LZ4F_Decompress_Safe
  imports LZ4F_Decompress
begin

text \<open>
  \<open>LZ4F_decompress\<close> on arbitrary input. \<open>heap\<close> is the part of the address space that the allocator
  gives to the context; the caller's buffers lie outside it. The invariant \<open>stage_ok\<close> says, for
  every stage, what the fields it reads hold; each stage keeps it, copies no overlapping ranges and
  writes only to the output buffer and to the heap.
\<close>

section \<open>Regions\<close>

definition owns :: "int set \<Rightarrow> int \<Rightarrow> int \<Rightarrow> bool" where
  "owns H a n \<longleftrightarrow> 0 < a \<and> {a..<a + n} \<subseteq> H"

definition outside :: "int set \<Rightarrow> int \<Rightarrow> int \<Rightarrow> bool" where
  "outside H a n \<longleftrightarrow> {a..<a + n} \<inter> H = {}"

lemma owns_iff: "owns H a n \<longleftrightarrow> 0 < a \<and> (\<forall>p. a \<le> p \<and> p < a + n \<longrightarrow> p \<in> H)"
  by (auto simp: owns_def)

lemma outside_iff: "outside H a n \<longleftrightarrow> (\<forall>p. a \<le> p \<and> p < a + n \<longrightarrow> p \<notin> H)"
  by (auto simp: outside_def)

lemma apart_sym: "apart a n b k \<Longrightarrow> apart b k a n"
  by (auto simp: apart_def)

lemma owns_outside: "owns H a n \<Longrightarrow> outside H b k \<Longrightarrow> apart a n b k"
  unfolding owns_iff outside_iff apart_def by (metis add_strict_increasing linorder_not_le max.cobounded1 max.cobounded2 max_def
      less_add_same_cancel1 order.strict_trans2 order.refl)

lemma outside_owns: "outside H b k \<Longrightarrow> owns H a n \<Longrightarrow> apart b k a n"
  by (rule apart_sym[OF owns_outside])

lemma apart_part:
  "apart a n b k \<Longrightarrow> a \<le> a' \<Longrightarrow> a' + n' \<le> a + n \<Longrightarrow> b \<le> b' \<Longrightarrow> b' + k' \<le> b + k \<Longrightarrow> apart a' n' b' k'"
  by (auto simp: apart_def)

lemma owns_part: "owns H a n \<Longrightarrow> a \<le> b \<Longrightarrow> b + k \<le> a + n \<Longrightarrow> owns H b k"
  by (auto simp: owns_iff)

lemma outside_part: "outside H a n \<Longrightarrow> a \<le> b \<Longrightarrow> b + k \<le> a + n \<Longrightarrow> outside H b k"
  by (auto simp: outside_iff)

section \<open>The buffers of a context\<close>

definition block_sizes :: "int set" where
  "block_sizes = {KB 64, KB 256, KB 1024, KB 4096}"

definition tmp_ok :: "int set \<Rightarrow> LZ4F_dctx \<Rightarrow> bool" where
  "tmp_ok H d \<longleftrightarrow> (\<exists>bs \<in> block_sizes. dmaxBufferSize d \<in> {bs, bs + KB 128} \<and> owns H (dtmpIn d) (bs + 4)
     \<and> owns H (tmpOutBuffer d) (dmaxBufferSize d) \<and> apart (dtmpIn d) (bs + 4) (tmpOutBuffer d) (dmaxBufferSize d))"

definition alloc_ok :: "int set \<Rightarrow> LZ4F_dctx \<Rightarrow> bool" where
  "alloc_ok H d \<longleftrightarrow> dmaxBufferSize d = 0 \<or> tmp_ok H d"

abbreviation bufferNeeded :: "LZ4F_dctx \<Rightarrow> int" where
  "bufferNeeded d \<equiv> dmaxBlockSize d + (if linked d then KB 128 else 0)"

text \<open>A dictionary outside the heap must not lie where output is still to be written, \<open>[a, b)\<close>.\<close>

definition dict_out :: "int set \<Rightarrow> LZ4F_dctx \<Rightarrow> int \<Rightarrow> int \<Rightarrow> bool" where
  "dict_out H d a b \<longleftrightarrow> 0 \<le> ddictSize d \<and> (ddict d = 0 \<longrightarrow> ddictSize d = 0) \<and> outside H (ddict d) (ddictSize d) \<and> apart (ddict d) (ddictSize d) a (b - a)"

definition in_tmp :: "LZ4F_dctx \<Rightarrow> bool" where
  "in_tmp d \<longleftrightarrow> linked d \<and> ddict d = tmpOutBuffer d \<and> 0 \<le> ddictSize d \<and> ddictSize d \<le> dmaxBufferSize d"

definition ready :: "int set \<Rightarrow> LZ4F_dctx \<Rightarrow> int \<Rightarrow> int \<Rightarrow> bool" where
  "ready H d a b \<longleftrightarrow> tmp_ok H d \<and> dmaxBlockSize d \<in> block_sizes \<and> bufferNeeded d \<le> dmaxBufferSize d
     \<and> (\<not> linked d \<longrightarrow> tmpOut d = tmpOutBuffer d) \<and> (has_contentsum d \<longrightarrow> (\<exists>xs. XXH32_holds 0 (dxxh d) xs))
     \<and> (dict_out H d a b \<or> in_tmp d)"

text \<open>How much history \<open>dict_within_tmp\<close> and \<open>preserve_history\<close> copy in front of a block to be flushed.\<close>

definition history_copy :: "LZ4F_dctx \<Rightarrow> int" where
  "history_copy d = min (if tmpOutSize d > KB 64 then 0 else KB 64 - tmpOutSize d) (tmpOut d - tmpOutBuffer d)"

definition flush_ok :: "LZ4F_dctx \<Rightarrow> bool" where
  "flush_ok d \<longleftrightarrow> tmpOutBuffer d \<le> tmpOut d \<and> 0 \<le> tmpOutStart d \<and> tmpOutStart d \<le> tmpOutSize d
     \<and> tmpOut d - tmpOutBuffer d + tmpOutSize d \<le> dmaxBufferSize d
     \<and> (linked d \<longrightarrow> (if ddict d = tmpOutBuffer d then ddict d + ddictSize d = tmpOut d + tmpOutStart d
          else history_copy d = 0 \<or> history_copy d + tmpOutStart d \<le> ddictSize d))"

definition blocksum_ok :: "LZ4F_dctx \<Rightarrow> bool" where
  "blocksum_ok d \<longleftrightarrow> (has_blocksum d \<longrightarrow> (\<exists>xs. XXH32_holds 0 (blockChecksum d) xs))"

abbreviation no_dict :: "LZ4F_dctx \<Rightarrow> LZ4F_dctx" where
  "no_dict d \<equiv> d\<lparr>ddict := 0, ddictSize := 0\<rparr>"

definition stage_ok :: "int set \<Rightarrow> LZ4F_dctx \<Rightarrow> int \<Rightarrow> int \<Rightarrow> bool" where
  "stage_ok H d a b \<longleftrightarrow> (case dStage d of
       dstage_getFrameHeader \<Rightarrow> dict_out H d a b
     | dstage_storeFrameHeader \<Rightarrow> dict_out H d a b \<and> dtmpInSize d \<le> dtmpInTarget d \<and> 7 \<le> dtmpInTarget d \<and> dtmpInTarget d \<le> 19
         \<and> (7 < dtmpInTarget d \<longrightarrow> 7 \<le> dtmpInSize d \<and> LZ4F_readLE32 (dheader d) 0 = Some LZ4F_MAGICNUMBER)
     | dstage_init \<Rightarrow> dict_out H d a b \<and> dmaxBlockSize d \<in> block_sizes
     | dstage_getBlockHeader \<Rightarrow> ready H d a b
     | dstage_storeBlockHeader \<Rightarrow> ready H d a b \<and> dtmpInSize d \<le> 4
     | dstage_copyDirect \<Rightarrow> ready H d a b \<and> blocksum_ok d
     | dstage_getBlockChecksum \<Rightarrow> ready H d a b \<and> blocksum_ok d \<and> has_blocksum d \<and> dtmpInSize d \<le> 4
     | dstage_getCBlock \<Rightarrow> ready H d a b \<and> dtmpInTarget d \<le> dmaxBlockSize d + 4 \<and> (has_blocksum d \<longrightarrow> 4 \<le> dtmpInTarget d)
     | dstage_storeCBlock \<Rightarrow> ready H d a b \<and> dtmpInTarget d \<le> dmaxBlockSize d + 4 \<and> (has_blocksum d \<longrightarrow> 4 \<le> dtmpInTarget d)
         \<and> dtmpInSize d \<le> dtmpInTarget d
     | dstage_flushOut \<Rightarrow> ready H d a b \<and> flush_ok d
     | dstage_getSuffix \<Rightarrow> ready H (no_dict d) a b
     | dstage_storeSuffix \<Rightarrow> ready H (no_dict d) a b \<and> has_contentsum d \<and> dtmpInSize d \<le> 4
     | dstage_getSFrameSize \<Rightarrow> True
     | dstage_storeSFrameSize \<Rightarrow> dtmpInSize d \<le> dtmpInTarget d \<and> dtmpInTarget d = 8
     | dstage_skipSkippable \<Rightarrow> True)"

text \<open>What holds even after an error: enough for \<open>LZ4F_resetDecompressionContext\<close>.\<close>

definition base_ok :: "int set \<Rightarrow> LZ4F_dctx \<Rightarrow> bool" where
  "base_ok H d \<longleftrightarrow> length (dheader d) = 19 \<and> 0 \<le> dtmpInSize d \<and> 0 \<le> dtmpInTarget d \<and> alloc_ok H d"

definition dctx_ok :: "int set \<Rightarrow> LZ4F_dctx \<Rightarrow> int \<Rightarrow> int \<Rightarrow> bool" where
  "dctx_ok H d a b \<longleftrightarrow> base_ok H d \<and> stage_ok H d a b"

section \<open>A call\<close>

text \<open>Blocks of the allocator do not touch the output buffer (between two blocks there is a header).\<close>

record dcall =
  heap :: "int set"
  srcStart :: int
  dstLow :: int
  mem_before :: memory

definition confined :: "dcall \<Rightarrow> denv \<Rightarrow> memory \<Rightarrow> bool" where
  "confined c env mem \<longleftrightarrow> (\<forall>p. p \<notin> heap c \<and> (p < dstStart env \<or> dstEnd env \<le> p) \<longrightarrow> mem p = mem_before c p)"

definition env_ok :: "dcall \<Rightarrow> denv \<Rightarrow> bool" where
  "env_ok c env \<longleftrightarrow> outside (heap c) (srcStart c) (srcEnd env - srcStart c) \<and> outside (heap c) (dstStart env - 1) (dstEnd env - dstStart env + 2)
     \<and> apart (srcStart c) (srcEnd env - srcStart c) (dstStart env) (dstEnd env - dstStart env)
     \<and> 0 \<le> dstStart env \<and> (dstStart env = 0 \<longrightarrow> dstEnd env = 0)
     \<and> (\<forall>bs \<in> block_sizes. malloc_in env (bs + 4) = 0 \<or> owns (heap c) (malloc_in env (bs + 4)) (bs + 4))
     \<and> (\<forall>bs \<in> block_sizes. \<forall>n \<in> {bs, bs + KB 128}. (malloc_out env n = 0 \<or> owns (heap c) (malloc_out env n) n)
          \<and> apart (malloc_in env (bs + 4)) (bs + 4) (malloc_out env n) n)"

definition moving :: "dcall \<Rightarrow> denv \<Rightarrow> dloop \<Rightarrow> bool" where
  "moving c env l \<longleftrightarrow> srcStart c \<le> srcPtr l \<and> srcPtr l \<le> srcEnd env \<and> dstStart env \<le> dstPtr l \<and> dstLow c \<le> dstPtr l \<and> dstPtr l \<le> dstEnd env
     \<and> confined c env (lmem l) \<and> base_ok (heap c) (lctx l)"

definition loop_ok :: "dcall \<Rightarrow> denv \<Rightarrow> dloop \<Rightarrow> bool" where
  "loop_ok c env l \<longleftrightarrow> moving c env l \<and> stage_ok (heap c) (lctx l) (dstPtr l) (dstEnd env)"

definition step_ok :: "dcall \<Rightarrow> denv \<Rightarrow> step \<Rightarrow> bool" where
  "step_ok c env s = (case s of
       Again l \<Rightarrow> loop_ok c env l \<and> dStage (lctx l) \<noteq> dstage_getFrameHeader
     | Stop l \<Rightarrow> loop_ok c env l \<and> dStage (lctx l) \<noteq> dstage_init
     | Return r l \<Rightarrow> (if isl r then moving c env l else loop_ok c env l \<and> dStage (lctx l) = dstage_getFrameHeader))"

lemma env_okD:
  assumes "env_ok c env"
  shows "outside (heap c) (srcStart c) (srcEnd env - srcStart c)" "outside (heap c) (dstStart env) (dstEnd env - dstStart env)"
    "apart (srcStart c) (srcEnd env - srcStart c) (dstStart env) (dstEnd env - dstStart env)"
    "0 \<le> dstStart env" "dstStart env = 0 \<Longrightarrow> dstEnd env = 0"
  using assms outside_part[of "heap c" "dstStart env - 1" "dstEnd env - dstStart env + 2" "dstStart env" "dstEnd env - dstStart env"]
  by (simp_all add: env_ok_def)

lemma dst_not_heap: "env_ok c env \<Longrightarrow> dstStart env - 1 \<le> p \<Longrightarrow> p \<le> dstEnd env \<Longrightarrow> p \<notin> heap c"
  by (simp add: env_ok_def outside_iff)

section \<open>Writing\<close>

lemma wp_copy [wp_simps]:
  "wp (copy_mem mem x s n) Q \<longleftrightarrow> apart x n s n \<and> Q (write_mem mem x (read_mem mem s n))"
  by (auto simp: copy_mem_def wp_simps)

lemma confined_heap: "confined c env mem \<Longrightarrow> owns (heap c) x (int (length bs)) \<Longrightarrow> confined c env (write_mem mem x bs)"
  by (auto simp: confined_def owns_iff write_mem_def)

lemma confined_dst:
  "confined c env mem \<Longrightarrow> dstStart env \<le> x \<Longrightarrow> x + int (length bs) \<le> dstEnd env \<Longrightarrow> confined c env (write_mem mem x bs)"
  by (auto simp: confined_def write_mem_def)

lemma confined_empty: "n \<le> 0 \<Longrightarrow> write_mem mem x (read_mem mem' s n) = mem"
  by (rule ext) (auto simp: write_mem_def read_mem_def)

lemma confined_copy:
  "confined c env mem \<Longrightarrow> n \<le> 0 \<or> owns (heap c) x n \<Longrightarrow> confined c env (write_mem mem x (read_mem mem' s n))"
  by (cases "n \<le> 0") (auto simp: confined_empty intro: confined_heap)

lemma confined_trans:
  "confined c env mem \<Longrightarrow> (\<forall>p. p < x \<or> x + n \<le> p \<longrightarrow> mem' p = mem p) \<Longrightarrow> n \<le> 0 \<or> owns (heap c) x n \<or> dstStart env \<le> x \<and> x + n \<le> dstEnd env
    \<Longrightarrow> confined c env mem'"
  unfolding confined_def owns_iff by (smt (verit))

section \<open>The buffers\<close>

lemma block_sizes_pos: "bs \<in> block_sizes \<Longrightarrow> KB 64 \<le> bs"
  by (auto simp: block_sizes_def)

lemma tmp_room:
  assumes "ready H d a b"
  shows "owns H (dtmpIn d) (dmaxBlockSize d + 4)" "owns H (tmpOutBuffer d) (dmaxBufferSize d)"
    "apart (dtmpIn d) (dmaxBlockSize d + 4) (tmpOutBuffer d) (dmaxBufferSize d)" "KB 64 \<le> dmaxBlockSize d"
    "dmaxBlockSize d \<le> dmaxBufferSize d" "linked d \<Longrightarrow> dmaxBlockSize d + KB 128 \<le> dmaxBufferSize d"
proof -
  obtain bs where bs: "bs \<in> block_sizes" "dmaxBufferSize d \<in> {bs, bs + KB 128}" "owns H (dtmpIn d) (bs + 4)"
    "owns H (tmpOutBuffer d) (dmaxBufferSize d)" "apart (dtmpIn d) (bs + 4) (tmpOutBuffer d) (dmaxBufferSize d)"
    using assms by (auto simp: ready_def tmp_ok_def)
  have s: "dmaxBlockSize d \<in> block_sizes" and n: "bufferNeeded d \<le> dmaxBufferSize d" using assms by (auto simp: ready_def)
  have "dmaxBlockSize d \<le> bs" using bs(1,2) s n by (auto simp: block_sizes_def split: if_splits)
  then show "owns H (dtmpIn d) (dmaxBlockSize d + 4)" "apart (dtmpIn d) (dmaxBlockSize d + 4) (tmpOutBuffer d) (dmaxBufferSize d)"
    using owns_part[OF bs(3), of "dtmpIn d" "dmaxBlockSize d + 4"] apart_part[OF bs(5), of "dtmpIn d" "dmaxBlockSize d + 4"] by auto
  show "owns H (tmpOutBuffer d) (dmaxBufferSize d)" by (rule bs(4))
  show "KB 64 \<le> dmaxBlockSize d" by (rule block_sizes_pos[OF s])
  show "dmaxBlockSize d \<le> dmaxBufferSize d" "linked d \<Longrightarrow> dmaxBlockSize d + KB 128 \<le> dmaxBufferSize d" using n by (auto split: if_splits)
qed

lemma tob_in_heap: "ready H d a b \<Longrightarrow> tmpOutBuffer d \<in> H"
  using tmp_room(2,4,5)[of H d a b] by (auto simp: owns_iff)

lemma ready_fields [simp]:
  "ready H (d\<lparr>dStage := s\<rparr>) a b = ready H d a b" "ready H (d\<lparr>dtmpInSize := n\<rparr>) a b = ready H d a b"
  "ready H (d\<lparr>dtmpInTarget := n\<rparr>) a b = ready H d a b" "ready H (d\<lparr>blockChecksum := x\<rparr>) a b = ready H d a b"
  "ready H (d\<lparr>tmpOutStart := n\<rparr>) a b = ready H d a b" "ready H (d\<lparr>tmpOutSize := n\<rparr>) a b = ready H d a b"
  "ready H (d\<lparr>dheader := h\<rparr>) a b = ready H d a b" "ready H (d\<lparr>frameRemainingSize := n\<rparr>) a b = ready H d a b"
  by (simp_all add: ready_def tmp_ok_def dict_out_def in_tmp_def)

lemma no_dict_fields [simp]:
  "ready H (no_dict (d\<lparr>dStage := s\<rparr>)) a b = ready H (no_dict d) a b" "ready H (no_dict (d\<lparr>dtmpInSize := n\<rparr>)) a b = ready H (no_dict d) a b"
  "ready H (no_dict (d\<lparr>dtmpInSize := n, dStage := s\<rparr>)) a b = ready H (no_dict d) a b"
  by (simp_all add: ready_def tmp_ok_def dict_out_def in_tmp_def)

lemma ready_sum: "ready H d a b \<Longrightarrow> (has_contentsum d \<longrightarrow> (\<exists>xs. XXH32_holds 0 x xs)) \<Longrightarrow> ready H (d\<lparr>dxxh := x\<rparr>) a b"
  by (simp add: ready_def tmp_ok_def dict_out_def in_tmp_def)

lemma ready_dict:
  "ready H d a b \<Longrightarrow> dict_out H (d\<lparr>ddict := x, ddictSize := y\<rparr>) a' b' \<or> in_tmp (d\<lparr>ddict := x, ddictSize := y\<rparr>)
    \<Longrightarrow> ready H (d\<lparr>ddict := x, ddictSize := y\<rparr>) a' b'"
  by (simp add: ready_def tmp_ok_def)

lemma ready_no_dict: "ready H d a b \<Longrightarrow> ready H (no_dict d) a' b'"
  by (rule ready_dict) (simp_all add: dict_out_def outside_def apart_def)

text \<open>While output is written the dictionary is not overwritten.\<close>

lemma dict_out_on: "dict_out H d a b \<Longrightarrow> a \<le> a' \<Longrightarrow> b' \<le> b \<Longrightarrow> dict_out H d a' b'"
  by (auto simp: dict_out_def elim: apart_part)

lemma ready_on: "ready H d a b \<Longrightarrow> a \<le> a' \<Longrightarrow> b' \<le> b \<Longrightarrow> ready H d a' b'"
  by (auto simp: ready_def dict_out_on)

lemma in_tmp_iff: "ready H d a b \<Longrightarrow> linked d \<Longrightarrow> ddictSize d \<noteq> 0 \<Longrightarrow> ddict d = tmpOutBuffer d \<Longrightarrow> in_tmp d"
proof -
  assume r: "ready H d a b" "linked d" "ddictSize d \<noteq> 0" "ddict d = tmpOutBuffer d"
  have "\<not> dict_out H d a b" using tob_in_heap[OF r(1)] r(3,4) by (auto simp: dict_out_def outside_iff)
  with r(1) show ?thesis by (simp add: ready_def)
qed

section \<open>The dictionary\<close>

text \<open>What \<open>LZ4F_updateDict\<close> establishes; \<open>start\<close> is \<open>tmpOutStart\<close> when the bytes come from \<open>tmpOut\<close>.\<close>

definition dict_post :: "dcall \<Rightarrow> denv \<Rightarrow> LZ4F_dctx \<Rightarrow> int \<Rightarrow> int \<Rightarrow> bool \<Rightarrow> LZ4F_dctx \<times> memory \<Rightarrow> bool" where
  "dict_post c env d dst n within = (\<lambda>(d', mem). confined c env mem \<and> (\<exists>x y. d' = d\<lparr>ddict := x, ddictSize := y\<rparr>)
     \<and> ready (heap c) d' (dst + n) (dstEnd env) \<and> (within \<longrightarrow> flush_ok (d'\<lparr>tmpOutStart := tmpOutStart d + n\<rparr>)))"

lemma only_fields [simp]:
  "\<exists>x y. d\<lparr>ddictSize := n\<rparr> = d\<lparr>ddict := x, ddictSize := y\<rparr>" "\<exists>x y. d = d\<lparr>ddict := x, ddictSize := y\<rparr>"
  "\<exists>x n. d\<lparr>dxxh := s\<rparr> = d\<lparr>dxxh := x, frameRemainingSize := n\<rparr>" "\<exists>x n. d = d\<lparr>dxxh := x, frameRemainingSize := n\<rparr>"
  "\<exists>x n. d\<lparr>frameRemainingSize := k\<rparr> = d\<lparr>dxxh := x, frameRemainingSize := n\<rparr>"
  by (rule exI[of _ "ddict d"], rule exI, simp) (rule exI[of _ "ddict d"], rule exI[of _ "ddictSize d"], simp,
    rule exI, rule exI[of _ "frameRemainingSize d"], simp, rule exI[of _ "dxxh d"], rule exI[of _ "frameRemainingSize d"], simp,
    rule exI[of _ "dxxh d"], rule exI[of _ k], simp)

lemma history_copy_nonneg: "tmpOutBuffer d \<le> tmpOut d \<Longrightarrow> 0 \<le> history_copy d \<and> history_copy d \<le> tmpOut d - tmpOutBuffer d
    \<and> (tmpOutSize d \<le> KB 64 \<longrightarrow> history_copy d \<le> KB 64 - tmpOutSize d) \<and> (tmpOutSize d > KB 64 \<longrightarrow> history_copy d = 0)"
  by (auto simp: history_copy_def)

lemma flush_set_dict:
  assumes "flush_ok d" "x \<noteq> tmpOutBuffer d" "0 \<le> n" "tmpOutStart d + n \<le> tmpOutSize d"
    and "history_copy d = 0 \<or> history_copy d + tmpOutStart d + n \<le> y"
  shows "flush_ok (d\<lparr>ddict := x, ddictSize := y, tmpOutStart := tmpOutStart d + n\<rparr>)"
  using assms by (auto simp: flush_ok_def history_copy_def)

definition updating :: "dcall \<Rightarrow> denv \<Rightarrow> LZ4F_dctx \<Rightarrow> int \<Rightarrow> int \<Rightarrow> bool" where
  "updating c env d dst n \<longleftrightarrow> env_ok c env \<and> ready (heap c) d dst (dstEnd env) \<and> linked d
     \<and> dstStart env \<le> dst \<and> 0 \<le> n \<and> dst + n \<le> dstEnd env \<and> 0 < dst"

lemma updatingD:
  assumes "updating c env d dst n"
  shows "env_ok c env" "ready (heap c) d dst (dstEnd env)" "linked d" "dstStart env \<le> dst" "0 \<le> n" "dst + n \<le> dstEnd env" "0 < dst"
  using assms by (simp_all add: updating_def)

lemma updating_start: "updating c env d dst n \<Longrightarrow> dstStart env \<noteq> 0"
  by (auto simp: updating_def env_ok_def)

lemma dst_out:
  assumes "updating c env d dst n"
  shows "outside (heap c) dst n" "dst \<noteq> tmpOutBuffer d" "dstStart env \<noteq> tmpOutBuffer d" "dst - 1 \<notin> heap c"
proof -
  note env = updatingD(1)[OF assms] and r = updatingD(2)[OF assms] and dst = updatingD(4-7)[OF assms]
  show "outside (heap c) dst n" "dst \<noteq> tmpOutBuffer d" "dstStart env \<noteq> tmpOutBuffer d" "dst - 1 \<notin> heap c"
  using env_okD(2)[OF env] dst tob_in_heap[OF r] dst_not_heap[OF env, of dst] dst_not_heap[OF env, of "dstStart env"]
    dst_not_heap[OF env, of "dst - 1"]
    by (auto elim: outside_part)
qed

lemma prefix_mode:
  assumes u: "updating c env d dst n" and p: "ddictSize d = 0 \<and> x = dst \<or> x = ddict d" "x + ddictSize d = dst"
  shows "ready (heap c) (d\<lparr>ddict := x, ddictSize := ddictSize d + n\<rparr>) (dst + n) (dstEnd env) \<and> x \<noteq> tmpOutBuffer d"
proof -
  note env = updatingD(1)[OF u] and r = updatingD(2)[OF u] and linked = updatingD(3)[OF u] and dst = updatingD(4-7)[OF u]
  note dst_out = dst_out[OF u]
  note assms = p
  show ?thesis
proof (cases "ddictSize d = 0")
  case True
  then have "x = dst" using assms by auto
  then show ?thesis using True dst dst_out by (auto intro!: ready_dict[OF r] simp: dict_out_def apart_def)
next
  case False
  then have x: "x = ddict d" using assms by auto
  have "\<not> in_tmp d"
  proof
    assume i: "in_tmp d"
    then have "dst - 1 \<in> {tmpOutBuffer d..<tmpOutBuffer d + dmaxBufferSize d}" using False assms(2) x by (auto simp: in_tmp_def)
    then show False using tmp_room(2)[OF r] dst_out(4) by (auto simp: owns_iff)
  qed
  then have o: "dict_out (heap c) d dst (dstEnd env)" using r by (simp add: ready_def)
  have "outside (heap c) x (ddictSize d + n)"
  proof -
    have "p < dst \<Longrightarrow> p < ddict d + ddictSize d" for p using assms(2) x by simp
    then show ?thesis using o dst_out(1) x assms(2) unfolding dict_out_def outside_iff by (metis add.assoc linorder_not_less)
  qed
  moreover have "ddict d \<noteq> tmpOutBuffer d" using in_tmp_iff[OF r linked False] \<open>\<not> in_tmp d\<close> by blast
  ultimately show ?thesis using o dst x assms(2)
    by (intro conjI ready_dict[OF r]) (auto simp: dict_out_def apart_def)
qed
qed

lemma whole_output:
  assumes u: "updating c env d dst n"
  shows "ready (heap c) (d\<lparr>ddict := dstStart env, ddictSize := dst - dstStart env + n\<rparr>) (dst + n) (dstEnd env)"
proof -
  note env = updatingD(1)[OF u] and r = updatingD(2)[OF u] and linked = updatingD(3)[OF u] and dst = updatingD(4-7)[OF u]
  note dst_out = dst_out[OF u]
  have "outside (heap c) (dstStart env) (dst - dstStart env + n)"
    using env_okD(2)[OF env] dst by (auto elim: outside_part)
  then show ?thesis using dst updating_start[OF u] by (intro ready_dict[OF r]) (auto simp: dict_out_def apart_def)
qed

lemma to_tmp:
  assumes r: "ready (heap c) d dst e" and linked: "linked d" and "0 \<le> k" "k \<le> dmaxBufferSize d"
  shows "ready (heap c) (d\<lparr>ddict := tmpOutBuffer d, ddictSize := k\<rparr>) a b"
  using assms by (intro ready_dict[OF r]) (simp add: in_tmp_def)

lemma dict_outside:
  assumes r: "ready (heap c) d dst e" and "ddict d \<noteq> tmpOutBuffer d"
  shows "0 \<le> ddictSize d" "outside (heap c) (ddict d) (ddictSize d)"
  using assms by (auto simp: ready_def in_tmp_def dict_out_def)

text \<open>The history is moved in front of the block in \<open>tmpOut\<close>.\<close>

lemma within_tmp:
  assumes u: "updating c env d dst n" and a: "confined c env mem" "ddict d \<noteq> tmpOutBuffer d" "flush_ok d" "tmpOutStart d + n \<le> tmpOutSize d"
  shows "wp (dict_within_tmp d mem n) (dict_post c env d dst n True)"
proof -
  note env = updatingD(1)[OF u] and r = updatingD(2)[OF u] and linked = updatingD(3)[OF u] and dst = updatingD(4-7)[OF u]
  note dst_out = dst_out[OF u]
  note assms = a and to_tmp = to_tmp[OF r linked] and dict_outside = dict_outside[OF r]
  note o = dict_outside[OF assms(2)] and room = tmp_room[OF r]
  have f: "tmpOutBuffer d \<le> tmpOut d" "0 \<le> tmpOutStart d" "tmpOut d - tmpOutBuffer d + tmpOutSize d \<le> dmaxBufferSize d"
    "history_copy d = 0 \<or> history_copy d + tmpOutStart d \<le> ddictSize d"
    using assms(2,3) linked by (auto simp: flush_ok_def)
  note h = history_copy_nonneg[OF f(1)]
  let ?k = "history_copy d" and ?p = "tmpOut d - tmpOutBuffer d"
  let ?d = "d\<lparr>ddict := tmpOutBuffer d, ddictSize := ?p + tmpOutStart d + n\<rparr>"
  have ow: "owns (heap c) (tmpOut d - ?k) ?k" using h f assms(4) dst by (intro owns_part[OF room(2)]) auto
  have "?k \<noteq> 0 \<Longrightarrow> apart (tmpOut d - ?k) ?k (ddict d + ddictSize d - tmpOutStart d - ?k) ?k"
    using f(2,4) by (intro owns_outside[OF ow] outside_part[OF o(2)]) auto
  then have a: "apart (tmpOut d - ?k) ?k (ddict d + ddictSize d - tmpOutStart d - ?k) ?k" by (auto simp: apart_def)
  have "ready (heap c) ?d (dst + n) (dstEnd env)" using f assms(4) dst by (intro to_tmp) auto
  moreover have "flush_ok (?d\<lparr>tmpOutStart := tmpOutStart d + n\<rparr>)" using f assms(4) dst by (simp add: flush_ok_def)
  ultimately have "dict_post c env d dst n True (?d, write_mem mem (tmpOut d - ?k) (read_mem mem' s ?k))"
    for mem' s using confined_copy[OF assms(1) disjI2, OF ow] unfolding dict_post_def by auto
  then show ?thesis using a unfolding dict_within_tmp_def Let_def history_copy_def[symmetric]
    by (simp add: wp_simps)
qed

lemma append_tmp:
  assumes u: "updating c env d dst n" and a: "confined c env mem" "ddict d = tmpOutBuffer d" "ddictSize d \<noteq> 0" "n < KB 64"
  shows "wp (dict_append_tmp d mem dst n) (dict_post c env d dst n False)"
proof -
  note env = updatingD(1)[OF u] and r = updatingD(2)[OF u] and linked = updatingD(3)[OF u] and dst = updatingD(4-7)[OF u]
  note dst_out = dst_out[OF u]
  note assms = a and to_tmp = to_tmp[OF r linked] and dict_outside = dict_outside[OF r]
  note room = tmp_room[OF r]
  have i: "0 \<le> ddictSize d" "ddictSize d \<le> dmaxBufferSize d" using in_tmp_iff[OF r linked assms(3,2)] by (auto simp: in_tmp_def)
  have fin: "apart (tmpOutBuffer d + k) n dst n \<and> (\<forall>mem. confined c env mem \<longrightarrow> dict_post c env d dst n False
      (d\<lparr>ddictSize := k + n\<rparr>, write_mem mem (tmpOutBuffer d + k) (read_mem mem dst n)))" if "0 \<le> k" "k + n \<le> dmaxBufferSize d" for k
  proof -
    have ow: "owns (heap c) (tmpOutBuffer d + k) n" using that by (intro owns_part[OF room(2)]) auto
    have "d\<lparr>ddictSize := k + n\<rparr> = d\<lparr>ddict := tmpOutBuffer d, ddictSize := k + n\<rparr>" using assms(2) by simp
    then show ?thesis using owns_outside[OF ow dst_out(1)] confined_copy[OF _ disjI2, OF _ ow] to_tmp[of "k + n"] that dst
      unfolding dict_post_def by auto
  qed
  show ?thesis
  proof (cases "ddictSize d + n > dmaxBufferSize d")
    case True
    let ?k = "KB 64 - n"
    have "owns (heap c) (tmpOutBuffer d) ?k" using room(4,5) assms(4) dst by (intro owns_part[OF room(2)]) auto
    then have "confined c env (write_mem mem (tmpOutBuffer d) (read_mem mem s ?k))" for s
      using confined_copy[OF assms(1) disjI2] by blast
    moreover have "apart (tmpOutBuffer d) ?k (ddict d + ddictSize d - ?k) ?k"
      using True room(4,6) linked assms(2) dst by (auto simp: apart_def)
    ultimately show ?thesis using True fin[of ?k] room(4,5) assms(4) dst by (simp add: dict_append_tmp_def wp_simps)
  next
    case False
    then show ?thesis using fin[of "ddictSize d"] i assms(1) by (simp add: dict_append_tmp_def wp_simps)
  qed
qed

lemma join_tmp:
  assumes u: "updating c env d dst n" and a: "confined c env mem" "ddict d \<noteq> tmpOutBuffer d" "n < KB 64"
  shows "wp (dict_join_tmp d mem dst n) (dict_post c env d dst n False)"
proof -
  note env = updatingD(1)[OF u] and r = updatingD(2)[OF u] and linked = updatingD(3)[OF u] and dst = updatingD(4-7)[OF u]
  note dst_out = dst_out[OF u]
  note assms = a and to_tmp = to_tmp[OF r linked] and dict_outside = dict_outside[OF r]
  note o = dict_outside[OF assms(2)] and room = tmp_room[OF r]
  let ?k = "min (KB 64 - n) (ddictSize d)"
  have k: "0 \<le> ?k" "?k + n \<le> dmaxBufferSize d" "?k \<le> ddictSize d" using o(1) assms(3) room(4,5) dst by auto
  have ow: "owns (heap c) (tmpOutBuffer d) ?k" "owns (heap c) (tmpOutBuffer d + ?k) n"
    using k dst by (auto intro: owns_part[OF room(2)])
  have "apart (tmpOutBuffer d) ?k (ddict d + ddictSize d - ?k) ?k"
    using k o by (intro owns_outside[OF ow(1)] outside_part[OF o(2)]) auto
  moreover have "ready (heap c) (d\<lparr>ddict := tmpOutBuffer d, ddictSize := ?k + n\<rparr>) (dst + n) (dstEnd env)"
    using k dst by (intro to_tmp) auto
  moreover have "confined c env (write_mem (write_mem mem (tmpOutBuffer d) (read_mem mem s ?k)) (tmpOutBuffer d + ?k) (read_mem mem' s' n))" for s mem' s'
    using confined_copy[OF confined_copy[OF assms(1) disjI2, OF ow(1)] disjI2, OF ow(2)] by blast
  moreover have "apart (tmpOutBuffer d + ?k) n dst n" by (rule owns_outside[OF ow(2) dst_out(1)])
  ultimately show ?thesis unfolding dict_join_tmp_def Let_def by (auto simp: wp_simps dict_post_def)
qed

lemma flush_prefix:
  assumes "flush_ok d" "linked d" "0 \<le> n" "ddict d \<noteq> tmpOutBuffer d \<or> ddictSize d = 0"
  shows "history_copy d = 0 \<or> history_copy d + tmpOutStart d + n \<le> ddictSize d + n"
proof -
  have f: "tmpOutBuffer d \<le> tmpOut d" "0 \<le> tmpOutStart d" using assms(1) by (auto simp: flush_ok_def)
  note h = history_copy_nonneg[OF f(1)]
  show ?thesis
  proof (cases "ddict d = tmpOutBuffer d")
    case True
    then have "tmpOut d = tmpOutBuffer d" using assms f by (auto simp: flush_ok_def)
    then show ?thesis using h by simp
  next
    case False
    then show ?thesis using assms by (auto simp: flush_ok_def)
  qed
qed

lemma updateDict_ok:
  assumes u: "updating c env d dst n" and m: "confined c env mem"
    and w: "within \<Longrightarrow> flush_ok d \<and> tmpOutStart d + n \<le> tmpOutSize d"
  shows "wp (LZ4F_updateDict d mem dst n (dstStart env) within) (dict_post c env d dst n within)"
proof (cases "ddictSize d = 0")
  case True
  note p = prefix_mode[OF u, of dst] and r = updatingD[OF u]
  have "within \<Longrightarrow> flush_ok (d\<lparr>ddict := dst, ddictSize := n, tmpOutStart := tmpOutStart d + n\<rparr>)"
    using flush_set_dict[of d dst n n] flush_prefix[of d n] p True w r(3,5) by auto
  then have "dict_post c env d dst n within (d\<lparr>ddict := dst, ddictSize := n\<rparr>, mem)"
    using p True m unfolding dict_post_def by auto
  then show ?thesis using True by (simp add: LZ4F_updateDict_def wp_simps)
next
  case False
  note r = updatingD[OF u] and o = dst_out[OF u]
  consider (prefix) "ddict d + ddictSize d = dst"
    | (whole) "ddict d + ddictSize d \<noteq> dst" "dst - dstStart env + n \<ge> KB 64"
    | (extend) "ddict d + ddictSize d \<noteq> dst" "dst - dstStart env + n < KB 64" "within" "ddict d = tmpOutBuffer d"
    | (move) "ddict d + ddictSize d \<noteq> dst" "dst - dstStart env + n < KB 64" "within" "ddict d \<noteq> tmpOutBuffer d"
    | (append) "ddict d + ddictSize d \<noteq> dst" "dst - dstStart env + n < KB 64" "\<not> within" "ddict d = tmpOutBuffer d"
    | (join) "ddict d + ddictSize d \<noteq> dst" "dst - dstStart env + n < KB 64" "\<not> within" "ddict d \<noteq> tmpOutBuffer d"
    by linarith
  then show ?thesis
  proof cases
    case prefix
    note p = prefix_mode[OF u, of "ddict d"]
    have e: "d\<lparr>ddictSize := ddictSize d + n\<rparr> = d\<lparr>ddict := ddict d, ddictSize := ddictSize d + n\<rparr>" by simp
    have "within \<Longrightarrow> flush_ok (d\<lparr>ddict := ddict d, ddictSize := ddictSize d + n, tmpOutStart := tmpOutStart d + n\<rparr>)"
      using flush_set_dict[of d "ddict d" n "ddictSize d + n"] flush_prefix[of d n] p prefix w r(3,5) by auto
    then have "dict_post c env d dst n within (d\<lparr>ddictSize := ddictSize d + n\<rparr>, mem)"
      unfolding dict_post_def e using p prefix m by auto
    then show ?thesis using False prefix by (simp add: LZ4F_updateDict_def wp_simps)
  next
    case whole
    let ?y = "dst - dstStart env + n"
    have "within \<Longrightarrow> flush_ok (d\<lparr>ddict := dstStart env, ddictSize := ?y, tmpOutStart := tmpOutStart d + n\<rparr>)"
    proof -
      assume within
      then have f: "flush_ok d" "tmpOutStart d + n \<le> tmpOutSize d" using w by auto
      then have "tmpOutBuffer d \<le> tmpOut d" by (simp add: flush_ok_def)
      from history_copy_nonneg[OF this] show ?thesis using f o(3) whole(2) r(5) by (intro flush_set_dict) auto
    qed
    then have "dict_post c env d dst n within (d\<lparr>ddict := dstStart env, ddictSize := ?y\<rparr>, mem)"
      unfolding dict_post_def using whole_output[OF u] m by auto
    then show ?thesis using False whole by (simp add: LZ4F_updateDict_def wp_simps)
  next
    case extend
    then have f: "flush_ok d" "tmpOutStart d + n \<le> tmpOutSize d" using w by auto
    have e: "d\<lparr>ddictSize := ddictSize d + n\<rparr> = d\<lparr>ddict := tmpOutBuffer d, ddictSize := ddictSize d + n\<rparr>" using extend(4) by simp
    have "ready (heap c) (d\<lparr>ddictSize := ddictSize d + n\<rparr>) (dst + n) (dstEnd env)"
      unfolding e using f extend(4) r(3,5) by (intro to_tmp[OF r(2,3)]) (auto simp: flush_ok_def)
    moreover have "flush_ok (d\<lparr>ddictSize := ddictSize d + n, tmpOutStart := tmpOutStart d + n\<rparr>)"
      using f extend(4) r(3,5) by (simp add: flush_ok_def)
    ultimately have "dict_post c env d dst n within (d\<lparr>ddictSize := ddictSize d + n\<rparr>, mem)"
      unfolding dict_post_def using m e by auto
    then show ?thesis using False extend by (simp add: LZ4F_updateDict_def wp_simps)
  next
    case move
    then show ?thesis using within_tmp[OF u m] w False by (simp add: LZ4F_updateDict_def wp_simps)
  next
    case append
    then have "n < KB 64" using r(4) by simp
    then show ?thesis using append_tmp[OF u m] append False by (simp add: LZ4F_updateDict_def wp_simps)
  next
    case join
    then have "n < KB 64" using r(4) by simp
    then show ?thesis using join_tmp[OF u m] join False by (simp add: LZ4F_updateDict_def wp_simps)
  qed
qed

section \<open>Checksums\<close>

lemma checksum_update_ok:
  assumes "XXH32_holds 0 s xs"
  shows "\<exists>s'. checksum_update machine s bs = Some s' \<and> XXH32_holds 0 s' (xs @ bs)"
  using xxh32.update_holds[OF assms TrueI, of machine bs] by (simp add: update32_def checksum_update_def)

lemma digest_ok: "XXH32_holds 0 s xs \<Longrightarrow> XXH32_digest machine s = Some (xxh32 0 xs)"
  by (rule xxh32.digest_holds)

lemma account_ok:
  assumes "ready H d a b"
  shows "wp (account env d bs) (\<lambda>d'. \<exists>x n. d' = d\<lparr>dxxh := x, frameRemainingSize := n\<rparr> \<and> ready H d' a b)"
proof (cases "has_contentsum d \<and> \<not> skipChecksum d")
  case True
  then obtain xs where "XXH32_holds 0 (dxxh d) xs" using assms by (auto simp: ready_def)
  from checksum_update_ok[OF this, of "dmachine env" bs] obtain s' where s':
    "checksum_update (dmachine env) (dxxh d) bs = Some s'" "XXH32_holds 0 s' (xs @ bs)" by blast
  have "ready H (d\<lparr>dxxh := s'\<rparr>) a b" using s'(2) by (intro ready_sum[OF assms]) blast
  then show ?thesis using True s'(1) by (auto simp: account_def wp_simps)
next
  case False
  have "ready H (d\<lparr>dxxh := dxxh d\<rparr>) a b" using assms by (intro ready_sum[OF assms]) (auto simp: ready_def)
  then show ?thesis using False by (auto simp: account_def wp_simps)
qed

section \<open>Frame header\<close>

lemma base_fields [simp]:
  "base_ok H (d\<lparr>dStage := s\<rparr>) = base_ok H d" "base_ok H (d\<lparr>blockChecksum := x\<rparr>) = base_ok H d"
  "base_ok H (d\<lparr>tmpOutStart := n\<rparr>) = base_ok H d" "base_ok H (d\<lparr>tmpOutSize := n\<rparr>) = base_ok H d"
  "base_ok H (d\<lparr>tmpOut := n\<rparr>) = base_ok H d" "base_ok H (d\<lparr>ddict := n\<rparr>) = base_ok H d" "base_ok H (d\<lparr>ddictSize := n\<rparr>) = base_ok H d"
  "base_ok H (d\<lparr>dxxh := x\<rparr>) = base_ok H d" "base_ok H (d\<lparr>frameRemainingSize := n\<rparr>) = base_ok H d"
  "base_ok H (d\<lparr>dframeInfo := fi\<rparr>) = base_ok H d" "base_ok H (d\<lparr>skipChecksum := b\<rparr>) = base_ok H d"
  "0 \<le> n \<Longrightarrow> base_ok H d \<Longrightarrow> base_ok H (d\<lparr>dtmpInSize := n\<rparr>)" "0 \<le> n \<Longrightarrow> base_ok H d \<Longrightarrow> base_ok H (d\<lparr>dtmpInTarget := n\<rparr>)"
  "length h = 19 \<Longrightarrow> base_ok H d \<Longrightarrow> base_ok H (d\<lparr>dheader := h\<rparr>)"
  by (simp_all add: base_ok_def alloc_ok_def tmp_ok_def)

lemma dict_out_fields [simp]:
  "dict_out H (d\<lparr>dStage := s\<rparr>) a b = dict_out H d a b" "dict_out H (d\<lparr>dtmpInSize := n\<rparr>) a b = dict_out H d a b"
  "dict_out H (d\<lparr>dtmpInTarget := n\<rparr>) a b = dict_out H d a b" "dict_out H (d\<lparr>dheader := h\<rparr>) a b = dict_out H d a b"
  by (simp_all add: dict_out_def)

lemma usub_diff: "b \<le> a \<Longrightarrow> a - b < 2 ^ 64 \<Longrightarrow> usub a b = a - b"
  by (simp add: usub_def)

lemma readLE32_take: "4 \<le> n \<Longrightarrow> LZ4F_readLE32 (take n xs) 0 = LZ4F_readLE32 xs 0"
  by (auto simp: LZ4F_readLE32_def ld_def in_buf_def at_def)

lemma header_step:
  assumes p: "header_post d src ih r d'" and b: "base_ok H d" and o: "dict_out H d x y" and n: "7 \<le> length src" "length src \<le> 19 \<or> \<not> ih"
    and ih: "ih \<Longrightarrow> src = take (length src) (dheader d)" "ih \<Longrightarrow> 7 < length src \<Longrightarrow> LZ4F_readLE32 (dheader d) 0 = Some LZ4F_MAGICNUMBER"
  shows "base_ok H d'" "\<not> isl r \<Longrightarrow> stage_ok H d' x y" "\<not> isl r \<Longrightarrow> dStage d' \<noteq> dstage_getFrameHeader"
proof -
  have sb: "same_buffers d d'" using p by (simp add: header_post_def)
  then have o': "dict_out H d' x y" using o by (simp add: same_buffers_def dict_out_def)
  have al: "alloc_ok H d'" "length (dheader d') = 19" using b sb by (auto simp: base_ok_def alloc_ok_def tmp_ok_def same_buffers_def)
  show "base_ok H d'"
    using p b al n by (cases r) (auto simp: header_post_def base_ok_def)
  show "\<not> isl r \<Longrightarrow> dStage d' \<noteq> dstage_getFrameHeader" using p by (cases r) (auto simp: header_post_def)
  assume "\<not> isl r"
  then obtain k where r: "r = Inr k" by (cases r) auto
  have magic: "LZ4F_readLE32 src 0 = LZ4F_readLE32 (dheader d) 0" if ih
    using ih(1)[OF that] n readLE32_take[of "length src" "dheader d"] by simp
  consider (init) "dStage d' = dstage_init" "4 \<le> blockSizeID (dframeInfo d')" "blockSizeID (dframeInfo d') \<le> 7"
      "dmaxBlockSize d' = as_size_t (LZ4F_getBlockSize (blockSizeID (dframeInfo d')))"
    | (skip) "dStage d' = dstage_getSFrameSize"
    | (store_skip) "dStage d' = dstage_storeSFrameSize" "ih" "dtmpInSize d' = int (length src)" "dtmpInTarget d' = 8"
        "LZ4F_readLE32 src 0 \<noteq> Some LZ4F_MAGICNUMBER"
    | (store) "dStage d' = dstage_storeFrameHeader" "dtmpInSize d' = int (length src)" "int (length src) < dtmpInTarget d'" "dtmpInTarget d' \<le> 19"
        "LZ4F_readLE32 src 0 = Some LZ4F_MAGICNUMBER" "if ih then dheader d' = dheader d else take (length src) (dheader d') = src"
    using p r by (auto simp: header_post_def)
  then show "stage_ok H d' x y"
  proof cases
    case init
    then have "blockSizeID (dframeInfo d') \<in> {4, 5, 6, 7}" by auto
    then show ?thesis using init o' by (auto simp: stage_ok_def block_sizes_def as_size_t_def LZ4F_getBlockSize_def)
  next
    case skip
    then show ?thesis by (simp add: stage_ok_def)
  next
    case store_skip
    then have "length src = 7" using magic ih(2) n(1) by (metis le_neq_implies_less)
    then show ?thesis using store_skip by (simp add: stage_ok_def)
  next
    case store
    have "LZ4F_readLE32 (dheader d') 0 = Some LZ4F_MAGICNUMBER"
    proof (cases ih)
      case True
      then show ?thesis using store(5,6) magic by simp
    next
      case False
      then show ?thesis using store(5,6) n(1) readLE32_take[of "length src" "dheader d'"] by simp
    qed
    then show ?thesis using store o' n by (simp add: stage_ok_def)
  qed
qed

lemma moving_update:
  "moving c env l \<Longrightarrow> base_ok (heap c) d \<Longrightarrow> moving c env (l\<lparr>lctx := d\<rparr>)"
  "moving c env (l\<lparr>nextSrcSizeHint := h\<rparr>) = moving c env l"
  "moving c env l \<Longrightarrow> 0 \<le> n \<Longrightarrow> srcPtr l + n \<le> srcEnd env \<Longrightarrow> moving c env (l\<lparr>srcPtr := srcPtr l + n\<rparr>)"
  by (auto simp: moving_def)

lemma fill_header_ok:
  assumes m: "moving c env l" and w: "0 \<le> w" "dtmpInSize (lctx l) + w \<le> 19"
  shows "wp (fill_header env l w) (\<lambda>l'. \<exists>hdr n. n = min w (srcEnd env - srcPtr l) \<and> 0 \<le> n \<and> length hdr = 19
    \<and> take (nat (dtmpInSize (lctx l))) hdr = take (nat (dtmpInSize (lctx l))) (dheader (lctx l)) \<and> moving c env l'
    \<and> l' = l\<lparr>lctx := (lctx l)\<lparr>dheader := hdr, dtmpInSize := dtmpInSize (lctx l) + n\<rparr>, srcPtr := srcPtr l + n\<rparr>)"
proof -
  let ?n = "min w (srcEnd env - srcPtr l)" and ?d = "lctx l"
  let ?hdr = "upd (dheader ?d) (dtmpInSize ?d) (read_mem (lmem l) (srcPtr l) ?n)"
  have b: "length (dheader ?d) = 19" "0 \<le> dtmpInSize ?d" "base_ok (heap c) ?d" using m by (auto simp: moving_def base_ok_def)
  have n: "0 \<le> ?n" "dtmpInSize ?d + ?n \<le> 19" "srcPtr l + ?n \<le> srcEnd env" using m w by (auto simp: moving_def)
  then have ib: "in_buf (dheader ?d) (dtmpInSize ?d) (int (length (read_mem (lmem l) (srcPtr l) ?n)))"
    unfolding length_read_mem using b by (simp add: in_buf_def)
  have len: "length ?hdr = 19" "take (nat (dtmpInSize ?d)) ?hdr = take (nat (dtmpInSize ?d)) (dheader ?d)"
    using b n by (auto simp: upd_def min_def)
  let ?l = "l\<lparr>lctx := ?d\<lparr>dheader := ?hdr, dtmpInSize := dtmpInSize ?d + ?n\<rparr>, srcPtr := srcPtr l + ?n\<rparr>"
  have m': "moving c env ?l" using m n len b by (auto simp: moving_def)
  have eq: "fill_header env l w = Some ?l" using ib by (simp add: fill_header_def wrn_def Let_def)
  show ?thesis unfolding eq wp_Some by (rule exI[of _ ?hdr], rule exI[of _ ?n], intro conjI refl n(1) len m')
qed

lemma moving_in_range: "moving c env l \<Longrightarrow> in_range env l"
  by (simp add: moving_def in_range_def base_ok_def)

lemma storeFrameHeader_ok:
  assumes l: "loop_ok c env l" and s: "dStage (lctx l) = dstage_storeFrameHeader"
  shows "wp (stage_storeFrameHeader env l) (step_ok c env)"
proof -
  let ?d = "lctx l"
  have m: "moving c env l" and o: "dict_out (heap c) ?d (dstPtr l) (dstEnd env)" and t: "dtmpInSize ?d \<le> dtmpInTarget ?d" "7 \<le> dtmpInTarget ?d"
    "dtmpInTarget ?d \<le> 19" "7 < dtmpInTarget ?d \<longrightarrow> 7 \<le> dtmpInSize ?d \<and> LZ4F_readLE32 (dheader ?d) 0 = Some LZ4F_MAGICNUMBER"
    using l s by (auto simp: loop_ok_def stage_ok_def)
  have z: "0 \<le> dtmpInSize ?d" using m by (simp add: moving_def base_ok_def)
  have u: "usub (dtmpInTarget ?d) (dtmpInSize ?d) = dtmpInTarget ?d - dtmpInSize ?d" using t z by (intro usub_diff) auto
  have "wp (fill_header env l (dtmpInTarget ?d - dtmpInSize ?d)) (\<lambda>l1. moving c env l1 \<and> dtmpInTarget (lctx l1) = dtmpInTarget ?d
      \<and> dtmpInSize (lctx l1) \<le> dtmpInTarget ?d \<and> dStage (lctx l1) = dstage_storeFrameHeader \<and> dstPtr l1 = dstPtr l
      \<and> dict_out (heap c) (lctx l1) (dstPtr l) (dstEnd env)
      \<and> (7 < dtmpInTarget ?d \<longrightarrow> 7 \<le> dtmpInSize (lctx l1) \<and> LZ4F_readLE32 (dheader (lctx l1)) 0 = Some LZ4F_MAGICNUMBER))" (is "wp _ ?Q")
  proof (rule wp_mono[OF fill_header_ok[OF m]])
    fix l1 assume "\<exists>hdr n. n = min (dtmpInTarget ?d - dtmpInSize ?d) (srcEnd env - srcPtr l) \<and> 0 \<le> n \<and> length hdr = 19
      \<and> take (nat (dtmpInSize ?d)) hdr = take (nat (dtmpInSize ?d)) (dheader ?d) \<and> moving c env l1
      \<and> l1 = l\<lparr>lctx := ?d\<lparr>dheader := hdr, dtmpInSize := dtmpInSize ?d + n\<rparr>, srcPtr := srcPtr l + n\<rparr>"
    then obtain hdr n where n: "n = min (dtmpInTarget ?d - dtmpInSize ?d) (srcEnd env - srcPtr l)" and h: "0 \<le> n" "take (nat (dtmpInSize ?d)) hdr = take (nat (dtmpInSize ?d)) (dheader ?d)"
      "moving c env l1" "l1 = l\<lparr>lctx := ?d\<lparr>dheader := hdr, dtmpInSize := dtmpInSize ?d + n\<rparr>, srcPtr := srcPtr l + n\<rparr>" by blast
    have "n \<le> dtmpInTarget ?d - dtmpInSize ?d" using n by simp
    have "LZ4F_readLE32 hdr 0 = LZ4F_readLE32 (dheader ?d) 0" if "7 \<le> dtmpInSize ?d"
      using that h(2) readLE32_take[of "nat (dtmpInSize ?d)" hdr] readLE32_take[of "nat (dtmpInSize ?d)" "dheader ?d"] by simp
    then show "?Q l1" using h t o s \<open>n \<le> dtmpInTarget ?d - dtmpInSize ?d\<close> by auto
  qed (use t z in auto)
  then show ?thesis unfolding stage_storeFrameHeader_def u wp_bind wp_Let
  proof (rule wp_mono)
    fix l1 assume q: "?Q l1"
    let ?e = "lctx l1"
    have b: "base_ok (heap c) ?e" "length (dheader ?e) = 19" using q by (auto simp: moving_def base_ok_def)
    show "wp (if dtmpInSize ?e < dtmpInTarget ?e then Some (Stop (l1\<lparr>nextSrcSizeHint := dtmpInTarget ?e - dtmpInSize ?e + BHSize\<rparr>))
      else do { hdr \<leftarrow> rdn (dheader ?e) 0 (dtmpInTarget ?e); (r, d) \<leftarrow> LZ4F_decodeHeader (dmachine env) ?e hdr True;
        (case r of Inl e \<Rightarrow> Some (Return (Inl e) (l1\<lparr>lctx := d\<rparr>)) | Inr n \<Rightarrow> Some (Again (l1\<lparr>lctx := d\<rparr>))) }) (step_ok c env)"
    proof (cases "dtmpInSize ?e < dtmpInTarget ?e")
      case True
      then show ?thesis using q t by (simp add: wp_simps step_ok_def loop_ok_def stage_ok_def moving_update(2))
    next
      case False
      let ?src = "take (nat (dtmpInTarget ?e)) (dheader ?e)"
      have r: "rdn (dheader ?e) 0 (dtmpInTarget ?e) = Some ?src" using q b(2) t by (simp add: rdn_def in_buf_def seg_def)
      have ls: "length ?src = nat (dtmpInTarget ?e)" using b(2) q t(3) by simp
      have f: "7 \<le> length ?src" "length ?src \<le> 19" "?src = take (length ?src) (dheader ?e)"
        "7 < length ?src \<Longrightarrow> LZ4F_readLE32 (dheader ?e) 0 = Some LZ4F_MAGICNUMBER"
        unfolding ls using q t by auto
      have q': "dict_out (heap c) ?e (dstPtr l1) (dstEnd env) \<and> True" using q by simp
      have "case s of (r, d) \<Rightarrow> header_post ?e ?src True r d \<Longrightarrow> wp (case s of (r, d) \<Rightarrow>
          (case r of Inl e \<Rightarrow> Some (Return (Inl e) (l1\<lparr>lctx := d\<rparr>)) | Inr n \<Rightarrow> Some (Again (l1\<lparr>lctx := d\<rparr>)))) (step_ok c env)" for s
      proof -
        obtain r d where s: "s = (r, d)" by (cases s)
        assume "case s of (r, d) \<Rightarrow> header_post ?e ?src True r d"
        then have p: "header_post ?e ?src True r d" by (simp add: s)
        have "base_ok (heap c) d" "\<not> isl r \<Longrightarrow> stage_ok (heap c) d (dstPtr l1) (dstEnd env)" "\<not> isl r \<Longrightarrow> dStage d \<noteq> dstage_getFrameHeader"
          using header_step[OF p b(1) q'[THEN conjunct1] f(1) disjI1[OF f(2)] f(3) f(4)] q by auto
        then show ?thesis using q moving_update(1)[of c env l1 d] by (cases r) (auto simp: s wp_simps step_ok_def loop_ok_def)
      qed
      with decodeHeader_ok[OF b(2), of "dmachine env" ?src True] show ?thesis
        using False r by (simp add: wp_bind wp_Some) (rule wp_mono)
    qed
  qed
qed

lemma getFrameHeader_ok:
  assumes l: "loop_ok c env l" and s: "dStage (lctx l) = dstage_getFrameHeader"
  shows "wp (stage_getFrameHeader env l) (step_ok c env)"
proof (cases "srcEnd env - srcPtr l \<ge> maxFHSize")
  case True
  let ?d = "lctx l" and ?src = "read_mem (lmem l) (srcPtr l) (srcEnd env - srcPtr l)"
  have m: "moving c env l" and o: "dict_out (heap c) ?d (dstPtr l) (dstEnd env)" using l s by (auto simp: loop_ok_def stage_ok_def)
  have b: "base_ok (heap c) ?d" "length (dheader ?d) = 19" using m by (auto simp: moving_def base_ok_def)
  have "case s of (r, d) \<Rightarrow> header_post ?d ?src False r d \<Longrightarrow> wp (case s of (r, d) \<Rightarrow> (case r of Inl e \<Rightarrow> Some (Return (Inl e) (l\<lparr>lctx := d\<rparr>))
        | Inr hSize \<Rightarrow> Some (Again (l\<lparr>lctx := d, srcPtr := srcPtr l + hSize\<rparr>)))) (step_ok c env)" for s
  proof -
    obtain r d where s: "s = (r, d)" by (cases s)
    assume "case s of (r, d) \<Rightarrow> header_post ?d ?src False r d"
    then have p: "header_post ?d ?src False r d" by (simp add: s)
    note h = header_step[OF p b(1) o]
    have "moving c env (l\<lparr>lctx := d, srcPtr := srcPtr l + n\<rparr>)" if "r = Inr n" for n
      using p that m h(1) True by (auto simp: header_post_def moving_def)
    then show ?thesis using h m True moving_update(1)[OF m, of d] by (cases r) (auto simp: s wp_simps step_ok_def loop_ok_def)
  qed
  with decodeHeader_ok[OF b(2), of "dmachine env" ?src False] show ?thesis
    using True by (simp add: stage_getFrameHeader_def wp_bind) (rule wp_mono)
next
  case False
  let ?l = "l\<lparr>lctx := (lctx l)\<lparr>dtmpInSize := 0\<rparr>\<rparr>"
  have m: "moving c env l" and o: "dict_out (heap c) (lctx l) (dstPtr l) (dstEnd env)" using l s by (auto simp: loop_ok_def stage_ok_def)
  then have b: "base_ok (heap c) (lctx l)" by (simp add: moving_def)
  have 1: "loop_ok c env ?l" using m o b s by (auto simp: loop_ok_def stage_ok_def intro: moving_update)
  have "loop_ok c env (?l\<lparr>lctx := (lctx ?l)\<lparr>dtmpInTarget := minFHSize, dStage := dstage_storeFrameHeader\<rparr>\<rparr>)"
    using m o b by (auto simp: loop_ok_def stage_ok_def intro!: moving_update)
  from storeFrameHeader_ok[OF this] show ?thesis using False 1 s by (simp add: stage_getFrameHeader_def Let_def wp_simps step_ok_def)
qed

section \<open>Block header\<close>

lemma readyD: "ready H d a b \<Longrightarrow> dmaxBlockSize d \<in> block_sizes"
  by (simp add: ready_def)

lemma fill_tmpIn_owned:
  assumes e: "env_ok c env" and m: "moving c env l" and r: "owns (heap c) (dtmpIn (lctx l)) (dmaxBlockSize (lctx l) + 4)"
    and w: "0 \<le> w" "dtmpInSize (lctx l) + w \<le> dmaxBlockSize (lctx l) + 4"
  shows "wp (fill_tmpIn env l w) (\<lambda>l'. \<exists>mem n. n = min w (srcEnd env - srcPtr l) \<and> 0 \<le> n \<and> moving c env l'
    \<and> l' = l\<lparr>lmem := mem, lctx := (lctx l)\<lparr>dtmpInSize := dtmpInSize (lctx l) + n\<rparr>, srcPtr := srcPtr l + n\<rparr>)"
proof -
  let ?n = "min w (srcEnd env - srcPtr l)" and ?d = "lctx l"
  have b: "0 \<le> dtmpInSize ?d" "base_ok (heap c) ?d" "confined c env (lmem l)" using m by (auto simp: moving_def base_ok_def)
  have n: "0 \<le> ?n" "dtmpInSize ?d + ?n \<le> dmaxBlockSize ?d + 4" "srcPtr l + ?n \<le> srcEnd env" "srcStart c \<le> srcPtr l" using m w by (auto simp: moving_def)
  have ow: "owns (heap c) (dtmpIn ?d + dtmpInSize ?d) ?n" using n b by (intro owns_part[OF r]) auto
  have "outside (heap c) (srcPtr l) ?n" using n by (intro outside_part[OF env_okD(1)[OF e]]) auto
  then have ap: "apart (dtmpIn ?d + dtmpInSize ?d) ?n (srcPtr l) ?n" by (rule owns_outside[OF ow])
  let ?mem = "write_mem (lmem l) (dtmpIn ?d + dtmpInSize ?d) (read_mem (lmem l) (srcPtr l) ?n)"
  let ?l = "l\<lparr>lmem := ?mem, lctx := ?d\<lparr>dtmpInSize := dtmpInSize ?d + ?n\<rparr>, srcPtr := srcPtr l + ?n\<rparr>"
  have "confined c env ?mem" by (rule confined_copy[OF b(3) disjI2, OF ow])
  then have m': "moving c env ?l" using m n b by (auto simp: moving_def)
  have eq: "fill_tmpIn env l w = Some ?l" using ap by (simp add: fill_tmpIn_def copy_mem_def Let_def)
  show ?thesis unfolding eq wp_Some by (rule exI[of _ ?mem], rule exI[of _ ?n], intro conjI refl n(1) m')
qed

lemmas fill_tmpIn_ok = fill_tmpIn_owned[OF _ _ tmp_room(1)]

lemma read32_mem_value: "read32_mem mem a = Some (le_word (read_mem mem a 4))"
  by (simp add: read32_mem_def readLE32_le_word in_buf_def seg_def)

lemma and_mask31: "uint (x AND 0x7FFFFFFF :: u32) \<ge> 0"
  by simp

lemma decode_block_header_ok:
  assumes m: "moving c env l" and r: "ready (heap c) (lctx l) (dstPtr l) (dstEnd env)"
  shows "wp (decode_block_header env l sel) (step_ok c env)"
proof -
  let ?d = "lctx l" and ?h = "le_word (read_mem (lmem l) sel 4) :: u32"
  have b: "base_ok (heap c) ?d" using m by (simp add: moving_def)
  have mv: "moving c env (l\<lparr>lctx := d\<rparr>)" if "base_ok (heap c) d" for d using moving_update(1)[OF m that] .
  show ?thesis
    unfolding decode_block_header_def read32_mem_value bind.bind_lunit Let_def wp_if wp_Some
    using r b m reset_holds[of 0]
    by (auto simp: step_ok_def loop_ok_def stage_ok_def blocksum_ok_def moving_update(2) intro!: mv ready_no_dict)
qed

lemma storeBlockHeader_ok:
  assumes e: "env_ok c env" and l: "loop_ok c env l" and s: "dStage (lctx l) = dstage_storeBlockHeader"
  shows "wp (stage_storeBlockHeader env l) (step_ok c env)"
proof -
  let ?d = "lctx l"
  have m: "moving c env l" and r: "ready (heap c) ?d (dstPtr l) (dstEnd env)" and t: "dtmpInSize ?d \<le> 4"
    using l s by (auto simp: loop_ok_def stage_ok_def)
  have z: "0 \<le> dtmpInSize ?d" using m by (simp add: moving_def base_ok_def)
  have u: "usub BHSize (dtmpInSize ?d) = 4 - dtmpInSize ?d" using t z by (intro usub_diff) auto
  have "0 \<le> 4 - dtmpInSize ?d" "dtmpInSize ?d + (4 - dtmpInSize ?d) \<le> dmaxBlockSize ?d + 4"
    using t tmp_room(4)[OF r] by auto
  from fill_tmpIn_ok[OF e m r this] show ?thesis unfolding stage_storeBlockHeader_def u wp_bind
  proof (rule wp_mono, elim exE conjE)
    fix l1 mem n assume h: "n = min (4 - dtmpInSize ?d) (srcEnd env - srcPtr l)" "0 \<le> n" "moving c env l1"
      "l1 = l\<lparr>lmem := mem, lctx := ?d\<lparr>dtmpInSize := dtmpInSize ?d + n\<rparr>, srcPtr := srcPtr l + n\<rparr>"
    have r1: "ready (heap c) (lctx l1) (dstPtr l1) (dstEnd env)" using r h(4) by simp
    have "loop_ok c env (l1\<lparr>nextSrcSizeHint := x\<rparr>) \<and> dStage (lctx l1) \<noteq> dstage_init" for x
      using h(1,3,4) r1 s by (simp add: loop_ok_def stage_ok_def moving_update(2))
    then show "wp (if dtmpInSize (lctx l1) < BHSize then Some (Stop (l1\<lparr>nextSrcSizeHint := BHSize - dtmpInSize (lctx l1)\<rparr>))
       else decode_block_header env l1 (dtmpIn (lctx l1))) (step_ok c env)"
      using decode_block_header_ok[OF h(3) r1] by (simp add: wp_simps step_ok_def)
  qed
qed

lemma getBlockHeader_ok:
  assumes e: "env_ok c env" and l: "loop_ok c env l" and s: "dStage (lctx l) = dstage_getBlockHeader"
  shows "wp (stage_getBlockHeader env l) (step_ok c env)"
proof -
  have m: "moving c env l" and r: "ready (heap c) (lctx l) (dstPtr l) (dstEnd env)" using l s by (auto simp: loop_ok_def stage_ok_def)
  then have b: "base_ok (heap c) (lctx l)" by (simp add: moving_def)
  let ?l = "l\<lparr>lctx := (lctx l)\<lparr>dtmpInSize := 0, dStage := dstage_storeBlockHeader\<rparr>\<rparr>"
  have "loop_ok c env ?l" using m r b by (auto simp: loop_ok_def stage_ok_def intro!: moving_update)
  note store = storeBlockHeader_ok[OF e this]
  show ?thesis
  proof (cases "srcEnd env - srcPtr l \<ge> BHSize")
    case True
    then have "moving c env (l\<lparr>srcPtr := srcPtr l + BHSize\<rparr>)" using moving_update(3)[OF m, of BHSize] by simp
    from decode_block_header_ok[OF this] show ?thesis using True r by (simp add: stage_getBlockHeader_def)
  next
    case False
    then show ?thesis using store by (simp add: stage_getBlockHeader_def)
  qed
qed

lemma init_buffers_ok:
  assumes e: "env_ok c env" and b: "base_ok (heap c) d" and o: "dict_out (heap c) d x y" and s: "dmaxBlockSize d \<in> block_sizes"
  shows "case init_buffers env d of Inl (_, d') \<Rightarrow> base_ok (heap c) d' | Inr d' \<Rightarrow> base_ok (heap c) d' \<and> tmp_ok (heap c) d'
    \<and> bufferNeeded d' \<le> dmaxBufferSize d' \<and> (\<exists>i t n. d' = d\<lparr>dtmpIn := i, tmpOutBuffer := t, dmaxBufferSize := n\<rparr>)"
proof (cases "bufferNeeded d > dmaxBufferSize d")
  case True
  let ?i = "malloc_in env (dmaxBlockSize d + 4)" and ?t = "malloc_out env (bufferNeeded d)"
  have a: "?i = 0 \<or> owns (heap c) ?i (dmaxBlockSize d + 4)" "?t = 0 \<or> owns (heap c) ?t (bufferNeeded d)"
    "apart ?i (dmaxBlockSize d + 4) ?t (bufferNeeded d)"
    using e s by (auto simp: env_ok_def)
  have "tmp_ok (heap c) (d\<lparr>dtmpIn := ?i, tmpOutBuffer := ?t, dmaxBufferSize := bufferNeeded d\<rparr>)" if "?i \<noteq> 0" "?t \<noteq> 0"
    using a s that by (auto simp: tmp_ok_def intro!: bexI[of _ "dmaxBlockSize d"])
  then show ?thesis using True b by (auto simp: init_buffers_def Let_def base_ok_def alloc_ok_def)
next
  case False
  then have "dmaxBufferSize d \<noteq> 0" using block_sizes_pos[OF s] by (auto split: if_splits)
  moreover have "\<exists>i t n. d = d\<lparr>dtmpIn := i, tmpOutBuffer := t, dmaxBufferSize := n\<rparr>"
    by (rule exI[of _ "dtmpIn d"], rule exI[of _ "tmpOutBuffer d"], rule exI[of _ "dmaxBufferSize d"]) simp
  ultimately show ?thesis using False b by (simp add: init_buffers_def Let_def base_ok_def alloc_ok_def)
qed

lemma init_enters:
  assumes e: "env_ok c env" and l: "loop_ok c env l" and s: "dStage (lctx l) = dstage_init"
  defines "d \<equiv> if has_contentsum (lctx l) then (lctx l)\<lparr>dxxh := XXH32_reset 0\<rparr> else lctx l"
  assumes b: "init_buffers env d = Inr d'"
  defines "k \<equiv> l\<lparr>lctx := d'\<lparr>dtmpInSize := 0, dtmpInTarget := 0, tmpOut := tmpOutBuffer d', tmpOutStart := 0, tmpOutSize := 0,
      dStage := dstage_getBlockHeader\<rparr>\<rparr>"
  shows "stage_init env l = stage_getBlockHeader env k" "loop_ok c env k" "\<exists>i t n. d' = d\<lparr>dtmpIn := i, tmpOutBuffer := t, dmaxBufferSize := n\<rparr>"
proof -
  have m: "moving c env l" and o: "dict_out (heap c) (lctx l) (dstPtr l) (dstEnd env)" and z: "dmaxBlockSize (lctx l) \<in> block_sizes"
    using l s by (auto simp: loop_ok_def stage_ok_def)
  then have "base_ok (heap c) (lctx l)" by (simp add: moving_def)
  then have d: "base_ok (heap c) d" "dict_out (heap c) d (dstPtr l) (dstEnd env)" "dmaxBlockSize d \<in> block_sizes"
    "has_contentsum d \<longrightarrow> (\<exists>xs. XXH32_holds 0 (dxxh d) xs)"
    using o z reset_holds by (auto simp: dict_out_def d_def)
  note i = init_buffers_ok[OF e d(1-3), unfolded b, simplified]
  show "\<exists>i t n. d' = d\<lparr>dtmpIn := i, tmpOutBuffer := t, dmaxBufferSize := n\<rparr>" using i by simp
  then have d'': "dict_out (heap c) d' (dstPtr l) (dstEnd env)" "dmaxBlockSize d' \<in> block_sizes"
    "has_contentsum d' \<longrightarrow> (\<exists>xs. XXH32_holds 0 (dxxh d') xs)"
    using d(2-4) by (auto simp: dict_out_def)
  have "ready (heap c) (lctx k) (dstPtr l) (dstEnd env)" using i d'' by (simp add: k_def ready_def tmp_ok_def dict_out_def)
  moreover have "moving c env k" using m i unfolding k_def by (intro moving_update) auto
  ultimately show "loop_ok c env k" by (simp add: loop_ok_def stage_ok_def k_def)
  show "stage_init env l = stage_getBlockHeader env k" using b by (simp add: stage_init_def Let_def d_def k_def)
qed

lemma init_ok:
  assumes e: "env_ok c env" and l: "loop_ok c env l" and s: "dStage (lctx l) = dstage_init"
  shows "wp (stage_init env l) (step_ok c env)"
proof -
  let ?d = "if has_contentsum (lctx l) then (lctx l)\<lparr>dxxh := XXH32_reset 0\<rparr> else lctx l"
  have m: "moving c env l" and o: "dict_out (heap c) (lctx l) (dstPtr l) (dstEnd env)" and z: "dmaxBlockSize (lctx l) \<in> block_sizes"
    using l s by (auto simp: loop_ok_def stage_ok_def)
  then have b: "base_ok (heap c) ?d" "dict_out (heap c) ?d (dstPtr l) (dstEnd env)" "dmaxBlockSize ?d \<in> block_sizes"
    by (auto simp: moving_def dict_out_def)
  show ?thesis
  proof (cases "init_buffers env ?d")
    case (Inl p)
    then show ?thesis using init_buffers_ok[OF e b] moving_update(1)[OF m] by (cases p) (simp add: stage_init_def Let_def wp_simps step_ok_def)
  next
    case (Inr d')
    note i = init_enters[OF e l s Inr]
    show ?thesis unfolding i(1) by (rule getBlockHeader_ok[OF e i(2)]) simp
  qed
qed

section \<open>Uncompressed blocks\<close>

lemma copy_direct_ok:
  assumes e: "env_ok c env" and m: "moving c env l" and r: "ready (heap c) (lctx l) (dstPtr l) (dstEnd env)" and bs: "blocksum_ok (lctx l)"
    and n: "0 \<le> n" "srcPtr l + n \<le> srcEnd env" "dstPtr l + n \<le> dstEnd env" and nz: "dstPtr l \<noteq> 0"
  shows "wp (copy_direct env l n) (\<lambda>l'. moving c env l' \<and> ready (heap c) (lctx l') (dstPtr l') (dstEnd env) \<and> blocksum_ok (lctx l')
    \<and> dStage (lctx l') = dStage (lctx l) \<and> dtmpInTarget (lctx l') = dtmpInTarget (lctx l) \<and> srcPtr l' = srcPtr l + n \<and> dstPtr l' = dstPtr l + n)"
proof -
  let ?d = "lctx l" and ?bs = "read_mem (lmem l) (srcPtr l) n"
  have mv: "srcStart c \<le> srcPtr l" "dstStart env \<le> dstPtr l" "confined c env (lmem l)" "base_ok (heap c) ?d" "srcPtr l \<le> srcEnd env"
    "dstLow c \<le> dstPtr l"
    using m by (auto simp: moving_def)
  have ap: "apart (dstPtr l) n (srcPtr l) n"
    by (rule apart_sym[OF apart_part[OF env_okD(3)[OF e]]]) (use mv n in auto)
  let ?mem = "write_mem (lmem l) (dstPtr l) ?bs"
  have cf: "confined c env ?mem" using mv n by (intro confined_dst) auto
  have "\<exists>b. (if has_blocksum ?d \<and> \<not> skipChecksum ?d then checksum_update (dmachine env) (blockChecksum ?d) ?bs else Some (blockChecksum ?d)) = Some b
      \<and> (has_blocksum ?d \<longrightarrow> (\<exists>xs. XXH32_holds 0 b xs))"
    using bs checksum_update_ok[of "blockChecksum ?d" _ "dmachine env" ?bs] by (fastforce simp: blocksum_ok_def)
  then obtain b where b: "(if has_blocksum ?d \<and> \<not> skipChecksum ?d then checksum_update (dmachine env) (blockChecksum ?d) ?bs else Some (blockChecksum ?d)) = Some b"
    "has_blocksum ?d \<longrightarrow> (\<exists>xs. XXH32_holds 0 b xs)" by blast
  have "ready (heap c) (?d\<lparr>blockChecksum := b\<rparr>) (dstPtr l) (dstEnd env)" using r by simp
  from account_ok[OF this, of env ?bs] obtain x k where ac: "account env (?d\<lparr>blockChecksum := b\<rparr>) ?bs = Some (?d\<lparr>blockChecksum := b, dxxh := x, frameRemainingSize := k\<rparr>)"
    and ra: "ready (heap c) (?d\<lparr>blockChecksum := b, dxxh := x, frameRemainingSize := k\<rparr>) (dstPtr l) (dstEnd env)"
    by (auto simp: wp_iff)
  let ?e = "?d\<lparr>blockChecksum := b, dxxh := x, frameRemainingSize := k\<rparr>"
  let ?Q = "\<lambda>(d', mem). confined c env mem \<and> base_ok (heap c) d' \<and> ready (heap c) d' (dstPtr l + n) (dstEnd env) \<and> blocksum_ok d'
      \<and> dStage d' = dStage ?d \<and> dtmpInTarget d' = dtmpInTarget ?d"
  have up: "wp (if linked ?e then LZ4F_updateDict ?e ?mem (dstPtr l) n (dstStart env) False else Some (?e, ?mem)) ?Q"
  proof (cases "linked ?e")
    case True
    have u: "updating c env ?e (dstPtr l) n" using e ra True mv n nz env_okD(4)[OF e] by (simp add: updating_def)
    have "?Q q" if "dict_post c env ?e (dstPtr l) n False q" for q
      using that b(2) mv(4) by (auto simp: dict_post_def blocksum_ok_def)
    then show ?thesis using True wp_mono[OF updateDict_ok[OF u cf, of False]] by simp
  next
    case False
    then show ?thesis using cf mv(4) b(2) ready_on[OF ra, of "dstPtr l + n"] n by (simp add: wp_Some blocksum_ok_def)
  qed
  have "copy_direct env l n = do { (d, mem) \<leftarrow> (if linked ?e then LZ4F_updateDict ?e ?mem (dstPtr l) n (dstStart env) False else Some (?e, ?mem));
      Some (l\<lparr>lmem := mem, lctx := d, srcPtr := srcPtr l + n, dstPtr := dstPtr l + n\<rparr>) }"
    unfolding copy_direct_def Let_def copy_mem_def if_P[OF ap] bind.bind_lunit b(1) ac ..
  then show ?thesis
  proof (simp only: wp_bind, intro wp_mono[OF up])
    fix q assume q: "?Q q"
    obtain d' mem where "q = (d', mem)" by (cases q)
    then show "wp (case q of (d, mem) \<Rightarrow> Some (l\<lparr>lmem := mem, lctx := d, srcPtr := srcPtr l + n, dstPtr := dstPtr l + n\<rparr>))
       (\<lambda>l'. moving c env l' \<and> ready (heap c) (lctx l') (dstPtr l') (dstEnd env) \<and> blocksum_ok (lctx l')
         \<and> dStage (lctx l') = dStage (lctx l) \<and> dtmpInTarget (lctx l') = dtmpInTarget (lctx l) \<and> srcPtr l' = srcPtr l + n \<and> dstPtr l' = dstPtr l + n)"
      using q mv n by (auto simp: wp_Some moving_def)
  qed
qed

lemma copyDirect_ok:
  assumes e: "env_ok c env" and l: "loop_ok c env l" and s: "dStage (lctx l) = dstage_copyDirect"
  shows "wp (stage_copyDirect env l) (step_ok c env)"
proof -
  let ?d = "lctx l" and ?n = "if dstPtr l = 0 then 0 else min (dtmpInTarget (lctx l)) (min (srcEnd env - srcPtr l) (dstEnd env - dstPtr l))"
  have m: "moving c env l" and r: "ready (heap c) ?d (dstPtr l) (dstEnd env)" and bs: "blocksum_ok ?d"
    using l s by (auto simp: loop_ok_def stage_ok_def)
  have n: "0 \<le> ?n" "srcPtr l + ?n \<le> srcEnd env" "dstPtr l + ?n \<le> dstEnd env" "?n \<le> dtmpInTarget ?d" using m by (auto simp: moving_def base_ok_def)
  have "wp (if dstPtr l = 0 then Some l else copy_direct env l ?n) (\<lambda>l'. moving c env l' \<and> ready (heap c) (lctx l') (dstPtr l') (dstEnd env)
      \<and> blocksum_ok (lctx l') \<and> dStage (lctx l') = dstage_copyDirect \<and> dtmpInTarget (lctx l') = dtmpInTarget ?d)" (is "wp _ ?Q")
  proof (cases "dstPtr l = 0")
    case True
    then show ?thesis using m r bs s by (simp add: wp_Some)
  next
    case False
    then show ?thesis using copy_direct_ok[OF e m r bs n(1-3) False] s by (auto elim: wp_mono)
  qed
  then show ?thesis unfolding stage_copyDirect_def Let_def wp_bind
  proof (rule wp_mono)
    fix l1 assume q: "?Q l1"
    then have b: "base_ok (heap c) (lctx l1)" by (simp add: moving_def)
    show "wp (if ?n = dtmpInTarget (lctx l1) then
         Some (Again (l1\<lparr>lctx := (if has_blocksum (lctx l1) then (lctx l1)\<lparr>dtmpInSize := 0, dStage := dstage_getBlockChecksum\<rparr>
           else (lctx l1)\<lparr>dStage := dstage_getBlockHeader\<rparr>)\<rparr>))
       else Some (Stop (l1\<lparr>lctx := (lctx l1)\<lparr>dtmpInTarget := dtmpInTarget (lctx l1) - ?n\<rparr>,
         nextSrcSizeHint := dtmpInTarget ((lctx l1)\<lparr>dtmpInTarget := dtmpInTarget (lctx l1) - ?n\<rparr>)
           + (if has_blocksum ((lctx l1)\<lparr>dtmpInTarget := dtmpInTarget (lctx l1) - ?n\<rparr>) then BFSize else 0) + BHSize\<rparr>))) (step_ok c env)"
      using q b n(4) by (auto simp: wp_simps step_ok_def loop_ok_def stage_ok_def blocksum_ok_def moving_update(2) intro!: moving_update)
  qed
qed

lemma check_block_ok:
  assumes m: "moving c env l" and r: "ready (heap c) (lctx l) (dstPtr l) (dstEnd env)" and bs: "blocksum_ok (lctx l)"
    and len: "4 \<le> length crc" and f: "has_blocksum (lctx l)"
  shows "wp (check_block env l crc) (step_ok c env)"
proof -
  obtain xs where "XXH32_holds 0 (blockChecksum (lctx l)) xs" using bs f by (auto simp: blocksum_ok_def)
  note dg = digest_ok[OF this, of "dmachine env"]
  have rd: "\<exists>v. LZ4F_readLE32 crc 0 = Some v" using readLE32_le_word[of crc 0] len by (auto simp: in_buf_def)
  have b: "base_ok (heap c) (lctx l)" using m by (simp add: moving_def)
  show ?thesis using rd m r b by (auto simp: check_block_def Let_def dg wp_simps step_ok_def loop_ok_def stage_ok_def intro!: moving_update)
qed

lemma getBlockChecksum_ok:
  assumes l: "loop_ok c env l" and s: "dStage (lctx l) = dstage_getBlockChecksum"
  shows "wp (stage_getBlockChecksum env l) (step_ok c env)"
proof -
  let ?d = "lctx l"
  have m: "moving c env l" and r: "ready (heap c) ?d (dstPtr l) (dstEnd env)" and bs: "blocksum_ok ?d" and t: "dtmpInSize ?d \<le> 4"
    and f: "has_blocksum ?d"
    using l s by (auto simp: loop_ok_def stage_ok_def)
  have z: "0 \<le> dtmpInSize ?d" using m by (simp add: moving_def base_ok_def)
  have u: "usub 4 (dtmpInSize ?d) = 4 - dtmpInSize ?d" using t z by (intro usub_diff) auto
  show ?thesis
  proof (cases "srcEnd env - srcPtr l \<ge> 4 \<and> dtmpInSize ?d = 0")
    case True
    then have "moving c env (l\<lparr>srcPtr := srcPtr l + 4\<rparr>)" using moving_update(3)[OF m, of 4] by simp
    from check_block_ok[OF this, of "read_mem (lmem l) (srcPtr l) 4"] show ?thesis
      using True r bs f by (simp add: stage_getBlockChecksum_def)
  next
    case False
    have w: "0 \<le> 4 - dtmpInSize ?d" "dtmpInSize ?d + (4 - dtmpInSize ?d) \<le> 19" using t by auto
    have "wp (fill_header env l (4 - dtmpInSize ?d)) (\<lambda>l'. wp (if dtmpInSize (lctx l') < 4 then Some (Stop l')
        else check_block env l' (dheader (lctx l'))) (step_ok c env))"
    proof (rule wp_mono[OF fill_header_ok[OF m w]], elim exE conjE)
      fix l1 hdr n assume h: "n = min (4 - dtmpInSize ?d) (srcEnd env - srcPtr l)" "0 \<le> n" "length hdr = 19" "moving c env l1"
        "l1 = l\<lparr>lctx := ?d\<lparr>dheader := hdr, dtmpInSize := dtmpInSize ?d + n\<rparr>, srcPtr := srcPtr l + n\<rparr>"
      have q: "ready (heap c) (lctx l1) (dstPtr l1) (dstEnd env)" "blocksum_ok (lctx l1)" "has_blocksum (lctx l1)"
        "dStage (lctx l1) = dstage_getBlockChecksum" "dtmpInSize (lctx l1) \<le> 4" "length (dheader (lctx l1)) = 19"
        using r bs f s h by (auto simp: blocksum_ok_def)
      then have "loop_ok c env l1" using h(4) by (simp add: loop_ok_def stage_ok_def)
      then show "wp (if dtmpInSize (lctx l1) < 4 then Some (Stop l1) else check_block env l1 (dheader (lctx l1))) (step_ok c env)"
        using check_block_ok[OF h(4) q(1,2) _ q(3), of "dheader (lctx l1)"] q by (simp add: wp_simps step_ok_def)
    qed
    then show ?thesis unfolding stage_getBlockChecksum_def if_not_P[OF False] u wp_bind .
  qed
qed

section \<open>Compressed blocks\<close>

lemma in_tmp_if: "ready H d a b \<Longrightarrow> linked d \<Longrightarrow> ddict d = tmpOutBuffer d \<Longrightarrow> in_tmp d"
  using in_tmp_iff[of H d a b] tmp_room(4,5)[of H d a b] by (cases "ddictSize d = 0") (auto simp: in_tmp_def)

lemma flushOut_ok:
  assumes e: "env_ok c env" and l: "loop_ok c env l" and s: "dStage (lctx l) = dstage_flushOut"
  shows "wp (stage_flushOut env l) (step_ok c env)"
proof -
  let ?d = "lctx l" and ?n = "min (tmpOutSize (lctx l) - tmpOutStart (lctx l)) (dstEnd env - dstPtr l)"
  have m: "moving c env l" and r: "ready (heap c) ?d (dstPtr l) (dstEnd env)" and fl: "flush_ok ?d"
    using l s by (auto simp: loop_ok_def stage_ok_def)
  note room = tmp_room[OF r]
  have mv: "dstStart env \<le> dstPtr l" "dstPtr l \<le> dstEnd env" "confined c env (lmem l)" "base_ok (heap c) ?d" using m by (auto simp: moving_def)
  have f: "tmpOutBuffer ?d \<le> tmpOut ?d" "0 \<le> tmpOutStart ?d" "tmpOutStart ?d \<le> tmpOutSize ?d"
    "tmpOut ?d - tmpOutBuffer ?d + tmpOutSize ?d \<le> dmaxBufferSize ?d" using fl by (auto simp: flush_ok_def)
  have n: "0 \<le> ?n" "dstPtr l + ?n \<le> dstEnd env" "tmpOutStart ?d + ?n \<le> tmpOutSize ?d" using mv f by auto
  have "owns (heap c) (tmpOut ?d + tmpOutStart ?d) ?n" using f n by (intro owns_part[OF room(2)]) auto
  from outside_owns[OF _ this] have ap: "apart (dstPtr l) ?n (tmpOut ?d + tmpOutStart ?d) ?n"
    using outside_part[OF env_okD(2)[OF e], of "dstPtr l" ?n] mv n by simp
  let ?mem = "write_mem (lmem l) (dstPtr l) (read_mem (lmem l) (tmpOut ?d + tmpOutStart ?d) ?n)"
  have cf: "confined c env ?mem" using mv n by (intro confined_dst) auto
  let ?Q = "\<lambda>l'. moving c env l' \<and> ready (heap c) (lctx l') (dstPtr l') (dstEnd env) \<and> flush_ok (lctx l') \<and> dStage (lctx l') = dstage_flushOut"
  have up: "wp (if linked ?d then LZ4F_updateDict ?d ?mem (dstPtr l) ?n (dstStart env) True else Some (?d, ?mem))
      (\<lambda>(d', mem). confined c env mem \<and> base_ok (heap c) d' \<and> ready (heap c) d' (dstPtr l + ?n) (dstEnd env)
        \<and> flush_ok (d'\<lparr>tmpOutStart := tmpOutStart d' + ?n\<rparr>) \<and> dStage d' = dstage_flushOut)" (is "wp _ ?P") if nz: "dstPtr l \<noteq> 0"
  proof (cases "linked ?d")
    case True
    have u: "updating c env ?d (dstPtr l) ?n" using e r True mv n nz env_okD(4)[OF e] by (simp add: updating_def)
    have "?P q" if "dict_post c env ?d (dstPtr l) ?n True q" for q
      using that mv(4) s by (auto simp: dict_post_def)
    then show ?thesis using True wp_mono[OF updateDict_ok[OF u cf, of True]] fl n(3) by simp
  next
    case False
    then show ?thesis using cf mv(4) fl n s ready_on[OF r, of "dstPtr l + ?n"] by (simp add: wp_Some flush_ok_def)
  qed
  have 1: "wp (if dstPtr l \<noteq> 0 then
         let d = lctx l; n = min (tmpOutSize d - tmpOutStart d) (dstEnd env - dstPtr l) in do {
           mem \<leftarrow> copy_mem (lmem l) (dstPtr l) (tmpOut d + tmpOutStart d) n;
           (d, mem) \<leftarrow> (if linked d then LZ4F_updateDict d mem (dstPtr l) n (dstStart env) True else Some (d, mem));
           Some (l\<lparr>lmem := mem, lctx := d\<lparr>tmpOutStart := tmpOutStart d + n\<rparr>, dstPtr := dstPtr l + n\<rparr>) }
       else Some l) ?Q"
  proof (cases "dstPtr l = 0")
    case True
    then show ?thesis using m r fl s by (simp add: wp_Some)
  next
    case False
    then show ?thesis unfolding Let_def copy_mem_def if_P[OF ap] bind.bind_lunit if_P[OF False]
    proof (simp only: wp_bind not_False_eq_True if_True, intro wp_mono[OF up[OF False]])
      fix q assume q: "?P q"
      obtain d' mem where "q = (d', mem)" by (cases q)
      then show "wp (case q of (d, mem) \<Rightarrow> Some (l\<lparr>lmem := mem, lctx := d\<lparr>tmpOutStart := tmpOutStart d + ?n\<rparr>, dstPtr := dstPtr l + ?n\<rparr>)) ?Q"
        using q m n by (auto simp: wp_Some moving_def)
    qed
  qed
  have 2: "wp (if tmpOutStart (lctx l') = tmpOutSize (lctx l') then Some (Again (l'\<lparr>lctx := (lctx l')\<lparr>dStage := dstage_getBlockHeader\<rparr>\<rparr>))
      else Some (Stop (l'\<lparr>nextSrcSizeHint := BHSize\<rparr>))) (step_ok c env)" if "?Q l'" for l'
  proof -
    have "base_ok (heap c) (lctx l')" using that by (simp add: moving_def)
    then show ?thesis using that by (auto simp: wp_simps step_ok_def loop_ok_def stage_ok_def moving_update(2) intro!: moving_update)
  qed
  show ?thesis unfolding stage_flushOut_def wp_bind by (rule wp_mono[OF 1 2])
qed

lemma call_block_ok:
  assumes cf: "confined c env (lmem l)" and d: "0 \<le> ddictSize (lctx l)" "apart (ddict (lctx l)) (ddictSize (lctx l)) dst (dmaxBlockSize (lctx l))"
    and t: "0 \<le> dtmpInTarget (lctx l)" "apart sel (dtmpInTarget (lctx l)) dst (dmaxBlockSize (lctx l))" "0 \<le> dmaxBlockSize (lctx l)"
    and w: "owns (heap c) dst (dmaxBlockSize (lctx l)) \<or> dstStart env \<le> dst \<and> dst + dmaxBlockSize (lctx l) \<le> dstEnd env"
  shows "wp (call_block env l sel dst) (\<lambda>(n, mem). confined c env mem \<and> n \<le> dmaxBlockSize (lctx l))"
proof -
  obtain x y where xy: "clipped_dict (lctx l) = (x, y)" by (cases "clipped_dict (lctx l)")
  then have "0 \<le> y \<and> ddict (lctx l) \<le> x \<and> x + y \<le> ddict (lctx l) + ddictSize (lctx l)" using d(1) by (auto simp: clipped_dict_def split: if_splits)
  then have "0 \<le> y" "apart x y dst (dmaxBlockSize (lctx l))" using apart_part[OF d(2), of x y] by auto
  from usingDict_sound[OF t(1) this(1) t(2) this(2), of "dfast env" "lmem l"]
  obtain n mem where r: "LZ4_decompress_safe_usingDict (dfast env) (lmem l) sel dst (dtmpInTarget (lctx l)) (dmaxBlockSize (lctx l)) x y = Some (n, mem)"
    "\<forall>p. p < dst \<or> dst + dmaxBlockSize (lctx l) \<le> p \<longrightarrow> mem p = lmem l p" "n \<le> max 0 (dmaxBlockSize (lctx l))" by blast
  have "confined c env mem" using confined_trans[OF cf r(2)] w by blast
  then show ?thesis using r t(3) by (simp add: call_block_def xy wp_Some)
qed

lemma dict_apart_out:
  assumes e: "env_ok c env" and r: "ready (heap c) d a b" and x: "dstStart env \<le> a" "b = dstEnd env" "a \<le> b"
  shows "0 \<le> ddictSize d" "apart (ddict d) (ddictSize d) a (b - a)"
proof -
  have "outside (heap c) a (b - a)" using outside_part[OF env_okD(2)[OF e], of a "b - a"] x by simp
  note o = owns_outside[OF owns_part[OF tmp_room(2)[OF r], of "tmpOutBuffer d" "ddictSize d"] this]
  show "0 \<le> ddictSize d" "apart (ddict d) (ddictSize d) a (b - a)"
    using r o by (auto simp: ready_def dict_out_def in_tmp_def)
qed

lemma decode_to_dst_ok:
  assumes e: "env_ok c env" and m: "moving c env l" and r: "ready (heap c) (lctx l) (dstPtr l) (dstEnd env)"
    and sel: "apart sel (dtmpInTarget (lctx l)) (dstPtr l) (dstEnd env - dstPtr l)"
    and room: "dstEnd env - dstPtr l \<ge> dmaxBlockSize (lctx l)"
  shows "wp (decode_to_dst env l sel) (step_ok c env)"
proof -
  let ?d = "lctx l"
  have mv: "dstStart env \<le> dstPtr l" "dstPtr l \<le> dstEnd env" "confined c env (lmem l)" "base_ok (heap c) ?d" "0 \<le> dtmpInTarget ?d"
    using m by (auto simp: moving_def base_ok_def)
  have bsz: "KB 64 \<le> dmaxBlockSize ?d" by (rule tmp_room(4)[OF r])
  note da = dict_apart_out[OF e r mv(1) refl mv(2)]
  have "wp (call_block env l sel (dstPtr l)) (\<lambda>(n, mem). confined c env mem \<and> n \<le> dmaxBlockSize ?d)"
    using mv room bsz by (intro call_block_ok[OF mv(3) da(1) apart_part[OF da(2)] mv(5) apart_part[OF sel]]) auto
  then show ?thesis unfolding decode_to_dst_def wp_bind
  proof (rule wp_mono)
    fix p assume p: "case p of (n, mem) \<Rightarrow> confined c env mem \<and> n \<le> dmaxBlockSize ?d"
    obtain n mem where np: "p = (n, mem)" by (cases p)
    then have q: "confined c env mem" "n \<le> dmaxBlockSize ?d" using p by auto
    have err: "moving c env (l\<lparr>lmem := mem\<rparr>)" using m q by (simp add: moving_def)
    have ok: "wp (do { d \<leftarrow> account env ?d (read_mem mem (dstPtr l) n);
         (d, mem) \<leftarrow> (if linked d then LZ4F_updateDict d mem (dstPtr l) n (dstStart env) False else Some (d, mem));
         Some (Again (l\<lparr>lmem := mem, lctx := d\<lparr>dStage := dstage_getBlockHeader\<rparr>, dstPtr := dstPtr l + n\<rparr>)) }) (step_ok c env)" if n: "0 \<le> n"
    proof (unfold wp_bind, rule wp_mono[OF account_ok[OF r]], elim exE conjE)
      fix d x k assume d: "d = ?d\<lparr>dxxh := x, frameRemainingSize := k\<rparr>" and rd: "ready (heap c) d (dstPtr l) (dstEnd env)"
      have nd: "dstPtr l + n \<le> dstEnd env" using q room by simp
      have fin: "wp (case q of (d, mem) \<Rightarrow> Some (Again (l\<lparr>lmem := mem, lctx := d\<lparr>dStage := dstage_getBlockHeader\<rparr>, dstPtr := dstPtr l + n\<rparr>))) (step_ok c env)"
        if "case q of (d', mem) \<Rightarrow> confined c env mem \<and> base_ok (heap c) d' \<and> ready (heap c) d' (dstPtr l + n) (dstEnd env)" for q
        using that m n nd by (cases q) (auto simp: wp_Some step_ok_def loop_ok_def stage_ok_def moving_def)
      show "wp (if linked d then LZ4F_updateDict d mem (dstPtr l) n (dstStart env) False else Some (d, mem))
         (\<lambda>a. wp (case a of (d, mem) \<Rightarrow> Some (Again (l\<lparr>lmem := mem, lctx := d\<lparr>dStage := dstage_getBlockHeader\<rparr>, dstPtr := dstPtr l + n\<rparr>))) (step_ok c env))"
      proof (cases "linked d")
        case True
        have "dstPtr l \<noteq> 0" using env_okD(4,5)[OF e] mv(1) room bsz by auto
        then have u: "updating c env d (dstPtr l) n" using e rd True mv nd n env_okD(4)[OF e] by (simp add: updating_def)
        show ?thesis unfolding if_P[OF True]
          by (rule wp_mono[OF updateDict_ok[OF u q(1)]], simp, rule fin) (use mv(4) d in \<open>auto simp: dict_post_def\<close>)
      next
        case False
        then show ?thesis using fin[of "(d, mem)"] q mv(4) d ready_on[OF rd, of "dstPtr l + n"] n by (simp add: wp_Some)
      qed
    qed
    then show "wp (case p of (decodedSize, mem) \<Rightarrow> if decodedSize < 0 then Some (Return (Inl ERROR_decompressionFailed) (l\<lparr>lmem := mem\<rparr>))
      else do { d \<leftarrow> account env ?d (read_mem mem (dstPtr l) decodedSize);
        (d, mem) \<leftarrow> (if linked d then LZ4F_updateDict d mem (dstPtr l) decodedSize (dstStart env) False else Some (d, mem));
        Some (Again (l\<lparr>lmem := mem, lctx := d\<lparr>dStage := dstage_getBlockHeader\<rparr>, dstPtr := dstPtr l + decodedSize\<rparr>)) }) (step_ok c env)"
      unfolding np prod.case using err by (cases "n < 0") (simp_all only: if_True if_False wp_Some step_ok_def, auto)
  qed
qed

text \<open>Where \<open>tmpOut\<close> is placed: behind the history in \<open>tmpOutBuffer\<close>, with room for a block.\<close>

definition placed :: "LZ4F_dctx \<Rightarrow> bool" where
  "placed d \<longleftrightarrow> tmpOutBuffer d \<le> tmpOut d \<and> tmpOut d - tmpOutBuffer d + dmaxBlockSize d \<le> dmaxBufferSize d
     \<and> (linked d \<longrightarrow> (if ddict d = tmpOutBuffer d then ddict d + ddictSize d = tmpOut d else tmpOut d - tmpOutBuffer d \<le> ddictSize d))"

lemma only_place [simp]: "\<exists>x t. d\<lparr>tmpOut := k\<rparr> = d\<lparr>ddictSize := x, tmpOut := t\<rparr>"
  by (rule exI[of _ "ddictSize d"], rule exI[of _ k]) simp

lemma place_tmpOut_ok:
  assumes r: "ready (heap c) d a b" and cf: "confined c env mem"
  shows "wp (place_tmpOut d mem) (\<lambda>(d', mem). confined c env mem \<and> (\<exists>x t. d' = d\<lparr>ddictSize := x, tmpOut := t\<rparr>)
    \<and> ready (heap c) d' a b \<and> placed d')"
proof -
  note room = tmp_room[OF r]
  consider (plain) "\<not> linked d" | (tmp) "linked d" "ddict d = tmpOutBuffer d" | (out) "linked d" "ddict d \<noteq> tmpOutBuffer d" by blast
  then show ?thesis
  proof cases
    case plain
    then have "placed d" using r room(5) by (simp add: placed_def ready_def)
    moreover have "\<exists>x t. d = d\<lparr>ddictSize := x, tmpOut := t\<rparr>" by (rule exI[of _ "ddictSize d"], rule exI[of _ "tmpOut d"]) simp
    ultimately show ?thesis using plain r cf by (simp add: place_tmpOut_def wp_Some)
  next
    case tmp
    have i: "0 \<le> ddictSize d" "ddictSize d \<le> dmaxBufferSize d" using in_tmp_if[OF r tmp] by (auto simp: in_tmp_def)
    have fin: "ready (heap c) (d\<lparr>ddictSize := k, tmpOut := tmpOutBuffer d + k\<rparr>) a b \<and> placed (d\<lparr>ddictSize := k, tmpOut := tmpOutBuffer d + k\<rparr>)"
      if "0 \<le> k" "k \<le> KB 128" for k
      using r tmp that room(6) room(4) by (auto simp: ready_def in_tmp_def tmp_ok_def placed_def)
    show ?thesis
    proof (cases "ddictSize d > KB 128")
      case True
      then have "apart (tmpOutBuffer d) (KB 64) (ddict d + ddictSize d - KB 64) (KB 64)" using tmp(2) by (auto simp: apart_def)
      moreover have "owns (heap c) (tmpOutBuffer d) (KB 64)" using room(4,5) by (intro owns_part[OF room(2)]) auto
      then have "confined c env (write_mem mem (tmpOutBuffer d) (read_mem mem s (KB 64)))" for s using confined_copy[OF cf disjI2] by blast
      ultimately show ?thesis using tmp True fin[of "KB 64"] by (auto simp: place_tmpOut_def wp_simps)
    next
      case False
      have "d\<lparr>ddictSize := ddictSize d, tmpOut := tmpOutBuffer d + ddictSize d\<rparr> = d\<lparr>tmpOut := tmpOutBuffer d + ddictSize d\<rparr>" by simp
      then show ?thesis using tmp False fin[of "ddictSize d"] i cf
        by (simp add: place_tmpOut_def wp_simps)
    qed
  next
    case out
    let ?k = "min (ddictSize d) (KB 64)"
    have "0 \<le> ?k" using dict_outside(1)[OF r out(2)] by simp
    moreover have "ready (heap c) (d\<lparr>tmpOut := tmpOutBuffer d + ?k\<rparr>) a b" using r out by (auto simp: ready_def in_tmp_def dict_out_def tmp_ok_def)
    moreover have "placed (d\<lparr>tmpOut := tmpOutBuffer d + ?k\<rparr>)" using out room(4,6) calculation(1) by (simp add: placed_def)
    moreover have "d\<lparr>ddictSize := ddictSize d, tmpOut := tmpOutBuffer d + ?k\<rparr> = d\<lparr>tmpOut := tmpOutBuffer d + ?k\<rparr>" by simp
    ultimately show ?thesis using out cf by (simp add: place_tmpOut_def wp_simps)
  qed
qed

lemma flush_fields: "flush_ok (d\<lparr>dStage := s\<rparr>) = flush_ok d"
  by (simp add: flush_ok_def history_copy_def)

lemma placed_room:
  assumes r: "ready H d a b" and p: "placed d"
  shows "owns H (tmpOut d) (dmaxBlockSize d)" "0 \<le> ddictSize d" "apart (ddict d) (ddictSize d) (tmpOut d) (dmaxBlockSize d)"
proof -
  show ow: "owns H (tmpOut d) (dmaxBlockSize d)" using p by (intro owns_part[OF tmp_room(2)[OF r]]) (auto simp: placed_def)
  show "0 \<le> ddictSize d" using r by (auto simp: ready_def dict_out_def in_tmp_def)
  show "apart (ddict d) (ddictSize d) (tmpOut d) (dmaxBlockSize d)"
  proof (cases "in_tmp d")
    case True
    then show ?thesis using p by (auto simp: in_tmp_def placed_def apart_def)
  next
    case False
    then have "outside H (ddict d) (ddictSize d)" using r by (simp add: ready_def dict_out_def)
    then show ?thesis by (rule outside_owns[OF _ ow])
  qed
qed

lemma placed_flush:
  assumes "placed d" "0 \<le> n" "n \<le> dmaxBlockSize d"
  shows "flush_ok (d\<lparr>tmpOutSize := n, tmpOutStart := 0\<rparr>)"
proof -
  have "tmpOutBuffer d \<le> tmpOut d" using assms(1) by (simp add: placed_def)
  then have "history_copy (d\<lparr>tmpOutSize := n, tmpOutStart := 0\<rparr>) \<le> tmpOut d - tmpOutBuffer d" by (simp add: history_copy_def)
  then show ?thesis using assms by (auto simp: placed_def flush_ok_def)
qed

lemma decode_to_tmp_ok:
  assumes e: "env_ok c env" and m: "moving c env l" and r: "ready (heap c) (lctx l) (dstPtr l) (dstEnd env)"
    and sel: "apart sel (dtmpInTarget (lctx l)) (tmpOutBuffer (lctx l)) (dmaxBufferSize (lctx l))"
  shows "wp (decode_to_tmp env l sel) (step_ok c env)"
proof -
  have mv: "confined c env (lmem l)" "base_ok (heap c) (lctx l)" "0 \<le> dtmpInTarget (lctx l)" using m by (auto simp: moving_def base_ok_def)
  show ?thesis unfolding decode_to_tmp_def wp_bind
  proof (rule wp_mono[OF place_tmpOut_ok[OF r mv(1)]])
    fix q assume q: "case q of (d', mem) \<Rightarrow> confined c env mem \<and> (\<exists>x t. d' = (lctx l)\<lparr>ddictSize := x, tmpOut := t\<rparr>)
      \<and> ready (heap c) d' (dstPtr l) (dstEnd env) \<and> placed d'"
    obtain d mem where dm: "q = (d, mem)" by (cases q)
    let ?l = "l\<lparr>lctx := d, lmem := mem\<rparr>"
    have d: "confined c env mem" "ready (heap c) d (dstPtr l) (dstEnd env)" "placed d" "base_ok (heap c) d" "dtmpInTarget d = dtmpInTarget (lctx l)"
      "tmpOutBuffer d = tmpOutBuffer (lctx l)" "dmaxBufferSize d = dmaxBufferSize (lctx l)"
      using q dm mv(2) by auto
    have ml: "moving c env ?l" using m d by (simp add: moving_def)
    note pr = placed_room[OF d(2,3)] and bsz = tmp_room(4)[OF d(2)]
    have "apart sel (dtmpInTarget d) (tmpOut d) (dmaxBlockSize d)"
      by (rule apart_part[OF sel]) (use d placed_def[of d] in auto)
    then have "wp (call_block env ?l sel (tmpOut d)) (\<lambda>(n, mem). confined c env mem \<and> n \<le> dmaxBlockSize d)"
      using call_block_ok[of c env ?l "tmpOut d" sel] d pr bsz mv(3) by simp
    then have "wp (call_block env ?l sel (tmpOut d)) (\<lambda>a. wp (case a of (decodedSize, mem) \<Rightarrow>
        if decodedSize < 0 then Some (Return (Inl ERROR_decompressionFailed) (?l\<lparr>lmem := mem\<rparr>))
        else do { d \<leftarrow> account env d (read_mem mem (tmpOut d) decodedSize);
          stage_flushOut env (?l\<lparr>lmem := mem, lctx := d\<lparr>tmpOutSize := decodedSize, tmpOutStart := 0, dStage := dstage_flushOut\<rparr>\<rparr>) })
        (step_ok c env))"
    proof (rule wp_mono)
      fix p assume p: "case p of (n, mem) \<Rightarrow> confined c env mem \<and> n \<le> dmaxBlockSize d"
      obtain n mem' where np: "p = (n, mem')" by (cases p)
      then have n: "confined c env mem'" "n \<le> dmaxBlockSize d" using p by auto
      have err: "moving c env (?l\<lparr>lmem := mem'\<rparr>)" using ml n by (simp add: moving_def)
      have ok: "wp (do { d \<leftarrow> account env d (read_mem mem' (tmpOut d) n);
          stage_flushOut env (?l\<lparr>lmem := mem', lctx := d\<lparr>tmpOutSize := n, tmpOutStart := 0, dStage := dstage_flushOut\<rparr>\<rparr>) }) (step_ok c env)"
        if "0 \<le> n"
      proof (unfold wp_bind, rule wp_mono[OF account_ok[OF d(2)]], elim exE conjE)
        fix d' x k assume d': "d' = d\<lparr>dxxh := x, frameRemainingSize := k\<rparr>" "ready (heap c) d' (dstPtr l) (dstEnd env)"
        let ?d = "d'\<lparr>tmpOutSize := n, tmpOutStart := 0, dStage := dstage_flushOut\<rparr>"
        have "placed d'" using d(3) d'(1) by (auto simp: placed_def)
        from placed_flush[OF this that] n(2) d'(1) have "flush_ok ?d" by (simp add: flush_fields)
        moreover have "moving c env (?l\<lparr>lmem := mem', lctx := ?d\<rparr>)" using err d(4) d'(1) by (simp add: moving_def)
        ultimately have "loop_ok c env (?l\<lparr>lmem := mem', lctx := ?d\<rparr>)" using d'(2) by (simp add: loop_ok_def stage_ok_def)
        then show "wp (stage_flushOut env (?l\<lparr>lmem := mem', lctx := ?d\<rparr>)) (step_ok c env)" by (rule flushOut_ok[OF e]) simp
      qed
      show "wp (case p of (decodedSize, mem) \<Rightarrow>
        if decodedSize < 0 then Some (Return (Inl ERROR_decompressionFailed) (?l\<lparr>lmem := mem\<rparr>))
        else do { d \<leftarrow> account env d (read_mem mem (tmpOut d) decodedSize);
          stage_flushOut env (?l\<lparr>lmem := mem, lctx := d\<lparr>tmpOutSize := decodedSize, tmpOutStart := 0, dStage := dstage_flushOut\<rparr>\<rparr>) })
        (step_ok c env)"
        unfolding np prod.case using err ok by (cases "n < 0") (simp_all only: if_True if_False wp_Some step_ok_def, auto)
    qed
    then show "wp (case q of (d, mem) \<Rightarrow> let l = l\<lparr>lctx := d, lmem := mem\<rparr> in do {
        (decodedSize, mem) \<leftarrow> call_block env l sel (tmpOut d);
        if decodedSize < 0 then Some (Return (Inl ERROR_decompressionFailed) (l\<lparr>lmem := mem\<rparr>))
        else do { d \<leftarrow> account env d (read_mem mem (tmpOut d) decodedSize);
          stage_flushOut env (l\<lparr>lmem := mem, lctx := d\<lparr>tmpOutSize := decodedSize, tmpOutStart := 0, dStage := dstage_flushOut\<rparr>\<rparr>) } }) (step_ok c env)"
      by (simp only: dm prod.case Let_def wp_bind)
  qed
qed

lemma decode_block_ok:
  assumes e: "env_ok c env" and m: "moving c env l" and r: "ready (heap c) (lctx l) (dstPtr l) (dstEnd env)"
    and t: "has_blocksum (lctx l) \<longrightarrow> 4 \<le> dtmpInTarget (lctx l)"
    and sel: "apart sel (dtmpInTarget (lctx l)) (tmpOutBuffer (lctx l)) (dmaxBufferSize (lctx l))"
      "apart sel (dtmpInTarget (lctx l)) (dstStart env) (dstEnd env - dstStart env)"
  shows "wp (decode_block env l sel) (step_ok c env)"
proof -
  let ?d = "lctx l"
  have mv: "base_ok (heap c) ?d" "dstStart env \<le> dstPtr l" "dstPtr l \<le> dstEnd env" using m by (auto simp: moving_def)
  have go: "wp (if dstEnd env - dstPtr l \<ge> dmaxBlockSize d \<and> \<not> (ddict d \<noteq> 0 \<and> ddict d + ddictSize d = tmpOut d)
       then decode_to_dst env (l\<lparr>lctx := d\<rparr>) sel else decode_to_tmp env (l\<lparr>lctx := d\<rparr>) sel) (step_ok c env)"
    if d: "d = ?d \<or> has_blocksum ?d \<and> d = ?d\<lparr>dtmpInTarget := dtmpInTarget ?d - 4\<rparr>" for d
  proof -
    have b: "base_ok (heap c) d" "ready (heap c) d (dstPtr l) (dstEnd env)" "dtmpInTarget d \<le> dtmpInTarget ?d"
      "tmpOutBuffer d = tmpOutBuffer ?d" "dmaxBufferSize d = dmaxBufferSize ?d" using d mv r t by auto
    have ml: "moving c env (l\<lparr>lctx := d\<rparr>)" by (rule moving_update(1)[OF m b(1)])
    have "apart sel (dtmpInTarget d) (tmpOutBuffer d) (dmaxBufferSize d)" by (rule apart_part[OF sel(1)]) (use b in auto)
    moreover have "apart sel (dtmpInTarget d) (dstPtr l) (dstEnd env - dstPtr l)" by (rule apart_part[OF sel(2)]) (use b mv in auto)
    ultimately show ?thesis using decode_to_dst_ok[OF e ml, of sel] decode_to_tmp_ok[OF e ml, of sel] b by (simp add: wp_if)
  qed
  show ?thesis
  proof (cases "has_blocksum ?d")
    case True
    let ?l = "l\<lparr>lctx := ?d\<lparr>dtmpInTarget := dtmpInTarget ?d - 4\<rparr>\<rparr>"
    have x: "XXH32 False (dmachine env) sel (read_mem (lmem l) sel (dtmpInTarget ?d - 4)) (dtmpInTarget ?d - 4) 0
        = Some (xxh32 0 (read_mem (lmem l) sel (dtmpInTarget ?d - 4)))"
      using XXH32_value[of False "dmachine env" sel "read_mem (lmem l) sel (dtmpInTarget ?d - 4)" 0] t True by simp
    have err: "moving c env ?l" using m mv t True by (intro moving_update) auto
    show ?thesis unfolding decode_block_def if_P[OF True] Let_def read32_mem_value bind.bind_lunit
      using go[of "lctx ?l"] err True by (simp add: x read32_mem_value wp_simps step_ok_def)
  next
    case False
    moreover have "l\<lparr>lctx := ?d\<rparr> = l" by simp
    ultimately show ?thesis using go[OF disjI1[OF refl]] unfolding decode_block_def Let_def by (simp only: if_False bind.bind_lunit prod.case not_True_eq_False)
  qed
qed

lemma getCBlock_ok:
  assumes e: "env_ok c env" and l: "loop_ok c env l" and s: "dStage (lctx l) = dstage_getCBlock"
  shows "wp (stage_getCBlock env l) (step_ok c env)"
proof -
  let ?d = "lctx l"
  have m: "moving c env l" and r: "ready (heap c) ?d (dstPtr l) (dstEnd env)" and t: "dtmpInTarget ?d \<le> dmaxBlockSize ?d + 4"
    "has_blocksum ?d \<longrightarrow> 4 \<le> dtmpInTarget ?d" using l s by (auto simp: loop_ok_def stage_ok_def)
  have b: "base_ok (heap c) ?d" "0 \<le> dtmpInTarget ?d" "srcStart c \<le> srcPtr l" using m by (auto simp: moving_def base_ok_def)
  show ?thesis
  proof (cases "srcEnd env - srcPtr l < dtmpInTarget ?d")
    case True
    have "moving c env (l\<lparr>lctx := ?d\<lparr>dtmpInSize := 0, dStage := dstage_storeCBlock\<rparr>\<rparr>)" using b by (intro moving_update(1)[OF m]) simp
    then show ?thesis using True r t b by (simp add: stage_getCBlock_def wp_Some step_ok_def loop_ok_def stage_ok_def)
  next
    case False
    let ?l = "l\<lparr>srcPtr := srcPtr l + dtmpInTarget ?d\<rparr>"
    have ml: "moving c env ?l" using moving_update(3)[OF m b(2)] False by simp
    have "outside (heap c) (srcPtr l) (dtmpInTarget ?d)" by (rule outside_part[OF env_okD(1)[OF e]]) (use False b in auto)
    then have "apart (srcPtr l) (dtmpInTarget ?d) (tmpOutBuffer ?d) (dmaxBufferSize ?d)" by (rule outside_owns[OF _ tmp_room(2)[OF r]])
    moreover have "apart (srcPtr l) (dtmpInTarget ?d) (dstStart env) (dstEnd env - dstStart env)"
      by (rule apart_part[OF env_okD(3)[OF e]]) (use False b in auto)
    ultimately show ?thesis using decode_block_ok[OF e ml, of "srcPtr l"] r t False by (simp add: stage_getCBlock_def)
  qed
qed

lemma storeCBlock_ok:
  assumes e: "env_ok c env" and l: "loop_ok c env l" and s: "dStage (lctx l) = dstage_storeCBlock"
  shows "wp (stage_storeCBlock env l) (step_ok c env)"
proof -
  let ?d = "lctx l"
  have m: "moving c env l" and r: "ready (heap c) ?d (dstPtr l) (dstEnd env)" and t: "dtmpInTarget ?d \<le> dmaxBlockSize ?d + 4"
    "has_blocksum ?d \<longrightarrow> 4 \<le> dtmpInTarget ?d" "dtmpInSize ?d \<le> dtmpInTarget ?d" using l s by (auto simp: loop_ok_def stage_ok_def)
  have z: "0 \<le> dtmpInSize ?d" using m by (simp add: moving_def base_ok_def)
  have "dmaxBlockSize ?d \<le> KB 4096" using readyD[OF r] by (auto simp: block_sizes_def)
  then have u: "usub (dtmpInTarget ?d) (dtmpInSize ?d) = dtmpInTarget ?d - dtmpInSize ?d" using t z by (intro usub_diff) auto
  have "0 \<le> dtmpInTarget ?d - dtmpInSize ?d" "dtmpInSize ?d + (dtmpInTarget ?d - dtmpInSize ?d) \<le> dmaxBlockSize ?d + 4" using t by auto
  from fill_tmpIn_ok[OF e m r this] show ?thesis unfolding stage_storeCBlock_def u wp_bind
  proof (rule wp_mono, elim exE conjE)
    fix l1 mem n assume h: "n = min (dtmpInTarget ?d - dtmpInSize ?d) (srcEnd env - srcPtr l)" "0 \<le> n" "moving c env l1"
      "l1 = l\<lparr>lmem := mem, lctx := ?d\<lparr>dtmpInSize := dtmpInSize ?d + n\<rparr>, srcPtr := srcPtr l + n\<rparr>"
    let ?e = "lctx l1"
    have r1: "ready (heap c) ?e (dstPtr l1) (dstEnd env)" and t1: "dtmpInTarget ?e \<le> dmaxBlockSize ?e + 4" "has_blocksum ?e \<longrightarrow> 4 \<le> dtmpInTarget ?e"
      using r t h(4) by auto
    have "loop_ok c env (l1\<lparr>nextSrcSizeHint := x\<rparr>) \<and> dStage ?e \<noteq> dstage_init" for x
      using h(1,3,4) r1 t1 s by (simp add: loop_ok_def stage_ok_def moving_update(2))
    moreover have "owns (heap c) (dtmpIn ?e) (dtmpInTarget ?e)" using t1 by (intro owns_part[OF tmp_room(1)[OF r1]]) auto
    then have "apart (dtmpIn ?e) (dtmpInTarget ?e) (dstStart env) (dstEnd env - dstStart env)" by (rule owns_outside[OF _ env_okD(2)[OF e]])
    moreover have "apart (dtmpIn ?e) (dtmpInTarget ?e) (tmpOutBuffer ?e) (dmaxBufferSize ?e)"
      using t1 by (intro apart_part[OF tmp_room(3)[OF r1]]) auto
    ultimately show "wp (let d = ?e in if dtmpInSize d < dtmpInTarget d
        then Some (Stop (l1\<lparr>nextSrcSizeHint := dtmpInTarget d - dtmpInSize d + (if has_blocksum d then BFSize else 0) + BHSize\<rparr>))
        else decode_block env l1 (dtmpIn d)) (step_ok c env)"
      using decode_block_ok[OF e h(3) r1 t1(2)] by (simp add: Let_def wp_simps step_ok_def)
  qed
qed

section \<open>The end of a frame, skippable frames\<close>

lemma reset_ok: "base_ok H d \<Longrightarrow> base_ok H (LZ4F_resetDecompressionContext d) \<and> stage_ok H (LZ4F_resetDecompressionContext d) a b"
  by (simp add: LZ4F_resetDecompressionContext_def stage_ok_def dict_out_def outside_def apart_def)

lemma reset_stop:
  assumes m: "moving c env l"
  shows "step_ok c env (Stop (l\<lparr>lctx := LZ4F_resetDecompressionContext (lctx l), nextSrcSizeHint := n\<rparr>))"
    "step_ok c env (Stop (l\<lparr>lctx := LZ4F_resetDecompressionContext (lctx l)\<rparr>))"
proof -
  have b: "base_ok (heap c) (lctx l)" using m by (simp add: moving_def)
  then have "moving c env (l\<lparr>lctx := LZ4F_resetDecompressionContext (lctx l)\<rparr>)"
    using moving_update(1)[OF m] reset_ok[of "heap c" "lctx l"] by blast
  then show "step_ok c env (Stop (l\<lparr>lctx := LZ4F_resetDecompressionContext (lctx l), nextSrcSizeHint := n\<rparr>))"
    "step_ok c env (Stop (l\<lparr>lctx := LZ4F_resetDecompressionContext (lctx l)\<rparr>))"
    using reset_ok[OF b] by (simp_all add: step_ok_def loop_ok_def moving_update(2)) (simp_all add: LZ4F_resetDecompressionContext_def)
qed

lemma check_suffix_ok:
  assumes m: "moving c env l" and r: "ready (heap c) (no_dict (lctx l)) a b" and h: "has_contentsum (lctx l)"
  shows "wp (check_suffix env l sel) (step_ok c env)"
proof -
  obtain xs where "XXH32_holds 0 (dxxh (lctx l)) xs" using r h by (auto simp: ready_def)
  from digest_ok[OF this, of "dmachine env"] show ?thesis
    using reset_stop(1)[OF m] m by (simp add: check_suffix_def Let_def read32_mem_value wp_simps) (simp add: step_ok_def)
qed

lemma storeSuffix_ok:
  assumes e: "env_ok c env" and l: "loop_ok c env l" and s: "dStage (lctx l) = dstage_storeSuffix"
  shows "wp (stage_storeSuffix env l) (step_ok c env)"
proof -
  let ?d = "lctx l"
  have m: "moving c env l" and r: "ready (heap c) (no_dict ?d) (dstPtr l) (dstEnd env)" and t: "dtmpInSize ?d \<le> 4" and h: "has_contentsum ?d"
    using l s by (auto simp: loop_ok_def stage_ok_def)
  have z: "0 \<le> dtmpInSize ?d" using m by (simp add: moving_def base_ok_def)
  have u: "usub 4 (dtmpInSize ?d) = 4 - dtmpInSize ?d" using t z by (intro usub_diff) auto
  have "0 \<le> 4 - dtmpInSize ?d" "dtmpInSize ?d + (4 - dtmpInSize ?d) \<le> dmaxBlockSize ?d + 4" using t tmp_room(4)[OF r] by auto
  from fill_tmpIn_owned[OF e m _ this] have "wp (fill_tmpIn env l (4 - dtmpInSize ?d)) (\<lambda>l'. \<exists>mem n. n = min (4 - dtmpInSize ?d) (srcEnd env - srcPtr l) \<and> 0 \<le> n \<and> moving c env l'
    \<and> l' = l\<lparr>lmem := mem, lctx := ?d\<lparr>dtmpInSize := dtmpInSize ?d + n\<rparr>, srcPtr := srcPtr l + n\<rparr>)" using tmp_room(1)[OF r] by simp
  then show ?thesis unfolding stage_storeSuffix_def u wp_bind
  proof (rule wp_mono, elim exE conjE)
    fix l1 mem n assume f: "n = min (4 - dtmpInSize ?d) (srcEnd env - srcPtr l)" "0 \<le> n" "moving c env l1"
      "l1 = l\<lparr>lmem := mem, lctx := ?d\<lparr>dtmpInSize := dtmpInSize ?d + n\<rparr>, srcPtr := srcPtr l + n\<rparr>"
    have r1: "ready (heap c) (no_dict (lctx l1)) (dstPtr l1) (dstEnd env)" "has_contentsum (lctx l1)" using r h f(4) by auto
    have "loop_ok c env (l1\<lparr>nextSrcSizeHint := x\<rparr>) \<and> dStage (lctx l1) \<noteq> dstage_init" for x
      using f(1,3,4) r1 s by (simp add: loop_ok_def stage_ok_def moving_update(2))
    then show "wp (if dtmpInSize (lctx l1) < 4 then Some (Stop (l1\<lparr>nextSrcSizeHint := 4 - dtmpInSize (lctx l1)\<rparr>))
       else check_suffix env l1 (dtmpIn (lctx l1))) (step_ok c env)"
      using check_suffix_ok[OF f(3) r1] by (simp add: wp_simps step_ok_def)
  qed
qed

lemma getSuffix_ok:
  assumes e: "env_ok c env" and l: "loop_ok c env l" and s: "dStage (lctx l) = dstage_getSuffix"
  shows "wp (stage_getSuffix env l) (step_ok c env)"
proof -
  let ?d = "lctx l" and ?l = "l\<lparr>lctx := (lctx l)\<lparr>dtmpInSize := 0, dStage := dstage_storeSuffix\<rparr>\<rparr>"
  have m: "moving c env l" and r: "ready (heap c) (no_dict ?d) (dstPtr l) (dstEnd env)" using l s by (auto simp: loop_ok_def stage_ok_def)
  have b: "base_ok (heap c) ?d" using m by (simp add: moving_def)
  show ?thesis
  proof (cases "frameRemainingSize ?d \<noteq> 0 \<or> \<not> has_contentsum ?d")
    case True
    then show ?thesis using m reset_stop(1)[OF m] by (auto simp: stage_getSuffix_def wp_simps step_ok_def)
  next
    case False
    have "wp (stage_storeSuffix env ?l) (step_ok c env)"
    proof (rule storeSuffix_ok[OF e])
      have "moving c env ?l" using b by (intro moving_update(1)[OF m]) simp
      then show "loop_ok c env ?l" using r False by (simp add: loop_ok_def stage_ok_def)
    qed simp
    moreover have "wp (check_suffix env (l\<lparr>srcPtr := srcPtr l + 4\<rparr>) (srcPtr l)) (step_ok c env)" if "\<not> srcEnd env - srcPtr l < 4"
      using check_suffix_ok[OF moving_update(3)[OF m, of 4], of "dstPtr l" "dstEnd env"] r False that by simp
    ultimately show ?thesis using False by (simp add: stage_getSuffix_def)
  qed
qed

lemma decode_SFrameSize_ok:
  assumes m: "moving c env l" and n: "4 \<le> length bs"
  shows "wp (decode_SFrameSize l bs) (step_ok c env)"
proof -
  obtain v where v: "LZ4F_readLE32 bs 0 = Some v" using readLE32_le_word[of bs 0] n by (auto simp: in_buf_def)
  let ?d = "(lctx l)\<lparr>dframeInfo := (dframeInfo (lctx l))\<lparr>contentSize := uint v\<rparr>, dtmpInTarget := uint v, dStage := dstage_skipSkippable\<rparr>"
  have "base_ok (heap c) ?d" using m by (simp add: moving_def)
  from moving_update(1)[OF m this] show ?thesis by (simp add: decode_SFrameSize_def v Let_def wp_Some step_ok_def loop_ok_def stage_ok_def)
qed

lemma storeSFrameSize_ok:
  assumes l: "loop_ok c env l" and s: "dStage (lctx l) = dstage_storeSFrameSize"
  shows "wp (stage_storeSFrameSize env l) (step_ok c env)"
proof -
  let ?d = "lctx l"
  have m: "moving c env l" and t: "dtmpInSize ?d \<le> 8" "dtmpInTarget ?d = 8" using l s by (auto simp: loop_ok_def stage_ok_def)
  have z: "0 \<le> dtmpInSize ?d" using m by (simp add: moving_def base_ok_def)
  have u: "usub (dtmpInTarget ?d) (dtmpInSize ?d) = 8 - dtmpInSize ?d" using t z by (simp add: usub_diff)
  have w: "0 \<le> 8 - dtmpInSize ?d" "dtmpInSize ?d + (8 - dtmpInSize ?d) \<le> 19" using t by auto
  from fill_header_ok[OF m w] show ?thesis unfolding stage_storeSFrameSize_def u wp_bind
  proof (rule wp_mono, elim exE conjE)
    fix l1 hdr n assume f: "n = min (8 - dtmpInSize ?d) (srcEnd env - srcPtr l)" "0 \<le> n" "length hdr = 19" "moving c env l1"
      "l1 = l\<lparr>lctx := ?d\<lparr>dheader := hdr, dtmpInSize := dtmpInSize ?d + n\<rparr>, srcPtr := srcPtr l + n\<rparr>"
    have "loop_ok c env (l1\<lparr>nextSrcSizeHint := x\<rparr>) \<and> dStage (lctx l1) \<noteq> dstage_init" for x
      using f t s by (simp add: loop_ok_def stage_ok_def moving_update(2))
    moreover have "rdn (dheader (lctx l1)) 4 4 = Some (seg (dheader (lctx l1)) 4 8)" "length (seg (dheader (lctx l1)) 4 8) = 4"
      using f(3,5) by (simp_all add: rdn_def in_buf_def)
    ultimately show "wp (let d = lctx l1 in if dtmpInSize d < dtmpInTarget d then Some (Stop (l1\<lparr>nextSrcSizeHint := dtmpInTarget d - dtmpInSize d\<rparr>))
       else do { s \<leftarrow> rdn (dheader d) 4 4; decode_SFrameSize l1 s }) (step_ok c env)"
      using decode_SFrameSize_ok[OF f(4), of "seg (dheader (lctx l1)) 4 8"] by (simp add: Let_def wp_simps step_ok_def)
  qed
qed

lemma getSFrameSize_ok:
  assumes l: "loop_ok c env l" and s: "dStage (lctx l) = dstage_getSFrameSize"
  shows "wp (stage_getSFrameSize env l) (step_ok c env)"
proof -
  let ?l = "l\<lparr>lctx := (lctx l)\<lparr>dtmpInSize := 4, dtmpInTarget := 8, dStage := dstage_storeSFrameSize\<rparr>\<rparr>"
  have m: "moving c env l" using l by (simp add: loop_ok_def)
  have "moving c env ?l" using m by (intro moving_update(1)[OF m]) (simp add: moving_def)
  then have "loop_ok c env ?l" by (simp add: loop_ok_def stage_ok_def)
  from storeSFrameSize_ok[OF this] show ?thesis
    using decode_SFrameSize_ok[OF moving_update(3)[OF m, of 4], of "read_mem (lmem l) (srcPtr l) 4"] by (simp add: stage_getSFrameSize_def)
qed

lemma skipSkippable_ok:
  assumes l: "loop_ok c env l" and s: "dStage (lctx l) = dstage_skipSkippable"
  shows "wp (stage_skipSkippable env l) (step_ok c env)"
proof -
  let ?n = "min (dtmpInTarget (lctx l)) (srcEnd env - srcPtr l)"
  let ?d = "(lctx l)\<lparr>dtmpInTarget := dtmpInTarget (lctx l) - ?n\<rparr>"
  have m: "moving c env l" using l by (simp add: loop_ok_def)
  have n: "0 \<le> ?n" "srcPtr l + ?n \<le> srcEnd env" "base_ok (heap c) ?d" using m by (auto simp: moving_def base_ok_def alloc_ok_def tmp_ok_def)
  have m': "moving c env (l\<lparr>srcPtr := srcPtr l + ?n, lctx := ?d\<rparr>)"
    using moving_update(1)[OF moving_update(3)[OF m n(1,2)] n(3)] by simp
  have "base_ok (heap c) (LZ4F_resetDecompressionContext ?d)" using reset_ok[OF n(3)] by blast
  from moving_update(1)[OF m' this] have r: "moving c env (l\<lparr>srcPtr := srcPtr l + ?n, lctx := LZ4F_resetDecompressionContext ?d\<rparr>)" by simp
  have k: "stage_ok (heap c) ?d (dstPtr l) (dstEnd env)" using s by (simp add: stage_ok_def)
  have "step_ok c env (Stop (l\<lparr>srcPtr := srcPtr l + ?n, nextSrcSizeHint := x, lctx := ?d\<rparr>))" for x
    using m' k s by (simp add: step_ok_def loop_ok_def moving_def)
  moreover have "step_ok c env (Stop (l\<lparr>srcPtr := srcPtr l + ?n, nextSrcSizeHint := x, lctx := LZ4F_resetDecompressionContext ?d\<rparr>))" for x
    using r reset_ok[OF n(3)] by (simp add: step_ok_def loop_ok_def moving_def) (simp add: LZ4F_resetDecompressionContext_def)
  ultimately show ?thesis unfolding stage_skipSkippable_def Let_def wp_Some by (cases "dtmpInTarget ?d \<noteq> 0") (simp_all only: if_True if_False simp_thms)
qed

section \<open>The state machine\<close>

lemma dispatch_ok:
  assumes e: "env_ok c env" and l: "loop_ok c env l"
  shows "wp (dispatch env l) (step_ok c env)"
  using getFrameHeader_ok[OF l] storeFrameHeader_ok[OF l] init_ok[OF e l] getBlockHeader_ok[OF e l] storeBlockHeader_ok[OF e l]
    copyDirect_ok[OF e l] getBlockChecksum_ok[OF l] getCBlock_ok[OF e l] storeCBlock_ok[OF e l] flushOut_ok[OF e l]
    getSuffix_ok[OF e l] storeSuffix_ok[OF e l] getSFrameSize_ok[OF l] storeSFrameSize_ok[OF l] skipSkippable_ok[OF l]
  by (cases "dStage (lctx l)") (simp_all add: dispatch_def)

definition run_post :: "dcall \<Rightarrow> denv \<Rightarrow> (LZ4F_errorCodes + int) \<times> dloop + dloop \<Rightarrow> bool" where
  "run_post c env r = (case r of Inl (ret, l) \<Rightarrow> step_ok c env (Return ret l) | Inr l \<Rightarrow> step_ok c env (Stop l))"

lemma run_stages_ok: "env_ok c env \<Longrightarrow> loop_ok c env l \<Longrightarrow> wp (run_stages env l) (run_post c env)"
proof (induction env l rule: run_stages.induct)
  case (1 env l)
  have r: "in_range env l" using 1(3) by (intro moving_in_range[of c]) (simp add: loop_ok_def)
  from dispatch_ok[OF 1(2,3)] obtain s where s: "dispatch env l = Some s" "step_ok c env s" by (auto simp: wp_iff)
  show ?case
  proof (cases s)
    case (Again l')
    then have "loop_ok c env l'" using s(2) by (simp add: step_ok_def)
    from 1(1)[OF _ s(1) Again 1(2) this] r show ?thesis using s(1) Again by (subst run_stages.simps) simp
  qed (use s r in \<open>subst run_stages.simps, simp add: run_post_def wp_Some\<close>)+
qed

section \<open>History at the end of a call\<close>

lemma preserve_stage:
  assumes s: "stage_ok H d a b" and st: "dStage d \<in> {dstage_getBlockHeader, dstage_storeBlockHeader, dstage_copyDirect, dstage_getBlockChecksum,
      dstage_getCBlock, dstage_storeCBlock}"
    and r: "ready H (d\<lparr>ddict := x, ddictSize := y, tmpOut := t\<rparr>) a b"
  shows "stage_ok H (d\<lparr>ddict := x, ddictSize := y, tmpOut := t\<rparr>) a b"
  using assms by (auto simp: stage_ok_def blocksum_ok_def)

lemma must_preserve_ready:
  assumes "stage_ok H d a b" "must_preserve env d" "dStage d \<noteq> dstage_init"
  shows "ready H d a b" "linked d" "ddict d \<noteq> tmpOutBuffer d"
  using assms by (auto simp: must_preserve_def stage_ok_def)

lemma preserve_history_ok:
  assumes l: "loop_ok c env l" and i: "dStage (lctx l) \<noteq> dstage_init"
  shows "wp (preserve_history env l) (\<lambda>l'. loop_ok c env l' \<and> (must_preserve env (lctx l) \<longrightarrow> ddict (lctx l') = tmpOutBuffer (lctx l'))
    \<and> (\<not> must_preserve env (lctx l) \<longrightarrow> l' = l) \<and> srcPtr l' = srcPtr l \<and> dstPtr l' = dstPtr l \<and> dStage (lctx l') = dStage (lctx l)
    \<and> dframeInfo (lctx l') = dframeInfo (lctx l) \<and> dtmpInSize (lctx l') = dtmpInSize (lctx l) \<and> dtmpInTarget (lctx l') = dtmpInTarget (lctx l))"
proof (cases "must_preserve env (lctx l)")
  case False
  then show ?thesis using l by (simp add: preserve_history_def Let_def wp_Some)
next
  case True
  let ?d = "lctx l"
  have m: "moving c env l" and s: "stage_ok (heap c) ?d (dstPtr l) (dstEnd env)" using l by (auto simp: loop_ok_def)
  note r = must_preserve_ready[OF s True i] and room = tmp_room[OF must_preserve_ready(1)[OF s True i]]
  note o = dict_outside[OF r(1,3)]
  have cf: "confined c env (lmem l)" "base_ok (heap c) ?d" using m by (auto simp: moving_def)
  show ?thesis
  proof (cases "dStage ?d = dstage_flushOut")
    case fl: True
    have f: "flush_ok ?d" using s fl by (simp add: stage_ok_def)
    then have g: "tmpOutBuffer ?d \<le> tmpOut ?d" "0 \<le> tmpOutStart ?d" "tmpOutStart ?d \<le> tmpOutSize ?d"
      "tmpOut ?d - tmpOutBuffer ?d + tmpOutSize ?d \<le> dmaxBufferSize ?d"
      "history_copy ?d = 0 \<or> history_copy ?d + tmpOutStart ?d \<le> ddictSize ?d" using r(2,3) by (auto simp: flush_ok_def)
    note h = history_copy_nonneg[OF g(1)]
    let ?k = "history_copy ?d" and ?e = "?d\<lparr>ddict := tmpOutBuffer ?d, ddictSize := tmpOut ?d - tmpOutBuffer ?d + tmpOutStart ?d\<rparr>"
    have ow: "owns (heap c) (tmpOut ?d - ?k) ?k" using h g by (intro owns_part[OF room(2)]) auto
    have "?k \<noteq> 0 \<Longrightarrow> apart (tmpOut ?d - ?k) ?k (ddict ?d + ddictSize ?d - tmpOutStart ?d - ?k) ?k"
      using g(2,5) by (intro owns_outside[OF ow] outside_part[OF o(2)]) auto
    then have a: "apart (tmpOut ?d - ?k) ?k (ddict ?d + ddictSize ?d - tmpOutStart ?d - ?k) ?k" by (auto simp: apart_def)
    have "ready (heap c) ?e (dstPtr l) (dstEnd env)" using g by (intro to_tmp[OF r(1,2)]) auto
    moreover have "flush_ok ?e" using g by (simp add: flush_ok_def)
    moreover have "confined c env (write_mem (lmem l) (tmpOut ?d - ?k) (read_mem (lmem l) p ?k))" for p
      by (rule confined_copy[OF cf(1) disjI2, OF ow])
    ultimately show ?thesis using True fl a m cf(2) unfolding preserve_history_def Let_def history_copy_def[symmetric]
      by (simp add: wp_simps loop_ok_def moving_def stage_ok_def)
  next
    case False
    have st: "dStage ?d \<in> {dstage_getBlockHeader, dstage_storeBlockHeader, dstage_copyDirect, dstage_getBlockChecksum, dstage_getCBlock, dstage_storeCBlock}"
      using True False i by (auto simp: must_preserve_def)
    let ?k = "min (ddictSize ?d) (KB 64)"
    let ?e = "?d\<lparr>ddict := tmpOutBuffer ?d, ddictSize := ?k, tmpOut := tmpOutBuffer ?d + ?k\<rparr>"
    have k: "0 \<le> ?k" "?k \<le> dmaxBufferSize ?d" "?k \<le> ddictSize ?d" using o(1) room(4,5) by auto
    have ow: "owns (heap c) (tmpOutBuffer ?d) ?k" using k by (intro owns_part[OF room(2)]) auto
    have a: "apart (tmpOutBuffer ?d) ?k (ddict ?d + ddictSize ?d - ?k) ?k"
      using k by (intro owns_outside[OF ow] outside_part[OF o(2)]) auto
    have "ready (heap c) ?e (dstPtr l) (dstEnd env)" using to_tmp[OF r(1,2) k(1,2), of "dstPtr l" "dstEnd env"] r(2)
      by (simp add: ready_def tmp_ok_def in_tmp_def dict_out_def)
    then have "stage_ok (heap c) ?e (dstPtr l) (dstEnd env)" by (rule preserve_stage[OF s st])
    moreover have "confined c env (write_mem (lmem l) (tmpOutBuffer ?d) (read_mem (lmem l) p ?k))" for p
      by (rule confined_copy[OF cf(1) disjI2, OF ow])
    ultimately show ?thesis using True False a m cf(2) unfolding preserve_history_def Let_def
      by (simp add: wp_simps loop_ok_def moving_def)
  qed
qed

section \<open>Whose the dictionary is\<close>

text \<open>A context that is given no dictionary has one only in the blocks of a linked frame.\<close>

definition owned :: "LZ4F_dctx \<Rightarrow> bool" where
  "owned d \<longleftrightarrow> ddictSize d = 0 \<or> linked d \<and> dStage d \<notin> {dstage_getFrameHeader, dstage_storeFrameHeader, dstage_init}"

primrec step_state :: "step \<Rightarrow> dloop" where
  "step_state (Again l) = l"
| "step_state (Stop l) = l"
| "step_state (Return r l) = l"

lemma updateDict_keeps:
  "LZ4F_updateDict d mem dst n start within = Some (d', mem') \<Longrightarrow> dframeInfo d' = dframeInfo d \<and> dStage d' = dStage d"
  by (auto simp: LZ4F_updateDict_def dict_within_tmp_def dict_append_tmp_def dict_join_tmp_def Let_def split: Option.bind_splits if_splits)

lemma account_keeps: "account env d bs = Some d' \<Longrightarrow> dframeInfo d' = dframeInfo d \<and> dStage d' = dStage d \<and> ddictSize d' = ddictSize d"
  by (auto simp: account_def split: Option.bind_splits if_splits)

lemma place_keeps:
  "place_tmpOut d mem = Some (d', mem') \<Longrightarrow> dframeInfo d' = dframeInfo d \<and> dStage d' = dStage d \<and> (\<not> linked d \<longrightarrow> ddictSize d' = ddictSize d)"
  by (auto simp: place_tmpOut_def split: Option.bind_splits if_splits)

lemma fill_keeps:
  "fill_header env l w = Some l' \<Longrightarrow> dframeInfo (lctx l') = dframeInfo (lctx l) \<and> ddictSize (lctx l') = ddictSize (lctx l)
     \<and> dStage (lctx l') = dStage (lctx l)"
  "fill_tmpIn env l w = Some l' \<Longrightarrow> dframeInfo (lctx l') = dframeInfo (lctx l) \<and> ddictSize (lctx l') = ddictSize (lctx l)
     \<and> dStage (lctx l') = dStage (lctx l)"
  by (auto simp: fill_header_def fill_tmpIn_def Let_def split: Option.bind_splits)

abbreviation keeps_dict :: "LZ4F_dctx \<Rightarrow> bool" where
  "keeps_dict d \<equiv> ddictSize d = 0 \<or> linked d"

lemma owned_stage: "keeps_dict d \<Longrightarrow> s \<notin> {dstage_getFrameHeader, dstage_storeFrameHeader, dstage_init} \<Longrightarrow> owned (d\<lparr>dStage := s\<rparr>)"
  by (auto simp: owned_def)

lemma owned_reset: "owned (LZ4F_resetDecompressionContext d)"
  by (simp add: owned_def LZ4F_resetDecompressionContext_def)

lemma decodeHeader_dict:
  "LZ4F_decodeHeader machine d src ih = Some (r, d') \<Longrightarrow> length (dheader d) = 19 \<Longrightarrow> ddictSize d' = ddictSize d"
  using decodeHeader_ok[of d machine src ih] by (auto simp: wp_iff header_post_def same_buffers_def)

lemma header_owned:
  assumes "length (dheader (lctx l)) = 19" "ddictSize (lctx l) = 0"
  shows "stage_storeFrameHeader env l = Some s \<Longrightarrow> owned (lctx (step_state s))"
    and "stage_getFrameHeader env l = Some s \<Longrightarrow> owned (lctx (step_state s))"
proof -
  have store: "owned (lctx (step_state s))" if s: "stage_storeFrameHeader env l = Some s" and h: "length (dheader (lctx l)) = 19" and z: "ddictSize (lctx l) = 0"
    for l :: dloop and s
  proof -
    obtain l1 where l1: "fill_header env l (usub (dtmpInTarget (lctx l)) (dtmpInSize (lctx l))) = Some l1"
      using s by (auto simp: stage_storeFrameHeader_def split: Option.bind_splits)
    have "ddictSize (lctx l1) = 0" "length (dheader (lctx l1)) = 19" using fill_keeps(1)[OF l1] fill_header_src[OF l1] z h by auto
    then show ?thesis using s l1 decodeHeader_dict[of "dmachine env" "lctx l1"]
      by (auto simp: stage_storeFrameHeader_def Let_def owned_def split: Option.bind_splits if_splits sum.splits)
  qed
  show "stage_storeFrameHeader env l = Some s \<Longrightarrow> owned (lctx (step_state s))" using store assms by blast
  assume "stage_getFrameHeader env l = Some s"
  then show "owned (lctx (step_state s))" using store[of "l\<lparr>lctx := (lctx l)\<lparr>dtmpInSize := 0, dtmpInTarget := minFHSize, dStage := dstage_storeFrameHeader\<rparr>\<rparr>"]
      decodeHeader_dict[of "dmachine env" "lctx l"] assms
    by (auto simp: stage_getFrameHeader_def Let_def owned_def split: Option.bind_splits if_splits sum.splits)
qed

lemma block_header_owned:
  "decode_block_header env l sel = Some s \<Longrightarrow> owned (lctx l) \<Longrightarrow> keeps_dict (lctx l) \<Longrightarrow> owned (lctx (step_state s))"
  by (auto simp: decode_block_header_def Let_def owned_def split: Option.bind_splits if_splits)

lemma storeBlockHeader_owned:
  assumes s: "stage_storeBlockHeader env l = Some s" and o: "owned (lctx l)"
  shows "owned (lctx (step_state s))"
proof -
  obtain l1 where l1: "fill_tmpIn env l (usub BHSize (dtmpInSize (lctx l))) = Some l1"
    using s by (auto simp: stage_storeBlockHeader_def split: Option.bind_splits)
  have "owned (lctx l1)" "keeps_dict (lctx l1)" using fill_keeps(2)[OF l1] o by (auto simp: owned_def)
  then show ?thesis using s l1 by (auto simp: stage_storeBlockHeader_def owned_def split: if_splits dest: block_header_owned)
qed

lemma getBlockHeader_owned:
  "stage_getBlockHeader env l = Some s \<Longrightarrow> owned (lctx l) \<Longrightarrow> owned (lctx (step_state s))"
  by (auto simp: stage_getBlockHeader_def owned_def split: if_splits dest!: storeBlockHeader_owned block_header_owned)

lemma init_owned:
  assumes "stage_init env l = Some s" "ddictSize (lctx l) = 0"
  shows "owned (lctx (step_state s))"
proof -
  let ?d = "if has_contentsum (lctx l) then (lctx l)\<lparr>dxxh := XXH32_reset 0\<rparr> else lctx l"
  have "ddictSize d = 0" if "init_buffers env ?d = Inl (e, d) \<or> init_buffers env ?d = Inr d" for e d
    using that assms(2) by (auto simp: init_buffers_def Let_def split: if_splits)
  then show ?thesis using assms
    by (auto simp: stage_init_def Let_def owned_def split: sum.splits prod.splits dest!: getBlockHeader_owned)
qed

lemma copyDirect_owned:
  assumes s: "stage_copyDirect env l = Some s" and o: "owned (lctx l)" and st: "dStage (lctx l) = dstage_copyDirect"
  shows "owned (lctx (step_state s))"
proof -
  have k: "keeps_dict (lctx l') \<and> dStage (lctx l') = dstage_copyDirect" if "copy_direct env l n = Some l'" for l' n
    using that o st by (auto simp: copy_direct_def Let_def owned_def split: Option.bind_splits if_splits dest!: account_keeps updateDict_keeps)
  obtain l1 where l1: "keeps_dict (lctx l1)" "dStage (lctx l1) = dstage_copyDirect"
    and "\<exists>n. (let d = lctx l1 in if n = dtmpInTarget d then
         Some (Again (l1\<lparr>lctx := (if has_blocksum d then d\<lparr>dtmpInSize := 0, dStage := dstage_getBlockChecksum\<rparr> else d\<lparr>dStage := dstage_getBlockHeader\<rparr>)\<rparr>))
       else let d = d\<lparr>dtmpInTarget := dtmpInTarget d - n\<rparr> in
         Some (Stop (l1\<lparr>lctx := d, nextSrcSizeHint := dtmpInTarget d + (if has_blocksum d then BFSize else 0) + BHSize\<rparr>))) = Some s"
  proof (cases "dstPtr l = 0")
    case True
    then show ?thesis using s o st by (intro that[OF _ _ exI[of _ 0], of l]) (simp_all add: stage_copyDirect_def owned_def)
  next
    case False
    then obtain l1 where l1: "copy_direct env l (min (dtmpInTarget (lctx l)) (min (srcEnd env - srcPtr l) (dstEnd env - dstPtr l))) = Some l1"
      using s by (auto simp: stage_copyDirect_def Let_def split: Option.bind_splits)
    then show ?thesis using False s k[OF l1]
      by (intro that[OF _ _ exI[of _ "min (dtmpInTarget (lctx l)) (min (srcEnd env - srcPtr l) (dstEnd env - dstPtr l))"], of l1])
         (simp_all add: stage_copyDirect_def Let_def)
  qed
  then show ?thesis by (auto simp: Let_def owned_def split: if_splits)
qed

lemma check_block_owned: "check_block env l bs = Some s \<Longrightarrow> owned (lctx l) \<Longrightarrow> owned (lctx (step_state s))"
  by (auto simp: check_block_def Let_def owned_def split: Option.bind_splits if_splits)

lemma getBlockChecksum_owned: "stage_getBlockChecksum env l = Some s \<Longrightarrow> owned (lctx l) \<Longrightarrow> owned (lctx (step_state s))"
  using fill_keeps(1)[of env l]
  by (auto simp: stage_getBlockChecksum_def owned_def split: Option.bind_splits if_splits dest!: check_block_owned)

lemma flushOut_owned:
  assumes s: "stage_flushOut env l = Some s" and k: "keeps_dict (lctx l)" and st: "dStage (lctx l) = dstage_flushOut"
  shows "owned (lctx (step_state s))"
  using s k st by (auto simp: stage_flushOut_def Let_def owned_def split: Option.bind_splits if_splits dest!: updateDict_keeps)

lemma decode_block_owned:
  assumes s: "decode_block env l sel = Some s" and o: "owned (lctx l)" and st: "dStage (lctx l) \<in> {dstage_getCBlock, dstage_storeCBlock}"
  shows "owned (lctx (step_state s))"
proof -
  have dst: "owned (lctx (step_state s))" if "decode_to_dst env l sel = Some s" "keeps_dict (lctx l)" "dStage (lctx l) \<in> {dstage_getCBlock, dstage_storeCBlock}" for l s
    using that by (auto simp: decode_to_dst_def owned_def split: Option.bind_splits if_splits dest!: account_keeps updateDict_keeps)
  have tmp: "owned (lctx (step_state s))" if t: "decode_to_tmp env l sel = Some s" and k: "keeps_dict (lctx l)" "dStage (lctx l) \<in> {dstage_getCBlock, dstage_storeCBlock}" for l s
  proof -
    obtain d mem where p: "place_tmpOut (lctx l) (lmem l) = Some (d, mem)" using t by (auto simp: decode_to_tmp_def split: Option.bind_splits)
    note pk = place_keeps[OF p]
    obtain n mem' where cb: "call_block env (l\<lparr>lctx := d, lmem := mem\<rparr>) sel (tmpOut d) = Some (n, mem')"
      using t p by (auto simp: decode_to_tmp_def Let_def split: Option.bind_splits)
    show ?thesis
    proof (cases "n < 0")
      case True
      then show ?thesis using t p cb pk k by (auto simp: decode_to_tmp_def Let_def owned_def)
    next
      case False
      then obtain d' where a: "account env d (read_mem mem' (tmpOut d) n) = Some d'"
        and f: "stage_flushOut env (l\<lparr>lmem := mem', lctx := d'\<lparr>tmpOutSize := n, tmpOutStart := 0, dStage := dstage_flushOut\<rparr>\<rparr>) = Some s"
        using t p cb by (auto simp: decode_to_tmp_def Let_def split: Option.bind_splits)
      then show ?thesis using account_keeps[OF a] pk k by (intro flushOut_owned[OF f]) auto
    qed
  qed
  have k: "keeps_dict (lctx l)" using o by (auto simp: owned_def)
  have fin: "owned (lctx (step_state s))"
    if "s = Return (Inl ERROR_blockChecksum_invalid) l' \<or> decode_to_dst env l' sel = Some s \<or> decode_to_tmp env l' sel = Some s"
      and "l' = l \<or> l' = l\<lparr>lctx := (lctx l)\<lparr>dtmpInTarget := dtmpInTarget (lctx l) - 4\<rparr>\<rparr>" for l'
  proof -
    have "keeps_dict (lctx l')" "dStage (lctx l') \<in> {dstage_getCBlock, dstage_storeCBlock}" using that(2) k st by auto
    then show ?thesis using that(1) dst[of l' s] tmp[of l' s] by (auto simp: owned_def)
  qed
  show ?thesis
  proof (cases "has_blocksum (lctx l)")
    case True
    let ?l = "l\<lparr>lctx := (lctx l)\<lparr>dtmpInTarget := dtmpInTarget (lctx l) - 4\<rparr>\<rparr>"
    have "s = Return (Inl ERROR_blockChecksum_invalid) ?l \<or> decode_to_dst env ?l sel = Some s \<or> decode_to_tmp env ?l sel = Some s"
      using s True unfolding decode_block_def Let_def by (simp split: Option.bind_splits if_splits)
    then show ?thesis using fin by blast
  next
    case False
    then have "decode_to_dst env l sel = Some s \<or> decode_to_tmp env l sel = Some s"
      using s unfolding decode_block_def Let_def by (simp split: if_splits)
    then show ?thesis using fin by blast
  qed
qed

lemma getCBlock_owned: "stage_getCBlock env l = Some s \<Longrightarrow> owned (lctx l) \<Longrightarrow> dStage (lctx l) = dstage_getCBlock \<Longrightarrow> owned (lctx (step_state s))"
  by (auto simp: stage_getCBlock_def split: if_splits dest!: decode_block_owned) (auto simp: owned_def)

lemma storeCBlock_owned:
  assumes s: "stage_storeCBlock env l = Some s" and o: "owned (lctx l)" and st: "dStage (lctx l) = dstage_storeCBlock"
  shows "owned (lctx (step_state s))"
proof -
  obtain l1 where l1: "fill_tmpIn env l (usub (dtmpInTarget (lctx l)) (dtmpInSize (lctx l))) = Some l1"
    using s by (auto simp: stage_storeCBlock_def split: Option.bind_splits)
  have "owned (lctx l1)" "dStage (lctx l1) = dstage_storeCBlock" using fill_keeps(2)[OF l1] o st by (auto simp: owned_def)
  then show ?thesis using s l1 decode_block_owned[of env l1] by (auto simp: stage_storeCBlock_def Let_def split: if_splits)
qed

lemma check_suffix_owned: "check_suffix env l sel = Some s \<Longrightarrow> owned (lctx l) \<Longrightarrow> owned (lctx (step_state s))"
  by (auto simp: check_suffix_def Let_def owned_reset split: Option.bind_splits if_splits)

lemma suffix_owned:
  "stage_storeSuffix env l = Some s \<Longrightarrow> owned (lctx l) \<Longrightarrow> owned (lctx (step_state s))"
  "stage_getSuffix env l = Some s \<Longrightarrow> owned (lctx l) \<Longrightarrow> owned (lctx (step_state s))"
proof -
  have store: "stage_storeSuffix env l = Some s \<Longrightarrow> owned (lctx l) \<Longrightarrow> owned (lctx (step_state s))" for l s
    using fill_keeps(2)[of env l "usub 4 (dtmpInSize (lctx l))"] check_suffix_owned
    by (auto simp: stage_storeSuffix_def owned_def split: Option.bind_splits if_splits)
  then show "stage_storeSuffix env l = Some s \<Longrightarrow> owned (lctx l) \<Longrightarrow> owned (lctx (step_state s))" .
  assume g: "stage_getSuffix env l = Some s" "owned (lctx l)"
  have "owned ((lctx l)\<lparr>dtmpInSize := 0, dStage := dstage_storeSuffix\<rparr>)" using g(2) by (auto simp: owned_def)
  then show "owned (lctx (step_state s))" using g store[of "l\<lparr>lctx := (lctx l)\<lparr>dtmpInSize := 0, dStage := dstage_storeSuffix\<rparr>\<rparr>" s]
      check_suffix_owned[of env "l\<lparr>srcPtr := srcPtr l + 4\<rparr>" "srcPtr l" s]
    by (auto simp: stage_getSuffix_def owned_reset split: if_splits)
qed

lemma skippable_owned:
  "decode_SFrameSize l bs = Some s \<Longrightarrow> owned (lctx l) \<Longrightarrow> keeps_dict (lctx l) \<Longrightarrow> owned (lctx (step_state s))"
  "stage_storeSFrameSize env l = Some s \<Longrightarrow> owned (lctx l) \<Longrightarrow> owned (lctx (step_state s))"
  "stage_getSFrameSize env l = Some s \<Longrightarrow> owned (lctx l) \<Longrightarrow> owned (lctx (step_state s))"
  "stage_skipSkippable env l = Some s \<Longrightarrow> owned (lctx l) \<Longrightarrow> owned (lctx (step_state s))"
proof -
  have d: "decode_SFrameSize l bs = Some s \<Longrightarrow> owned (lctx l) \<Longrightarrow> owned (lctx (step_state s))" for l bs s
    by (auto simp: decode_SFrameSize_def Let_def owned_def split: Option.bind_splits)
  then show "decode_SFrameSize l bs = Some s \<Longrightarrow> owned (lctx l) \<Longrightarrow> keeps_dict (lctx l) \<Longrightarrow> owned (lctx (step_state s))" .
  have st: "stage_storeSFrameSize env l = Some s \<Longrightarrow> owned (lctx l) \<Longrightarrow> owned (lctx (step_state s))" for l s
    using fill_keeps(1)[of env l "usub (dtmpInTarget (lctx l)) (dtmpInSize (lctx l))"] d
    by (auto simp: stage_storeSFrameSize_def Let_def owned_def split: Option.bind_splits if_splits)
  then show "stage_storeSFrameSize env l = Some s \<Longrightarrow> owned (lctx l) \<Longrightarrow> owned (lctx (step_state s))" .
  have "owned (lctx l) \<Longrightarrow> owned ((lctx l)\<lparr>dtmpInSize := 4, dtmpInTarget := 8, dStage := dstage_storeSFrameSize\<rparr>)" by (auto simp: owned_def)
  then show "stage_getSFrameSize env l = Some s \<Longrightarrow> owned (lctx l) \<Longrightarrow> owned (lctx (step_state s))"
    using st[of "l\<lparr>lctx := (lctx l)\<lparr>dtmpInSize := 4, dtmpInTarget := 8, dStage := dstage_storeSFrameSize\<rparr>\<rparr>" s]
      d[of "l\<lparr>srcPtr := srcPtr l + 4\<rparr>" "read_mem (lmem l) (srcPtr l) 4" s] by (auto simp: stage_getSFrameSize_def split: if_splits)
  show "stage_skipSkippable env l = Some s \<Longrightarrow> owned (lctx l) \<Longrightarrow> owned (lctx (step_state s))"
    by (auto simp: stage_skipSkippable_def Let_def owned_reset) (auto simp: owned_def)
qed

lemma dispatch_owned:
  assumes d: "dispatch env l = Some s" and o: "owned (lctx l)" and h: "length (dheader (lctx l)) = 19"
  shows "owned (lctx (step_state s))"
proof (cases "dStage (lctx l) \<in> {dstage_getFrameHeader, dstage_storeFrameHeader, dstage_init}")
  case True
  then have "ddictSize (lctx l) = 0" using o by (simp add: owned_def)
  then show ?thesis using True d header_owned[OF h] init_owned by (auto simp: dispatch_def)
next
  case False
  have flush: "stage_flushOut env l = Some s \<Longrightarrow> dStage (lctx l) = dstage_flushOut \<Longrightarrow> owned (lctx (step_state s))"
    using o by (intro flushOut_owned) (auto simp: owned_def)
  show ?thesis using d o False flush getBlockHeader_owned storeBlockHeader_owned copyDirect_owned getBlockChecksum_owned
      getCBlock_owned storeCBlock_owned suffix_owned skippable_owned
    by (cases "dStage (lctx l)") (simp_all add: dispatch_def)
qed

lemma run_owned:
  "run_stages env l = Some r \<Longrightarrow> owned (lctx l)
    \<Longrightarrow> owned (lctx (case r of Inl (ret, l') \<Rightarrow> l' | Inr l' \<Rightarrow> l'))"
proof (induction env l arbitrary: r rule: run_stages.induct)
  case (1 env l)
  have i: "in_range env l" using 1(2) by (subst (asm) run_stages.simps) (auto split: if_splits)
  then obtain s where s: "dispatch env l = Some s" using 1(2) by (subst (asm) run_stages.simps) (auto split: option.splits)
  have o: "owned (lctx (step_state s))" using dispatch_owned[OF s 1(3)] i by (simp add: in_range_def)
  show ?case
  proof (cases s)
    case (Again l')
    then have "run_stages env l' = Some r" using 1(2) i s by (subst (asm) run_stages.simps) simp
    from 1(1)[OF _ s Again this] i o Again show ?thesis by simp
  qed (use 1(2) i s o in \<open>subst (asm) run_stages.simps, auto\<close>)+
qed

end
