(* ===== verification/LZ4F_Session.thy ===== *)
theory LZ4F_Session
  imports LZ4F_Decompress_Safe
begin

text \<open>
  The life of a decompression context: created, fed with arbitrary input call by call, asked for the
  frame parameters, reset after an error. Every call is safe, and every call that is given input and
  room for output consumes or produces something.
\<close>

section \<open>One call\<close>

definition allocator_ok :: "int set \<Rightarrow> denv \<Rightarrow> bool" where
  "allocator_ok H env \<longleftrightarrow> (\<forall>p \<in> H. 0 < p)
     \<and> (\<forall>bs \<in> block_sizes. malloc_in env (bs + 4) = 0 \<or> owns H (malloc_in env (bs + 4)) (bs + 4))
     \<and> (\<forall>bs \<in> block_sizes. \<forall>n \<in> {bs, bs + KB 128}. (malloc_out env n = 0 \<or> owns H (malloc_out env n) n)
          \<and> apart (malloc_in env (bs + 4)) (bs + 4) (malloc_out env n) n)"

definition caller_ok :: "int set \<Rightarrow> denv \<Rightarrow> int \<Rightarrow> int \<Rightarrow> int \<Rightarrow> int \<Rightarrow> bool" where
  "caller_ok H env dst cap src n \<longleftrightarrow> allocator_ok H env \<and> 0 \<le> cap \<and> 0 \<le> n \<and> 0 \<le> dst \<and> (dst = 0 \<longrightarrow> cap = 0)
     \<and> outside H src n \<and> outside H (dst - 1) (cap + 2) \<and> apart src n dst cap"

text \<open>Between calls no dictionary lies in the caller's buffers, unless the next stages drop it.\<close>

definition private_dict :: "LZ4F_dctx \<Rightarrow> bool" where
  "private_dict d \<longleftrightarrow> ddictSize d = 0 \<or> in_tmp d
     \<or> dStage d \<in> {dstage_getSuffix, dstage_storeSuffix, dstage_getSFrameSize, dstage_storeSFrameSize, dstage_skipSkippable}"

definition idle_ok :: "int set \<Rightarrow> LZ4F_dctx \<Rightarrow> bool" where
  "idle_ok H d \<longleftrightarrow> dctx_ok H d 0 0 \<and> owned d \<and> private_dict d"

lemma ready_private: "ready H d x y \<Longrightarrow> ddictSize d = 0 \<or> in_tmp d \<Longrightarrow> ready H d a b"
  by (auto simp: ready_def dict_out_def outside_def apart_def)

lemma ready_no_dict_any: "ready H (no_dict d) x y \<Longrightarrow> ready H (no_dict d) a b"
  by (rule ready_private) simp_all

lemma stage_private:
  assumes s: "stage_ok H d x y" and p: "private_dict d" and o: "owned d"
  shows "stage_ok H d a b"
proof (cases "dStage d \<in> {dstage_getFrameHeader, dstage_storeFrameHeader, dstage_init}")
  case True
  then have "ddictSize d = 0" using o by (auto simp: owned_def)
  then have "dict_out H d x y \<Longrightarrow> dict_out H d a b" by (auto simp: dict_out_def outside_def apart_def)
  then show ?thesis using s True by (auto simp: stage_ok_def)
next
  case False
  then show ?thesis using s p ready_private[of H d x y a b] ready_no_dict_any[of H d x y a b]
    by (cases "dStage d") (auto simp: stage_ok_def private_dict_def)
qed

lemma stage_close: "stage_ok H d a b \<Longrightarrow> stage_ok H d 0 0"
proof -
  have "dict_out H d a b \<Longrightarrow> dict_out H d 0 0" by (simp add: dict_out_def apart_def)
  then have "ready H d a b \<Longrightarrow> ready H d 0 0" by (auto simp: ready_def)
  then show "stage_ok H d a b \<Longrightarrow> stage_ok H d 0 0"
    using \<open>dict_out H d a b \<Longrightarrow> dict_out H d 0 0\<close> ready_no_dict_any[of H d a b 0 0] by (auto simp: stage_ok_def split: dStage_t.splits)
qed

lemma idle_dctx: "idle_ok H d \<Longrightarrow> dctx_ok H d a b"
  using stage_private[of H d 0 0 a b] by (auto simp: idle_ok_def dctx_ok_def)

text \<open>What a call guarantees.\<close>

definition decompress_post :: "int set \<Rightarrow> memory \<Rightarrow> int \<Rightarrow> int \<Rightarrow> int \<Rightarrow> dresult \<Rightarrow> bool" where
  "decompress_post H mem dst cap n r \<longleftrightarrow> 0 \<le> dstSize r \<and> dstSize r \<le> cap \<and> 0 \<le> srcSize r \<and> srcSize r \<le> n
     \<and> (\<forall>p. p \<notin> H \<and> (p < dst \<or> dst + cap \<le> p) \<longrightarrow> mem_after r p = mem p)"

definition call_env :: "denv \<Rightarrow> int \<Rightarrow> int \<Rightarrow> int \<Rightarrow> int \<Rightarrow> bool \<Rightarrow> denv" where
  "call_env env dst cap src n keep = env\<lparr>srcEnd := src + n, dstStart := dst, dstEnd := (if dst \<noteq> 0 then dst + cap else 0), stableDst := keep\<rparr>"

definition call_start :: "LZ4F_dctx \<Rightarrow> memory \<Rightarrow> int \<Rightarrow> int \<Rightarrow> bool \<Rightarrow> dloop" where
  "call_start d mem dst src skip = \<lparr>lmem = mem, lctx = d\<lparr>skipChecksum := (skipChecksum d \<or> skip)\<rparr>, srcPtr = src, dstPtr = dst, nextSrcSizeHint = 1\<rparr>"

definition call_site :: "int set \<Rightarrow> int \<Rightarrow> int \<Rightarrow> memory \<Rightarrow> dcall" where
  "call_site H src dst mem = \<lparr>heap = H, srcStart = src, dstLow = dst, mem_before = mem\<rparr>"

lemma stage_skip: "stage_ok H (d\<lparr>skipChecksum := b\<rparr>) x y = stage_ok H d x y"
  by (auto simp: stage_ok_def ready_def tmp_ok_def dict_out_def in_tmp_def blocksum_ok_def flush_ok_def history_copy_def split: dStage_t.splits)

lemma call_setup:
  assumes "caller_ok H env dst cap src n" "dctx_ok H d dst (dst + cap)"
  shows "env_ok (call_site H src dst mem) (call_env env dst cap src n keep)"
    "loop_ok (call_site H src dst mem) (call_env env dst cap src n keep) (call_start d mem dst src skip)"
  using assms by (auto simp: caller_ok_def allocator_ok_def env_ok_def call_site_def call_env_def call_start_def loop_ok_def moving_def
      confined_def dctx_ok_def stage_skip)

lemma decompress_ok:
  assumes c: "caller_ok H env dst cap src n" and d: "dctx_ok H d dst (dst + cap)"
  shows "\<exists>r. LZ4F_decompress env d mem dst cap src n keep skip = Some r \<and> decompress_post H mem dst cap n r
    \<and> base_ok H (dctx_after r) \<and> (\<not> isl (dret r) \<longrightarrow> dctx_ok H (dctx_after r) 0 0)
    \<and> (\<not> isl (dret r) \<and> owned d \<and> private_dict d \<and> \<not> keep \<longrightarrow> idle_ok H (dctx_after r))"
proof -
  let ?c = "call_site H src dst mem" and ?e = "call_env env dst cap src n keep" and ?l = "call_start d mem dst src skip"
  note s = call_setup(1)[OF c d, of mem keep] call_setup(2)[OF c d, of mem keep skip]
  obtain q where q: "run_stages ?e ?l = Some q" "run_post ?c ?e q" using run_stages_ok[OF s] by (auto simp: wp_iff)
  have cd: "0 \<le> cap" "0 \<le> n" "dst = 0 \<longrightarrow> cap = 0" using c by (auto simp: caller_ok_def)
  have mv: "decompress_post H mem dst cap n \<lparr>dret = x, dstSize = dstPtr l - dst, srcSize = srcPtr l - src, dctx_after = lctx l, mem_after = lmem l\<rparr>
      \<and> decompress_post H mem dst cap n \<lparr>dret = x, dstSize = 0, srcSize = 0, dctx_after = lctx l, mem_after = lmem l\<rparr>" if "moving ?c ?e l" for l x
    using that cd by (auto simp: moving_def decompress_post_def confined_def call_site_def call_env_def split: if_splits)
  have lp: "moving ?c ?e l \<and> base_ok H (lctx l) \<and> dctx_ok H (lctx l) 0 0" if "loop_ok ?c ?e l" for l
    using that stage_close[of H "lctx l" "dstPtr l" "dstEnd ?e"] by (auto simp: loop_ok_def moving_def dctx_ok_def call_site_def)
  have ow: "owned (lctx (case q of Inl (ret, l') \<Rightarrow> l' | Inr l' \<Rightarrow> l'))" if "owned d"
    using run_owned[OF q(1)] that by (simp add: call_start_def owned_def)
  have unf: "LZ4F_decompress env d mem dst cap src n keep skip = (case q of
        Inl (r, l) \<Rightarrow> Some \<lparr>dret = r, dstSize = 0, srcSize = 0, dctx_after = lctx l, mem_after = lmem l\<rparr>
      | Inr l \<Rightarrow> do { l \<leftarrow> preserve_history ?e l;
          Some \<lparr>dret = Inr (nextSrcSizeHint l), dstSize = dstPtr l - dst, srcSize = srcPtr l - src, dctx_after = lctx l, mem_after = lmem l\<rparr> })"
    using q(1) unfolding LZ4F_decompress_def call_env_def call_start_def Let_def by (simp only: bind.bind_lunit)
  show ?thesis
  proof (cases q)
    case (Inl p)
    obtain ret l where p: "p = (ret, l)" by (cases p)
    have st: "step_ok ?c ?e (Return ret l)" using q(2) Inl p by (simp add: run_post_def)
    then have m: "moving ?c ?e l" by (auto simp: step_ok_def loop_ok_def split: if_splits)
    then have "base_ok H (lctx l)" by (simp add: moving_def call_site_def)
    moreover have "dctx_ok H (lctx l) 0 0 \<and> (owned d \<longrightarrow> idle_ok H (lctx l))" if "\<not> isl ret"
      using that st lp[of l] ow Inl p by (auto simp: step_ok_def idle_ok_def private_dict_def owned_def)
    ultimately show ?thesis using unf mv[OF m] Inl p by simp
  next
    case (Inr l)
    have st: "loop_ok ?c ?e l" "dStage (lctx l) \<noteq> dstage_init" using q(2) Inr by (auto simp: run_post_def step_ok_def)
    obtain l' where l': "preserve_history ?e l = Some l'" "loop_ok ?c ?e l'" "must_preserve ?e (lctx l) \<longrightarrow> ddict (lctx l') = tmpOutBuffer (lctx l')"
      "\<not> must_preserve ?e (lctx l) \<longrightarrow> l' = l" "dStage (lctx l') = dStage (lctx l)" "dframeInfo (lctx l') = dframeInfo (lctx l)"
      using preserve_history_ok[OF st] by (auto simp: wp_iff)
    have "idle_ok H (lctx l')" if o: "owned d" and k: "\<not> keep"
    proof -
      have o1: "owned (lctx l)" using ow[OF o] Inr by simp
      then have o2: "owned (lctx l')" using l'(4-6) st(2) by (cases "must_preserve ?e (lctx l)") (auto simp: owned_def must_preserve_def)
      have rd: "in_tmp (lctx l')" if "ready H (lctx l') (dstPtr l') (dstEnd ?e)" "linked (lctx l')" "ddict (lctx l') = tmpOutBuffer (lctx l')"
        by (rule in_tmp_if[OF that])
      have "private_dict (lctx l')"
      proof (cases "dStage (lctx l') \<in> {dstage_getBlockHeader, dstage_storeBlockHeader, dstage_copyDirect, dstage_getBlockChecksum, dstage_getCBlock,
          dstage_storeCBlock, dstage_flushOut}")
        case True
        then have r: "ready H (lctx l') (dstPtr l') (dstEnd ?e)" using l'(2) by (auto simp: loop_ok_def stage_ok_def call_site_def)
        show ?thesis
        proof (cases "must_preserve ?e (lctx l)")
          case True
          then have "linked (lctx l')" using l'(6) by (simp add: must_preserve_def)
          then show ?thesis using rd[OF r] l'(3) True by (simp add: private_dict_def)
        next
          case False
          then have "ddictSize (lctx l') = 0 \<or> linked (lctx l') \<and> (ddict (lctx l') = tmpOutBuffer (lctx l') \<or> ddict (lctx l') = 0)"
            using True l'(4) o2 k by (auto simp: must_preserve_def owned_def call_env_def)
          then show ?thesis using rd[OF r] r by (auto simp: private_dict_def ready_def dict_out_def)
        qed
      next
        case False
        then show ?thesis using o2 by (cases "dStage (lctx l')") (auto simp: private_dict_def owned_def)
      qed
      then show ?thesis using lp[OF l'(2)] o2 by (simp add: idle_ok_def)
    qed
    then show ?thesis using unf mv[of l'] lp[OF l'(2)] l'(1) Inr by simp
  qed
qed

section \<open>Progress\<close>

text \<open>What a stage that waits for input says between calls: something is still missing.\<close>

definition waiting :: "LZ4F_dctx \<Rightarrow> bool" where
  "waiting d \<longleftrightarrow> (case dStage d of
       dstage_storeFrameHeader \<Rightarrow> dtmpInSize d < dtmpInTarget d
     | dstage_storeBlockHeader \<Rightarrow> dtmpInSize d < 4
     | dstage_getBlockChecksum \<Rightarrow> dtmpInSize d < 4
     | dstage_getSuffix \<Rightarrow> False
     | dstage_storeSuffix \<Rightarrow> dtmpInSize d < 4
     | dstage_storeSFrameSize \<Rightarrow> dtmpInSize d < dtmpInTarget d
     | dstage_skipSkippable \<Rightarrow> 0 < dtmpInTarget d
     | _ \<Rightarrow> True)"

definition progress :: "dloop \<Rightarrow> step \<Rightarrow> bool" where
  "progress l s \<longleftrightarrow> srcPtr l < srcPtr (step_state s) \<or> dstPtr l < dstPtr (step_state s)
     \<or> (\<exists>l'. s = Again l' \<and> waiting (lctx l') \<and> srcPtr l' = srcPtr l) \<or> (\<exists>e l'. s = Return (Inl e) l')"

lemma src_unchanged:
  "decode_block_header env l sel = Some s \<Longrightarrow> srcPtr (step_state s) = srcPtr l"
  "check_block env l bs = Some s \<Longrightarrow> srcPtr (step_state s) = srcPtr l"
  "check_suffix env l sel = Some s \<Longrightarrow> srcPtr (step_state s) = srcPtr l"
  "decode_SFrameSize l bs = Some s \<Longrightarrow> srcPtr (step_state s) = srcPtr l"
  by (auto simp: decode_block_header_def check_block_def check_suffix_def decode_SFrameSize_def Let_def split: Option.bind_splits if_splits)

lemma fill_more:
  assumes "srcPtr l < srcEnd env" "dtmpInSize (lctx l) < t" "t < 2 ^ 64" "0 \<le> dtmpInSize (lctx l)"
  shows "fill_header env l (usub t (dtmpInSize (lctx l))) = Some l' \<Longrightarrow> srcPtr l < srcPtr l'"
    and "fill_tmpIn env l (usub t (dtmpInSize (lctx l))) = Some l' \<Longrightarrow> srcPtr l < srcPtr l'"
  using assms fill_header_src[of env l "t - dtmpInSize (lctx l)" l'] fill_tmpIn_src[of env l "t - dtmpInSize (lctx l)" l']
  by (auto simp: usub_diff)

lemma storeFrameHeader_src:
  assumes "stage_storeFrameHeader env l = Some s" "srcPtr l < srcEnd env" "dtmpInSize (lctx l) < dtmpInTarget (lctx l)"
    "dtmpInTarget (lctx l) < 2 ^ 64" "0 \<le> dtmpInSize (lctx l)"
  shows "srcPtr l < srcPtr (step_state s)"
  using assms(1) fill_more(1)[OF assms(2-5)] by (auto simp: stage_storeFrameHeader_def Let_def split: Option.bind_splits if_splits sum.splits)

lemma getFrameHeader_progress:
  assumes "stage_getFrameHeader env l = Some s" "srcPtr l < srcEnd env" "length (dheader (lctx l)) = 19"
  shows "progress l s"
proof (cases "srcEnd env - srcPtr l \<ge> maxFHSize")
  case True
  then show ?thesis using assms decodeHeader_stage[of "dmachine env" "lctx l" _ False]
    by (fastforce simp: stage_getFrameHeader_def progress_def split: Option.bind_splits sum.splits)
next
  case False
  let ?l = "l\<lparr>lctx := (lctx l)\<lparr>dtmpInSize := 0, dtmpInTarget := minFHSize, dStage := dstage_storeFrameHeader\<rparr>\<rparr>"
  have "stage_storeFrameHeader env ?l = Some s" using assms False by (auto simp: stage_getFrameHeader_def Let_def split: if_splits)
  from storeFrameHeader_src[OF this] show ?thesis using assms(2) by (simp add: progress_def)
qed

lemma storeBlockHeader_src:
  assumes "stage_storeBlockHeader env l = Some s" "srcPtr l < srcEnd env" "dtmpInSize (lctx l) < 4" "0 \<le> dtmpInSize (lctx l)"
  shows "srcPtr l < srcPtr (step_state s)"
  using assms(1) fill_more(2)[OF assms(2,3) _ assms(4)] src_unchanged(1)
  by (fastforce simp: stage_storeBlockHeader_def split: Option.bind_splits if_splits)

lemma getBlockHeader_src:
  assumes "stage_getBlockHeader env l = Some s" "srcPtr l < srcEnd env"
  shows "srcPtr l < srcPtr (step_state s)"
proof (cases "srcEnd env - srcPtr l \<ge> BHSize")
  case True
  then show ?thesis using assms(1) src_unchanged(1)[of env "l\<lparr>srcPtr := srcPtr l + BHSize\<rparr>"] by (auto simp: stage_getBlockHeader_def)
next
  case False
  then show ?thesis using assms storeBlockHeader_src[of env "l\<lparr>lctx := (lctx l)\<lparr>dtmpInSize := 0, dStage := dstage_storeBlockHeader\<rparr>\<rparr>" s]
    by (simp add: stage_getBlockHeader_def)
qed

lemma init_progress:
  assumes s: "stage_init env l = Some s" and left: "srcPtr l < srcEnd env"
  shows "progress l s"
proof -
  let ?d = "if has_contentsum (lctx l) then (lctx l)\<lparr>dxxh := XXH32_reset 0\<rparr> else lctx l"
  show ?thesis
  proof (cases "init_buffers env ?d")
    case (Inl p)
    then show ?thesis using s by (cases p) (auto simp: stage_init_def Let_def progress_def)
  next
    case (Inr d)
    then have "stage_getBlockHeader env (l\<lparr>lctx := d\<lparr>dtmpInSize := 0, dtmpInTarget := 0, tmpOut := tmpOutBuffer d, tmpOutStart := 0,
        tmpOutSize := 0, dStage := dstage_getBlockHeader\<rparr>\<rparr>) = Some s" using s by (simp add: stage_init_def Let_def)
    from getBlockHeader_src[OF this] left show ?thesis by (simp add: progress_def)
  qed
qed

lemma updateDict_more:
  "LZ4F_updateDict d mem dst n start within = Some (d', mem')
    \<Longrightarrow> dtmpInTarget d' = dtmpInTarget d \<and> tmpOutStart d' = tmpOutStart d \<and> tmpOutSize d' = tmpOutSize d"
  by (auto simp: LZ4F_updateDict_def dict_within_tmp_def dict_append_tmp_def dict_join_tmp_def Let_def split: Option.bind_splits if_splits)

lemma account_more: "account env d bs = Some d' \<Longrightarrow> dtmpInTarget d' = dtmpInTarget d"
  by (auto simp: account_def split: Option.bind_splits if_splits)

lemma copyDirect_progress:
  assumes "stage_copyDirect env l = Some s" "srcPtr l < srcEnd env" "dstPtr l < dstEnd env" "dstPtr l \<noteq> 0" "0 \<le> dtmpInTarget (lctx l)"
  shows "progress l s"
proof -
  let ?n = "min (dtmpInTarget (lctx l)) (min (srcEnd env - srcPtr l) (dstEnd env - dstPtr l))"
  obtain l1 where l1: "copy_direct env l ?n = Some l1" using assms(1,4) by (auto simp: stage_copyDirect_def Let_def split: Option.bind_splits)
  have t: "dtmpInTarget (lctx l1) = dtmpInTarget (lctx l)"
    using l1 by (auto simp: copy_direct_def Let_def split: Option.bind_splits if_splits dest!: account_more updateDict_more)
  note src = copy_direct_src[OF l1]
  show ?thesis
  proof (cases "dtmpInTarget (lctx l) = 0")
    case True
    then show ?thesis using assms l1 t src by (auto simp: stage_copyDirect_def Let_def progress_def waiting_def)
  next
    case False
    then have "srcPtr l < srcPtr l1" using assms src by auto
    then show ?thesis using assms(1,4) l1 by (auto simp: stage_copyDirect_def Let_def progress_def split: if_splits)
  qed
qed

lemma getBlockChecksum_src:
  assumes "stage_getBlockChecksum env l = Some s" "srcPtr l < srcEnd env" "dtmpInSize (lctx l) < 4" "0 \<le> dtmpInSize (lctx l)"
  shows "srcPtr l < srcPtr (step_state s)"
proof (cases "srcEnd env - srcPtr l \<ge> 4 \<and> dtmpInSize (lctx l) = 0")
  case True
  then show ?thesis using assms(1) src_unchanged(2)[of env "l\<lparr>srcPtr := srcPtr l + 4\<rparr>"] by (auto simp: stage_getBlockChecksum_def)
next
  case False
  then have "do { l \<leftarrow> fill_header env l (usub 4 (dtmpInSize (lctx l))); if dtmpInSize (lctx l) < 4 then Some (Stop l) else check_block env l (dheader (lctx l)) } = Some s"
    using assms(1) unfolding stage_getBlockChecksum_def by (simp only: if_False)
  then show ?thesis using fill_more(1)[OF assms(2,3) _ assms(4)] src_unchanged(2) by (fastforce split: Option.bind_splits if_splits)
qed

lemma flushOut_progress:
  assumes "stage_flushOut env l = Some s" "dstPtr l < dstEnd env" "dstPtr l \<noteq> 0" "tmpOutStart (lctx l) \<le> tmpOutSize (lctx l)"
  shows "(dstPtr l < dstPtr (step_state s) \<or> (\<exists>l'. s = Again l' \<and> waiting (lctx l') \<and> dstPtr l' = dstPtr l)) \<and> srcPtr (step_state s) = srcPtr l"
proof -
  let ?d = "lctx l" and ?n = "min (tmpOutSize (lctx l) - tmpOutStart (lctx l)) (dstEnd env - dstPtr l)"
  obtain d mem where u: "tmpOutStart d = tmpOutStart ?d" "tmpOutSize d = tmpOutSize ?d"
    and s: "s = (let l = l\<lparr>lmem := mem, lctx := d\<lparr>tmpOutStart := tmpOutStart d + ?n\<rparr>, dstPtr := dstPtr l + ?n\<rparr> in
      if tmpOutStart (lctx l) = tmpOutSize (lctx l) then Again (l\<lparr>lctx := (lctx l)\<lparr>dStage := dstage_getBlockHeader\<rparr>\<rparr>) else Stop (l\<lparr>nextSrcSizeHint := BHSize\<rparr>))"
  proof -
    obtain mem0 d mem where c: "copy_mem (lmem l) (dstPtr l) (tmpOut ?d + tmpOutStart ?d) ?n = Some mem0"
      "(if linked ?d then LZ4F_updateDict ?d mem0 (dstPtr l) ?n (dstStart env) True else Some (?d, mem0)) = Some (d, mem)"
      using assms(1,3) by (auto simp: stage_flushOut_def Let_def split: Option.bind_splits)
    have "tmpOutStart d = tmpOutStart ?d \<and> tmpOutSize d = tmpOutSize ?d"
      using c(2) by (auto split: if_splits dest!: updateDict_more)
    moreover have "s = (let l = l\<lparr>lmem := mem, lctx := d\<lparr>tmpOutStart := tmpOutStart d + ?n\<rparr>, dstPtr := dstPtr l + ?n\<rparr> in
      if tmpOutStart (lctx l) = tmpOutSize (lctx l) then Again (l\<lparr>lctx := (lctx l)\<lparr>dStage := dstage_getBlockHeader\<rparr>\<rparr>) else Stop (l\<lparr>nextSrcSizeHint := BHSize\<rparr>))"
      using assms(1,3) c by (auto simp: stage_flushOut_def Let_def split: if_splits)
    ultimately show ?thesis using that by blast
  qed
  show ?thesis
  proof (cases "tmpOutStart ?d + ?n = tmpOutSize ?d")
    case True
    then show ?thesis using u s assms(2,4) by (auto simp: Let_def waiting_def)
  next
    case False
    then have "?n = dstEnd env - dstPtr l" by auto
    then show ?thesis using False u s assms(2) by (auto simp: Let_def)
  qed
qed

lemma decode_block_progress:
  assumes s: "decode_block env l sel = Some s" and room: "dstPtr l < dstEnd env" "dstPtr l \<noteq> 0"
  shows "srcPtr (step_state s) = srcPtr l \<and> (dstPtr l < dstPtr (step_state s) \<or> (\<exists>l'. s = Again l' \<and> waiting (lctx l')) \<or> (\<exists>e l'. s = Return (Inl e) l'))"
proof -
  have dst: "srcPtr (step_state s) = srcPtr l \<and> ((\<exists>l'. s = Again l' \<and> waiting (lctx l')) \<or> (\<exists>e l'. s = Return (Inl e) l'))"
    if "decode_to_dst env l sel = Some s" for l s
    using that by (auto simp: decode_to_dst_def waiting_def split: Option.bind_splits if_splits)
  have tmp: "srcPtr (step_state s) = srcPtr l \<and> (dstPtr l < dstPtr (step_state s) \<or> (\<exists>l'. s = Again l' \<and> waiting (lctx l')) \<or> (\<exists>e l'. s = Return (Inl e) l'))"
    if t: "decode_to_tmp env l sel = Some s" and r: "dstPtr l < dstEnd env" "dstPtr l \<noteq> 0" for l s
  proof -
    obtain d mem where p: "place_tmpOut (lctx l) (lmem l) = Some (d, mem)" using t by (auto simp: decode_to_tmp_def split: Option.bind_splits)
    obtain n mem' where cb: "call_block env (l\<lparr>lctx := d, lmem := mem\<rparr>) sel (tmpOut d) = Some (n, mem')"
      using t p by (auto simp: decode_to_tmp_def Let_def split: Option.bind_splits)
    show ?thesis
    proof (cases "n < 0")
      case True
      then show ?thesis using t p cb by (auto simp: decode_to_tmp_def Let_def)
    next
      case False
      then obtain d' where "stage_flushOut env (l\<lparr>lmem := mem', lctx := d'\<lparr>tmpOutSize := n, tmpOutStart := 0, dStage := dstage_flushOut\<rparr>\<rparr>) = Some s"
        using t p cb by (auto simp: decode_to_tmp_def Let_def split: Option.bind_splits)
      from flushOut_progress[OF this] r False show ?thesis by auto
    qed
  qed
  have fin: ?thesis if "s = Return (Inl ERROR_blockChecksum_invalid) l' \<or> decode_to_dst env l' sel = Some s \<or> decode_to_tmp env l' sel = Some s"
    and "srcPtr l' = srcPtr l" "dstPtr l' = dstPtr l" for l'
    using that dst[of l' s] tmp[of l' s] room by auto
  show ?thesis
  proof (cases "has_blocksum (lctx l)")
    case True
    let ?l = "l\<lparr>lctx := (lctx l)\<lparr>dtmpInTarget := dtmpInTarget (lctx l) - 4\<rparr>\<rparr>"
    have "s = Return (Inl ERROR_blockChecksum_invalid) ?l \<or> decode_to_dst env ?l sel = Some s \<or> decode_to_tmp env ?l sel = Some s"
      using s True unfolding decode_block_def Let_def by (simp split: Option.bind_splits if_splits)
    from fin[OF this] show ?thesis by simp
  next
    case False
    then have "s = Return (Inl ERROR_blockChecksum_invalid) l \<or> decode_to_dst env l sel = Some s \<or> decode_to_tmp env l sel = Some s"
      using s unfolding decode_block_def Let_def by (simp split: if_splits)
    from fin[OF this] show ?thesis by simp
  qed
qed

lemma getCBlock_progress:
  assumes s: "stage_getCBlock env l = Some s" and room: "dstPtr l < dstEnd env" "dstPtr l \<noteq> 0" and t: "0 \<le> dtmpInTarget (lctx l)"
  shows "progress l s"
proof (cases "srcEnd env - srcPtr l < dtmpInTarget (lctx l)")
  case True
  then show ?thesis using s by (auto simp: stage_getCBlock_def progress_def waiting_def)
next
  case False
  let ?l = "l\<lparr>srcPtr := srcPtr l + dtmpInTarget (lctx l)\<rparr>"
  have "decode_block env ?l (srcPtr l) = Some s" using s False by (simp add: stage_getCBlock_def)
  from decode_block_progress[OF this] room t show ?thesis
    by (cases "dtmpInTarget (lctx l) = 0") (auto simp: progress_def)
qed

lemma storeCBlock_progress:
  assumes s: "stage_storeCBlock env l = Some s" and room: "dstPtr l < dstEnd env" "dstPtr l \<noteq> 0" and left: "srcPtr l < srcEnd env"
    and t: "dtmpInSize (lctx l) \<le> dtmpInTarget (lctx l)" "dtmpInTarget (lctx l) < 2 ^ 64" "0 \<le> dtmpInSize (lctx l)"
  shows "progress l s"
proof -
  obtain l1 where l1: "fill_tmpIn env l (usub (dtmpInTarget (lctx l)) (dtmpInSize (lctx l))) = Some l1"
    using s by (auto simp: stage_storeCBlock_def split: Option.bind_splits)
  have d1: "dstPtr l1 = dstPtr l" using l1 by (auto simp: fill_tmpIn_def Let_def split: Option.bind_splits)
  note f = fill_tmpIn_src[OF l1]
  have w: "usub (dtmpInTarget (lctx l)) (dtmpInSize (lctx l)) = dtmpInTarget (lctx l) - dtmpInSize (lctx l)" using t by (intro usub_diff) auto
  have ge: "srcPtr l \<le> srcPtr l1" using f w t left by simp
  have st: "s = (let d = lctx l1 in Stop (l1\<lparr>nextSrcSizeHint := dtmpInTarget d - dtmpInSize d + (if has_blocksum d then BFSize else 0) + BHSize\<rparr>))
      \<and> dtmpInSize (lctx l1) < dtmpInTarget (lctx l1) \<or> decode_block env l1 (dtmpIn (lctx l1)) = Some s"
    using s l1 by (auto simp: stage_storeCBlock_def Let_def split: if_splits)
  then show ?thesis
  proof
    assume a: "s = (let d = lctx l1 in Stop (l1\<lparr>nextSrcSizeHint := dtmpInTarget d - dtmpInSize d + (if has_blocksum d then BFSize else 0) + BHSize\<rparr>))
      \<and> dtmpInSize (lctx l1) < dtmpInTarget (lctx l1)"
    then have "srcPtr l < srcPtr l1" using f w left t by auto
    then show ?thesis using a by (simp add: progress_def Let_def)
  next
    assume "decode_block env l1 (dtmpIn (lctx l1)) = Some s"
    from decode_block_progress[OF this] room d1 ge show ?thesis by (auto simp: progress_def)
  qed
qed

lemma storeSuffix_src:
  assumes "stage_storeSuffix env l = Some s" "srcPtr l < srcEnd env" "dtmpInSize (lctx l) < 4" "0 \<le> dtmpInSize (lctx l)"
  shows "srcPtr l < srcPtr (step_state s)"
  using assms(1) fill_more(2)[OF assms(2,3) _ assms(4)] src_unchanged(3)
  by (fastforce simp: stage_storeSuffix_def split: Option.bind_splits if_splits)

lemma storeSFrameSize_src:
  assumes "stage_storeSFrameSize env l = Some s" "srcPtr l < srcEnd env" "dtmpInSize (lctx l) < dtmpInTarget (lctx l)"
    "dtmpInTarget (lctx l) < 2 ^ 64" "0 \<le> dtmpInSize (lctx l)"
  shows "srcPtr l < srcPtr (step_state s)"
  using assms(1) fill_more(1)[OF assms(2-5)] src_unchanged(4)
  by (fastforce simp: stage_storeSFrameSize_def Let_def split: Option.bind_splits if_splits)

lemma getSFrameSize_src:
  assumes "stage_getSFrameSize env l = Some s" "srcPtr l < srcEnd env"
  shows "srcPtr l < srcPtr (step_state s)"
proof (cases "srcEnd env - srcPtr l \<ge> 4")
  case True
  then show ?thesis using assms(1) src_unchanged(4)[of "l\<lparr>srcPtr := srcPtr l + 4\<rparr>"] by (auto simp: stage_getSFrameSize_def)
next
  case False
  then show ?thesis
    using assms storeSFrameSize_src[of env "l\<lparr>lctx := (lctx l)\<lparr>dtmpInSize := 4, dtmpInTarget := 8, dStage := dstage_storeSFrameSize\<rparr>\<rparr>" s]
    by (simp add: stage_getSFrameSize_def)
qed

lemma skip_src:
  assumes "stage_skipSkippable env l = Some s" "srcPtr l < srcEnd env" "0 < dtmpInTarget (lctx l)"
  shows "srcPtr l < srcPtr (step_state s)"
  using assms by (auto simp: stage_skipSkippable_def Let_def)

lemma dispatch_progress:
  assumes d: "dispatch env l = Some s" and w: "waiting (lctx l)" and l: "loop_ok c env l"
    and io: "srcPtr l < srcEnd env" "dstPtr l < dstEnd env" "dstPtr l \<noteq> 0"
  shows "progress l s"
proof -
  let ?d = "lctx l"
  have b: "length (dheader ?d) = 19" "0 \<le> dtmpInSize ?d" "0 \<le> dtmpInTarget ?d" using l by (auto simp: loop_ok_def moving_def base_ok_def)
  have st: "stage_ok (heap c) ?d (dstPtr l) (dstEnd env)" using l by (simp add: loop_ok_def)
  have big: "dtmpInTarget ?d < 2 ^ 64" if "dStage ?d \<in> {dstage_storeFrameHeader, dstage_storeCBlock, dstage_storeSFrameSize}"
    using that st readyD[of "heap c" ?d "dstPtr l" "dstEnd env"] by (auto simp: stage_ok_def block_sizes_def)
  have src: "srcPtr l < srcPtr (step_state s) \<Longrightarrow> progress l s" by (simp add: progress_def)
  show ?thesis
  proof (cases "dStage ?d")
    case dstage_getFrameHeader
    then show ?thesis using d getFrameHeader_progress[of env l s] io b by (simp add: dispatch_def)
  next
    case dstage_storeFrameHeader
    then show ?thesis using d storeFrameHeader_src[of env l s] io b w big src by (simp add: dispatch_def waiting_def)
  next
    case dstage_init
    then show ?thesis using d init_progress[of env l s] io by (simp add: dispatch_def)
  next
    case dstage_getBlockHeader
    then show ?thesis using d getBlockHeader_src[of env l s] io src by (simp add: dispatch_def)
  next
    case dstage_storeBlockHeader
    then show ?thesis using d storeBlockHeader_src[of env l s] io b w src by (simp add: dispatch_def waiting_def)
  next
    case dstage_copyDirect
    then show ?thesis using d copyDirect_progress[of env l s] io b by (simp add: dispatch_def)
  next
    case dstage_getBlockChecksum
    then show ?thesis using d getBlockChecksum_src[of env l s] io b w src by (simp add: dispatch_def waiting_def)
  next
    case dstage_getCBlock
    then show ?thesis using d getCBlock_progress[of env l s] io b by (simp add: dispatch_def)
  next
    case dstage_storeCBlock
    then show ?thesis using d storeCBlock_progress[of env l s] io b big st by (simp add: dispatch_def stage_ok_def)
  next
    case dstage_flushOut
    then have "stage_flushOut env l = Some s" "tmpOutStart ?d \<le> tmpOutSize ?d" using d st by (auto simp: dispatch_def stage_ok_def flush_ok_def)
    from flushOut_progress[OF this(1) io(2,3) this(2)] show ?thesis by (auto simp: progress_def)
  next
    case dstage_getSuffix
    then show ?thesis using w by (simp add: waiting_def)
  next
    case dstage_storeSuffix
    then show ?thesis using d storeSuffix_src[of env l s] io b w src by (simp add: dispatch_def waiting_def)
  next
    case dstage_getSFrameSize
    then show ?thesis using d getSFrameSize_src[of env l s] io src by (simp add: dispatch_def)
  next
    case dstage_storeSFrameSize
    then show ?thesis using d storeSFrameSize_src[of env l s] io b w big src by (simp add: dispatch_def waiting_def)
  next
    case dstage_skipSkippable
    then show ?thesis using d skip_src[of env l s] io w src by (simp add: dispatch_def waiting_def)
  qed
qed

text \<open>A call stops in a waiting stage; only an empty input is answered before the first stage.\<close>

lemma reset_waiting: "waiting (LZ4F_resetDecompressionContext d)"
  by (simp add: waiting_def LZ4F_resetDecompressionContext_def)

lemma header_stop:
  "stage_storeFrameHeader env l = Some (Stop l') \<Longrightarrow> dStage (lctx l) = dstage_storeFrameHeader \<Longrightarrow> waiting (lctx l')"
  "stage_getFrameHeader env l = Some (Stop l') \<Longrightarrow> waiting (lctx l')"
proof -
  have st: "stage_storeFrameHeader env l = Some (Stop l') \<Longrightarrow> dStage (lctx l) = dstage_storeFrameHeader \<Longrightarrow> waiting (lctx l')" for l
    by (auto simp: stage_storeFrameHeader_def Let_def waiting_def split: Option.bind_splits if_splits sum.splits dest!: fill_keeps(1))
  then show "stage_storeFrameHeader env l = Some (Stop l') \<Longrightarrow> dStage (lctx l) = dstage_storeFrameHeader \<Longrightarrow> waiting (lctx l')" .
  show "stage_getFrameHeader env l = Some (Stop l') \<Longrightarrow> waiting (lctx l')"
    by (auto simp: stage_getFrameHeader_def Let_def split: Option.bind_splits if_splits sum.splits intro: st)
qed

lemma block_header_stop:
  "decode_block_header env l sel = Some (Stop l') \<Longrightarrow> waiting (lctx l')"
  "stage_storeBlockHeader env l = Some (Stop l') \<Longrightarrow> dStage (lctx l) = dstage_storeBlockHeader \<Longrightarrow> waiting (lctx l')"
  "stage_getBlockHeader env l = Some (Stop l') \<Longrightarrow> waiting (lctx l')"
  "stage_init env l = Some (Stop l') \<Longrightarrow> waiting (lctx l')"
proof -
  have d: "decode_block_header env l sel = Some (Stop l') \<Longrightarrow> waiting (lctx l')" for l sel
    by (auto simp: decode_block_header_def Let_def waiting_def split: Option.bind_splits if_splits)
  then show "decode_block_header env l sel = Some (Stop l') \<Longrightarrow> waiting (lctx l')" .
  have s: "stage_storeBlockHeader env l = Some (Stop l') \<Longrightarrow> dStage (lctx l) = dstage_storeBlockHeader \<Longrightarrow> waiting (lctx l')" for l
    by (auto simp: stage_storeBlockHeader_def waiting_def split: Option.bind_splits if_splits dest!: fill_keeps(2) dest: d[unfolded waiting_def])
  then show "stage_storeBlockHeader env l = Some (Stop l') \<Longrightarrow> dStage (lctx l) = dstage_storeBlockHeader \<Longrightarrow> waiting (lctx l')" .
  have g: "stage_getBlockHeader env l = Some (Stop l') \<Longrightarrow> waiting (lctx l')" for l
    by (auto simp: stage_getBlockHeader_def split: if_splits dest: d s)
  then show "stage_getBlockHeader env l = Some (Stop l') \<Longrightarrow> waiting (lctx l')" .
  show "stage_init env l = Some (Stop l') \<Longrightarrow> waiting (lctx l')"
    by (simp add: stage_init_def Let_def split: sum.splits prod.splits) (rule g)
qed

lemma copyDirect_stop:
  assumes "stage_copyDirect env l = Some (Stop l')" "dStage (lctx l) = dstage_copyDirect"
  shows "waiting (lctx l')"
proof -
  have k: "dStage (lctx l1) = dstage_copyDirect" if "copy_direct env l n = Some l1" for n l1
    using that assms(2) by (auto simp: copy_direct_def Let_def split: Option.bind_splits if_splits dest!: account_keeps updateDict_keeps)
  have "dStage (lctx l') = dstage_copyDirect"
    using assms by (auto simp: stage_copyDirect_def Let_def split: Option.bind_splits if_splits dest!: k)
  then show ?thesis by (simp add: waiting_def)
qed

lemma getBlockChecksum_stop:
  assumes s: "stage_getBlockChecksum env l = Some (Stop l')" and st: "dStage (lctx l) = dstage_getBlockChecksum"
  shows "waiting (lctx l')"
proof -
  have c: "check_block env l bs \<noteq> Some (Stop l')" for l bs by (auto simp: check_block_def Let_def split: Option.bind_splits if_splits)
  have "\<not> (srcEnd env - srcPtr l \<ge> 4 \<and> dtmpInSize (lctx l) = 0)" using s c by (auto simp: stage_getBlockChecksum_def)
  then have "do { l \<leftarrow> fill_header env l (usub 4 (dtmpInSize (lctx l))); if dtmpInSize (lctx l) < 4 then Some (Stop l) else check_block env l (dheader (lctx l)) } = Some (Stop l')"
    using s unfolding stage_getBlockChecksum_def by (simp only: if_False)
  then show ?thesis using st c by (auto simp: waiting_def split: Option.bind_splits if_splits dest!: fill_keeps(1))
qed

lemma flushOut_stop: "stage_flushOut env l = Some (Stop l') \<Longrightarrow> dStage (lctx l) = dstage_flushOut \<Longrightarrow> waiting (lctx l')"
  by (auto simp: stage_flushOut_def Let_def waiting_def split: Option.bind_splits if_splits dest!: updateDict_keeps)

lemma decode_block_stop:
  assumes s: "decode_block env l sel = Some (Stop l')"
  shows "waiting (lctx l')"
proof -
  have dst: "decode_to_dst env l sel \<noteq> Some (Stop l')" for l by (auto simp: decode_to_dst_def split: Option.bind_splits if_splits)
  have tmp: "waiting (lctx l')" if t: "decode_to_tmp env l sel = Some (Stop l')" for l
  proof -
    obtain d mem where p: "place_tmpOut (lctx l) (lmem l) = Some (d, mem)" using t by (auto simp: decode_to_tmp_def split: Option.bind_splits)
    obtain n mem' where cb: "call_block env (l\<lparr>lctx := d, lmem := mem\<rparr>) sel (tmpOut d) = Some (n, mem')"
      using t p by (auto simp: decode_to_tmp_def Let_def split: Option.bind_splits)
    obtain d' where "stage_flushOut env (l\<lparr>lmem := mem', lctx := d'\<lparr>tmpOutSize := n, tmpOutStart := 0, dStage := dstage_flushOut\<rparr>\<rparr>) = Some (Stop l')"
      using t p cb by (auto simp: decode_to_tmp_def Let_def split: Option.bind_splits if_splits)
    then show ?thesis by (rule flushOut_stop) simp
  qed
  show ?thesis
  proof (cases "has_blocksum (lctx l)")
    case True
    let ?l = "l\<lparr>lctx := (lctx l)\<lparr>dtmpInTarget := dtmpInTarget (lctx l) - 4\<rparr>\<rparr>"
    have "decode_to_dst env ?l sel = Some (Stop l') \<or> decode_to_tmp env ?l sel = Some (Stop l')"
      using s True unfolding decode_block_def Let_def by (simp split: Option.bind_splits if_splits)
    then show ?thesis using dst tmp by blast
  next
    case False
    then have "decode_to_dst env l sel = Some (Stop l') \<or> decode_to_tmp env l sel = Some (Stop l')"
      using s unfolding decode_block_def Let_def by (simp split: if_splits)
    then show ?thesis using dst tmp by blast
  qed
qed

lemma CBlock_stop:
  "stage_getCBlock env l = Some (Stop l') \<Longrightarrow> waiting (lctx l')"
  "stage_storeCBlock env l = Some (Stop l') \<Longrightarrow> dStage (lctx l) = dstage_storeCBlock \<Longrightarrow> waiting (lctx l')"
proof -
  show "stage_getCBlock env l = Some (Stop l') \<Longrightarrow> waiting (lctx l')"
    by (auto simp: stage_getCBlock_def split: if_splits dest: decode_block_stop)
  assume s: "stage_storeCBlock env l = Some (Stop l')" "dStage (lctx l) = dstage_storeCBlock"
  then obtain l1 where l1: "fill_tmpIn env l (usub (dtmpInTarget (lctx l)) (dtmpInSize (lctx l))) = Some l1"
    by (auto simp: stage_storeCBlock_def split: Option.bind_splits)
  have "dStage (lctx l1) = dstage_storeCBlock" using fill_keeps(2)[OF l1] s(2) by simp
  then show "waiting (lctx l')" using s(1) l1 decode_block_stop[of env l1]
    by (auto simp: stage_storeCBlock_def Let_def waiting_def split: if_splits)
qed

lemma suffix_stop:
  "stage_storeSuffix env l = Some (Stop l') \<Longrightarrow> dStage (lctx l) = dstage_storeSuffix \<Longrightarrow> waiting (lctx l')"
  "stage_getSuffix env l = Some (Stop l') \<Longrightarrow> waiting (lctx l')"
proof -
  have c: "check_suffix env l sel = Some (Stop l') \<Longrightarrow> waiting (lctx l')" for l sel
    by (auto simp: check_suffix_def Let_def reset_waiting split: Option.bind_splits if_splits)
  have s: "stage_storeSuffix env l = Some (Stop l') \<Longrightarrow> dStage (lctx l) = dstage_storeSuffix \<Longrightarrow> waiting (lctx l')" for l
    by (auto simp: stage_storeSuffix_def waiting_def split: Option.bind_splits if_splits dest!: fill_keeps(2) dest: c[unfolded waiting_def])
  then show "stage_storeSuffix env l = Some (Stop l') \<Longrightarrow> dStage (lctx l) = dstage_storeSuffix \<Longrightarrow> waiting (lctx l')" .
  show "stage_getSuffix env l = Some (Stop l') \<Longrightarrow> waiting (lctx l')"
    by (auto simp: stage_getSuffix_def reset_waiting split: if_splits dest: c s)
qed

lemma skippable_stop:
  "stage_storeSFrameSize env l = Some (Stop l') \<Longrightarrow> dStage (lctx l) = dstage_storeSFrameSize \<Longrightarrow> waiting (lctx l')"
  "stage_getSFrameSize env l = Some (Stop l') \<Longrightarrow> waiting (lctx l')"
  "stage_skipSkippable env l = Some (Stop l') \<Longrightarrow> 0 \<le> dtmpInTarget (lctx l') \<Longrightarrow> dStage (lctx l) = dstage_skipSkippable \<Longrightarrow> waiting (lctx l')"
proof -
  have c: "decode_SFrameSize l bs \<noteq> Some (Stop l')" for l bs by (auto simp: decode_SFrameSize_def Let_def split: Option.bind_splits)
  have s: "stage_storeSFrameSize env l = Some (Stop l') \<Longrightarrow> dStage (lctx l) = dstage_storeSFrameSize \<Longrightarrow> waiting (lctx l')" for l
    using c by (auto simp: stage_storeSFrameSize_def Let_def waiting_def split: Option.bind_splits if_splits dest!: fill_keeps(1))
  then show "stage_storeSFrameSize env l = Some (Stop l') \<Longrightarrow> dStage (lctx l) = dstage_storeSFrameSize \<Longrightarrow> waiting (lctx l')" .
  show "stage_getSFrameSize env l = Some (Stop l') \<Longrightarrow> waiting (lctx l')"
    using c by (auto simp: stage_getSFrameSize_def split: if_splits dest: s)
  show "stage_skipSkippable env l = Some (Stop l') \<Longrightarrow> 0 \<le> dtmpInTarget (lctx l') \<Longrightarrow> dStage (lctx l) = dstage_skipSkippable \<Longrightarrow> waiting (lctx l')"
    by (auto simp: stage_skipSkippable_def Let_def reset_waiting) (auto simp: waiting_def)
qed

lemma stop_waiting:
  "dispatch env l = Some (Stop l') \<Longrightarrow> 0 \<le> dtmpInTarget (lctx l') \<Longrightarrow> waiting (lctx l')"
  using header_stop[of env l l'] block_header_stop(2-4)[of env l l'] copyDirect_stop[of env l l'] getBlockChecksum_stop[of env l l']
    flushOut_stop[of env l l'] CBlock_stop[of env l l'] suffix_stop[of env l l'] skippable_stop[of env l l']
  by (cases "dStage (lctx l)") (simp_all add: dispatch_def)

lemma no_return:
  "stage_storeFrameHeader env l \<noteq> Some (Return (Inr n) l')" "stage_getBlockHeader env l \<noteq> Some (Return (Inr n) l')"
  "stage_storeBlockHeader env l \<noteq> Some (Return (Inr n) l')" "stage_init env l \<noteq> Some (Return (Inr n) l')"
proof -
  have d: "decode_block_header env l sel \<noteq> Some (Return (Inr n) l')" for l sel
    by (auto simp: decode_block_header_def Let_def split: Option.bind_splits if_splits)
  have s: "stage_storeBlockHeader env l \<noteq> Some (Return (Inr n) l')" for l
    using d by (auto simp: stage_storeBlockHeader_def split: Option.bind_splits if_splits)
  have g: "stage_getBlockHeader env l \<noteq> Some (Return (Inr n) l')" for l using d s by (auto simp: stage_getBlockHeader_def)
  show "stage_storeFrameHeader env l \<noteq> Some (Return (Inr n) l')"
    by (auto simp: stage_storeFrameHeader_def Let_def split: Option.bind_splits if_splits sum.splits)
  show "stage_storeBlockHeader env l \<noteq> Some (Return (Inr n) l')" "stage_getBlockHeader env l \<noteq> Some (Return (Inr n) l')" by (rule s g)+
  show "stage_init env l \<noteq> Some (Return (Inr n) l')" using g by (simp add: stage_init_def Let_def split: sum.splits prod.splits)
qed

lemma no_return_block:
  "stage_copyDirect env l \<noteq> Some (Return (Inr n) l')" "stage_getBlockChecksum env l \<noteq> Some (Return (Inr n) l')"
  "stage_flushOut env l \<noteq> Some (Return (Inr n) l')" "stage_getCBlock env l \<noteq> Some (Return (Inr n) l')"
  "stage_storeCBlock env l \<noteq> Some (Return (Inr n) l')"
proof -
  have c: "check_block env l bs \<noteq> Some (Return (Inr n) l')" for l bs by (auto simp: check_block_def Let_def split: Option.bind_splits if_splits)
  have f: "stage_flushOut env l \<noteq> Some (Return (Inr n) l')" for l
  proof
    assume "stage_flushOut env l = Some (Return (Inr n) l')"
    then obtain k where "(if tmpOutStart (lctx k) = tmpOutSize (lctx k) then Some (Again (k\<lparr>lctx := (lctx k)\<lparr>dStage := dstage_getBlockHeader\<rparr>\<rparr>))
        else Some (Stop (k\<lparr>nextSrcSizeHint := BHSize\<rparr>))) = Some (Return (Inr n) l')"
      unfolding stage_flushOut_def bind_eq_Some_conv by blast
    then show False by (simp split: if_splits)
  qed
  have dst: "decode_to_dst env l sel \<noteq> Some (Return (Inr n) l')" for l sel by (auto simp: decode_to_dst_def split: Option.bind_splits if_splits)
  have tmp: "decode_to_tmp env l sel \<noteq> Some (Return (Inr n) l')" for l sel
    unfolding decode_to_tmp_def Let_def using f by (simp split: Option.bind_splits prod.splits)
  have b: "decode_block env l sel \<noteq> Some (Return (Inr n) l')" for l sel
    using dst tmp unfolding decode_block_def Let_def by (cases "has_blocksum (lctx l)") (simp_all split: Option.bind_splits)
  show "stage_copyDirect env l \<noteq> Some (Return (Inr n) l')" by (auto simp: stage_copyDirect_def Let_def split: Option.bind_splits if_splits)
  show "stage_getBlockChecksum env l \<noteq> Some (Return (Inr n) l')" using c by (auto simp: stage_getBlockChecksum_def split: Option.bind_splits if_splits)
  show "stage_flushOut env l \<noteq> Some (Return (Inr n) l')" by (rule f)
  show "stage_getCBlock env l \<noteq> Some (Return (Inr n) l')" using b by (auto simp: stage_getCBlock_def)
  show "stage_storeCBlock env l \<noteq> Some (Return (Inr n) l')" using b by (auto simp: stage_storeCBlock_def Let_def split: Option.bind_splits if_splits)
qed

lemma no_return_end:
  "stage_storeSuffix env l \<noteq> Some (Return (Inr n) l')" "stage_getSuffix env l \<noteq> Some (Return (Inr n) l')"
  "stage_storeSFrameSize env l \<noteq> Some (Return (Inr n) l')" "stage_getSFrameSize env l \<noteq> Some (Return (Inr n) l')"
  "stage_skipSkippable env l \<noteq> Some (Return (Inr n) l')"
proof -
  have c: "check_suffix env l sel \<noteq> Some (Return (Inr n) l')" for l sel by (auto simp: check_suffix_def Let_def split: Option.bind_splits if_splits)
  have d: "decode_SFrameSize l bs \<noteq> Some (Return (Inr n) l')" for l bs by (auto simp: decode_SFrameSize_def Let_def split: Option.bind_splits)
  have s: "stage_storeSuffix env l \<noteq> Some (Return (Inr n) l')" for l using c by (auto simp: stage_storeSuffix_def split: Option.bind_splits if_splits)
  have t: "stage_storeSFrameSize env l \<noteq> Some (Return (Inr n) l')" for l
    using d by (auto simp: stage_storeSFrameSize_def Let_def split: Option.bind_splits if_splits)
  show "stage_storeSuffix env l \<noteq> Some (Return (Inr n) l')" "stage_storeSFrameSize env l \<noteq> Some (Return (Inr n) l')" by (rule s t)+
  show "stage_getSuffix env l \<noteq> Some (Return (Inr n) l')" "stage_getSFrameSize env l \<noteq> Some (Return (Inr n) l')"
    using c d s t by (auto simp: stage_getSuffix_def stage_getSFrameSize_def)
  show "stage_skipSkippable env l \<noteq> Some (Return (Inr n) l')" by (simp add: stage_skipSkippable_def Let_def)
qed

lemma dispatch_return: "dispatch env l = Some (Return (Inr n) l') \<Longrightarrow> dStage (lctx l) = dstage_getFrameHeader"
  using no_return[of env l n l'] no_return_block[of env l n l'] no_return_end[of env l n l']
  by (cases "dStage (lctx l)") (simp_all add: dispatch_def)

text \<open>The bytes consumed and produced only grow: every state of a call satisfies the invariant of a call begun there.\<close>

definition begun_at :: "dcall \<Rightarrow> dloop \<Rightarrow> dcall" where
  "begun_at c l = c\<lparr>srcStart := srcPtr l, dstLow := dstPtr l\<rparr>"

lemma begun_env: "env_ok c env \<Longrightarrow> srcStart c \<le> srcPtr l \<Longrightarrow> env_ok (begun_at c l) env"
proof -
  assume e: "env_ok c env" and s: "srcStart c \<le> srcPtr l"
  have "outside (heap c) (srcPtr l) (srcEnd env - srcPtr l)" using s by (intro outside_part[OF env_okD(1)[OF e]]) simp_all
  moreover have "apart (srcPtr l) (srcEnd env - srcPtr l) (dstStart env) (dstEnd env - dstStart env)"
    using s by (intro apart_part[OF env_okD(3)[OF e]]) simp_all
  ultimately show "env_ok (begun_at c l) env" using e unfolding env_ok_def begun_at_def by simp
qed

lemma begun_loop: "loop_ok c env l \<Longrightarrow> loop_ok (begun_at c l) env l"
  by (simp add: loop_ok_def moving_def begun_at_def confined_def)

lemma grows:
  assumes "env_ok c env" "loop_ok c env l"
  shows "dispatch env l = Some s \<Longrightarrow> srcPtr l \<le> srcPtr (step_state s) \<and> dstPtr l \<le> dstPtr (step_state s)"
    and "run_stages env l = Some (Inr l') \<Longrightarrow> srcPtr l \<le> srcPtr l' \<and> dstPtr l \<le> dstPtr l'"
proof -
  have b: "env_ok (begun_at c l) env" "loop_ok (begun_at c l) env l"
    using assms begun_env[OF assms(1), of l] begun_loop[OF assms(2)] by (auto simp: loop_ok_def moving_def)
  show "dispatch env l = Some s \<Longrightarrow> srcPtr l \<le> srcPtr (step_state s) \<and> dstPtr l \<le> dstPtr (step_state s)"
    using dispatch_ok[OF b] by (auto simp: wp_iff step_ok_def loop_ok_def moving_def begun_at_def split: step.splits if_splits)
  show "run_stages env l = Some (Inr l') \<Longrightarrow> srcPtr l \<le> srcPtr l' \<and> dstPtr l \<le> dstPtr l'"
    using run_stages_ok[OF b] by (auto simp: wp_iff run_post_def step_ok_def loop_ok_def moving_def begun_at_def)
qed

lemma run_progress:
  "env_ok c env \<Longrightarrow> loop_ok c env l \<Longrightarrow> waiting (lctx l) \<Longrightarrow> srcPtr l < srcEnd env \<Longrightarrow> dstPtr l < dstEnd env \<Longrightarrow> dstPtr l \<noteq> 0
    \<Longrightarrow> run_stages env l = Some (Inr l') \<Longrightarrow> srcPtr l < srcPtr l' \<or> dstPtr l < dstPtr l'"
proof (induction env l rule: run_stages.induct)
  case (1 env l)
  have r: "in_range env l" using 1(3) by (intro moving_in_range[of c]) (simp add: loop_ok_def)
  from dispatch_ok[OF 1(2,3)] obtain s where s: "dispatch env l = Some s" "step_ok c env s" by (auto simp: wp_iff)
  note g = grows(1)[OF 1(2,3) s(1)] and p = dispatch_progress[OF s(1) 1(4,3,5-7)]
  show ?case
  proof (cases s)
    case (Again k)
    have run: "run_stages env k = Some (Inr l')" using 1(8) s(1) Again r by (subst (asm) run_stages.simps) simp
    have k: "loop_ok c env k" using s(2) Again by (simp add: step_ok_def)
    note g2 = grows(2)[OF 1(2) k run]
    show ?thesis
    proof (cases "srcPtr l < srcPtr k \<or> dstPtr l < dstPtr k")
      case True
      then show ?thesis using g g2 Again by auto
    next
      case False
      then have w: "waiting (lctx k)" "srcPtr k = srcPtr l" "dstPtr k = dstPtr l" using p g Again by (auto simp: progress_def)
      have "srcPtr k < srcPtr l' \<or> dstPtr k < dstPtr l'"
        by (rule 1(1)[OF _ s(1) Again 1(2) k w(1)]) (use w r run 1(5-7) in auto)
      then show ?thesis using w by simp
    qed
  next
    case (Stop k)
    then have "l' = k" using 1(8) s(1) r by (subst (asm) run_stages.simps) simp
    then show ?thesis using p Stop by (auto simp: progress_def)
  next
    case (Return x k)
    then show ?thesis using 1(8) s(1) r by (subst (asm) run_stages.simps) simp
  qed
qed

text \<open>Only an empty input is answered without a turn of a stage that stops; what a call leaves behind waits.\<close>

lemma run_waiting:
  "env_ok c env \<Longrightarrow> loop_ok c env l \<Longrightarrow> run_stages env l = Some q
    \<Longrightarrow> (case q of Inl (Inr n, l') \<Rightarrow> dStage (lctx l) = dstage_getFrameHeader \<and> srcEnd env = srcPtr l
         | Inl (Inl e, l') \<Rightarrow> True | Inr l' \<Rightarrow> waiting (lctx l'))"
proof (induction env l rule: run_stages.induct)
  case (1 env l)
  have r: "in_range env l" using 1(3) by (intro moving_in_range[of c]) (simp add: loop_ok_def)
  from dispatch_ok[OF 1(2,3)] obtain s where s: "dispatch env l = Some s" "step_ok c env s" by (auto simp: wp_iff)
  show ?case
  proof (cases s)
    case (Again k)
    have run: "run_stages env k = Some q" using 1(4) s(1) Again r by (subst (asm) run_stages.simps) simp
    have k: "loop_ok c env k" "dStage (lctx k) \<noteq> dstage_getFrameHeader" using s(2) Again by (auto simp: step_ok_def)
    have "case q of Inl (Inr n, l') \<Rightarrow> dStage (lctx k) = dstage_getFrameHeader \<and> srcEnd env = srcPtr k
         | Inl (Inl e, l') \<Rightarrow> True | Inr l' \<Rightarrow> waiting (lctx l')"
      by (rule 1(1)[OF _ s(1) Again 1(2) k(1) run]) (use r in simp)
    then show ?thesis using k(2) by (auto split: sum.splits)
  next
    case (Stop k)
    have "0 \<le> dtmpInTarget (lctx k)" using s(2) Stop by (simp add: step_ok_def loop_ok_def moving_def base_ok_def)
    then show ?thesis using stop_waiting[of env l k] Stop 1(4) s(1) r by (subst (asm) run_stages.simps) auto
  next
    case (Return x k)
    have q: "q = Inl (x, k)" using Return 1(4) s(1) r by (subst (asm) run_stages.simps) simp
    show ?thesis
    proof (cases x)
      case (Inr n)
      then have st: "dStage (lctx l) = dstage_getFrameHeader" using dispatch_return[of env l n k] s(1) Return by simp
      have "srcEnd env = srcPtr l"
        using s(1) Return Inr st no_return(1)[of env _ n k]
        by (auto simp: dispatch_def stage_getFrameHeader_def Let_def split: Option.bind_splits if_splits sum.splits)
      then show ?thesis using q Inr st by simp
    qed (use q in simp)
  qed
qed

section \<open>The life of a context\<close>

lemma reset_idle: "base_ok H d \<Longrightarrow> idle_ok H (LZ4F_resetDecompressionContext d)"
  using reset_ok[of H d 0 0] by (simp add: idle_ok_def dctx_ok_def private_dict_def owned_def LZ4F_resetDecompressionContext_def)

lemma create_idle: "idle_ok H LZ4F_createDecompressionContext"
  by (simp add: idle_ok_def dctx_ok_def base_ok_def alloc_ok_def stage_ok_def dict_out_def owned_def private_dict_def outside_def apart_def
      LZ4F_createDecompressionContext_def)

lemma decompress_waiting:
  assumes c: "caller_ok H env dst cap src n" and d: "dctx_ok H d dst (dst + cap)" and w: "waiting d"
    and r: "LZ4F_decompress env d mem dst cap src n keep skip = Some r" and ret: "dret r = Inr k"
  shows "waiting (dctx_after r) \<and> (0 < n \<and> 0 < cap \<longrightarrow> 0 < srcSize r \<or> 0 < dstSize r)"
proof -
  let ?c = "call_site H src dst mem" and ?e = "call_env env dst cap src n keep" and ?l = "call_start d mem dst src skip"
  note s = call_setup(1)[OF c d, of mem keep] call_setup(2)[OF c d, of mem keep skip]
  have cd: "0 \<le> cap" "0 \<le> n" "dst = 0 \<longrightarrow> cap = 0" using c by (auto simp: caller_ok_def)
  have wl: "waiting (lctx ?l)" using w by (simp add: call_start_def waiting_def split: dStage_t.splits)
  obtain q where q: "run_stages ?e ?l = Some q" using run_stages_ok[OF s] by (auto simp: wp_iff)
  have unf: "LZ4F_decompress env d mem dst cap src n keep skip = (case q of
        Inl (r, l) \<Rightarrow> Some \<lparr>dret = r, dstSize = 0, srcSize = 0, dctx_after = lctx l, mem_after = lmem l\<rparr>
      | Inr l \<Rightarrow> do { l \<leftarrow> preserve_history ?e l;
          Some \<lparr>dret = Inr (nextSrcSizeHint l), dstSize = dstPtr l - dst, srcSize = srcPtr l - src, dctx_after = lctx l, mem_after = lmem l\<rparr> })"
    using q unfolding LZ4F_decompress_def call_env_def call_start_def Let_def by (simp only: bind.bind_lunit)
  show ?thesis
  proof (cases q)
    case (Inl p)
    obtain x l where p: "p = (x, l)" by (cases p)
    have x: "x = Inr k" "dctx_after r = lctx l" using unf r ret Inl p by auto
    have "n = 0" using run_waiting[OF s q] Inl p x by (simp add: call_env_def call_start_def)
    moreover have "run_post ?c ?e q" using run_stages_ok[OF s] q by (simp add: wp_iff)
    then have "dStage (lctx l) = dstage_getFrameHeader" using Inl p x by (simp add: run_post_def step_ok_def)
    ultimately show ?thesis using x by (simp add: waiting_def)
  next
    case (Inr l)
    have "run_post ?c ?e q" using run_stages_ok[OF s] q by (simp add: wp_iff)
    then have l: "loop_ok ?c ?e l" "dStage (lctx l) \<noteq> dstage_init" using Inr by (auto simp: run_post_def step_ok_def)
    obtain l' where l': "preserve_history ?e l = Some l'" "srcPtr l' = srcPtr l" "dstPtr l' = dstPtr l" "dStage (lctx l') = dStage (lctx l)"
      "dtmpInSize (lctx l') = dtmpInSize (lctx l)" "dtmpInTarget (lctx l') = dtmpInTarget (lctx l)"
      using preserve_history_ok[OF l] by (auto simp: wp_iff)
    have "waiting (lctx l)" using run_waiting[OF s q] Inr by simp
    then have "waiting (lctx l')" using l' by (simp add: waiting_def split: dStage_t.splits)
    moreover have "srcPtr ?l < srcPtr l \<or> dstPtr ?l < dstPtr l" if "0 < n" "0 < cap"
      using run_progress[OF s wl, of l] that cd q Inr by (auto simp: call_env_def call_start_def)
    ultimately show ?thesis using unf r l' Inr by (auto simp: call_start_def)
  qed
qed

text \<open>\<open>LZ4F_getFrameInfo\<close> either decodes a header, leaves the context alone, or is a call without input and output.\<close>

lemma headerSize_total: "\<exists>x. LZ4F_headerSize src = Some x \<and> (\<forall>h. x = Inr h \<longrightarrow> 7 \<le> h \<and> h \<le> 19 \<and> src \<noteq> None)"
proof (cases "\<exists>s. src = Some s \<and> 5 \<le> int (length s)")
  case True
  then obtain s where s: "src = Some s" "5 \<le> int (length s)" by blast
  then have "in_buf s 0 4" "in_buf s 4 1" by (auto simp: in_buf_def)
  then show ?thesis using s readLE32_le_word[of s 0] by (simp add: LZ4F_headerSize_def ld_def Let_def)
next
  case False
  then show ?thesis by (cases src) (auto simp: LZ4F_headerSize_def)
qed

lemma getFrameInfo_ok:
  assumes a: "allocator_ok H env" and d: "idle_ok H d" "waiting d"
  shows "\<exists>x k fi d' mem'. LZ4F_getFrameInfo env d mem src = Some (x, k, fi, d', mem') \<and> base_ok H d' \<and> (\<forall>p. p \<notin> H \<longrightarrow> mem' p = mem p)
    \<and> (\<not> isl x \<or> dStage d \<in> {dstage_getFrameHeader, dstage_storeFrameHeader} \<longrightarrow> idle_ok H d' \<and> waiting d')"
proof -
  have b: "base_ok H d" "length (dheader d) = 19" using d(1) by (auto simp: idle_ok_def dctx_ok_def base_ok_def)
  show ?thesis
  proof (cases "dStage d \<in> {dstage_getFrameHeader, dstage_storeFrameHeader}")
    case False
    have p: "\<And>p. p \<in> H \<Longrightarrow> 0 < p" using a by (simp add: allocator_ok_def)
    then have c: "caller_ok H env 0 0 0 0" using a by (fastforce simp: caller_ok_def outside_iff apart_def)
    note dc = idle_dctx[OF d(1), of 0 "0 + 0"]
    obtain r where r: "LZ4F_decompress env d mem 0 0 0 0 False False = Some r" "decompress_post H mem 0 0 0 r" "base_ok H (dctx_after r)"
      "\<not> isl (dret r) \<longrightarrow> idle_ok H (dctx_after r)"
      using decompress_ok[OF c dc, of mem False False] d(1) by (auto simp: idle_ok_def)
    have "waiting (dctx_after r)" if "\<not> isl (dret r)"
      using that decompress_waiting[OF c dc d(2) r(1)] by (cases "dret r") auto
    moreover have "mem_after r p = mem p" if "p \<notin> H" for p using r(2) that by (cases "p < 0") (auto simp: decompress_post_def)
    ultimately show ?thesis using r False by (simp add: LZ4F_getFrameInfo_def)
  next
    case True
    show ?thesis
    proof (cases "dStage d = dstage_storeFrameHeader")
      case True
      then show ?thesis using d b by (simp add: LZ4F_getFrameInfo_def)
    next
      case False
      then have st: "dStage d = dstage_getFrameHeader" using True by simp
      have nd: "ddictSize d = 0" "dict_out H d 0 0" using d(1) st by (auto simp: idle_ok_def owned_def dctx_ok_def stage_ok_def)
      obtain x where x: "LZ4F_headerSize src = Some x" "\<forall>h. x = Inr h \<longrightarrow> 7 \<le> h \<and> h \<le> 19 \<and> src \<noteq> None"
        using headerSize_total[of src] by blast
      show ?thesis
      proof (cases "\<exists>h s. x = Inr h \<and> src = Some s \<and> h \<le> int (length s)")
        case False
        then show ?thesis using x st d b by (cases x; cases src) (auto simp: LZ4F_getFrameInfo_def)
      next
        case True
        then obtain h s where h: "x = Inr h" "src = Some s" "h \<le> int (length s)" by blast
        let ?s = "take (nat h) s"
        obtain y d' where y: "LZ4F_decodeHeader (dmachine env) d ?s False = Some (y, d')" "header_post d ?s False y d'"
          using decodeHeader_ok[OF b(2), of "dmachine env" ?s False] by (auto simp: wp_iff)
        have l: "7 \<le> length ?s" using h x(2) by auto
        have o: "base_ok H d'" "\<not> isl y \<Longrightarrow> stage_ok H d' 0 0" using header_step[OF y(2) b(1) nd(2) l] by auto
        have dd: "ddictSize d' = 0" "dict_out H d' 0 0" using y(2) nd by (auto simp: header_post_def same_buffers_def dict_out_def)
        have "idle_ok H d' \<and> waiting d'"
        proof (cases y)
          case (Inl e)
          then have "dStage d' = dstage_getFrameHeader" using y(2) st by (simp add: header_post_def)
          then show ?thesis using o(1) dd by (simp add: idle_ok_def dctx_ok_def stage_ok_def owned_def private_dict_def waiting_def)
        next
          case (Inr m)
          then have "waiting d'" using y(2) by (auto simp: header_post_def waiting_def)
          then show ?thesis using o dd Inr by (simp add: idle_ok_def dctx_ok_def owned_def private_dict_def)
        qed
        then show ?thesis using st x(1) h y(1) o(1) by (cases y) (auto simp: LZ4F_getFrameInfo_def)
      qed
    qed
  qed
qed

text \<open>The contexts a program can have that resets a context after an error.\<close>

inductive dctx_reachable :: "int set \<Rightarrow> LZ4F_dctx \<Rightarrow> bool" for H where
  created: "dctx_reachable H LZ4F_createDecompressionContext"
| called: "dctx_reachable H d \<Longrightarrow> caller_ok H env dst cap src n
    \<Longrightarrow> LZ4F_decompress env d mem dst cap src n False skip = Some r \<Longrightarrow> dret r = Inr k \<Longrightarrow> dctx_reachable H (dctx_after r)"
| failed: "dctx_reachable H d \<Longrightarrow> caller_ok H env dst cap src n
    \<Longrightarrow> LZ4F_decompress env d mem dst cap src n keep skip = Some r \<Longrightarrow> dctx_reachable H (LZ4F_resetDecompressionContext (dctx_after r))"
| asked: "dctx_reachable H d \<Longrightarrow> allocator_ok H env \<Longrightarrow> LZ4F_getFrameInfo env d mem src' = Some (Inr k, used, fi, d', mem')
    \<Longrightarrow> dctx_reachable H d'"
| refused: "dctx_reachable H d \<Longrightarrow> allocator_ok H env \<Longrightarrow> LZ4F_getFrameInfo env d mem src' = Some (Inl e, used, fi, d', mem')
    \<Longrightarrow> dStage d \<in> {dstage_getFrameHeader, dstage_storeFrameHeader} \<Longrightarrow> dctx_reachable H d'"
| reset: "dctx_reachable H d \<Longrightarrow> dctx_reachable H (LZ4F_resetDecompressionContext d)"

lemma reachable_idle: "dctx_reachable H d \<Longrightarrow> idle_ok H d \<and> waiting d"
proof (induction rule: dctx_reachable.induct)
  case created
  then show ?case using create_idle by (simp add: waiting_def LZ4F_createDecompressionContext_def)
next
  case (called d env dst cap src n mem skip r k)
  note dc = idle_dctx[OF conjunct1[OF called.IH], of dst "dst + cap"]
  have "idle_ok H (dctx_after r)" using decompress_ok[OF called(2) dc, of mem False skip] called by (auto simp: idle_ok_def)
  then show ?case using decompress_waiting[OF called(2) dc _ called(3,4)] called.IH by simp
next
  case (failed d env dst cap src n mem keep skip r)
  note dc = idle_dctx[OF conjunct1[OF failed.IH], of dst "dst + cap"]
  have "base_ok H (dctx_after r)" using decompress_ok[OF failed(2) dc, of mem keep skip] failed(3) by auto
  then show ?case using reset_idle reset_waiting by simp
next
  case (asked d env mem src' k used fi d' mem')
  then show ?case using getFrameInfo_ok[of H env d mem src'] by auto
next
  case (refused d env mem src' e used fi d' mem')
  then show ?case using getFrameInfo_ok[of H env d mem src'] by auto
next
  case (reset d)
  then have "base_ok H d" by (simp add: idle_ok_def dctx_ok_def)
  then show ?case using reset_idle reset_waiting by simp
qed

section \<open>Every past of a context\<close>

text \<open>With \<open>stableDst\<close>, or with \<open>LZ4F_decompress_usingDict\<close>, a context refers between calls to history in the caller's
  memory. The caller must not have it overwritten: \<open>spared\<close> says that the next output buffer is elsewhere (or that the frame
  is over, so the history is not used any more).\<close>

definition spared :: "LZ4F_dctx \<Rightarrow> int \<Rightarrow> int \<Rightarrow> bool" where
  "spared d dst cap \<longleftrightarrow> dStage d \<in> {dstage_getSuffix, dstage_storeSuffix, dstage_getSFrameSize, dstage_storeSFrameSize, dstage_skipSkippable}
     \<or> apart (ddict d) (ddictSize d) dst cap"

definition caller_dict :: "int set \<Rightarrow> int \<Rightarrow> int \<Rightarrow> bool" where
  "caller_dict H x k \<longleftrightarrow> 0 \<le> k \<and> (x = 0 \<longrightarrow> k = 0) \<and> outside H x k"

text \<open>What \<open>LZ4F_decompress_usingDict\<close> does to a context before it decompresses.\<close>

definition set_dict :: "LZ4F_dctx \<Rightarrow> int \<Rightarrow> int \<Rightarrow> LZ4F_dctx" where
  "set_dict d x k = (if dStage d \<in> {dstage_getFrameHeader, dstage_storeFrameHeader, dstage_init} then d\<lparr>ddict := x, ddictSize := k\<rparr> else d)"

lemma usingDict_set: "LZ4F_decompress_usingDict env d mem dst cap src n x k keep skip = LZ4F_decompress env (set_dict d x k) mem dst cap src n keep skip"
  by (simp add: LZ4F_decompress_usingDict_def set_dict_def)

text \<open>All the contexts of a program that resets a context after an error: any sequence of calls, with and without \<open>stableDst\<close>, with
  and without a dictionary, failed or not, questions for the frame parameters, resets.\<close>

inductive dctx_live :: "int set \<Rightarrow> LZ4F_dctx \<Rightarrow> bool" for H where
  live_created: "dctx_live H LZ4F_createDecompressionContext"
| live_called: "dctx_live H d \<Longrightarrow> caller_ok H env dst cap src n \<Longrightarrow> spared d dst cap
    \<Longrightarrow> LZ4F_decompress env d mem dst cap src n keep skip = Some r \<Longrightarrow> dret r = Inr k \<Longrightarrow> dctx_live H (dctx_after r)"
| live_called_dict: "dctx_live H d \<Longrightarrow> caller_ok H env dst cap src n \<Longrightarrow> spared d dst cap \<Longrightarrow> caller_dict H x m \<Longrightarrow> apart x m dst cap
    \<Longrightarrow> LZ4F_decompress_usingDict env d mem dst cap src n x m keep skip = Some r \<Longrightarrow> dret r = Inr k \<Longrightarrow> dctx_live H (dctx_after r)"
| live_failed: "dctx_live H d \<Longrightarrow> caller_ok H env dst cap src n \<Longrightarrow> spared d dst cap
    \<Longrightarrow> LZ4F_decompress env d mem dst cap src n keep skip = Some r \<Longrightarrow> dctx_live H (LZ4F_resetDecompressionContext (dctx_after r))"
| live_failed_dict: "dctx_live H d \<Longrightarrow> caller_ok H env dst cap src n \<Longrightarrow> spared d dst cap \<Longrightarrow> caller_dict H x m \<Longrightarrow> apart x m dst cap
    \<Longrightarrow> LZ4F_decompress_usingDict env d mem dst cap src n x m keep skip = Some r
    \<Longrightarrow> dctx_live H (LZ4F_resetDecompressionContext (dctx_after r))"
| live_asked: "dctx_live H d \<Longrightarrow> allocator_ok H env \<Longrightarrow> LZ4F_getFrameInfo env d mem src' = Some (Inr k, used, fi, d', mem')
    \<Longrightarrow> dctx_live H d'"
| live_refused: "dctx_live H d \<Longrightarrow> allocator_ok H env \<Longrightarrow> LZ4F_getFrameInfo env d mem src' = Some (Inl e, used, fi, d', mem')
    \<Longrightarrow> dStage d \<in> {dstage_getFrameHeader, dstage_storeFrameHeader} \<Longrightarrow> dctx_live H d'"
| live_reset: "dctx_live H d \<Longrightarrow> dctx_live H (LZ4F_resetDecompressionContext d)"

definition live_ok :: "int set \<Rightarrow> LZ4F_dctx \<Rightarrow> bool" where
  "live_ok H d \<longleftrightarrow> dctx_ok H d 0 0 \<and> waiting d"

lemma idle_live: "idle_ok H d \<Longrightarrow> waiting d \<Longrightarrow> live_ok H d"
  by (simp add: live_ok_def idle_ok_def)

lemma stage_spared: "stage_ok H d 0 0 \<Longrightarrow> spared d dst cap \<Longrightarrow> stage_ok H d dst (dst + cap)"
proof -
  assume s: "stage_ok H d 0 0" and p: "spared d dst cap"
  have o: "dict_out H d 0 0 \<Longrightarrow> apart (ddict d) (ddictSize d) dst cap \<Longrightarrow> dict_out H d dst (dst + cap)"
    by (simp add: dict_out_def)
  then have "ready H d 0 0 \<Longrightarrow> apart (ddict d) (ddictSize d) dst cap \<Longrightarrow> ready H d dst (dst + cap)" by (auto simp: ready_def)
  then show ?thesis using s p o ready_no_dict_any[of H d 0 0 dst "dst + cap"]
    by (cases "dStage d") (auto simp: stage_ok_def spared_def)
qed

lemma dctx_spared: "live_ok H d \<Longrightarrow> spared d dst cap \<Longrightarrow> dctx_ok H d dst (dst + cap)"
  using stage_spared by (simp add: live_ok_def dctx_ok_def)

lemma set_dict_live:
  assumes "live_ok H d" "caller_dict H x k" "apart x k dst cap" "spared d dst cap"
  shows "live_ok H (set_dict d x k)" "spared (set_dict d x k) dst cap"
proof -
  show "spared (set_dict d x k) dst cap" using assms(3,4) by (auto simp: set_dict_def spared_def)
  show "live_ok H (set_dict d x k)" using assms(1,2)
    by (cases "dStage d") (auto simp: set_dict_def live_ok_def dctx_ok_def base_ok_def alloc_ok_def tmp_ok_def stage_ok_def dict_out_def
        caller_dict_def waiting_def apart_def)
qed

lemma call_live:
  assumes d: "live_ok H d" and c: "caller_ok H env dst cap src n" and s: "spared d dst cap"
    and r: "LZ4F_decompress env d mem dst cap src n keep skip = Some r"
  shows "dret r = Inr k \<Longrightarrow> live_ok H (dctx_after r)" "live_ok H (LZ4F_resetDecompressionContext (dctx_after r))"
proof -
  note dc = dctx_spared[OF d s]
  have p: "base_ok H (dctx_after r)" "\<not> isl (dret r) \<longrightarrow> dctx_ok H (dctx_after r) 0 0"
    using decompress_ok[OF c dc, of mem keep skip] r by auto
  show "live_ok H (dctx_after r)" if "dret r = Inr k"
    using that p decompress_waiting[OF c dc _ r that] d by (simp add: live_ok_def)
  show "live_ok H (LZ4F_resetDecompressionContext (dctx_after r))" by (rule idle_live[OF reset_idle[OF p(1)] reset_waiting])
qed

lemma getFrameInfo_live:
  assumes a: "allocator_ok H env" and d: "live_ok H d" and g: "LZ4F_getFrameInfo env d mem src = Some (x, k, fi, d', mem')"
    and e: "\<not> isl x \<or> dStage d \<in> {dstage_getFrameHeader, dstage_storeFrameHeader}"
  shows "live_ok H d'"
proof (cases "dStage d \<in> {dstage_getFrameHeader, dstage_storeFrameHeader}")
  case False
  have c: "caller_ok H env 0 0 0 0" using a by (fastforce simp: allocator_ok_def caller_ok_def outside_iff apart_def)
  have s: "spared d 0 0" by (simp add: spared_def apart_def)
  obtain r where r: "LZ4F_decompress env d mem 0 0 0 0 False False = Some r" "x = dret r" "d' = dctx_after r"
    using g False by (auto simp: LZ4F_getFrameInfo_def split: Option.bind_splits)
  have "\<not> isl (dret r)" using e False r(2) by simp
  then obtain j where "dret r = Inr j" by (cases "dret r") auto
  then show ?thesis using call_live(1)[OF d c s r(1)] r(3) by simp
next
  case True
  have b: "base_ok H d" "length (dheader d) = 19" and w: "waiting d" using d by (auto simp: live_ok_def dctx_ok_def base_ok_def)
  have dout: "dict_out H d 0 0" using d True by (auto simp: live_ok_def dctx_ok_def stage_ok_def)
  show ?thesis
  proof (cases "\<exists>h s y. dStage d = dstage_getFrameHeader \<and> LZ4F_headerSize src = Some (Inr h) \<and> src = Some s \<and> h \<le> int (length s)
      \<and> LZ4F_decodeHeader (dmachine env) d (take (nat h) s) False = Some (y, d')")
    case False
    then have "d' = d" using g True
      by (auto simp: LZ4F_getFrameInfo_def split: Option.bind_splits sum.splits option.splits if_splits)
    then show ?thesis using d by simp
  next
    case True
    then obtain h s y where h: "dStage d = dstage_getFrameHeader" "LZ4F_headerSize src = Some (Inr h)" "src = Some s" "h \<le> int (length s)"
      "LZ4F_decodeHeader (dmachine env) d (take (nat h) s) False = Some (y, d')" by blast
    let ?s = "take (nat h) s"
    have y: "header_post d ?s False y d'" using decodeHeader_ok[OF b(2), of "dmachine env" ?s False] h(5) by (auto simp: wp_iff)
    have l: "7 \<le> length ?s" using headerSize_total[of src] h by auto
    have o: "base_ok H d'" "\<not> isl y \<Longrightarrow> stage_ok H d' 0 0" using header_step[OF y b(1) dout l] by auto
    have dd: "dict_out H d' 0 0" using y dout by (auto simp: header_post_def same_buffers_def dict_out_def)
    show ?thesis
    proof (cases y)
      case (Inl e)
      then have "dStage d' = dstage_getFrameHeader" using y h(1) by (simp add: header_post_def)
      then show ?thesis using o(1) dd by (simp add: live_ok_def dctx_ok_def stage_ok_def waiting_def)
    next
      case (Inr m)
      then have "waiting d'" using y by (auto simp: header_post_def waiting_def)
      then show ?thesis using o Inr by (simp add: live_ok_def dctx_ok_def)
    qed
  qed
qed

lemma dctx_live_ok: "dctx_live H d \<Longrightarrow> live_ok H d"
proof (induction rule: dctx_live.induct)
  case live_created
  show ?case by (rule idle_live[OF create_idle]) (simp add: waiting_def LZ4F_createDecompressionContext_def)
next
  case (live_called d env dst cap src n mem keep skip r k)
  then show ?case using call_live(1) by blast
next
  case (live_called_dict d env dst cap src n x m mem keep skip r k)
  from call_live(1)[OF set_dict_live(1)[OF live_called_dict.IH live_called_dict(4,5,3)] live_called_dict(2)
      set_dict_live(2)[OF live_called_dict.IH live_called_dict(4,5,3)] live_called_dict(6)[unfolded usingDict_set] live_called_dict(7)]
  show ?case .
next
  case (live_failed d env dst cap src n mem keep skip r)
  then show ?case using call_live(2) by blast
next
  case (live_failed_dict d env dst cap src n x m mem keep skip r)
  from call_live(2)[OF set_dict_live(1)[OF live_failed_dict.IH live_failed_dict(4,5,3)] live_failed_dict(2)
      set_dict_live(2)[OF live_failed_dict.IH live_failed_dict(4,5,3)] live_failed_dict(6)[unfolded usingDict_set]]
  show ?case .
next
  case (live_asked d env mem src' k used fi d' mem')
  then show ?case using getFrameInfo_live by fastforce
next
  case (live_refused d env mem src' e used fi d' mem')
  then show ?case using getFrameInfo_live by blast
next
  case (live_reset d)
  then have "base_ok H d" by (simp add: live_ok_def dctx_ok_def)
  then show ?case by (rule idle_live[OF reset_idle reset_waiting])
qed

text \<open>Without \<open>stableDst\<close> and dictionaries the history is in the context's own buffers, and every output buffer is spared.\<close>

lemma private_spared:
  assumes d: "idle_ok H d" and c: "caller_ok H env dst cap src n"
  shows "spared d dst cap"
proof (cases "ddictSize d = 0 \<or> dStage d \<in> {dstage_getSuffix, dstage_storeSuffix, dstage_getSFrameSize, dstage_storeSFrameSize, dstage_skipSkippable}")
  case True
  then show ?thesis by (auto simp: spared_def apart_def)
next
  case False
  then have t: "in_tmp d" "dStage d \<notin> {dstage_getFrameHeader, dstage_storeFrameHeader, dstage_init}"
    using d by (auto simp: idle_ok_def private_dict_def owned_def)
  then have "ready H d 0 0" using d False by (cases "dStage d") (auto simp: idle_ok_def dctx_ok_def stage_ok_def)
  then have "owns H (tmpOutBuffer d) (dmaxBufferSize d)" by (rule tmp_room(2))
  then have "owns H (ddict d) (ddictSize d)" using t(1) owns_part[of H "tmpOutBuffer d" "dmaxBufferSize d"] by (auto simp: in_tmp_def)
  moreover have "outside H dst cap" using c outside_part[of H "dst - 1" "cap + 2" dst cap] by (simp add: caller_ok_def)
  ultimately show ?thesis by (auto simp: spared_def intro: owns_outside)
qed

lemma reachable_live: "dctx_reachable H d \<Longrightarrow> dctx_live H d"
proof (induction rule: dctx_reachable.induct)
  case (called d env dst cap src n mem skip r k)
  then show ?case using live_called private_spared[OF conjunct1[OF reachable_idle]] by blast
next
  case (failed d env dst cap src n mem keep skip r)
  then show ?case using live_failed private_spared[OF conjunct1[OF reachable_idle]] by blast
qed (blast intro: dctx_live.intros)+

section \<open>Properties\<close>

text \<open>An allocator with room for every frame, and a heap around its blocks.\<close>

definition sample_heap :: "int set" where
  "sample_heap = {1000000..<20000000}"

definition sample_env :: denv where
  "sample_env = \<lparr>dmachine = XXH_littleEndian, dfast = False, malloc_in = (\<lambda>n. 1000000), malloc_out = (\<lambda>n. 10000000),
     srcEnd = 0, dstStart = 0, dstEnd = 0, stableDst = False\<rparr>"

lemma sample_caller: "0 \<le> n \<Longrightarrow> n \<le> 1000 \<Longrightarrow> 0 \<le> cap \<Longrightarrow> cap \<le> 1000 \<Longrightarrow> caller_ok sample_heap sample_env 3000 cap 1000 n"
  by (auto simp: caller_ok_def allocator_ok_def sample_heap_def sample_env_def owns_iff outside_iff apart_def block_sizes_def)

lemma sample_call:
  "\<exists>r. LZ4F_decompress sample_env LZ4F_createDecompressionContext mem 3000 10 1000 1 False False = Some r \<and> dret r = Inr 10"
proof -
  let ?e = "call_env sample_env 3000 10 1000 1 False" and ?l = "call_start LZ4F_createDecompressionContext mem 3000 1000 False"
  have l: "read_mem mem 1000 1 = [mem 1000]" by (simp add: read_mem_def)
  define k where "k = ?l\<lparr>lctx := LZ4F_createDecompressionContext\<lparr>dtmpInSize := 1, dtmpInTarget := 7, dStage := dstage_storeFrameHeader,
      dheader := upd (replicate 19 0) 0 [mem 1000]\<rparr>, srcPtr := 1001, nextSrcSizeHint := 10\<rparr>"
  have d: "dispatch ?e ?l = Some (Stop k)"
    using l by (simp add: k_def dispatch_def stage_getFrameHeader_def stage_storeFrameHeader_def fill_header_def call_env_def call_start_def sample_env_def
        Let_def usub_def wrn_def in_buf_def LZ4F_createDecompressionContext_def)
  have r: "in_range ?e ?l" by (simp add: in_range_def call_env_def call_start_def sample_env_def LZ4F_createDecompressionContext_def)
  have "run_stages ?e ?l = Some (Inr k)" using r d by (subst run_stages.simps) simp
  moreover have "nextSrcSizeHint k = 10" "dStage (lctx k) = dstage_storeFrameHeader" by (simp_all add: k_def)
  ultimately have k: "run_stages ?e ?l = Some (Inr k)" "nextSrcSizeHint k = 10" "dStage (lctx k) = dstage_storeFrameHeader" by simp_all
  then have "preserve_history ?e k = Some k" by (simp add: preserve_history_def must_preserve_def)
  then show ?thesis using k unfolding LZ4F_decompress_def call_env_def call_start_def Let_def by simp
qed

text \<open>C4. Every call of \<open>LZ4F_decompress\<close> or \<open>LZ4F_decompress_usingDict\<close>, on arbitrary input and with any options, returns, on a
  context with any past: created, called with arbitrary bytes, with or without \<open>stableDst\<close> and dictionaries, asked for the frame
  parameters, reset after errors. What is asked of the caller is that the output buffer does not overlap the source or the history
  he lent the context (\<open>spared\<close>; nothing, by \<open>private_spared\<close>, for a program without \<open>stableDst\<close> and dictionaries). The call consumes
  at most the bytes it was given, produces at most the room it was given, writes only there and in the context's own buffers, and
  no \<open>memcpy\<close> it makes overlaps.\<close>

theorem LZ4F_decompress_safe:
  assumes "dctx_live H d" "caller_ok H env dst cap src n" "spared d dst cap"
  shows "(\<exists>r. LZ4F_decompress env d mem dst cap src n keep skip = Some r \<and> 0 \<le> dstSize r \<and> dstSize r \<le> cap \<and> 0 \<le> srcSize r \<and> srcSize r \<le> n
      \<and> (\<forall>p. p \<notin> H \<and> (p < dst \<or> dst + cap \<le> p) \<longrightarrow> mem_after r p = mem p))
    \<and> (caller_dict H x k \<and> apart x k dst cap \<longrightarrow>
       (\<exists>r. LZ4F_decompress_usingDict env d mem dst cap src n x k keep skip = Some r \<and> 0 \<le> dstSize r \<and> dstSize r \<le> cap \<and> 0 \<le> srcSize r \<and> srcSize r \<le> n
         \<and> (\<forall>p. p \<notin> H \<and> (p < dst \<or> dst + cap \<le> p) \<longrightarrow> mem_after r p = mem p)))"
proof -
  have d: "live_ok H d" by (rule dctx_live_ok[OF assms(1)])
  have ok: "\<exists>r. LZ4F_decompress env d mem dst cap src n keep skip = Some r \<and> decompress_post H mem dst cap n r"
    if "live_ok H d" "spared d dst cap" for d
    using decompress_ok[OF assms(2) dctx_spared[OF that], of mem keep skip] by blast
  show ?thesis unfolding usingDict_set
    using ok[OF d assms(3)] ok[OF set_dict_live[OF d _ _ assms(3)], of x k] unfolding decompress_post_def by blast
qed

lemma LZ4F_decompress_safe_witness:
  "\<exists>r1 r2. LZ4F_decompress sample_env LZ4F_createDecompressionContext (\<lambda>_. 77) 3000 10 1000 1 True False = Some r1
    \<and> LZ4F_decompress_usingDict sample_env (LZ4F_resetDecompressionContext (dctx_after r1)) (mem_after r1) 3000 10 1000 40 500 100 True False = Some r2
    \<and> dstSize r2 \<le> 10 \<and> mem_after r2 1000 = 77"
proof -
  have s: "spared d 3000 10" if "ddictSize d = 0" for d using that by (simp add: spared_def apart_def)
  have c0: "ddictSize LZ4F_createDecompressionContext = 0" by (simp add: LZ4F_createDecompressionContext_def)
  obtain r1 where r1: "LZ4F_decompress sample_env LZ4F_createDecompressionContext (\<lambda>_. 77) 3000 10 1000 1 True False = Some r1"
    "\<forall>p. p \<notin> sample_heap \<and> (p < 3000 \<or> 3000 + 10 \<le> p) \<longrightarrow> mem_after r1 p = 77"
    using conjunct1[OF LZ4F_decompress_safe[OF live_created sample_caller[of 1 10] s[OF c0], of "\<lambda>_. 77" True False]] by auto
  let ?d = "LZ4F_resetDecompressionContext (dctx_after r1)"
  have live: "dctx_live sample_heap ?d"
    by (rule live_failed[OF live_created sample_caller[of 1 10] s[OF c0] r1(1)]) simp_all
  have c1: "ddictSize ?d = 0" by (simp add: LZ4F_resetDecompressionContext_def)
  have dict: "caller_dict sample_heap 500 100" by (auto simp: caller_dict_def outside_iff sample_heap_def)
  obtain r2 where r2: "LZ4F_decompress_usingDict sample_env ?d (mem_after r1) 3000 10 1000 40 500 100 True False = Some r2" "dstSize r2 \<le> 10"
    "\<forall>p. p \<notin> sample_heap \<and> (p < 3000 \<or> 3000 + 10 \<le> p) \<longrightarrow> mem_after r2 p = mem_after r1 p"
    using conjunct2[OF LZ4F_decompress_safe[OF live sample_caller[of 40 10] s[OF c1], of "mem_after r1" True False 500 100]] dict
    by (auto simp: apart_def)
  moreover have "mem_after r2 1000 = 77" using r1(2) r2(3) by (simp add: sample_heap_def)
  ultimately show ?thesis using r1(1) by blast
qed

text \<open>C36. A call of \<open>LZ4F_decompress\<close> that is given input and room for output and does not fail makes progress: it consumes or it
  produces at least a byte, so a caller that keeps feeding a frame comes to its end.\<close>

theorem LZ4F_decompress_progress:
  assumes "dctx_reachable H d" "caller_ok H env dst cap src n" "0 < n" "0 < cap"
    and "LZ4F_decompress env d mem dst cap src n keep skip = Some r" "dret r = Inr k"
  shows "0 < srcSize r \<or> 0 < dstSize r"
  using decompress_waiting[OF assms(2) idle_dctx[OF conjunct1[OF reachable_idle[OF assms(1)]]] conjunct2[OF reachable_idle[OF assms(1)]] assms(5,6)]
    assms(3,4) by simp

lemma LZ4F_decompress_progress_witness:
  "\<exists>r. LZ4F_decompress sample_env LZ4F_createDecompressionContext (\<lambda>_. 4) 3000 10 1000 1 False False = Some r \<and> dret r = Inr 10
    \<and> (0 < srcSize r \<or> 0 < dstSize r)"
  using sample_call[of "\<lambda>_. 4"] LZ4F_decompress_progress[OF dctx_reachable.created sample_caller[of 1 10]] by fastforce

end
