(* ===== verification/LZ4F_Decode.thy ===== *)
theory LZ4F_Decode
  imports LZ4F_Session
begin

text \<open>
  What an LZ4 frame is, and that one call of \<open>LZ4F_decompress\<close> on a frame gives its content: the header
  in one or two pieces, blocks of both kinds, linked or not, with and without checksums, the end mark.
\<close>

section \<open>The frame format\<close>

definition crc_field :: "bool \<Rightarrow> bytes \<Rightarrow> bytes" where
  "crc_field enabled bs = (if enabled then LZ4F_writeLE32 (xxh32 0 bs) else [])"

definition block_limit :: "LZ4F_frameInfo_t \<Rightarrow> int" where
  "block_limit fi = as_size_t (LZ4F_getBlockSize (blockSizeID fi))"

abbreviation block_crc :: "LZ4F_frameInfo_t \<Rightarrow> bytes \<Rightarrow> bytes" where
  "block_crc fi \<equiv> crc_field (blockChecksumFlag fi = LZ4F_blockChecksumEnabled)"

abbreviation content_crc :: "LZ4F_frameInfo_t \<Rightarrow> bytes \<Rightarrow> bytes" where
  "content_crc fi \<equiv> crc_field (contentChecksumFlag fi = LZ4F_contentChecksumEnabled)"

text \<open>A block as it is stored, and the blocks of a frame after the content \<open>h\<close>.\<close>

definition raw_block :: "LZ4F_frameInfo_t \<Rightarrow> bytes \<Rightarrow> bytes" where
  "raw_block fi x = LZ4F_writeLE32 (of_nat (length x) OR LZ4F_BLOCKUNCOMPRESSED_FLAG) @ x @ block_crc fi x"

definition packed_block :: "LZ4F_frameInfo_t \<Rightarrow> bytes \<Rightarrow> bytes" where
  "packed_block fi c = LZ4F_writeLE32 (of_nat (length c)) @ c @ block_crc fi c"

inductive blocks_enc :: "LZ4F_frameInfo_t \<Rightarrow> bytes \<Rightarrow> bytes \<Rightarrow> bytes \<Rightarrow> bool" for fi where
  none: "blocks_enc fi h [] []"
| raw: "int (length x) \<le> block_limit fi \<Longrightarrow> blocks_enc fi (h @ x) rest y \<Longrightarrow> blocks_enc fi h (raw_block fi x @ rest) (x @ y)"
| packed: "c \<noteq> [] \<Longrightarrow> int (length c) \<le> block_limit fi \<Longrightarrow> x \<noteq> [] \<Longrightarrow> int (length x) \<le> block_limit fi
    \<Longrightarrow> block_of (if blockMode fi = LZ4F_blockLinked then h else []) c x \<Longrightarrow> blocks_enc fi (h @ x) rest y
    \<Longrightarrow> blocks_enc fi h (packed_block fi c @ rest) (x @ y)"

definition frame_of :: "LZ4F_frameInfo_t \<Rightarrow> bytes \<Rightarrow> bytes \<Rightarrow> bool" where
  "frame_of fi f content \<longleftrightarrow> info_ok fi \<and> (contentSize fi \<noteq> 0 \<longrightarrow> contentSize fi = int (length content))
     \<and> (\<exists>blocks. blocks_enc fi [] blocks content \<and> f = header_of fi @ blocks @ LZ4F_writeLE32 0 @ content_crc fi content)"

lemma length_crc [simp]: "length (crc_field b xs) = (if b then 4 else 0)"
  by (simp add: crc_field_def)

lemma block_limit_sizes: "info_ok fi \<Longrightarrow> block_limit fi \<in> block_sizes"
proof -
  assume "info_ok fi"
  then have "blockSizeID fi \<in> {4, 5, 6, 7}" by (auto simp: info_ok_def)
  then show ?thesis by (auto simp: block_limit_def block_sizes_def as_size_t_def LZ4F_getBlockSize_def)
qed

text \<open>Block headers: the two kinds are told apart by the highest bit, and no block has the word of the end mark.\<close>

lemma top_bits: "bit (0x80000000 :: u32) k \<longleftrightarrow> k = 31" "bit (0x7FFFFFFF :: u32) k \<longleftrightarrow> k < 31"
proof -
  have f: "(0x80000000 :: u32) = push_bit 31 1" "(0x7FFFFFFF :: u32) = mask 31" by (simp_all add: mask_eq_exp_minus_1)
  show "bit (0x80000000 :: u32) k \<longleftrightarrow> k = 31" unfolding f(1) bit_push_bit_iff by (auto simp: possible_bit_def)
  show "bit (0x7FFFFFFF :: u32) k \<longleftrightarrow> k < 31" unfolding f(2) bit_mask_iff by (auto simp: possible_bit_def)
qed

lemma flagged_word:
  assumes t: "take_bit 31 w = (w :: u32)"
  shows "(w OR 0x80000000) AND 0x7FFFFFFF = w" "(w OR 0x80000000) AND 0x80000000 = 0x80000000" "w AND 0x7FFFFFFF = w" "w AND 0x80000000 = 0"
proof -
  have b: "bit w k \<Longrightarrow> k < 31" for k using t by (metis bit_take_bit_iff)
  show "(w OR 0x80000000) AND 0x7FFFFFFF = w" by (rule bit_word_eqI, unfold bit_and_iff bit_or_iff top_bits) (auto dest: b)
  show "(w OR 0x80000000) AND 0x80000000 = 0x80000000" by (rule bit_word_eqI, unfold bit_and_iff bit_or_iff top_bits) (auto dest: b)
  show "w AND 0x7FFFFFFF = w" by (rule bit_word_eqI, unfold bit_and_iff top_bits bit_0_eq) (auto dest: b)
  show "w AND 0x80000000 = 0" by (rule bit_word_eqI, unfold bit_and_iff top_bits bit_0_eq) (auto dest: b)
qed

lemma header_words:
  assumes "n < 2 ^ 31"
  shows "uint ((of_nat n OR LZ4F_BLOCKUNCOMPRESSED_FLAG) AND 0x7FFFFFFF) = int n"
    "(of_nat n OR LZ4F_BLOCKUNCOMPRESSED_FLAG) AND LZ4F_BLOCKUNCOMPRESSED_FLAG \<noteq> 0"
    "uint ((of_nat n :: u32) AND 0x7FFFFFFF) = int n" "(of_nat n :: u32) AND LZ4F_BLOCKUNCOMPRESSED_FLAG = 0"
proof -
  let ?w = "of_nat n :: u32"
  have t: "take_bit 31 ?w = ?w" and u: "uint ?w = int n"
    using assms by (simp_all add: take_bit_of_nat take_bit_nat_eq_self unsigned_of_nat)
  note f = flagged_word[OF t]
  show "uint ((?w OR LZ4F_BLOCKUNCOMPRESSED_FLAG) AND 0x7FFFFFFF) = int n" "uint (?w AND 0x7FFFFFFF) = int n" by (simp_all only: f u)
  show "(?w OR LZ4F_BLOCKUNCOMPRESSED_FLAG) AND LZ4F_BLOCKUNCOMPRESSED_FLAG \<noteq> 0" by (simp only: f) simp
  show "?w AND LZ4F_BLOCKUNCOMPRESSED_FLAG = 0" by (simp only: f)
qed

section \<open>The state between two blocks\<close>

definition stored :: "memory \<Rightarrow> int \<Rightarrow> bytes \<Rightarrow> bool" where
  "stored mem a bs \<longleftrightarrow> read_mem mem a (int (length bs)) = bs"

lemma stored_append [simp]: "stored mem a (xs @ ys) \<longleftrightarrow> stored mem a xs \<and> stored mem (a + int (length xs)) ys"
  using read_mem_split[of "int (length xs)" "int (length ys)" mem a] by (auto simp: stored_def)

lemma stored_Nil [simp]: "stored mem a []"
  by (simp add: stored_def read_mem_def)

lemma stored_cong: "stored mem a bs \<Longrightarrow> (\<And>p. a \<le> p \<Longrightarrow> p < a + int (length bs) \<Longrightarrow> mem' p = mem p) \<Longrightarrow> stored mem' a bs"
  unfolding stored_def using read_mem_cong[of a "int (length bs)" mem' mem] by simp

text \<open>What has been decoded; the input is what the memory held when the call began.\<close>

definition decoded :: "denv \<Rightarrow> LZ4F_frameInfo_t \<Rightarrow> int \<Rightarrow> bytes \<Rightarrow> LZ4F_dctx \<Rightarrow> int \<Rightarrow> memory \<Rightarrow> bool" where
  "decoded env fi full out d p mem \<longleftrightarrow> dframeInfo d = fi \<and> dmaxBlockSize d = block_limit fi \<and> p = dstStart env + int (length out)
     \<and> stored mem (dstStart env) out
     \<and> ddictSize d = (if linked d then int (length out) else 0) \<and> (ddict d = 0 \<or> ddict d = dstStart env) \<and> (ddict d = 0 \<longrightarrow> ddictSize d = 0)
     \<and> (has_contentsum d \<and> \<not> skipChecksum d \<longrightarrow> XXH32_holds 0 (dxxh d) out)
     \<and> frameRemainingSize d = (if contentSize fi \<noteq> 0 then full - int (length out) else 0)"

lemma decoded_fields [simp]:
  "decoded env fi full out (d\<lparr>dStage := s\<rparr>) p mem = decoded env fi full out d p mem"
  "decoded env fi full out (d\<lparr>dtmpInSize := n\<rparr>) p mem = decoded env fi full out d p mem"
  "decoded env fi full out (d\<lparr>dtmpInTarget := n\<rparr>) p mem = decoded env fi full out d p mem"
  "decoded env fi full out (d\<lparr>tmpOut := a\<rparr>) p mem = decoded env fi full out d p mem"
  "decoded env fi full out (d\<lparr>tmpOutStart := n\<rparr>) p mem = decoded env fi full out d p mem"
  by (simp_all add: decoded_def)

definition at_block :: "dcall \<Rightarrow> denv \<Rightarrow> LZ4F_frameInfo_t \<Rightarrow> int \<Rightarrow> bytes \<Rightarrow> dloop \<Rightarrow> bool" where
  "at_block c env fi full out l \<longleftrightarrow> loop_ok c env l \<and> dStage (lctx l) = dstage_getBlockHeader
     \<and> decoded env fi full out (lctx l) (dstPtr l) (lmem l)"

definition addresses_ok :: "dcall \<Rightarrow> denv \<Rightarrow> bool" where
  "addresses_ok c env \<longleftrightarrow> env_ok c env \<and> (\<forall>p \<in> heap c. p < 2 ^ 63) \<and> 0 < srcStart c \<and> srcEnd env < 2 ^ 63 \<and> 0 < dstStart env \<and> dstEnd env < 2 ^ 63"

lemma step_run:
  assumes "env_ok c env" "loop_ok c env l" "dispatch env l = Some (Again k)"
  shows "run_stages env l = run_stages env k" "loop_ok c env k"
proof -
  have "in_range env l" using assms(2) by (intro moving_in_range[of c]) (simp add: loop_ok_def)
  then show "run_stages env l = run_stages env k" using assms(3) by (subst run_stages.simps) simp
  show "loop_ok c env k" using dispatch_ok[OF assms(1,2)] assms(3) by (simp add: wp_Some step_ok_def)
qed

lemma source_kept:
  assumes "env_ok c env" "confined c env mem" "srcStart c \<le> a" "a + int (length bs) \<le> srcEnd env" "stored (mem_before c) a bs"
  shows "stored mem a bs"
proof (rule stored_cong[OF assms(5)])
  fix p assume p: "a \<le> p" "p < a + int (length bs)"
  have "p \<notin> heap c" using env_okD(1)[OF assms(1)] assms(3,4) p by (auto simp: outside_iff)
  moreover have "p < dstStart env \<or> dstEnd env \<le> p" using env_okD(3)[OF assms(1)] assms(3,4) p by (auto simp: apart_def)
  ultimately show "mem p = mem_before c p" using assms(2) by (simp add: confined_def)
qed

lemma account_value:
  assumes "has_contentsum d \<and> \<not> skipChecksum d \<longrightarrow> XXH32_holds 0 (dxxh d) out"
  shows "\<exists>x. account env d bs = Some (d\<lparr>dxxh := x, frameRemainingSize := (if contentSize (dframeInfo d) \<noteq> 0
      then usub (frameRemainingSize d) (int (length bs)) else frameRemainingSize d)\<rparr>)
    \<and> (has_contentsum d \<and> \<not> skipChecksum d \<longrightarrow> XXH32_holds 0 x (out @ bs))"
proof (cases "has_contentsum d \<and> \<not> skipChecksum d")
  case True
  then obtain x where "checksum_update (dmachine env) (dxxh d) bs = Some x" "XXH32_holds 0 x (out @ bs)"
    using checksum_update_ok[of "dxxh d" out "dmachine env" bs] assms by blast
  then show ?thesis using True by (intro exI[of _ x]) (simp add: account_def)
next
  case False
  then have "account env d bs = Some (d\<lparr>dxxh := dxxh d, frameRemainingSize := (if contentSize (dframeInfo d) \<noteq> 0
      then usub (frameRemainingSize d) (int (length bs)) else frameRemainingSize d)\<rparr>)" by (auto simp: account_def)
  then show ?thesis using False by blast
qed

lemma dict_value:
  assumes "ddictSize d = p - b" "ddict d = 0 \<or> ddict d = b" "ddict d = 0 \<longrightarrow> ddictSize d = 0"
  shows "LZ4F_updateDict d mem p n b w = Some (d\<lparr>ddict := b, ddictSize := p - b + n\<rparr>, mem)"
proof (cases "ddictSize d = 0")
  case True
  then show ?thesis using assms by (simp add: LZ4F_updateDict_def)
next
  case False
  then have "ddict d = b" using assms by auto
  then have "d\<lparr>ddict := b, ddictSize := p - b + n\<rparr> = d\<lparr>ddictSize := p - b + n\<rparr>" by (cases d) simp
  then show ?thesis using False assms \<open>ddict d = b\<close> by (simp add: LZ4F_updateDict_def)
qed

text \<open>Reading a block header.\<close>

lemma block_word_read:
  assumes a: "env_ok c env" and l: "loop_ok c env l" "dStage (lctx l) = dstage_getBlockHeader" and s: "srcPtr l + 4 \<le> srcEnd env"
    and r: "stored (mem_before c) (srcPtr l) (LZ4F_writeLE32 w)"
  shows "dispatch env l = decode_block_header env (l\<lparr>srcPtr := srcPtr l + 4\<rparr>) (srcPtr l)" "read32_mem (lmem l) (srcPtr l) = Some w"
proof -
  have "moving c env l" using l by (auto simp: loop_ok_def)
  then show "dispatch env l = decode_block_header env (l\<lparr>srcPtr := srcPtr l + 4\<rparr>) (srcPtr l)"
    using s l(2) by (simp add: dispatch_def stage_getBlockHeader_def)
  have "stored (lmem l) (srcPtr l) (LZ4F_writeLE32 w)"
    using source_kept[OF a _ _ _ r, of "lmem l"] \<open>moving c env l\<close> s by (simp add: moving_def)
  then show "read32_mem (lmem l) (srcPtr l) = Some w" by (simp add: read32_mem_value stored_def le_word_write32 del: le_word.simps)
qed

lemma at_blockD: "at_block c env fi full out l \<Longrightarrow> loop_ok c env l" "at_block c env fi full out l \<Longrightarrow> dStage (lctx l) = dstage_getBlockHeader"
  by (simp_all add: at_block_def)

lemmas block_header_read = block_word_read[OF _ at_blockD]

section \<open>A block\<close>

text \<open>What both kinds of block need of the input and of the room for output.\<close>

definition block_ahead :: "dcall \<Rightarrow> denv \<Rightarrow> dloop \<Rightarrow> bytes \<Rightarrow> bytes \<Rightarrow> bytes \<Rightarrow> int \<Rightarrow> bool" where
  "block_ahead c env l b out x full \<longleftrightarrow> stored (mem_before c) (srcPtr l) b \<and> srcPtr l + int (length b) \<le> srcEnd env
     \<and> dstPtr l + int (length x) \<le> dstEnd env \<and> int (length (out @ x)) \<le> full \<and> full < 2 ^ 63"

lemma decoded_more:
  assumes d: "decoded env fi full out d p mem"
    and k: "dframeInfo d' = dframeInfo d" "dmaxBlockSize d' = dmaxBlockSize d" "skipChecksum d' = skipChecksum d"
    and s: "has_contentsum d \<and> \<not> skipChecksum d \<longrightarrow> XXH32_holds 0 (dxxh d') (out @ ys)"
    and f: "frameRemainingSize d' = (if contentSize (dframeInfo d) \<noteq> 0 then usub (frameRemainingSize d) (int (length ys)) else frameRemainingSize d)"
    and u: "if linked d then ddict d' = dstStart env \<and> ddictSize d' = int (length out) + int (length ys)
      else ddict d' = ddict d \<and> ddictSize d' = ddictSize d"
    and m: "stored mem' (dstStart env) out" "stored mem' p ys"
    and n: "int (length (out @ ys)) \<le> full" "full < 2 ^ 63" and z: "0 < dstStart env"
  shows "decoded env fi full (out @ ys) d' (p + int (length ys)) mem'"
proof -
  have p: "p = dstStart env + int (length out)" using d by (simp add: decoded_def)
  have r: "stored mem' (dstStart env) (out @ ys)" using m p by simp
  have g: "usub (full - int (length out)) (int (length ys)) = full - int (length out) - int (length ys)" using n by (intro usub_diff) simp_all
  show ?thesis using d k s f u r z unfolding decoded_def by (auto simp: g split: if_splits)
qed

lemma raw_header:
  assumes a: "env_ok c env" and l: "at_block c env fi full out l" and h: "block_ahead c env l (raw_block fi x) out x full"
    and n: "int (length x) \<le> block_limit fi" "info_ok fi"
  defines "k \<equiv> l\<lparr>srcPtr := srcPtr l + 4, lctx := (lctx l)\<lparr>dtmpInTarget := int (length x),
      blockChecksum := (if has_blocksum (lctx l) then XXH32_reset 0 else blockChecksum (lctx l)), dStage := dstage_copyDirect\<rparr>\<rparr>"
  shows "dispatch env l = Some (Again k)"
proof -
  let ?w = "of_nat (length x) OR LZ4F_BLOCKUNCOMPRESSED_FLAG :: u32"
  have r: "stored (mem_before c) (srcPtr l) (LZ4F_writeLE32 ?w)" and s: "srcPtr l + 4 \<le> srcEnd env"
    using h by (auto simp: block_ahead_def raw_block_def split: if_splits)
  have "length x < 2 ^ 31" using n(1) block_limit_sizes[OF n(2)] by (auto simp: block_sizes_def)
  note w = header_words[OF this]
  have nz: "?w \<noteq> 0" using w(2) by (metis zero_and_eq)
  have d: "dmaxBlockSize (lctx l) = block_limit fi" using l by (simp add: at_block_def decoded_def)
  show ?thesis unfolding block_header_read(1)[OF a l l s r] using block_header_read(2)[OF a l l s r] w(1,2) nz n(1) d
    by (simp add: decode_block_header_def Let_def k_def)
qed

lemma raw_step:
  assumes a: "addresses_ok c env" and l: "at_block c env fi full out l" and h: "block_ahead c env l (raw_block fi x) out x full"
    and n: "int (length x) \<le> block_limit fi" "info_ok fi"
  shows "\<exists>k. run_stages env l = run_stages env k \<and> at_block c env fi full (out @ x) k \<and> srcPtr k = srcPtr l + int (length (raw_block fi x))"
proof -
  have e: "env_ok c env" and z: "0 < dstStart env" using a by (auto simp: addresses_ok_def)
  let ?d = "lctx l" let ?n = "int (length x)"
  have lo: "loop_ok c env l" and dc: "decoded env fi full out ?d (dstPtr l) (lmem l)" using l by (auto simp: at_block_def)
  have fi: "dframeInfo ?d = fi" using dc by (simp add: decoded_def)
  define d1 where "d1 = ?d\<lparr>dtmpInTarget := ?n, blockChecksum := (if has_blocksum ?d then XXH32_reset 0 else blockChecksum ?d), dStage := dstage_copyDirect\<rparr>"
  define k1 where "k1 = l\<lparr>srcPtr := srcPtr l + 4, lctx := d1\<rparr>"
  have s1: "dispatch env l = Some (Again k1)" using raw_header[OF e l h n] by (simp add: k1_def d1_def)
  note r1 = step_run[OF e lo s1]
  have mv: "moving c env k1" and cf: "confined c env (lmem l)" using r1(2) by (auto simp: loop_ok_def moving_def k1_def)
  have len: "length (raw_block fi x) = 4 + length x + (if blockChecksumFlag fi = LZ4F_blockChecksumEnabled then 4 else 0)"
    by (simp add: raw_block_def)
  have hh: "srcPtr l + 4 + ?n \<le> srcEnd env" "dstPtr l + ?n \<le> dstEnd env" "srcStart c \<le> srcPtr l" "dstStart env \<le> dstPtr l" "?n + int (length out) \<le> full" "full < 2 ^ 63"
    using h mv lo by (auto simp: block_ahead_def len moving_def k1_def loop_ok_def split: if_splits)
  have st: "stored (mem_before c) (srcPtr l + 4) x" "stored (mem_before c) (srcPtr l + 4 + ?n) (block_crc fi x)"
    using h by (simp_all add: block_ahead_def raw_block_def)
  have src: "stored (lmem l) (srcPtr l + 4) x" using source_kept[OF e cf _ _ st(1)] hh by simp
  have dp: "dstPtr l \<noteq> 0" "0 < dstPtr l" using hh(4) z by simp_all
  have ap: "apart (dstPtr l) ?n (srcPtr l + 4) ?n"
    by (rule apart_sym[OF apart_part[OF env_okD(3)[OF e]]]) (use hh in auto)
  define mem where "mem = write_mem (lmem l) (dstPtr l) x"
  have cm: "copy_mem (lmem l) (dstPtr l) (srcPtr l + 4) ?n = Some mem" using ap src by (simp add: copy_mem_def mem_def stored_def)
  obtain b where b: "(if has_blocksum d1 \<and> \<not> skipChecksum d1 then checksum_update (dmachine env) (blockChecksum d1) x else Some (blockChecksum d1)) = Some b"
    "has_blocksum d1 \<and> \<not> skipChecksum d1 \<longrightarrow> XXH32_holds 0 b x"
  proof (cases "has_blocksum d1 \<and> \<not> skipChecksum d1")
    case True
    then have "blockChecksum d1 = XXH32_reset 0" by (simp add: d1_def)
    then show ?thesis using checksum_update_ok[OF reset_holds, of "dmachine env" x] True that by auto
  next
    case False
    then show ?thesis using that[of "blockChecksum d1"] by auto
  qed
  have fe: "dframeInfo (d1\<lparr>blockChecksum := b\<rparr>) = fi" "frameRemainingSize (d1\<lparr>blockChecksum := b\<rparr>) = frameRemainingSize ?d"
    "skipChecksum (d1\<lparr>blockChecksum := b\<rparr>) = skipChecksum ?d" "dxxh (d1\<lparr>blockChecksum := b\<rparr>) = dxxh ?d" by (simp_all add: d1_def fi)
  have "contentChecksumFlag fi = LZ4F_contentChecksumEnabled \<and> \<not> skipChecksum ?d \<longrightarrow> XXH32_holds 0 (dxxh ?d) out" using dc by (simp add: decoded_def)
  from account_value[of "d1\<lparr>blockChecksum := b\<rparr>", unfolded fe, OF this, of env x]
  obtain y where y: "account env (d1\<lparr>blockChecksum := b\<rparr>) x = Some (d1\<lparr>blockChecksum := b, dxxh := y, frameRemainingSize := (if contentSize fi \<noteq> 0
      then usub (frameRemainingSize ?d) ?n else frameRemainingSize ?d)\<rparr>)" "has_contentsum ?d \<and> \<not> skipChecksum ?d \<longrightarrow> XXH32_holds 0 y (out @ x)"
    unfolding fi by blast
  define d3 where "d3 = d1\<lparr>blockChecksum := b, dxxh := y, frameRemainingSize := (if contentSize fi \<noteq> 0 then usub (frameRemainingSize ?d) ?n else frameRemainingSize ?d)\<rparr>"
  define d4 where "d4 = (if linked ?d then d3\<lparr>ddict := dstStart env, ddictSize := int (length out) + ?n\<rparr> else d3)"
  have d3: "dframeInfo d3 = fi" "ddict d3 = ddict ?d" "ddictSize d3 = ddictSize ?d" "skipChecksum d3 = skipChecksum ?d" "blockChecksum d3 = b"
    by (simp_all add: d3_def d1_def fi)
  have u: "(if linked d3 then LZ4F_updateDict d3 mem (dstPtr l) ?n (dstStart env) False else Some (d3, mem)) = Some (d4, mem)"
    using dc dict_value[of d3 "dstPtr l" "dstStart env" mem ?n False] by (auto simp: d3 d4_def decoded_def)
  have cd: "copy_direct env k1 ?n = Some (k1\<lparr>lmem := mem, lctx := d4, srcPtr := srcPtr k1 + ?n, dstPtr := dstPtr k1 + ?n\<rparr>)"
  proof -
    have k1: "srcPtr k1 = srcPtr l + 4" "dstPtr k1 = dstPtr l" "lmem k1 = lmem l" "lctx k1 = d1" by (simp_all add: k1_def)
    show ?thesis unfolding copy_direct_def Let_def k1 cm src[unfolded stored_def] bind.bind_lunit b(1) y(1) d3_def[symmetric] u by simp
  qed
  define e2 where "e2 = (if has_blocksum ?d then d4\<lparr>dtmpInSize := 0, dStage := dstage_getBlockChecksum\<rparr> else d4\<lparr>dStage := dstage_getBlockHeader\<rparr>)"
  define k2 where "k2 = k1\<lparr>lmem := mem, lctx := e2, srcPtr := srcPtr k1 + ?n, dstPtr := dstPtr k1 + ?n\<rparr>"
  have d4: "dframeInfo d4 = fi" "dtmpInTarget d4 = ?n" "skipChecksum d4 = skipChecksum ?d" "blockChecksum d4 = b"
    by (simp_all add: d4_def d3_def d1_def fi)
  have s2: "dispatch env k1 = Some (Again k2)"
  proof -
    have "dStage (lctx k1) = dstage_copyDirect" "dstPtr k1 \<noteq> 0" "dtmpInTarget (lctx k1) = ?n"
      "min ?n (min (srcEnd env - srcPtr k1) (dstEnd env - dstPtr k1)) = ?n" using hh dp by (auto simp: k1_def d1_def)
    then show ?thesis using cd d4 fi by (simp add: dispatch_def stage_copyDirect_def Let_def k2_def e2_def)
  qed
  note r2 = step_run[OF e r1(2) s2]
  have stored_out: "stored mem (dstStart env) out" "stored mem (dstPtr l) x"
  proof -
    show "stored mem (dstPtr l) x" unfolding mem_def stored_def by (rule read_write_all)
    have "stored (lmem l) (dstStart env) out" "dstPtr l = dstStart env + int (length out)" using dc by (auto simp: decoded_def)
    then show "stored mem (dstStart env) out" by (elim stored_cong) (simp add: mem_def write_mem_def)
  qed
  have dec: "decoded env fi full (out @ x) d4 (dstPtr l + ?n) mem"
    by (rule decoded_more[OF dc _ _ _ _ _ _ stored_out]) (use hh z y(2) fi in \<open>simp_all add: d4_def d3_def d1_def\<close>)
  show ?thesis
  proof (cases "has_blocksum ?d")
    case False
    then have "at_block c env fi full (out @ x) k2" using r2(2) dec
      by (simp add: at_block_def k2_def e2_def k1_def)
    then show ?thesis using r1(1) r2(1) False fi len by (intro exI[of _ k2]) (simp add: k2_def k1_def)
  next
    case True
    define k3 where "k3 = k2\<lparr>srcPtr := srcPtr k2 + 4, lctx := e2\<lparr>dStage := dstage_getBlockHeader\<rparr>\<rparr>"
    have crc: "stored (mem_before c) (srcPtr k2) (LZ4F_writeLE32 (xxh32 0 x))" "srcPtr k2 + 4 \<le> srcEnd env"
      using st(2) h True fi by (simp_all add: crc_field_def k2_def k1_def block_ahead_def len)
    have "confined c env (lmem k2)" "srcStart c \<le> srcPtr k2" using r2(2) by (auto simp: loop_ok_def moving_def)
    then have rd: "read_mem (lmem k2) (srcPtr k2) 4 = LZ4F_writeLE32 (xxh32 0 x)"
      using source_kept[OF e _ _ _ crc(1), of "lmem k2"] crc(2) by (simp add: stored_def)
    have "check_block env (k2\<lparr>srcPtr := srcPtr k2 + 4\<rparr>) (LZ4F_writeLE32 (xxh32 0 x)) = Some (Again k3)"
    proof (cases "skipChecksum ?d")
      case True
      then show ?thesis using d4 by (simp add: check_block_def k3_def k2_def e2_def)
    next
      case False
      then have "XXH32_digest (dmachine env) b = Some (xxh32 0 x)" using b(2) True by (intro digest_ok) (simp add: d1_def)
      then show ?thesis using False d4 readLE32_mid[of 0 "[]" "xxh32 0 x" "[]"] by (simp add: check_block_def k3_def k2_def e2_def)
    qed
    then have s3: "dispatch env k2 = Some (Again k3)" using rd crc(2) True by (simp add: dispatch_def stage_getBlockChecksum_def k2_def e2_def)
    note r3 = step_run[OF e r2(2) s3]
    have "at_block c env fi full (out @ x) k3" using r3(2) dec True
      by (simp add: at_block_def k3_def k2_def e2_def k1_def)
    then show ?thesis using r1(1) r2(1) r3(1) True fi len by (intro exI[of _ k3]) (simp add: k3_def k2_def k1_def)
  qed
qed

text \<open>A compressed block: the decoder gives its content, wherever it is to go.\<close>

lemma history_value:
  assumes d: "decoded env fi full out d p mem"
  shows "case clipped_dict d of (a, n) \<Rightarrow> 0 \<le> n \<and> ddict d \<le> a \<and> a + n \<le> ddict d + ddictSize d
    \<and> (\<forall>b y. block_of (if linked d then out else []) b y \<longrightarrow> block_of (read_mem mem a n) b y)"
proof (cases "ddict d \<noteq> 0 \<and> ddictSize d > 2 ^ 30")
  case False
  have "read_mem mem (ddict d) (ddictSize d) = (if linked d then out else [])"
  proof (cases "ddictSize d = 0")
    case True
    then show ?thesis using d by (simp add: decoded_def read_mem_def split: if_splits)
  next
    case False
    then show ?thesis using d by (auto simp: decoded_def stored_def split: if_splits)
  qed
  moreover have "0 \<le> ddictSize d" using d by (simp add: decoded_def)
  moreover have "clipped_dict d = (ddict d, ddictSize d)" using False by (auto simp: clipped_dict_def)
  ultimately show ?thesis by simp
next
  case True
  then have l: "linked d" "ddict d = dstStart env" "ddictSize d = int (length out)" "stored mem (dstStart env) out"
    using d by (auto simp: decoded_def split: if_splits)
  let ?k = "ddictSize d - KB 64"
  have o: "out = read_mem mem (dstStart env) ?k @ read_mem mem (dstStart env + ?k) (KB 64)"
    using read_mem_split[of ?k "KB 64" mem "dstStart env"] True l(3,4) by (simp add: stored_def)
  have "block_of (read_mem mem (dstStart env + ?k) (KB 64)) b y" if "block_of out b y" for b y
    by (rule block_of_shorter[of "read_mem mem (dstStart env) ?k"]) (use that o in simp_all)
  moreover have "clipped_dict d = (ddict d + ddictSize d - KB 64, KB 64)" using True by (simp add: clipped_dict_def)
  ultimately show ?thesis using True l(1,2) by (simp add: add_diff_eq)
qed

lemma call_value:
  assumes dc: "decoded env fi full out (lctx l) p (lmem l)" and c: "stored (lmem l) sel c" "0 < sel" "sel + int (length c) < 2 ^ 63"
    and t: "dtmpInTarget (lctx l) = int (length c)" and n: "0 \<le> block_limit fi" "int (length x) \<le> block_limit fi"
    and b: "block_of (if blockMode fi = LZ4F_blockLinked then out else []) c x"
    and a: "apart sel (int (length c)) q (block_limit fi)" "apart (ddict (lctx l)) (ddictSize (lctx l)) q (block_limit fi)"
    and q: "0 \<le> q" "q + block_limit fi < 2 ^ 64" "0 \<le> dstStart env"
  shows "\<exists>mem. call_block env l sel q = Some (int (length x), mem) \<and> stored mem q x \<and> (\<forall>p. p < q \<or> q + block_limit fi \<le> p \<longrightarrow> mem p = lmem l p)"
proof -
  obtain h k where hk: "clipped_dict (lctx l) = (h, k)" by (cases "clipped_dict (lctx l)")
  have fi: "dframeInfo (lctx l) = fi" "dmaxBlockSize (lctx l) = block_limit fi" "0 \<le> ddict (lctx l)" using dc q(3) by (auto simp: decoded_def)
  note hv = history_value[OF dc, unfolded hk prod.case]
  have bo: "block_of (read_mem (lmem l) h k) (read_mem (lmem l) sel (int (length c))) x" using hv b c(1) fi by (simp add: stored_def)
  have ap: "apart h k q (block_limit fi)" using hv by (intro apart_part[OF a(2)]) auto
  have h0: "0 \<le> h" using hv fi(3) by linarith
  from usingDict_complete[OF _ _ a(1) ap c(2) _ q(1) h0 q(2) bo n(2), of "dfast env"] hv c(3)
  obtain mem where m: "LZ4_decompress_safe_usingDict (dfast env) (lmem l) sel q (int (length c)) (block_limit fi) h k = Some (int (length x), mem)"
    "read_mem mem q (int (length x)) = x" by auto
  moreover have "\<forall>p. p < q \<or> q + block_limit fi \<le> p \<longrightarrow> mem p = lmem l p"
    using usingDict_sound[OF _ _ a(1) ap, of "dfast env" "lmem l"] hv m(1) by auto
  ultimately show ?thesis by (simp add: call_block_def hk t fi stored_def)
qed

text \<open>The two ways a decoded block takes into the output buffer.\<close>

definition block_done :: "denv \<Rightarrow> LZ4F_frameInfo_t \<Rightarrow> int \<Rightarrow> bytes \<Rightarrow> dloop \<Rightarrow> bytes \<Rightarrow> step option \<Rightarrow> bool" where
  "block_done env fi full out l x s \<longleftrightarrow> (\<exists>k. s = Some (Again k) \<and> dStage (lctx k) = dstage_getBlockHeader \<and> srcPtr k = srcPtr l
     \<and> decoded env fi full (out @ x) (lctx k) (dstPtr k) (lmem k))"

definition block_ready :: "dcall \<Rightarrow> denv \<Rightarrow> LZ4F_frameInfo_t \<Rightarrow> int \<Rightarrow> bytes \<Rightarrow> dloop \<Rightarrow> int \<Rightarrow> bytes \<Rightarrow> bytes \<Rightarrow> bool" where
  "block_ready c env fi full out l sel b x \<longleftrightarrow> addresses_ok c env \<and> decoded env fi full out (lctx l) (dstPtr l) (lmem l)
     \<and> ready (heap c) (lctx l) (dstPtr l) (dstEnd env) \<and> confined c env (lmem l)
     \<and> stored (lmem l) sel b \<and> srcStart c \<le> sel \<and> sel + int (length b) \<le> srcEnd env \<and> dtmpInTarget (lctx l) = int (length b)
     \<and> 0 \<le> block_limit fi \<and> int (length x) \<le> block_limit fi \<and> block_of (if blockMode fi = LZ4F_blockLinked then out else []) b x
     \<and> dstPtr l + int (length x) \<le> dstEnd env \<and> int (length (out @ x)) \<le> full \<and> full < 2 ^ 63"

lemma dst_block:
  assumes r: "block_ready c env fi full out l sel b x" and room: "dstPtr l + block_limit fi \<le> dstEnd env"
  shows "block_done env fi full out l x (decode_to_dst env l sel)"
proof -
  let ?d = "lctx l" let ?n = "int (length x)"
  have dc: "decoded env fi full out ?d (dstPtr l) (lmem l)" and e: "env_ok c env" and z: "0 < dstStart env" "dstEnd env < 2 ^ 63"
    and s: "0 < sel" "sel + int (length b) < 2 ^ 63"
    and f: "dtmpInTarget ?d = int (length b)" "0 \<le> block_limit fi" "?n \<le> block_limit fi" "int (length (out @ x)) \<le> full" "full < 2 ^ 63"
    using r by (auto simp: block_ready_def addresses_ok_def)
  have fi: "dframeInfo ?d = fi" and p: "dstPtr l = dstStart env + int (length out)" using dc by (auto simp: decoded_def)
  have sb: "srcStart c \<le> sel" "sel + int (length b) \<le> srcEnd env" "stored (lmem l) sel b" "block_of (if blockMode fi = LZ4F_blockLinked then out else []) b x"
    using r by (auto simp: block_ready_def)
  have a1: "apart sel (int (length b)) (dstPtr l) (block_limit fi)" by (rule apart_part[OF env_okD(3)[OF e]]) (use sb p room in auto)
  have a2: "apart (ddict ?d) (ddictSize ?d) (dstPtr l) (block_limit fi)" using dc by (auto simp: decoded_def apart_def split: if_splits)
  from call_value[OF dc sb(3) s f(1,2,3) sb(4) a1 a2] p z room
  obtain mem where m: "call_block env l sel (dstPtr l) = Some (?n, mem)" "stored mem (dstPtr l) x"
    "\<forall>q. q < dstPtr l \<or> dstPtr l + block_limit fi \<le> q \<longrightarrow> mem q = lmem l q" by auto
  have so: "stored mem (dstStart env) out" by (rule stored_cong[of "lmem l"]) (use dc m(3) p in \<open>auto simp: decoded_def\<close>)
  have "has_contentsum ?d \<and> \<not> skipChecksum ?d \<longrightarrow> XXH32_holds 0 (dxxh ?d) out" using dc by (simp add: decoded_def)
  from account_value[OF this, of env x] obtain y where y: "account env ?d x = Some (?d\<lparr>dxxh := y, frameRemainingSize := (if contentSize (dframeInfo ?d) \<noteq> 0
      then usub (frameRemainingSize ?d) ?n else frameRemainingSize ?d)\<rparr>)" "has_contentsum ?d \<and> \<not> skipChecksum ?d \<longrightarrow> XXH32_holds 0 y (out @ x)" by blast
  define d3 where "d3 = ?d\<lparr>dxxh := y, frameRemainingSize := (if contentSize (dframeInfo ?d) \<noteq> 0 then usub (frameRemainingSize ?d) ?n else frameRemainingSize ?d)\<rparr>"
  define d4 where "d4 = (if linked ?d then d3\<lparr>ddict := dstStart env, ddictSize := int (length out) + ?n\<rparr> else d3)"
  have u: "(if linked d3 then LZ4F_updateDict d3 mem (dstPtr l) ?n (dstStart env) False else Some (d3, mem)) = Some (d4, mem)"
    using dc dict_value[of d3 "dstPtr l" "dstStart env" mem ?n False] by (auto simp: d3_def d4_def decoded_def)
  have dec: "decoded env fi full (out @ x) d4 (dstPtr l + ?n) mem"
    by (rule decoded_more[OF dc _ _ _ _ _ _ so m(2) f(4,5) z(1)]) (use y(2) in \<open>simp_all add: d4_def d3_def\<close>)
  have "decode_to_dst env l sel = Some (Again (l\<lparr>lmem := mem, lctx := d4\<lparr>dStage := dstage_getBlockHeader\<rparr>, dstPtr := dstPtr l + ?n\<rparr>))"
    unfolding decode_to_dst_def m(1) using m(2) y(1) u unfolding stored_def d3_def[symmetric] by simp
  then show ?thesis using dec by (simp add: block_done_def)
qed

lemma tmp_block:
  assumes r: "block_ready c env fi full out l sel b x"
  shows "block_done env fi full out l x (decode_to_tmp env l sel)"
proof -
  let ?d = "lctx l" let ?n = "int (length x)"
  have dc: "decoded env fi full out ?d (dstPtr l) (lmem l)" and e: "env_ok c env" and z: "0 < dstStart env" "dstEnd env < 2 ^ 63"
    and s: "0 < sel" "sel + int (length b) < 2 ^ 63" and rd: "ready (heap c) ?d (dstPtr l) (dstEnd env)" and cf: "confined c env (lmem l)"
    and f: "dtmpInTarget ?d = int (length b)" "0 \<le> block_limit fi" "?n \<le> block_limit fi" "int (length (out @ x)) \<le> full" "full < 2 ^ 63"
    and hp: "\<forall>p \<in> heap c. p < 2 ^ 63"
    using r by (auto simp: block_ready_def addresses_ok_def)
  have fi: "dframeInfo ?d = fi" "dmaxBlockSize ?d = block_limit fi" and p: "dstPtr l = dstStart env + int (length out)" using dc by (auto simp: decoded_def)
  have sb: "srcStart c \<le> sel" "sel + int (length b) \<le> srcEnd env" "stored (lmem l) sel b" "block_of (if blockMode fi = LZ4F_blockLinked then out else []) b x"
    "dstPtr l + ?n \<le> dstEnd env" using r by (auto simp: block_ready_def)
  define t where "t = (if linked ?d then tmpOutBuffer ?d + min (ddictSize ?d) (KB 64) else tmpOut ?d)"
  let ?e = "?d\<lparr>tmpOut := t\<rparr>"
  have tb: "tmpOutBuffer ?d \<in> heap c" by (rule tob_in_heap[OF rd])
  then have "tmpOutBuffer ?d \<noteq> 0" "dstStart env \<notin> heap c" using tmp_room(2)[OF rd] dst_not_heap[OF e, of "dstStart env"] p sb(5) by (auto simp: owns_def)
  then have nd: "ddict ?d \<noteq> tmpOutBuffer ?d" using dc tb by (auto simp: decoded_def)
  have pl: "place_tmpOut ?d (lmem l) = Some (?e, lmem l)" using nd by (cases "linked ?d") (auto simp: place_tmpOut_def t_def)
  have pr: "ready (heap c) ?e (dstPtr l) (dstEnd env)" "placed ?e" using place_tmpOut_ok[OF rd cf] by (simp_all add: pl wp_Some)
  note room = placed_room[OF pr]
  let ?l = "l\<lparr>lctx := ?e, lmem := lmem l\<rparr>"
  have de: "decoded env fi full out (lctx ?l) (dstPtr l) (lmem ?l)" using dc by simp
  have ow: "owns (heap c) t (block_limit fi)" using room(1) fi by simp
  have src: "outside (heap c) sel (int (length b))" using outside_part[OF env_okD(1)[OF e], of sel "int (length b)"] sb by simp
  have a1: "apart sel (int (length b)) t (block_limit fi)" by (rule outside_owns[OF src ow])
  have a2: "apart (ddict (lctx ?l)) (ddictSize (lctx ?l)) t (block_limit fi)" using room(3) fi by simp
  have "0 < block_limit fi" using tmp_room(4)[OF rd] fi by simp
  then have "t + (block_limit fi - 1) \<in> heap c" "0 < t" using ow by (auto simp: owns_iff)
  then have q: "0 \<le> t" "t + block_limit fi < 2 ^ 64" using hp by force+
  have "stored (lmem ?l) sel b" "dtmpInTarget (lctx ?l) = int (length b)" using sb(3) f(1) by simp_all
  from call_value[OF de this(1) s this(2) f(2,3) sb(4) a1 a2 q] z
  obtain mem where m: "call_block env ?l sel t = Some (?n, mem)" "stored mem t x"
    "\<forall>q. q < t \<or> t + block_limit fi \<le> q \<longrightarrow> mem q = lmem l q" by auto
  have out: "outside (heap c) (dstStart env) (dstEnd env - dstStart env)" by (rule env_okD(2)[OF e])
  have so: "stored mem (dstStart env) out"
  proof (rule stored_cong[of "lmem l"])
    show "stored (lmem l) (dstStart env) out" using dc by (simp add: decoded_def)
    fix a assume "dstStart env \<le> a" "a < dstStart env + int (length out)"
    then have "a \<notin> heap c" using out p sb(5) by (auto simp: outside_iff)
    then have "a < t \<or> t + block_limit fi \<le> a" using ow by (metis linorder_not_less owns_iff)
    then show "mem a = lmem l a" using m(3) by blast
  qed
  have "has_contentsum ?e \<and> \<not> skipChecksum ?e \<longrightarrow> XXH32_holds 0 (dxxh ?e) out" using dc by (simp add: decoded_def)
  from account_value[OF this, of env x] obtain y where y: "account env ?e x = Some (?e\<lparr>dxxh := y, frameRemainingSize := (if contentSize (dframeInfo ?e) \<noteq> 0
      then usub (frameRemainingSize ?e) ?n else frameRemainingSize ?e)\<rparr>)" "has_contentsum ?e \<and> \<not> skipChecksum ?e \<longrightarrow> XXH32_holds 0 y (out @ x)" by blast
  define d3 where "d3 = ?e\<lparr>dxxh := y, frameRemainingSize := (if contentSize (dframeInfo ?e) \<noteq> 0 then usub (frameRemainingSize ?e) ?n else frameRemainingSize ?e)\<rparr>"
  define d4 where "d4 = d3\<lparr>tmpOutSize := ?n, tmpOutStart := 0, dStage := dstage_flushOut\<rparr>"
  define mem' where "mem' = write_mem mem (dstPtr l) x"
  define d5 where "d5 = (if linked ?d then d4\<lparr>ddict := dstStart env, ddictSize := int (length out) + ?n\<rparr> else d4)"
  have ap: "apart (dstPtr l) ?n t ?n" using p sb(5) f(3)
    by (intro outside_owns[OF outside_part[OF out] owns_part[OF ow]]) auto
  have cm: "copy_mem mem (dstPtr l) (tmpOut d4 + tmpOutStart d4) ?n = Some mem'"
    using ap m(2) by (simp add: copy_mem_def mem'_def stored_def d4_def d3_def)
  have u: "(if linked d4 then LZ4F_updateDict d4 mem' (dstPtr l) ?n (dstStart env) True else Some (d4, mem')) = Some (d5, mem')"
    using dc dict_value[of d4 "dstPtr l" "dstStart env" mem' ?n True] by (auto simp: d3_def d4_def d5_def decoded_def)
  have so': "stored mem' (dstStart env) out" "stored mem' (dstPtr l) x"
    using read_write_all[of mem "dstPtr l" x] so by (auto simp: mem'_def stored_def p elim!: stored_cong[unfolded stored_def] simp: write_mem_def)
  have fl: "stage_flushOut env (?l\<lparr>lmem := mem, lctx := d4\<rparr>)
      = Some (Again (?l\<lparr>lmem := mem', lctx := d5\<lparr>tmpOutStart := ?n, dStage := dstage_getBlockHeader\<rparr>, dstPtr := dstPtr l + ?n\<rparr>))"
  proof -
    have "dstPtr l \<noteq> 0" "min ?n (dstEnd env - dstPtr l) = ?n" "tmpOutStart d4 = 0" "tmpOutSize d4 = ?n" "tmpOutStart d5 = 0" "tmpOutSize d5 = ?n"
      using p z sb(5) by (simp_all add: d4_def d5_def)
    then show ?thesis using cm u by (cases "linked d4") (simp_all add: stage_flushOut_def Let_def)
  qed
  have dec: "decoded env fi full (out @ x) d5 (dstPtr l + ?n) mem'"
    by (rule decoded_more[OF dc _ _ _ _ _ _ so' f(4,5) z(1)]) (use y(2) in \<open>simp_all add: d5_def d4_def d3_def\<close>)
  have "decode_to_tmp env l sel = stage_flushOut env (?l\<lparr>lmem := mem, lctx := d4\<rparr>)"
  proof -
    have e1: "tmpOut ?e = t" by simp
    have "\<not> ?n < 0" by simp
    then show ?thesis unfolding decode_to_tmp_def pl bind.bind_lunit prod.case Let_def e1 m(1) if_not_P[OF \<open>\<not> ?n < 0\<close>]
      using m(2) y(1) unfolding stored_def d4_def d3_def by simp
  qed
  then show ?thesis unfolding fl using dec by (simp add: block_done_def)
qed

lemma packed_header:
  assumes a: "env_ok c env" and l: "at_block c env fi full out l" and h: "block_ahead c env l (packed_block fi b) out x full"
    and n: "b \<noteq> []" "int (length b) \<le> block_limit fi" "x \<noteq> []" "info_ok fi"
  defines "k \<equiv> l\<lparr>srcPtr := srcPtr l + 4, lctx := (lctx l)\<lparr>dtmpInTarget := int (length b) + (if has_blocksum (lctx l) then BFSize else 0),
      dStage := dstage_getCBlock\<rparr>\<rparr>"
  shows "dispatch env l = Some (Again k)"
proof -
  let ?w = "of_nat (length b) :: u32"
  have r: "stored (mem_before c) (srcPtr l) (LZ4F_writeLE32 ?w)" and s: "srcPtr l + 4 \<le> srcEnd env" and s2: "srcPtr l + 4 < srcEnd env"
    and d: "dstPtr l \<noteq> dstEnd env"
    using h n(1,3) length_greater_0_conv[of b] length_greater_0_conv[of x] by (auto simp: block_ahead_def packed_block_def simp del: length_greater_0_conv split: if_splits)
  have "length b < 2 ^ 31" using n(2) block_limit_sizes[OF n(4)] by (auto simp: block_sizes_def)
  note w = header_words[OF this]
  have nz: "?w \<noteq> 0" using w(3) n(1) by (metis zero_and_eq length_0_conv of_nat_eq_0_iff unsigned_0)
  have "dmaxBlockSize (lctx l) = block_limit fi" using l by (simp add: at_block_def decoded_def)
  then show ?thesis unfolding block_header_read(1)[OF a l l s r] using block_header_read(2)[OF a l l s r] w(3,4) nz n(2) s2 d
    by (simp add: decode_block_header_def Let_def k_def)
qed

lemma packed_step:
  assumes a: "addresses_ok c env" and l: "at_block c env fi full out l" and h: "block_ahead c env l (packed_block fi b) out x full"
    and n: "b \<noteq> []" "int (length b) \<le> block_limit fi" "x \<noteq> []" "int (length x) \<le> block_limit fi" "info_ok fi"
    and bo: "block_of (if blockMode fi = LZ4F_blockLinked then out else []) b x"
  shows "\<exists>k. run_stages env l = run_stages env k \<and> at_block c env fi full (out @ x) k \<and> srcPtr k = srcPtr l + int (length (packed_block fi b))"
proof -
  have e: "env_ok c env" using a by (auto simp: addresses_ok_def)
  let ?d = "lctx l" let ?n = "int (length b)" let ?crc = "if has_blocksum ?d then 4 else 0 :: int"
  have lo: "loop_ok c env l" and dc: "decoded env fi full out ?d (dstPtr l) (lmem l)" using l by (auto simp: at_block_def)
  have fi: "dframeInfo ?d = fi" "dmaxBlockSize ?d = block_limit fi" using dc by (auto simp: decoded_def)
  define k1 where "k1 = l\<lparr>srcPtr := srcPtr l + 4, lctx := ?d\<lparr>dtmpInTarget := ?n + ?crc, dStage := dstage_getCBlock\<rparr>\<rparr>"
  have s1: "dispatch env l = Some (Again k1)" using packed_header[OF e l h n(1,2,3,5)] by (simp add: k1_def)
  note r1 = step_run[OF e lo s1]
  have mv: "confined c env (lmem l)" "srcStart c \<le> srcPtr l" using lo by (auto simp: loop_ok_def moving_def)
  have rd: "ready (heap c) ?d (dstPtr l) (dstEnd env)" using lo l by (simp add: loop_ok_def stage_ok_def at_block_def)
  have len: "int (length (packed_block fi b)) = 4 + ?n + ?crc" by (simp add: packed_block_def fi)
  have hh: "srcPtr l + 4 + ?n + ?crc \<le> srcEnd env" "dstPtr l + int (length x) \<le> dstEnd env" "int (length (out @ x)) \<le> full" "full < 2 ^ 63"
    using h len by (auto simp: block_ahead_def)
  have st: "stored (mem_before c) (srcPtr l + 4) b" "stored (mem_before c) (srcPtr l + 4 + ?n) (block_crc fi b)"
    using h by (simp_all add: block_ahead_def packed_block_def)
  have src: "stored (lmem l) (srcPtr l + 4) b" "stored (lmem l) (srcPtr l + 4 + ?n) (block_crc fi b)"
    using source_kept[OF e mv(1) _ _ st(1)] source_kept[OF e mv(1) _ _ st(2)] hh(1) mv(2) fi by (auto split: if_splits)
  define k2 where "k2 = l\<lparr>srcPtr := srcPtr l + 4 + ?n + ?crc, lctx := ?d\<lparr>dtmpInTarget := ?n, dStage := dstage_getCBlock\<rparr>\<rparr>"
  have br: "block_ready c env fi full out k2 (srcPtr l + 4) b x"
    using a dc rd mv src(1) hh n(4) bo block_limit_sizes[OF n(5)] by (auto simp: block_ready_def k2_def block_sizes_def split: if_splits)
  have db: "dispatch env k1 = decode_to_dst env k2 (srcPtr l + 4) \<and> dstPtr k2 + block_limit fi \<le> dstEnd env
      \<or> dispatch env k1 = decode_to_tmp env k2 (srcPtr l + 4)"
  proof -
    have d1: "dispatch env k1 = decode_block env (k1\<lparr>srcPtr := srcPtr l + 4 + ?n + ?crc\<rparr>) (srcPtr l + 4)"
      using hh(1) by (simp add: dispatch_def stage_getCBlock_def k1_def add.assoc)
    have k: "k1\<lparr>srcPtr := srcPtr l + 4 + ?n + ?crc\<rparr> = l\<lparr>srcPtr := srcPtr l + 4 + ?n + ?crc, lctx := ?d\<lparr>dtmpInTarget := ?n + ?crc, dStage := dstage_getCBlock\<rparr>\<rparr>"
      by (simp add: k1_def)
    show ?thesis
    proof (cases "has_blocksum ?d")
      case False
      then show ?thesis unfolding d1 k using fi by (auto simp: decode_block_def k2_def Let_def)
    next
      case True
      have rc: "read32_mem (lmem l) (srcPtr l + 4 + ?n) = Some (xxh32 0 b)"
        using src(2) True fi by (simp add: crc_field_def stored_def read32_mem_value le_word_write32 del: le_word.simps)
      have rb: "read_mem (lmem l) (srcPtr l + 4) ?n = b" using src(1) by (simp add: stored_def)
      have sw: "?d\<lparr>dStage := dstage_getCBlock, dtmpInTarget := ?n\<rparr> = ?d\<lparr>dtmpInTarget := ?n, dStage := dstage_getCBlock\<rparr>" by simp
      show ?thesis unfolding d1 k using True fi rc by (simp add: decode_block_def k2_def Let_def rb XXH32_value sw)
    qed
  qed
  have "block_done env fi full out k2 x (dispatch env k1)"
    using db dst_block[OF br] tmp_block[OF br] by auto
  then obtain k where k: "dispatch env k1 = Some (Again k)" "dStage (lctx k) = dstage_getBlockHeader" "srcPtr k = srcPtr k2"
    "decoded env fi full (out @ x) (lctx k) (dstPtr k) (lmem k)" by (auto simp: block_done_def)
  note r2 = step_run[OF e r1(2) k(1)]
  have "at_block c env fi full (out @ x) k" using r2(2) k by (simp add: at_block_def)
  then show ?thesis using r1(1) r2(1) k(3) len by (intro exI[of _ k]) (simp add: k2_def)
qed

section \<open>All blocks, and the end of the frame\<close>

lemma blocks_run:
  assumes "blocks_enc fi out bs y" and a: "addresses_ok c env" and i: "info_ok fi"
  shows "at_block c env fi full out l \<Longrightarrow> block_ahead c env l bs out y full
    \<Longrightarrow> \<exists>k. run_stages env l = run_stages env k \<and> at_block c env fi full (out @ y) k \<and> srcPtr k = srcPtr l + int (length bs)"
  using assms(1)
proof (induction arbitrary: l rule: blocks_enc.induct)
  case (none h)
  then show ?case by auto
next
  case (raw x h rest y)
  have "block_ahead c env l (raw_block fi x) h x full" using raw.prems(2) by (auto simp: block_ahead_def)
  from raw_step[OF a raw.prems(1) this raw.hyps(1) i] obtain k where k: "run_stages env l = run_stages env k" "at_block c env fi full (h @ x) k"
    "srcPtr k = srcPtr l + int (length (raw_block fi x))" by blast
  have "dstPtr k = dstPtr l + int (length x)" using k(2) raw.prems(1) by (simp add: at_block_def decoded_def)
  then have "block_ahead c env k rest (h @ x) y full" using raw.prems(2) k(3) by (auto simp: block_ahead_def)
  from raw.IH[OF k(2) this] show ?case using k by auto
next
  case (packed b x h rest y)
  have "block_ahead c env l (packed_block fi b) h x full" using packed.prems(2) by (auto simp: block_ahead_def)
  from packed_step[OF a packed.prems(1) this packed.hyps(1-4) i packed.hyps(5)] obtain k where k: "run_stages env l = run_stages env k" "at_block c env fi full (h @ x) k"
    "srcPtr k = srcPtr l + int (length (packed_block fi b))" by blast
  have "dstPtr k = dstPtr l + int (length x)" using k(2) packed.prems(1) by (simp add: at_block_def decoded_def)
  then have "block_ahead c env k rest (h @ x) y full" using packed.prems(2) k(3) by (auto simp: block_ahead_def)
  from packed.IH[OF k(2) this] show ?case using k by auto
qed

definition between_frames :: "LZ4F_dctx \<Rightarrow> bool" where
  "between_frames d \<longleftrightarrow> dStage d = dstage_getFrameHeader \<and> ddict d = 0 \<and> ddictSize d = 0 \<and> frameRemainingSize d = 0"

lemma end_run:
  assumes a: "addresses_ok c env" and l: "at_block c env fi full out l" and full: "full = int (length out)"
    and s: "stored (mem_before c) (srcPtr l) (LZ4F_writeLE32 0 @ content_crc fi out)" "srcPtr l + int (length (LZ4F_writeLE32 0 @ content_crc fi out)) \<le> srcEnd env"
  shows "\<exists>k. run_stages env l = Some (Inr k) \<and> between_frames (lctx k) \<and> nextSrcSizeHint k = 0
    \<and> srcPtr k = srcPtr l + int (length (LZ4F_writeLE32 0 @ content_crc fi out)) \<and> dstPtr k = dstPtr l \<and> stored (lmem k) (dstStart env) out"
proof -
  have e: "env_ok c env" using a by (simp add: addresses_ok_def)
  let ?d = "lctx l"
  have lo: "loop_ok c env l" and dc: "decoded env fi full out ?d (dstPtr l) (lmem l)" using l by (auto simp: at_block_def)
  have s4: "srcPtr l + 4 \<le> srcEnd env" "stored (mem_before c) (srcPtr l) (LZ4F_writeLE32 0)" using s by (auto split: if_splits)
  define k1 where "k1 = l\<lparr>srcPtr := srcPtr l + 4, lctx := ?d\<lparr>dStage := dstage_getSuffix\<rparr>\<rparr>"
  have "dispatch env l = Some (Again k1)" unfolding block_header_read(1)[OF e l l s4] using block_header_read(2)[OF e l l s4]
    by (simp add: decode_block_header_def k1_def Let_def)
  note r1 = step_run[OF e lo this]
  have k1: "frameRemainingSize (lctx k1) = 0" "dframeInfo (lctx k1) = fi" "skipChecksum (lctx k1) = skipChecksum ?d" "lmem k1 = lmem l"
    "dxxh (lctx k1) = dxxh ?d" "srcPtr k1 = srcPtr l + 4"
    using dc full by (auto simp: k1_def decoded_def)
  define k where "k = k1\<lparr>srcPtr := srcPtr l + int (length (LZ4F_writeLE32 0 @ content_crc fi out)), lctx := LZ4F_resetDecompressionContext (lctx k1), nextSrcSizeHint := 0\<rparr>"
  have "dispatch env k1 = Some (Stop k)"
  proof (cases "contentChecksumFlag fi = LZ4F_contentChecksumEnabled")
    case False
    then show ?thesis using k1(1,2) by (simp add: dispatch_def stage_getSuffix_def k_def k1_def)
  next
    case True
    then have c: "stored (mem_before c) (srcPtr k1) (LZ4F_writeLE32 (xxh32 0 out))" "srcPtr k1 + 4 \<le> srcEnd env"
      using s by (simp_all add: crc_field_def k1_def)
    have "confined c env (lmem k1)" "srcStart c \<le> srcPtr k1" using r1(2) by (auto simp: loop_ok_def moving_def)
    then have rd: "read32_mem (lmem k1) (srcPtr k1) = Some (xxh32 0 out)"
      using source_kept[OF e _ _ _ c(1), of "lmem k1"] c(2) by (simp add: stored_def read32_mem_value le_word_write32 del: le_word.simps)
    have "skipChecksum ?d \<or> XXH32_digest (dmachine env) (dxxh ?d) = Some (xxh32 0 out)"
      using dc True digest_ok by (auto simp: decoded_def)
    then have "check_suffix env (k1\<lparr>srcPtr := srcPtr k1 + 4\<rparr>) (srcPtr k1) = Some (Stop k)"
      using rd k1 True by (auto simp: check_suffix_def Let_def k_def)
    moreover have "dStage (lctx k1) = dstage_getSuffix" by (simp add: k1_def)
    ultimately show ?thesis using c(2) k1(1,2) True by (simp add: dispatch_def stage_getSuffix_def)
  qed
  moreover have "in_range env k1" using r1(2) by (intro moving_in_range[of c]) (simp add: loop_ok_def)
  ultimately have "run_stages env k1 = Some (Inr k)" by (subst run_stages.simps) simp
  moreover have "between_frames (lctx k)" using k1(1) by (simp add: between_frames_def k_def LZ4F_resetDecompressionContext_def)
  moreover have "stored (lmem k) (dstStart env) out" using dc k1(4) by (simp add: k_def decoded_def)
  ultimately show ?thesis using r1(1) by (intro exI[of _ k]) (simp add: k_def k1_def)
qed

section \<open>The header\<close>

lemma decodeHeader_short:
  assumes ok: "info_ok fi" and l: "7 < header_len fi"
  shows "LZ4F_decodeHeader machine d (take 7 (header_of fi)) True = Some (Inr 7, d\<lparr>dframeInfo := LZ4F_INIT_FRAMEINFO,
    dtmpInSize := 7, dtmpInTarget := header_len fi, dStage := dstage_storeFrameHeader\<rparr>)"
proof -
  note rd = header_reads[OF ok, of "[]", simplified]
  have nn: "0 \<le> contentSize fi" "0 \<le> dictID fi" using ok by (auto simp: info_ok_def)
  note fl = FLG_bits[OF nn]
  let ?s = "take 7 (header_of fi)"
  have len: "int (length ?s) = 7" using length_header(2)[of fi] l by simp
  have m: "LZ4F_readLE32 ?s 0 = Some LZ4F_MAGICNUMBER" using rd(1) readLE32_take[of 7 "header_of fi"] by simp
  have f: "ld ?s 4 = Some (FLG_byte fi)" using rd(2) len by (simp add: ld_def in_buf_def at_def split: if_splits)
  have mg: "LZ4F_MAGICNUMBER AND 0xFFFFFFF0 \<noteq> LZ4F_MAGIC_SKIPPABLE_START" by simp
  have h: "minFHSize + (if drop_bit 3 (FLG_byte fi) AND 1 \<noteq> 0 then 8 else 0) + (if FLG_byte fi AND 1 \<noteq> 0 then 4 else 0) = header_len fi"
    using fl(5,7) by (simp add: header_len_def)
  show ?thesis
    unfolding LZ4F_decodeHeader_def Let_def len m bind.bind_lunit if_not_P[OF mg] f h if_P[OF l]
    by (simp add: fl(1,2) del: One_nat_def)
qed

lemma upd_twice: "int (length a) = p \<Longrightarrow> length a + length b \<le> length h \<Longrightarrow> seg (upd (upd h 0 a) p b) 0 (p + int (length b)) = a @ b"
  by (auto simp: upd_def seg_def nat_add_distrib)

text \<open>The header is read at once, or first the seven bytes that say how long it is.\<close>

definition header_read :: "LZ4F_frameInfo_t \<Rightarrow> dloop \<Rightarrow> dloop \<Rightarrow> bool" where
  "header_read fi l k \<longleftrightarrow> dStage (lctx k) = dstage_init \<and> dframeInfo (lctx k) = fi \<and> dmaxBlockSize (lctx k) = block_limit fi
     \<and> ddict (lctx k) = ddict (lctx l) \<and> ddictSize (lctx k) = ddictSize (lctx l) \<and> skipChecksum (lctx k) = skipChecksum (lctx l)
     \<and> frameRemainingSize (lctx k) = (if contentSize fi \<noteq> 0 then contentSize fi else frameRemainingSize (lctx l))
     \<and> srcPtr k = srcPtr l + header_len fi \<and> dstPtr k = dstPtr l \<and> lmem k = lmem l"

definition header_next :: "LZ4F_frameInfo_t \<Rightarrow> dloop \<Rightarrow> LZ4F_dctx \<Rightarrow> int \<Rightarrow> dloop" where
  "header_next fi l d p = l\<lparr>lctx := d\<lparr>dStage := dstage_init, dmaxBlockSize := block_limit fi,
     frameRemainingSize := (if contentSize fi \<noteq> 0 then contentSize fi else frameRemainingSize d), dframeInfo := fi\<rparr>, srcPtr := p\<rparr>"

lemma header_next_read:
  assumes "ddict d = ddict (lctx l)" "ddictSize d = ddictSize (lctx l)" "skipChecksum d = skipChecksum (lctx l)"
    "frameRemainingSize d = frameRemainingSize (lctx l)"
  shows "header_read fi l (header_next fi l d (srcPtr l + header_len fi))"
  using assms by (simp add: header_read_def header_next_def)

lemma fill_value:
  assumes "read_mem (lmem l) (srcPtr l) (min w (srcEnd env - srcPtr l)) = bs" "int (length bs) = min w (srcEnd env - srcPtr l)"
    "0 \<le> dtmpInSize (lctx l)" "dtmpInSize (lctx l) + int (length bs) \<le> int (length (dheader (lctx l)))"
  shows "fill_header env l w = Some (l\<lparr>lctx := (lctx l)\<lparr>dheader := upd (dheader (lctx l)) (dtmpInSize (lctx l)) bs,
    dtmpInSize := dtmpInSize (lctx l) + int (length bs)\<rparr>, srcPtr := srcPtr l + int (length bs)\<rparr>)"
  using assms by (simp add: fill_header_def wrn_def in_buf_def Let_def)

lemma header_run:
  assumes a: "env_ok c env" and l: "loop_ok c env l" "dStage (lctx l) = dstage_getFrameHeader" and ok: "info_ok fi"
    and s: "stored (mem_before c) (srcPtr l) (header_of fi)" "srcPtr l + header_len fi \<le> srcEnd env"
  shows "\<exists>k. run_stages env l = run_stages env k \<and> loop_ok c env k \<and> header_read fi l k"
proof -
  have m: "confined c env (lmem l)" "srcStart c \<le> srcPtr l" "length (dheader (lctx l)) = 19"
    using l(1) by (auto simp: loop_ok_def moving_def base_ok_def)
  have src: "stored (lmem l) (srcPtr l) (header_of fi)" using source_kept[OF a m(1,2) _ s(1)] s(2) by (simp add: length_header)
  have hl: "7 \<le> header_len fi" "header_len fi \<le> 19" by (auto simp: header_len_def)
  let ?h = "header_of fi" let ?n = "srcEnd env - srcPtr l"
  show ?thesis
  proof (cases "?n \<ge> maxFHSize")
    case True
    have "read_mem (lmem l) (srcPtr l) ?n = ?h @ read_mem (lmem l) (srcPtr l + header_len fi) (?n - header_len fi)"
      using read_mem_split[of "header_len fi" "?n - header_len fi" "lmem l" "srcPtr l"] src hl True by (simp add: stored_def length_header)
    then have "dispatch env l = Some (Again (header_next fi l (lctx l) (srcPtr l + header_len fi)))"
      using True l(2) decodeHeader_of[OF ok, of "dmachine env" "lctx l"]
      by (simp add: dispatch_def stage_getFrameHeader_def block_limit_def header_next_def)
    from step_run[OF a l(1) this] show ?thesis using header_next_read[of "lctx l" l fi, OF refl refl refl refl] by blast
  next
    case False
    let ?a = "take 7 ?h" and ?b = "drop 7 ?h"
    have len: "int (length ?a) = 7" "int (length ?b) = header_len fi - 7" using length_header(2)[of fi] hl by auto
    have "stored (lmem l) (srcPtr l) (?a @ ?b)" using src by simp
    then have st: "read_mem (lmem l) (srcPtr l) 7 = ?a" "read_mem (lmem l) (srcPtr l + 7) (header_len fi - 7) = ?b"
      using len by (simp_all only: stored_append) (simp_all add: stored_def)
    have n: "7 \<le> ?n" using s(2) hl by simp
    define hdr1 where "hdr1 = upd (dheader (lctx l)) 0 ?a"
    define d1 where "d1 = (lctx l)\<lparr>dtmpInTarget := 7, dStage := dstage_storeFrameHeader, dheader := hdr1, dtmpInSize := 7\<rparr>"
    have h1: "length hdr1 = 19" "rdn hdr1 0 7 = Some ?a" using m(3) len(1) by (auto simp: hdr1_def upd_def rdn_def in_buf_def seg_def)
    let ?l0 = "l\<lparr>lctx := (lctx l)\<lparr>dtmpInSize := 0, dtmpInTarget := minFHSize, dStage := dstage_storeFrameHeader\<rparr>\<rparr>"
    have f1: "fill_header env ?l0 (usub minFHSize 0) = Some (l\<lparr>lctx := d1, srcPtr := srcPtr l + 7\<rparr>)"
      using fill_value[of ?l0 "usub minFHSize 0" env ?a] st(1) len(1) n m(3) by (simp add: usub_def d1_def hdr1_def min_absorb1)
    have dp: "dispatch env l = stage_storeFrameHeader env ?l0"
      using False n l(2) by (simp add: dispatch_def stage_getFrameHeader_def Let_def)
    have d1: "dtmpInSize d1 = 7" "dtmpInTarget d1 = 7" "dheader d1 = hdr1" by (simp_all add: d1_def)
    show ?thesis
    proof (cases "header_len fi = 7")
      case True
      then have "?a = header_of fi @ []" using length_header(2)[of fi] by simp
      then have "LZ4F_decodeHeader (dmachine env) d1 ?a True = Some (Inr 7, d1\<lparr>dStage := dstage_init, dmaxBlockSize := block_limit fi,
          frameRemainingSize := (if contentSize fi \<noteq> 0 then contentSize fi else frameRemainingSize d1), dframeInfo := fi\<rparr>)"
        using decodeHeader_of[OF ok, of "dmachine env" d1 "[]" True] True by (simp add: block_limit_def)
      then have "stage_storeFrameHeader env ?l0 = Some (Again (header_next fi l d1 (srcPtr l + 7)))"
        using f1 h1(2) d1 by (simp add: stage_storeFrameHeader_def header_next_def)
      from step_run[OF a l(1) this[folded dp]] show ?thesis using header_next_read[of d1 l fi] True by (auto simp: d1_def)
    next
      case lt: False
      then have l7: "7 < header_len fi" using hl by simp
      define k1 where "k1 = l\<lparr>lctx := d1\<lparr>dframeInfo := LZ4F_INIT_FRAMEINFO, dtmpInSize := 7, dtmpInTarget := header_len fi, dStage := dstage_storeFrameHeader\<rparr>,
          srcPtr := srcPtr l + 7\<rparr>"
      have "stage_storeFrameHeader env ?l0 = Some (Again k1)"
        using f1 h1(2) d1 decodeHeader_short[OF ok l7, of "dmachine env" d1] by (simp add: stage_storeFrameHeader_def k1_def)
      note r1 = step_run[OF a l(1) this[folded dp]]
      define d2 where "d2 = d1\<lparr>dframeInfo := LZ4F_INIT_FRAMEINFO, dtmpInTarget := header_len fi, dStage := dstage_storeFrameHeader,
          dheader := upd hdr1 7 ?b, dtmpInSize := header_len fi\<rparr>"
      have f2: "fill_header env k1 (usub (header_len fi) 7) = Some (l\<lparr>lctx := d2, srcPtr := srcPtr l + header_len fi\<rparr>)"
        using fill_value[of k1 "usub (header_len fi) 7" env ?b] st(2) len(2) s(2) hl h1(1)
        by (simp add: usub_diff k1_def d1 d2_def min_absorb1)
      have r: "rdn (upd hdr1 7 ?b) 0 (header_len fi) = Some ?h"
        using upd_twice[of ?a 7 ?b "dheader (lctx l)"] len hl m(3) by (simp add: hdr1_def rdn_def in_buf_def upd_def)
      have k1: "dStage (lctx k1) = dstage_storeFrameHeader" "dtmpInTarget (lctx k1) = header_len fi" "dtmpInSize (lctx k1) = 7"
        by (simp_all add: k1_def)
      have "dispatch env k1 = Some (Again (header_next fi l d2 (srcPtr l + header_len fi)))"
        using f2 r k1 decodeHeader_of[OF ok, of "dmachine env" d2 "[]" True]
        by (simp add: dispatch_def stage_storeFrameHeader_def header_next_def block_limit_def) (simp add: d2_def)
      from step_run[OF a r1(2) this] r1(1) show ?thesis using header_next_read[of d2 l fi] by (auto simp: d2_def d1_def)
    qed
  qed
qed

text \<open>Then the buffers are set up.\<close>

definition allocates :: "denv \<Rightarrow> bool" where
  "allocates env \<longleftrightarrow> (\<forall>bs \<in> block_sizes. malloc_in env (bs + 4) \<noteq> 0 \<and> malloc_out env bs \<noteq> 0 \<and> malloc_out env (bs + KB 128) \<noteq> 0)"

lemma buffers_value:
  assumes "allocates env" "dmaxBlockSize d \<in> block_sizes"
  shows "\<exists>d'. init_buffers env d = Inr d'"
  using assms by (auto simp: init_buffers_def allocates_def Let_def)

lemma init_step:
  assumes e: "env_ok c env" and l: "loop_ok c env l" "dStage (lctx l) = dstage_init" and al: "allocates env" and z: "dmaxBlockSize (lctx l) \<in> block_sizes"
  shows "\<exists>k i t n. run_stages env l = run_stages env k \<and> loop_ok c env k \<and> dStage (lctx k) = dstage_getBlockHeader \<and> srcPtr k = srcPtr l
    \<and> dstPtr k = dstPtr l \<and> lctx k = (if has_contentsum (lctx l) then (lctx l)\<lparr>dxxh := XXH32_reset 0\<rparr> else lctx l)\<lparr>dtmpIn := i, tmpOutBuffer := t,
      dmaxBufferSize := n, dtmpInSize := 0, dtmpInTarget := 0, tmpOut := t, tmpOutStart := 0, tmpOutSize := 0, dStage := dstage_getBlockHeader\<rparr>"
proof -
  let ?d = "if has_contentsum (lctx l) then (lctx l)\<lparr>dxxh := XXH32_reset 0\<rparr> else lctx l"
  have "dmaxBlockSize ?d \<in> block_sizes" using z by simp
  from buffers_value[OF al this] obtain d' where b: "init_buffers env ?d = Inr d'" by blast
  note n = init_enters[OF e l b]
  let ?k = "l\<lparr>lctx := d'\<lparr>dtmpInSize := 0, dtmpInTarget := 0, tmpOut := tmpOutBuffer d', tmpOutStart := 0, tmpOutSize := 0,
      dStage := dstage_getBlockHeader\<rparr>\<rparr>"
  have r: "in_range env l" "in_range env ?k" using l(1) n(2) by (auto simp: loop_ok_def intro!: moving_in_range[of c])
  have "dispatch env l = dispatch env ?k" using n(1) l(2) by (simp add: dispatch_def)
  then have "run_stages env l = run_stages env ?k" by (subst (1 2) run_stages.simps) (simp add: r)
  moreover obtain i t n where "d' = ?d\<lparr>dtmpIn := i, tmpOutBuffer := t, dmaxBufferSize := n\<rparr>" using n(3) by blast
  ultimately show ?thesis using n(2)
    by (intro exI[of _ ?k] exI[of _ i] exI[of _ t] exI[of _ n]) (simp del: split_paired_Ex if_split)
qed

lemma init_run:
  assumes e: "env_ok c env" and l: "loop_ok c env l" "dStage (lctx l) = dstage_init" and al: "allocates env" and i: "info_ok fi"
    and h: "dframeInfo (lctx l) = fi" "dmaxBlockSize (lctx l) = block_limit fi" "ddict (lctx l) = 0" "ddictSize (lctx l) = 0"
      "frameRemainingSize (lctx l) = contentSize fi" "dstPtr l = dstStart env"
    and f: "contentSize fi \<noteq> 0 \<longrightarrow> contentSize fi = full"
  shows "\<exists>k. run_stages env l = run_stages env k \<and> at_block c env fi full [] k \<and> srcPtr k = srcPtr l \<and> dstPtr k = dstPtr l"
proof -
  have z: "dmaxBlockSize (lctx l) \<in> block_sizes" using block_limit_sizes[OF i] h(2) by simp
  from init_step[OF e l al z] obtain k where k: "run_stages env l = run_stages env k" "loop_ok c env k" "dStage (lctx k) = dstage_getBlockHeader"
    "srcPtr k = srcPtr l" "dstPtr k = dstPtr l" and d: "\<exists>i t n. lctx k = (if has_contentsum (lctx l) then (lctx l)\<lparr>dxxh := XXH32_reset 0\<rparr> else lctx l)\<lparr>dtmpIn := i,
      tmpOutBuffer := t, dmaxBufferSize := n, dtmpInSize := 0, dtmpInTarget := 0, tmpOut := t, tmpOutStart := 0, tmpOutSize := 0, dStage := dstage_getBlockHeader\<rparr>"
    by blast
  have "decoded env fi full [] (lctx k) (dstPtr k) (lmem k)" using d h f k(5) reset_holds[of 0] by (auto simp: decoded_def)
  then show ?thesis using k by (auto simp: at_block_def)
qed

section \<open>A whole frame\<close>

lemma frame_run:
  assumes a: "addresses_ok c env" and l: "loop_ok c env l" "between_frames (lctx l)" "dstPtr l = dstStart env" and al: "allocates env"
    and f: "frame_of fi f content" and s: "stored (mem_before c) (srcPtr l) f" "srcPtr l + int (length f) \<le> srcEnd env"
    and room: "dstStart env + int (length content) \<le> dstEnd env"
  shows "\<exists>k. run_stages env l = Some (Inr k) \<and> between_frames (lctx k) \<and> nextSrcSizeHint k = 0
    \<and> srcPtr k = srcPtr l + int (length f) \<and> dstPtr k = dstPtr l + int (length content) \<and> stored (lmem k) (dstStart env) content"
proof -
  let ?n = "int (length content)" and ?e = "LZ4F_writeLE32 0 @ content_crc fi content"
  have e: "env_ok c env" using a by (simp add: addresses_ok_def)
  obtain bs where i: "info_ok fi" "contentSize fi \<noteq> 0 \<longrightarrow> contentSize fi = ?n" "blocks_enc fi [] bs content" "f = header_of fi @ bs @ ?e"
    using f by (auto simp: frame_of_def)
  have hl: "int (length (header_of fi)) = header_len fi" by (rule length_header)
  have s': "stored (mem_before c) (srcPtr l) (header_of fi)" "stored (mem_before c) (srcPtr l + header_len fi) bs"
    "stored (mem_before c) (srcPtr l + header_len fi + int (length bs)) ?e"
    using s(1) unfolding i(4) stored_append hl by (simp_all del: stored_append)
  have len: "int (length f) = header_len fi + int (length bs) + int (length ?e)" unfolding i(4) by (simp add: hl)
  obtain k1 where k1: "run_stages env l = run_stages env k1" "loop_ok c env k1" "header_read fi l k1"
    using header_run[OF e l(1) _ i(1) s'(1)] l(2) s(2) len by (auto simp: between_frames_def)
  have h: "dStage (lctx k1) = dstage_init" "dframeInfo (lctx k1) = fi" "dmaxBlockSize (lctx k1) = block_limit fi" "ddict (lctx k1) = 0"
    "ddictSize (lctx k1) = 0" "frameRemainingSize (lctx k1) = contentSize fi" "dstPtr k1 = dstStart env"
    using k1(3) l(2,3) by (auto simp: header_read_def between_frames_def)
  from init_run[OF e k1(2) h(1) al i(1) h(2-7) i(2)] obtain k2 where
    k2: "run_stages env k1 = run_stages env k2" "at_block c env fi ?n [] k2" "srcPtr k2 = srcPtr k1" "dstPtr k2 = dstPtr k1" by blast
  have p: "srcPtr k2 = srcPtr l + header_len fi" "dstPtr k2 = dstStart env" using k1(3) k2(3,4) l(3) by (auto simp: header_read_def)
  have "?n < 2 ^ 63" using room a by (simp add: addresses_ok_def)
  then have "block_ahead c env k2 bs [] content ?n" using s'(2) s(2) len room p by (simp add: block_ahead_def)
  from blocks_run[OF i(3) a i(1) k2(2) this] obtain k3 where k3: "run_stages env k2 = run_stages env k3" "at_block c env fi ?n content k3"
    "srcPtr k3 = srcPtr k2 + int (length bs)" by auto
  have "dstPtr k3 = dstStart env + ?n" using k3(2) by (simp add: at_block_def decoded_def)
  moreover have "stored (mem_before c) (srcPtr k3) ?e" using s'(3) k3(3) p(1) by simp
  moreover have "srcPtr k3 + int (length ?e) \<le> srcEnd env" using s(2) len k3(3) p(1) by simp
  ultimately show ?thesis using end_run[OF a k3(2) refl] k1(1) k2(1) k3(1,3) p(1) len l(3) by auto
qed

lemma decompress_stops:
  assumes "run_stages (call_env env dst cap src n keep) (call_start d mem dst src skip) = Some (Inr k)" "dStage (lctx k) = dstage_getFrameHeader"
  shows "LZ4F_decompress env d mem dst cap src n keep skip = Some \<lparr>dret = Inr (nextSrcSizeHint k), dstSize = dstPtr k - dst,
    srcSize = srcPtr k - src, dctx_after = lctx k, mem_after = lmem k\<rparr>"
proof -
  have "preserve_history (call_env env dst cap src n keep) k = Some k" using assms(2) by (simp add: preserve_history_def must_preserve_def)
  then show ?thesis using assms(1) unfolding LZ4F_decompress_def call_env_def call_start_def Let_def by simp
qed

text \<open>All addresses are below \<open>2 ^ 63\<close>, and neither buffer is at address 0.\<close>

definition low_addresses :: "int set \<Rightarrow> int \<Rightarrow> int \<Rightarrow> int \<Rightarrow> int \<Rightarrow> bool" where
  "low_addresses H dst cap src n \<longleftrightarrow> (\<forall>p \<in> H. p < 2 ^ 63) \<and> 0 < src \<and> src + n < 2 ^ 63 \<and> 0 < dst \<and> dst + cap < 2 ^ 63"

lemma call_addresses:
  assumes "caller_ok H env dst cap src n" "low_addresses H dst cap src n" "dctx_ok H d dst (dst + cap)"
  shows "addresses_ok (call_site H src dst mem) (call_env env dst cap src n keep)"
  using call_setup(1)[OF assms(1,3), of mem keep] assms(2) by (simp add: addresses_ok_def low_addresses_def call_site_def call_env_def)

section \<open>A size left over from an abandoned frame\<close>

text \<open>\<open>LZ4F_resetDecompressionContext\<close> leaves \<open>frameRemainingSize\<close> alone, and a header without a content size
  does not set it: a frame that was given up still counts at the end of the next one.\<close>

lemma stale_run:
  assumes e: "env_ok c env" and l: "loop_ok c env l" "dStage (lctx l) = dstage_getFrameHeader" "frameRemainingSize (lctx l) \<noteq> 0" and al: "allocates env"
    and i: "info_ok fi" "contentSize fi = 0"
    and s: "stored (mem_before c) (srcPtr l) (header_of fi @ LZ4F_writeLE32 0)" "srcPtr l + header_len fi + 4 \<le> srcEnd env"
  shows "\<exists>k. run_stages env l = Some (Inl (Inl ERROR_frameSize_wrong, k))"
proof -
  have hl: "int (length (header_of fi)) = header_len fi" by (rule length_header)
  have s': "stored (mem_before c) (srcPtr l) (header_of fi)" "stored (mem_before c) (srcPtr l + header_len fi) (LZ4F_writeLE32 0)"
    using s(1) unfolding stored_append hl by simp_all
  obtain k1 where k1: "run_stages env l = run_stages env k1" "loop_ok c env k1" "header_read fi l k1"
    using header_run[OF e l(1,2) i(1) s'(1)] s(2) by auto
  have z: "dStage (lctx k1) = dstage_init" "dmaxBlockSize (lctx k1) \<in> block_sizes" "srcPtr k1 = srcPtr l + header_len fi"
    "frameRemainingSize (lctx k1) \<noteq> 0"
    using k1(3) block_limit_sizes[OF i(1)] i(2) l(3) by (auto simp: header_read_def)
  from init_step[OF e k1(2) z(1) al z(2)] obtain k2 where k2: "run_stages env k1 = run_stages env k2" "loop_ok c env k2"
    "dStage (lctx k2) = dstage_getBlockHeader" "srcPtr k2 = srcPtr k1" "frameRemainingSize (lctx k2) = frameRemainingSize (lctx k1)"
    by (auto split: if_splits)
  have w: "srcPtr k2 + 4 \<le> srcEnd env" "stored (mem_before c) (srcPtr k2) (LZ4F_writeLE32 0)" using s(2) s'(2) z(3) k2(4) by simp_all
  define k3 where "k3 = k2\<lparr>srcPtr := srcPtr k2 + 4, lctx := (lctx k2)\<lparr>dStage := dstage_getSuffix\<rparr>\<rparr>"
  have "dispatch env k2 = Some (Again k3)" unfolding block_word_read(1)[OF e k2(2,3) w] using block_word_read(2)[OF e k2(2,3) w]
    by (simp add: decode_block_header_def k3_def Let_def)
  note r = step_run[OF e k2(2) this]
  have "dispatch env k3 = Some (Return (Inl ERROR_frameSize_wrong) k3)"
    using z(4) k2(5) by (simp add: k3_def dispatch_def stage_getSuffix_def)
  moreover have "in_range env k3" using r(2) by (intro moving_in_range[of c]) (simp add: loop_ok_def)
  ultimately have "run_stages env k3 = Some (Inl (Inl ERROR_frameSize_wrong, k3))" by (subst run_stages.simps) simp
  then show ?thesis using k1(1) k2(1) r(1) by auto
qed

section \<open>Properties\<close>

text \<open>A sample frame: independent blocks without checksums, one stored as it is and one compressed, and the memory that holds it.\<close>

definition sample_info :: LZ4F_frameInfo_t where
  "sample_info = LZ4F_INIT_FRAMEINFO\<lparr>blockSizeID := 4, blockMode := LZ4F_blockIndependent\<rparr>"

definition memory_at :: "int \<Rightarrow> bytes \<Rightarrow> memory" where
  "memory_at a bs p = (if a \<le> p \<and> p < a + int (length bs) then bs ! nat (p - a) else 0)"

lemma memory_at_stored: "stored (memory_at a bs) a bs"
  unfolding stored_def read_mem_def by (rule nth_equalityI) (simp_all add: memory_at_def)

lemma sample_info_ok: "info_ok sample_info" "contentSize sample_info = 0" "header_len sample_info = 7"
  by (simp_all add: sample_info_def info_ok_def LZ4F_INIT_FRAMEINFO_def header_len_def)

lemma sample_allocates: "allocates (sample_env)"
  by (simp add: allocates_def sample_env_def)

lemma sample_addresses: "n \<le> 1000 \<Longrightarrow> cap \<le> 1000 \<Longrightarrow> low_addresses sample_heap 3000 cap 1000 n"
  by (auto simp: low_addresses_def sample_heap_def)

definition sample_frame :: bytes where
  "sample_frame = header_of sample_info @ (raw_block sample_info [1, 2, 3] @ packed_block sample_info [0x20, 7, 8] @ []) @ LZ4F_writeLE32 0"

lemma sample_frame_of: "frame_of sample_info sample_frame [1, 2, 3, 7, 8]"
proof -
  have p: "block_of [] [0x20, 7, 8] [7, 8]"
    by (auto simp: block_of_def ends_ok_def enc_block_def enc_last_def token_byte_def enc_len_def intro!: exI[of _ "[]"] exI[of _ "[7, 8]"])
  have l: "block_limit sample_info = 65536"
    by (simp add: block_limit_def sample_info_def LZ4F_INIT_FRAMEINFO_def LZ4F_getBlockSize_def as_size_t_def)
  have m: "blockMode sample_info = LZ4F_blockIndependent" by (simp add: sample_info_def)
  have "blocks_enc sample_info ([] @ [1, 2, 3]) (packed_block sample_info [0x20, 7, 8] @ []) ([7, 8] @ [])"
    using p l m by (intro blocks_enc.packed blocks_enc.none) simp_all
  then have "blocks_enc sample_info [] (raw_block sample_info [1, 2, 3] @ packed_block sample_info [0x20, 7, 8] @ []) ([1, 2, 3] @ [7, 8] @ [])"
    using l by (intro blocks_enc.raw) simp_all
  moreover have "content_crc sample_info xs = []" for xs by (simp add: crc_field_def sample_info_def LZ4F_INIT_FRAMEINFO_def)
  ultimately show ?thesis using sample_info_ok unfolding frame_of_def sample_frame_def by auto
qed

lemma sample_frame_length: "length sample_frame = 25"
proof -
  have "block_crc sample_info xs = []" for xs by (simp add: crc_field_def sample_info_def LZ4F_INIT_FRAMEINFO_def)
  moreover have "length (header_of sample_info) = 7" using length_header(2)[of sample_info] sample_info_ok(3) by simp
  ultimately show ?thesis by (simp add: sample_frame_def raw_block_def packed_block_def)
qed

lemma whole_frame_decoded:
  assumes "dctx_reachable H d" "between_frames d" "caller_ok H env dst cap src n" "low_addresses H dst cap src n" "allocates env"
    and "frame_of fi f content" "stored mem src f" "int (length f) \<le> n" "int (length content) \<le> cap"
  shows "\<exists>r. LZ4F_decompress env d mem dst cap src n keep skip = Some r \<and> dret r = Inr 0 \<and> srcSize r = int (length f)
    \<and> dstSize r = int (length content) \<and> read_mem (mem_after r) dst (int (length content)) = content \<and> between_frames (dctx_after r)"
proof -
  note dc = idle_dctx[OF conjunct1[OF reachable_idle[OF assms(1)]], of dst "dst + cap"]
  let ?e = "call_env env dst cap src n keep" and ?l = "call_start d mem dst src skip"
  have s: "allocates ?e" "between_frames (lctx ?l)" "dstPtr ?l = dstStart ?e" "srcPtr ?l = src" "mem_before (call_site H src dst mem) = mem"
    "srcEnd ?e = src + n" "dstStart ?e + int (length content) \<le> dstEnd ?e" "dstPtr ?l = dst" "dstStart ?e = dst"
    using assms(2,4,5,9) by (auto simp: allocates_def call_env_def call_start_def call_site_def between_frames_def low_addresses_def)
  obtain k where "run_stages ?e ?l = Some (Inr k)" "between_frames (lctx k)" "nextSrcSizeHint k = 0" "srcPtr k = src + int (length f)"
    "dstPtr k = dst + int (length content)" "stored (lmem k) dst content"
    using frame_run[OF call_addresses[OF assms(3,4) dc, of mem keep] call_setup(2)[OF assms(3) dc, of mem keep skip] s(2,3,1) assms(6)] assms(7,8) s by auto
  then show ?thesis using decompress_stops[of env dst cap src n keep d mem skip k] by (simp add: between_frames_def stored_def)
qed

text \<open>C5. Given a whole frame and room for its content, one call of \<open>LZ4F_decompress\<close> on a context between two frames, whatever its
  past, consumes exactly the frame, writes exactly the content and returns 0; the context is again between two frames. The frame may have
  blocks of all four sizes, stored or compressed, linked or independent, block checksums, a content checksum and a content size.\<close>

theorem LZ4F_decompress_frame:
  assumes "dctx_reachable H d" "between_frames d" "caller_ok H env dst cap src n" "low_addresses H dst cap src n" "allocates env"
    and "frame_of fi f content" "stored mem src f" "int (length f) \<le> n" "int (length content) \<le> cap"
  shows "\<exists>r. LZ4F_decompress env d mem dst cap src n keep skip = Some r \<and> dret r = Inr 0 \<and> srcSize r = int (length f)
    \<and> dstSize r = int (length content) \<and> read_mem (mem_after r) dst (int (length content)) = content \<and> between_frames (dctx_after r)"
  by (rule whole_frame_decoded[OF assms])

lemma created_between: "between_frames LZ4F_createDecompressionContext"
  by (simp add: between_frames_def LZ4F_createDecompressionContext_def)

lemma LZ4F_decompress_frame_witness:
  "\<exists>r. LZ4F_decompress sample_env LZ4F_createDecompressionContext (memory_at 1000 sample_frame) 3000 100 1000 25 False False = Some r
    \<and> dret r = Inr 0 \<and> srcSize r = 25 \<and> dstSize r = 5 \<and> read_mem (mem_after r) 3000 5 = [1, 2, 3, 7, 8]"
  using LZ4F_decompress_frame[OF dctx_reachable.created created_between sample_caller[of 25 100] sample_addresses[of 25 100] sample_allocates
      sample_frame_of memory_at_stored, of False False] sample_frame_length by auto

text \<open>C37. \<open>LZ4F_resetDecompressionContext\<close> does not forget the size of the frame it abandons: when bytes of that frame were still
  expected, the next frame whose header has no content size, valid and empty, is refused with \<open>ERROR_frameSize_wrong\<close>.\<close>

theorem LZ4F_reset_keeps_size:
  assumes "dctx_reachable H d" "frameRemainingSize d \<noteq> 0" "caller_ok H env dst cap src n" "allocates env"
    and "info_ok fi" "contentSize fi = 0" "stored mem src (header_of fi @ LZ4F_writeLE32 0)" "header_len fi + 4 \<le> n"
  shows "\<exists>r. LZ4F_decompress env (LZ4F_resetDecompressionContext d) mem dst cap src n keep skip = Some r \<and> dret r = Inl ERROR_frameSize_wrong"
proof -
  let ?d = "LZ4F_resetDecompressionContext d"
  note dc = idle_dctx[OF conjunct1[OF reachable_idle[OF dctx_reachable.reset[OF assms(1)]]], of dst "dst + cap"]
  let ?e = "call_env env dst cap src n keep" and ?l = "call_start ?d mem dst src skip"
  have s: "allocates ?e" "dStage (lctx ?l) = dstage_getFrameHeader" "frameRemainingSize (lctx ?l) \<noteq> 0" "srcPtr ?l = src"
    "mem_before (call_site H src dst mem) = mem" "srcEnd ?e = src + n"
    using assms(2,4) by (auto simp: allocates_def call_env_def call_start_def call_site_def LZ4F_resetDecompressionContext_def)
  obtain k where "run_stages ?e ?l = Some (Inl (Inl ERROR_frameSize_wrong, k))"
    using stale_run[OF call_setup(1)[OF assms(3) dc, of mem keep] call_setup(2)[OF assms(3) dc, of mem keep skip] s(2,3,1) assms(5,6)] assms(7,8) s by auto
  then show ?thesis unfolding LZ4F_decompress_def call_env_def call_start_def Let_def by simp
qed

text \<open>The size is left over by \<open>LZ4F_getFrameInfo\<close> on the header of a frame of 100 bytes.\<close>

definition sized_info :: LZ4F_frameInfo_t where
  "sized_info = sample_info\<lparr>contentSize := 100\<rparr>"

lemma sized_context: "\<exists>d. dctx_reachable sample_heap d \<and> frameRemainingSize d = 100"
proof -
  let ?h = "header_of sized_info" and ?d = LZ4F_createDecompressionContext
  have i: "info_ok sized_info" "contentSize sized_info = 100" "header_len sized_info = 15"
    using sample_info_ok by (simp_all add: sized_info_def info_ok_def header_len_def)
  have l: "int (length ?h) = 15" using length_header(2)[of sized_info] i(3) by simp
  then have "take (nat 15) ?h = ?h @ []" by simp
  then obtain d' where "LZ4F_decodeHeader (dmachine sample_env) ?d (take (nat 15) ?h) False = Some (Inr 15, d')" "frameRemainingSize d' = 100"
    using decodeHeader_of[OF i(1), of "dmachine sample_env" ?d "[]" False] i(2,3) by simp
  then have "LZ4F_getFrameInfo sample_env ?d (\<lambda>_. 0) (Some ?h) = Some (Inr 4, 15, Some (dframeInfo d'), d', \<lambda>_. 0)"
    using headerSize_of[OF i(1), of "[]"] i(3) l by (simp add: LZ4F_getFrameInfo_def LZ4F_createDecompressionContext_def)
  moreover have "allocator_ok sample_heap sample_env" using sample_caller[of 0 0] by (simp add: caller_ok_def)
  ultimately show ?thesis using dctx_reachable.asked[OF dctx_reachable.created] \<open>frameRemainingSize d' = 100\<close> by blast
qed

lemma LZ4F_reset_keeps_size_witness:
  "\<exists>d r. dctx_reachable sample_heap d \<and> frameRemainingSize d = 100
    \<and> LZ4F_decompress sample_env (LZ4F_resetDecompressionContext d) (memory_at 1000 (header_of sample_info @ LZ4F_writeLE32 0)) 3000 10 1000 11 False False = Some r
    \<and> dret r = Inl ERROR_frameSize_wrong"
proof -
  obtain d where d: "dctx_reachable sample_heap d" "frameRemainingSize d = 100" using sized_context by blast
  have n: "header_len sample_info + 4 \<le> 11" "frameRemainingSize d \<noteq> 0" using sample_info_ok(3) d(2) by simp_all
  from LZ4F_reset_keeps_size[OF d(1) n(2) sample_caller[of 11 10] sample_allocates sample_info_ok(1,2) memory_at_stored n(1), of False False] d
  show ?thesis by auto
qed

end
