(* ===== verification/LZ4F_Compress_Block.thy ===== *)
theory LZ4F_Compress_Block
  imports LZ4F_Compress LZ4F_Decode
begin

text \<open>
  One block of a frame. What \<open>LZ4F_makeBlock\<close> asks of a compression function is the locale
  \<open>block_writer\<close>; the functions that \<open>LZ4F_selectCompression\<close> can select without \<open>lz4hc.c\<close>
  provide it.
\<close>

section \<open>Writing piece by piece\<close>

lemma stored_write: "stored (write_mem mem a bs) a bs"
  by (simp add: stored_def read_write_all)

lemma write_mem_Nil [simp]: "write_mem mem a [] = mem"
  by (auto simp: write_mem_def fun_eq_iff)

lemma stored_extend:
  assumes "stored mem a xs" "b = a + int (length xs)"
  shows "stored (write_mem mem b ys) a (xs @ ys)"
proof -
  have "stored (write_mem mem b ys) a xs" by (rule stored_cong[OF assms(1)]) (simp add: write_mem_def assms(2))
  then show ?thesis using stored_write[of mem b ys] assms(2) by simp
qed

lemma stored_prepend:
  assumes "stored mem b ys" "b = a + int (length xs)"
  shows "stored (write_mem mem a xs) a (xs @ ys)"
proof -
  have "stored (write_mem mem a xs) b ys" by (rule stored_cong[OF assms(1)]) (simp add: write_mem_def assms(2))
  then show ?thesis using stored_write[of mem a xs] assms(2) by simp
qed

lemma stored_read: "0 \<le> n \<Longrightarrow> stored mem a (read_mem mem a n)"
  by (simp add: stored_def)

text \<open>\<open>mem'\<close> is \<open>mem\<close> but for \<open>n\<close> bytes at \<open>a\<close>.\<close>

definition changes :: "int \<Rightarrow> int \<Rightarrow> memory \<Rightarrow> memory \<Rightarrow> bool" where
  "changes a n mem mem' \<longleftrightarrow> (\<forall>p. p < a \<or> a + n \<le> p \<longrightarrow> mem' p = mem p)"

definition away :: "int set \<Rightarrow> int \<Rightarrow> int \<Rightarrow> bool" where
  "away K a n \<longleftrightarrow> (\<forall>p \<in> K. p < a \<or> a + n \<le> p)"

lemma changes_refl [simp]: "changes a n mem mem"
  by (simp add: changes_def)

lemma changes_trans: "changes a n mem mem1 \<Longrightarrow> changes a n mem1 mem2 \<Longrightarrow> changes a n mem mem2"
  by (auto simp: changes_def)

lemma changes_wider: "changes a n mem mem' \<Longrightarrow> b \<le> a \<Longrightarrow> a + n \<le> b + k \<Longrightarrow> changes b k mem mem'"
  by (auto simp: changes_def)

lemma changes_write: "b \<le> a \<Longrightarrow> a + int (length bs) \<le> b + k \<Longrightarrow> changes b k mem (write_mem mem a bs)"
  by (auto simp: changes_def write_mem_def)

lemma changes_read: "changes a n mem mem' \<Longrightarrow> apart b k a n \<Longrightarrow> read_mem mem' b k = read_mem mem b k"
  by (rule read_mem_cong) (auto simp: changes_def apart_def)

lemma away_inside: "away K a n \<Longrightarrow> a \<le> b \<Longrightarrow> b + k \<le> a + n \<Longrightarrow> away K b k"
  by (fastforce simp: away_def)

lemma away_Un [simp]: "away (K \<union> L) a n \<longleftrightarrow> away K a n \<and> away L a n"
  by (auto simp: away_def)

lemma away_range: "apart b k a n \<Longrightarrow> away {b..<b + k} a n"
  by (auto simp: away_def apart_def)

section \<open>What a compression function promises\<close>

locale block_writer =
  fixes compress :: "'h compressFunc_t"
    and level_ok :: "int \<Rightarrow> bool"
    and inv :: "int set \<Rightarrow> memory \<Rightarrow> bytes \<Rightarrow> 'h lz4_ctx \<Rightarrow> bool"
    and hist :: "bytes \<Rightarrow> bytes"
  assumes compresses: "level_ok level \<Longrightarrow> inv K mem y ctx \<Longrightarrow> 0 < n \<Longrightarrow> n \<le> KB 4096 \<Longrightarrow> 0 < src \<Longrightarrow> 0 \<le> cap \<Longrightarrow> apart src n dst cap
      \<Longrightarrow> away K dst cap \<Longrightarrow> wp (compress ctx mem src dst n cap level None) (\<lambda>(r, ctx', mem'). 0 \<le> r \<and> r \<le> cap \<and> changes dst cap mem mem'
        \<and> (0 < r \<longrightarrow> block_of (hist y) (read_mem mem' dst r) (read_mem mem src n))
        \<and> inv (K \<union> {src..<src + n}) mem' (y @ read_mem mem src n) ctx')"
    and survives: "inv K mem y ctx \<Longrightarrow> (\<And>p. p \<in> K \<Longrightarrow> mem' p = mem p) \<Longrightarrow> inv K mem' y ctx"
begin

lemma survives_changes: "inv K mem y ctx \<Longrightarrow> changes a n mem mem' \<Longrightarrow> away K a n \<Longrightarrow> inv K mem' y ctx"
  by (erule survives) (auto simp: changes_def away_def)

end

definition crc_size :: "LZ4F_frameInfo_t \<Rightarrow> int" where
  "crc_size fi = block_val (blockChecksumFlag fi) * 4"

lemma crc_size_cases: "crc_size fi = (if blockChecksumFlag fi = LZ4F_blockChecksumEnabled then 4 else 0)"
  by (cases "blockChecksumFlag fi") (simp_all add: crc_size_def block_val_def)

text \<open>The block \<open>b\<close> that stands for \<open>x\<close>.\<close>

definition block_for :: "LZ4F_frameInfo_t \<Rightarrow> bytes \<Rightarrow> bytes \<Rightarrow> bytes \<Rightarrow> bool" where
  "block_for fi h x b \<longleftrightarrow> b = raw_block fi x
     \<or> (\<exists>c. b = packed_block fi c \<and> c \<noteq> [] \<and> length c < length x \<and> block_of h c x)"

lemma block_for_length: "block_for fi h x b \<Longrightarrow> x \<noteq> [] \<Longrightarrow> 4 < int (length b) \<and> int (length b) \<le> 4 + int (length x) + crc_size fi"
  by (auto simp: block_for_def raw_block_def packed_block_def crc_size_cases)

context block_writer
begin

lemma makeBlock_ok:
  assumes lv: "level_ok level" and i: "inv K mem y ctx" and n: "0 < n" "n \<le> KB 4096" and s: "0 < src"
    and ap: "apart src n dst (4 + n + crc_size fi)" and aw: "away K dst (4 + n + crc_size fi)"
  shows "wp (LZ4F_makeBlock mem dst src n compress ctx level None (blockChecksumFlag fi)) (\<lambda>(k, ctx', mem').
    \<exists>b. k = int (length b) \<and> block_for fi (hist y) (read_mem mem src n) b \<and> stored mem' dst b \<and> changes dst (4 + n + crc_size fi) mem mem'
      \<and> inv (K \<union> {src..<src + n}) mem' (y @ read_mem mem src n) ctx')"
proof -
  let ?x = "read_mem mem src n" let ?N = "4 + n + crc_size fi"
  have cs: "0 \<le> crc_size fi" by (simp add: crc_size_cases)
  have lx: "int (length ?x) = n" using n by simp
  have ap1: "apart src n (dst + 4) (n - 1)" using ap cs n by (auto simp: apart_def)
  have aw1: "away K (dst + 4) (n - 1)" by (rule away_inside[OF aw]) (use cs in auto)
  have cap: "0 \<le> n - 1" using n by simp
  obtain r ctx1 mem1 where c: "compress ctx mem src (dst + 4) n (n - 1) level None = Some (r, ctx1, mem1)"
    and r: "0 \<le> r" "r \<le> n - 1" "changes (dst + 4) (n - 1) mem mem1" "0 < r \<longrightarrow> block_of (hist y) (read_mem mem1 (dst + 4) r) ?x"
    and i1: "inv (K \<union> {src..<src + n}) mem1 (y @ ?x) ctx1"
    using compresses[OF lv i n s cap ap1 aw1] by (auto simp: wp_iff)
  have rm: "r mod 2 ^ 32 = r" using r n by (intro mod_pos_pos_trivial) auto
  have ch1: "changes dst ?N mem mem1" by (rule changes_wider[OF r(3)]) (use cs in auto)
  have aw2: "away (K \<union> {src..<src + n}) dst ?N" using aw away_range[OF ap] by simp
  define w where "w = (if r = 0 then LZ4F_writeLE32 (of_int n OR LZ4F_BLOCKUNCOMPRESSED_FLAG) else LZ4F_writeLE32 (of_int r))"
  define d where "d = (if r = 0 then ?x else read_mem mem1 (dst + 4) r)"
  define mem2 where "mem2 = (if r = 0 then write_mem (write_mem mem1 dst w) (dst + 4) ?x else write_mem mem1 dst w)"
  have ld: "int (length d) = (if r = 0 then n else r)" "int (length d) \<le> n" "length w = 4" using r lx by (auto simp: d_def w_def)
  have s2: "stored mem2 dst (w @ d)"
    using stored_extend[OF stored_write[of mem1 dst w], of "dst + 4" ?x] stored_prepend[OF stored_read[OF r(1), of mem1 "dst + 4"], of dst w] ld(3)
    by (auto simp: mem2_def d_def)
  have "changes dst ?N mem1 mem2"
    using changes_write[of dst dst w ?N mem1] changes_write[of dst "dst + 4" ?x ?N "write_mem mem1 dst w"] cs n lx ld(3)
    by (auto simp: mem2_def intro: changes_trans)
  then have ch2: "changes dst ?N mem mem2" using ch1 changes_trans by blast
  have rx: "read_mem (write_mem mem1 dst w) src n = ?x"
    by (rule changes_read[OF changes_trans[OF ch1 changes_write] ap]) (use cs n ld(3) in auto)
  have ap4: "apart (dst + 4) n src n" using ap cs n by (auto simp: apart_def)
  have mk: "(if r = 0 \<or> r \<ge> n then do {
         mem \<leftarrow> copy_mem (write_mem mem1 dst (LZ4F_writeLE32 (of_int n OR LZ4F_BLOCKUNCOMPRESSED_FLAG))) (dst + BHSize) src n;
         Some (n, mem) }
       else Some (r, write_mem mem1 dst (LZ4F_writeLE32 (of_int r)))) = Some (int (length d), mem2)"
    using r(2) ld(1) ap4 rx by (auto simp: copy_mem_def mem2_def w_def)
  define z where "z = block_crc fi d"
  define mem3 where "mem3 = write_mem mem2 (dst + 4 + int (length d)) z"
  have lz: "int (length z) = crc_size fi" by (simp add: z_def crc_size_cases)
  have rd: "read_mem mem2 (dst + 4) (int (length d)) = d"
    using s2 ld(3) by (simp add: stored_def[of mem2 "dst + 4"])
  have ck: "(if blockChecksumFlag fi = LZ4F_blockChecksumEnabled then do {
         crc32 \<leftarrow> XXH32 False XXH_littleEndian 0 (read_mem mem2 (dst + BHSize) (int (length d))) (int (length d)) 0;
         Some (write_mem mem2 (dst + BHSize + int (length d)) (LZ4F_writeLE32 crc32)) }
       else Some mem2) = Some mem3"
    unfolding rd by (auto simp: XXH32_value mem3_def z_def crc_field_def)
  have s3: "stored mem3 dst ((w @ d) @ z)" unfolding mem3_def by (rule stored_extend[OF s2]) (simp add: ld(3))
  have "changes dst ?N mem2 mem3" unfolding mem3_def by (rule changes_write) (use lz ld cs in auto)
  then have ch3: "changes dst ?N mem mem3" "changes dst ?N mem1 mem3"
    using ch2 changes_trans \<open>changes dst ?N mem1 mem2\<close> by blast+
  have i3: "inv (K \<union> {src..<src + n}) mem3 (y @ ?x) ctx1" by (rule survives_changes[OF i1 ch3(2) aw2])
  have on: "of_int n = (of_nat (length ?x) :: u32)" "r \<noteq> 0 \<Longrightarrow> of_int r = (of_nat (length d) :: u32)"
    using n r by (simp_all add: d_def of_nat_nat)
  have b: "block_for fi (hist y) ?x ((w @ d) @ z)"
  proof (cases "r = 0")
    case True
    then have "(w @ d) @ z = raw_block fi ?x" using on by (simp add: w_def d_def z_def raw_block_def)
    then show ?thesis by (simp add: block_for_def)
  next
    case False
    then have "(w @ d) @ z = packed_block fi d" using on(2) by (simp add: w_def z_def packed_block_def)
    moreover have "d \<noteq> []" "length d < length ?x" using False r(1,2) lx ld(1) by auto
    moreover have "block_of (hist y) d ?x" using False r by (simp add: d_def)
    ultimately show ?thesis by (auto simp: block_for_def)
  qed
  have k: "BHSize + int (length d) + block_val (blockChecksumFlag fi) * BFSize = int (length ((w @ d) @ z))"
    using lz ld(3) by (simp add: crc_size_def)
  have eq: "LZ4F_makeBlock mem dst src n compress ctx level None (blockChecksumFlag fi) = Some (int (length ((w @ d) @ z)), ctx1, mem3)"
    unfolding LZ4F_makeBlock_def c bind.bind_lunit prod.case rm Let_def mk ck k ..
  show ?thesis unfolding eq wp_Some prod.case using b s3 ch3(1) i3 by blast
qed

end

section \<open>The functions without \<open>lz4hc.c\<close>\<close>

text \<open>Linked blocks: the dictionary of the stream lies in \<open>K\<close> and holds the end of what was compressed.\<close>

definition linked_ctx :: "int set \<Rightarrow> memory \<Rightarrow> bytes \<Rightarrow> 'h lz4_ctx \<Rightarrow> bool" where
  "linked_ctx K mem y ctx \<longleftrightarrow> (\<exists>c. ctx = Fast_ctx c \<and> reusable c \<and> {dictionary c..<dictionary c + cdictSize c} \<subseteq> K
     \<and> suffix (read_mem mem (dictionary c) (cdictSize c)) y)"

text \<open>Independent blocks: the state only has to be usable.\<close>

definition free_ctx :: "int set \<Rightarrow> memory \<Rightarrow> bytes \<Rightarrow> 'h lz4_ctx \<Rightarrow> bool" where
  "free_ctx K mem y ctx \<longleftrightarrow> (\<exists>c. ctx = Fast_ctx c \<and> reusable c)"

abbreviation fast_level :: "int \<Rightarrow> bool" where
  "fast_level level \<equiv> level < LZ4HC_CLEVEL_MIN"

lemma apart_range: "{a..<a + n} \<subseteq> K \<Longrightarrow> away K b k \<Longrightarrow> apart a n b k"
proof -
  assume s: "{a..<a + n} \<subseteq> K" and w: "away K b k"
  have "\<not> (a \<le> p \<and> p < a + n \<and> b \<le> p \<and> p < b + k)" for p using subsetD[OF s, of p] w by (force simp: away_def)
  from this[of a] this[of b] show ?thesis by (auto simp: apart_def)
qed

lemma suffix_append_both: "suffix h y \<Longrightarrow> suffix (h @ x) (y @ x)"
  by (auto simp: suffix_def)

lemma suffix_append_self: "suffix x (y @ x)"
  by (simp add: suffix_def)

lemma block_of_suffix: "block_of h c x \<Longrightarrow> suffix h y \<Longrightarrow> block_of y c x"
  using block_of_longer by (auto simp: suffix_def)

lemma continue_writes:
  assumes i: "linked_ctx K mem y ctx" and n: "0 < n" "n \<le> KB 4096" and s: "0 < src" and cap: "0 \<le> cap"
    and ap: "apart src n dst cap" and aw: "away K dst cap"
  shows "wp (LZ4F_compressBlock_continue ctx mem src dst n cap level cd) (\<lambda>(r, ctx', mem'). 0 \<le> r \<and> r \<le> cap \<and> changes dst cap mem mem'
    \<and> (0 < r \<longrightarrow> block_of y (read_mem mem' dst r) (read_mem mem src n)) \<and> linked_ctx (K \<union> {src..<src + n}) mem' (y @ read_mem mem src n) ctx')"
proof -
  obtain c where c: "ctx = Fast_ctx c" "reusable c" "{dictionary c..<dictionary c + cdictSize c} \<subseteq> K"
    "suffix (read_mem mem (dictionary c) (cdictSize c)) y" using i by (auto simp: linked_ctx_def)
  have wf: "cs_wf c" "dictCtx c = None" using c(2) by (auto simp: reusable_def)
  have n': "0 \<le> n" "n \<le> INT_MAX" "n \<le> LZ4_MAX_INPUT_SIZE" using n by auto
  have cl: "cs_clear c src n dst cap" by (rule cs_clear_inside[OF wf(1) n'(1,2) wf(2) s ap apart_range[OF c(3) aw]])
  obtain r c' mem' where f: "LZ4_compress_fast_continue mem c src dst n cap (acceleration_of level) = Some (r, c', mem')"
    and p: "step_post mem c src n dst cap (r, c', mem')"
    using fast_continue_ok[OF wf(1) n'(1,2) s cl, of mem "acceleration_of level"] by (auto simp: wp_iff)
  let ?x = "read_mem mem src n" and ?h = "cs_history mem c src n"
  have q: "changes dst cap mem mem'" "0 \<le> r" "r \<le> cap" "0 < r \<longrightarrow> block_of ?h (read_mem mem' dst r) ?x" "cs_wf c'"
    "dictionary c' + cdictSize c' = src + n"
    "cdictSize c' = n \<or> dictionary c' = fst (cs_dict c src n) \<and> dictionary c' + snd (cs_dict c src n) = src"
    using p n' cap by (auto simp: step_post_def changes_def)
  have sy: "suffix ?h y" using cs_history_suffix[OF wf(1) n'(1,2) wf(2) s] c(4) suffix_order.trans by blast
  have di: "snd (cs_dict c src n) = 0 \<or> 0 \<le> snd (cs_dict c src n) \<and> snd (cs_dict c src n) \<le> cdictSize c
      \<and> fst (cs_dict c src n) = dictionary c + cdictSize c - snd (cs_dict c src n)" by (rule cs_dict_inside[OF wf(1) n'(1,2) wf(2) s])
  have "reusable c'" using q(5) fast_continue_dictCtx[OF f wf(2)] fast_continue_tableType[OF f wf(2,1) n(1) n'(3) s] by (simp add: reusable_def)
  moreover have "{dictionary c'..<dictionary c' + cdictSize c'} \<subseteq> K \<union> {src..<src + n}
      \<and> suffix (read_mem mem' (dictionary c') (cdictSize c')) (y @ ?x)"
  proof (cases "cdictSize c' = n")
    case True
    then have "dictionary c' = src" using q(6) by simp
    then show ?thesis using True changes_read[OF q(1) ap] suffix_append_self by auto
  next
    case False
    let ?k = "snd (cs_dict c src n)"
    have d: "dictionary c' = fst (cs_dict c src n)" "dictionary c' + ?k = src" "cdictSize c' = ?k + n" using False q(6,7) by auto
    have k: "0 \<le> ?k" "{dictionary c'..<dictionary c' + ?k} \<subseteq> K" using di d(1) c(3) by auto
    have "{dictionary c'..<dictionary c' + cdictSize c'} = {dictionary c'..<dictionary c' + ?k} \<union> {src..<src + n}"
      using d(2,3) k(1) n by auto
    moreover have "read_mem mem' (dictionary c') (cdictSize c') = ?h @ ?x"
      using read_mem_split[OF k(1) n'(1), of mem' "dictionary c'"] changes_read[OF q(1) ap] changes_read[OF q(1) apart_range[OF k(2) aw[unfolded away_def[symmetric]]]]
        d by (simp add: cs_history_def)
    ultimately show ?thesis using k(2) suffix_append_both[OF sy] by auto
  qed
  moreover have "0 < r \<longrightarrow> block_of y (read_mem mem' dst r) ?x" using q(4) block_of_suffix[OF _ sy] by blast
  ultimately show ?thesis using q(1-3) c(1) f by (auto simp: LZ4F_compressBlock_continue_def wp_Some linked_ctx_def)
qed

interpretation linked_writer: block_writer LZ4F_compressBlock_continue fast_level linked_ctx "\<lambda>y. y"
proof
  fix level K mem y and ctx :: "'h lz4_ctx" and n src cap dst
  assume "linked_ctx K mem y ctx" "0 < n" "n \<le> KB 4096" "0 < src" "0 \<le> cap" "apart src n dst cap" "away K dst cap"
  then show "wp (LZ4F_compressBlock_continue ctx mem src dst n cap level None) (\<lambda>(r, ctx', mem'). 0 \<le> r \<and> r \<le> cap \<and> changes dst cap mem mem'
        \<and> (0 < r \<longrightarrow> block_of y (read_mem mem' dst r) (read_mem mem src n))
        \<and> linked_ctx (K \<union> {src..<src + n}) mem' (y @ read_mem mem src n) ctx')"
    by (rule continue_writes)
next
  fix K mem y and ctx :: "'h lz4_ctx" and mem'
  assume i: "linked_ctx K mem y ctx" and m: "\<And>p. p \<in> K \<Longrightarrow> mem' p = mem p"
  then obtain c where c: "ctx = Fast_ctx c" "reusable c" "{dictionary c..<dictionary c + cdictSize c} \<subseteq> K"
    "suffix (read_mem mem (dictionary c) (cdictSize c)) y" by (auto simp: linked_ctx_def)
  have "read_mem mem' (dictionary c) (cdictSize c) = read_mem mem (dictionary c) (cdictSize c)"
    by (rule read_mem_cong) (use m c(3) in auto)
  then show "linked_ctx K mem' y ctx" using c by (auto simp: linked_ctx_def)
qed

lemma free_writes:
  assumes lv: "fast_level level" and i: "free_ctx K mem y ctx" and n: "0 < n" "n \<le> KB 4096" and cap: "0 \<le> cap" and ap: "apart src n dst cap"
  shows "wp (LZ4F_compressBlock hc ctx mem src dst n cap level None) (\<lambda>(r, ctx', mem'). 0 \<le> r \<and> r \<le> cap \<and> changes dst cap mem mem'
    \<and> (0 < r \<longrightarrow> block_of [] (read_mem mem' dst r) (read_mem mem src n)) \<and> free_ctx K' mem' y' ctx')"
proof -
  obtain c where c: "ctx = Fast_ctx c" "reusable c" using i by (auto simp: free_ctx_def)
  have "LZ4_attach_dictionary c None = c\<lparr>dictCtx := None\<rparr>" by (simp add: LZ4_attach_dictionary_def)
  moreover have "reusable (c\<lparr>dictCtx := None\<rparr>)" using c(2) by (auto simp: reusable_def cs_wf_def)
  moreover have "n \<le> LZ4_MAX_INPUT_SIZE" using n by simp
  ultimately have "wp (LZ4_compress_fast_extState_fastReset mem (c\<lparr>dictCtx := None\<rparr>) src dst n cap (acceleration_of level)) (reset_post mem src n dst cap)"
    using fastReset_ok[OF _ n(1) _ cap ap] by blast
  moreover have "LZ4F_initStream hc ctx None level LZ4F_blockIndependent = Some (Fast_ctx (c\<lparr>dictCtx := None\<rparr>))"
    using lv c(1) by (simp add: LZ4F_initStream_def LZ4_attach_dictionary_def)
  ultimately show ?thesis
    by (auto simp: LZ4F_compressBlock_def wp_iff reset_post_def changes_def free_ctx_def)
qed

interpretation free_writer: block_writer "LZ4F_compressBlock hc" fast_level free_ctx "\<lambda>y. []" for hc
proof
  show "fast_level level \<Longrightarrow> free_ctx K mem y ctx \<Longrightarrow> 0 < n \<Longrightarrow> n \<le> KB 4096 \<Longrightarrow> 0 < src \<Longrightarrow> 0 \<le> cap \<Longrightarrow> apart src n dst cap
      \<Longrightarrow> away K dst cap \<Longrightarrow> wp (LZ4F_compressBlock hc ctx mem src dst n cap level None) (\<lambda>(r, ctx', mem'). 0 \<le> r \<and> r \<le> cap \<and> changes dst cap mem mem'
        \<and> (0 < r \<longrightarrow> block_of [] (read_mem mem' dst r) (read_mem mem src n))
        \<and> free_ctx (K \<union> {src..<src + n}) mem' (y @ read_mem mem src n) ctx')" for level K mem y ctx n src cap dst
    by (rule free_writes)
  show "free_ctx K mem y ctx \<Longrightarrow> (\<And>p. p \<in> K \<Longrightarrow> mem' p = mem p) \<Longrightarrow> free_ctx K mem' y ctx" for K mem y ctx mem'
    by (simp add: free_ctx_def)
qed

interpretation raw_writer: block_writer LZ4F_doNotCompressBlock fast_level free_ctx "\<lambda>y. []"
  by unfold_locales (auto simp: LZ4F_doNotCompressBlock_def wp_Some free_ctx_def)

end
