(* ===== verification/LZ4F_Compress_Update.thy ===== *)
theory LZ4F_Compress_Update
  imports LZ4F_Compress_Block
begin

text \<open>
  The blocks that a call of \<open>LZ4F_compressUpdate\<close> makes of its source: full blocks, then the rest.
  Every block goes to the output, every byte is encoded once, and \<open>LZ4F_compressBound_internal\<close> bytes suffice.
\<close>

section \<open>A sequence of blocks grows\<close>

lemma blocks_enc_append: "blocks_enc fi h a x \<Longrightarrow> blocks_enc fi (h @ x) b y \<Longrightarrow> blocks_enc fi h (a @ b) (x @ y)"
  by (induction rule: blocks_enc.induct) (auto intro: blocks_enc.intros)

definition frame_history :: "LZ4F_frameInfo_t \<Rightarrow> bytes \<Rightarrow> bytes" where
  "frame_history fi y = (if blockMode fi = LZ4F_blockLinked then y else [])"

lemma blocks_enc_block:
  assumes "block_for fi (frame_history fi h) x b" "x \<noteq> []" "int (length x) \<le> block_limit fi"
  shows "blocks_enc fi h b x"
  using assms(1) unfolding block_for_def
proof (elim disjE exE conjE)
  assume "b = raw_block fi x"
  then show ?thesis using blocks_enc.raw[OF assms(3) blocks_enc.none, of h] by simp
next
  fix c assume c: "b = packed_block fi c" "c \<noteq> []" "length c < length x" "block_of (frame_history fi h) c x"
  then have "int (length c) \<le> block_limit fi" using assms(3) by simp
  from blocks_enc.packed[OF c(2) this assms(2,3) c(4)[unfolded frame_history_def] blocks_enc.none] c(1) show ?thesis by simp
qed

lemma blocks_enc_snoc:
  assumes "blocks_enc fi h e z" "block_for fi (frame_history fi (h @ z)) x b" "x \<noteq> []" "int (length x) \<le> block_limit fi"
  shows "blocks_enc fi h (e @ b) (z @ x)"
  by (rule blocks_enc_append[OF assms(1) blocks_enc_block[OF assms(2-4)]])

section \<open>The context during a frame\<close>

definition ctx_inv :: "LZ4F_frameInfo_t \<Rightarrow> int set \<Rightarrow> memory \<Rightarrow> bytes \<Rightarrow> 'h lz4_ctx \<Rightarrow> bool" where
  "ctx_inv fi K mem y ctx \<longleftrightarrow> (if blockMode fi = LZ4F_blockLinked then linked_ctx K mem y ctx else free_ctx K mem y ctx)"

lemma ctx_inv_mono: "ctx_inv fi K mem y ctx \<Longrightarrow> K \<subseteq> L \<Longrightarrow> ctx_inv fi L mem y ctx"
  by (auto simp: ctx_inv_def linked_ctx_def free_ctx_def)

lemma ctx_inv_survives: "ctx_inv fi K mem y ctx \<Longrightarrow> (\<And>p. p \<in> K \<Longrightarrow> mem' p = mem p) \<Longrightarrow> ctx_inv fi K mem' y ctx"
  unfolding ctx_inv_def using linked_writer.survives[of K mem y ctx mem'] by (auto simp: free_ctx_def)

definition frame_ok :: "LZ4F_frameInfo_t \<Rightarrow> 'h LZ4F_cctx \<Rightarrow> bool" where
  "frame_ok fi cctx \<longleftrightarrow> cStage cctx = 1 \<and> frameInfo (prefs cctx) = fi \<and> info_ok fi \<and> cmaxBlockSize cctx = block_limit fi
     \<and> fast_level (compressionLevel (prefs cctx)) \<and> ccdict cctx = None"

lemma frame_ok_fields [simp]:
  "frame_ok fi (cctx\<lparr>lz4Ctx := x\<rparr>) = frame_ok fi cctx"
  "frame_ok fi (cctx\<lparr>ctmpIn := a\<rparr>) = frame_ok fi cctx"
  "frame_ok fi (cctx\<lparr>ctmpInSize := n\<rparr>) = frame_ok fi cctx"
  "frame_ok fi (cctx\<lparr>blockCompression := m\<rparr>) = frame_ok fi cctx"
  "frame_ok fi (cctx\<lparr>cxxh := s\<rparr>) = frame_ok fi cctx"
  "frame_ok fi (cctx\<lparr>totalInSize := n\<rparr>) = frame_ok fi cctx"
  by (simp_all add: frame_ok_def)

lemma block_limit_bounds: "info_ok fi \<Longrightarrow> KB 64 \<le> block_limit fi \<and> block_limit fi \<le> KB 4096"
  using block_limit_sizes[of fi] by (auto simp: block_sizes_def)

definition mode_ok :: "LZ4F_frameInfo_t \<Rightarrow> LZ4F_blockCompression_t \<Rightarrow> bool" where
  "mode_ok fi mode \<longleftrightarrow> (blockMode fi = LZ4F_blockLinked \<longrightarrow> mode = LZ4B_COMPRESSED)"

abbreviation selected :: "'h hc_lib \<Rightarrow> 'h LZ4F_cctx \<Rightarrow> LZ4F_blockCompression_t \<Rightarrow> 'h compressFunc_t" where
  "selected hc cctx mode \<equiv> LZ4F_selectCompression hc (blockMode (frameInfo (prefs cctx))) (compressionLevel (prefs cctx)) mode"

lemma emit_ok:
  assumes f: "frame_ok fi cctx" and m: "mode_ok fi mode" and i: "ctx_inv fi K mem y (lz4Ctx cctx)" and n: "0 < n" "n \<le> block_limit fi" and s: "0 < src"
    and ap: "apart src n dst (4 + n + crc_size fi)" and aw: "away K dst (4 + n + crc_size fi)"
  shows "wp (emit_block (selected hc cctx mode) cctx mem dst src n) (\<lambda>(k, cctx', mem').
    \<exists>b ctx'. k = int (length b) \<and> cctx' = cctx\<lparr>lz4Ctx := ctx'\<rparr> \<and> block_for fi (frame_history fi y) (read_mem mem src n) b \<and> stored mem' dst b
      \<and> changes dst (4 + n + crc_size fi) mem mem' \<and> ctx_inv fi (K \<union> {src..<src + n}) mem' (y @ read_mem mem src n) ctx')"
proof -
  have fi: "frameInfo (prefs cctx) = fi" "fast_level (compressionLevel (prefs cctx))" "ccdict cctx = None" "n \<le> KB 4096"
    using f n block_limit_bounds[of fi] by (auto simp: frame_ok_def)
  have "wp (LZ4F_makeBlock mem dst src n (selected hc cctx mode) (lz4Ctx cctx) (compressionLevel (prefs cctx)) None (blockChecksumFlag fi)) (\<lambda>(k, ctx', mem').
    \<exists>b. k = int (length b) \<and> block_for fi (frame_history fi y) (read_mem mem src n) b \<and> stored mem' dst b \<and> changes dst (4 + n + crc_size fi) mem mem'
      \<and> ctx_inv fi (K \<union> {src..<src + n}) mem' (y @ read_mem mem src n) ctx')"
  proof (cases "blockMode fi = LZ4F_blockLinked")
    case True
    then have "selected hc cctx mode = LZ4F_compressBlock_continue" using m fi by (simp add: mode_ok_def LZ4F_selectCompression_def)
    then show ?thesis using linked_writer.makeBlock_ok[OF fi(2) _ n(1) fi(4) s ap aw, of mem y "lz4Ctx cctx"] i True
      by (simp add: ctx_inv_def frame_history_def)
  next
    case False
    then have ind: "blockMode fi = LZ4F_blockIndependent" by (cases "blockMode fi") auto
    show ?thesis
    proof (cases mode)
      case LZ4B_COMPRESSED
      then have "selected hc cctx mode = LZ4F_compressBlock hc" using ind fi by (simp add: LZ4F_selectCompression_def)
      then show ?thesis using free_writer.makeBlock_ok[OF fi(2) _ n(1) fi(4) s ap aw, of mem y "lz4Ctx cctx" hc] i False
        by (simp add: ctx_inv_def frame_history_def)
    next
      case LZ4B_UNCOMPRESSED
      then have "selected hc cctx mode = LZ4F_doNotCompressBlock" by (simp add: LZ4F_selectCompression_def)
      then show ?thesis using raw_writer.makeBlock_ok[OF fi(2) _ n(1) fi(4) s ap aw, of mem y "lz4Ctx cctx"] i False
        by (simp add: ctx_inv_def frame_history_def)
    qed
  qed
  then show ?thesis unfolding emit_block_def fi(1,3) wp_bind by (rule wp_mono) (simp only: split_paired_all prod.case wp_Some, blast)
qed

section \<open>The loop variables of an update\<close>

text \<open>The constants of a call: the heap, the output, the source, the memory at the start, and the content the blocks
  before the call stand for.\<close>

record cf_call =
  cf_heap :: "int set"
  cf_dst :: int
  cf_cap :: int
  cf_src :: int
  cf_size :: int
  cf_mem :: memory
  cf_done :: bytes

definition cf_source :: "cf_call \<Rightarrow> int set" where
  "cf_source c = {cf_src c..<cf_src c + cf_size c}"

definition call_clear :: "cf_call \<Rightarrow> bool" where
  "call_clear c \<longleftrightarrow> 0 \<le> cf_size c \<and> 0 < cf_src c \<and> 0 \<le> cf_cap c \<and> outside (cf_heap c) (cf_src c) (cf_size c)
     \<and> outside (cf_heap c) (cf_dst c) (cf_cap c) \<and> apart (cf_src c) (cf_size c) (cf_dst c) (cf_cap c)"

text \<open>\<open>e\<close> is what the call has written so far, \<open>y\<close> the content encoded since the start of the frame.\<close>

definition u_inv :: "cf_call \<Rightarrow> LZ4F_frameInfo_t \<Rightarrow> int set \<Rightarrow> 'h uloop \<Rightarrow> bytes \<Rightarrow> bytes \<Rightarrow> bool" where
  "u_inv c fi K u y e \<longleftrightarrow> frame_ok fi (uctx u) \<and> udst u = cf_dst c + int (length e) \<and> stored (umem u) (cf_dst c) e
     \<and> (\<exists>z. y = cf_done c @ z \<and> blocks_enc fi (cf_done c) e z)
     \<and> (\<forall>p. p \<notin> cf_heap c \<and> (p < cf_dst c \<or> cf_dst c + cf_cap c \<le> p) \<longrightarrow> umem u p = cf_mem c p)
     \<and> ctx_inv fi K (umem u) y (lz4Ctx (uctx u)) \<and> away K (cf_dst c) (cf_cap c)"

lemma u_inv_more: "u_inv c fi K u y e \<Longrightarrow> K \<subseteq> L \<Longrightarrow> away L (cf_dst c) (cf_cap c) \<Longrightarrow> u_inv c fi L u y e"
  using ctx_inv_mono by (auto simp: u_inv_def)

lemma u_inv_fields [simp]:
  "u_inv c fi K (u\<lparr>ulast := s\<rparr>) y e = u_inv c fi K u y e"
  "u_inv c fi K (u\<lparr>usrc := p\<rparr>) y e = u_inv c fi K u y e"
  by (simp_all add: u_inv_def)

lemma source_same:
  assumes c: "call_clear c" and u: "u_inv c fi K u y e" and r: "cf_src c \<le> a" "a + n \<le> cf_src c + cf_size c"
  shows "read_mem (umem u) a n = read_mem (cf_mem c) a n"
proof (rule read_mem_cong)
  fix p assume p: "a \<le> p" "p < a + n"
  then have "p \<notin> cf_heap c" using c r by (auto simp: call_clear_def outside_iff)
  moreover have "p < cf_dst c \<or> cf_dst c + cf_cap c \<le> p" using c p r by (auto simp: call_clear_def apart_def)
  ultimately show "umem u p = cf_mem c p" using u by (auto simp: u_inv_def)
qed

lemma source_away: "call_clear c \<Longrightarrow> away (cf_source c) (cf_dst c) (cf_cap c)"
  unfolding cf_source_def by (rule away_range) (simp add: call_clear_def)

text \<open>A block changes the state behind \<open>lz4CtxPtr\<close>, nothing else of the context.\<close>

definition after_block :: "'h uloop \<Rightarrow> 'h uloop \<Rightarrow> bool" where
  "after_block u u' \<longleftrightarrow> usrc u' = usrc u \<and> ulast u' = ulast u \<and> (\<exists>x. uctx u' = (uctx u)\<lparr>lz4Ctx := x\<rparr>)"

lemma update_block_ok:
  fixes u :: "'h uloop" and hc :: "'h hc_lib"
  assumes u: "u_inv c fi K u y e" and m: "mode_ok fi mode" and n: "0 < n" "n \<le> block_limit fi" and a: "0 < a" "apart a n (cf_dst c) (cf_cap c)"
    and room: "int (length e) + 4 + n + crc_size fi \<le> cf_cap c"
  shows "wp (update_block (selected hc (uctx u) mode) u a n) (\<lambda>u'. \<exists>b. after_block u u' \<and> int (length b) \<le> 4 + n + crc_size fi
      \<and> u_inv c fi (K \<union> {a..<a + n}) u' (y @ read_mem (umem u) a n) (e @ b))"
proof -
  let ?N = "4 + n + crc_size fi" and ?x = "read_mem (umem u) a n"
  have f: "frame_ok fi (uctx u)" "udst u = cf_dst c + int (length e)" "stored (umem u) (cf_dst c) e"
    "\<forall>p. p \<notin> cf_heap c \<and> (p < cf_dst c \<or> cf_dst c + cf_cap c \<le> p) \<longrightarrow> umem u p = cf_mem c p"
    "ctx_inv fi K (umem u) y (lz4Ctx (uctx u))" "away K (cf_dst c) (cf_cap c)" using u by (auto simp: u_inv_def)
  obtain z where z: "y = cf_done c @ z" "blocks_enc fi (cf_done c) e z" using u by (auto simp: u_inv_def)
  have ap: "apart a n (udst u) ?N" using a(2) f(2) room by (auto simp: apart_def)
  have aw: "away K (udst u) ?N" by (rule away_inside[OF f(6)]) (use f(2) room in auto)
  have lx: "int (length ?x) = n" "?x \<noteq> []" using n by (auto simp flip: length_greater_0_conv)
  show ?thesis unfolding update_block_def wp_bind
  proof (rule wp_mono[OF emit_ok[OF f(1) m f(5) n a(1) ap aw, of hc]], clarify)
    fix b :: bytes and ctx' :: "'h lz4_ctx" and mem'
    assume b: "block_for fi (frame_history fi y) ?x b" "stored mem' (udst u) b" "changes (udst u) ?N (umem u) mem'"
      "ctx_inv fi (K \<union> {a..<a + n}) mem' (y @ ?x) ctx'"
    have lb: "int (length b) \<le> ?N" using block_for_length[OF b(1) lx(2)] lx(1) by simp
    have "stored mem' (cf_dst c) e" by (rule stored_cong[OF f(3)]) (use b(3) f(2) in \<open>simp add: changes_def\<close>)
    then have "stored mem' (cf_dst c) (e @ b)" using b(2) f(2) by simp
    moreover have "blocks_enc fi (cf_done c) (e @ b) (z @ ?x)" using blocks_enc_snoc[OF z(2)] b(1) z(1) lx n(2) by simp
    moreover have "\<forall>p. p \<notin> cf_heap c \<and> (p < cf_dst c \<or> cf_dst c + cf_cap c \<le> p) \<longrightarrow> mem' p = cf_mem c p"
      using f(2,4) b(3) room by (auto simp: changes_def)
    moreover have "away (K \<union> {a..<a + n}) (cf_dst c) (cf_cap c)" using f(6) away_range[OF a(2)] by simp
    ultimately have "u_inv c fi (K \<union> {a..<a + n}) (u\<lparr>udst := udst u + int (length b), uctx := (uctx u)\<lparr>lz4Ctx := ctx'\<rparr>, umem := mem'\<rparr>) (y @ ?x) (e @ b)"
      using f(1,2) b(4) z(1) by (auto simp: u_inv_def)
    moreover have "after_block u (u\<lparr>udst := udst u + int (length b), uctx := (uctx u)\<lparr>lz4Ctx := ctx'\<rparr>, umem := mem'\<rparr>)"
      by (auto simp: after_block_def)
    ultimately show "wp (Some (u\<lparr>udst := udst u + int (length b), uctx := (uctx u)\<lparr>lz4Ctx := ctx'\<rparr>, umem := mem'\<rparr>))
      (\<lambda>u'. \<exists>b. after_block u u' \<and> int (length b) \<le> ?N \<and> u_inv c fi (K \<union> {a..<a + n}) u' (y @ ?x) (e @ b))"
      using lb unfolding wp_Some by blast
  qed
qed

section \<open>How much a call can write\<close>

text \<open>The blocks of \<open>t\<close> bytes at their worst.\<close>

definition worst :: "LZ4F_frameInfo_t \<Rightarrow> bool \<Rightarrow> int \<Rightarrow> int" where
  "worst fi af t = (t div block_limit fi) * (4 + block_limit fi + crc_size fi)
     + (if af \<and> t mod block_limit fi > 0 then 4 + t mod block_limit fi + crc_size fi else 0)"

lemma worst_full: "info_ok fi \<Longrightarrow> block_limit fi \<le> t \<Longrightarrow> worst fi af t = 4 + block_limit fi + crc_size fi + worst fi af (t - block_limit fi)"
proof -
  assume i: "info_ok fi" and t: "block_limit fi \<le> t"
  let ?B = "block_limit fi"
  have b: "?B \<noteq> 0" using block_limit_bounds[OF i] by auto
  obtain s where s: "t = s + ?B" by (metis diff_add_cancel)
  have d: "(s + ?B) div ?B = s div ?B + 1" "(s + ?B) mod ?B = s mod ?B" using div_add_self2[OF b, of s] by simp_all
  have m: "(s div ?B + 1) * (4 + ?B + crc_size fi) = s div ?B * (4 + ?B + crc_size fi) + (4 + ?B + crc_size fi)" by (simp add: distrib_right)
  show ?thesis unfolding worst_def s d m by simp
qed

lemma worst_small: "0 \<le> t \<Longrightarrow> t < block_limit fi \<Longrightarrow> worst fi af t = (if af \<and> 0 < t then 4 + t + crc_size fi else 0)"
  by (simp add: worst_def)

lemma worst_nonneg: "info_ok fi \<Longrightarrow> 0 \<le> t \<Longrightarrow> 0 \<le> worst fi af t"
  using block_limit_bounds[of fi] by (auto simp: worst_def crc_size_cases pos_imp_zdiv_nonneg_iff)

lemma block_mask: "info_ok fi \<Longrightarrow> and t (block_limit fi - 1) = t mod block_limit fi"
proof -
  assume "info_ok fi"
  then have "block_limit fi = 2 ^ 16 \<or> block_limit fi = 2 ^ 18 \<or> block_limit fi = 2 ^ 20 \<or> block_limit fi = 2 ^ 22"
    using block_limit_sizes[of fi] by (simp add: block_sizes_def)
  then obtain k :: nat where k: "block_limit fi = 2 ^ k" by blast
  show ?thesis unfolding k mask_eq_exp_minus_1[symmetric] take_bit_eq_mask[symmetric] by (rule take_bit_eq_mod)
qed

lemma bound_covers:
  assumes f: "frameInfo p = fi" "info_ok fi" and n: "0 \<le> n" "0 \<le> t" "t < block_limit fi" "n < 2 ^ 46"
  shows "worst fi (autoFlush p) (t + n) + 4 + content_val (contentChecksumFlag fi) * 4 \<le> LZ4F_compressBound_internal n (Some p) t"
    "n = 0 \<Longrightarrow> worst fi True t + 4 + content_val (contentChecksumFlag fi) * 4 \<le> LZ4F_compressBound_internal n (Some p) t"
    "LZ4F_compressBound_internal n (Some p) t < 2 ^ 63"
proof -
  let ?B = "block_limit fi" let ?q = "(n + t) div ?B" let ?r = "(n + t) mod ?B"
  define C where "C = 4 + content_val (contentChecksumFlag fi) * 4"
  have B: "KB 64 \<le> ?B" "?B \<le> KB 4096" "0 < ?B" using block_limit_bounds[OF f(2)] by auto
  have cv: "4 \<le> C" "C \<le> 8" by (cases "contentChecksumFlag fi"; simp add: C_def content_val_def)+
  have cs: "crc_size fi = 4 * block_val (blockChecksumFlag fi)" "0 \<le> crc_size fi" "crc_size fi \<le> 4"
    by (cases "blockChecksumFlag fi"; simp add: crc_size_def block_val_def)+
  have m: "min t (?B - 1) = t" "(n + t) mod 2 ^ 64 = n + t" using n B by auto
  have r: "0 \<le> ?r" "?r < ?B" using B by simp_all
  have q: "0 \<le> ?q" using n B by (simp add: pos_imp_zdiv_nonneg_iff)
  have "?q * 65536 \<le> ?q * ?B" using q B(1) by (intro mult_left_mono) auto
  also have "\<dots> \<le> n + t" using B(3) by (metis add.commute add_increasing div_mult_mod_eq mult.commute order_refl pos_mod_sign r(1) add_le_same_cancel1 le_add_same_cancel1)
  finally have q1: "?q < 2 ^ 31" using n B by auto
  have qB: "?q * ?B \<le> n + t" using r(1) div_mult_mod_eq[of "n + t" ?B] by linarith
  define L where "L = (if autoFlush p \<or> n = 0 then ?r else 0)"
  define N where "N = ?q + (if L > 0 then 1 else 0)"
  have L: "0 \<le> L" "L < ?B" using r by (auto simp: L_def)
  have N: "0 \<le> N" "N \<le> 2 ^ 31 + 1" "N < 2 ^ 32" using q q1 by (auto simp: N_def)
  have m2: "?q mod 2 ^ 32 = ?q" "N mod 2 ^ 32 = N" using q q1 N by (auto intro!: mod_pos_pos_trivial)
  define T where "T = (4 + crc_size fi) * N + ?B * ?q + L + C"
  have "(4 + crc_size fi) * N \<le> 8 * (2 ^ 31 + 1)" using cs N by (intro mult_mono) auto
  moreover have "0 \<le> (4 + crc_size fi) * N" using cs N by (intro mult_nonneg_nonneg) auto
  moreover have "0 \<le> ?B * ?q" using q B by (intro mult_nonneg_nonneg) auto
  moreover have "?B * ?q \<le> 2 ^ 47" using qB n B by (simp add: mult.commute)
  ultimately have "0 \<le> T \<and> T \<le> 8 * (2 ^ 31 + 1) + 2 ^ 47 + KB 4096 + 8" using L B(2) cv unfolding T_def by linarith
  moreover have "(8 * (2 ^ 31 + 1) + 2 ^ 47 + KB 4096 + 8 :: int) < 2 ^ 63" by simp
  ultimately have T: "0 \<le> T" "T < 2 ^ 63" by linarith+
  then have "T < 2 ^ 64" by simp
  with T(1) have t: "T mod 2 ^ 64 = T" by (rule mod_pos_pos_trivial)
  have "LZ4F_compressBound_internal n (Some p) t = T mod 2 ^ 64"
    unfolding LZ4F_compressBound_internal_def Let_def option.case f(1) block_limit_def[symmetric] m block_mask[OF f(2)] m2(1)
      L_def[symmetric] N_def[symmetric] m2(2) T_def C_def cs(1) by (simp add: mult.commute)
  then have v: "LZ4F_compressBound_internal n (Some p) t = T" using t by simp
  have w: "worst fi af (t + n) + C \<le> T" if "af \<longrightarrow> autoFlush p \<or> n = 0" for af
  proof (cases "af \<and> ?r > 0")
    case True
    then have "L = ?r" "N = ?q + 1" using that by (auto simp: L_def N_def)
    then show ?thesis using True unfolding T_def worst_def add.commute[of t n] by (simp add: algebra_simps)
  next
    case False
    then have "worst fi af (t + n) = ?q * (4 + ?B + crc_size fi)" by (auto simp: worst_def add.commute)
    moreover have "?q * (4 + crc_size fi) \<le> (4 + crc_size fi) * N" using cs(2) unfolding N_def by (simp add: algebra_simps)
    ultimately show ?thesis using L(1) unfolding T_def by (simp add: algebra_simps)
  qed
  show "worst fi (autoFlush p) (t + n) + 4 + content_val (contentChecksumFlag fi) * 4 \<le> LZ4F_compressBound_internal n (Some p) t"
    unfolding v using w[of "autoFlush p"] by (simp add: C_def)
  show "n = 0 \<Longrightarrow> worst fi True t + 4 + content_val (contentChecksumFlag fi) * 4 \<le> LZ4F_compressBound_internal n (Some p) t"
    unfolding v using w[of True] by (simp add: C_def)
  show "LZ4F_compressBound_internal n (Some p) t < 2 ^ 63" unfolding v by (rule T(2))
qed

section \<open>Blocks from the source\<close>

definition cf_end :: "cf_call \<Rightarrow> int" where
  "cf_end c = cf_src c + cf_size c"

lemma read_mem_join: "a \<le> b \<Longrightarrow> b \<le> d \<Longrightarrow> read_mem mem a (b - a) @ read_mem mem b (d - b) = read_mem mem a (d - a)"
  using read_mem_split[of "b - a" "d - b" mem a] by simp

lemma source_block_ok:
  fixes u :: "'h uloop" and hc :: "'h hc_lib"
  assumes c: "call_clear c" and u: "u_inv c fi K u y e" "cf_source c \<subseteq> K" and m: "mode_ok fi mode"
    and n: "0 < n" "n \<le> block_limit fi" "cf_src c \<le> usrc u" "usrc u + n \<le> cf_end c"
    and room: "int (length e) + 4 + n + crc_size fi \<le> cf_cap c"
  shows "wp (update_block (selected hc (uctx u) mode) (u\<lparr>ulast := s\<rparr>) (usrc u) n) (\<lambda>u'. \<exists>b. after_block (u\<lparr>ulast := s\<rparr>) u'
      \<and> int (length b) \<le> 4 + n + crc_size fi \<and> u_inv c fi K u' (y @ read_mem (cf_mem c) (usrc u) n) (e @ b))"
proof -
  have s: "0 < usrc u" "apart (usrc u) n (cf_dst c) (cf_cap c)" using c n apart_inside[of "cf_src c" "cf_size c" "cf_dst c" "cf_cap c" "usrc u" n]
    by (auto simp: call_clear_def cf_end_def)
  have x: "read_mem (umem u) (usrc u) n = read_mem (cf_mem c) (usrc u) n" by (rule source_same[OF c u(1)]) (use n in \<open>auto simp: cf_end_def\<close>)
  have K: "K \<union> {usrc u..<usrc u + n} = K" using u(2) n by (auto simp: cf_source_def cf_end_def)
  show ?thesis using update_block_ok[OF _ m n(1,2) s room, of K "u\<lparr>ulast := s\<rparr>" y hc] u(1) by (simp add: x K)
qed

text \<open>From \<open>u\<close> to \<open>u'\<close> the source was encoded up to \<open>usrc u'\<close>, within the bound.\<close>

definition advanced :: "cf_call \<Rightarrow> LZ4F_frameInfo_t \<Rightarrow> bool \<Rightarrow> int set \<Rightarrow> 'h uloop \<Rightarrow> bytes \<Rightarrow> bytes \<Rightarrow> 'h uloop \<Rightarrow> bytes \<Rightarrow> bool" where
  "advanced c fi af K u y e u' e' \<longleftrightarrow> u_inv c fi K u' (y @ read_mem (cf_mem c) (usrc u) (usrc u' - usrc u)) e'
     \<and> usrc u \<le> usrc u' \<and> usrc u' \<le> cf_end c
     \<and> int (length e') + worst fi af (cf_end c - usrc u') \<le> int (length e) + worst fi af (cf_end c - usrc u)
     \<and> (\<exists>x. uctx u' = (uctx u)\<lparr>lz4Ctx := x\<rparr>) \<and> (if usrc u' = usrc u then u' = u \<and> e' = e else ulast u' = fromSrcBuffer)"

lemma advanced_refl: "u_inv c fi K u y e \<Longrightarrow> usrc u \<le> cf_end c \<Longrightarrow> advanced c fi af K u y e u e"
  unfolding advanced_def by (auto simp: read_mem_def intro: exI[of _ "lz4Ctx (uctx u)"])

lemma advanced_trans:
  assumes a: "advanced c fi af K u y e v e1" and b: "advanced c fi af K v (y @ read_mem (cf_mem c) (usrc u) (usrc v - usrc u)) e1 w e2"
  shows "advanced c fi af K u y e w e2"
proof -
  note A = a[unfolded advanced_def] and B = b[unfolded advanced_def]
  obtain x1 where x1: "uctx v = (uctx u)\<lparr>lz4Ctx := x1\<rparr>" using A by blast
  obtain x2 where x2: "uctx w = (uctx v)\<lparr>lz4Ctx := x2\<rparr>" using B by blast
  have "\<exists>x. uctx w = (uctx u)\<lparr>lz4Ctx := x\<rparr>" unfolding x2 x1 by (rule exI[of _ x2]) simp
  moreover have o: "usrc u \<le> usrc v" "usrc v \<le> usrc w" "usrc w \<le> cf_end c" using A B by blast+
  moreover have "u_inv c fi K w (y @ read_mem (cf_mem c) (usrc u) (usrc w - usrc u)) e2"
    using conjunct1[OF B] read_mem_join[OF o(1,2), of "cf_mem c"] by simp
  moreover have "int (length e2) + worst fi af (cf_end c - usrc w) \<le> int (length e) + worst fi af (cf_end c - usrc u)"
    using A B by linarith
  moreover have "if usrc w = usrc u then w = u \<and> e2 = e else ulast w = fromSrcBuffer"
  proof (cases "usrc w = usrc v")
    case True
    then have "w = v" "e2 = e1" using B by simp_all
    then show ?thesis using A by simp
  next
    case False
    then have "usrc w \<noteq> usrc u" "ulast w = fromSrcBuffer" using B o by auto
    then show ?thesis by simp
  qed
  ultimately show ?thesis unfolding advanced_def by (meson order_trans)
qed

lemma advanced_block:
  assumes "after_block (u\<lparr>ulast := fromSrcBuffer\<rparr>) v" "u_inv c fi K v (y @ read_mem (cf_mem c) (usrc u) n) e'"
    and "0 < n" "usrc u + n \<le> cf_end c" "int (length e') + worst fi af (cf_end c - (usrc u + n)) \<le> int (length e) + worst fi af (cf_end c - usrc u)"
  shows "advanced c fi af K u y e (v\<lparr>usrc := usrc u + n\<rparr>) e'"
  using assms by (auto simp: advanced_def after_block_def)

lemma full_blocks_ok:
  fixes u :: "'h uloop" and hc :: "'h hc_lib"
  assumes c: "call_clear c" and m: "mode_ok fi mode" and i: "info_ok fi" and K: "cf_source c \<subseteq> K"
  shows "u_inv c fi K u y e \<Longrightarrow> cf_src c \<le> usrc u \<Longrightarrow> usrc u \<le> cf_end c \<Longrightarrow> int (length e) + worst fi af (cf_end c - usrc u) \<le> cf_cap c
    \<Longrightarrow> wp (full_blocks (selected hc (uctx u) mode) u (block_limit fi) (cf_end c)) (\<lambda>u'. cf_end c - usrc u' < block_limit fi
      \<and> (\<exists>e'. advanced c fi af K u y e u' e'))"
proof (induction "nat (cf_end c - usrc u)" arbitrary: u y e rule: less_induct)
  case less
  let ?B = "block_limit fi" and ?sel = "selected hc (uctx u) mode"
  have B: "0 < ?B" using block_limit_bounds[OF i] by simp
  then have nB: "\<not> ?B \<le> 0" by simp
  show ?case
  proof (cases "cf_end c - usrc u \<ge> ?B")
    case False
    then have "full_blocks ?sel u ?B (cf_end c) = Some u" using B by (subst full_blocks.simps) simp
    then show ?thesis using False advanced_refl[OF less.prems(1,3)] by (auto simp: wp_Some)
  next
    case True
    have w: "worst fi af (cf_end c - usrc u) = 4 + ?B + crc_size fi + worst fi af (cf_end c - (usrc u + ?B))"
      using worst_full[OF i True, of af] by (simp add: algebra_simps)
    have en: "usrc u + ?B \<le> cf_end c" using True by simp
    then have w0: "0 \<le> worst fi af (cf_end c - (usrc u + ?B))" by (intro worst_nonneg[OF i]) simp
    have room: "int (length e) + 4 + ?B + crc_size fi \<le> cf_cap c" using less.prems(4) w w0 by simp
    have eq: "full_blocks ?sel u ?B (cf_end c) = do {
       u' \<leftarrow> update_block ?sel (u\<lparr>ulast := fromSrcBuffer\<rparr>) (usrc u) ?B;
       full_blocks ?sel (u'\<lparr>usrc := usrc u + ?B\<rparr>) ?B (cf_end c) }"
      by (subst full_blocks.simps) (simp only: if_not_P[OF nB] if_P[OF True])
    show ?thesis unfolding eq wp_bind
    proof (rule wp_mono[OF source_block_ok[OF c less.prems(1) K m B order_refl less.prems(2) en room, of hc fromSrcBuffer]], elim exE conjE)
      fix u' b
      assume u': "after_block (u\<lparr>ulast := fromSrcBuffer\<rparr>) u'" and b: "int (length b) \<le> 4 + ?B + crc_size fi"
        and inv: "u_inv c fi K u' (y @ read_mem (cf_mem c) (usrc u) ?B) (e @ b)"
      let ?v = "u'\<lparr>usrc := usrc u + ?B\<rparr>"
      have ad: "advanced c fi af K u y e ?v (e @ b)" by (rule advanced_block[OF u' inv B en]) (use b w in simp)
      have v: "u_inv c fi K ?v (y @ read_mem (cf_mem c) (usrc u) (usrc ?v - usrc u)) (e @ b)" "cf_src c \<le> usrc ?v" "usrc ?v \<le> cf_end c"
        using inv less.prems(2) en B by auto
      have wr: "int (length (e @ b)) + worst fi af (cf_end c - usrc ?v) \<le> cf_cap c" using less.prems(4) w b by simp
      have sel: "selected hc (uctx ?v) mode = ?sel" using u' by (auto simp: after_block_def)
      have "nat (cf_end c - usrc ?v) < nat (cf_end c - usrc u)" using True B by simp
      from less.hyps[OF this v wr] show "wp (full_blocks ?sel ?v ?B (cf_end c)) (\<lambda>u'. cf_end c - usrc u' < ?B
          \<and> (\<exists>e'. advanced c fi af K u y e u' e'))"
        unfolding sel using advanced_trans[OF ad] by (auto elim!: wp_mono)
    qed
  qed
qed

lemma flush_rest_ok:
  fixes u :: "'h uloop" and hc :: "'h hc_lib"
  assumes c: "call_clear c" and m: "mode_ok fi mode" and i: "info_ok fi" and K: "cf_source c \<subseteq> K"
    and u: "u_inv c fi K u y e" "cf_src c \<le> usrc u" "usrc u \<le> cf_end c" "cf_end c - usrc u < block_limit fi"
    and af: "af = autoFlush (prefs (uctx u))" and w: "int (length e) + worst fi af (cf_end c - usrc u) \<le> cf_cap c"
  shows "wp (flush_rest (selected hc (uctx u) mode) u (cf_end c)) (\<lambda>u'. (af \<longrightarrow> usrc u' = cf_end c) \<and> cf_end c - usrc u' < block_limit fi
      \<and> (\<exists>e'. advanced c fi af K u y e u' e'))"
proof (cases "af \<and> usrc u < cf_end c")
  case False
  then show ?thesis using af u(3,4) advanced_refl[OF u(1,3)] by (auto simp: flush_rest_def wp_Some)
next
  case True
  let ?n = "cf_end c - usrc u"
  have wv: "worst fi af ?n = 4 + ?n + crc_size fi" using True u(4) by (simp add: worst_small)
  have n: "0 < ?n" "?n \<le> block_limit fi" "usrc u + ?n \<le> cf_end c" using True u(4) by auto
  have room: "int (length e) + 4 + ?n + crc_size fi \<le> cf_cap c" using w wv by simp
  have eq: "flush_rest (selected hc (uctx u) mode) u (cf_end c) = do {
       u \<leftarrow> update_block (selected hc (uctx u) mode) (u\<lparr>ulast := fromSrcBuffer\<rparr>) (usrc u) ?n;
       Some (u\<lparr>usrc := cf_end c\<rparr>) }" using True af by (simp add: flush_rest_def)
  show ?thesis unfolding eq wp_bind
  proof (rule wp_mono[OF source_block_ok[OF c u(1) K m n(1,2) u(2) n(3) room, of hc fromSrcBuffer]], elim exE conjE)
    fix u' b
    assume u': "after_block (u\<lparr>ulast := fromSrcBuffer\<rparr>) u'" and b: "int (length b) \<le> 4 + ?n + crc_size fi"
      and inv: "u_inv c fi K u' (y @ read_mem (cf_mem c) (usrc u) ?n) (e @ b)"
    have "advanced c fi af K u y e (u'\<lparr>usrc := usrc u + ?n\<rparr>) (e @ b)"
      by (rule advanced_block[OF u' inv n(1,3)]) (use b wv n block_limit_bounds[OF i] in \<open>simp add: worst_small\<close>)
    then show "wp (Some (u'\<lparr>usrc := cf_end c\<rparr>)) (\<lambda>u'. (af \<longrightarrow> usrc u' = cf_end c) \<and> cf_end c - usrc u' < block_limit fi
      \<and> (\<exists>e'. advanced c fi af K u y e u' e'))" using block_limit_bounds[OF i] by (auto simp: wp_Some)
  qed
qed

end
