(* ===== verification/LZ4F_Compress_Frame.thy ===== *)
theory LZ4F_Compress_Frame
  imports LZ4F_Compress_Update
begin

text \<open>
  \<open>LZ4F_compressFrame\<close>: header, blocks and end mark of a whole frame in one call. What it writes is a frame of the
  grammar \<open>frame_of\<close> for the source, and \<open>LZ4F_compressFrameBound\<close> bytes are enough.
\<close>

section \<open>The blocks\<close>

definition flushing :: "LZ4F_frameInfo_t \<Rightarrow> 'h LZ4F_cctx \<Rightarrow> bool" where
  "flushing fi cctx \<longleftrightarrow> frame_ok fi cctx \<and> autoFlush (prefs cctx) \<and> ctmpInSize cctx = 0 \<and> blockCompression cctx = LZ4B_COMPRESSED"

text \<open>What the bytes of a call stand for, and what is left of the room for the end of the frame.\<close>

definition tail_size :: "LZ4F_frameInfo_t \<Rightarrow> int" where
  "tail_size fi = 4 + content_val (contentChecksumFlag fi) * 4"

lemma source_blocks_ok:
  fixes cctx :: "'h LZ4F_cctx" and hc :: "'h hc_lib"
  assumes f: "flushing fi cctx" and i: "ctx_inv fi {src..<src + n} mem [] (lz4Ctx cctx)"
    and a: "0 \<le> n" "0 < src" "apart src n dst cap" "worst fi True n \<le> cap"
  shows "wp (update_blocks hc cctx mem dst src n True LZ4B_COMPRESSED) (\<lambda>u. \<exists>e x y. udst u = dst + int (length e)
    \<and> uctx u = cctx\<lparr>lz4Ctx := x, ctmpIn := y\<rparr> \<and> stored (umem u) dst e \<and> changes dst cap mem (umem u)
    \<and> blocks_enc fi [] e (read_mem mem src n) \<and> int (length e) \<le> worst fi True n)"
proof -
  define c where "c = \<lparr>cf_heap = {}, cf_dst = dst, cf_cap = cap, cf_src = src, cf_size = n, cf_mem = mem, cf_done = []\<rparr>"
  let ?K = "{src..<src + n}" let ?sel = "selected hc cctx LZ4B_COMPRESSED"
  define u0 where "u0 = \<lparr>usrc = src, udst = dst, ulast = notDone, uctx = cctx, umem = mem\<rparr>"
  have fo: "frame_ok fi cctx" "autoFlush (prefs cctx)" "ctmpInSize cctx = 0" using f by (auto simp: flushing_def)
  have io: "info_ok fi" and bs: "cmaxBlockSize cctx = block_limit fi" using fo(1) by (auto simp: frame_ok_def)
  have cap: "0 \<le> cap" using a(1,4) worst_nonneg[OF io a(1), of True] by simp
  have cl: "call_clear c" using a cap by (simp add: c_def call_clear_def outside_iff)
  have cc: "cf_src c = src" "cf_cap c = cap" "usrc u0 = src" by (simp_all add: c_def u0_def)
  have K: "cf_source c \<subseteq> ?K" and en: "cf_end c = src + n" by (simp_all add: c_def cf_source_def cf_end_def)
  have m: "mode_ok fi LZ4B_COMPRESSED" by (simp add: mode_ok_def)
  have "away ?K dst cap" by (rule away_range[OF a(3)])
  then have u0: "u_inv c fi ?K u0 [] []" using fo(1) i by (auto simp: u_inv_def u0_def c_def intro: blocks_enc.none)
  have w0: "int (length ([] :: bytes)) + worst fi True (cf_end c - usrc u0) \<le> cf_cap c" using a(4) by (simp add: en cc)
  have r0: "cf_src c \<le> usrc u0" "usrc u0 \<le> cf_end c" using a(1) by (simp_all add: en cc)
  have s0: "selected hc (uctx u0) LZ4B_COMPRESSED = ?sel" by (simp add: u0_def)
  obtain u1 e1 where u1: "full_blocks ?sel u0 (block_limit fi) (cf_end c) = Some u1" "cf_end c - usrc u1 < block_limit fi"
    and ad1: "advanced c fi True ?K u0 [] [] u1 e1"
    using full_blocks_ok[OF cl m io K u0 r0 w0, of hc] unfolding s0 by (auto simp: wp_iff)
  note A1 = ad1[unfolded advanced_def]
  obtain x1 where x1: "uctx u1 = cctx\<lparr>lz4Ctx := x1\<rparr>" using A1 by (auto simp: u0_def)
  then have s1: "selected hc (uctx u1) LZ4B_COMPRESSED = ?sel" "autoFlush (prefs (uctx u1))" using fo(2) by simp_all
  let ?y1 = "[] @ read_mem (cf_mem c) (usrc u0) (usrc u1 - usrc u0)"
  have i1: "u_inv c fi ?K u1 ?y1 e1" "cf_src c \<le> usrc u1" "usrc u1 \<le> cf_end c"
    "int (length e1) + worst fi True (cf_end c - usrc u1) \<le> cf_cap c"
    using A1 r0 w0 by auto
  have af: "True = autoFlush (prefs (uctx u1))" using s1(2) by simp
  obtain u2 e2 where u2: "flush_rest ?sel u1 (cf_end c) = Some u2" "usrc u2 = cf_end c" and ad2: "advanced c fi True ?K u1 ?y1 e1 u2 e2"
    using flush_rest_ok[OF cl m io K i1(1-3) u1(2) af i1(4), of hc] unfolding s1(1) by (auto simp: wp_iff)
  note A = advanced_trans[OF ad1 ad2, unfolded advanced_def]
  obtain x2 where x2: "uctx u2 = cctx\<lparr>lz4Ctx := x2\<rparr>" using A by (auto simp: u0_def)
  have inv: "u_inv c fi ?K u2 (read_mem mem src n) e2" using A u2(2) by (simp add: u0_def c_def cf_end_def)
  have le: "int (length e2) \<le> worst fi True n" using A u2(2) block_limit_bounds[OF io] by (simp add: en cc worst_small)
  obtain u3 y where u3: "keep_history hc u2 True = Some u3" "uctx u3 = cctx\<lparr>lz4Ctx := x2, ctmpIn := y\<rparr>" "usrc u3 = usrc u2" "udst u3 = udst u2" "umem u3 = umem u2"
  proof (cases "blockMode (frameInfo (prefs (uctx u2))) = LZ4F_blockLinked \<and> ulast u2 = fromSrcBuffer")
    case True
    then show ?thesis using x2 by (intro that[of "u2\<lparr>uctx := (uctx u2)\<lparr>ctmpIn := tmpBuff (uctx u2)\<rparr>\<rparr>" "tmpBuff (uctx u2)"]) (simp_all add: keep_history_def)
  next
    case False
    then have "keep_history hc u2 True = Some u2" unfolding keep_history_def Let_def using False by (simp only: if_False simp_thms)
    then show ?thesis using x2 by (intro that[of u2 "ctmpIn cctx"]) simp_all
  qed
  have af3: "autoFlush (prefs (uctx u3))" using u3(2) fo(2) by simp
  have "keep_within hc u3 = Some u3" using af3 by (simp add: keep_within_def Let_def)
  moreover have "buffer_rest u3 (cf_end c) = Some u3" using u3(3) u2(2) by (simp add: buffer_rest_def)
  moreover have "complete_tmp ?sel u0 n = Some u0" using fo(3) by (simp add: complete_tmp_def u0_def Let_def)
  ultimately have run: "update_blocks hc cctx mem dst src n True LZ4B_COMPRESSED = Some u3"
    unfolding update_blocks_def Let_def u0_def[symmetric] bs en[symmetric] using u1(1) u2(1) u3(1) by simp
  have "changes dst cap mem (umem u2)" using inv by (auto simp: u_inv_def changes_def c_def)
  moreover have "blocks_enc fi [] e2 (read_mem mem src n)" "stored (umem u2) dst e2" "udst u2 = dst + int (length e2)"
    using inv by (auto simp: u_inv_def c_def)
  ultimately show ?thesis unfolding run wp_Some using u3 le by metis
qed

section \<open>One update\<close>

lemma size_result_small: "0 \<le> n \<Longrightarrow> n < 2 ^ 63 \<Longrightarrow> size_result (n mod 2 ^ 64) = Inr n"
  by (simp add: size_result_def LZ4F_isError_def error_value_cases)

lemma update_whole_ok:
  fixes cctx :: "'h LZ4F_cctx" and hc :: "'h hc_lib"
  assumes f: "flushing fi cctx" and i: "ctx_inv fi {src..<src + n} mem [] (lz4Ctx cctx)"
    and a: "0 \<le> n" "n < 2 ^ 46" "0 < src" "apart src n dst cap" "cap < 2 ^ 63"
    and cap: "LZ4F_compressBound_internal n (Some (prefs cctx)) 0 \<le> cap"
    and x: "XXH32_holds 0 (cxxh cctx) []"
  shows "wp (LZ4F_compressUpdate hc env cctx mem dst cap src n True) (\<lambda>(r, cctx', mem'). \<exists>e. r = Inr (int (length e)) \<and> stored mem' dst e
    \<and> changes dst cap mem mem' \<and> blocks_enc fi [] e (read_mem mem src n)
    \<and> int (length e) + tail_size fi \<le> LZ4F_compressBound_internal n (Some (prefs cctx)) 0
    \<and> frame_ok fi cctx' \<and> ctmpInSize cctx' = 0 \<and> totalInSize cctx' = (totalInSize cctx + n) mod 2 ^ 64
    \<and> (contentChecksumFlag fi = LZ4F_contentChecksumEnabled \<longrightarrow> XXH32_holds 0 (cxxh cctx') (read_mem mem src n)))"
proof -
  have fo: "frame_ok fi cctx" "autoFlush (prefs cctx)" "ctmpInSize cctx = 0" "blockCompression cctx = LZ4B_COMPRESSED" using f by (auto simp: flushing_def)
  have io: "info_ok fi" "frameInfo (prefs cctx) = fi" "cStage cctx = 1" using fo(1) by (auto simp: frame_ok_def)
  have "0 < block_limit fi" using block_limit_bounds[OF io(1)] by simp
  then have w: "worst fi True n + tail_size fi \<le> LZ4F_compressBound_internal n (Some (prefs cctx)) 0"
    using bound_covers(1)[OF io(2,1) a(1) order_refl _ a(2)] fo(2) by (simp add: tail_size_def)
  have ts: "4 \<le> tail_size fi" by (cases "contentChecksumFlag fi") (simp_all add: tail_size_def content_val_def)
  have wc: "worst fi True n \<le> cap" using w ts cap by simp
  obtain u e x1 y where u: "update_blocks hc cctx mem dst src n True LZ4B_COMPRESSED = Some u" "udst u = dst + int (length e)"
    "uctx u = cctx\<lparr>lz4Ctx := x1, ctmpIn := y\<rparr>" "stored (umem u) dst e" "changes dst cap mem (umem u)"
    "blocks_enc fi [] e (read_mem mem src n)" "int (length e) \<le> worst fi True n"
    using source_blocks_ok[OF f i a(1,3,4) wc, of hc] by (auto simp: wp_iff)
  have src: "read_mem (umem u) src n = read_mem mem src n" by (rule changes_read[OF u(5) a(4)])
  obtain h where h: "(if contentChecksumFlag fi = LZ4F_contentChecksumEnabled
       then checksum_update (cmachine env) (cxxh cctx) (read_mem mem src n) else Some (cxxh cctx)) = Some h"
    "contentChecksumFlag fi = LZ4F_contentChecksumEnabled \<longrightarrow> XXH32_holds 0 h (read_mem mem src n)"
    using checksum_update_ok[OF x, of "cmachine env" "read_mem mem src n"] by (cases "contentChecksumFlag fi = LZ4F_contentChecksumEnabled") auto
  let ?r = "cctx\<lparr>lz4Ctx := x1, ctmpIn := y, cxxh := h, totalInSize := (totalInSize cctx + n) mod 2 ^ 64\<rparr>"
  have d: "udst u - dst = int (length e)" using u(2) by simp
  have "size_result ((udst u - dst) mod 2 ^ 64) = Inr (int (length e))" unfolding d
    by (rule size_result_small) (use u(7) wc a(5) in auto)
  moreover have "switch_mode hc LZ4B_COMPRESSED cctx mem dst cap = Some (dst, cctx, mem)" using fo(4) by (simp add: switch_mode_def)
  moreover have "cap \<ge> LZ4F_compressBound_internal n (Some (prefs cctx)) (ctmpInSize cctx)" using cap fo(3) by simp
  ultimately have run: "LZ4F_compressUpdate hc env cctx mem dst cap src n True = Some (Inr (int (length e)), ?r, umem u)"
    using io(2,3) u(1,3) h(1) src
    by (cases "contentChecksumFlag fi = LZ4F_contentChecksumEnabled") (simp_all add: LZ4F_compressUpdate_def LZ4F_compressUpdateImpl_def not_less Let_def)
  have "frame_ok fi ?r" using fo(1) by simp
  then show ?thesis unfolding run wp_Some prod.case using u(4-7) w h(2) fo(3) by (intro exI[of _ e]) simp
qed

section \<open>The end of the frame\<close>

lemma write_mem_append: "write_mem (write_mem mem a xs) (a + int (length xs)) ys = write_mem mem a (xs @ ys)"
proof
  fix p
  have "nat (p - (a + int (length xs))) = nat (p - a) - length xs" if "a + int (length xs) \<le> p" using that by linarith
  moreover have "nat (p - a) < length xs \<longleftrightarrow> p < a + int (length xs)" if "a \<le> p" using that by linarith
  ultimately show "write_mem (write_mem mem a xs) (a + int (length xs)) ys p = write_mem mem a (xs @ ys) p"
    by (auto simp: write_mem_def nth_append)
qed

lemma end_ok:
  assumes f: "frame_ok fi cctx" "ctmpInSize cctx = 0" and cap: "tail_size fi \<le> cap" "cap < 2 ^ 63"
    and x: "contentChecksumFlag fi = LZ4F_contentChecksumEnabled \<longrightarrow> XXH32_holds 0 (cxxh cctx) y"
    and n: "contentSize fi \<noteq> 0 \<longrightarrow> contentSize fi = totalInSize cctx"
  shows "\<exists>cctx'. LZ4F_compressEnd hc env cctx mem dst cap
    = Some (Inr (int (length (LZ4F_writeLE32 0 @ content_crc fi y))), cctx', write_mem mem dst (LZ4F_writeLE32 0 @ content_crc fi y))"
proof -
  have io: "frameInfo (prefs cctx) = fi" using f by (simp add: frame_ok_def)
  have fl: "LZ4F_flush hc cctx mem dst cap = Some (Inr 0, cctx, mem)" using f(2) by (simp add: LZ4F_flush_def)
  have c4: "4 \<le> cap" "contentChecksumFlag fi = LZ4F_contentChecksumEnabled \<longrightarrow> 8 \<le> cap"
    using cap(1) by (cases "contentChecksumFlag fi"; simp add: tail_size_def content_val_def)+
  have us: "usub cap 0 = cap" using c4 cap(2) by (simp add: usub_diff)
  have crc: "(if contentChecksumFlag fi = LZ4F_contentChecksumEnabled then do {
                  xxh \<leftarrow> XXH32_digest (cmachine env) (cxxh cctx); Some (LZ4F_writeLE32 xxh) } else Some []) = Some (content_crc fi y)"
    using x digest_ok[of "cxxh cctx" y "cmachine env"] by (auto simp: crc_field_def)
  have w: "write_mem (write_mem mem dst (LZ4F_writeLE32 0)) (dst + 4) (content_crc fi y) = write_mem mem dst (LZ4F_writeLE32 0 @ content_crc fi y)"
    using write_mem_append[of mem dst "LZ4F_writeLE32 0" "content_crc fi y"] by simp
  show ?thesis
  proof (cases "contentChecksumFlag fi = LZ4F_contentChecksumEnabled")
    case True
    then obtain x where "XXH32_digest (cmachine env) (cxxh cctx) = Some x" "LZ4F_writeLE32 x = content_crc fi y"
      using crc by (cases "XXH32_digest (cmachine env) (cxxh cctx)") auto
    then show ?thesis using True n fl c4 us w by (auto simp: LZ4F_compressEnd_def io Let_def not_less)
  next
    case False
    then show ?thesis using n fl c4 us w crc by (auto simp: LZ4F_compressEnd_def io Let_def not_less)
  qed
qed

section \<open>The start of the frame\<close>

text \<open>The block size that \<open>LZ4F_compressBegin\<close> takes for the default, and what preferences may hold. The compressors of
  \<open>lz4hc.c\<close> are those of the levels from 3.\<close>

definition begun_info :: "LZ4F_frameInfo_t \<Rightarrow> LZ4F_frameInfo_t" where
  "begun_info fi = (if blockSizeID fi = 0 then fi\<lparr>blockSizeID := LZ4F_max64KB\<rparr> else fi)"

definition prefs_ok :: "LZ4F_preferences_t \<Rightarrow> bool" where
  "prefs_ok p \<longleftrightarrow> info_ok (begun_info (frameInfo p)) \<and> fast_level (compressionLevel p)"

definition stack_ctx :: "'h LZ4F_cctx" where
  "stack_ctx = LZ4F_createCompressionContext\<lparr>cmaxBufferSize := 5 * KB 1024, lz4Ctx := Fast_ctx LZ4_initStream, lz4CtxAlloc := 1, lz4CtxState := 1\<rparr>"

lemma begin_ok:
  fixes hc :: "'h hc_lib"
  assumes p: "prefs_ok p" "autoFlush p" and cap: "19 \<le> cap"
  defines "fi \<equiv> begun_info (frameInfo p)"
  shows "\<exists>cctx'. LZ4F_compressBegin_usingCDict hc env stack_ctx mem dst cap None (Some p)
      = Some (Inr (header_len fi), cctx', write_mem mem dst (header_of fi))
    \<and> flushing fi cctx' \<and> totalInSize cctx' = 0 \<and> XXH32_holds 0 (cxxh cctx') [] \<and> (\<forall>K mem. ctx_inv fi K mem [] (lz4Ctx cctx'))
    \<and> prefs cctx' = p\<lparr>frameInfo := fi\<rparr>"
proof -
  have lv: "compressionLevel p < 3" and io: "info_ok fi" using p by (simp_all add: prefs_ok_def fi_def)
  let ?c0 = "(stack_ctx :: 'h LZ4F_cctx)\<lparr>prefs := p\<rparr>"
  have c: "prepare_ctx hc env ?c0 = Inr ?c0" using lv by (simp add: prepare_ctx_def stack_ctx_def ctxTypeID_to_size_def Let_def)
  let ?c1 = "?c0\<lparr>prefs := p\<lparr>frameInfo := fi\<rparr>, cmaxBlockSize := block_limit fi\<rparr>"
  have t: "prepare_tmp env ?c1 mem = (Inr ?c1, mem)" using p(2) by (simp add: prepare_tmp_def stack_ctx_def Let_def)
  define ctx :: "'h lz4_ctx" where "ctx = Fast_ctx (if blockMode fi = LZ4F_blockLinked then (LZ4_resetStream_fast LZ4_initStream)\<lparr>dictCtx := None\<rparr> else LZ4_initStream)"
  have x: "(if blockMode fi = LZ4F_blockLinked then LZ4F_initStream hc (Fast_ctx LZ4_initStream) None (compressionLevel p) LZ4F_blockLinked
      else Some (Fast_ctx LZ4_initStream)) = Some ctx"
    using lv by (simp add: ctx_def LZ4F_initStream_def LZ4_attach_dictionary_def)
  have r: "reusable ((LZ4_resetStream_fast LZ4_initStream)\<lparr>dictCtx := None\<rparr>)" "cdictSize (LZ4_resetStream_fast LZ4_initStream) = 0"
    using resetStream_fast_reusable[OF initStream_reusable] by (auto simp: reusable_def cs_wf_def)
  have inv: "ctx_inv fi K m [] ctx" for K m
    using r initStream_reusable by (auto simp: ctx_inv_def linked_ctx_def free_ctx_def ctx_def read_mem_def)
  let ?r = "?c1\<lparr>ctmpIn := 0, ctmpInSize := 0, cxxh := XXH32_reset 0, ccdict := None, lz4Ctx := ctx, totalInSize := 0, cStage := 1\<rparr>"
  have run: "begin_frame hc env ?c1 mem dst None = Some (Inr (header_len fi), ?r, write_mem mem dst (header_of fi))"
    using lv x by (cases "blockMode fi = LZ4F_blockLinked")
      (simp_all add: begin_frame_def stack_ctx_def LZ4F_createCompressionContext_def write_header_value length_header Let_def)
  have "LZ4F_compressBegin_usingCDict hc env stack_ctx mem dst cap None (Some p) = Some (Inr (header_len fi), ?r, write_mem mem dst (header_of fi))"
    using cap c t run by (simp add: LZ4F_compressBegin_usingCDict_def fi_def begun_info_def block_limit_def Let_def)
  moreover have "flushing fi ?r" using io lv p(2) by (simp add: flushing_def frame_ok_def stack_ctx_def LZ4F_createCompressionContext_def)
  ultimately show ?thesis using inv reset_holds by (intro exI[of _ ?r]) simp
qed

section \<open>The parameters of a whole frame\<close>

definition given_prefs :: "LZ4F_preferences_t option \<Rightarrow> LZ4F_preferences_t" where
  "given_prefs pp = (case pp of None \<Rightarrow> LZ4F_INIT_PREFERENCES | Some p \<Rightarrow> p)"

text \<open>What the header of the frame says.\<close>

definition written_info :: "LZ4F_preferences_t option \<Rightarrow> int \<Rightarrow> LZ4F_frameInfo_t" where
  "written_info pp n = begun_info (frameInfo (frame_prefs pp n))"

lemma optimalBSID_cases:
  assumes "b = 0 \<or> 4 \<le> b \<and> b \<le> 7"
  shows "LZ4F_optimalBSID b n = b \<or> 4 \<le> LZ4F_optimalBSID b n \<and> LZ4F_optimalBSID b n \<le> b \<and> n \<le> 2 ^ (8 + 2 * nat (LZ4F_optimalBSID b n))"
proof (cases "b = 0")
  case True
  then show ?thesis by (simp add: LZ4F_optimalBSID_def optimal_loop.simps[of 0])
next
  case False
  then show ?thesis using assms optimal_loop_ok[of 4 b "KB 64" n] by (auto simp: LZ4F_optimalBSID_def Let_def)
qed

lemma info_id: "info_ok (begun_info fi) \<Longrightarrow> blockSizeID fi = 0 \<or> 4 \<le> blockSizeID fi \<and> blockSizeID fi \<le> 7"
  by (auto simp: begun_info_def info_ok_def split: if_splits)

lemma frame_prefs_ok:
  assumes p: "prefs_ok (given_prefs pp)" and n: "0 \<le> n" "n < 2 ^ 64"
  shows "prefs_ok (frame_prefs pp n)" "autoFlush (frame_prefs pp n)"
    "contentSize (written_info pp n) = (if contentSize (frameInfo (given_prefs pp)) = 0 then 0 else n)"
proof -
  let ?fi = "frameInfo (given_prefs pp)" and ?b = "LZ4F_optimalBSID (blockSizeID (frameInfo (given_prefs pp))) n"
  have io: "info_ok (begun_info ?fi)" using p by (simp add: prefs_ok_def)
  have "?b = 0 \<or> 4 \<le> ?b \<and> ?b \<le> 7" using optimalBSID_cases[OF info_id[OF io], of n] info_id[OF io] by auto
  then show "prefs_ok (frame_prefs pp n)"
    using p n by (auto simp: prefs_ok_def frame_prefs_def given_prefs_def[symmetric] begun_info_def info_ok_def Let_def split: if_splits)
  show "autoFlush (frame_prefs pp n)" by (simp add: frame_prefs_def Let_def)
  show "contentSize (written_info pp n) = (if contentSize ?fi = 0 then 0 else n)"
    by (simp add: written_info_def frame_prefs_def given_prefs_def[symmetric] begun_info_def Let_def)
qed

text \<open>The bound does not depend on what \<open>LZ4F_compressFrame\<close> changes of the preferences: a smaller block size is chosen only when
  the source is one block of either size.\<close>

lemma one_block_bound:
  assumes f: "frameInfo p = fi" "info_ok fi" and n: "0 \<le> n" "n \<le> block_limit fi"
  shows "LZ4F_compressBound_internal n (Some (p\<lparr>autoFlush := True\<rparr>)) 0
    = (if n = 0 then 0 else 4 + crc_size fi + n) + 4 + content_val (contentChecksumFlag fi) * 4"
proof -
  let ?B = "block_limit fi"
  have B: "KB 64 \<le> ?B" "?B \<le> KB 4096" using block_limit_bounds[OF f(2)] by auto
  define C where "C = 4 + content_val (contentChecksumFlag fi) * 4"
  have cs: "4 + 4 * block_val (blockChecksumFlag fi) = 4 + crc_size fi" "0 \<le> crc_size fi" "crc_size fi \<le> 4"
    by (cases "blockChecksumFlag fi"; simp add: crc_size_def block_val_def)+
  have cv: "0 \<le> C" "C \<le> 8" by (cases "contentChecksumFlag fi"; simp add: C_def content_val_def)+
  have m: "min 0 (?B - 1) = 0" "(n + 0) mod 2 ^ 64 = n" using n B by auto
  have q: "frameInfo (p\<lparr>autoFlush := True\<rparr>) = fi" "autoFlush (p\<lparr>autoFlush := True\<rparr>) = True" using f(1) by simp_all
  have v: "LZ4F_compressBound_internal n (Some (p\<lparr>autoFlush := True\<rparr>)) 0
    = ((4 + crc_size fi) * (((n div ?B) mod 2 ^ 32 + (if n mod ?B > 0 then 1 else 0)) mod 2 ^ 32) + ?B * ((n div ?B) mod 2 ^ 32) + n mod ?B + C) mod 2 ^ 64"
    unfolding LZ4F_compressBound_internal_def Let_def option.case q block_limit_def[symmetric] m
      block_mask[OF f(2)] cs(1) C_def simp_thms if_True ..
  have t: "(k * (4 + crc_size fi) + n + C) mod 2 ^ 64 = k * (4 + crc_size fi) + n + C" if "k = 0 \<or> k = 1" for k :: int
    using that n B cs cv by (intro mod_pos_pos_trivial) auto
  consider "n = 0" | "n = ?B" | "0 < n" "n < ?B" using n by linarith
  then show ?thesis
  proof cases
    case 1
    then show ?thesis using t[of 0] unfolding v C_def by simp
  next
    case 2
    then have "n div ?B = 1" "n mod ?B = 0" "n \<noteq> 0" using B by auto
    then show ?thesis using t[of 1] 2 unfolding v C_def by simp
  next
    case 3
    then have "n div ?B = 0" "n mod ?B = n" by auto
    then show ?thesis using t[of 1] 3 unfolding v C_def by simp
  qed
qed

lemma bound_cong:
  assumes "LZ4F_getBlockSize (blockSizeID (frameInfo p)) = LZ4F_getBlockSize (blockSizeID (frameInfo q))"
    "blockChecksumFlag (frameInfo p) = blockChecksumFlag (frameInfo q)"
    "contentChecksumFlag (frameInfo p) = contentChecksumFlag (frameInfo q)" "autoFlush p = autoFlush q"
  shows "LZ4F_compressBound_internal n (Some p) t = LZ4F_compressBound_internal n (Some q) t"
  unfolding LZ4F_compressBound_internal_def Let_def option.case assms ..

lemma begun_same: "LZ4F_getBlockSize (blockSizeID (begun_info fi)) = LZ4F_getBlockSize (blockSizeID fi)"
  "blockChecksumFlag (begun_info fi) = blockChecksumFlag fi" "contentChecksumFlag (begun_info fi) = contentChecksumFlag fi"
  by (auto simp: begun_info_def LZ4F_getBlockSize_def)

lemma limit_value: "info_ok fi \<Longrightarrow> block_limit fi = 2 ^ (8 + 2 * nat (blockSizeID fi))"
proof -
  assume "info_ok fi"
  then have "blockSizeID fi = 4 \<or> blockSizeID fi = 5 \<or> blockSizeID fi = 6 \<or> blockSizeID fi = 7" by (auto simp: info_ok_def)
  then show ?thesis by (auto simp: block_limit_def LZ4F_getBlockSize_def as_size_t_def)
qed

lemma frame_bound_same:
  assumes p: "prefs_ok (given_prefs pp)" and n: "0 \<le> n" "n < 2 ^ 64"
  shows "LZ4F_compressBound_internal n (Some (frame_prefs pp n)) 0 = LZ4F_compressBound_internal n (Some ((given_prefs pp)\<lparr>autoFlush := True\<rparr>)) 0"
proof -
  let ?p = "given_prefs pp" let ?q = "frame_prefs pp n" let ?fi = "begun_info (frameInfo ?p)" let ?b = "LZ4F_optimalBSID (blockSizeID (frameInfo ?p)) n"
  have io: "info_ok ?fi" "info_ok (written_info pp n)" using p frame_prefs_ok(1)[OF p n] by (simp_all add: prefs_ok_def written_info_def)
  have same: "blockChecksumFlag (frameInfo ?q) = blockChecksumFlag (frameInfo ?p)" "contentChecksumFlag (frameInfo ?q) = contentChecksumFlag (frameInfo ?p)"
    "blockSizeID (frameInfo ?q) = ?b" "autoFlush ?q"
    by (simp_all add: frame_prefs_def given_prefs_def[symmetric] Let_def)
  consider "?b = blockSizeID (frameInfo ?p)" | "4 \<le> ?b" "?b \<le> blockSizeID (frameInfo ?p)" "n \<le> 2 ^ (8 + 2 * nat ?b)"
    using optimalBSID_cases[OF info_id[OF io(1)], of n] by blast
  then show ?thesis
  proof cases
    case 1
    then show ?thesis using same by (intro bound_cong) simp_all
  next
    case 2
    then have b: "blockSizeID (written_info pp n) = ?b" "blockSizeID ?fi = blockSizeID (frameInfo ?p)"
      using same(3) by (simp_all add: written_info_def begun_info_def)
    have l1: "n \<le> block_limit (written_info pp n)" using 2(3) limit_value[OF io(2)] b(1) by simp
    have "block_limit (written_info pp n) \<le> block_limit ?fi"
      unfolding limit_value[OF io(1)] limit_value[OF io(2)] b by (rule power_increasing) (use 2 in auto)
    then have l2: "n \<le> block_limit ?fi" using l1 by simp
    have "LZ4F_compressBound_internal n (Some ?q) 0 = LZ4F_compressBound_internal n (Some (?q\<lparr>frameInfo := written_info pp n, autoFlush := True\<rparr>)) 0"
      using same(4) by (intro bound_cong) (simp_all add: written_info_def begun_same)
    also have "\<dots> = LZ4F_compressBound_internal n (Some (?p\<lparr>frameInfo := ?fi, autoFlush := True\<rparr>)) 0"
      using one_block_bound[OF refl _ n(1), of "?q\<lparr>frameInfo := written_info pp n\<rparr>"] one_block_bound[OF refl _ n(1), of "?p\<lparr>frameInfo := ?fi\<rparr>"]
        io l1 l2 same(1,2) by (simp add: crc_size_def written_info_def begun_same)
    also have "\<dots> = LZ4F_compressBound_internal n (Some (?p\<lparr>autoFlush := True\<rparr>)) 0"
      by (intro bound_cong) (simp_all add: begun_same)
    finally show ?thesis .
  qed
qed

section \<open>A whole frame\<close>

text \<open>The call: the preferences are valid, the source is readable and apart from the output.\<close>

definition frame_call :: "LZ4F_preferences_t option \<Rightarrow> int \<Rightarrow> int \<Rightarrow> int \<Rightarrow> int \<Rightarrow> bool" where
  "frame_call pp dst cap src n \<longleftrightarrow> prefs_ok (given_prefs pp) \<and> 0 \<le> n \<and> n < 2 ^ 46 \<and> 0 < src \<and> apart src n dst cap \<and> cap < 2 ^ 63"

lemma frame_bound_value:
  assumes p: "prefs_ok (given_prefs pp)" and n: "0 \<le> n" "n < 2 ^ 46"
  defines "b \<equiv> LZ4F_compressBound_internal n (Some (frame_prefs pp n)) 0"
  shows "LZ4F_compressFrameBound n pp = 19 + b" "LZ4F_compressFrameBound n (Some (frame_prefs pp n)) = 19 + b" "0 \<le> b"
proof -
  have n64: "n < 2 ^ 64" using n by simp
  have io: "info_ok (written_info pp n)" using frame_prefs_ok(1)[OF p n(1) n64] by (simp add: prefs_ok_def written_info_def)
  let ?w = "(frame_prefs pp n)\<lparr>frameInfo := written_info pp n\<rparr>"
  have w: "LZ4F_compressBound_internal n (Some ?w) 0 = b" unfolding b_def by (rule bound_cong) (simp_all add: written_info_def begun_same)
  have B: "0 < block_limit (written_info pp n)" using block_limit_bounds[OF io] by simp
  have "b < 2 ^ 63" using bound_covers(3)[OF _ io n(1) order_refl B n(2), of ?w] w by simp
  moreover have "0 \<le> b" unfolding b_def LZ4F_compressBound_internal_def Let_def by (rule pos_mod_sign) (rule zero_less_power, simp only: zero_less_numeral)
  ultimately have m: "(19 + b) mod 2 ^ 64 = 19 + b" by simp
  have af: "(frame_prefs pp n)\<lparr>autoFlush := True\<rparr> = frame_prefs pp n" by (simp add: frame_prefs_def Let_def)
  show "LZ4F_compressFrameBound n (Some (frame_prefs pp n)) = 19 + b" using m by (simp add: LZ4F_compressFrameBound_def af b_def)
  show "LZ4F_compressFrameBound n pp = 19 + b"
    using m frame_bound_same[OF p n(1) n64] by (simp add: LZ4F_compressFrameBound_def given_prefs_def[symmetric] b_def)
  show "0 \<le> b" by fact
qed

lemma header_len_bounds: "7 \<le> header_len fi" "header_len fi \<le> 19"
  by (simp_all add: header_len_def)

text \<open>The three pieces of the output make a frame.\<close>

lemma frame_assembled:
  assumes a: "apart src n dst cap" "19 \<le> cap" and e: "stored mem2 (dst + header_len fi) e"
      "changes (dst + header_len fi) (cap - header_len fi) (write_mem mem dst (header_of fi)) mem2"
    and t: "header_len fi + int (length e) + int (length t) \<le> cap"
  defines "mem3 \<equiv> write_mem mem2 (dst + (header_len fi + int (length e))) t"
  shows "stored mem3 dst (header_of fi @ e @ t)" "changes dst cap mem mem3"
proof -
  let ?h = "header_len fi" and ?mem1 = "write_mem mem dst (header_of fi)"
  have hl: "int (length (header_of fi)) = ?h" by (rule length_header)
  note hb = header_len_bounds[of fi]
  have "stored ?mem1 dst (header_of fi)" by (rule stored_write)
  then have "stored mem2 dst (header_of fi)" by (rule stored_cong) (use e(2) hl in \<open>simp add: changes_def\<close>)
  then have "stored mem2 dst (header_of fi @ e)" using e(1) hl by simp
  then have "stored mem3 dst ((header_of fi @ e) @ t)" unfolding mem3_def by (rule stored_extend) (use hl in simp)
  then show "stored mem3 dst (header_of fi @ e @ t)" by simp
  have "changes dst cap mem ?mem1" by (rule changes_write) (use hl hb a(2) in auto)
  then have "changes dst cap mem mem2" using changes_wider[OF e(2), of dst cap] hb changes_trans by simp
  then show "changes dst cap mem mem3" unfolding mem3_def by (rule changes_trans) (rule changes_write, use hb t in auto)
qed

lemma stack_ctx_value:
  assumes "prefs_ok (given_prefs pp)"
  shows "LZ4F_compressFrame hc env mem dst cap src n pp = do {
    (r, cctx, mem) \<leftarrow> LZ4F_compressFrame_usingCDict hc env stack_ctx mem dst cap src n None pp;
    Some (r, mem) }"
proof -
  have lv: "(case pp of None \<Rightarrow> 0 | Some p \<Rightarrow> compressionLevel p) < LZ4HC_CLEVEL_MIN"
    using assms by (auto simp: prefs_ok_def given_prefs_def split: option.splits)
  show ?thesis by (simp only: LZ4F_compressFrame_def Let_def if_P[OF lv] stack_ctx_def[symmetric])
qed

lemma compressFrame_ok:
  fixes hc :: "'h hc_lib"
  assumes c: "frame_call pp dst cap src n" and room: "LZ4F_compressFrameBound n pp \<le> cap"
  shows "\<exists>f mem'. LZ4F_compressFrame hc env mem dst cap src n pp = Some (Inr (int (length f)), mem')
    \<and> frame_of (written_info pp n) f (read_mem mem src n) \<and> stored mem' dst f \<and> changes dst cap mem mem'
    \<and> int (length f) \<le> LZ4F_compressFrameBound n pp"
proof -
  let ?P = "frame_prefs pp n" let ?fi = "written_info pp n" let ?x = "read_mem mem src n" let ?h = "header_len (written_info pp n)"
  let ?mem1 = "write_mem mem dst (header_of ?fi)" and ?B = "LZ4F_compressBound_internal n (Some ?P) 0"
  have p: "prefs_ok (given_prefs pp)" and a: "0 \<le> n" "n < 2 ^ 46" "0 < src" "apart src n dst cap" "cap < 2 ^ 63"
    using c by (simp_all add: frame_call_def)
  have n64: "n < 2 ^ 64" "int (length ?x) = n" using a by auto
  note P = frame_prefs_ok[OF p a(1) n64(1)] and bd = frame_bound_value[OF p a(1,2)] and hb = header_len_bounds[of ?fi]
  have cap: "19 + ?B \<le> cap" "19 \<le> cap" using room bd(1,3) by simp_all
  obtain c1 :: "'h LZ4F_cctx" where b: "LZ4F_compressBegin_usingCDict hc env stack_ctx mem dst cap None (Some ?P) = Some (Inr ?h, c1, ?mem1)"
    and c1: "flushing ?fi c1" "totalInSize c1 = 0" "XXH32_holds 0 (cxxh c1) []" "\<And>K mem. ctx_inv ?fi K mem [] (lz4Ctx c1)" "prefs c1 = ?P\<lparr>frameInfo := ?fi\<rparr>"
    using begin_ok[OF P(1,2) cap(2), of hc env mem dst] by (auto simp: written_info_def)
  have ap: "apart src n (dst + ?h) (cap - ?h)" using a(4) hb by (auto simp: apart_def)
  have "changes dst cap mem ?mem1" by (rule changes_write) (use length_header(2)[of ?fi] hb cap in auto)
  then have x1: "read_mem ?mem1 src n = ?x" by (rule changes_read[OF _ a(4)])
  have bd1: "LZ4F_compressBound_internal n (Some (prefs c1)) 0 = ?B"
    unfolding c1(5) by (rule bound_cong) (simp_all add: written_info_def begun_same)
  have r1: "LZ4F_compressBound_internal n (Some (prefs c1)) 0 \<le> cap - ?h" "cap - ?h < 2 ^ 63" using bd1 cap hb a(5) by simp_all
  obtain e c2 mem2 where u: "LZ4F_compressUpdate hc env c1 ?mem1 (dst + ?h) (cap - ?h) src n True = Some (Inr (int (length e)), c2, mem2)"
    and e: "stored mem2 (dst + ?h) e" "changes (dst + ?h) (cap - ?h) ?mem1 mem2" "blocks_enc ?fi [] e ?x" "int (length e) + tail_size ?fi \<le> ?B"
    and c2: "frame_ok ?fi c2" "ctmpInSize c2 = 0" "totalInSize c2 = n" "contentChecksumFlag ?fi = LZ4F_contentChecksumEnabled \<longrightarrow> XXH32_holds 0 (cxxh c2) ?x"
    using update_whole_ok[OF c1(1) c1(4) a(1-3) ap r1(2,1) c1(3), of hc env ?mem1] c1(2) n64(1) a(1) unfolding x1 bd1 by (auto simp: wp_iff)
  let ?t = "LZ4F_writeLE32 0 @ content_crc ?fi ?x" let ?f = "header_of ?fi @ e @ ?t"
  have lf: "int (length ?t) = tail_size ?fi" by (simp add: tail_size_def content_val_def split: LZ4F_contentChecksum_t.splits)
  have r2: "tail_size ?fi \<le> cap - (?h + int (length e))" "cap - (?h + int (length e)) < 2 ^ 63" using e(4) cap hb a(5) by simp_all
  have cs: "contentSize ?fi \<noteq> 0 \<longrightarrow> contentSize ?fi = n" "contentSize ?fi \<noteq> 0 \<longrightarrow> contentSize ?fi = totalInSize c2" using P(3) c2(3) by simp_all
  define mem3 where "mem3 = write_mem mem2 (dst + (?h + int (length e))) ?t"
  obtain c3 where en: "LZ4F_compressEnd hc env c2 mem2 (dst + (?h + int (length e))) (cap - (?h + int (length e))) = Some (Inr (int (length ?t)), c3, mem3)"
    using end_ok[OF c2(1,2) r2 c2(4) cs(2), of hc env mem2 "dst + (?h + int (length e))"] by (auto simp: mem3_def)
  have len: "int (length ?f) = ?h + int (length e) + int (length ?t)" using length_header(2)[of ?fi] by simp
  have "LZ4F_compressFrame_usingCDict hc env stack_ctx mem dst cap src n None pp = Some (Inr (int (length ?f)), c3, mem3)"
    using cap(1) bd(2) b u en unfolding LZ4F_compressFrame_usingCDict_def Let_def by (simp add: not_less len algebra_simps del: length_append)
  then have run: "LZ4F_compressFrame hc env mem dst cap src n pp = Some (Inr (int (length ?f)), mem3)" unfolding stack_ctx_value[OF p] by simp
  have io: "info_ok ?fi" using c2(1) by (simp add: frame_ok_def)
  then have "frame_of ?fi ?f ?x" using cs(1) e(3) n64(2) unfolding frame_of_def by (auto simp del: length_append)
  moreover have "int (length ?f) \<le> LZ4F_compressFrameBound n pp" using len lf e(4) hb bd(1) by simp
  moreover have "stored mem3 dst ?f" "changes dst cap mem mem3"
    unfolding mem3_def using frame_assembled[OF a(4) cap(2) e(1,2), of ?t] len lf e(4) hb cap by simp_all
  ultimately show ?thesis using run by blast
qed

lemma compressFrame_small:
  assumes "frame_call pp dst cap src n" "cap < LZ4F_compressFrameBound n pp"
  shows "LZ4F_compressFrame hc env mem dst cap src n pp = Some (Inl ERROR_dstMaxSize_tooSmall, mem)"
proof -
  have p: "prefs_ok (given_prefs pp)" "0 \<le> n" "n < 2 ^ 46" using assms(1) by (simp_all add: frame_call_def)
  have "cap < LZ4F_compressFrameBound n (Some (frame_prefs pp n))" using frame_bound_value[OF p] assms(2) by simp
  then show ?thesis unfolding stack_ctx_value[OF p(1)] LZ4F_compressFrame_usingCDict_def Let_def by simp
qed

section \<open>Properties\<close>

text \<open>C39. \<open>LZ4F_compressFrame\<close> with valid preferences of the levels below 3 (those that do not use \<open>lz4hc.c\<close>) and a source
  of less than \<open>2 ^ 46\<close> bytes at a proper address, apart from the output buffer: with room for
  \<open>LZ4F_compressFrameBound\<close> bytes it succeeds, whatever the source, and what it writes is a frame whose header says what the preferences
  ask for and whose blocks stand for exactly the source; no byte outside the output buffer changes, and no more than the bound is used.
  With less room it reports \<open>dstMaxSize_tooSmall\<close> and writes nothing.\<close>

theorem LZ4F_compressFrame_correct:
  assumes "frame_call pp dst cap src n"
  shows "if cap < LZ4F_compressFrameBound n pp then LZ4F_compressFrame hc env mem dst cap src n pp = Some (Inl ERROR_dstMaxSize_tooSmall, mem)
    else \<exists>f mem'. LZ4F_compressFrame hc env mem dst cap src n pp = Some (Inr (int (length f)), mem')
      \<and> frame_of (written_info pp n) f (read_mem mem src n) \<and> stored mem' dst f \<and> changes dst cap mem mem'
      \<and> int (length f) \<le> LZ4F_compressFrameBound n pp"
  using compressFrame_ok[OF assms, of hc env mem] compressFrame_small[OF assms, of hc env mem] by (simp only: not_less split: if_split) blast

text \<open>The source of the samples: five bytes behind the frame.\<close>

lemma demo_frame_call: "frame_call None 1000 100 4000 5"
  by (simp add: frame_call_def prefs_ok_def given_prefs_def begun_info_def info_ok_def LZ4F_INIT_PREFERENCES_def LZ4F_INIT_FRAMEINFO_def apart_def)

lemma demo_bound: "LZ4F_compressFrameBound 5 None = 32"
proof -
  let ?fi = "begun_info LZ4F_INIT_FRAMEINFO" and ?p = "LZ4F_INIT_PREFERENCES\<lparr>autoFlush := True\<rparr>"
  have d: "info_ok ?fi" "crc_size ?fi = 0" "content_val (contentChecksumFlag ?fi) = 0"
    by (simp_all add: begun_info_def info_ok_def LZ4F_INIT_FRAMEINFO_def crc_size_def block_val_def content_val_def)
  then have "LZ4F_compressBound_internal 5 (Some (LZ4F_INIT_PREFERENCES\<lparr>frameInfo := ?fi, autoFlush := True\<rparr>)) 0 = 13"
    using one_block_bound[OF refl, of "LZ4F_INIT_PREFERENCES\<lparr>frameInfo := ?fi\<rparr>" 5] block_limit_bounds[of ?fi] by simp
  moreover have "LZ4F_compressBound_internal 5 (Some ?p) 0 = LZ4F_compressBound_internal 5 (Some (LZ4F_INIT_PREFERENCES\<lparr>frameInfo := ?fi, autoFlush := True\<rparr>)) 0"
    by (rule bound_cong) (simp_all add: begun_same LZ4F_INIT_PREFERENCES_def)
  ultimately show ?thesis by (simp add: LZ4F_compressFrameBound_def)
qed

lemma LZ4F_compressFrame_correct_witness:
  "\<forall>(hc :: unit hc_lib) env. \<exists>f mem'. LZ4F_compressFrame hc env (memory_at 4000 [1, 2, 3, 7, 8]) 1000 100 4000 5 None = Some (Inr (int (length f)), mem')
     \<and> frame_of (LZ4F_INIT_FRAMEINFO\<lparr>blockSizeID := 4, blockMode := LZ4F_blockIndependent\<rparr>) f [1, 2, 3, 7, 8] \<and> int (length f) \<le> 32"
proof -
  have "written_info None 5 = LZ4F_INIT_FRAMEINFO\<lparr>blockSizeID := 4, blockMode := LZ4F_blockIndependent\<rparr>"
    by (simp add: written_info_def begun_info_def frame_prefs_def LZ4F_optimalBSID_def optimal_loop.simps LZ4F_getBlockSize_def as_size_t_def
        LZ4F_INIT_PREFERENCES_def LZ4F_INIT_FRAMEINFO_def Let_def)
  moreover have "read_mem (memory_at 4000 [1, 2, 3, 7, 8]) 4000 5 = [1, 2, 3, 7, 8]"
    using memory_at_stored[of 4000 "[1, 2, 3, 7, 8]"] by (simp add: stored_def)
  ultimately show ?thesis using LZ4F_compressFrame_correct[OF demo_frame_call, of _ _ "memory_at 4000 [1, 2, 3, 7, 8]"] demo_bound by (simp add: demo_bound) blast
qed

text \<open>C40. What \<open>LZ4F_compressFrame\<close> writes, \<open>LZ4F_decompress\<close> reads back: one call on a context between two frames, whatever its past,
  given the whole output buffer of the compressor and room for the content, consumes exactly the bytes of the frame, restores exactly the
  source and returns 0, the end of the frame.\<close>

theorem LZ4F_frame_roundtrip:
  assumes "frame_call pp dst cap src n" "LZ4F_compressFrameBound n pp \<le> cap"
    and "dctx_reachable H d" "between_frames d" "caller_ok H denv out outCap dst cap" "low_addresses H out outCap dst cap" "allocates denv" "n \<le> outCap"
  shows "\<exists>k mem' r. LZ4F_compressFrame hc env mem dst cap src n pp = Some (Inr k, mem')
    \<and> LZ4F_decompress denv d mem' out outCap dst cap keep skip = Some r \<and> dret r = Inr 0 \<and> srcSize r = k
    \<and> dstSize r = n \<and> read_mem (mem_after r) out n = read_mem mem src n \<and> between_frames (dctx_after r)"
proof -
  obtain f mem' where f: "LZ4F_compressFrame hc env mem dst cap src n pp = Some (Inr (int (length f)), mem')" "frame_of (written_info pp n) f (read_mem mem src n)"
    "stored mem' dst f" "int (length f) \<le> LZ4F_compressFrameBound n pp"
    using compressFrame_ok[OF assms(1,2)] by blast
  have n: "int (length (read_mem mem src n)) = n" using assms(1) by (simp add: frame_call_def)
  have "int (length f) \<le> cap" using f(4) assms(2) by simp
  from whole_frame_decoded[OF assms(3-7) f(2,3) this, of keep skip] show ?thesis using f(1) n assms(8) by auto
qed

lemma LZ4F_frame_roundtrip_witness:
  "\<forall>(hc :: unit hc_lib) env. \<exists>k mem' r. LZ4F_compressFrame hc env (memory_at 4000 [1, 2, 3, 7, 8]) 1000 100 4000 5 None = Some (Inr k, mem')
    \<and> LZ4F_decompress sample_env LZ4F_createDecompressionContext mem' 3000 100 1000 100 False False = Some r \<and> dret r = Inr 0 \<and> srcSize r = k
    \<and> dstSize r = 5 \<and> read_mem (mem_after r) 3000 5 = [1, 2, 3, 7, 8] \<and> between_frames (dctx_after r)"
proof (intro allI)
  fix hc :: "unit hc_lib" and env
  have x: "read_mem (memory_at 4000 [1, 2, 3, 7, 8]) 4000 5 = [1, 2, 3, 7, 8]"
    using memory_at_stored[of 4000 "[1, 2, 3, 7, 8]"] by (simp add: stored_def)
  have "LZ4F_compressFrameBound 5 None \<le> 100" "caller_ok sample_heap sample_env 3000 100 1000 100" "low_addresses sample_heap 3000 100 1000 100" "(5 :: int) \<le> 100"
    using demo_bound sample_caller[of 100 100] sample_addresses[of 100 100] by simp_all
  from LZ4F_frame_roundtrip[OF demo_frame_call this(1) dctx_reachable.created created_between this(2,3) sample_allocates this(4),
      of hc env "memory_at 4000 [1, 2, 3, 7, 8]" False False]
  show "\<exists>k mem' r. LZ4F_compressFrame hc env (memory_at 4000 [1, 2, 3, 7, 8]) 1000 100 4000 5 None = Some (Inr k, mem')
    \<and> LZ4F_decompress sample_env LZ4F_createDecompressionContext mem' 3000 100 1000 100 False False = Some r \<and> dret r = Inr 0 \<and> srcSize r = k
    \<and> dstSize r = 5 \<and> read_mem (mem_after r) 3000 5 = [1, 2, 3, 7, 8] \<and> between_frames (dctx_after r)" unfolding x .
qed

end
