(* ===== verification/Spec2Isabelle.thy ===== *)
theory Spec2Isabelle
  imports Stream_Session XXHash64 LZ4F_Compress_Frame
begin

text \<open>
  Verification of python-lz4: the C code of the LZ4 library it bundles (\<open>src/lz4libs\<close>) and of its Python
  bindings \<open>lz4.block\<close> and \<open>lz4.stream\<close> (\<open>src/lz4/block/_block.c\<close>, \<open>src/lz4/stream/_stream.c\<close>).

  The program. \<open>lz4.c\<close> has a block compressor (\<open>LZ4_compress_generic\<close>), a block decoder
  (\<open>LZ4_decompress_generic\<close>), and streaming contexts for both that carry a dictionary from block to block.
  \<open>xxhash.c\<close> has the hashes. \<open>lz4frame.c\<close> puts blocks into frames: a header with parameters and a checksum,
  blocks with their sizes, an end mark, a checksum of the content; its decompressor is a state machine that
  takes its input in pieces of any size. \<open>_block.c\<close> and \<open>_stream.c\<close> expose blocks and streams of blocks as
  Python objects, each with its own length fields.

  Conventions. \<open>None\<close> is undefined behaviour of the C code (an access outside a buffer, a \<open>memcpy\<close> of
  overlapping ranges, an uninitialised value), so that "the result is \<open>Some\<close>" is memory safety; \<open>wp\<close> is the
  weakest precondition of such a computation. Errors are left values of a sum, or the negative or zero return
  values of the code. Bytes, hashes and fields of a fixed width are words; sizes and addresses are \<open>int\<close>,
  with \<open>mod 2 ^ w\<close> written out where the C type can wrap. The inner loops of \<open>lz4.c\<close> work on byte lists with
  checked accesses; the exported functions, the bindings and \<open>lz4frame.c\<close> on a flat memory from addresses to
  bytes, where a buffer is an address and a size. The machine is a 64-bit one; the byte order is a parameter
  of \<open>xxhash.c\<close>, and the fast decoding loop is switched by a parameter, as by the macro in the source.

  The theories:
  \<^item> \<open>LZ4_Prelude\<close>, \<open>LZ4_Memory\<close>: types, \<open>wp\<close> and its rules (collection \<open>wp_simps\<close>), lists, little-endian
    codecs; checked accesses, \<open>LZ4_wildCopy8\<close> and the other copy routines of \<open>lz4.c\<close>.
  \<^item> \<open>LZ4_Format\<close>: the block format as a grammar, independent of the code. Decoder and compressor are proved
    against it from two sides.
  \<^item> \<open>LZ4_Decompress\<close>: \<open>LZ4_decompress_generic\<close>. \<open>LZ4_Decompress_Copy\<close>, \<open>LZ4_Decompress_Sound\<close> and
    \<open>LZ4_Decompress_Complete\<close> show that it is memory safe on every input, that a result is the expansion of a
    block of the grammar, and that every proper block is decoded. \<open>LZ4_Decompress_Api\<close>: the exported
    functions and \<open>LZ4_streamDecode_t\<close>.
  \<^item> \<open>LZ4_Count\<close>, \<open>LZ4_Compress\<close>: \<open>LZ4_count\<close>, the hashes, \<open>LZ4_compress_generic\<close> and the one-shot functions.
    \<open>LZ4_Compress_Search\<close> (matches lie in the history), \<open>LZ4_Compress_Emit\<close> (what is written is what the
    grammar asks for) and \<open>LZ4_Compress_Sound\<close> (the loops end, the result is a block of the source, the bound
    is enough). \<open>LZ4_Compress_Stream\<close>: \<open>LZ4_stream_t\<close> and \<open>LZ4_compress_fast_continue\<close>. \<open>LZ4_Compress_Reset\<close>:
    contexts used again (\<open>LZ4_compress_fast_extState_fastReset\<close>).
  \<^item> \<open>Block_Binding\<close>: \<open>compress\<close> and \<open>decompress\<close> of \<open>_block.c\<close>, proved over the locale \<open>block_codec\<close>, which is
    interpreted by the functions of \<open>lz4.c\<close>. The allocator is a function from sizes to addresses, and the
    theorems say that nothing outside the block of the size requested is written.
  \<^item> \<open>Stream_Binding\<close>: the contexts of \<open>_stream.c\<close> with their double buffer, and the contexts reached from
    creation by any sequence of calls: \<open>encoding\<close> without restriction on the chunks, \<open>decoding\<close> up to a block
    that is empty or fills its page (there the code does not keep its history, see the findings).
    \<open>Stream_Session\<close>: a whole session of two contexts, over the locale \<open>stream_channel\<close>.
  \<^item> \<open>XXHash\<close>, \<open>XXHash64\<close>: one-shot and streaming hashes, over the locale \<open>streaming_hash\<close>, whose facts
    \<open>lz4frame.c\<close>'s checksums use.
  \<^item> \<open>LZ4F_Frame\<close>: error codes, block sizes, output bounds and the frame header of \<open>lz4frame.c\<close>, both
    directions. \<open>LZ4F_Decompress\<close>: \<open>LZ4F_decompress\<close>, one definition per stage, \<open>run_stages\<close> for its loop,
    \<open>LZ4F_updateDict\<close>, \<open>LZ4F_getFrameInfo\<close>. \<open>LZ4F_Decompress_Safe\<close>: the invariant of a context, stage by
    stage. \<open>LZ4F_Session\<close>: contexts reached by any sequence of calls, errors and resets, without history in
    the caller's memory (\<open>dctx_reachable\<close>: no \<open>stableDst\<close>, no dictionary) and with it (\<open>dctx_live\<close>); every call
    is safe and makes progress. \<open>LZ4F_Decode\<close>: what a frame is (\<open>frame_of\<close>), and that one call
    on a whole frame gives its content; what a size left over from an abandoned frame does to the next one.
  \<^item> \<open>LZ4F_Compress\<close>: the compression side, from \<open>LZ4F_createCDict\<close> and \<open>LZ4F_compressBegin\<close> to
    \<open>LZ4F_compressFrame\<close>; the functions of \<open>lz4hc.c\<close> are the parameter \<open>hc_lib\<close>. \<open>LZ4F_Compress_Block\<close>:
    \<open>LZ4F_makeBlock\<close> over the locale \<open>block_writer\<close>, which the block functions without \<open>lz4hc.c\<close> provide.
    \<open>LZ4F_Compress_Update\<close>: the blocks a call makes of its source, and that \<open>LZ4F_compressBound_internal\<close> covers
    them. \<open>LZ4F_Compress_Frame\<close>: \<open>LZ4F_compressFrame\<close> writes a frame in the sense of \<open>frame_of\<close>, within
    \<open>LZ4F_compressFrameBound\<close> bytes, which \<open>LZ4F_decompress\<close> reads back. There is no theorem about frames made
    of several updates (the internal buffer) nor about dictionaries on this side.

  Termination. The decoder's loops, the copy loops, \<open>next_match\<close> and \<open>run_stages\<close> are functions with a measure
  (input left; for \<open>run_stages\<close> input left, then the \<open>rank\<close> of the stage). The compressor's search is a
  \<open>partial_function (option)\<close>: that it ends is part of \<open>LZ4_compress_fast_correct\<close>. No fuel is used.

  In the frame code reads are not checked against the ends of a buffer (a flat memory has none); writes of the
  decompressor are: they stay in the caller's output buffer and in the buffers of the context, and never overlap
  what they read. Where an index of a field of the context could leave its array the result is \<open>None\<close>.

  Not modelled: \<open>lz4hc.c\<close> (the high-compression compressor is a parameter of the bindings and of the frame
  compressor, and their theorems are about the other modes and levels); \<open>_frame.c\<close>; the allocator (\<open>malloc\<close> and its failure are parameters), destructors and the reference
  counts of Python; the parsing of Python arguments, the module tables, the GIL; \<open>LZ4_compress_destSize\<close>, the
  \<open>LZ4_decompress_fast\<close> family and the deprecated functions, which the bindings do not call; in-place
  decoding; tables of pointers (\<open>byPtr\<close>), which only 32-bit machines use.
\<close>

end
